(* ===== verification/Prelude.thy ===== *)
theory Prelude
  imports Complex_Main "HOL-Library.AList"
begin

section \<open>Shared vocabulary of the model\<close>

text \<open>
  The types and containers every component uses, with the generic lemmas about them.

  \<^item> A JavaScript \<open>Map\<close> iterates in insertion order and keeps the position of a key that is
    set again, so it is an association list with \<open>AList.update\<close> (in place, or at the
    end) and \<open>AList.delete\<close>; a JavaScript \<open>Set\<close> is a list without repetition.
  \<^item> Epoch milliseconds and counters are \<open>int\<close>; they stay below \<open>2 ^ 53\<close> in the program,
    where a double holds them exactly.
  \<^item> A measured value is a \<open>jsnum\<close>: a finite number, one of the infinities or NaN, with the
    comparisons of ECMAScript (every comparison with NaN is false). Finite arithmetic is exact:
    the rounding and the overflow of doubles are not modelled. Limits and setpoints that a schema
    or a column constrains to be finite are \<open>rat\<close>.
\<close>

named_theorems js_simps "unfolding rules for the JavaScript containers and numbers"
named_theorems inv_intros "preservation of a component's invariant by its operations"

type_synonym ms = int

subsection \<open>Maps and sets in insertion order\<close>

type_synonym ('k, 'v) jsmap = "('k \<times> 'v) list"

abbreviation jget :: "('k, 'v) jsmap \<Rightarrow> 'k \<Rightarrow> 'v option" where
  "jget m k \<equiv> map_of m k"

abbreviation jset :: "'k \<Rightarrow> 'v \<Rightarrow> ('k, 'v) jsmap \<Rightarrow> ('k, 'v) jsmap" where
  "jset k v m \<equiv> AList.update k v m"

abbreviation jdel :: "'k \<Rightarrow> ('k, 'v) jsmap \<Rightarrow> ('k, 'v) jsmap" where
  "jdel k m \<equiv> AList.delete k m"

abbreviation jwf :: "('k, 'v) jsmap \<Rightarrow> bool" where
  "jwf m \<equiv> distinct (map fst m)"

definition sadd :: "'a \<Rightarrow> 'a list \<Rightarrow> 'a list" where
  "sadd x xs = (if x \<in> set xs then xs else xs @ [x])"

lemma jget_jset [simp]: "jget (jset k v m) k' = (if k' = k then Some v else jget m k')"
  by (simp add: update_conv')

lemma jget_jdel [simp]: "jget (jdel k m) k' = (if k' = k then None else jget m k')"
  by (simp add: delete_conv')

lemma jwf_jset [simp, intro]: "jwf m \<Longrightarrow> jwf (jset k v m)"
  by (rule distinct_update)

lemma jwf_jdel [simp, intro]: "jwf m \<Longrightarrow> jwf (jdel k m)"
  by (rule distinct_delete)

lemma jwf_filter [simp, intro]: "jwf m \<Longrightarrow> jwf (filter P m)"
  by (simp add: distinct_map_filter)

lemma keys_jset: "map fst (jset k v m) = (if k \<in> set (map fst m) then map fst m else map fst m @ [k])"
  by (simp add: update_keys)

lemma length_jset:
  "length (jset k v m) = (if k \<in> fst ` set m then length m else Suc (length m))"
  using arg_cong[OF keys_jset[of k v m], of length] by (simp split: if_splits)

lemma jget_None_iff: "jget m k = None \<longleftrightarrow> k \<notin> fst ` set m"
  by (rule map_of_eq_None_iff)

lemma jget_Some_key: "jget m k = Some v \<Longrightarrow> k \<in> fst ` set m"
  by (force dest: map_of_SomeD)

lemma jget_filter_None: "jget m k = None \<Longrightarrow> jget (filter P m) k = None"
  by (force simp: jget_None_iff)

lemma jget_filter:
  "jwf m \<Longrightarrow> jget (filter P m) k =
     (case jget m k of None \<Rightarrow> None | Some v \<Rightarrow> if P (k, v) then Some v else None)"
  by (induction m) (auto simp: jget_None_iff split: option.splits)

lemma jget_map_values:
  "jget (map (\<lambda>(k, v). (k, f v)) m) k = map_option f (jget m k)"
  by (induction m) auto

lemma fst_comp_values [simp]: "fst \<circ> (\<lambda>(k, v). (k, f v)) = fst"
  by auto

lemma values_jset: "snd ` set (jset k v m) \<subseteq> insert v (snd ` set m)"
  by (induction m) auto

lemma length_jset_le: "length (jset k v m) \<le> Suc (length m)"
  by (simp add: length_jset)

lemma set_sadd [simp]: "set (sadd x xs) = insert x (set xs)"
  by (auto simp: sadd_def)

lemma distinct_sadd [simp, intro]: "distinct xs \<Longrightarrow> distinct (sadd x xs)"
  by (simp add: sadd_def)

lemma jget_fold_jset:
  "inj_on f (set xs) \<Longrightarrow> x \<in> set xs \<Longrightarrow> jget (fold (\<lambda>x. jset (f x) (g x)) xs m) (f x) = Some (g x)"
proof (induction xs rule: rev_induct)
  case (snoc y ys)
  then show ?case by (auto simp: inj_on_def)
qed simp

lemma jget_fold_jset_other:
  "k \<notin> f ` set xs \<Longrightarrow> jget (fold (\<lambda>x. jset (f x) (g x)) xs m) k = jget m k"
  by (induction xs rule: rev_induct) auto

lemma length_fold_jset_le: "length (fold (\<lambda>x. jset (f x) (g x)) xs m) \<le> length m + length xs"
proof (induction xs rule: rev_induct)
  case (snoc y ys)
  then show ?case using length_jset_le[of "f y" "g y" "fold (\<lambda>x. jset (f x) (g x)) ys m"] by simp
qed simp

lemma keys_fold_jset: "fst ` set (fold (\<lambda>x. jset (f x) (g x)) xs m) = fst ` set m \<union> f ` set xs"
proof (induction xs rule: rev_induct)
  case (snoc y ys)
  then show ?case
    using arg_cong[OF keys_jset[of "f y" "g y" "fold (\<lambda>x. jset (f x) (g x)) ys m"], of set]
    by (auto split: if_splits)
qed simp

lemma jwf_fold_jset: "jwf m \<Longrightarrow> jwf (fold (\<lambda>x. jset (f x) (g x)) xs m)"
  by (induction xs rule: rev_induct) auto

lemma entries_jset: "jwf m \<Longrightarrow> set (jset k v m) = insert (k, v) {e \<in> set m. fst e \<noteq> k}"
  by (induction m) force+

lemma entries_jset_subset: "set (jset k v m) \<subseteq> insert (k, v) (set m)"
  by (induction m) auto

subsection \<open>Numbers\<close>

datatype jsnum = Num rat | PosInf | NegInf | NaN

definition js_finite :: "jsnum \<Rightarrow> bool" where
  "js_finite x = (case x of Num _ \<Rightarrow> True | _ \<Rightarrow> False)"

fun js_lt :: "jsnum \<Rightarrow> jsnum \<Rightarrow> bool" where
  "js_lt (Num a) (Num b) = (a < b)"
| "js_lt (Num _) PosInf = True"
| "js_lt NegInf (Num _) = True"
| "js_lt NegInf PosInf = True"
| "js_lt _ _ = False"

abbreviation js_gt :: "jsnum \<Rightarrow> jsnum \<Rightarrow> bool" where
  "js_gt a b \<equiv> js_lt b a"

fun js_neg :: "jsnum \<Rightarrow> jsnum" where
  "js_neg (Num a) = Num (- a)"
| "js_neg PosInf = NegInf"
| "js_neg NegInf = PosInf"
| "js_neg NaN = NaN"

fun js_abs :: "jsnum \<Rightarrow> jsnum" where
  "js_abs (Num a) = Num \<bar>a\<bar>"
| "js_abs NaN = NaN"
| "js_abs _ = PosInf"

fun js_plus :: "jsnum \<Rightarrow> jsnum \<Rightarrow> jsnum" where
  "js_plus (Num a) (Num b) = Num (a + b)"
| "js_plus NaN _ = NaN"
| "js_plus _ NaN = NaN"
| "js_plus PosInf NegInf = NaN"
| "js_plus NegInf PosInf = NaN"
| "js_plus PosInf _ = PosInf"
| "js_plus _ PosInf = PosInf"
| "js_plus NegInf _ = NegInf"
| "js_plus _ NegInf = NegInf"

definition js_minus :: "jsnum \<Rightarrow> jsnum \<Rightarrow> jsnum" where
  "js_minus a b = js_plus a (js_neg b)"

text \<open>The product and the quotient with a finite left factor and divisor, as the code uses them.\<close>

fun js_scale :: "rat \<Rightarrow> jsnum \<Rightarrow> jsnum" where
  "js_scale c (Num a) = Num (c * a)"
| "js_scale c NaN = NaN"
| "js_scale c PosInf = (if c > 0 then PosInf else if c < 0 then NegInf else NaN)"
| "js_scale c NegInf = (if c > 0 then NegInf else if c < 0 then PosInf else NaN)"

lemma js_minus_Num [simp]: "js_minus (Num a) (Num b) = Num (a - b)"
  by (simp add: js_minus_def)

lemma js_lt_NaN [simp]: "\<not> js_lt NaN x" "\<not> js_lt x NaN"
  by (cases x; simp)+

lemma js_lt_irrefl [simp]: "\<not> js_lt x x"
  by (cases x) auto

lemma js_lt_trans: "js_lt x y \<Longrightarrow> js_lt y z \<Longrightarrow> js_lt x z"
  by (cases x; cases y; cases z) auto

subsection \<open>JSON values\<close>

datatype json = JNull | JBool bool | JNumber rat | JString string | JArray "json list" | JObject "(string, json) jsmap"

text \<open>Reading a property of a value that is not null, as \<open>value.key\<close>; the code only asks for names no
  array or wrapper object has.\<close>

definition jfield :: "json \<Rightarrow> string \<Rightarrow> json option" where
  "jfield j k = (case j of JObject m \<Rightarrow> jget m k | _ \<Rightarrow> None)"

definition json_string :: "json \<Rightarrow> string option" where
  "json_string j = (case j of JString s \<Rightarrow> Some s | _ \<Rightarrow> None)"

fun all_some :: "'a option list \<Rightarrow> 'a list option" where
  "all_some [] = Some []"
| "all_some (None # xs) = None"
| "all_some (Some x # xs) = map_option (\<lambda>ys. x # ys) (all_some xs)"

definition json_int :: "json \<Rightarrow> int option" where
  "json_int j = (case j of JNumber n \<Rightarrow> if of_int \<lfloor>n\<rfloor> = n then Some \<lfloor>n\<rfloor> else None | _ \<Rightarrow> None)"

definition json_number :: "json \<Rightarrow> rat option" where
  "json_number j = (case j of JNumber n \<Rightarrow> Some n | _ \<Rightarrow> None)"

definition json_bool :: "json \<Rightarrow> bool option" where
  "json_bool j = (case j of JBool b \<Rightarrow> Some b | _ \<Rightarrow> None)"

text \<open>An optional property: absent is accepted, present it must parse.\<close>

definition json_optional :: "(json \<Rightarrow> 'a option) \<Rightarrow> json \<Rightarrow> string \<Rightarrow> 'a option option" where
  "json_optional parse j k = (case jfield j k of None \<Rightarrow> Some None | Some v \<Rightarrow> map_option Some (parse v))"

definition json_required :: "(json \<Rightarrow> 'a option) \<Rightarrow> json \<Rightarrow> string \<Rightarrow> 'a option" where
  "json_required parse j k = (case jfield j k of None \<Rightarrow> None | Some v \<Rightarrow> parse v)"

definition checked :: "('a \<Rightarrow> bool) \<Rightarrow> 'a option \<Rightarrow> 'a option" where
  "checked P v = (case v of Some x \<Rightarrow> if P x then Some x else None | None \<Rightarrow> None)"

declare js_finite_def [js_simps] js_minus_def [js_simps]

end
