(* ===== verification/Uuid.thy ===== *)
theory Uuid
  imports Prelude "HOL-Library.Word"
begin

unbundle bit_operations_syntax

section \<open>UUIDv7 identifiers (packages/types/src/ids.ts)\<close>

text \<open>
  \<open>uuidv7\<close>: the two module variables are the state, the clock and the sixteen random bytes are
  inputs. Bytes are 8-bit words (an element of a \<open>Uint8Array\<close>); the counter and the time are
  \<open>int\<close>, on which the code's masks and shifts are the same bit operations.
\<close>

type_synonym byte = "8 word"

record uuid_state =
  last_ms :: ms
  uuid_counter :: int

definition uuid_init :: uuid_state where
  "uuid_init = \<lparr>last_ms = 0, uuid_counter = 0\<rparr>"

definition counter_seed :: "byte list \<Rightarrow> int" where
  "counter_seed bytes = push_bit 8 (uint (bytes ! 6) AND 7) OR uint (bytes ! 7)"

text \<open>The time the id carries, and the new state.\<close>

definition uuid_tick :: "ms \<Rightarrow> byte list \<Rightarrow> uuid_state \<Rightarrow> ms \<times> uuid_state" where
  "uuid_tick now bytes st =
     (if now = last_ms st
      then (if uuid_counter st + 1 > 0xFFF
            then (now + 1, \<lparr>last_ms = now + 1, uuid_counter = 0\<rparr>)
            else (now, st\<lparr>uuid_counter := uuid_counter st + 1\<rparr>))
      else (let ms' = (if now < last_ms st then last_ms st else now)
            in (ms', \<lparr>last_ms = ms', uuid_counter = counter_seed bytes\<rparr>)))"

definition uuid_bytes :: "ms \<Rightarrow> int \<Rightarrow> byte list \<Rightarrow> byte list" where
  "uuid_bytes t counter bytes =
     bytes[0 := word_of_int (drop_bit 40 t AND 0xFF), 1 := word_of_int (drop_bit 32 t AND 0xFF),
           2 := word_of_int (drop_bit 24 t AND 0xFF), 3 := word_of_int (drop_bit 16 t AND 0xFF),
           4 := word_of_int (drop_bit 8 t AND 0xFF), 5 := word_of_int (t AND 0xFF),
           6 := word_of_int (0x70 OR (drop_bit 8 counter AND 0x0F)),
           7 := word_of_int (counter AND 0xFF),
           8 := (bytes ! 8 AND 0x3F) OR 0x80]"

definition hex_digit :: "nat \<Rightarrow> char" where
  "hex_digit n = ''0123456789abcdef'' ! n"

definition hex_byte :: "byte \<Rightarrow> string" where
  "hex_byte b = [hex_digit (unat b div 16), hex_digit (unat b mod 16)]"

definition uuid_format :: "byte list \<Rightarrow> string" where
  "uuid_format bytes =
     (let hex = concat (map hex_byte bytes) in
      take 8 hex @ ''-'' @ take 4 (drop 8 hex) @ ''-'' @ take 4 (drop 12 hex) @ ''-'' @
      take 4 (drop 16 hex) @ ''-'' @ drop 20 hex)"

definition uuidv7 :: "ms \<Rightarrow> byte list \<Rightarrow> uuid_state \<Rightarrow> string \<times> uuid_state" where
  "uuidv7 now bytes st =
     (let (t, st') = uuid_tick now bytes st
      in (uuid_format (uuid_bytes t (uuid_counter st') bytes), st'))"

subsection \<open>The sort key of an id\<close>

text \<open>The first eight bytes as one big-endian number: what an index orders ids by first.\<close>

fun big_endian :: "byte list \<Rightarrow> int" where
  "big_endian [] = 0"
| "big_endian (b # bs) = uint b * 256 ^ length bs + big_endian bs"

definition uuid_key :: "byte list \<Rightarrow> int" where
  "uuid_key bytes = big_endian (take 8 bytes)"

text \<open>The bytes an id is formatted from.\<close>

definition uuid_raw :: "ms \<Rightarrow> byte list \<Rightarrow> uuid_state \<Rightarrow> byte list" where
  "uuid_raw now bytes st =
     uuid_bytes (fst (uuid_tick now bytes st)) (uuid_counter (snd (uuid_tick now bytes st))) bytes"

lemma uint_byte_mask: "uint (word_of_int (x AND 0xFF) :: byte) = x mod 256"
proof -
  have "x AND 0xFF = take_bit 8 x" by (simp add: take_bit_eq_mask mask_eq_exp_minus_1)
  then show ?thesis by (simp add: uint_word_of_int take_bit_eq_mod)
qed

lemma version_nibble:
  assumes "0 \<le> x" "x < 16"
  shows "uint (word_of_int (0x70 OR x) :: byte) = 0x70 + x"
proof -
  have "x = 0 \<or> x = 1 \<or> x = 2 \<or> x = 3 \<or> x = 4 \<or> x = 5 \<or> x = 6 \<or> x = 7 \<or> x = 8 \<or> x = 9 \<or>
      x = 10 \<or> x = 11 \<or> x = 12 \<or> x = 13 \<or> x = 14 \<or> x = 15"
    using assms by presburger
  then show ?thesis by (elim disjE) simp_all
qed

lemma version_byte:
  assumes "0 \<le> c" "c < 4096"
  shows "uint (word_of_int (0x70 OR (drop_bit 8 c AND 0x0F)) :: byte) = 0x70 + c div 256"
proof -
  have "drop_bit 8 c AND 0x0F = take_bit 4 (drop_bit 8 c)"
    by (simp add: take_bit_eq_mask mask_eq_exp_minus_1)
  then have "drop_bit 8 c AND 0x0F = c div 256"
    using assms by (simp add: take_bit_eq_mod drop_bit_eq_div)
  then show ?thesis using assms by (simp add: version_nibble)
qed

lemma counter_seed_range: "0 \<le> counter_seed bytes" "counter_seed bytes < 2048"
proof -
  have h: "uint (bytes ! 6) AND 7 \<le> 7" by (rule AND_upper2) simp
  have l: "uint (bytes ! 7) < 256" using uint_lt2p[of "bytes ! 7"] by simp
  have "push_bit 8 (uint (bytes ! 6) AND 7) OR uint (bytes ! 7) < 2 ^ 11"
    by (rule OR_upper) (use h l in \<open>simp_all add: push_bit_eq_mult\<close>)
  then show "counter_seed bytes < 2048" by (simp add: counter_seed_def)
  show "0 \<le> counter_seed bytes" by (simp add: counter_seed_def)
qed

definition uuid_ok :: "uuid_state \<Rightarrow> bool" where
  "uuid_ok st = (0 \<le> uuid_counter st \<and> uuid_counter st < 4096)"

lemma uuid_tick_ok [inv_intros]: "uuid_ok st \<Longrightarrow> uuid_ok (snd (uuid_tick now bytes st))"
  using counter_seed_range[of bytes] by (auto simp: uuid_ok_def uuid_tick_def Let_def)

lemma uuid_tick_time: "fst (uuid_tick now bytes st) = last_ms (snd (uuid_tick now bytes st))"
  by (auto simp: uuid_tick_def Let_def)

lemma div_chain: "m = n + 8 \<Longrightarrow> (t :: int) div 2 ^ n = t div 2 ^ m * 256 + t div 2 ^ n mod 256"
proof -
  assume "m = n + 8"
  then have "t div 2 ^ m = t div 2 ^ n div 256" by (simp add: power_add zdiv_zmult2_eq)
  then show ?thesis by simp
qed

lemma base_256_sum:
  "(t :: int) = a1 * 256 + b0 \<Longrightarrow> a1 = a2 * 256 + b1 \<Longrightarrow> a2 = a3 * 256 + b2 \<Longrightarrow>
   a3 = a4 * 256 + b3 \<Longrightarrow> a4 = a5 * 256 + b4 \<Longrightarrow>
   t = a5 * 256 ^ 5 + b4 * 256 ^ 4 + b3 * 256 ^ 3 + b2 * 256 ^ 2 + b1 * 256 + b0"
  by simp

lemma big_endian_48:
  assumes "0 \<le> (t :: int)" "t < 2 ^ 48"
  shows "t = (t div 2 ^ 40) mod 256 * 256 ^ 5 + (t div 2 ^ 32) mod 256 * 256 ^ 4 +
     (t div 2 ^ 24) mod 256 * 256 ^ 3 + (t div 2 ^ 16) mod 256 * 256 ^ 2 + (t div 2 ^ 8) mod 256 * 256 +
     t mod 256"
proof -
  have "t div 2 ^ 40 div 256 = t div 2 ^ 48" by (simp add: zdiv_zmult2_eq[symmetric])
  moreover have "t div 2 ^ 48 = 0" using assms by (rule div_pos_pos_trivial)
  ultimately have top: "(t div 2 ^ 40) mod 256 = t div 2 ^ 40"
    by (metis add.left_neutral div_mult_mod_eq mult_zero_left)
  show ?thesis
    unfolding top
    by (rule base_256_sum[of t "t div 2 ^ 8" _ "t div 2 ^ 16" _ "t div 2 ^ 24" _ "t div 2 ^ 32"])
       ((rule div_chain; simp) | simp)+
qed

text \<open>The key of an id is its time, the version nibble and the counter.\<close>

lemma uuid_key_bytes:
  assumes "0 \<le> t" "t < 2 ^ 48" "0 \<le> c" "c < 4096" "length bytes = 16"
  shows "uuid_key (uuid_bytes t c bytes) = t * 65536 + 0x7000 + c"
proof -
  obtain b0 b1 b2 b3 b4 b5 b6 b7 b8 rest where "bytes = b0 # b1 # b2 # b3 # b4 # b5 # b6 # b7 # b8 # rest"
    using assms(5) by (auto simp: length_Suc_conv numeral_eq_Suc)
  then have "uuid_key (uuid_bytes t c bytes) =
      (t div 2 ^ 40) mod 256 * 256 ^ 7 + (t div 2 ^ 32) mod 256 * 256 ^ 6 + (t div 2 ^ 24) mod 256 * 256 ^ 5 +
      (t div 2 ^ 16) mod 256 * 256 ^ 4 + (t div 2 ^ 8) mod 256 * 256 ^ 3 + t mod 256 * 256 ^ 2 +
      (0x70 + c div 256) * 256 + c mod 256"
    using assms(3,4)
    by (simp add: uuid_key_def uuid_bytes_def uint_byte_mask version_byte[unfolded drop_bit_eq_div, simplified] drop_bit_eq_div)
  also have "\<dots> = t * 65536 + 0x7000 + c"
    using big_endian_48[OF assms(1,2)] by (simp add: algebra_simps)
  finally show ?thesis .
qed

lemma unat_byte_digits [simp]: "unat (b :: byte) div 16 < 16" "unat b mod 16 < 16"
proof -
  have "unat b < 256" using unsigned_less[of b, where ?'a = nat] by simp
  then show "unat b div 16 < 16" by simp
qed simp

text \<open>Reading an id back: two hexadecimal digits a byte, the dashes dropped.\<close>

fun digit_value :: "char \<Rightarrow> nat" where
  "digit_value c = (if of_char c \<ge> (97 :: nat) then of_char c - 87 else of_char c - 48)"

fun parse_hex :: "string \<Rightarrow> byte list" where
  "parse_hex (a # b # s) = of_nat (16 * digit_value a + digit_value b) # parse_hex s"
| "parse_hex _ = []"

definition uuid_parse :: "string \<Rightarrow> byte list" where
  "uuid_parse s = parse_hex (filter (\<lambda>c. c \<noteq> CHR ''-'') s)"

lemma hex_digit_all:
  "list_all (\<lambda>n. digit_value (hex_digit n) = n \<and> hex_digit n \<noteq> CHR ''-'') [0..<16]"
  by (simp add: upt_rec hex_digit_def)

lemma hex_digit_props:
  assumes "n < 16"
  shows "digit_value (hex_digit n) = n" "hex_digit n \<noteq> CHR ''-''"
  using hex_digit_all assms unfolding list_all_iff set_upt by auto

lemma parse_hex_bytes: "parse_hex (concat (map hex_byte bytes)) = bytes"
proof (induction bytes)
  case (Cons b bs)
  have "(of_nat (16 * (unat b div 16) + unat b mod 16) :: byte) = b"
    by (simp del: of_nat_add of_nat_mult)
  then show ?case using Cons by (simp add: hex_byte_def hex_digit_props del: digit_value.simps of_nat_add of_nat_mult)
qed simp

lemma hex_no_dash: "filter (\<lambda>c. c \<noteq> CHR ''-'') (concat (map hex_byte bytes)) = concat (map hex_byte bytes)"
  by (induction bytes) (simp_all add: hex_byte_def hex_digit_props)

lemma hex_length: "length (concat (map hex_byte bytes)) = 2 * length bytes"
  by (induction bytes) (simp_all add: hex_byte_def)

lemma hex_nth: "i < length bytes \<Longrightarrow> concat (map hex_byte bytes) ! (2 * i) = hex_digit (unat (bytes ! i) div 16)"
  by (induction bytes arbitrary: i) (auto simp: hex_byte_def nth_Cons split: nat.splits)

lemma format_pieces:
  "take 8 h @ take 4 (drop 8 h) @ take 4 (drop 12 h) @ take 4 (drop 16 h) @ drop 20 h = h"
  using append_take_drop_id[of 4 "drop 8 h"] append_take_drop_id[of 4 "drop 12 h"]
    append_take_drop_id[of 4 "drop 16 h"] by simp

lemma uuid_key_raw:
  assumes "uuid_ok st" "length bytes = 16" "0 \<le> now" "now < 2 ^ 48 - 1" "0 \<le> last_ms st" "last_ms st < 2 ^ 48"
  shows "uuid_key (uuid_raw now bytes st) =
    last_ms (snd (uuid_tick now bytes st)) * 65536 + 0x7000 + uuid_counter (snd (uuid_tick now bytes st))"
proof -
  have "0 \<le> last_ms (snd (uuid_tick now bytes st))" "last_ms (snd (uuid_tick now bytes st)) < 2 ^ 48"
    using assms(3-6) by (auto simp: uuid_tick_def Let_def)
  then show ?thesis
    using uuid_tick_ok[OF assms(1), of now bytes] assms(2)
    by (simp add: uuid_raw_def uuid_tick_time uuid_key_bytes uuid_ok_def)
qed

lemma snd_uuidv7 [simp]: "snd (uuidv7 now bytes st) = snd (uuid_tick now bytes st)"
  by (simp add: uuidv7_def split: prod.splits)

lemma fst_uuidv7: "fst (uuidv7 now bytes st) = uuid_format (uuid_raw now bytes st)"
  by (simp add: uuidv7_def uuid_raw_def split: prod.splits)

subsection \<open>Properties\<close>

text \<open>An id minted while the clock has not fallen behind the last recorded millisecond sorts
  strictly after the id before it, the millisecond being shared or not, and the counter overflowing
  or not: the leading eight bytes, read big-endian, are larger.\<close>
theorem uuid_monotone:
  assumes "uuid_ok st0" "length b1 = 16" "length b2 = 16" "0 \<le> n1" "n1 \<le> n2" "n2 < 2 ^ 48 - 1"
    and "0 \<le> last_ms st0" "last_ms st0 < 2 ^ 48 - 1"
    and "st1 = snd (uuidv7 n1 b1 st0)" "last_ms st1 \<le> n2"
  shows "uuid_key (uuid_raw n1 b1 st0) < uuid_key (uuid_raw n2 b2 st1)"
proof -
  have st1: "st1 = snd (uuid_tick n1 b1 st0)" using assms(9) by simp
  have ok1: "uuid_ok st1" using uuid_tick_ok[OF assms(1)] st1 by simp
  have t1: "0 \<le> last_ms st1" "last_ms st1 < 2 ^ 48"
    using assms(4-8) st1 by (auto simp: uuid_tick_def Let_def)
  have "last_ms st1 * 65536 + uuid_counter st1 <
      last_ms (snd (uuid_tick n2 b2 st1)) * 65536 + uuid_counter (snd (uuid_tick n2 b2 st1))"
    using assms(10) ok1 counter_seed_range[of b2] by (auto simp: uuid_tick_def Let_def uuid_ok_def)
  then show ?thesis using t1 ok1 assms st1 by (simp add: uuid_key_raw)
qed

theorem uuid_monotone_witness:
  "uuid_key (uuid_raw 1000 (replicate 16 0) uuid_init) <
   uuid_key (uuid_raw 1000 (replicate 16 7) (snd (uuidv7 1000 (replicate 16 0) uuid_init)))"
  by (rule uuid_monotone[OF _ _ _ _ _ _ _ _ refl])
     (simp_all add: uuid_init_def uuid_ok_def uuid_tick_def)

text \<open>The order does not survive a counter that overflows: the overflow borrows the next
  millisecond, every further call in the same millisecond then finds the clock behind and reseeds
  the counter at random, and a later id can sort before an earlier one.\<close>
theorem uuid_borrow_breaks_order:
  "\<exists>st b0 b1 b2. uuid_ok st \<and> length b0 = 16 \<and> length b1 = 16 \<and> length b2 = 16 \<and>
     last_ms st = 1000 \<and>
     (let st1 = snd (uuidv7 1000 b0 st); st2 = snd (uuidv7 1000 b1 st1) in
      last_ms st1 = 1001 \<and> uuid_key (uuid_raw 1000 b2 st2) < uuid_key (uuid_raw 1000 b1 st1))"
proof -
  let ?st = "\<lparr>last_ms = 1000, uuid_counter = 0xFFF\<rparr>"
  let ?b1 = "replicate 16 9 :: byte list"
  let ?st1 = "\<lparr>last_ms = 1001, uuid_counter = 0\<rparr>"
  let ?st2 = "\<lparr>last_ms = 1001, uuid_counter = 265\<rparr>"
  let ?b2 = "replicate 16 2 :: byte list"
  have s1: "uuid_tick 1000 ?b1 ?st = (1001, ?st1)" by (simp add: uuid_tick_def)
  have s2: "uuid_tick 1000 ?b1 ?st1 = (1001, ?st2)"
    by (simp add: uuid_tick_def counter_seed_def push_bit_eq_mult)
  have s3: "uuid_tick 1000 ?b2 ?st2 = (1001, \<lparr>last_ms = 1001, uuid_counter = 514\<rparr>)"
    by (simp add: uuid_tick_def counter_seed_def push_bit_eq_mult)
  let ?c2 = "replicate 16 0 :: byte list"
  have s4: "uuid_tick 1000 ?c2 ?st2 = (1001, \<lparr>last_ms = 1001, uuid_counter = 0\<rparr>)"
    by (simp add: uuid_tick_def counter_seed_def)
  have "uuid_key (uuid_raw 1000 ?c2 ?st2) < uuid_key (uuid_raw 1000 ?b1 ?st1)"
    using s2 s4 by (simp add: uuid_key_raw uuid_ok_def)
  then show ?thesis
    using s1 s2 by (intro exI[of _ ?st] exI[of _ ?b1] exI[of _ ?c2]) (simp add: uuid_ok_def)
qed

text \<open>The textual id is a faithful encoding of its sixteen bytes: it has 36 characters, dashes
  in the four places of RFC 9562 and the version digit 7, and dropping the dashes and reading the
  digits gives the bytes back.\<close>
theorem uuid_text_roundtrip:
  assumes "length bytes = 16" "uuid_ok st"
  shows "uuid_parse (fst (uuidv7 now bytes st)) = uuid_raw now bytes st \<and>
         length (fst (uuidv7 now bytes st)) = 36 \<and>
         (\<forall>i \<in> {8, 13, 18, 23}. fst (uuidv7 now bytes st) ! i = CHR ''-'') \<and>
         fst (uuidv7 now bytes st) ! 14 = CHR ''7''"
proof -
  let ?raw = "uuid_raw now bytes st"
  let ?h = "concat (map hex_byte ?raw)"
  let ?c = "uuid_counter (snd (uuid_tick now bytes st))"
  have len: "length ?raw = 16" using assms(1) by (simp add: uuid_raw_def uuid_bytes_def)
  then have hl: "length ?h = 32" by (simp add: hex_length)
  have nodash: "filter (\<lambda>c. c \<noteq> CHR ''-'') (take n (drop m ?h)) = take n (drop m ?h)"
      "filter (\<lambda>c. c \<noteq> CHR ''-'') (drop m ?h) = drop m ?h" for n m
    using hex_no_dash[of ?raw] unfolding filter_id_conv by (meson in_set_takeD in_set_dropD)+
  have "filter (\<lambda>c. c \<noteq> CHR ''-'') (uuid_format ?raw) = ?h"
    using nodash(1)[of _ 0] by (simp add: uuid_format_def Let_def nodash format_pieces)
  then have parse: "uuid_parse (uuid_format ?raw) = ?raw" by (simp add: uuid_parse_def parse_hex_bytes)
  have "?raw ! 6 = word_of_int (0x70 OR (drop_bit 8 ?c AND 0x0F))"
    using assms(1) by (simp add: uuid_raw_def uuid_bytes_def)
  then have "uint (?raw ! 6) = 0x70 + ?c div 256" "0 \<le> ?c div 256" "?c div 256 < 16"
    using uuid_tick_ok[OF assms(2), of now bytes] by (auto simp: uuid_ok_def version_byte)
  then have "112 \<le> unat (?raw ! 6) \<and> unat (?raw ! 6) < 128" by (simp add: unat_eq_nat_uint) linarith
  then have "unat (?raw ! 6) div 16 = 7" by (auto intro!: div_nat_eqI)
  then have "?h ! 12 = CHR ''7''" using hex_nth[of 6 ?raw] len by (simp add: hex_digit_def)
  moreover have "length (uuid_format ?raw) = 36" using hl by (simp add: uuid_format_def Let_def)
  moreover have "\<forall>i \<in> {8, 13, 18, 23}. uuid_format ?raw ! i = CHR ''-''" "uuid_format ?raw ! 14 = ?h ! 12"
    using hl by (simp_all add: uuid_format_def Let_def nth_append)
  ultimately show ?thesis using parse by (simp add: fst_uuidv7)
qed

theorem uuid_text_roundtrip_witness:
  "uuid_parse (fst (uuidv7 1000 (replicate 16 171) uuid_init)) = uuid_raw 1000 (replicate 16 171) uuid_init"
  using uuid_text_roundtrip[of "replicate 16 171" uuid_init 1000] by (simp add: uuid_init_def uuid_ok_def)

end
