(* ===== verification/Contracts.thy ===== *)
theory Contracts
  imports Prelude
begin

section \<open>The shared contracts (packages/types/src)\<close>

text \<open>
  The enumerations, the reading and its wire tuple (\<open>telemetry.ts\<close>), roles, principals and scopes
  (\<open>tenancy.ts\<close>), topics (\<open>ws.ts\<close>), the staleness rule (\<open>freshness.ts\<close>), the refinements of an
  alert rule (\<open>alerts.ts\<close>) and the control contracts (\<open>control.ts\<close>). Ids are strings.
\<close>

subsection \<open>Enumerations (\<open>enums.ts\<close>)\<close>

datatype equipment_status = Operational | Degraded | Fault | Offline | Maintenance

datatype metric_type =
    temperature_c | humidity_pct | co2_ppm | power_kw | energy_kwh | occupancy_count | pressure_pa
  | airflow_cmh | valve_position_pct | damper_position_pct | setpoint_temp_c | water_m3
  | illuminance_lux

datatype alert_severity = Info | Warning | Critical

datatype alert_state = AlertOpen | Acknowledged | Resolved

datatype alert_condition =
    threshold_above | threshold_below | rate_of_change | deviation_from_setpoint | flatline
  | no_data | out_of_range

subsection \<open>Readings (\<open>telemetry.ts\<close>)\<close>

datatype quality = Good | Uncertain | OutOfRange | StaleQuality | DeviceFault

record reading =
  rd_sensor :: string
  rd_ts :: ms
  rd_value :: jsnum
  rd_quality :: quality

type_synonym reading_tuple = "string \<times> ms \<times> jsnum \<times> quality"

fun expand_reading :: "reading_tuple \<Rightarrow> reading" where
  "expand_reading (s, t, v, q) = \<lparr>rd_sensor = s, rd_ts = t, rd_value = v, rd_quality = q\<rparr>"

definition compact_reading :: "reading \<Rightarrow> reading_tuple" where
  "compact_reading r = (rd_sensor r, rd_ts r, rd_value r, rd_quality r)"

text \<open>A gateway's reading, by external id; the time and the declared quality are optional.\<close>

record raw_reading =
  rw_external_id :: string
  rw_ts :: "ms option"
  rw_value :: jsnum
  rw_quality :: "quality option"

definition max_batch_readings :: int where
  "max_batch_readings = 10000"

text \<open>What the schema \<open>RawTelemetryBatch\<close> asks of a parsed batch.\<close>

definition raw_batch_ok :: "raw_reading list \<Rightarrow> bool" where
  "raw_batch_ok rs =
     (1 \<le> length rs \<and> int (length rs) \<le> max_batch_readings \<and>
      list_all (\<lambda>r. 1 \<le> length (rw_external_id r) \<and> rw_value r \<noteq> NaN) rs)"

subsection \<open>Tenancy (\<open>tenancy.ts\<close>)\<close>

datatype tenant_role = Owner | Admin | Operator | Viewer

fun role_rank :: "tenant_role \<Rightarrow> int" where
  "role_rank Viewer = 0"
| "role_rank Operator = 1"
| "role_rank Admin = 2"
| "role_rank Owner = 3"

definition role_at_least :: "tenant_role \<Rightarrow> tenant_role \<Rightarrow> bool" where
  "role_at_least held required = (role_rank held \<ge> role_rank required)"

datatype api_key_kind = DeviceKey | ServiceKey

datatype api_scope = IngestWrite | SimNotify | SimRun | ControlWrite | ControlDispatch

fun scope_name :: "api_scope \<Rightarrow> string" where
  "scope_name IngestWrite = ''ingest:write''"
| "scope_name SimNotify = ''sim:notify''"
| "scope_name SimRun = ''sim:run''"
| "scope_name ControlWrite = ''control:write''"
| "scope_name ControlDispatch = ''control:dispatch''"

datatype principal =
    UserPrincipal (pr_tenant: string) (pr_user: string) (pr_session: string) (pr_role: tenant_role)
  | ApiKeyPrincipal (pr_tenant: string) (pr_key: string) (pr_kind: api_key_kind) (pr_scopes: "string list")

fun has_scope :: "principal \<Rightarrow> api_scope \<Rightarrow> bool" where
  "has_scope (ApiKeyPrincipal _ _ _ scopes) scope = (scope_name scope \<in> set scopes)"
| "has_scope (UserPrincipal _ _ _ _) scope = False"

subsection \<open>Topics (\<open>ws.ts\<close>)\<close>

type_synonym topic = string

definition topic_building :: "string \<Rightarrow> topic" where "topic_building i = ''building:'' @ i"
definition topic_floor :: "string \<Rightarrow> topic" where "topic_floor i = ''floor:'' @ i"
definition topic_zone :: "string \<Rightarrow> topic" where "topic_zone i = ''zone:'' @ i"
definition topic_sensor :: "string \<Rightarrow> topic" where "topic_sensor i = ''sensor:'' @ i"
definition topic_sim :: "string \<Rightarrow> topic" where "topic_sim i = ''sim:'' @ i"
definition topic_tenant_alerts :: "string \<Rightarrow> topic" where "topic_tenant_alerts i = ''alerts:'' @ i"

lemmas topic_defs = topic_building_def topic_floor_def topic_zone_def topic_sensor_def topic_sim_def
  topic_tenant_alerts_def

text \<open>\<open>slice(0, indexOf(':'))\<close>: with no colon \<open>indexOf\<close> is \<open>-1\<close>, and \<open>slice(0, -1)\<close> drops the last
  character while \<open>slice(0)\<close> is the whole string.\<close>

definition topic_scope :: "topic \<Rightarrow> string" where
  "topic_scope t = (if CHR '':'' \<in> set t then takeWhile (\<lambda>c. c \<noteq> CHR '':'') t else butlast t)"

definition topic_id :: "topic \<Rightarrow> string" where
  "topic_id t = (if CHR '':'' \<in> set t then tl (dropWhile (\<lambda>c. c \<noteq> CHR '':'') t) else t)"

definition uuid_char :: "char \<Rightarrow> bool" where
  "uuid_char c = (c \<in> set ''0123456789abcdefABCDEF-'')"

definition topic_ok :: "topic \<Rightarrow> bool" where
  "topic_ok t =
     (CHR '':'' \<in> set t \<and>
      topic_scope t \<in> {''building'', ''floor'', ''zone'', ''sensor'', ''alerts'', ''sim''} \<and>
      length (topic_id t) = 36 \<and> list_all uuid_char (topic_id t))"

subsection \<open>Staleness (\<open>freshness.ts\<close>)\<close>

definition stale_intervals :: int where
  "stale_intervals = 3"

definition stale_after_ms :: "int \<Rightarrow> ms" where
  "stale_after_ms sample_interval_s = sample_interval_s * stale_intervals * 1000"

definition reading_age_ms :: "ms \<Rightarrow> ms \<Rightarrow> ms \<Rightarrow> ms \<Rightarrow> ms" where
  "reading_age_ms ts received_at now not_before = max 0 (now - max (min ts received_at) not_before)"

definition is_reading_stale :: "ms \<Rightarrow> ms \<Rightarrow> int \<Rightarrow> ms \<Rightarrow> ms \<Rightarrow> bool" where
  "is_reading_stale ts received_at sample_interval_s now not_before =
     (reading_age_ms ts received_at now not_before > stale_after_ms sample_interval_s)"

subsection \<open>Alert rules (\<open>alerts.ts\<close>)\<close>

record alert_rule =
  ar_id :: string
  ar_tenant :: string
  ar_name :: string
  ar_building :: "string option"
  ar_floor :: "string option"
  ar_zone :: "string option"
  ar_equipment :: "string option"
  ar_sensor :: "string option"
  ar_metric :: "metric_type option"
  ar_condition :: alert_condition
  ar_threshold :: "rat option"
  ar_window_s :: "int option"
  ar_consecutive :: int
  ar_cooldown_s :: int
  ar_severity :: alert_severity

text \<open>The refinements of the schema \<open>AlertRule\<close>, in order; the first that fails is reported.\<close>

definition rule_scopes :: "alert_rule \<Rightarrow> string option list" where
  "rule_scopes r = [ar_building r, ar_floor r, ar_zone r, ar_equipment r, ar_sensor r]"

definition alert_rule_check :: "alert_rule \<Rightarrow> string + unit" where
  "alert_rule_check r =
     (if length (filter (\<lambda>v. v \<noteq> None) (rule_scopes r)) \<noteq> 1
      then Inl ''exactly one scope target must be set''
      else if \<not> (ar_condition r \<in> {flatline, no_data, out_of_range} \<or> ar_threshold r \<noteq> None)
      then Inl ''this condition requires a threshold''
      else if \<not> (ar_condition r \<notin> {rate_of_change, flatline, no_data} \<or> ar_window_s r \<noteq> None)
      then Inl ''this condition requires a window''
      else if \<not> (ar_sensor r \<noteq> None \<or> ar_metric r \<noteq> None)
      then Inl ''a rule broader than one sensor must name a metric''
      else Inr ())"

subsection \<open>Control (\<open>control.ts\<close>)\<close>

datatype command_state = Pending | Dispatched | Applied | Failed | Expired | Cancelled | Superseded

definition control_roles :: "tenant_role list" where
  "control_roles = [Owner, Admin, Operator]"

definition may_command :: "tenant_role \<Rightarrow> bool" where
  "may_command role = (role \<in> set control_roles)"

datatype control_refusal =
    control_disabled | forbidden_role | equipment_unavailable | feedback_unusable | outside_envelope
  | step_too_large | no_change | command_in_flight | too_soon | duration_too_long | no_baseline

record control_settings =
  cs_enabled :: bool
  cs_max_deviation_k :: rat
  cs_max_step_k :: rat
  cs_min_interval_s :: int
  cs_default_duration_s :: int
  cs_max_duration_s :: int
  cs_command_ttl_s :: int

record setpoint_request =
  sq_zone :: string
  sq_setpoint :: rat
  sq_reason :: string
  sq_duration_s :: "int option"
  sq_dry_run :: bool

definition setpoint_request_ok :: "setpoint_request \<Rightarrow> bool" where
  "setpoint_request_ok q =
     (-50 \<le> sq_setpoint q \<and> sq_setpoint q \<le> 60 \<and>
      3 \<le> length (sq_reason q) \<and> length (sq_reason q) \<le> 500 \<and>
      (\<forall>d \<in> set_option (sq_duration_s q). 0 < d \<and> d \<le> 86400))"

datatype command_outcome = OutcomeApplied | OutcomeFailed

definition result_report_ok :: "command_outcome \<Rightarrow> string option \<Rightarrow> bool" where
  "result_report_ok outcome detail =
     ((\<forall>d \<in> set_option detail. length d \<le> 500) \<and>
      (outcome \<noteq> OutcomeFailed \<or> (case detail of Some d \<Rightarrow> length d | None \<Rightarrow> 0) > 0))"

subsection \<open>Lemmas\<close>

lemma topic_scope_append [simp]:
  "CHR '':'' \<notin> set s \<Longrightarrow> topic_scope (s @ CHR '':'' # i) = s"
  unfolding topic_scope_def by (induction s) auto

lemma topic_id_append [simp]:
  "CHR '':'' \<notin> set s \<Longrightarrow> topic_id (s @ CHR '':'' # i) = i"
  unfolding topic_id_def by (induction s) auto

lemma topic_parts:
  "topic_scope (topic_building i) = ''building''" "topic_id (topic_building i) = i"
  "topic_scope (topic_floor i) = ''floor''" "topic_id (topic_floor i) = i"
  "topic_scope (topic_zone i) = ''zone''" "topic_id (topic_zone i) = i"
  "topic_scope (topic_sensor i) = ''sensor''" "topic_id (topic_sensor i) = i"
  "topic_scope (topic_sim i) = ''sim''" "topic_id (topic_sim i) = i"
  "topic_scope (topic_tenant_alerts i) = ''alerts''" "topic_id (topic_tenant_alerts i) = i"
  by (simp_all add: topic_defs topic_scope_def topic_id_def)

lemma topic_scope_id:
  "CHR '':'' \<in> set t \<Longrightarrow> t = topic_scope t @ CHR '':'' # topic_id t"
  by (induction t) (auto simp: topic_scope_def topic_id_def)

lemma expand_compact [simp]: "expand_reading (compact_reading r) = r"
  by (simp add: compact_reading_def)

lemma compact_expand [simp]: "compact_reading (expand_reading t) = t"
  by (cases t) (simp add: compact_reading_def)

lemma stale_later:
  "is_reading_stale ts rc si now nb \<Longrightarrow> now \<le> now' \<Longrightarrow> is_reading_stale ts rc si now' nb"
  by (auto simp: is_reading_stale_def reading_age_ms_def)

lemma rule_scope_unique:
  assumes "alert_rule_check r = Inr ()"
  shows "length (filter (\<lambda>v. v \<noteq> None) (rule_scopes r)) = 1"
  using assms by (simp add: alert_rule_check_def split: if_splits)

end
