(* ===== verification/Envelope.thy ===== *)
theory Envelope
  imports Contracts
begin

section \<open>The safety envelope (apps/ingest/src/control/envelope.ts)\<close>

text \<open>
  The judgement of one setpoint command against a snapshot of its zone. The sentences that go with a
  refusal are left out; which refusal is given, and in which order the checks run, is modelled. The
  setpoints are exact rationals, the slack of \<open>1e-9\<close> that absorbs the rounding of doubles is kept.
\<close>

record serving_equipment =
  se_tag :: string
  se_status :: equipment_status

record zone_feedback =
  zf_value :: jsnum
  zf_ts :: ms
  zf_received_at :: ms
  zf_quality :: quality
  zf_interval_s :: int

record zone_context =
  zc_exists :: bool
  zc_baseline :: "rat option"
  zc_override :: "rat option"
  zc_equipment :: "serving_equipment list"
  zc_feedback :: "zone_feedback option"
  zc_last_command_at :: "ms option"
  zc_in_flight :: bool

record envelope_context =
  ec_settings :: control_settings
  ec_role :: tenant_role
  ec_zone :: zone_context
  ec_now :: ms

record permit =
  pm_previous :: rat
  pm_duration_s :: int
  pm_expires_at :: ms
  pm_effective_until :: ms

type_synonym verdict = "control_refusal + permit"

definition blocking_statuses :: "equipment_status list" where
  "blocking_statuses = [Fault, Offline, Maintenance]"

definition setpoint_epsilon :: rat where
  "setpoint_epsilon = 5 / 100"

definition rounding_slack :: rat where
  "rounding_slack = 1 / 10 ^ 9"

definition evaluate_command :: "rat \<Rightarrow> int option \<Rightarrow> envelope_context \<Rightarrow> verdict" where
  "evaluate_command target duration ctx =
     (let s = ec_settings ctx; z = ec_zone ctx; now = ec_now ctx in
      if \<not> may_command (ec_role ctx) then Inl forbidden_role
      else if \<not> cs_enabled s then Inl control_disabled
      else case zc_baseline z of
        None \<Rightarrow> Inl no_baseline
      | Some baseline \<Rightarrow>
          if filter (\<lambda>e. se_status e \<in> set blocking_statuses) (zc_equipment z) \<noteq> [] then Inl equipment_unavailable
          else case zc_feedback z of
            None \<Rightarrow> Inl feedback_unusable
          | Some f \<Rightarrow>
              if zf_quality f \<noteq> Good then Inl feedback_unusable
              else if is_reading_stale (zf_ts f) (zf_received_at f) (zf_interval_s f) now 0 then Inl feedback_unusable
              else
                let current = (case zc_override z of Some v \<Rightarrow> v | None \<Rightarrow> baseline);
                    deviation = \<bar>target - baseline\<bar>; step = \<bar>target - current\<bar>
                in if deviation > cs_max_deviation_k s + rounding_slack then Inl outside_envelope
                   else if step > cs_max_step_k s + rounding_slack then Inl step_too_large
                   else if step \<le> setpoint_epsilon then Inl no_change
                   else if zc_in_flight z then Inl command_in_flight
                   else if (case zc_last_command_at z of
                              None \<Rightarrow> False
                            | Some previous \<Rightarrow> (of_int (now - previous) / 1000 :: rat) < of_int (cs_min_interval_s s))
                   then Inl too_soon
                   else
                     let duration_s = (case duration of Some d \<Rightarrow> d | None \<Rightarrow> cs_default_duration_s s)
                     in if duration_s > cs_max_duration_s s then Inl duration_too_long
                        else Inr \<lparr>pm_previous = current, pm_duration_s = duration_s,
                               pm_expires_at = now + cs_command_ttl_s s * 1000,
                               pm_effective_until = now + duration_s * 1000\<rparr>)"

subsection \<open>The checks, one by one\<close>

text \<open>
  The reference: the eleven conditions, each stated on its own, in the order the operator is to be told.
  The deviation is measured from the designed setpoint, the step from whatever holds now.
\<close>

definition baseline_of :: "envelope_context \<Rightarrow> rat" where
  "baseline_of ctx = (case zc_baseline (ec_zone ctx) of Some b \<Rightarrow> b | None \<Rightarrow> 0)"

definition setpoint_now :: "envelope_context \<Rightarrow> rat" where
  "setpoint_now ctx = (case zc_override (ec_zone ctx) of Some v \<Rightarrow> v | None \<Rightarrow> baseline_of ctx)"

definition feedback_usable :: "envelope_context \<Rightarrow> bool" where
  "feedback_usable ctx = (case zc_feedback (ec_zone ctx) of
       None \<Rightarrow> False
     | Some f \<Rightarrow> zf_quality f = Good \<and> \<not> is_reading_stale (zf_ts f) (zf_received_at f) (zf_interval_s f) (ec_now ctx) 0)"

definition held_long_enough :: "envelope_context \<Rightarrow> bool" where
  "held_long_enough ctx = (case zc_last_command_at (ec_zone ctx) of
       None \<Rightarrow> True | Some t \<Rightarrow> t + 1000 * cs_min_interval_s (ec_settings ctx) \<le> ec_now ctx)"

definition duration_of :: "int option \<Rightarrow> envelope_context \<Rightarrow> int" where
  "duration_of duration ctx = (case duration of Some d \<Rightarrow> d | None \<Rightarrow> cs_default_duration_s (ec_settings ctx))"

definition envelope_checks :: "rat \<Rightarrow> int option \<Rightarrow> envelope_context \<Rightarrow> (control_refusal \<times> bool) list" where
  "envelope_checks target duration ctx =
     [(forbidden_role, ec_role ctx \<notin> {Owner, Admin, Operator}),
      (control_disabled, \<not> cs_enabled (ec_settings ctx)),
      (no_baseline, zc_baseline (ec_zone ctx) = None),
      (equipment_unavailable, list_ex (\<lambda>e. se_status e \<notin> {Operational, Degraded}) (zc_equipment (ec_zone ctx))),
      (feedback_unusable, \<not> feedback_usable ctx),
      (outside_envelope, \<bar>target - baseline_of ctx\<bar> > cs_max_deviation_k (ec_settings ctx) + rounding_slack),
      (step_too_large, \<bar>target - setpoint_now ctx\<bar> > cs_max_step_k (ec_settings ctx) + rounding_slack),
      (no_change, \<bar>target - setpoint_now ctx\<bar> \<le> setpoint_epsilon),
      (command_in_flight, zc_in_flight (ec_zone ctx)),
      (too_soon, \<not> held_long_enough ctx),
      (duration_too_long, duration_of duration ctx > cs_max_duration_s (ec_settings ctx))]"

definition granted :: "int option \<Rightarrow> envelope_context \<Rightarrow> permit" where
  "granted duration ctx =
     \<lparr>pm_previous = setpoint_now ctx, pm_duration_s = duration_of duration ctx,
      pm_expires_at = ec_now ctx + cs_command_ttl_s (ec_settings ctx) * 1000,
      pm_effective_until = ec_now ctx + duration_of duration ctx * 1000\<rparr>"

lemma may_command_roles: "may_command r \<longleftrightarrow> r \<in> {Owner, Admin, Operator}"
  by (cases r) (simp_all add: may_command_def control_roles_def)

lemma blocking_iff: "s \<in> set blocking_statuses \<longleftrightarrow> s \<notin> {Operational, Degraded}"
  by (cases s) (simp_all add: blocking_statuses_def)

lemma too_soon_iff: "(of_int (now - t) / 1000 :: rat) < of_int m \<longleftrightarrow> \<not> t + 1000 * m \<le> now"
proof -
  have "(of_int (now - t) / 1000 :: rat) < of_int m \<longleftrightarrow> (of_int (now - t) :: rat) < of_int (1000 * m)"
    by (simp add: divide_less_eq mult.commute)
  then show ?thesis by (simp only: of_int_less_iff) linarith
qed

lemma evaluate_command_checks:
  "evaluate_command target duration ctx =
     (case filter snd (envelope_checks target duration ctx) of
        [] \<Rightarrow> Inr (granted duration ctx)
      | (refusal, _) # _ \<Rightarrow> Inl refusal)"
proof -
  obtain s r z now where c: "ctx = \<lparr>ec_settings = s, ec_role = r, ec_zone = z, ec_now = now\<rparr>"
    by (cases ctx) auto
  have q: "filter (\<lambda>e. se_status e \<in> set blocking_statuses) es \<noteq> [] \<longleftrightarrow>
      list_ex (\<lambda>e. se_status e \<notin> {Operational, Degraded}) es" for es
    by (simp add: filter_empty_conv list_ex_iff blocking_iff)
  show ?thesis
    unfolding c evaluate_command_def envelope_checks_def q too_soon_iff may_command_roles
    by (cases "zc_baseline z"; cases "zc_feedback z"; cases "zc_last_command_at z"; cases "zc_override z"; cases duration)
      (simp_all add: Let_def baseline_of_def setpoint_now_def feedback_usable_def held_long_enough_def duration_of_def granted_def)
qed

text \<open>C15: The envelope is its list of checks: a command is permitted exactly when none of the eleven
  conditions holds, otherwise the refusal is the first that does, in the documented order, and a
  permit carries the setpoint being left, the duration and the two deadlines.\<close>
theorem envelope_first_failure:
  "evaluate_command target duration ctx =
     (case filter snd (envelope_checks target duration ctx) of
        [] \<Rightarrow> Inr (granted duration ctx)
      | (refusal, _) # _ \<Rightarrow> Inl refusal)"
  by (rule evaluate_command_checks)

lemma permit_checks:
  assumes "evaluate_command target duration ctx = Inr p"
  shows "list_all (\<lambda>(_, failed). \<not> failed) (envelope_checks target duration ctx)" "p = granted duration ctx"
proof -
  have "filter snd (envelope_checks target duration ctx) = []"
    using assms unfolding evaluate_command_checks by (auto split: list.splits)
  then show "list_all (\<lambda>(_, failed). \<not> failed) (envelope_checks target duration ctx)" "p = granted duration ctx"
    using assms unfolding evaluate_command_checks by (auto simp: filter_empty_conv list_all_iff)
qed

text \<open>What a permit guarantees of the zone, whatever the request's rate.\<close>

definition command_safe :: "rat \<Rightarrow> envelope_context \<Rightarrow> bool" where
  "command_safe target ctx =
     (ec_role ctx \<noteq> Viewer \<and> cs_enabled (ec_settings ctx) \<and>
      list_all (\<lambda>e. se_status e \<in> {Operational, Degraded}) (zc_equipment (ec_zone ctx)) \<and>
      feedback_usable ctx \<and>
      (case zc_baseline (ec_zone ctx) of
         None \<Rightarrow> False
       | Some b \<Rightarrow> \<bar>target - b\<bar> \<le> cs_max_deviation_k (ec_settings ctx) + rounding_slack))"

lemma permit_safe:
  assumes "evaluate_command target duration ctx = Inr p"
  shows "command_safe target ctx"
  using permit_checks(1)[OF assms]
  by (auto simp: envelope_checks_def command_safe_def list_ex_iff list_all_iff baseline_of_def split: option.splits)

text \<open>Narrower limits permit less: a setting can be tightened without letting anything new through.\<close>

definition narrower :: "control_settings \<Rightarrow> control_settings \<Rightarrow> bool" where
  "narrower s t =
     ((cs_enabled s \<longrightarrow> cs_enabled t) \<and> cs_max_deviation_k s \<le> cs_max_deviation_k t \<and>
      cs_max_step_k s \<le> cs_max_step_k t \<and> cs_min_interval_s t \<le> cs_min_interval_s s \<and>
      cs_default_duration_s s = cs_default_duration_s t \<and> cs_max_duration_s s \<le> cs_max_duration_s t)"

lemma narrower_permits_less:
  assumes "narrower s (ec_settings ctx)" "evaluate_command target duration (ctx\<lparr>ec_settings := s\<rparr>) = Inr p"
  shows "\<exists>q. evaluate_command target duration ctx = Inr q \<and> pm_effective_until q = pm_effective_until p"
proof -
  have p: "p = granted duration (ctx\<lparr>ec_settings := s\<rparr>)" by (rule permit_checks(2)[OF assms(2)])
  have "filter snd (envelope_checks target duration ctx) = []"
    using permit_checks(1)[OF assms(2)] assms(1)
    by (auto simp: envelope_checks_def narrower_def filter_empty_conv list_all_iff baseline_of_def setpoint_now_def
        feedback_usable_def held_long_enough_def duration_of_def split: option.splits)
  then show ?thesis
    using assms(1) by (simp add: evaluate_command_checks p granted_def duration_of_def narrower_def split: option.split)
qed

end
