(* ===== verification/Control_Store.thy ===== *)
theory Control_Store
  imports Envelope "HOL-Library.List_Lexorder" "HOL-Library.Char_ord"
begin

section \<open>Persistence of commands (apps/ingest/src/control/store.ts)\<close>

text \<open>
  The tables \<open>control_commands\<close> and \<open>control_settings\<close> with the statements on them. The row-level
  policies restrict every statement to the tenant in scope; the CHECK constraints, the foreign key to
  the zone and the unique index on one live command per zone are those of migration 017. A statement
  that a constraint refuses is an error value, \<open>now()\<close> is an argument. The building's own tables, which
  these statements only read, are a record of their rows. Display names joined for the reader are left out.
\<close>

record command =
  cc_tenant :: string
  cc_zone :: string
  cc_setpoint :: rat
  cc_previous :: "rat option"
  cc_state :: command_state
  cc_reason :: string
  cc_requested_by :: string
  cc_requested_at :: ms
  cc_expires_at :: ms
  cc_effective_until :: ms
  cc_claim :: "(ms \<times> string) option"
  cc_attempts :: int
  cc_applied_at :: "ms option"
  cc_settled_at :: "ms option"
  cc_detail :: "string option"

record control_db =
  cd_commands :: "(string, command) jsmap"
  cd_settings :: "(string, control_settings) jsmap"

record zone_row =
  zr_tenant :: string
  zr_profile :: "string option"

record point_row =
  pt_id :: string
  pt_tenant :: string
  pt_zone :: "string option"
  pt_metric :: metric_type
  pt_active :: bool
  pt_interval_s :: int

record measured_row =
  sm_tenant :: string
  sm_sensor :: string
  sm_time :: ms
  sm_value :: jsnum
  sm_quality :: quality

record building =
  bd_zones :: "(string, zone_row) jsmap"
  bd_profiles :: "(string, string \<times> rat) jsmap"
  bd_service :: "(string \<times> string \<times> string) list"
  bd_equipment :: "(string, string \<times> serving_equipment) jsmap"
  bd_points :: "point_row list"
  bd_samples :: "measured_row list"

subsection \<open>Settings\<close>

definition default_settings :: control_settings where
  "default_settings = \<lparr>cs_enabled = False, cs_max_deviation_k = 3, cs_max_step_k = 2, cs_min_interval_s = 900,
     cs_default_duration_s = 3600, cs_max_duration_s = 43200, cs_command_ttl_s = 300\<rparr>"

definition settings_sane :: "control_settings \<Rightarrow> bool" where
  "settings_sane s =
     (0 < cs_max_deviation_k s \<and> 0 < cs_max_step_k s \<and> 0 \<le> cs_min_interval_s s \<and> 0 < cs_default_duration_s s \<and>
      cs_default_duration_s s \<le> cs_max_duration_s s \<and> 0 < cs_command_ttl_s s)"

definition get_settings :: "string \<Rightarrow> control_db \<Rightarrow> control_settings \<times> control_db" where
  "get_settings tenant db =
     (case jget (cd_settings db) tenant of
        Some s \<Rightarrow> (s, db)
      | None \<Rightarrow> (default_settings, db\<lparr>cd_settings := jset tenant default_settings (cd_settings db)\<rparr>))"

record settings_patch =
  sp_enabled :: "bool option"
  sp_max_deviation_k :: "rat option"
  sp_max_step_k :: "rat option"
  sp_min_interval_s :: "int option"
  sp_default_duration_s :: "int option"
  sp_max_duration_s :: "int option"
  sp_command_ttl_s :: "int option"

definition empty_patch :: settings_patch where
  "empty_patch = \<lparr>sp_enabled = None, sp_max_deviation_k = None, sp_max_step_k = None, sp_min_interval_s = None,
     sp_default_duration_s = None, sp_max_duration_s = None, sp_command_ttl_s = None\<rparr>"

definition or_else :: "'a \<Rightarrow> 'a option \<Rightarrow> 'a" where
  "or_else d v = (case v of Some x \<Rightarrow> x | None \<Rightarrow> d)"

definition patch_settings :: "settings_patch \<Rightarrow> control_settings \<Rightarrow> control_settings" where
  "patch_settings p s =
     \<lparr>cs_enabled = or_else (cs_enabled s) (sp_enabled p),
      cs_max_deviation_k = or_else (cs_max_deviation_k s) (sp_max_deviation_k p),
      cs_max_step_k = or_else (cs_max_step_k s) (sp_max_step_k p),
      cs_min_interval_s = or_else (cs_min_interval_s s) (sp_min_interval_s p),
      cs_default_duration_s = or_else (cs_default_duration_s s) (sp_default_duration_s p),
      cs_max_duration_s = or_else (cs_max_duration_s s) (sp_max_duration_s p),
      cs_command_ttl_s = or_else (cs_command_ttl_s s) (sp_command_ttl_s p)\<rparr>"

text \<open>The row is created first, in a transaction of its own, so it stays when the update is refused.\<close>

definition update_settings :: "string \<Rightarrow> settings_patch \<Rightarrow> control_db \<Rightarrow> control_settings option \<times> control_db" where
  "update_settings tenant p db =
     (let (s, db1) = get_settings tenant db in
      if p = empty_patch then (Some s, db1)
      else let t = patch_settings p s in
           if settings_sane t then (Some t, db1\<lparr>cd_settings := jset tenant t (cd_settings db1)\<rparr>)
           else (None, db1))"

subsection \<open>The zone's context\<close>

definition visible :: "string \<Rightarrow> control_db \<Rightarrow> (string \<times> command) list" where
  "visible tenant db = filter (\<lambda>(i, c). cc_tenant c = tenant) (cd_commands db)"

definition zone_baseline :: "string \<Rightarrow> string \<Rightarrow> building \<Rightarrow> rat option" where
  "zone_baseline tenant zone b =
     (case jget (bd_zones b) zone of
        Some z \<Rightarrow> if zr_tenant z \<noteq> tenant then None
          else (case zr_profile z of
             None \<Rightarrow> None
           | Some p \<Rightarrow> (case jget (bd_profiles b) p of
               Some (t, setpoint) \<Rightarrow> if t = tenant then Some setpoint else None
             | None \<Rightarrow> None))
      | None \<Rightarrow> None)"

definition zone_equipment :: "string \<Rightarrow> string \<Rightarrow> building \<Rightarrow> serving_equipment list" where
  "zone_equipment tenant zone b =
     concat (map (\<lambda>(t, z, e).
       if t = tenant \<and> z = zone
       then (case jget (bd_equipment b) e of
               Some (t', q) \<Rightarrow> if t' = tenant then [q] else []
             | None \<Rightarrow> [])
       else []) (bd_service b))"

definition zone_point :: "string \<Rightarrow> string \<Rightarrow> building \<Rightarrow> point_row option" where
  "zone_point tenant zone b =
     (case sort_key pt_id (filter (\<lambda>p. pt_tenant p = tenant \<and> pt_zone p = Some zone \<and> pt_metric p = temperature_c
             \<and> pt_active p) (bd_points b)) of
        [] \<Rightarrow> None | p # _ \<Rightarrow> Some p)"

definition one_day_ms :: ms where
  "one_day_ms = 86400000"

definition latest_sample :: "string \<Rightarrow> string \<Rightarrow> ms \<Rightarrow> building \<Rightarrow> measured_row option" where
  "latest_sample tenant sensor now b =
     (case sort_key (\<lambda>s. - sm_time s) (filter (\<lambda>s. sm_tenant s = tenant \<and> sm_sensor s = sensor
             \<and> sm_time s > now - one_day_ms) (bd_samples b)) of
        [] \<Rightarrow> None | s # _ \<Rightarrow> Some s)"

definition in_force :: "ms \<Rightarrow> command \<Rightarrow> bool" where
  "in_force now c = (cc_state c = Applied \<and> cc_effective_until c > now)"

definition live_command :: "command \<Rightarrow> bool" where
  "live_command c = (cc_state c = Pending \<or> cc_state c = Dispatched)"

definition zone_override :: "string \<Rightarrow> string \<Rightarrow> ms \<Rightarrow> control_db \<Rightarrow> rat option" where
  "zone_override tenant zone now db =
     (case sort_key (\<lambda>c. - cc_effective_until c)
             (filter (\<lambda>c. cc_zone c = zone \<and> in_force now c) (map snd (visible tenant db))) of
        [] \<Rightarrow> None | c # _ \<Rightarrow> Some (cc_setpoint c))"

definition load_zone_context :: "string \<Rightarrow> string \<Rightarrow> ms \<Rightarrow> building \<Rightarrow> control_db \<Rightarrow> zone_context" where
  "load_zone_context tenant zone now b db =
     (let commands = filter (\<lambda>c. cc_zone c = zone) (map snd (visible tenant db)) in
      \<lparr>zc_exists = (case jget (bd_zones b) zone of Some z \<Rightarrow> zr_tenant z = tenant | None \<Rightarrow> False),
       zc_baseline = zone_baseline tenant zone b,
       zc_override = zone_override tenant zone now db,
       zc_equipment = zone_equipment tenant zone b,
       zc_feedback = (case zone_point tenant zone b of
            None \<Rightarrow> None
          | Some p \<Rightarrow> (case latest_sample tenant (pt_id p) now b of
              None \<Rightarrow> None
            | Some s \<Rightarrow> Some \<lparr>zf_value = sm_value s, zf_ts = sm_time s, zf_received_at = sm_time s,
                zf_quality = sm_quality s, zf_interval_s = pt_interval_s p\<rparr>)),
       zc_last_command_at = (if commands = [] then None else Some (Max (set (map cc_requested_at commands)))),
       zc_in_flight = list_ex live_command commands\<rparr>)"

subsection \<open>Queueing\<close>

record new_command =
  nx_tenant :: string
  nx_zone :: string
  nx_setpoint :: rat
  nx_previous :: rat
  nx_reason :: string
  nx_requested_by :: string
  nx_expires_at :: ms
  nx_effective_until :: ms

definition command_check :: "command \<Rightarrow> bool" where
  "command_check c = (cc_effective_until c > cc_expires_at c \<and> -50 < cc_setpoint c \<and> cc_setpoint c < 60)"

definition zone_busy :: "string \<Rightarrow> string \<Rightarrow> control_db \<Rightarrow> bool" where
  "zone_busy tenant zone db =
     list_ex (\<lambda>c. live_command c \<and> cc_tenant c = tenant \<and> cc_zone c = zone) (map snd (cd_commands db))"

definition new_row :: "ms \<Rightarrow> new_command \<Rightarrow> command" where
  "new_row now n =
     \<lparr>cc_tenant = nx_tenant n, cc_zone = nx_zone n, cc_setpoint = nx_setpoint n, cc_previous = Some (nx_previous n),
      cc_state = Pending, cc_reason = nx_reason n, cc_requested_by = nx_requested_by n, cc_requested_at = now,
      cc_expires_at = nx_expires_at n, cc_effective_until = nx_effective_until n, cc_claim = None, cc_attempts = 0,
      cc_applied_at = None, cc_settled_at = None, cc_detail = None\<rparr>"

text \<open>The table's checks come before the unique index, whose violation is the only one that is caught, and
  the foreign keys after it. \<open>Inl\<close> is the exception that goes on to the caller.\<close>

definition insert_command ::
  "building \<Rightarrow> string \<Rightarrow> ms \<Rightarrow> new_command \<Rightarrow> control_db \<Rightarrow> (string + (string \<times> command) option) \<times> control_db" where
  "insert_command b new_id now n db =
     (let c = new_row now n in
      if \<not> command_check c then (Inl ''check_violation'', db)
      else if zone_busy (nx_tenant n) (nx_zone n) db then (Inr None, db)
      else case jget (bd_zones b) (nx_zone n) of
             None \<Rightarrow> (Inl ''foreign_key_violation'', db)
           | Some z \<Rightarrow>
               if zr_tenant z \<noteq> nx_tenant n then (Inl ''foreign_key_violation'', db)
               else (Inr (Some (new_id, c)), db\<lparr>cd_commands := jset new_id c (cd_commands db)\<rparr>))"

definition get_command :: "string \<Rightarrow> string \<Rightarrow> control_db \<Rightarrow> (string \<times> command) option" where
  "get_command tenant i db =
     (case jget (cd_commands db) i of
        Some c \<Rightarrow> if cc_tenant c = tenant then Some (i, c) else None
      | None \<Rightarrow> None)"

subsection \<open>The lifecycle\<close>

definition update_where :: "string \<Rightarrow> (string \<Rightarrow> command \<Rightarrow> bool) \<Rightarrow> (command \<Rightarrow> command) \<Rightarrow> control_db \<Rightarrow> control_db" where
  "update_where tenant p f db =
     db\<lparr>cd_commands := map (\<lambda>(i, c). (i, if cc_tenant c = tenant \<and> p i c then f c else c)) (cd_commands db)\<rparr>"

definition count_where :: "string \<Rightarrow> (string \<Rightarrow> command \<Rightarrow> bool) \<Rightarrow> control_db \<Rightarrow> nat" where
  "count_where tenant p db = length (filter (\<lambda>(i, c). p i c) (visible tenant db))"

definition expire_stale :: "string \<Rightarrow> ms \<Rightarrow> control_db \<Rightarrow> nat \<times> control_db" where
  "expire_stale tenant now db =
     (let stale = (\<lambda>i c. cc_state c = Pending \<and> cc_expires_at c \<le> now) in
      (count_where tenant stale db,
       update_where tenant stale (\<lambda>c. c\<lparr>cc_state := Expired, cc_settled_at := Some now,
         cc_detail := Some ''not collected before expires_at''\<rparr>) db))"

definition collectable :: "ms \<Rightarrow> command \<Rightarrow> bool" where
  "collectable now c = (cc_state c = Pending \<and> cc_expires_at c > now)"

definition claim_ids :: "string \<Rightarrow> nat \<Rightarrow> ms \<Rightarrow> string list \<Rightarrow> control_db \<Rightarrow> string list" where
  "claim_ids tenant limit now locked db =
     map fst (take limit (sort_key (cc_requested_at \<circ> snd)
       (filter (\<lambda>(i, c). collectable now c \<and> i \<notin> set locked) (visible tenant db))))"

definition claim_commands ::
  "string \<Rightarrow> string \<Rightarrow> nat \<Rightarrow> ms \<Rightarrow> string list \<Rightarrow> control_db \<Rightarrow> (string \<times> command) list \<times> control_db" where
  "claim_commands tenant gateway limit now locked db =
     (let ids = claim_ids tenant limit now locked db;
          db1 = update_where tenant (\<lambda>i c. i \<in> set ids)
            (\<lambda>c. c\<lparr>cc_state := Dispatched, cc_claim := Some (now, gateway), cc_attempts := cc_attempts c + 1\<rparr>) db
      in (List.map_filter (\<lambda>i. get_command tenant i db1) ids, db1))"

definition release_command :: "string \<Rightarrow> string \<Rightarrow> string \<Rightarrow> control_db \<Rightarrow> control_db" where
  "release_command tenant i detail db =
     update_where tenant (\<lambda>j c. j = i \<and> cc_state c = Dispatched)
       (\<lambda>c. c\<lparr>cc_state := Pending, cc_claim := None, cc_detail := Some detail\<rparr>) db"

definition settle_row :: "command_outcome \<Rightarrow> string option \<Rightarrow> ms \<Rightarrow> command \<Rightarrow> command" where
  "settle_row outcome detail now c =
     c\<lparr>cc_state := (case outcome of OutcomeApplied \<Rightarrow> Applied | OutcomeFailed \<Rightarrow> Failed), cc_settled_at := Some now,
       cc_applied_at := (case outcome of OutcomeApplied \<Rightarrow> Some now | OutcomeFailed \<Rightarrow> None), cc_detail := detail\<rparr>"

definition supersede :: "string \<Rightarrow> string \<Rightarrow> string \<Rightarrow> ms \<Rightarrow> control_db \<Rightarrow> control_db" where
  "supersede tenant zone i now db =
     update_where tenant (\<lambda>j c. cc_zone c = zone \<and> j \<noteq> i \<and> in_force now c)
       (\<lambda>c. c\<lparr>cc_state := Superseded, cc_settled_at := Some now, cc_detail := Some ''replaced by a later override''\<rparr>) db"

definition settle_command ::
  "string \<Rightarrow> string \<Rightarrow> command_outcome \<Rightarrow> string option \<Rightarrow> ms \<Rightarrow> control_db \<Rightarrow> (string \<times> command) option \<times> control_db" where
  "settle_command tenant i outcome detail now db =
     (case get_command tenant i db of
        None \<Rightarrow> (None, db)
      | Some (_, c) \<Rightarrow>
          if cc_state c \<noteq> Dispatched then (None, db)
          else let db1 = update_where tenant (\<lambda>j c. j = i \<and> cc_state c = Dispatched) (settle_row outcome detail now) db;
                   db2 = (if outcome = OutcomeApplied then supersede tenant (cc_zone c) i now db1 else db1)
               in (get_command tenant i db2, db2))"

definition cancel_command :: "string \<Rightarrow> string \<Rightarrow> ms \<Rightarrow> control_db \<Rightarrow> (string \<times> command) option \<times> control_db" where
  "cancel_command tenant i now db =
     (let p = (\<lambda>j c. j = i \<and> live_command c);
          db1 = update_where tenant p (\<lambda>c. c\<lparr>cc_state := Cancelled, cc_settled_at := Some now,
            cc_detail := Some ''cancelled before it was applied''\<rparr>) db
      in (if count_where tenant p db > 0 then get_command tenant i db1 else None, db1))"

subsection \<open>Reading\<close>

fun first_per_zone :: "string list \<Rightarrow> command list \<Rightarrow> command list" where
  "first_per_zone seen [] = []"
| "first_per_zone seen (c # cs) =
     (if cc_zone c \<in> set seen then first_per_zone seen cs else c # first_per_zone (cc_zone c # seen) cs)"

text \<open>\<open>DISTINCT ON (zone_id)\<close> in the order of zone and latest deadline.\<close>

definition active_overrides :: "string \<Rightarrow> ms \<Rightarrow> control_db \<Rightarrow> (string \<times> rat \<times> ms) list" where
  "active_overrides tenant now db =
     map (\<lambda>c. (cc_zone c, cc_setpoint c, cc_effective_until c))
       (first_per_zone [] (sort_key cc_zone (sort_key (\<lambda>c. - cc_effective_until c)
         (filter (in_force now) (map snd (visible tenant db))))))"

record command_page =
  cp_commands :: "(string \<times> command) list"
  cp_total :: nat
  cp_limit :: nat
  cp_truncated :: bool

definition list_commands :: "string \<Rightarrow> nat \<Rightarrow> control_db \<Rightarrow> command_page" where
  "list_commands tenant limit db =
     (let all = sort_key (\<lambda>(i, c). - cc_requested_at c) (visible tenant db); rows = take limit all;
          total = (if rows = [] then 0 else length all)
      in \<lparr>cp_commands = rows, cp_total = total, cp_limit = limit, cp_truncated = total > length rows\<rparr>)"

subsection \<open>What a statement does to a row\<close>

lemma update_where_get:
  "jget (cd_commands (update_where tenant p f db)) i =
     map_option (\<lambda>c. if cc_tenant c = tenant \<and> p i c then f c else c) (jget (cd_commands db) i)"
proof -
  have "jget (map (\<lambda>(i, c). (i, if cc_tenant c = tenant \<and> p i c then f c else c)) m) i =
     map_option (\<lambda>c. if cc_tenant c = tenant \<and> p i c then f c else c) (jget m i)" for m
  proof (induction m)
    case (Cons e m)
    then show ?case by (cases e) simp
  qed simp
  from this[of "cd_commands db"] show ?thesis by (simp add: update_where_def)
qed

lemma update_where_jwf [simp]: "jwf (cd_commands (update_where tenant p f db)) = jwf (cd_commands db)"
  by (simp add: update_where_def case_prod_beta comp_def)

lemma update_where_settings [simp]: "cd_settings (update_where tenant p f db) = cd_settings db"
  by (simp add: update_where_def)

lemma get_command_Some: "get_command tenant i db = Some e \<longleftrightarrow>
    (\<exists>c. e = (i, c) \<and> jget (cd_commands db) i = Some c \<and> cc_tenant c = tenant)"
  by (auto simp: get_command_def split: option.splits if_splits)

text \<open>The legal moves of a command; every statement makes only these.\<close>

definition may_follow :: "command_state \<Rightarrow> command_state \<Rightarrow> bool" where
  "may_follow s t = (s = t \<or> (case s of
       Pending \<Rightarrow> t \<in> {Dispatched, Expired, Cancelled}
     | Dispatched \<Rightarrow> t \<in> {Pending, Applied, Failed, Cancelled}
     | Applied \<Rightarrow> t = Superseded
     | _ \<Rightarrow> False))"

text \<open>What was asked for, by whom and until when is never rewritten.\<close>

definition same_order :: "command \<Rightarrow> command \<Rightarrow> bool" where
  "same_order c d =
     (cc_tenant d = cc_tenant c \<and> cc_zone d = cc_zone c \<and> cc_setpoint d = cc_setpoint c \<and>
      cc_previous d = cc_previous c \<and> cc_reason d = cc_reason c \<and> cc_requested_by d = cc_requested_by c \<and>
      cc_requested_at d = cc_requested_at c \<and> cc_expires_at d = cc_expires_at c \<and>
      cc_effective_until d = cc_effective_until c)"

definition row_step :: "command \<Rightarrow> command \<Rightarrow> bool" where
  "row_step c d = (same_order c d \<and> may_follow (cc_state c) (cc_state d))"

lemma row_step_refl [simp]: "row_step c c"
  by (simp add: row_step_def same_order_def may_follow_def)

definition rows_step :: "control_db \<Rightarrow> control_db \<Rightarrow> bool" where
  "rows_step db db' =
     (\<forall>i c. jget (cd_commands db) i = Some c \<longrightarrow> (\<exists>d. jget (cd_commands db') i = Some d \<and> row_step c d))"

definition tenant_kept :: "string \<Rightarrow> control_db \<Rightarrow> control_db \<Rightarrow> bool" where
  "tenant_kept other db db' =
     (\<forall>i c. cc_tenant c = other \<longrightarrow> (jget (cd_commands db') i = Some c \<longleftrightarrow> jget (cd_commands db) i = Some c))"

lemma update_where_rows:
  assumes "\<And>i c. jget (cd_commands db) i = Some c \<Longrightarrow> cc_tenant c = tenant \<Longrightarrow> p i c \<Longrightarrow> row_step c (f c)"
  shows "rows_step db (update_where tenant p f db)"
  using assms by (auto simp: rows_step_def update_where_get)

lemma update_where_tenant:
  assumes "\<And>i c. jget (cd_commands db) i = Some c \<Longrightarrow> cc_tenant c = tenant \<Longrightarrow> p i c \<Longrightarrow> row_step c (f c)" "other \<noteq> tenant"
  shows "tenant_kept other db (update_where tenant p f db)"
  unfolding tenant_kept_def
proof (intro allI impI)
  fix i and c :: command assume c: "cc_tenant c = other"
  show "jget (cd_commands (update_where tenant p f db)) i = Some c \<longleftrightarrow> jget (cd_commands db) i = Some c"
  proof (cases "jget (cd_commands db) i")
    case (Some d)
    have "cc_tenant (f d) = cc_tenant d" if "cc_tenant d = tenant" "p i d"
      using assms(1)[OF Some that] by (simp add: row_step_def same_order_def)
    then show ?thesis using c assms(2) Some by (auto simp: update_where_get)
  qed (simp add: update_where_get)
qed

lemmas statement_defs = expire_stale_def claim_commands_def release_command_def supersede_def cancel_command_def

lemma claim_ids_collectable:
  assumes "i \<in> set (claim_ids tenant limit now locked db)" "jwf (cd_commands db)"
  shows "\<exists>c. jget (cd_commands db) i = Some c \<and> cc_tenant c = tenant \<and> collectable now c"
proof -
  obtain c where "(i, c) \<in> set (cd_commands db)" "cc_tenant c = tenant" "collectable now c"
    using assms(1) by (auto simp: claim_ids_def visible_def dest!: in_set_takeD)
  then show ?thesis using assms(2) by auto
qed

definition claimed_row :: "ms \<Rightarrow> string \<Rightarrow> command \<Rightarrow> command" where
  "claimed_row now gateway c =
     c\<lparr>cc_state := Dispatched, cc_claim := Some (now, gateway), cc_attempts := cc_attempts c + 1\<rparr>"

lemma claim_commands_db:
  "snd (claim_commands tenant gateway limit now locked db) =
     update_where tenant (\<lambda>i c. i \<in> set (claim_ids tenant limit now locked db)) (claimed_row now gateway) db"
  by (simp add: claim_commands_def Let_def claimed_row_def[abs_def])

lemma claim_row_pending:
  assumes "jwf (cd_commands db)" "i \<in> set (claim_ids tenant limit now locked db)" "jget (cd_commands db) i = Some c"
  shows "collectable now c"
  using claim_ids_collectable[OF assms(2,1)] assms(3) by simp

text \<open>The row functions of the statements, and that each is a legal move where its guard holds.\<close>

lemma row_moves:
  "cc_state c = Pending \<Longrightarrow> row_step c (c\<lparr>cc_state := Expired, cc_settled_at := t, cc_detail := d\<rparr>)"
  "cc_state c = Pending \<Longrightarrow> row_step c (claimed_row now gateway c)"
  "cc_state c = Dispatched \<Longrightarrow> row_step c (c\<lparr>cc_state := Pending, cc_claim := None, cc_detail := d\<rparr>)"
  "cc_state c = Applied \<Longrightarrow> row_step c (c\<lparr>cc_state := Superseded, cc_settled_at := t, cc_detail := d\<rparr>)"
  "live_command c \<Longrightarrow> row_step c (c\<lparr>cc_state := Cancelled, cc_settled_at := t, cc_detail := d\<rparr>)"
  "cc_state c = Dispatched \<Longrightarrow> row_step c (settle_row outcome d now c)"
  by (auto simp: row_step_def same_order_def may_follow_def claimed_row_def live_command_def settle_row_def
      split: command_outcome.splits)

lemma statement_rows:
  "rows_step db (snd (expire_stale tenant now db))"
  "jwf (cd_commands db) \<Longrightarrow> rows_step db (snd (claim_commands tenant gateway limit now locked db))"
  "rows_step db (release_command tenant i detail db)"
  "rows_step db (supersede tenant zone i now db)"
  "rows_step db (snd (cancel_command tenant i now db))"
  unfolding claim_commands_db expire_stale_def release_command_def supersede_def cancel_command_def Let_def snd_conv
      apply (rule update_where_rows, simp add: row_moves)
     apply (rule update_where_rows, frule claim_row_pending, assumption, assumption, simp add: row_moves collectable_def)
    apply (rule update_where_rows, simp add: row_moves)
   apply (rule update_where_rows, simp add: row_moves in_force_def)
  apply (rule update_where_rows, simp add: row_moves)
  done

lemma statement_tenant:
  assumes "other \<noteq> tenant"
  shows "tenant_kept other db (snd (expire_stale tenant now db))"
    "jwf (cd_commands db) \<Longrightarrow> tenant_kept other db (snd (claim_commands tenant gateway limit now locked db))"
    "tenant_kept other db (release_command tenant i detail db)"
    "tenant_kept other db (supersede tenant zone i now db)"
    "tenant_kept other db (snd (cancel_command tenant i now db))"
  unfolding claim_commands_db expire_stale_def release_command_def supersede_def cancel_command_def Let_def snd_conv
      apply (rule update_where_tenant[OF _ assms], simp add: row_moves)
     apply (rule update_where_tenant[OF _ assms], frule claim_row_pending, assumption, assumption, simp add: row_moves collectable_def)
    apply (rule update_where_tenant[OF _ assms], simp add: row_moves)
   apply (rule update_where_tenant[OF _ assms], simp add: row_moves in_force_def)
  apply (rule update_where_tenant[OF _ assms], simp add: row_moves)
  done

subsection \<open>One live command and one override per zone\<close>

definition control_ok :: "ms \<Rightarrow> control_db \<Rightarrow> bool" where
  "control_ok now db =
     (jwf (cd_commands db) \<and>
      (\<forall>i c. jget (cd_commands db) i = Some c \<longrightarrow> command_check c) \<and>
      (\<forall>i j c d. jget (cd_commands db) i = Some c \<longrightarrow> jget (cd_commands db) j = Some d \<longrightarrow>
         cc_tenant c = cc_tenant d \<longrightarrow> cc_zone c = cc_zone d \<longrightarrow>
         (live_command c \<and> live_command d \<or> in_force now c \<and> in_force now d) \<longrightarrow> i = j))"

lemma control_okI:
  assumes "jwf (cd_commands db)" "\<And>i c. jget (cd_commands db) i = Some c \<Longrightarrow> command_check c"
    "\<And>i j c d. jget (cd_commands db) i = Some c \<Longrightarrow> jget (cd_commands db) j = Some d \<Longrightarrow>
       cc_tenant c = cc_tenant d \<Longrightarrow> cc_zone c = cc_zone d \<Longrightarrow>
       live_command c \<and> live_command d \<or> in_force now c \<and> in_force now d \<Longrightarrow> i = j"
  shows "control_ok now db"
  unfolding control_ok_def using assms by blast

lemma control_okD:
  assumes "control_ok now db"
  shows "jwf (cd_commands db)" "jget (cd_commands db) i = Some c \<Longrightarrow> command_check c"
    "jget (cd_commands db) i = Some c \<Longrightarrow> jget (cd_commands db) j = Some d \<Longrightarrow>
       cc_tenant c = cc_tenant d \<Longrightarrow> cc_zone c = cc_zone d \<Longrightarrow>
       live_command c \<and> live_command d \<or> in_force now c \<and> in_force now d \<Longrightarrow> i = j"
  using assms unfolding control_ok_def by blast+

text \<open>Time only ends overrides, and a move that neither revives a command nor applies one keeps both.\<close>

lemma in_force_earlier: "in_force later c \<Longrightarrow> now \<le> later \<Longrightarrow> in_force now c"
  by (auto simp: in_force_def)

lemma control_ok_later: "control_ok now db \<Longrightarrow> now \<le> later \<Longrightarrow> control_ok later db"
  unfolding control_ok_def using in_force_earlier by blast

definition quiet_move :: "command \<Rightarrow> command \<Rightarrow> bool" where
  "quiet_move c d = (row_step c d \<and> (live_command d \<longrightarrow> live_command c) \<and> (cc_state d = Applied \<longrightarrow> cc_state c = Applied))"

lemma quiet_moveD:
  assumes "quiet_move c d"
  shows "cc_tenant d = cc_tenant c" "cc_zone d = cc_zone c" "live_command d \<Longrightarrow> live_command c"
    "in_force now d \<Longrightarrow> in_force now c" "command_check d = command_check c"
  using assms by (auto simp: quiet_move_def row_step_def same_order_def in_force_def command_check_def)

lemma update_where_ok:
  assumes ok: "control_ok now db"
    and q: "\<And>i c. jget (cd_commands db) i = Some c \<Longrightarrow> cc_tenant c = tenant \<Longrightarrow> p i c \<Longrightarrow> quiet_move c (f c)"
  shows "control_ok now (update_where tenant p f db)"
proof -
  have same: "quiet_move c c" for c :: command by (simp add: quiet_move_def)
  have origin: "\<exists>c. jget (cd_commands db) i = Some c \<and> quiet_move c d"
    if "jget (cd_commands (update_where tenant p f db)) i = Some d" for i d
    using that q same by (auto simp: update_where_get split: if_splits)
  show ?thesis
  proof (rule control_okI)
    fix i d assume "jget (cd_commands (update_where tenant p f db)) i = Some d"
    then show "command_check d" using origin control_okD(2)[OF ok] quiet_moveD(5) by blast
  next
    fix i j and c d :: command
    assume a: "jget (cd_commands (update_where tenant p f db)) i = Some c"
      "jget (cd_commands (update_where tenant p f db)) j = Some d" "cc_tenant c = cc_tenant d" "cc_zone c = cc_zone d"
      "live_command c \<and> live_command d \<or> in_force now c \<and> in_force now d"
    obtain c0 d0 where b: "jget (cd_commands db) i = Some c0" "quiet_move c0 c" "jget (cd_commands db) j = Some d0" "quiet_move d0 d"
      using origin[OF a(1)] origin[OF a(2)] by blast
    show "i = j"
      using control_okD(3)[OF ok b(1,3)] quiet_moveD[OF b(2)] quiet_moveD[OF b(4)] a(3-5) by metis
  qed (use control_okD(1)[OF ok] in simp)
qed

lemma quiet_moves:
  "cc_state c = Pending \<Longrightarrow> quiet_move c (c\<lparr>cc_state := Expired, cc_settled_at := t, cc_detail := d\<rparr>)"
  "cc_state c = Pending \<Longrightarrow> quiet_move c (claimed_row now gateway c)"
  "cc_state c = Dispatched \<Longrightarrow> quiet_move c (c\<lparr>cc_state := Pending, cc_claim := None, cc_detail := d\<rparr>)"
  "cc_state c = Applied \<Longrightarrow> quiet_move c (c\<lparr>cc_state := Superseded, cc_settled_at := t, cc_detail := d\<rparr>)"
  "live_command c \<Longrightarrow> quiet_move c (c\<lparr>cc_state := Cancelled, cc_settled_at := t, cc_detail := d\<rparr>)"
  "cc_state c = Dispatched \<Longrightarrow> quiet_move c (settle_row OutcomeFailed d now c)"
  using row_moves(1-5)[of c] row_moves(6)[of c OutcomeFailed]
  by (auto simp: quiet_move_def live_command_def claimed_row_def settle_row_def)

lemma statement_ok [inv_intros]:
  assumes "control_ok now db"
  shows "control_ok now (snd (expire_stale tenant t db))"
    "control_ok now (snd (claim_commands tenant gateway limit t locked db))"
    "control_ok now (release_command tenant i detail db)"
    "control_ok now (supersede tenant zone i t db)"
    "control_ok now (snd (cancel_command tenant i t db))"
  unfolding claim_commands_db expire_stale_def release_command_def supersede_def cancel_command_def Let_def snd_conv
      apply (rule update_where_ok[OF assms], simp add: quiet_moves)
     apply (rule update_where_ok[OF assms], frule claim_row_pending[OF control_okD(1)[OF assms]], assumption, simp add: quiet_moves collectable_def)
    apply (rule update_where_ok[OF assms], simp add: quiet_moves)
   apply (rule update_where_ok[OF assms], simp add: quiet_moves in_force_def)
  apply (rule update_where_ok[OF assms], simp add: quiet_moves)
  done

lemma insert_command_cases:
  obtains (kept) "snd (insert_command b new_id t n db) = db" "\<And>e. fst (insert_command b new_id t n db) \<noteq> Inr (Some e)"
  | (queued) "insert_command b new_id t n db =
      (Inr (Some (new_id, new_row t n)), db\<lparr>cd_commands := jset new_id (new_row t n) (cd_commands db)\<rparr>)"
    "command_check (new_row t n)" "\<not> zone_busy (nx_tenant n) (nx_zone n) db"
    "\<exists>z. jget (bd_zones b) (nx_zone n) = Some z \<and> zr_tenant z = nx_tenant n"
proof (cases "command_check (new_row t n) \<and> \<not> zone_busy (nx_tenant n) (nx_zone n) db \<and>
    (\<exists>z. jget (bd_zones b) (nx_zone n) = Some z \<and> zr_tenant z = nx_tenant n)")
  case True
  then show ?thesis by (intro queued) (auto simp: insert_command_def Let_def)
next
  case False
  then show ?thesis by (intro kept) (auto simp: insert_command_def Let_def split: option.splits)
qed

lemma zone_busy_iff:
  "jwf (cd_commands db) \<Longrightarrow> zone_busy tenant zone db \<longleftrightarrow>
     (\<exists>i c. jget (cd_commands db) i = Some c \<and> live_command c \<and> cc_tenant c = tenant \<and> cc_zone c = zone)"
  by (force simp: zone_busy_def list_ex_iff)

lemma insert_command_ok [inv_intros]:
  assumes ok: "control_ok now db" and fresh: "jget (cd_commands db) new_id = None"
  shows "control_ok now (snd (insert_command b new_id t n db))"
proof (cases rule: insert_command_cases[of b new_id t n db])
  case queued
  let ?c = "new_row t n"
  have c: "cc_tenant ?c = nx_tenant n" "cc_zone ?c = nx_zone n" "\<not> in_force now ?c"
    by (simp_all add: new_row_def in_force_def)
  have alone: "\<not> (cc_tenant d = nx_tenant n \<and> cc_zone d = nx_zone n \<and> live_command d)" if "jget (cd_commands db) j = Some d" for j d
    using queued(3) that unfolding zone_busy_iff[OF control_okD(1)[OF ok]] by blast
  show ?thesis
  proof (rule control_okI)
    show "jwf (cd_commands (snd (insert_command b new_id t n db)))" using control_okD(1)[OF ok] by (simp add: queued(1))
  next
    fix i d assume "jget (cd_commands (snd (insert_command b new_id t n db))) i = Some d"
    then show "command_check d"
      using control_okD(2)[OF ok, of i d] queued(2) by (cases "i = new_id") (simp_all add: queued(1))
  next
    fix i j and d e :: command
    assume a: "jget (cd_commands (snd (insert_command b new_id t n db))) i = Some d"
      "jget (cd_commands (snd (insert_command b new_id t n db))) j = Some e"
      "cc_tenant d = cc_tenant e" "cc_zone d = cc_zone e" "live_command d \<and> live_command e \<or> in_force now d \<and> in_force now e"
    show "i = j"
    proof (cases "i = new_id \<or> j = new_id")
      case True
      then show ?thesis using a c alone by (auto simp: queued(1) split: if_splits)
    next
      case False
      then show ?thesis using a(1,2) control_okD(3)[OF ok _ _ a(3-5), of i j] by (simp add: queued(1))
    qed
  qed
qed (simp add: ok)

text \<open>An applied report marks its command and ends whatever held the zone before.\<close>

lemma settle_command_cases:
  obtains (kept) "settle_command tenant i outcome detail t db = (None, db)"
  | (failed) c where "outcome = OutcomeFailed" "jget (cd_commands db) i = Some c" "cc_tenant c = tenant" "cc_state c = Dispatched"
      "snd (settle_command tenant i outcome detail t db) =
        update_where tenant (\<lambda>j c. j = i \<and> cc_state c = Dispatched) (settle_row outcome detail t) db"
  | (applied) c where "outcome = OutcomeApplied" "jget (cd_commands db) i = Some c" "cc_tenant c = tenant" "cc_state c = Dispatched"
      "snd (settle_command tenant i outcome detail t db) = supersede tenant (cc_zone c) i t
        (update_where tenant (\<lambda>j c. j = i \<and> cc_state c = Dispatched) (settle_row outcome detail t) db)"
proof (cases "get_command tenant i db")
  case (Some e)
  then obtain c where c: "e = (i, c)" "jget (cd_commands db) i = Some c" "cc_tenant c = tenant"
    by (auto simp: get_command_Some)
  then show ?thesis
    using that Some by (cases outcome; cases "cc_state c = Dispatched") (simp_all add: settle_command_def Let_def)
qed (use that in \<open>simp add: settle_command_def\<close>)

lemma applied_get:
  assumes "jget (cd_commands db) i = Some c" "cc_tenant c = tenant" "cc_state c = Dispatched"
  shows "jget (cd_commands (supersede tenant (cc_zone c) i t
      (update_where tenant (\<lambda>j c. j = i \<and> cc_state c = Dispatched) (settle_row OutcomeApplied detail t) db))) j =
    (if j = i then Some (settle_row OutcomeApplied detail t c)
     else map_option (\<lambda>d. if cc_tenant d = tenant \<and> cc_zone d = cc_zone c \<and> in_force t d
        then d\<lparr>cc_state := Superseded, cc_settled_at := Some t, cc_detail := Some ''replaced by a later override''\<rparr>
        else d) (jget (cd_commands db) j))"
  using assms by (cases "jget (cd_commands db) j") (auto simp: supersede_def update_where_get)

lemma settle_command_rows: "rows_step db (snd (settle_command tenant i outcome detail t db))"
proof (cases rule: settle_command_cases[of tenant i outcome detail t db])
  case (failed c)
  show ?thesis unfolding failed(5) by (rule update_where_rows) (simp add: row_moves)
next
  case (applied c)
  have "row_step d (d\<lparr>cc_state := Superseded, cc_settled_at := Some t, cc_detail := x\<rparr>)" if "in_force t d" for d x
    using that row_moves(4) by (simp add: in_force_def)
  then show ?thesis
    using applied(2-4) row_moves(6)[OF applied(4)] unfolding applied(5) unfolding rows_step_def applied(1) applied_get[OF applied(2-4)]
    by auto
qed (simp add: rows_step_def)

lemma settle_command_tenant:
  assumes "other \<noteq> tenant"
  shows "tenant_kept other db (snd (settle_command tenant i outcome detail t db))"
proof (cases rule: settle_command_cases[of tenant i outcome detail t db])
  case (failed c)
  show ?thesis unfolding failed(5) by (rule update_where_tenant[OF _ assms]) (simp add: row_moves)
next
  case (applied c)
  have "cc_tenant (settle_row o' d' t' c) = cc_tenant c" for o' d' t' by (simp add: settle_row_def)
  then show ?thesis
    using applied(2-4) assms unfolding applied(5) unfolding tenant_kept_def applied(1) applied_get[OF applied(2-4)]
    by (auto split: if_splits)
qed (simp add: tenant_kept_def)

lemma settle_command_ok [inv_intros]:
  assumes ok: "control_ok now db" and "now \<le> t"
  shows "control_ok t (snd (settle_command tenant i outcome detail t db))"
proof (cases rule: settle_command_cases[of tenant i outcome detail t db])
  case kept
  then show ?thesis using control_ok_later[OF assms] by simp
next
  case (failed c)
  show ?thesis unfolding failed(5) unfolding failed(1)
    by (rule update_where_ok[OF control_ok_later[OF assms]]) (simp add: quiet_moves)
next
  case (applied c)
  let ?db = "snd (settle_command tenant i outcome detail t db)"
  have okt: "control_ok t db" by (rule control_ok_later[OF assms])
  have get: "jget (cd_commands ?db) j = (if j = i then Some (settle_row OutcomeApplied detail t c)
     else map_option (\<lambda>d. if cc_tenant d = tenant \<and> cc_zone d = cc_zone c \<and> in_force t d
        then d\<lparr>cc_state := Superseded, cc_settled_at := Some t, cc_detail := Some ''replaced by a later override''\<rparr>
        else d) (jget (cd_commands db) j))" for j
    unfolding applied(5) unfolding applied(1) by (rule applied_get[OF applied(2-4)])
  have self: "\<not> live_command (settle_row OutcomeApplied detail t c)" "command_check (settle_row OutcomeApplied detail t c)"
    "cc_zone (settle_row OutcomeApplied detail t c) = cc_zone c" "cc_tenant (settle_row OutcomeApplied detail t c) = tenant"
    using control_okD(2)[OF ok applied(2)] applied(3) by (simp_all add: settle_row_def live_command_def command_check_def)
  have other: "\<exists>d0. jget (cd_commands db) j = Some d0 \<and> cc_tenant d = cc_tenant d0 \<and> cc_zone d = cc_zone d0 \<and>
      command_check d \<and> (live_command d \<longrightarrow> live_command d0) \<and>
      (in_force t d \<longrightarrow> in_force t d0 \<and> \<not> (cc_tenant d = tenant \<and> cc_zone d = cc_zone c))"
    if a: "jget (cd_commands ?db) j = Some d" "j \<noteq> i" for j d
  proof -
    obtain d0 where d0: "jget (cd_commands db) j = Some d0" and d: "d = (if cc_tenant d0 = tenant \<and> cc_zone d0 = cc_zone c \<and> in_force t d0
        then d0\<lparr>cc_state := Superseded, cc_settled_at := Some t, cc_detail := Some ''replaced by a later override''\<rparr> else d0)"
      using a unfolding get by auto
    show ?thesis using control_okD(2)[OF ok d0] d0 unfolding d
      by (cases "cc_tenant d0 = tenant \<and> cc_zone d0 = cc_zone c \<and> in_force t d0")
        (auto simp add: in_force_def live_command_def command_check_def)
  qed
  show ?thesis
  proof (rule control_okI)
    show "jwf (cd_commands ?db)" using control_okD(1)[OF ok] unfolding applied(5) supersede_def by simp
  next
    fix j d assume a: "jget (cd_commands ?db) j = Some d"
    then show "command_check d" using other[OF a] self(2) by (cases "j = i") (auto simp: get)
  next
    fix j k and d e :: command
    assume a: "jget (cd_commands ?db) j = Some d" "jget (cd_commands ?db) k = Some e" "cc_tenant d = cc_tenant e"
      "cc_zone d = cc_zone e" "live_command d \<and> live_command e \<or> in_force t d \<and> in_force t e"
    consider "j = k" | "j = i" "k \<noteq> i" | "j \<noteq> i" "k = i" | "j \<noteq> i" "k \<noteq> i" by blast
    then show "j = k"
    proof cases
      case 2
      then have "d = settle_row OutcomeApplied detail t c" using a(1) by (simp add: get)
      then show ?thesis using other[OF a(2) 2(2)] self a(3-5) by auto
    next
      case 3
      then have "e = settle_row OutcomeApplied detail t c" using a(2) by (simp add: get)
      then show ?thesis using other[OF a(1) 3(1)] self a(3-5) by auto
    next
      case 4
      then show ?thesis using other[OF a(1)] other[OF a(2)] control_okD(3)[OF okt, of j _ k] a(3-5) by metis
    qed
  qed
qed

end
