(* ===== verification/Limiter.thy ===== *)
theory Limiter
  imports Prelude
begin

section \<open>The keyed token bucket (packages/types/src/limiter.ts)\<close>

text \<open>
  \<open>KeyedLimiter\<close> and \<open>clientAddress\<close>. The clock is an argument: one reading per operation, in
  milliseconds. Tokens and rates are exact rationals. A bucket the code mutates through a
  reference is named by its \<open>slot\<close>: the entry of a tracked key, or the one bucket newcomers share
  once the map is full.
\<close>

record limiter_options =
  rate_per_s :: rat
  burst :: rat
  max_keys :: int

datatype retry_after = RetryAfter int | RetryNever

datatype limit_result = LimitOk | LimitRefused retry_after

record bucket =
  tokens :: rat
  updated_at :: ms

record limiter =
  lm_options :: limiter_options
  lm_buckets :: "(string, bucket) jsmap"
  lm_overflow :: "bucket option"
  lm_refused :: nat
  lm_overflowed :: nat

definition mk_limiter :: "limiter_options \<Rightarrow> string + limiter" where
  "mk_limiter opts =
     (if \<not> rate_per_s opts > 0 \<or> \<not> burst opts > 0 \<or> \<not> max_keys opts > 0
      then Inl ''KeyedLimiter: ratePerS, burst and maxKeys must all be positive''
      else Inr \<lparr>lm_options = opts, lm_buckets = [], lm_overflow = None,
                lm_refused = 0, lm_overflowed = 0\<rparr>)"

definition refill :: "limiter_options \<Rightarrow> ms \<Rightarrow> bucket \<Rightarrow> bucket" where
  "refill opts now b =
     (let elapsed_s = of_int (max 0 (now - updated_at b)) / 1000
      in \<lparr>tokens = min (burst opts) (tokens b + elapsed_s * rate_per_s opts), updated_at = now\<rparr>)"

text \<open>\<open>#sweep\<close> refills every bucket in place and deletes the ones that are full.\<close>

definition sweep :: "ms \<Rightarrow> limiter \<Rightarrow> limiter" where
  "sweep now l =
     l\<lparr>lm_buckets := filter (\<lambda>(k, b). \<not> tokens b \<ge> burst (lm_options l))
        (map (\<lambda>(k, b). (k, refill (lm_options l) now b)) (lm_buckets l))\<rparr>"

datatype slot = Tracked string | Shared

definition full_bucket :: "limiter_options \<Rightarrow> ms \<Rightarrow> bucket" where
  "full_bucket opts now = \<lparr>tokens = burst opts, updated_at = now\<rparr>"

definition bucket_full_map :: "limiter \<Rightarrow> bool" where
  "bucket_full_map l = (int (length (lm_buckets l)) \<ge> max_keys (lm_options l))"

text \<open>\<open>#bucket\<close>: the slot that answers for \<open>key\<close>, with its refilled bucket stored.\<close>

definition bucket_for :: "ms \<Rightarrow> string \<Rightarrow> limiter \<Rightarrow> slot \<times> limiter" where
  "bucket_for now key l =
     (let opts = lm_options l in
      case jget (lm_buckets l) key of
        Some held \<Rightarrow> (Tracked key, l\<lparr>lm_buckets := jset key (refill opts now held) (lm_buckets l)\<rparr>)
      | None \<Rightarrow>
          (let l1 = (if bucket_full_map l then sweep now l else l) in
           if bucket_full_map l1
           then (Shared, l1\<lparr>lm_overflowed := Suc (lm_overflowed l1),
                   lm_overflow := Some (refill opts now
                     (case lm_overflow l1 of Some b \<Rightarrow> b | None \<Rightarrow> full_bucket opts now))\<rparr>)
           else (Tracked key, l1\<lparr>lm_buckets := jset key (full_bucket opts now) (lm_buckets l1)\<rparr>)))"

fun slot_bucket :: "slot \<Rightarrow> limiter \<Rightarrow> bucket option" where
  "slot_bucket (Tracked k) l = jget (lm_buckets l) k"
| "slot_bucket Shared l = lm_overflow l"

fun slot_store :: "slot \<Rightarrow> bucket \<Rightarrow> limiter \<Rightarrow> limiter" where
  "slot_store (Tracked k) b l = l\<lparr>lm_buckets := jset k b (lm_buckets l)\<rparr>"
| "slot_store Shared b l = l\<lparr>lm_overflow := Some b\<rparr>"

definition slot_tokens :: "slot \<Rightarrow> limiter \<Rightarrow> rat" where
  "slot_tokens sl l = (case slot_bucket sl l of Some b \<Rightarrow> tokens b | None \<Rightarrow> burst (lm_options l))"

definition slot_spend :: "slot \<Rightarrow> rat \<Rightarrow> limiter \<Rightarrow> limiter" where
  "slot_spend sl cost l =
     (case slot_bucket sl l of
        Some b \<Rightarrow> slot_store sl (b\<lparr>tokens := tokens b - cost\<rparr>) l
      | None \<Rightarrow> l)"

definition retry_wait :: "limiter_options \<Rightarrow> rat \<Rightarrow> rat \<Rightarrow> int" where
  "retry_wait opts cost held = \<lceil>(cost - held) / rate_per_s opts\<rceil>"

definition take_tokens :: "ms \<Rightarrow> string \<Rightarrow> rat \<Rightarrow> limiter \<Rightarrow> limit_result \<times> limiter" where
  "take_tokens now key cost l =
     (let (sl, l1) = bucket_for now key l; held = slot_tokens sl l1; opts = lm_options l in
      if held \<ge> cost then (LimitOk, slot_spend sl cost l1)
      else (LimitRefused (if cost > burst opts then RetryNever
                          else RetryAfter (retry_wait opts cost held)),
            l1\<lparr>lm_refused := Suc (lm_refused l1)\<rparr>))"

definition exhausted :: "ms \<Rightarrow> string \<Rightarrow> rat \<Rightarrow> limiter \<Rightarrow> limit_result \<times> limiter" where
  "exhausted now key cost l =
     (case jget (lm_buckets l) key of
        None \<Rightarrow> (LimitOk, l)
      | Some held \<Rightarrow>
          (let b = refill (lm_options l) now held;
               l1 = l\<lparr>lm_buckets := jset key b (lm_buckets l)\<rparr>
           in if tokens b \<ge> cost then (LimitOk, l1)
              else (LimitRefused (RetryAfter (retry_wait (lm_options l) cost (tokens b))),
                    l1\<lparr>lm_refused := Suc (lm_refused l1)\<rparr>)))"

definition limiter_stats :: "limiter \<Rightarrow> nat \<times> nat \<times> nat" where
  "limiter_stats l = (length (lm_buckets l), lm_refused l, lm_overflowed l)"


subsection \<open>Client address (\<open>clientAddress\<close>)\<close>

text \<open>
  A header that arrives more than once is an array, which the code joins with commas. Splitting at
  the commas, trimming and dropping the empty entries are written out; \<open>trim\<close> removes the ASCII
  white space.
\<close>

datatype header = HNone | HOne string | HMany "string list"

fun split_on :: "char \<Rightarrow> string \<Rightarrow> string list" where
  "split_on c [] = [[]]"
| "split_on c (x # xs) =
     (if x = c then [] # split_on c xs
      else (case split_on c xs of [] \<Rightarrow> [[x]] | y # ys \<Rightarrow> (x # y) # ys))"

fun join_with :: "string \<Rightarrow> string list \<Rightarrow> string" where
  "join_with sep [] = []"
| "join_with sep [x] = x"
| "join_with sep (x # y # ys) = x @ sep @ join_with sep (y # ys)"

definition js_space :: "char \<Rightarrow> bool" where
  "js_space c = (c \<in> {CHR '' '', CHR 0x09, CHR 0x0A, CHR 0x0B, CHR 0x0C, CHR 0x0D})"

definition js_trim :: "string \<Rightarrow> string" where
  "js_trim s = rev (dropWhile js_space (rev (dropWhile js_space s)))"

definition forwarded_entries :: "string \<Rightarrow> string list" where
  "forwarded_entries s = filter (\<lambda>e. length e > 0) (map js_trim (split_on (CHR '','') s))"

definition client_address :: "string option \<Rightarrow> header \<Rightarrow> int \<Rightarrow> string" where
  "client_address remote forwarded trusted_hops =
     (let fallback = (case remote of Some r \<Rightarrow> r | None \<Rightarrow> ''unknown'') in
      case forwarded of
        HNone \<Rightarrow> fallback
      | _ \<Rightarrow>
          (if trusted_hops \<le> 0 then fallback
           else (let entries = forwarded_entries
                       (case forwarded of HMany hs \<Rightarrow> join_with '','' hs | HOne h \<Rightarrow> h | HNone \<Rightarrow> []) in
                 if int (length entries) \<ge> trusted_hops
                 then entries ! (length entries - nat trusted_hops) else fallback)))"

subsection \<open>Levels: what a slot can still spend\<close>

definition slot_level :: "slot \<Rightarrow> ms \<Rightarrow> limiter \<Rightarrow> rat" where
  "slot_level sl t l =
     (case slot_bucket sl l of
        None \<Rightarrow> burst (lm_options l)
      | Some b \<Rightarrow> tokens (refill (lm_options l) t b))"

definition bucket_ok :: "limiter_options \<Rightarrow> ms \<Rightarrow> bucket \<Rightarrow> bool" where
  "bucket_ok opts t b = (0 \<le> tokens b \<and> tokens b \<le> burst opts \<and> updated_at b \<le> t)"

text \<open>The invariant at time \<open>t\<close>: every bucket holds between nothing and a burst and was last
  refilled no later than \<open>t\<close>, keys are tracked once, and there are at most \<open>max_keys\<close> of them.\<close>

definition lm_inv :: "ms \<Rightarrow> limiter \<Rightarrow> bool" where
  "lm_inv t l =
     (0 < rate_per_s (lm_options l) \<and> 0 < burst (lm_options l) \<and> 0 < max_keys (lm_options l) \<and>
      jwf (lm_buckets l) \<and> int (length (lm_buckets l)) \<le> max_keys (lm_options l) \<and>
      (\<forall>b \<in> snd ` set (lm_buckets l). bucket_ok (lm_options l) t b) \<and>
      (\<forall>b. lm_overflow l = Some b \<longrightarrow> bucket_ok (lm_options l) t b))"

text \<open>What a sequence of requests, in time order, is granted from one slot.\<close>

fun granted :: "slot \<Rightarrow> (ms \<times> string \<times> rat) list \<Rightarrow> limiter \<Rightarrow> rat" where
  "granted sl [] l = 0"
| "granted sl ((now, key, cost) # ops) l =
     (let (r, l') = take_tokens now key cost l in
      (if r = LimitOk \<and> fst (bucket_for now key l) = sl then cost else 0) + granted sl ops l')"

fun in_time_order :: "ms \<Rightarrow> (ms \<times> string \<times> rat) list \<Rightarrow> bool" where
  "in_time_order t [] = True"
| "in_time_order t ((now, key, cost) # ops) = (t \<le> now \<and> 0 \<le> cost \<and> in_time_order now ops)"

fun end_time :: "ms \<Rightarrow> (ms \<times> string \<times> rat) list \<Rightarrow> ms" where
  "end_time t [] = t"
| "end_time t ((now, key, cost) # ops) = end_time now ops"

lemma lm_inv_init [inv_intros]: "mk_limiter opts = Inr l \<Longrightarrow> lm_inv t l"
  by (auto simp: mk_limiter_def lm_inv_def split: if_splits)

lemma refill_at [simp]: "updated_at (refill opts now b) = now"
  by (simp add: refill_def Let_def)

lemma refill_ok:
  assumes "0 < rate_per_s opts" "bucket_ok opts t b" "t \<le> now"
  shows "bucket_ok opts now (refill opts now b)"
  using assms by (auto simp: bucket_ok_def refill_def Let_def)

text \<open>\<open>accrued\<close> is what a slot gains between two times.\<close>

definition accrued :: "limiter_options \<Rightarrow> ms \<Rightarrow> ms \<Rightarrow> rat" where
  "accrued opts t t' = of_int (t' - t) / 1000 * rate_per_s opts"

lemma accrued_nonneg: "0 < rate_per_s opts \<Longrightarrow> t \<le> t' \<Longrightarrow> 0 \<le> accrued opts t t'"
  by (simp add: accrued_def)

lemma accrued_split: "accrued opts t t'' = accrued opts t t' + accrued opts t' t''"
  by (simp add: accrued_def field_simps)

lemma refill_tokens:
  "updated_at b \<le> t \<Longrightarrow>
   tokens (refill opts t b) = min (burst opts) (tokens b + accrued opts (updated_at b) t)"
  by (simp add: refill_def Let_def max_def accrued_def)

lemma refill_refill:
  assumes "0 < rate_per_s opts" "updated_at b \<le> t" "t \<le> t'"
  shows "tokens (refill opts t' (refill opts t b)) = tokens (refill opts t' b)"
  using assms accrued_nonneg[OF assms(1,3)] accrued_split[of opts "updated_at b" t' t]
  by (simp add: refill_tokens)

lemma refill_growth:
  assumes "0 < rate_per_s opts" "updated_at b \<le> t" "t \<le> t'"
  shows "tokens (refill opts t' b) \<le> tokens (refill opts t b) + accrued opts t t'"
  using assms accrued_nonneg[OF assms(1,3)] accrued_split[of opts "updated_at b" t' t]
  by (simp add: refill_tokens)

lemma refill_full:
  assumes "0 < rate_per_s opts" "bucket_ok opts t b" "t \<le> t'" "tokens (refill opts t b) \<ge> burst opts"
  shows "tokens (refill opts t' b) = burst opts"
  using assms accrued_nonneg[OF assms(1,3)] accrued_split[of opts "updated_at b" t' t]
  by (simp add: refill_tokens bucket_ok_def)

lemma refill_now: "bucket_ok opts t b \<Longrightarrow> updated_at b = t \<Longrightarrow> tokens (refill opts t b) = tokens b"
  by (simp add: refill_tokens bucket_ok_def accrued_def)

lemma full_bucket_ok: "0 < burst opts \<Longrightarrow> bucket_ok opts t (full_bucket opts t)"
  by (simp add: bucket_ok_def full_bucket_def)

lemma full_bucket_level:
  "0 < rate_per_s opts \<Longrightarrow> t \<le> t' \<Longrightarrow> tokens (refill opts t' (full_bucket opts t)) = burst opts"
  by (simp add: refill_tokens full_bucket_def accrued_nonneg)

subsection \<open>The steps keep the invariant and the levels\<close>

lemma lm_invD:
  assumes "lm_inv t l"
  shows "0 < rate_per_s (lm_options l)" "0 < burst (lm_options l)" "jwf (lm_buckets l)"
    and "slot_bucket sl l = Some b \<Longrightarrow> bucket_ok (lm_options l) t b"
proof -
  show "0 < rate_per_s (lm_options l)" "0 < burst (lm_options l)" "jwf (lm_buckets l)"
    using assms by (auto simp: lm_inv_def)
  assume "slot_bucket sl l = Some b"
  then show "bucket_ok (lm_options l) t b"
    using assms by (cases sl) (force simp: lm_inv_def dest: map_of_SomeD)+
qed

lemma sweep_get:
  assumes "jwf (lm_buckets l)"
  shows "jget (lm_buckets (sweep now l)) k =
     (case jget (lm_buckets l) k of
        None \<Rightarrow> None
      | Some b \<Rightarrow> (let b' = refill (lm_options l) now b in
                    if tokens b' \<ge> burst (lm_options l) then None else Some b'))"
  using assms
  by (simp add: sweep_def jget_filter jget_map_values Let_def del: filter_map split: option.splits)

lemma sweep_fields [simp]:
  "lm_options (sweep now l) = lm_options l" "lm_overflow (sweep now l) = lm_overflow l"
  "lm_refused (sweep now l) = lm_refused l" "lm_overflowed (sweep now l) = lm_overflowed l"
  by (simp_all add: sweep_def)

lemma sweep_length: "length (lm_buckets (sweep now l)) \<le> length (lm_buckets l)"
  unfolding sweep_def using length_filter_le[of _ "map _ (lm_buckets l)"] by (simp del: filter_map)

lemma sweep_jwf: "jwf (lm_buckets l) \<Longrightarrow> jwf (lm_buckets (sweep now l))"
  unfolding sweep_def by (simp del: filter_map)

lemma bucket_ok_later: "bucket_ok opts t b \<Longrightarrow> t \<le> t' \<Longrightarrow> bucket_ok opts t' b"
  by (simp add: bucket_ok_def)

lemma lm_inv_later [inv_intros]: "lm_inv t l \<Longrightarrow> t \<le> t' \<Longrightarrow> lm_inv t' l"
  by (auto simp: lm_inv_def intro: bucket_ok_later)

lemma lm_inv_sweep [inv_intros]:
  assumes "lm_inv t l" "t \<le> now"
  shows "lm_inv now (sweep now l)"
proof -
  have "bucket_ok (lm_options l) now b" if "b \<in> snd ` set (lm_buckets (sweep now l))" for b
    using that assms by (fastforce simp: sweep_def lm_inv_def intro!: refill_ok)
  then show ?thesis
    using assms sweep_length[of now l] sweep_jwf[of l now]
    by (auto simp: lm_inv_def intro: bucket_ok_later)
qed

lemma slot_level_sweep:
  assumes "lm_inv t l" "t \<le> now" "now \<le> t'"
  shows "slot_level sl t' (sweep now l) = slot_level sl t' l"
proof (cases sl)
  case Shared
  then show ?thesis by (simp add: slot_level_def split: option.split)
next
  case (Tracked k)
  show ?thesis
  proof (cases "jget (lm_buckets l) k")
    case None
    then show ?thesis using Tracked lm_invD(3)[OF assms(1)] by (simp add: slot_level_def sweep_get)
  next
    case (Some b)
    then have ok: "bucket_ok (lm_options l) now b"
      using lm_invD(4)[OF assms(1), of "Tracked k"] assms(2) by (auto intro: bucket_ok_later)
    show ?thesis
      using Tracked Some ok lm_invD(1,3)[OF assms(1)] assms(3)
      by (auto simp: slot_level_def sweep_get Let_def refill_full refill_refill bucket_ok_def)
  qed
qed

lemma slot_bucket_jset:
  "slot_bucket sl (l\<lparr>lm_buckets := jset k b (lm_buckets l)\<rparr>) =
     (if sl = Tracked k then Some b else slot_bucket sl l)"
  by (cases sl) auto

lemma slot_bucket_shared:
  "slot_bucket sl (l\<lparr>lm_overflowed := n, lm_overflow := Some b\<rparr>) =
     (if sl = Shared then Some b else slot_bucket sl l)"
  by (cases sl) auto

text \<open>\<open>bucket_for\<close>: the slot it returns holds a bucket refilled at \<open>now\<close>, no level moves, and the
  invariant is kept. The three ways it can answer:\<close>

definition make_room :: "ms \<Rightarrow> limiter \<Rightarrow> limiter" where
  "make_room now l = (if bucket_full_map l then sweep now l else l)"

definition overflow_bucket :: "ms \<Rightarrow> limiter \<Rightarrow> bucket" where
  "overflow_bucket now l = refill (lm_options l) now
     (case lm_overflow l of Some b \<Rightarrow> b | None \<Rightarrow> full_bucket (lm_options l) now)"

lemma make_room_options [simp]: "lm_options (make_room now l) = lm_options l"
  by (simp add: make_room_def)

lemma make_room_inv: "lm_inv t l \<Longrightarrow> t \<le> now \<Longrightarrow> lm_inv now (make_room now l)"
  by (simp add: make_room_def inv_intros lm_inv_sweep)

lemma make_room_level:
  "lm_inv t l \<Longrightarrow> t \<le> now \<Longrightarrow> now \<le> t' \<Longrightarrow> slot_level sl t' (make_room now l) = slot_level sl t' l"
  by (simp add: make_room_def slot_level_sweep)

lemma make_room_get:
  "jwf (lm_buckets l) \<Longrightarrow> jget (lm_buckets l) k = None \<Longrightarrow> jget (lm_buckets (make_room now l)) k = None"
  by (simp add: make_room_def sweep_get)

lemma bucket_for_cases:
  obtains (held) b where "jget (lm_buckets l) key = Some b"
      "bucket_for now key l =
         (Tracked key, l\<lparr>lm_buckets := jset key (refill (lm_options l) now b) (lm_buckets l)\<rparr>)"
  | (shared) l1 where "l1 = make_room now l" "bucket_full_map l1" "jget (lm_buckets l) key = None"
      "bucket_for now key l =
         (Shared, l1\<lparr>lm_overflowed := Suc (lm_overflowed l1),
                     lm_overflow := Some (overflow_bucket now l1)\<rparr>)"
  | (fresh) l1 where "l1 = make_room now l" "\<not> bucket_full_map l1" "jget (lm_buckets l) key = None"
      "bucket_for now key l =
         (Tracked key, l1\<lparr>lm_buckets := jset key (full_bucket (lm_options l1) now) (lm_buckets l1)\<rparr>)"
proof (cases "jget (lm_buckets l) key")
  case (Some b)
  then show ?thesis using held[of b] by (simp add: bucket_for_def)
next
  case None
  then show ?thesis
    using shared[of "make_room now l"] fresh[of "make_room now l"]
    by (cases "bucket_full_map (make_room now l)")
       (simp_all add: bucket_for_def overflow_bucket_def Let_def cong: option.case_cong flip: make_room_def)
qed

lemma bucket_for_options: "bucket_for now key l = (sl, l1) \<Longrightarrow> lm_options l1 = lm_options l"
  by (rule bucket_for_cases[of l key now]) auto

lemma lm_inv_jset [inv_intros]:
  assumes "lm_inv t l" "bucket_ok (lm_options l) t b"
    and "k \<in> fst ` set (lm_buckets l) \<or> \<not> bucket_full_map l"
  shows "lm_inv t (l\<lparr>lm_buckets := jset k b (lm_buckets l)\<rparr>)"
proof -
  have "\<forall>c \<in> snd ` set (jset k b (lm_buckets l)). bucket_ok (lm_options l) t c"
    using assms(1,2) values_jset[of k b "lm_buckets l"] unfolding lm_inv_def by blast
  with assms show ?thesis
    by (auto simp: lm_inv_def length_jset bucket_full_map_def simp del: ball_simps)
qed

lemma lm_inv_shared [inv_intros]:
  "lm_inv t l \<Longrightarrow> bucket_ok (lm_options l) t b \<Longrightarrow>
   lm_inv t (l\<lparr>lm_overflowed := n, lm_overflow := Some b\<rparr>)"
  by (simp add: lm_inv_def)

lemma overflow_bucket_ok:
  assumes "lm_inv now l"
  shows "bucket_ok (lm_options l) now (overflow_bucket now l)"
  using lm_invD(1,2)[OF assms] lm_invD(4)[OF assms, of Shared]
  by (auto simp: overflow_bucket_def intro!: refill_ok full_bucket_ok split: option.split)

lemma lm_inv_bucket_for [inv_intros]:
  assumes inv: "lm_inv t l" and le: "t \<le> now" and eq: "bucket_for now key l = (sl, l1)"
  shows "lm_inv now l1"
proof (rule bucket_for_cases[of l key now])
  fix b
  assume "jget (lm_buckets l) key = Some b" and
    "bucket_for now key l =
       (Tracked key, l\<lparr>lm_buckets := jset key (refill (lm_options l) now b) (lm_buckets l)\<rparr>)"
  then show ?thesis
    using eq lm_invD(1)[OF inv] lm_invD(4)[OF inv, of "Tracked key"] lm_inv_later[OF inv le]
    by (auto intro!: lm_inv_jset refill_ok[OF _ _ le] jget_Some_key)
next
  fix l0
  assume "l0 = make_room now l" and
    "bucket_for now key l =
       (Shared, l0\<lparr>lm_overflowed := Suc (lm_overflowed l0),
                   lm_overflow := Some (overflow_bucket now l0)\<rparr>)"
  then show ?thesis
    using eq make_room_inv[OF inv le] by (auto intro!: lm_inv_shared overflow_bucket_ok)
next
  fix l0
  assume "l0 = make_room now l" "\<not> bucket_full_map l0" and
    "bucket_for now key l =
       (Tracked key, l0\<lparr>lm_buckets := jset key (full_bucket (lm_options l0) now) (lm_buckets l0)\<rparr>)"
  then show ?thesis
    using eq make_room_inv[OF inv le] lm_invD(2)[OF inv]
    by (auto intro!: lm_inv_jset full_bucket_ok)
qed

lemma slot_level_jset:
  assumes "lm_inv now l" "jget (lm_buckets l) key = Some b0 \<and> b = refill (lm_options l) now b0 \<or>
      jget (lm_buckets l) key = None \<and> b = full_bucket (lm_options l) now" "now \<le> t'"
  shows "slot_level sl t' (l\<lparr>lm_buckets := jset key b (lm_buckets l)\<rparr>) = slot_level sl t' l"
  using assms lm_invD(1)[OF assms(1)] lm_invD(4)[OF assms(1), of "Tracked key"]
  by (cases sl)
     (auto simp: slot_level_def refill_refill full_bucket_level bucket_ok_def split: option.split)

lemma slot_level_shared:
  assumes "lm_inv now l" "now \<le> t'"
  shows "slot_level sl t' (l\<lparr>lm_overflowed := n, lm_overflow := Some (overflow_bucket now l)\<rparr>) =
         slot_level sl t' l"
proof (cases sl)
  case (Tracked k)
  then show ?thesis by (simp add: slot_level_def split: option.split)
next
  case Shared
  have "tokens (refill (lm_options l) t' (full_bucket (lm_options l) now)) = burst (lm_options l)"
    using full_bucket_level lm_invD(1)[OF assms(1)] assms(2) by blast
  then show ?thesis
    using Shared assms lm_invD(1)[OF assms(1)] lm_invD(4)[OF assms(1), of Shared]
    by (auto simp: slot_level_def overflow_bucket_def refill_refill bucket_ok_def full_bucket_def
        split: option.split)
qed

lemma bucket_for_level:
  assumes inv: "lm_inv t l" and le: "t \<le> now" "now \<le> t'" and eq: "bucket_for now key l = (sl, l1)"
  shows "slot_level s t' l1 = slot_level s t' l"
proof (rule bucket_for_cases[of l key now])
  fix b
  assume "jget (lm_buckets l) key = Some b" and
    "bucket_for now key l =
       (Tracked key, l\<lparr>lm_buckets := jset key (refill (lm_options l) now b) (lm_buckets l)\<rparr>)"
  then show ?thesis
    using eq slot_level_jset[OF lm_inv_later[OF inv le(1)] _ le(2)] by auto
next
  fix l0
  assume "l0 = make_room now l" and
    "bucket_for now key l =
       (Shared, l0\<lparr>lm_overflowed := Suc (lm_overflowed l0),
                   lm_overflow := Some (overflow_bucket now l0)\<rparr>)"
  then show ?thesis
    using eq slot_level_shared[OF make_room_inv[OF inv le(1)] le(2)] make_room_level[OF inv le] by auto
next
  fix l0
  assume "l0 = make_room now l" "jget (lm_buckets l) key = None" and
    "bucket_for now key l =
       (Tracked key, l0\<lparr>lm_buckets := jset key (full_bucket (lm_options l0) now) (lm_buckets l0)\<rparr>)"
  then show ?thesis
    using eq slot_level_jset[OF make_room_inv[OF inv le(1)] _ le(2)] make_room_level[OF inv le]
      make_room_get[OF lm_invD(3)[OF inv]] by auto
qed

lemma bucket_for_slot:
  assumes inv: "lm_inv t l" and le: "t \<le> now" and eq: "bucket_for now key l = (sl, l1)"
  obtains b where "slot_bucket sl l1 = Some b" "updated_at b = now" "bucket_ok (lm_options l) now b"
    "tokens b = slot_level sl now l"
proof -
  obtain b where b: "slot_bucket sl l1 = Some b" "updated_at b = now"
    using eq by (rule_tac bucket_for_cases[of l key now]) (auto simp: full_bucket_def overflow_bucket_def)
  have ok: "bucket_ok (lm_options l) now b"
    using lm_invD(4)[OF lm_inv_bucket_for[OF inv le eq] b(1)] bucket_for_options[OF eq] by simp
  have "tokens b = slot_level sl now l1"
    using b ok bucket_for_options[OF eq] by (simp add: slot_level_def refill_now)
  then show ?thesis
    using that b ok bucket_for_level[OF inv le order_refl eq] by simp
qed

lemma lm_inv_store [inv_intros]:
  assumes "lm_inv t l" "bucket_ok (lm_options l) t b" "slot_bucket sl l = Some b0"
  shows "lm_inv t (slot_store sl b l)"
proof (cases sl)
  case (Tracked k)
  then show ?thesis using assms by (auto intro!: lm_inv_jset jget_Some_key)
next
  case Shared
  then show ?thesis using assms by (simp add: lm_inv_def)
qed

lemma slot_level_spend:
  assumes "lm_inv now l" "slot_bucket sl l = Some b" "updated_at b = now" "cost \<le> tokens b" "0 \<le> cost"
  shows "slot_level s now (slot_spend sl cost l) =
      (if s = sl then slot_level sl now l - cost else slot_level s now l)"
    and "lm_inv now (slot_spend sl cost l)"
proof -
  have ok: "bucket_ok (lm_options l) now b" using assms by (auto intro: lm_invD(4))
  then have ok': "bucket_ok (lm_options l) now (b\<lparr>tokens := tokens b - cost\<rparr>)"
    using assms by (simp add: bucket_ok_def)
  show "slot_level s now (slot_spend sl cost l) =
      (if s = sl then slot_level sl now l - cost else slot_level s now l)"
    using assms ok ok'
    by (cases s; cases sl) (auto simp: slot_level_def slot_spend_def refill_now split: option.split)
  show "lm_inv now (slot_spend sl cost l)"
    using assms(1,2) ok' by (simp add: slot_spend_def lm_inv_store)
qed

text \<open>One request: the granted cost leaves the slot that served it, everything else stays.\<close>

lemma take_tokens_level:
  assumes inv: "lm_inv t l" and le: "t \<le> now" "0 \<le> cost"
    and slot: "fst (bucket_for now key l) = sl" and eq: "take_tokens now key cost l = (r, l')"
  shows "lm_inv now l'" "lm_options l' = lm_options l"
    and "slot_level s now l' = slot_level s now l - (if r = LimitOk \<and> s = sl then cost else 0)"
    and "r = LimitOk \<longleftrightarrow> cost \<le> slot_level sl now l"
    and "r \<noteq> LimitOk \<Longrightarrow> r = LimitRefused (if cost > burst (lm_options l) then RetryNever
           else RetryAfter (retry_wait (lm_options l) cost (slot_level sl now l)))"
proof -
  obtain l1 where bf: "bucket_for now key l = (sl, l1)" using slot by (metis prod.collapse)
  obtain b where b: "slot_bucket sl l1 = Some b" "updated_at b = now" "tokens b = slot_level sl now l"
    using bucket_for_slot[OF inv le(1) bf] by metis
  have inv1: "lm_inv now l1" by (rule lm_inv_bucket_for[OF inv le(1) bf])
  have lev: "slot_level s now l1 = slot_level s now l" for s
    by (rule bucket_for_level[OF inv le(1) order_refl bf])
  have opts: "lm_options l1 = lm_options l" by (rule bucket_for_options[OF bf])
  have held: "slot_tokens sl l1 = slot_level sl now l" using b by (simp add: slot_tokens_def)
  note spend = slot_level_spend[OF inv1 b(1,2) _ le(2)]
  have sopts: "lm_options (slot_spend sl cost l1) = lm_options l"
    using opts by (cases sl) (simp_all add: slot_spend_def split: option.split)
  have refused: "lm_inv now (l1\<lparr>lm_refused := n\<rparr>)" for n using inv1 by (simp add: lm_inv_def)
  have rlev: "slot_level s now (l1\<lparr>lm_refused := n\<rparr>) = slot_level s now l" for s n
    using lev[of s] by (cases s) (simp_all add: slot_level_def split: option.splits)
  show "lm_inv now l'" "lm_options l' = lm_options l"
    and "slot_level s now l' = slot_level s now l - (if r = LimitOk \<and> s = sl then cost else 0)"
    and "r = LimitOk \<longleftrightarrow> cost \<le> slot_level sl now l"
    and "r \<noteq> LimitOk \<Longrightarrow> r = LimitRefused (if cost > burst (lm_options l) then RetryNever
           else RetryAfter (retry_wait (lm_options l) cost (slot_level sl now l)))"
    using eq spend b lev opts sopts refused rlev
    by (auto simp: take_tokens_def bf held Let_def split: if_splits)
qed

lemma slot_level_later:
  assumes "lm_inv t l" "t \<le> t'" "t' \<le> t''"
  shows "slot_level sl t'' l = min (burst (lm_options l)) (slot_level sl t' l + accrued (lm_options l) t' t'')"
proof (cases "slot_bucket sl l")
  case None
  then show ?thesis
    using accrued_nonneg[OF lm_invD(1)[OF assms(1)] assms(3)] by (simp add: slot_level_def)
next
  case (Some b)
  have le: "updated_at b \<le> t'" using lm_invD(4)[OF assms(1) Some] assms(2) by (simp add: bucket_ok_def)
  have "slot_level sl t'' l = tokens (refill (lm_options l) t'' (refill (lm_options l) t' b))"
    using Some le assms(3) lm_invD(1)[OF assms(1)] by (simp add: slot_level_def refill_refill)
  then show ?thesis using Some assms(3) by (simp add: slot_level_def refill_tokens)
qed

lemma slot_level_nonneg: "lm_inv t l \<Longrightarrow> t \<le> t' \<Longrightarrow> 0 \<le> slot_level sl t' l"
  using lm_invD(1,2)[of t l] lm_invD(4)[of t l sl]
  by (auto simp: slot_level_def refill_tokens bucket_ok_def accrued_nonneg split: option.split)

lemma slot_level_burst: "slot_level sl t' l \<le> burst (lm_options l)"
  by (auto simp: slot_level_def refill_def Let_def split: option.split)

lemma slot_level_init: "mk_limiter opts = Inr l \<Longrightarrow> slot_level sl t l = burst opts \<and> lm_options l = opts"
  by (cases sl) (auto simp: mk_limiter_def slot_level_def split: if_splits)

lemma granted_level:
  "lm_inv t l \<Longrightarrow> in_time_order t ops \<Longrightarrow>
   granted sl ops l \<le> slot_level sl t l + accrued (lm_options l) t (end_time t ops)"
proof (induction ops arbitrary: t l)
  case Nil
  then show ?case using slot_level_nonneg[of t l t sl] by (simp add: accrued_def)
next
  case (Cons op ops)
  obtain now key cost where op: "op = (now, key, cost)" by (cases op)
  obtain r l' where tk: "take_tokens now key cost l = (r, l')" by (metis prod.collapse)
  have le: "t \<le> now" "0 \<le> cost" and ord: "in_time_order now ops" using Cons.prems(2) op by auto
  note step = take_tokens_level[OF Cons.prems(1) le refl tk]
  have "granted sl ops l' \<le> slot_level sl now l' + accrued (lm_options l) now (end_time now ops)"
    using Cons.IH[OF step(1) ord] step(2) by simp
  moreover have "slot_level sl now l \<le> slot_level sl t l + accrued (lm_options l) t now"
    using slot_level_later[OF Cons.prems(1) order_refl le(1), of sl] by simp
  ultimately show ?case
    using step(3)[of sl] accrued_split[of "lm_options l" t "end_time now ops" now]
    by (auto simp: op tk)
qed

fun lm_run :: "(ms \<times> string \<times> rat) list \<Rightarrow> limiter \<Rightarrow> limiter" where
  "lm_run [] l = l"
| "lm_run ((now, key, cost) # ops) l = lm_run ops (snd (take_tokens now key cost l))"

lemma lm_inv_run [inv_intros]:
  "lm_inv t l \<Longrightarrow> in_time_order t ops \<Longrightarrow>
   lm_inv (end_time t ops) (lm_run ops l) \<and> lm_options (lm_run ops l) = lm_options l"
proof (induction ops arbitrary: t l)
  case (Cons op ops)
  obtain now key cost where op: "op = (now, key, cost)" by (cases op)
  obtain r l' where tk: "take_tokens now key cost l = (r, l')" by (metis prod.collapse)
  show ?case
    using Cons.IH[of now l'] take_tokens_level(1,2)[OF Cons.prems(1) _ _ refl tk] Cons.prems(2)
    by (auto simp: op tk)
qed simp

text \<open>After a refusal, the slot that will serve the key again is the same one, or a fresh one.\<close>

lemma refused_slot:
  assumes inv: "lm_inv t l" and le: "t \<le> now" "0 \<le> cost"
    and eq: "take_tokens now key cost l = (LimitRefused r, l')"
  shows "slot_level (fst (bucket_for t' key l')) now l' = slot_level (fst (bucket_for now key l)) now l \<or>
         slot_level (fst (bucket_for t' key l')) now l' = burst (lm_options l)"
proof -
  obtain sl l1 where bf: "bucket_for now key l = (sl, l1)" by (metis prod.collapse)
  have l': "lm_buckets l' = lm_buckets l1" "lm_overflow l' = lm_overflow l1"
    using eq by (auto simp: take_tokens_def bf Let_def split: if_splits)
  have lev: "slot_level s now l' = slot_level s now l" for s
    using take_tokens_level(3)[OF inv le refl eq] by simp
  have opts: "lm_options l' = lm_options l" using take_tokens_level(2)[OF inv le refl eq] .
  consider "sl = Tracked key" "jget (lm_buckets l') key \<noteq> None"
    | "sl = Shared" "jget (lm_buckets l') key = None"
    using bf l' make_room_get[OF lm_invD(3)[OF inv], of key now]
    by (rule_tac bucket_for_cases[of l key now]) auto
  then show ?thesis
  proof cases
    case 1
    then have "fst (bucket_for t' key l') = sl" by (auto simp: bucket_for_def split: option.split)
    then show ?thesis using lev bf by simp
  next
    case 2
    have "fst (bucket_for t' key l') = Shared \<or> fst (bucket_for t' key l') = Tracked key"
      by (rule bucket_for_cases[of l' key t']) auto
    moreover have "slot_level (Tracked key) now l' = burst (lm_options l)"
      using 2 opts by (simp add: slot_level_def)
    ultimately show ?thesis using 2 lev bf by auto
  qed
qed

lemma split_on_nonempty [simp]: "split_on c xs \<noteq> []"
  by (cases xs) (auto split: list.splits)

lemma split_on_append: "split_on c (xs @ c # ys) = split_on c xs @ split_on c ys"
  by (induction xs) (auto split: list.splits)

lemma split_on_absent: "c \<notin> set s \<Longrightarrow> split_on c s = [s]"
  by (induction s) auto

lemma split_join:
  "list_all (\<lambda>p. c \<notin> set p) ps \<Longrightarrow> ps \<noteq> [] \<Longrightarrow> split_on c (join_with [c] ps) = ps"
proof (induction "[c]" ps rule: join_with.induct)
  case (3 x y ys)
  then show ?case using split_on_absent split_on_append[of c x "join_with [c] (y # ys)"] by simp
qed (simp_all add: split_on_absent)

lemma forwarded_entries_append:
  "forwarded_entries (xs @ CHR '','' # ys) = forwarded_entries xs @ forwarded_entries ys"
  by (simp add: forwarded_entries_def split_on_append)

subsection \<open>Properties\<close>

text \<open>C22: However requests arrive, what \<open>take\<close> grants from one key's bucket, or from the bucket all
  newcomers share once the map is full, over any sequence in time order is at most one burst plus
  the refill rate times the elapsed time.\<close>
theorem limiter_grant_bound:
  assumes "mk_limiter opts = Inr l" "in_time_order t ops"
  shows "granted sl ops l \<le> burst opts + of_int (end_time t ops - t) / 1000 * rate_per_s opts"
  using granted_level[OF lm_inv_init[OF assms(1)] assms(2), of sl] slot_level_init[OF assms(1), of sl t]
  by (simp add: accrued_def)

definition sample_options :: limiter_options where
  "sample_options = \<lparr>rate_per_s = 2, burst = 3, max_keys = 1\<rparr>"

definition sample_limiter :: limiter where
  "sample_limiter = \<lparr>lm_options = sample_options, lm_buckets = [], lm_overflow = None,
     lm_refused = 0, lm_overflowed = 0\<rparr>"

lemma sample_limiter: "mk_limiter sample_options = Inr sample_limiter"
  by (simp add: mk_limiter_def sample_options_def sample_limiter_def)

lemmas limiter_eval = take_tokens_def bucket_for_def bucket_full_map_def sweep_def refill_def
  full_bucket_def slot_tokens_def slot_spend_def retry_wait_def exhausted_def sample_limiter_def
  sample_options_def Let_def

theorem limiter_grant_bound_witness:
  "granted (Tracked ''a'') [(0, ''a'', 3), (500, ''a'', 1), (500, ''a'', 1)] sample_limiter
     \<le> 3 + 500 / 1000 * 2 \<and>
   granted (Tracked ''a'') [(0, ''a'', 3), (500, ''a'', 1), (500, ''a'', 1)] sample_limiter = 4"
  using limiter_grant_bound[OF sample_limiter,
      of 0 "[(0, ''a'', 3), (500, ''a'', 1), (500, ''a'', 1)]" "Tracked ''a''"]
  by (simp add: limiter_eval)

text \<open>A caller that invents keys cannot grow the map: after any sequence of requests in time
  order the limiter tracks each key once and at most \<open>maxKeys\<close> of them, and every bucket, tracked
  or shared, holds between zero and \<open>burst\<close> tokens.\<close>
theorem limiter_memory_bound:
  assumes "mk_limiter opts = Inr l" "in_time_order t ops"
  shows "int (length (lm_buckets (lm_run ops l))) \<le> max_keys opts \<and> jwf (lm_buckets (lm_run ops l)) \<and>
         (\<forall>sl b. slot_bucket sl (lm_run ops l) = Some b \<longrightarrow> 0 \<le> tokens b \<and> tokens b \<le> burst opts)"
proof -
  have run: "lm_inv (end_time t ops) (lm_run ops l)" "lm_options (lm_run ops l) = opts"
    using lm_inv_run[OF lm_inv_init[OF assms(1)] assms(2)] slot_level_init[OF assms(1)] by auto
  show ?thesis
    using run(2) lm_invD(3)[OF run(1)] lm_invD(4)[OF run(1)] run(1)
    by (auto simp: bucket_ok_def lm_inv_def[of "end_time t ops"])
qed

theorem limiter_memory_bound_witness:
  "int (length (lm_buckets (lm_run [(0, ''a'', 3), (0, ''b'', 1), (5, ''c'', 1)] sample_limiter))) \<le> 1"
  using limiter_memory_bound[OF sample_limiter, of 0 "[(0, ''a'', 3), (0, ''b'', 1), (5, ''c'', 1)]"]
  by (simp add: sample_options_def)

text \<open>A refusal's \<open>retryAfterS\<close> is honest: a finite wait is at least one second and, when
  nothing else spends in the meantime, the same request succeeds after it; the infinite wait is
  given exactly when the cost exceeds the burst, and then no later request of that cost succeeds.\<close>
theorem limiter_retry_after_honest:
  assumes inv: "lm_inv t l" and le: "t \<le> now" "0 \<le> cost"
    and eq: "take_tokens now key cost l = (LimitRefused r, l')"
  shows "case r of
      RetryAfter n \<Rightarrow> 1 \<le> n \<and> cost \<le> burst (lm_options l) \<and>
        fst (take_tokens (now + 1000 * n) key cost l') = LimitOk
    | RetryNever \<Rightarrow> cost > burst (lm_options l) \<and>
        (\<forall>t' \<ge> now. fst (take_tokens t' key cost l') = LimitRefused RetryNever)"
proof -
  let ?sl = "fst (bucket_for now key l)"
  let ?v = "slot_level ?sl now l"
  note step = take_tokens_level[OF inv le refl eq]
  have r: "r = (if cost > burst (lm_options l) then RetryNever
                else RetryAfter (retry_wait (lm_options l) cost ?v))" and low: "?v < cost"
    using step(4,5) by auto
  have rate: "0 < rate_per_s (lm_options l)" by (rule lm_invD(1)[OF inv])
  show ?thesis
  proof (cases "cost > burst (lm_options l)")
    case True
    have "fst (take_tokens t' key cost l') = LimitRefused RetryNever" if "now \<le> t'" for t'
      using take_tokens_level(4,5)[OF step(1) that le(2) refl prod.collapse[symmetric]] step(2) True
        slot_level_burst[of "fst (bucket_for t' key l')" t' l'] by fastforce
    then show ?thesis using True r by simp
  next
    case False
    let ?n = "retry_wait (lm_options l) cost ?v"
    let ?t = "now + 1000 * ?n"
    have wait: "cost - ?v \<le> of_int ?n * rate_per_s (lm_options l)"
      using rate by (simp add: retry_wait_def le_of_int_ceiling flip: pos_divide_le_eq)
    have n: "1 \<le> ?n" using low rate by (simp add: retry_wait_def)
    then have "0 \<le> of_int ?n * rate_per_s (lm_options l)" using rate by simp
    then have "cost \<le> slot_level (fst (bucket_for ?t key l')) ?t l'"
      using slot_level_later[OF step(1), of now ?t] refused_slot[OF inv le eq, of ?t] n wait False step(2)
      by (auto simp: accrued_def)
    then have "fst (take_tokens ?t key cost l') = LimitOk"
      using take_tokens_level(4)[OF step(1) _ le(2) refl prod.collapse[symmetric], of ?t] n by auto
    then show ?thesis using n r False by simp
  qed
qed

theorem limiter_retry_after_honest_witness:
  "fst (take_tokens 0 ''a'' 2 (snd (take_tokens 0 ''a'' 3 sample_limiter))) = LimitRefused (RetryAfter 1) \<and>
   fst (take_tokens 1000 ''a'' 2 (snd (take_tokens 0 ''a'' 2 (snd (take_tokens 0 ''a'' 3 sample_limiter)))))
     = LimitOk"
proof -
  let ?l = "snd (take_tokens 0 ''a'' 3 sample_limiter)"
  have inv: "lm_inv 0 ?l"
    using lm_inv_run[OF lm_inv_init[OF sample_limiter], of 0 "[(0, ''a'', 3)]"] by simp
  have ref: "take_tokens 0 ''a'' 2 ?l = (LimitRefused (RetryAfter 1), snd (take_tokens 0 ''a'' 2 ?l))"
    by (simp add: limiter_eval)
  show ?thesis
    using limiter_retry_after_honest[OF inv order_refl _ ref] arg_cong[OF ref, of fst] by simp
qed

text \<open>With \<open>trustedHops\<close> proxies, the address a request is held to comes from the entries those
  proxies appended: whatever a caller writes before them, in one header or in several, does not
  change it.\<close>
theorem client_address_ignores_caller_entries:
  assumes "0 < hops" "hops \<le> int (length (forwarded_entries trusted))"
  shows "client_address remote (HOne (forged @ '','' @ trusted)) hops =
           forwarded_entries trusted ! (length (forwarded_entries trusted) - nat hops) \<and>
         client_address remote (HMany [forged, trusted]) hops = client_address remote (HOne trusted) hops"
proof -
  obtain n where n: "hops = int n" "0 < n" "n \<le> length (forwarded_entries trusted)"
    using assms by (metis nat_0_le of_nat_0_less_iff of_nat_le_iff order_less_imp_le)
  then have "\<not> length (forwarded_entries forged) + length (forwarded_entries trusted) - n
      < length (forwarded_entries forged)" by simp
  then show ?thesis
    using n by (simp add: client_address_def forwarded_entries_append Let_def nth_append)
qed

theorem client_address_ignores_caller_entries_witness:
  "client_address (Some ''10.0.0.9'') (HOne ''6.6.6.6,203.0.113.7, 10.1.1.1'') 2 = ''203.0.113.7''"
  using client_address_ignores_caller_entries[of 2 "''203.0.113.7, 10.1.1.1''" "Some ''10.0.0.9''" "''6.6.6.6''"]
  by (simp add: forwarded_entries_def js_trim_def js_space_def)

end
