(* ===== verification/Http_Schemas.thy ===== *)
theory Http_Schemas
  imports Control_Store Limiter
begin

section \<open>The request schemas (packages/types/src)\<close>

text \<open>
  What the schemas of the ingest routes make of a parsed JSON value: \<open>Some\<close> the typed request, or
  \<open>None\<close> where \<open>safeParse\<close> reports issues (their texts are left out). Unknown properties are dropped. The numbers of
  a \<open>json\<close> are finite; the parse of a literal beyond the range of a double to an infinity is not modelled.
\<close>

definition is_object :: "json \<Rightarrow> bool" where
  "is_object j = (case j of JObject _ \<Rightarrow> True | _ \<Rightarrow> False)"

definition hex_char :: "char \<Rightarrow> bool" where
  "hex_char c = (c \<in> set ''0123456789abcdefABCDEF'')"

definition uuid_shape :: "string \<Rightarrow> bool" where
  "uuid_shape s =
     (length s = 36 \<and>
      list_all (\<lambda>i. if i \<in> {8, 13, 18, 23} then s ! i = CHR ''-'' else hex_char (s ! i)) [0 ..< 36])"

definition uuid_of :: "json \<Rightarrow> string option" where
  "uuid_of j = checked uuid_shape (json_string j)"

definition quality_of :: "json \<Rightarrow> quality option" where
  "quality_of j =
     (case json_int j of
        Some n \<Rightarrow> if n = 0 then Some Good else if n = 1 then Some Uncertain else if n = 2 then Some OutOfRange
          else if n = 3 then Some StaleQuality else if n = 4 then Some DeviceFault else None
      | None \<Rightarrow> None)"

definition raw_reading_of :: "json \<Rightarrow> raw_reading option" where
  "raw_reading_of j =
     (case (checked (\<lambda>s. 1 \<le> length s) (json_required json_string j ''externalId''), json_optional json_int j ''ts'',
            json_required json_number j ''value'', json_optional quality_of j ''quality'') of
        (Some ext, Some ts, Some v, Some q) \<Rightarrow> Some \<lparr>rw_external_id = ext, rw_ts = ts, rw_value = Num v, rw_quality = q\<rparr>
      | _ \<Rightarrow> None)"

definition raw_batch_of :: "json \<Rightarrow> raw_reading list option" where
  "raw_batch_of j =
     (case (jfield j ''readings'', json_optional json_string j ''source'') of
        (Some (JArray rs), Some _) \<Rightarrow>
          checked (\<lambda>b. 1 \<le> length b \<and> int (length b) \<le> max_batch_readings) (all_some (map raw_reading_of rs))
      | _ \<Rightarrow> None)"

definition trimmed :: "nat \<Rightarrow> nat \<Rightarrow> json \<Rightarrow> string option" where
  "trimmed lo hi j = checked (\<lambda>s. lo \<le> length s \<and> length s \<le> hi) (map_option js_trim (json_string j))"

definition setpoint_request_of :: "json \<Rightarrow> setpoint_request option" where
  "setpoint_request_of j =
     (case (json_required uuid_of j ''zoneId'', checked (\<lambda>t. - 50 \<le> t \<and> t \<le> 60) (json_required json_number j ''setpointTempC''),
            json_required (trimmed 3 500) j ''reason'',
            json_optional (\<lambda>v. checked (\<lambda>d. 0 < d \<and> d \<le> 86400) (json_int v)) j ''durationS'',
            json_optional json_bool j ''dryRun'') of
        (Some z, Some t, Some r, Some d, Some dry) \<Rightarrow>
          Some \<lparr>sq_zone = z, sq_setpoint = t, sq_reason = r, sq_duration_s = d, sq_dry_run = (dry = Some True)\<rparr>
      | _ \<Rightarrow> None)"

definition outcome_of :: "json \<Rightarrow> command_outcome option" where
  "outcome_of j =
     (case j of JString s \<Rightarrow> if s = ''applied'' then Some OutcomeApplied else if s = ''failed'' then Some OutcomeFailed else None
      | _ \<Rightarrow> None)"

definition result_report_of :: "json \<Rightarrow> (command_outcome \<times> string option) option" where
  "result_report_of j =
     (case (json_required outcome_of j ''outcome'', json_optional (trimmed 0 500) j ''detail'') of
        (Some r, Some d) \<Rightarrow>
          if r \<noteq> OutcomeFailed \<or> (case d of Some s \<Rightarrow> length s | None \<Rightarrow> 0) > 0 then Some (r, d) else None
      | _ \<Rightarrow> None)"

definition seconds_of :: "int \<Rightarrow> int \<Rightarrow> json \<Rightarrow> int option" where
  "seconds_of lo hi j = checked (\<lambda>n. lo \<le> n \<and> n \<le> hi) (json_int j)"

definition kelvin_of :: "json \<Rightarrow> rat option" where
  "kelvin_of j = checked (\<lambda>k. 0 < k \<and> k \<le> 10) (json_number j)"

definition settings_update_of :: "json \<Rightarrow> settings_patch option" where
  "settings_update_of j =
     (if \<not> is_object j then None
      else case (json_optional json_bool j ''enabled'', json_optional kelvin_of j ''maxDeviationK'',
                 json_optional kelvin_of j ''maxStepK'', json_optional (seconds_of 0 86400) j ''minIntervalS'',
                 json_optional (seconds_of 1 86400) j ''defaultDurationS'', json_optional (seconds_of 1 86400) j ''maxDurationS'',
                 json_optional (seconds_of 1 3600) j ''commandTtlS'') of
             (Some e, Some dev, Some st, Some mi, Some dd, Some md, Some ttl) \<Rightarrow>
               Some \<lparr>sp_enabled = e, sp_max_deviation_k = dev, sp_max_step_k = st, sp_min_interval_s = mi,
                 sp_default_duration_s = dd, sp_max_duration_s = md, sp_command_ttl_s = ttl\<rparr>
           | _ \<Rightarrow> None)"

text \<open>What the schemas let through is what the contracts ask for.\<close>

lemma checked_Some [simp]: "checked P v = Some x \<longleftrightarrow> v = Some x \<and> P x"
  by (auto simp: checked_def split: option.splits)

lemma optional_checked: "json_optional parse j k = Some (Some x) \<Longrightarrow> \<exists>v. jfield j k = Some v \<and> parse v = Some x"
  by (auto simp: json_optional_def split: option.splits)

lemma all_some_map:
  "all_some (map f xs) = Some ys \<Longrightarrow> length ys = length xs \<and> list_all2 (\<lambda>x y. f x = Some y) xs ys"
proof (induction xs arbitrary: ys)
  case (Cons x xs)
  then show ?case by (cases "f x") auto
qed simp

lemma raw_batch_of_ok: "raw_batch_of j = Some b \<Longrightarrow> raw_batch_ok b"
proof -
  assume "raw_batch_of j = Some b"
  then obtain rs where rs: "all_some (map raw_reading_of rs) = Some b" "1 \<le> length b" "int (length b) \<le> max_batch_readings"
    by (auto simp: raw_batch_of_def split: option.splits json.splits)
  have one: "raw_reading_of x = Some y \<Longrightarrow> 1 \<le> length (rw_external_id y) \<and> rw_value y \<noteq> NaN" for x y
    by (auto simp: raw_reading_of_def split: option.splits)
  have "list_all2 (\<lambda>x y. raw_reading_of x = Some y) rs b" using all_some_map[OF rs(1)] by blast
  then have "list_all (\<lambda>r. 1 \<le> length (rw_external_id r) \<and> rw_value r \<noteq> NaN) b"
    by (induction rule: list_all2_induct) (use one in auto)
  then show ?thesis using rs(2,3) by (simp add: raw_batch_ok_def)
qed

lemma setpoint_request_of_ok: "setpoint_request_of j = Some q \<Longrightarrow> setpoint_request_ok q"
proof -
  assume "setpoint_request_of j = Some q"
  then obtain z t r d dry where p: "- 50 \<le> t" "t \<le> 60" "json_required (trimmed 3 500) j ''reason'' = Some r"
    "json_optional (\<lambda>v. checked (\<lambda>d. 0 < d \<and> d \<le> 86400) (json_int v)) j ''durationS'' = Some d"
    "q = \<lparr>sq_zone = z, sq_setpoint = t, sq_reason = r, sq_duration_s = d, sq_dry_run = dry\<rparr>"
    by (auto simp: setpoint_request_of_def split: option.splits)
  have "3 \<le> length r \<and> length r \<le> 500" using p(3) by (auto simp: json_required_def trimmed_def split: option.splits)
  moreover have "\<forall>x \<in> set_option d. 0 < x \<and> x \<le> 86400"
    using p(4) by (auto dest: optional_checked)
  ultimately show ?thesis using p by (simp add: setpoint_request_ok_def)
qed

lemma result_report_of_ok: "result_report_of j = Some (r, d) \<Longrightarrow> result_report_ok r d"
proof -
  assume "result_report_of j = Some (r, d)"
  then have p: "json_optional (trimmed 0 500) j ''detail'' = Some d"
    "r \<noteq> OutcomeFailed \<or> (case d of Some s \<Rightarrow> length s | None \<Rightarrow> 0) > 0"
    by (auto simp: result_report_of_def split: option.splits if_splits)
  have "\<forall>x \<in> set_option d. length x \<le> 500"
    using p(1) by (auto dest: optional_checked simp: trimmed_def)
  then show ?thesis using p(2) by (simp add: result_report_ok_def)
qed

end
