(* ===== verification/Control_Service.thy ===== *)
theory Control_Service
  imports Control_Store
begin

section \<open>Issuing and dispatching commands (apps/ingest/src/control/service.ts)\<close>

text \<open>
  The two places the envelope runs: when a person asks, and again when a gateway collects. The clock of
  the process and that of each database transaction are arguments, as are the rows of the building and
  of the memberships each read sees. The text that a withheld command records is an argument too.
\<close>

record identity =
  id_members :: "(string \<times> string, tenant_role) jsmap"
  id_active :: "string list"

definition member_role :: "string \<Rightarrow> string \<Rightarrow> identity \<Rightarrow> tenant_role option" where
  "member_role tenant user ids =
     (case jget (id_members ids) (tenant, user) of
        Some r \<Rightarrow> if user \<in> set (id_active ids) then Some r else None
      | None \<Rightarrow> None)"

subsection \<open>Issuing\<close>

datatype issue_refusal = ByEnvelope control_refusal | UnknownZone

datatype issue_result =
    Issued "string \<times> command"
  | DryRun permit
  | NotIssued issue_refusal
  | IssueRaised string

record issue_env =
  ie_building :: building
  ie_identity :: identity
  ie_db_now :: ms
  ie_now :: ms
  ie_insert_now :: ms
  ie_new_id :: string

definition issue_context :: "string \<Rightarrow> tenant_role \<Rightarrow> string \<Rightarrow> issue_env \<Rightarrow> control_db \<Rightarrow> envelope_context" where
  "issue_context tenant role zone e db =
     \<lparr>ec_settings = fst (get_settings tenant db), ec_role = role,
      ec_zone = load_zone_context tenant zone (ie_db_now e) (ie_building e) db, ec_now = ie_now e\<rparr>"

definition order_of :: "string \<Rightarrow> string \<Rightarrow> setpoint_request \<Rightarrow> permit \<Rightarrow> new_command" where
  "order_of tenant user q p =
     \<lparr>nx_tenant = tenant, nx_zone = sq_zone q, nx_setpoint = sq_setpoint q, nx_previous = pm_previous p,
      nx_reason = sq_reason q, nx_requested_by = user, nx_expires_at = pm_expires_at p,
      nx_effective_until = pm_effective_until p\<rparr>"

definition judge_request ::
  "string \<Rightarrow> string \<Rightarrow> setpoint_request \<Rightarrow> issue_env \<Rightarrow> control_db \<Rightarrow> (issue_refusal + permit) \<times> control_db" where
  "judge_request tenant user q e db =
     (case member_role tenant user (ie_identity e) of
        None \<Rightarrow> (Inl (ByEnvelope forbidden_role), db)
      | Some role \<Rightarrow>
          let db1 = snd (get_settings tenant db);
              ctx = issue_context tenant role (sq_zone q) e db
          in if \<not> zc_exists (ec_zone ctx) then (Inl UnknownZone, db1)
             else case evaluate_command (sq_setpoint q) (sq_duration_s q) ctx of
                    Inl r \<Rightarrow> (Inl (ByEnvelope r), db1)
                  | Inr p \<Rightarrow> (Inr p, db1))"

definition queue_order :: "new_command \<Rightarrow> issue_env \<Rightarrow> control_db \<Rightarrow> issue_result \<times> control_db" where
  "queue_order n e db =
     (case insert_command (ie_building e) (ie_new_id e) (ie_insert_now e) n db of
        (Inl err, db1) \<Rightarrow> (IssueRaised err, db1)
      | (Inr None, db1) \<Rightarrow> (NotIssued (ByEnvelope command_in_flight), db1)
      | (Inr (Some c), db1) \<Rightarrow> (Issued c, db1))"

definition issue_command ::
  "string \<Rightarrow> string \<Rightarrow> setpoint_request \<Rightarrow> issue_env \<Rightarrow> control_db \<Rightarrow> issue_result \<times> control_db" where
  "issue_command tenant user q e db =
     (case judge_request tenant user q e db of
        (Inl r, db1) \<Rightarrow> (NotIssued r, db1)
      | (Inr p, db1) \<Rightarrow>
          if sq_dry_run q then (DryRun p, db1)
          else queue_order (order_of tenant user q p) e db1)"

subsection \<open>Dispatching\<close>

record recheck_env =
  re_building :: building
  re_identity :: identity
  re_db_now :: ms
  re_now :: ms

definition recheck_context ::
  "string \<Rightarrow> control_settings \<Rightarrow> command \<Rightarrow> recheck_env \<Rightarrow> control_db \<Rightarrow> envelope_context" where
  "recheck_context tenant s c e db =
     \<lparr>ec_settings = s,
      ec_role = (case member_role tenant (cc_requested_by c) (re_identity e) of Some r \<Rightarrow> r | None \<Rightarrow> Viewer),
      ec_zone = (load_zone_context tenant (cc_zone c) (re_db_now e) (re_building e) db)
        \<lparr>zc_last_command_at := None, zc_in_flight := False\<rparr>,
      ec_now = re_now e\<rparr>"

fun recheck ::
  "(control_refusal \<Rightarrow> string) \<Rightarrow> string \<Rightarrow> control_settings \<Rightarrow> (string \<Rightarrow> recheck_env) \<Rightarrow>
   (string \<times> command) list \<Rightarrow> control_db \<Rightarrow> (string \<times> command) list \<times> nat \<times> control_db" where
  "recheck detail tenant s env [] db = ([], 0, db)"
| "recheck detail tenant s env ((i, c) # cs) db =
     (case evaluate_command (cc_setpoint c) None (recheck_context tenant s c (env i) db) of
        Inr _ \<Rightarrow>
          (let (out, withheld, db1) = recheck detail tenant s env cs db in ((i, c) # out, withheld, db1))
      | Inl r \<Rightarrow>
          (let (out, withheld, db1) = recheck detail tenant s env cs (release_command tenant i (detail r) db)
           in (out, Suc withheld, db1)))"

definition claim_for_gateway ::
  "(control_refusal \<Rightarrow> string) \<Rightarrow> string \<Rightarrow> string \<Rightarrow> nat \<Rightarrow> ms \<Rightarrow> ms \<Rightarrow> string list \<Rightarrow> (string \<Rightarrow> recheck_env) \<Rightarrow>
   control_db \<Rightarrow> (string \<times> command) list \<times> nat \<times> control_db" where
  "claim_for_gateway detail tenant gateway limit expire_now claim_now locked env db =
     (let (_, db1) = expire_stale tenant expire_now db;
          (s, db2) = get_settings tenant db1
      in if \<not> cs_enabled s then ([], 0, db2)
         else let (claimed, db3) = claim_commands tenant gateway limit claim_now locked db2
              in recheck detail tenant s env claimed db3)"

definition report_result ::
  "string \<Rightarrow> string \<Rightarrow> command_outcome \<Rightarrow> string option \<Rightarrow> ms \<Rightarrow> control_db \<Rightarrow> (string \<times> command) option \<times> control_db" where
  "report_result tenant i outcome detail now db = settle_command tenant i outcome detail now db"

subsection \<open>What a gateway is handed\<close>

text \<open>Whether a command is safe depends on the zone's rows, not on the queue.\<close>

lemma load_zone_context_rows:
  "zc_baseline (load_zone_context tenant zone now b db) = zone_baseline tenant zone b"
  "zc_equipment (load_zone_context tenant zone now b db) = zone_equipment tenant zone b"
  "zc_feedback (load_zone_context tenant zone now b db) = zc_feedback (load_zone_context tenant zone now b db')"
  by (simp_all add: load_zone_context_def Let_def)

lemma recheck_safe_cong:
  "command_safe v (recheck_context tenant s c e db) = command_safe v (recheck_context tenant s c e db')"
  by (simp add: command_safe_def recheck_context_def feedback_usable_def load_zone_context_rows(1,2)
      load_zone_context_rows(3)[of tenant "cc_zone c" "re_db_now e" "re_building e" db db'] cong: option.case_cong)

lemma recheck_out:
  assumes "(i, c) \<in> set (fst (recheck detail tenant s env cs db))"
  shows "(i, c) \<in> set cs" "command_safe (cc_setpoint c) (recheck_context tenant s c (env i) db')"
proof -
  have "(i, c) \<in> set cs \<and> command_safe (cc_setpoint c) (recheck_context tenant s c (env i) db')"
    using assms
  proof (induction detail tenant s env cs db rule: recheck.induct)
    case (2 detail tenant s env j d cs db)
    show ?case
    proof (cases "evaluate_command (cc_setpoint d) None (recheck_context tenant s d (env j) db)")
      case (Inl r)
      then show ?thesis using 2(1)[OF Inl] 2(3) by (auto simp: case_prod_beta)
    next
      case (Inr p)
      have "command_safe (cc_setpoint d) (recheck_context tenant s d (env j) db')"
        using permit_safe[OF Inr] recheck_safe_cong by blast
      then show ?thesis using 2(2)[OF Inr] 2(3) Inr by (auto simp: case_prod_beta)
    qed
  qed simp
  then show "(i, c) \<in> set cs" "command_safe (cc_setpoint c) (recheck_context tenant s c (env i) db')" by simp_all
qed

lemma in_map_filter: "y \<in> set (List.map_filter f xs) \<longleftrightarrow> (\<exists>x \<in> set xs. f x = Some y)"
  by (force simp: List.map_filter_def)

lemma claim_commands_out:
  assumes "(i, c) \<in> set (fst (claim_commands tenant gateway limit now locked db))" "jwf (cd_commands db)"
  shows "\<exists>d. jget (cd_commands db) i = Some d \<and> cc_tenant d = tenant \<and> collectable now d \<and> c = claimed_row now gateway d"
proof -
  let ?ids = "claim_ids tenant limit now locked db"
  have "i \<in> set ?ids \<and> get_command tenant i (update_where tenant (\<lambda>i c. i \<in> set ?ids) (claimed_row now gateway) db) = Some (i, c)"
    using assms(1) by (auto simp: claim_commands_def Let_def claimed_row_def[abs_def] in_map_filter get_command_Some)
  then show ?thesis
    using claim_ids_collectable[OF _ assms(2)] by (fastforce simp: get_command_Some update_where_get)
qed

lemma get_settings_commands [simp]: "cd_commands (snd (get_settings tenant db)) = cd_commands db"
  by (simp add: get_settings_def split: option.splits)

lemma get_settings_value: "fst (get_settings tenant db) = or_else default_settings (jget (cd_settings db) tenant)"
  by (simp add: get_settings_def or_else_def split: option.splits)

lemma expire_stale_frame [simp]:
  "cd_settings (snd (expire_stale tenant now db)) = cd_settings db"
  "jwf (cd_commands (snd (expire_stale tenant now db))) = jwf (cd_commands db)"
  by (simp_all add: expire_stale_def Let_def)

lemma claim_for_gateway_unfold:
  "claim_for_gateway detail tenant gateway limit t u locked env db =
     (let db2 = snd (get_settings tenant (snd (expire_stale tenant t db)));
          s = or_else default_settings (jget (cd_settings db) tenant)
      in if \<not> cs_enabled s then ([], 0, db2)
         else recheck detail tenant s env (fst (claim_commands tenant gateway limit u locked db2))
                (snd (claim_commands tenant gateway limit u locked db2)))"
  using get_settings_value[of tenant "snd (expire_stale tenant t db)"]
  by (simp add: claim_for_gateway_def case_prod_beta Let_def)

text \<open>C6: Whatever a gateway is handed is safe at that moment: the command was pending and not yet expired, the
  tenant's kill switch was on, the person who asked may still command, no serving equipment was faulted,
  offline or in maintenance, the zone's sensor was good and fresh, and the setpoint lies within the
  present envelope around the zone's designed setpoint.\<close>
theorem gateway_gets_safe_commands:
  assumes "jwf (cd_commands db)"
    and "(i, c) \<in> set (fst (claim_for_gateway detail tenant gateway limit t u locked env db))"
  shows "\<exists>d. jget (cd_commands db) i = Some d \<and> cc_tenant d = tenant \<and> cc_state d = Pending \<and> u < cc_expires_at d \<and>
    c = claimed_row u gateway d \<and>
    command_safe (cc_setpoint c)
      (recheck_context tenant (or_else default_settings (jget (cd_settings db) tenant)) c (env i) db)"
proof -
  let ?db1 = "snd (expire_stale tenant t db)"
  let ?db2 = "snd (get_settings tenant ?db1)"
  let ?s = "or_else default_settings (jget (cd_settings db) tenant)"
  have out: "(i, c) \<in> set (fst (recheck detail tenant ?s env (fst (claim_commands tenant gateway limit u locked ?db2))
      (snd (claim_commands tenant gateway limit u locked ?db2))))"
    using assms(2) by (auto simp: claim_for_gateway_unfold Let_def split: if_splits)
  obtain d where d: "jget (cd_commands ?db1) i = Some d" "cc_tenant d = tenant" "collectable u d" "c = claimed_row u gateway d"
    using claim_commands_out[OF recheck_out(1)[OF out]] assms(1) by auto
  obtain d0 where d0: "jget (cd_commands db) i = Some d0"
    "d = (if cc_tenant d0 = tenant \<and> cc_state d0 = Pending \<and> cc_expires_at d0 \<le> t
       then d0\<lparr>cc_state := Expired, cc_settled_at := Some t, cc_detail := Some ''not collected before expires_at''\<rparr> else d0)"
    using d(1) by (auto simp: expire_stale_def Let_def update_where_get)
  have "\<not> (cc_tenant d0 = tenant \<and> cc_state d0 = Pending \<and> cc_expires_at d0 \<le> t)" (is "\<not> ?stale")
  proof
    assume ?stale
    then have "cc_state d = Expired" unfolding d0(2) by simp
    then show False using d(3) by (simp add: collectable_def)
  qed
  then have "d = d0" unfolding d0(2) by (rule if_not_P)
  then show ?thesis using d(2-4) d0(1) recheck_out(2)[OF out] unfolding collectable_def by blast
qed

text \<open>The kill switch: while a tenant's control is switched off, or was never configured, a poll hands out
  nothing and dispatches nothing, and whatever is queued is left to lapse.\<close>
theorem kill_switch_stops_dispatch:
  assumes "\<not> cs_enabled (or_else default_settings (jget (cd_settings db) tenant))"
  shows "\<exists>db'. claim_for_gateway detail tenant gateway limit t u locked env db = ([], 0, db') \<and>
    cd_commands db' = cd_commands (snd (expire_stale tenant t db))"
  using assms by (simp add: claim_for_gateway_unfold Let_def)

subsection \<open>Findings\<close>

text \<open>C18: A short override raises instead of being refused: the envelope permits a duration no longer than the
  command's time to live, but the table requires the effect to outlast the intent, so issuing the
  permitted command ends in a constraint violation and not in a refusal.\<close>
theorem short_override_raises:
  assumes "judge_request tenant user q e db = (Inr p, db1)" "\<not> sq_dry_run q"
    and "sq_duration_s q = Some n" "n \<le> cs_command_ttl_s (or_else default_settings (jget (cd_settings db) tenant))"
  shows "issue_command tenant user q e db = (IssueRaised ''check_violation'', db1)"
proof -
  obtain role where "evaluate_command (sq_setpoint q) (sq_duration_s q) (issue_context tenant role (sq_zone q) e db) = Inr p"
    using assms(1) by (auto simp: judge_request_def Let_def split: option.splits if_splits sum.splits)
  from permit_checks(2)[OF this]
  have "pm_effective_until p \<le> pm_expires_at p"
    using assms(3,4) by (simp add: granted_def duration_of_def issue_context_def get_settings_value)
  then show ?thesis
    using assms(1,2) by (simp add: issue_command_def queue_order_def insert_command_def command_check_def new_row_def order_of_def)
qed

text \<open>C17: A dispatched command never lapses: neither the expiry that runs before every poll nor another
  gateway's claim touches it, however long after its deadline, and until it is reported or cancelled
  every new command for its zone is turned away.\<close>
theorem dispatched_never_lapses:
  assumes "jwf (cd_commands db)" "jget (cd_commands db) i = Some c" "cc_state c = Dispatched"
    and "nx_tenant n = cc_tenant c" "nx_zone n = cc_zone c"
  shows "jget (cd_commands (snd (expire_stale tenant t db))) i = Some c \<and>
    i \<notin> set (claim_ids tenant limit u locked db) \<and>
    (\<forall>e. fst (queue_order n e db) \<in> {NotIssued (ByEnvelope command_in_flight), IssueRaised ''check_violation''})"
proof -
  have "zone_busy (cc_tenant c) (cc_zone c) db"
    unfolding zone_busy_iff[OF assms(1)] using assms(2,3) by (auto simp: live_command_def)
  moreover have "i \<notin> set (claim_ids tenant limit u locked db)"
    using claim_ids_collectable[OF _ assms(1)] assms(2,3) by (fastforce simp: collectable_def)
  ultimately show ?thesis
    using assms(2-5) by (auto simp: expire_stale_def Let_def update_where_get queue_order_def insert_command_def)
qed

subsection \<open>People, gateways and the clock together\<close>

text \<open>
  Requests, polls, reports and cancellations of many callers interleave, one committed transaction at a
  time; the first parameter is the tenant in scope. A request is judged in one step and queued in a later
  one, so any number of requests may have been judged before the first is queued (\<open>ct_judged\<close>). The
  database's clock does not run backwards; the clock of the process is unconstrained. The building, the
  memberships and the settings change underneath.
\<close>

record control_state =
  ct_now :: ms
  ct_db :: control_db
  ct_judged :: "new_command list"

inductive control_step :: "string \<Rightarrow> control_state \<Rightarrow> control_state \<Rightarrow> bool" where
  tick: "ct_now s \<le> t \<Longrightarrow> control_step tenant s (s\<lparr>ct_now := t\<rparr>)"
| configure: "control_step tenant s (s\<lparr>ct_db := snd (update_settings tenant p (ct_db s))\<rparr>)"
| judge: "judge_request tenant user q e (ct_db s) = (Inr p, db) \<Longrightarrow>
     control_step tenant s (s\<lparr>ct_db := db, ct_judged := order_of tenant user q p # ct_judged s\<rparr>)"
| judged_no: "judge_request tenant user q e (ct_db s) = (Inl r, db) \<Longrightarrow> control_step tenant s (s\<lparr>ct_db := db\<rparr>)"
| queue: "n \<in> set (ct_judged s) \<Longrightarrow> nx_tenant n = tenant \<Longrightarrow> jget (cd_commands (ct_db s)) new_id = None \<Longrightarrow>
     control_step tenant s (s\<lparr>ct_db := snd (insert_command b new_id (ct_now s) n (ct_db s))\<rparr>)"
| expire: "control_step tenant s (s\<lparr>ct_db := snd (expire_stale tenant (ct_now s) (ct_db s))\<rparr>)"
| collect: "control_step tenant s (s\<lparr>ct_db := snd (claim_commands tenant gateway limit (ct_now s) locked (ct_db s))\<rparr>)"
| withhold: "control_step tenant s (s\<lparr>ct_db := release_command tenant i detail (ct_db s)\<rparr>)"
| report: "control_step tenant s (s\<lparr>ct_db := snd (report_result tenant i outcome d (ct_now s) (ct_db s))\<rparr>)"
| cancel: "control_step tenant s (s\<lparr>ct_db := snd (cancel_command tenant i (ct_now s) (ct_db s))\<rparr>)"

definition control_moves :: "control_state \<Rightarrow> control_state \<Rightarrow> bool" where
  "control_moves s s' = (\<exists>tenant. control_step tenant s s')"

definition control_reach :: "control_state \<Rightarrow> bool" where
  "control_reach s = (\<exists>s0. cd_commands (ct_db s0) = [] \<and> control_moves\<^sup>*\<^sup>* s0 s)"

lemma update_settings_commands [simp]: "cd_commands (snd (update_settings tenant p db)) = cd_commands db"
  using get_settings_commands[of tenant db]
  by (cases "get_settings tenant db") (simp add: update_settings_def Let_def)

lemma judge_request_commands [simp]: "cd_commands (snd (judge_request tenant user q e db)) = cd_commands db"
  by (simp add: judge_request_def Let_def split: option.splits sum.splits)

lemma control_ok_commands: "cd_commands db' = cd_commands db \<Longrightarrow> control_ok now db' = control_ok now db"
  by (simp add: control_ok_def)

lemma control_step_ok:
  assumes "control_step tenant s s'" "control_ok (ct_now s) (ct_db s)"
  shows "control_ok (ct_now s') (ct_db s')"
  using assms(1)
proof cases
  case (judge user q e p db)
  then show ?thesis using assms(2) judge_request_commands[of tenant user q e "ct_db s"]
    by (simp add: control_ok_commands[of db "ct_db s"])
next
  case (judged_no user q e r db)
  then show ?thesis using assms(2) judge_request_commands[of tenant user q e "ct_db s"]
    by (simp add: control_ok_commands[of db "ct_db s"])
next
  case (configure p)
  then show ?thesis using assms(2) control_ok_commands[OF update_settings_commands] by simp
next
  case (report i outcome d)
  then show ?thesis using settle_command_ok[OF assms(2) order_refl] by (simp add: report_result_def)
qed (use assms(2) control_ok_later insert_command_ok statement_ok in auto)

lemma control_moves_ok: "control_moves\<^sup>*\<^sup>* s s' \<Longrightarrow> control_ok (ct_now s) (ct_db s) \<Longrightarrow> control_ok (ct_now s') (ct_db s')"
  by (induction rule: rtranclp_induct) (blast intro: control_step_ok dest: control_moves_def[THEN iffD1])+

lemma control_ok_empty: "cd_commands db = [] \<Longrightarrow> control_ok now db"
  by (simp add: control_ok_def)

lemma control_reach_ok: "control_reach s \<Longrightarrow> control_ok (ct_now s) (ct_db s)"
  unfolding control_reach_def using control_moves_ok control_ok_empty by blast

text \<open>C7: However requests, polls, reports and cancellations interleave, and however many requests were judged
  before any was queued, a zone never has two commands waiting or dispatched.\<close>
theorem one_live_command_per_zone:
  assumes "control_reach s" "jget (cd_commands (ct_db s)) i = Some c" "jget (cd_commands (ct_db s)) j = Some d"
    and "cc_tenant c = cc_tenant d" "cc_zone c = cc_zone d" "live_command c" "live_command d"
  shows "i = j"
  using control_okD(3)[OF control_reach_ok[OF assms(1)] assms(2-5)] assms(6,7) by blast

text \<open>C8: A zone never has two setpoints: at every instant at most one applied override of it is in force.\<close>
theorem one_override_in_force:
  assumes "control_reach s" "jget (cd_commands (ct_db s)) i = Some c" "jget (cd_commands (ct_db s)) j = Some d"
    and "cc_tenant c = cc_tenant d" "cc_zone c = cc_zone d" "in_force (ct_now s) c" "in_force (ct_now s) d"
  shows "i = j"
  using control_okD(3)[OF control_reach_ok[OF assms(1)] assms(2-5)] assms(6,7) by blast

text \<open>Every step moves rows only along the lifecycle, and only the rows of the tenant in scope.\<close>

lemma same_commands_rows: "cd_commands db' = cd_commands db \<Longrightarrow> rows_step db db' \<and> tenant_kept other db db'"
  by (auto simp: rows_step_def tenant_kept_def)

lemma insert_command_rows:
  assumes "jget (cd_commands db) new_id = None"
  shows "rows_step db (snd (insert_command b new_id t n db))"
    "other \<noteq> nx_tenant n \<Longrightarrow> tenant_kept other db (snd (insert_command b new_id t n db))"
  using assms by (cases rule: insert_command_cases[of b new_id t n db];
      auto simp: rows_step_def tenant_kept_def new_row_def)+

lemma control_step_rows:
  assumes "control_step tenant s s'" "jwf (cd_commands (ct_db s))"
  shows "rows_step (ct_db s) (ct_db s') \<and> (other \<noteq> tenant \<longrightarrow> tenant_kept other (ct_db s) (ct_db s'))"
  using assms(1)
proof cases
  case (tick t)
  then show ?thesis using same_commands_rows[of "ct_db s" "ct_db s" other] by simp
next
  case (configure p)
  then show ?thesis using same_commands_rows[OF update_settings_commands] by simp
next
  case (judge user q e p db)
  then show ?thesis using same_commands_rows[of db "ct_db s" other] judge_request_commands[of tenant user q e "ct_db s"] by simp
next
  case (judged_no user q e r db)
  then show ?thesis using same_commands_rows[of db "ct_db s" other] judge_request_commands[of tenant user q e "ct_db s"] by simp
next
  case (report i outcome d)
  then show ?thesis using settle_command_rows settle_command_tenant by (simp add: report_result_def)
qed (use assms(2) insert_command_rows statement_rows statement_tenant in auto)

text \<open>One tenant's requests, gateways and settings never touch another tenant's commands.\<close>
theorem control_tenant_isolation:
  assumes "control_reach s" "control_step tenant s s'" "cc_tenant c \<noteq> tenant"
  shows "jget (cd_commands (ct_db s')) i = Some c \<longleftrightarrow> jget (cd_commands (ct_db s)) i = Some c"
  using control_step_rows[OF assms(2) control_okD(1)[OF control_reach_ok[OF assms(1)]], of "cc_tenant c"] assms(3)
  unfolding tenant_kept_def by blast

definition settled_state :: "command_state \<Rightarrow> bool" where
  "settled_state st = (st \<in> {Failed, Expired, Cancelled, Superseded})"

text \<open>C16: A settled command stays settled: once failed, expired, cancelled or superseded it is never collected,
  applied or rewritten, and what was asked for, by whom and until when never changes.\<close>
theorem settled_commands_final:
  assumes "control_reach s" "control_moves\<^sup>*\<^sup>* s s'"
    and "jget (cd_commands (ct_db s)) i = Some c" "settled_state (cc_state c)"
  shows "\<exists>d. jget (cd_commands (ct_db s')) i = Some d \<and> cc_state d = cc_state c \<and> same_order c d"
  using assms(2)
proof (induction rule: rtranclp_induct)
  case base
  then show ?case using assms(3) by (auto simp: same_order_def)
next
  case (step s1 s2)
  obtain d where d: "jget (cd_commands (ct_db s1)) i = Some d" "cc_state d = cc_state c" "same_order c d"
    using step.IH by blast
  have "jwf (cd_commands (ct_db s1))"
    using control_okD(1) control_moves_ok[OF step.hyps(1) control_reach_ok[OF assms(1)]] by blast
  then have "rows_step (ct_db s1) (ct_db s2)"
    using step.hyps(2) control_step_rows unfolding control_moves_def by blast
  then obtain d' where "jget (cd_commands (ct_db s2)) i = Some d'" "row_step d d'"
    using d(1) unfolding rows_step_def by blast
  then show ?case
    using d(2,3) assms(4) by (auto simp: row_step_def may_follow_def settled_state_def same_order_def split: command_state.splits)
qed

subsection \<open>Sample runs\<close>

definition sample_building :: building where
  "sample_building = \<lparr>bd_zones = [(''z1'', \<lparr>zr_tenant = ''t1'', zr_profile = Some ''p1''\<rparr>)],
     bd_profiles = [(''p1'', (''t1'', 21))], bd_service = [(''t1'', ''z1'', ''e1'')],
     bd_equipment = [(''e1'', (''t1'', \<lparr>se_tag = ''AHU-1'', se_status = Operational\<rparr>))],
     bd_points = [\<lparr>pt_id = ''s1'', pt_tenant = ''t1'', pt_zone = Some ''z1'', pt_metric = temperature_c, pt_active = True,
       pt_interval_s = 60\<rparr>],
     bd_samples = [\<lparr>sm_tenant = ''t1'', sm_sensor = ''s1'', sm_time = 1000000, sm_value = Num 21, sm_quality = Good\<rparr>]\<rparr>"

definition sample_identity :: identity where
  "sample_identity = \<lparr>id_members = [((''t1'', ''u1''), Operator)], id_active = [''u1'']\<rparr>"

definition sample_control_db :: control_db where
  "sample_control_db = \<lparr>cd_commands = [], cd_settings = [(''t1'', default_settings\<lparr>cs_enabled := True\<rparr>)]\<rparr>"

definition sample_request :: "int \<Rightarrow> setpoint_request" where
  "sample_request n = \<lparr>sq_zone = ''z1'', sq_setpoint = 22, sq_reason = ''too cold'', sq_duration_s = Some n, sq_dry_run = False\<rparr>"

definition sample_issue_env :: issue_env where
  "sample_issue_env = \<lparr>ie_building = sample_building, ie_identity = sample_identity, ie_db_now = 1000000, ie_now = 1000000,
     ie_insert_now = 1000001, ie_new_id = ''c1''\<rparr>"

definition sample_recheck_env :: recheck_env where
  "sample_recheck_env = \<lparr>re_building = sample_building, re_identity = sample_identity, re_db_now = 1002000, re_now = 1002000\<rparr>"

definition sample_permit :: "int \<Rightarrow> permit" where
  "sample_permit n = \<lparr>pm_previous = 21, pm_duration_s = n, pm_expires_at = 1300000, pm_effective_until = 1000000 + n * 1000\<rparr>"

definition sample_order :: new_command where
  "sample_order = order_of ''t1'' ''u1'' (sample_request 3600) (sample_permit 3600)"

definition sample_row :: command where
  "sample_row = new_row 1000001 sample_order"

definition sample_queued_db :: control_db where
  "sample_queued_db = sample_control_db\<lparr>cd_commands := [(''c1'', sample_row)]\<rparr>"

lemmas sample_rows = sample_building_def sample_identity_def sample_control_db_def sample_request_def sample_issue_env_def
  sample_recheck_env_def default_settings_def

lemmas control_eval = judge_request_def issue_context_def get_settings_def member_role_def load_zone_context_def
  evaluate_command_def zone_baseline_def zone_equipment_def zone_point_def latest_sample_def zone_override_def visible_def
  one_day_ms_def blocking_statuses_def setpoint_epsilon_def rounding_slack_def may_command_def control_roles_def
  is_reading_stale_def reading_age_ms_def stale_after_ms_def stale_intervals_def in_force_def live_command_def
  or_else_def Let_def

lemma sample_judged:
  assumes "n \<in> {60, 3600}"
  shows "judge_request ''t1'' ''u1'' (sample_request n) sample_issue_env sample_control_db = (Inr (sample_permit n), sample_control_db)"
  using assms by (auto simp: sample_rows control_eval sample_permit_def)

lemma sample_inserted:
  "insert_command sample_building ''c1'' 1000001 sample_order sample_control_db = (Inr (Some (''c1'', sample_row)), sample_queued_db)"
  by (simp add: insert_command_def sample_row_def sample_queued_db_def sample_order_def order_of_def new_row_def
      command_check_def zone_busy_def sample_rows sample_permit_def Let_def)

lemmas sample_row_eval = sample_row_def new_row_def sample_order_def order_of_def sample_request_def sample_permit_def

theorem short_override_raises_witness:
  "issue_command ''t1'' ''u1'' (sample_request 60) sample_issue_env sample_control_db =
     (IssueRaised ''check_violation'', sample_control_db)"
  by (rule short_override_raises[OF sample_judged[of 60], of 60]) (simp_all add: sample_rows or_else_def)

lemma sample_handed_out:
  "claim_for_gateway (\<lambda>_. ''withheld'') ''t1'' ''g1'' 5 1002000 1002000 [] (\<lambda>_. sample_recheck_env) sample_queued_db =
     ([(''c1'', claimed_row 1002000 ''g1'' sample_row)], 0,
      sample_queued_db\<lparr>cd_commands := [(''c1'', claimed_row 1002000 ''g1'' sample_row)]\<rparr>)"
  by (simp add: claim_for_gateway_def expire_stale_def claim_commands_def claim_ids_def update_where_def collectable_def
      get_command_def List.map_filter_def recheck_context_def claimed_row_def sample_queued_db_def sample_rows control_eval
      sample_row_eval)

theorem gateway_gets_safe_commands_witness:
  "\<exists>d. jget (cd_commands sample_queued_db) ''c1'' = Some d \<and> cc_tenant d = ''t1'' \<and> cc_state d = Pending \<and>
    1002000 < cc_expires_at d \<and> claimed_row 1002000 ''g1'' sample_row = claimed_row 1002000 ''g1'' d \<and>
    command_safe (cc_setpoint (claimed_row 1002000 ''g1'' sample_row))
      (recheck_context ''t1'' (or_else default_settings (jget (cd_settings sample_queued_db) ''t1''))
        (claimed_row 1002000 ''g1'' sample_row) sample_recheck_env sample_queued_db)"
  by (rule gateway_gets_safe_commands[of sample_queued_db _ _ "\<lambda>_. ''withheld''" _ _ 5 1002000 _ "[]" "\<lambda>_. sample_recheck_env"])
    (simp add: sample_queued_db_def, simp add: sample_handed_out)

theorem kill_switch_stops_dispatch_witness:
  "\<exists>db'. claim_for_gateway (\<lambda>_. ''withheld'') ''t2'' ''g1'' 5 1002000 1002000 [] (\<lambda>_. sample_recheck_env) sample_queued_db
      = ([], 0, db') \<and> cd_commands db' = cd_commands (snd (expire_stale ''t2'' 1002000 sample_queued_db))"
  by (rule kill_switch_stops_dispatch) (simp add: sample_queued_db_def sample_rows or_else_def)

definition sample_dispatched_db :: control_db where
  "sample_dispatched_db = sample_queued_db\<lparr>cd_commands := [(''c1'', claimed_row 1002000 ''g1'' sample_row)]\<rparr>"

theorem dispatched_never_lapses_witness:
  "jget (cd_commands (snd (expire_stale ''t1'' 99999999 sample_dispatched_db))) ''c1'' = Some (claimed_row 1002000 ''g1'' sample_row) \<and>
    ''c1'' \<notin> set (claim_ids ''t1'' 5 99999999 [] sample_dispatched_db) \<and>
    fst (queue_order sample_order sample_issue_env sample_dispatched_db)
      \<in> {NotIssued (ByEnvelope command_in_flight), IssueRaised ''check_violation''}"
  using dispatched_never_lapses[of sample_dispatched_db "''c1''" "claimed_row 1002000 ''g1'' sample_row" sample_order "''t1''" 99999999 5 99999999 "[]"]
  by (simp add: sample_dispatched_db_def sample_queued_db_def claimed_row_def sample_row_eval)

definition sample_start :: control_state where
  "sample_start = \<lparr>ct_now = 1000001, ct_db = sample_control_db, ct_judged = []\<rparr>"

definition sample_judged_state :: control_state where
  "sample_judged_state = sample_start\<lparr>ct_judged := [sample_order]\<rparr>"

definition sample_queued :: control_state where
  "sample_queued = sample_judged_state\<lparr>ct_db := sample_queued_db\<rparr>"

definition sample_applied :: control_state where
  "sample_applied = (let s = sample_queued\<lparr>ct_db := snd (claim_commands ''t1'' ''g1'' 5 1000001 [] sample_queued_db)\<rparr>
     in s\<lparr>ct_db := snd (report_result ''t1'' ''c1'' OutcomeApplied None 1000001 (ct_db s))\<rparr>)"

definition sample_cancelled :: control_state where
  "sample_cancelled = sample_queued\<lparr>ct_db := snd (cancel_command ''t1'' ''c1'' 1000001 sample_queued_db)\<rparr>"

lemma control_reach_step: "control_reach s \<Longrightarrow> control_step tenant s s' \<Longrightarrow> control_reach s'"
  unfolding control_reach_def using rtranclp.rtrancl_into_rtrancl[of control_moves _ s s'] control_moves_def by blast

lemma sample_queued_reach: "control_reach sample_queued"
proof -
  have "control_reach sample_start"
    unfolding control_reach_def by (rule exI[of _ sample_start]) (simp add: sample_start_def sample_control_db_def)
  moreover have "control_step ''t1'' sample_start sample_judged_state"
    using control_step.judge[of "''t1''" "''u1''" "sample_request 3600" sample_issue_env sample_start "sample_permit 3600" sample_control_db]
      sample_judged[of 3600]
    by (simp add: sample_judged_state_def sample_start_def sample_order_def)
  moreover have "control_step ''t1'' sample_judged_state sample_queued"
    using control_step.queue[of sample_order sample_judged_state "''t1''" "''c1''" sample_building] sample_inserted
    by (simp add: sample_queued_def sample_judged_state_def sample_start_def sample_order_def order_of_def sample_control_db_def)
  ultimately show ?thesis by (blast intro: control_reach_step)
qed

lemma sample_applied_reach: "control_reach sample_applied"
proof -
  have "control_reach (sample_queued\<lparr>ct_db := snd (claim_commands ''t1'' ''g1'' 5 1000001 [] sample_queued_db)\<rparr>)"
    using control_reach_step[OF sample_queued_reach control_step.collect[of "''t1''" _ "''g1''" 5 "[]"]]
    by (simp add: sample_queued_def sample_judged_state_def sample_start_def)
  from control_reach_step[OF this control_step.report[of "''t1''" _ "''c1''" OutcomeApplied None]]
  show ?thesis by (simp add: sample_applied_def Let_def sample_queued_def sample_judged_state_def sample_start_def)
qed

lemmas sample_state_eval = sample_queued_def sample_judged_state_def sample_start_def sample_queued_db_def sample_control_db_def

lemma sample_applied_row:
  "jget (cd_commands (ct_db sample_applied)) ''c1'' = Some (settle_row OutcomeApplied None 1000001 (claimed_row 1000001 ''g1'' sample_row))"
  by (simp add: sample_applied_def report_result_def settle_command_def claim_commands_def claim_ids_def update_where_def
      collectable_def get_command_def List.map_filter_def visible_def supersede_def claimed_row_def settle_row_def
      sample_state_eval sample_row_eval Let_def)

theorem one_live_command_per_zone_witness:
  "jget (cd_commands (ct_db sample_queued)) ''c1'' = Some sample_row \<and> live_command sample_row \<and> ''c1'' = ''c1''"
  using one_live_command_per_zone[OF sample_queued_reach, of "''c1''" sample_row "''c1''" sample_row]
  by (simp add: sample_state_eval live_command_def sample_row_eval)

theorem one_override_in_force_witness:
  "map_option cc_state (jget (cd_commands (ct_db sample_applied)) ''c1'') = Some Applied \<and> ''c1'' = ''c1''"
proof -
  have "in_force (ct_now sample_applied) (settle_row OutcomeApplied None 1000001 (claimed_row 1000001 ''g1'' sample_row))"
    by (simp add: in_force_def settle_row_def claimed_row_def sample_row_eval sample_applied_def Let_def sample_state_eval)
  from one_override_in_force[OF sample_applied_reach sample_applied_row sample_applied_row refl refl this this]
  show ?thesis by (simp add: sample_applied_row settle_row_def)
qed

theorem control_tenant_isolation_witness:
  "jget (cd_commands (snd (cancel_command ''t2'' ''c1'' 1000001 sample_queued_db))) ''c1'' = Some sample_row"
  using control_tenant_isolation[OF sample_queued_reach control_step.cancel[of "''t2''" sample_queued "''c1''"], of sample_row "''c1''"]
  by (simp add: sample_state_eval sample_row_eval)

theorem settled_commands_final_witness:
  "\<exists>d. jget (cd_commands (snd (expire_stale ''t1'' 1000001 (ct_db sample_cancelled)))) ''c1'' = Some d \<and> cc_state d = Cancelled \<and>
    same_order (sample_row\<lparr>cc_state := Cancelled, cc_settled_at := Some 1000001,
      cc_detail := Some ''cancelled before it was applied''\<rparr>) d"
proof -
  have r: "control_reach sample_cancelled"
    using control_reach_step[OF sample_queued_reach control_step.cancel[of "''t1''" sample_queued "''c1''"]]
    by (simp add: sample_cancelled_def sample_queued_def sample_judged_state_def sample_start_def)
  have m: "control_moves\<^sup>*\<^sup>* sample_cancelled (sample_cancelled\<lparr>ct_db := snd (expire_stale ''t1'' (ct_now sample_cancelled) (ct_db sample_cancelled))\<rparr>)"
    by (rule r_into_rtranclp) (auto simp: control_moves_def intro: control_step.expire)
  have row: "jget (cd_commands (ct_db sample_cancelled)) ''c1'' = Some (sample_row\<lparr>cc_state := Cancelled,
      cc_settled_at := Some 1000001, cc_detail := Some ''cancelled before it was applied''\<rparr>)"
    by (simp add: sample_cancelled_def cancel_command_def update_where_def live_command_def sample_state_eval sample_row_eval Let_def)
  show ?thesis
    using settled_commands_final[OF r m row] by (simp add: settled_state_def sample_cancelled_def sample_state_eval)
qed

end
