(* ===== verification/Registry.thy ===== *)
theory Registry
  imports Contracts "HOL-Library.List_Lexorder" "HOL-Library.Char_ord" "HOL-Library.Multiset"
begin

section \<open>The device registry (apps/ingest/src/registry.ts) and the quality gate (quality.ts)\<close>

text \<open>
  \<open>SensorRegistry\<close>: three in-memory maps built from the database, tenant by tenant and page by
  page, swapped in at once; the memory of unknown ids; topic ownership. One page of the query is
  \<open>registry_page\<close>; the order in which the outer query delivers a page's rows is an argument
  (\<open>outer\<close>), since the query promises none. The paging loop is a partial function, so that
  returning is a theorem. Ids compare as JavaScript strings do, by code units.
\<close>

record sensor =
  sn_id :: string
  sn_external_id :: string
  sn_name :: string
  sn_metric :: metric_type
  sn_unit :: string
  sn_min_plausible :: "rat option"
  sn_max_plausible :: "rat option"
  sn_is_cumulative :: bool
  sn_sample_interval_s :: int
  sn_equipment :: "string option"
  sn_zone :: "string option"
  sn_floor :: "string option"
  sn_building :: "string option"
  sn_tenant :: string

text \<open>A nullable id is tested by truth: null and the empty string are false.\<close>

definition truthy :: "string option \<Rightarrow> bool" where
  "truthy v = (case v of Some s \<Rightarrow> s \<noteq> [] | None \<Rightarrow> False)"

subsection \<open>Quality (\<open>quality.ts\<close>)\<close>

definition assess_quality :: "sensor \<Rightarrow> jsnum \<Rightarrow> quality option \<Rightarrow> quality" where
  "assess_quality s v declared =
     (if declared \<noteq> None \<and> declared \<noteq> Some Good then the declared
      else if \<not> js_finite v then DeviceFault
      else if (case sn_min_plausible s of Some m \<Rightarrow> js_lt v (Num m) | None \<Rightarrow> False) then OutOfRange
      else if (case sn_max_plausible s of Some m \<Rightarrow> js_gt v (Num m) | None \<Rightarrow> False) then OutOfRange
      else Good)"

definition is_counter_reset :: "sensor \<Rightarrow> jsnum \<Rightarrow> jsnum option \<Rightarrow> bool" where
  "is_counter_reset s v previous =
     (sn_is_cumulative s \<and> (case previous of Some p \<Rightarrow> js_lt v p | None \<Rightarrow> False))"

subsection \<open>State\<close>

record registry_options =
  ro_page_rows :: nat
  ro_max_sensors :: nat
  ro_unknown_max :: nat
  ro_unknown_retry_ms :: ms

definition default_registry_options :: registry_options where
  "default_registry_options = \<lparr>ro_page_rows = 5000, ro_max_sensors = 500000,
     ro_unknown_max = 10000, ro_unknown_retry_ms = 30000\<rparr>"

record reg_maps =
  rm_by_external :: "(string, sensor) jsmap"
  rm_by_id :: "(string, sensor) jsmap"
  rm_owner :: "(string, string) jsmap"

definition empty_maps :: reg_maps where
  "empty_maps = \<lparr>rm_by_external = [], rm_by_id = [], rm_owner = []\<rparr>"

record registry =
  rg_maps :: reg_maps
  rg_unknown :: "(string, ms) jsmap"
  rg_refreshing :: bool
  rg_options :: registry_options

definition mk_registry :: "registry_options \<Rightarrow> registry" where
  "mk_registry opts = \<lparr>rg_maps = empty_maps, rg_unknown = [], rg_refreshing = False, rg_options = opts\<rparr>"

definition registry_key :: "string \<Rightarrow> string \<Rightarrow> string" where
  "registry_key tenant external = tenant @ '':'' @ external"

subsection \<open>Loading\<close>

definition nil_uuid :: string where
  "nil_uuid = ''00000000-0000-0000-0000-000000000000''"

text \<open>\<open>REGISTRY_SQL\<close>: the rows of one tenant after the cursor, in id order, at most a page.\<close>

definition registry_page ::
  "(sensor list \<Rightarrow> sensor list) \<Rightarrow> sensor list \<Rightarrow> string \<Rightarrow> nat \<Rightarrow> sensor list" where
  "registry_page outer table cursor n =
     outer (take n (filter (\<lambda>s. sn_id s > cursor) (sort_key sn_id table)))"

definition own_if :: "string option \<Rightarrow> string \<Rightarrow> (string, string) jsmap \<Rightarrow> (string, string) jsmap" where
  "own_if v tenant m = (if truthy v then jset (the v) tenant m else m)"

definition add_row :: "sensor \<Rightarrow> reg_maps \<Rightarrow> reg_maps" where
  "add_row r m =
     \<lparr>rm_by_external = jset (registry_key (sn_tenant r) (sn_external_id r)) r (rm_by_external m),
      rm_by_id = jset (sn_id r) r (rm_by_id m),
      rm_owner = own_if (sn_building r) (sn_tenant r) (own_if (sn_floor r) (sn_tenant r)
        (own_if (sn_zone r) (sn_tenant r) (jset (sn_id r) (sn_tenant r) (rm_owner m))))\<rparr>"

fun add_rows :: "sensor list \<Rightarrow> string \<Rightarrow> reg_maps \<Rightarrow> string \<times> reg_maps" where
  "add_rows [] cursor m = (cursor, m)"
| "add_rows (r # rs) cursor m =
     add_rows rs (if sn_id r > cursor then sn_id r else cursor) (add_row r m)"

datatype registry_error = RegistryTooLarge nat

partial_function (option) load_pages ::
  "(sensor list \<Rightarrow> sensor list) \<Rightarrow> sensor list \<Rightarrow> nat \<Rightarrow> nat \<Rightarrow> string \<Rightarrow> reg_maps
     \<Rightarrow> (registry_error + reg_maps) option" where
  "load_pages outer table page_rows max_sensors cursor m =
     (let rows = registry_page outer table cursor page_rows; (cursor', m') = add_rows rows cursor m in
      if length (rm_by_id m') > max_sensors then Some (Inl (RegistryTooLarge max_sensors))
      else if length rows < page_rows then Some (Inr m')
      else load_pages outer table page_rows max_sensors cursor' m')"

text \<open>One tenant of the database as the load sees it: its id, its active sensors, and the ids of
  its buildings, floors and zones.\<close>

record tenant_rows =
  tr_tenant :: string
  tr_sensors :: "sensor list"
  tr_spatial :: "string list"

definition own_spatial :: "tenant_rows \<Rightarrow> reg_maps \<Rightarrow> reg_maps" where
  "own_spatial t m = m\<lparr>rm_owner := fold (\<lambda>i. jset i (tr_tenant t)) (tr_spatial t) (rm_owner m)\<rparr>"

fun load_tenants ::
  "(sensor list \<Rightarrow> sensor list) \<Rightarrow> registry_options \<Rightarrow> tenant_rows list \<Rightarrow> reg_maps
     \<Rightarrow> (registry_error + reg_maps) option" where
  "load_tenants outer opts [] m = Some (Inr m)"
| "load_tenants outer opts (t # ts) m =
     (case load_pages outer (tr_sensors t) (ro_page_rows opts) (ro_max_sensors opts) nil_uuid m of
        None \<Rightarrow> None
      | Some (Inl e) \<Rightarrow> Some (Inl e)
      | Some (Inr m') \<Rightarrow> load_tenants outer opts ts (own_spatial t m'))"

text \<open>\<open>refresh\<close> awaits: it starts a load unless one is running, and when the load ends swaps the maps
  in, or leaves the ones in service when it failed.\<close>

definition refresh_start :: "registry \<Rightarrow> bool \<times> registry" where
  "refresh_start g = (\<not> rg_refreshing g, g\<lparr>rg_refreshing := True\<rparr>)"

definition refresh_finish :: "registry_error + reg_maps \<Rightarrow> registry \<Rightarrow> registry" where
  "refresh_finish result g =
     (case result of
        Inl _ \<Rightarrow> g\<lparr>rg_refreshing := False\<rparr>
      | Inr m \<Rightarrow> g\<lparr>rg_maps := m, rg_unknown := [], rg_refreshing := False\<rparr>)"

subsection \<open>Reading\<close>

definition owner_of :: "registry \<Rightarrow> topic \<Rightarrow> string option" where
  "owner_of g t = jget (rm_owner (rg_maps g)) (topic_id t)"

definition may_subscribe :: "registry \<Rightarrow> string \<Rightarrow> topic \<Rightarrow> bool" where
  "may_subscribe g tenant t =
     (if topic_scope t = ''alerts'' then topic_id t = tenant else owner_of g t = Some tenant)"

definition registry_size :: "registry \<Rightarrow> nat" where
  "registry_size g = length (rm_by_id (rg_maps g))"

definition registry_all :: "registry \<Rightarrow> sensor list" where
  "registry_all g = map snd (rm_by_id (rg_maps g))"

definition registry_by_id :: "registry \<Rightarrow> string \<Rightarrow> sensor option" where
  "registry_by_id g i = jget (rm_by_id (rg_maps g)) i"

definition registry_lookup :: "registry \<Rightarrow> string \<Rightarrow> string \<Rightarrow> sensor option" where
  "registry_lookup g tenant external = jget (rm_by_external (rg_maps g)) (registry_key tenant external)"

definition registry_for_tenant :: "registry \<Rightarrow> string \<Rightarrow> sensor list" where
  "registry_for_tenant g tenant = filter (\<lambda>s. sn_tenant s = tenant) (registry_all g)"

definition should_retry_unknown :: "string \<Rightarrow> string \<Rightarrow> ms \<Rightarrow> registry \<Rightarrow> bool \<times> registry" where
  "should_retry_unknown tenant external now g =
     (let key = registry_key tenant external; last_try = jget (rg_unknown g) key in
      if (case last_try of Some t \<Rightarrow> now - t < ro_unknown_retry_ms (rg_options g) | None \<Rightarrow> False)
      then (False, g)
      else if last_try = None \<and> length (rg_unknown g) \<ge> ro_unknown_max (rg_options g) then (False, g)
      else (True, g\<lparr>rg_unknown := jset key now (rg_unknown g)\<rparr>))"

subsection \<open>Lemmas on loading\<close>

lemma add_row_fields [simp]:
  "rm_by_external (add_row r m) =
     jset (registry_key (sn_tenant r) (sn_external_id r)) r (rm_by_external m)"
  "rm_by_id (add_row r m) = jset (sn_id r) r (rm_by_id m)"
  by (simp_all add: add_row_def)

lemma add_rows_cursor:
  "fst (add_rows rs c m) = fold (\<lambda>r c. max c (sn_id r)) rs c"
  by (induction rs c m rule: add_rows.induct) (auto simp: max_def)

lemma fold_max_ge: "c \<le> fold (\<lambda>r c. max c (sn_id r)) rs (c :: string)"
  by (induction rs arbitrary: c) (auto intro: order_trans[OF max.cobounded1])

lemma fold_max_upper: "r \<in> set rs \<Longrightarrow> sn_id r \<le> fold (\<lambda>r c. max c (sn_id r)) rs (c :: string)"
  by (induction rs arbitrary: c) (auto intro: order_trans[OF _ fold_max_ge])

lemma fold_max_mem:
  "fold (\<lambda>r c. max c (sn_id r)) rs c = c \<or> fold (\<lambda>r c. max c (sn_id r)) rs (c :: string) \<in> sn_id ` set rs"
  by (induction rs arbitrary: c) (force simp: max_def)+

lemma jset_length_mono: "length m \<le> length (jset k v m)"
  by (simp add: length_jset)

lemma add_rows_size: "length (rm_by_id m) \<le> length (rm_by_id (snd (add_rows rs c m)))"
  by (induction rs c m rule: add_rows.induct) (auto intro: order_trans[OF jset_length_mono])

lemma add_rows_fold: "snd (add_rows rs c m) = fold add_row rs m"
  by (induction rs c m rule: add_rows.induct) auto

lemma fold_add_row_maps:
  "rm_by_id (fold add_row rs m) = fold (\<lambda>r. jset (sn_id r) r) rs (rm_by_id m)"
  "rm_by_external (fold add_row rs m) =
     fold (\<lambda>r. jset (registry_key (sn_tenant r) (sn_external_id r)) r) rs (rm_by_external m)"
  by (induction rs arbitrary: m) simp_all

text \<open>The rows still to come after a cursor, in the order the page query takes them.\<close>

definition rows_after :: "sensor list \<Rightarrow> string \<Rightarrow> sensor list" where
  "rows_after table c = filter (\<lambda>s. sn_id s > c) (sort_key sn_id table)"

lemma registry_page_eq: "registry_page outer table c n = outer (take n (rows_after table c))"
  by (simp add: registry_page_def rows_after_def)

lemma rows_after_sorted:
  assumes "distinct (map sn_id table)"
  shows "sorted (map sn_id (rows_after table c))" "distinct (map sn_id (rows_after table c))"
proof -
  show "sorted (map sn_id (rows_after table c))"
    unfolding rows_after_def by (rule sorted_filter) simp
  have "distinct (map sn_id (sort_key sn_id table))"
    using assms by (metis distinct_sort distinct_map set_sort)
  then show "distinct (map sn_id (rows_after table c))"
    by (simp add: rows_after_def distinct_map_filter)
qed

lemma rows_after_later:
  "c \<le> c' \<Longrightarrow> rows_after table c' = filter (\<lambda>s. sn_id s > c') (rows_after table c)"
  by (auto simp: rows_after_def intro!: filter_cong dest: le_less_trans)

text \<open>The cursor after a page is the page's highest id, so what is left is what the page left.\<close>

lemma rows_after_page:
  assumes d: "distinct (map sn_id table)" and ys: "mset ys = mset (take n (rows_after table c))"
  shows "rows_after table (fst (add_rows ys c m)) = drop n (rows_after table c)"
proof -
  let ?R = "rows_after table c"
  let ?c' = "fst (add_rows ys c m)"
  have cc: "c \<le> ?c'" by (simp add: add_rows_cursor fold_max_ge)
  have set_ys: "set ys = set (take n ?R)" using ys by (metis set_mset_mset)
  have low: "sn_id r \<le> ?c'" if "r \<in> set (take n ?R)" for r
    using that set_ys by (simp add: add_rows_cursor fold_max_upper)
  have split: "sorted (map sn_id (take n ?R @ drop n ?R))"
    "distinct (map sn_id (take n ?R @ drop n ?R))"
    using rows_after_sorted[OF d] by simp_all
  have high: "?c' < sn_id r" if r: "r \<in> set (drop n ?R)" for r
  proof (cases "?c' = c")
    case True
    then show ?thesis using r in_set_dropD[OF r] by (auto simp: rows_after_def)
  next
    case False
    then obtain y where y: "y \<in> set (take n ?R)" "?c' = sn_id y"
      using fold_max_mem[of ys c] set_ys by (auto simp: add_rows_cursor)
    have "sn_id y \<le> sn_id r" using split(1) y r by (auto simp: sorted_append simp del: append_take_drop_id)
    moreover have "sn_id y \<noteq> sn_id r"
      using split(2) y r unfolding map_append distinct_append by (metis IntI emptyE image_eqI set_map)
    ultimately show ?thesis using y by simp
  qed
  have "filter (\<lambda>s. ?c' < sn_id s) ?R =
      filter (\<lambda>s. ?c' < sn_id s) (take n ?R) @ filter (\<lambda>s. ?c' < sn_id s) (drop n ?R)"
    by (metis append_take_drop_id filter_append)
  also have "filter (\<lambda>s. ?c' < sn_id s) (take n ?R) = []"
    using low by (auto simp: filter_empty_conv not_less)
  also have "filter (\<lambda>s. ?c' < sn_id s) (drop n ?R) = drop n ?R"
    using high by (simp add: filter_id_conv)
  finally show ?thesis using rows_after_later[OF cc] by simp
qed

text \<open>The loop returns; a success has added every remaining row once, in some order.\<close>

lemma load_pages_spec:
  assumes n: "0 < n" and d: "distinct (map sn_id table)" and o: "\<forall>xs. mset (outer xs) = mset xs"
  shows "\<exists>res ys. load_pages outer table n mx c m = Some res \<and>
    (case res of
       Inl e \<Rightarrow> e = RegistryTooLarge mx \<and> mset ys \<subseteq># mset (rows_after table c) \<and>
                mx < length (rm_by_id (fold add_row ys m))
     | Inr m' \<Rightarrow> mset ys = mset (rows_after table c) \<and> m' = fold add_row ys m \<and>
                 length (rm_by_id m') \<le> mx)"
proof (induction "length (rows_after table c)" arbitrary: c m rule: less_induct)
  case less
  let ?R = "rows_after table c"
  let ?p = "registry_page outer table c n"
  let ?c' = "fst (add_rows ?p c m)" and ?m' = "fold add_row ?p m"
  have p: "mset ?p = mset (take n ?R)" using o by (simp add: registry_page_eq)
  have lp: "length ?p = min (length ?R) n" using p by (metis size_mset length_take)
  have parts: "mset ?R = mset (take n ?R) + mset (drop n ?R)" by (metis append_take_drop_id mset_append)
  have unf: "load_pages outer table n mx c m =
      (if length (rm_by_id ?m') > mx then Some (Inl (RegistryTooLarge mx))
       else if length ?p < n then Some (Inr ?m') else load_pages outer table n mx ?c' ?m')"
    by (subst load_pages.simps) (simp add: case_prod_unfold Let_def add_rows_fold)
  consider "length (rm_by_id ?m') > mx"
    | "length (rm_by_id ?m') \<le> mx" "length ?p < n" | "length (rm_by_id ?m') \<le> mx" "\<not> length ?p < n"
    by linarith
  then show ?case
  proof cases
    case 1
    have "load_pages outer table n mx c m = Some (Inl (RegistryTooLarge mx))"
      using 1 unf by simp
    moreover have "mset ?p \<subseteq># mset ?R" using p parts by simp
    ultimately show ?thesis using 1 by (intro exI[of _ "Inl (RegistryTooLarge mx)"] exI[of _ ?p]) simp
  next
    case 2
    have "load_pages outer table n mx c m = Some (Inr ?m')"
      using 2 unf by simp
    moreover have "mset ?p = mset ?R" using 2 lp p by simp
    ultimately show ?thesis using 2 by (intro exI[of _ "Inr ?m'"] exI[of _ ?p]) simp
  next
    case 3
    have step: "load_pages outer table n mx c m = load_pages outer table n mx ?c' ?m'"
      using 3 unf by simp
    have rest: "rows_after table ?c' = drop n ?R" using rows_after_page[OF d p] by simp
    have "length (rows_after table ?c') < length ?R" using 3 lp n rest by auto
    from less[OF this, of ?m'] obtain res ys where
      r: "load_pages outer table n mx ?c' ?m' = Some res" and
      q: "case res of
       Inl e \<Rightarrow> e = RegistryTooLarge mx \<and> mset ys \<subseteq># mset (rows_after table ?c') \<and>
                mx < length (rm_by_id (fold add_row ys ?m'))
     | Inr m' \<Rightarrow> mset ys = mset (rows_after table ?c') \<and> m' = fold add_row ys ?m' \<and>
                 length (rm_by_id m') \<le> mx" by blast
    show ?thesis
      using q p parts unfolding step r rest
      by (intro exI[of _ res] exI[of _ "?p @ ys"]) (auto split: sum.splits intro: subset_mset.add_mono)
  qed
qed

subsection \<open>What a load puts in service\<close>

text \<open>The rows the database holds, with its keys: ids are primary keys above the nil id, an external
  id is unique within its tenant, a tenant reads only its own rows, a tenant id is a UUID.\<close>

definition all_rows :: "tenant_rows list \<Rightarrow> sensor list" where
  "all_rows ts = concat (map tr_sensors ts)"

definition database_ok :: "tenant_rows list \<Rightarrow> bool" where
  "database_ok ts =
     (distinct (map sn_id (all_rows ts)) \<and>
      distinct (map (\<lambda>s. (sn_tenant s, sn_external_id s)) (all_rows ts)) \<and>
      (\<forall>t \<in> set ts. CHR '':'' \<notin> set (tr_tenant t) \<and>
         (\<forall>s \<in> set (tr_sensors t). sn_tenant s = tr_tenant t \<and> nil_uuid < sn_id s)))"

lemma registry_key_inj:
  "registry_key t e = registry_key t' e' \<Longrightarrow> CHR '':'' \<notin> set t \<Longrightarrow> CHR '':'' \<notin> set t' \<Longrightarrow> t = t' \<and> e = e'"
proof (induction t arbitrary: t')
  case Nil
  then show ?case by (cases t') (auto simp: registry_key_def)
next
  case (Cons c t)
  then show ?case by (cases t') (auto simp: registry_key_def)
qed

lemma rows_after_all:
  "\<forall>s \<in> set table. c < sn_id s \<Longrightarrow> mset (rows_after table c) = mset table"
  by (simp add: rows_after_def filter_id_conv[THEN iffD2])

lemma own_spatial_maps [simp]:
  "rm_by_id (own_spatial t m) = rm_by_id m" "rm_by_external (own_spatial t m) = rm_by_external m"
  by (simp_all add: own_spatial_def)

lemma load_tenants_spec:
  assumes "0 < ro_page_rows opts" "\<forall>xs. mset (outer xs) = mset xs" "database_ok ts"
    and "length (rm_by_id m) + length (all_rows ts) \<le> ro_max_sensors opts"
  shows "\<exists>m' ys. load_tenants outer opts ts m = Some (Inr m') \<and> mset ys = mset (all_rows ts) \<and>
    rm_by_id m' = rm_by_id (fold add_row ys m) \<and>
    rm_by_external m' = rm_by_external (fold add_row ys m)"
  using assms(3,4)
proof (induction ts arbitrary: m)
  case Nil
  show ?case by (intro exI[of _ m] exI[of _ "[]"]) (simp add: all_rows_def)
next
  case (Cons t ts)
  have d: "distinct (map sn_id (tr_sensors t))" and rest: "database_ok ts"
    and nil: "\<forall>s \<in> set (tr_sensors t). nil_uuid < sn_id s"
    using Cons.prems(1) by (auto simp: database_ok_def all_rows_def)
  obtain res zs where r: "load_pages outer (tr_sensors t) (ro_page_rows opts) (ro_max_sensors opts)
      nil_uuid m = Some res" and
    q: "case res of
       Inl e \<Rightarrow> e = RegistryTooLarge (ro_max_sensors opts) \<and> mset zs \<subseteq># mset (rows_after (tr_sensors t) nil_uuid) \<and>
                ro_max_sensors opts < length (rm_by_id (fold add_row zs m))
     | Inr m' \<Rightarrow> mset zs = mset (rows_after (tr_sensors t) nil_uuid) \<and> m' = fold add_row zs m \<and>
                 length (rm_by_id m') \<le> ro_max_sensors opts"
    using load_pages_spec[OF assms(1) d assms(2)] by blast
  have zle: "length zs \<le> length (tr_sensors t)"
    using q rows_after_all[OF nil] by (cases res) (auto dest: size_mset_mono mset_eq_length)
  have grow: "length (rm_by_id (fold add_row zs m)) \<le> length (rm_by_id m) + length zs"
    by (simp add: fold_add_row_maps length_fold_jset_le)
  have tot: "length (all_rows (t # ts)) = length (tr_sensors t) + length (all_rows ts)"
    by (simp add: all_rows_def)
  have res: "res = Inr (fold add_row zs m)" and zs: "mset zs = mset (tr_sensors t)"
    using q zle grow Cons.prems(2) tot rows_after_all[OF nil] by (cases res; simp)+
  let ?m1 = "own_spatial t (fold add_row zs m)"
  have "length (rm_by_id ?m1) + length (all_rows ts) \<le> ro_max_sensors opts"
    using grow zle tot Cons.prems(2) by simp
  from Cons.IH[OF rest this] obtain m' ys where
    ih: "load_tenants outer opts ts ?m1 = Some (Inr m')" "mset ys = mset (all_rows ts)"
    "rm_by_id m' = rm_by_id (fold add_row ys ?m1)"
    "rm_by_external m' = rm_by_external (fold add_row ys ?m1)" by blast
  show ?case
    using ih r res zs
    by (intro exI[of _ m'] exI[of _ "zs @ ys"]) (simp add: fold_add_row_maps all_rows_def)
qed

text \<open>C5: A refresh loads every active sensor of every tenant, whatever the page size and the order
  of rows within a page, and after the swap a lookup by tenant and external id answers a sensor
  exactly when that tenant has an active sensor with that external id: two tenants that use the
  same external id never see each other's point.\<close>
theorem registry_lookup_exact:
  assumes "0 < ro_page_rows opts" "\<forall>xs. mset (outer xs) = mset xs" "database_ok ts"
    and "length (all_rows ts) \<le> ro_max_sensors opts" "CHR '':'' \<notin> set tenant"
  shows "\<exists>m. load_tenants outer opts ts empty_maps = Some (Inr m) \<and>
    registry_size (refresh_finish (Inr m) g) = length (all_rows ts) \<and>
    (registry_lookup (refresh_finish (Inr m) g) tenant ext = Some s \<longleftrightarrow>
       s \<in> set (all_rows ts) \<and> sn_tenant s = tenant \<and> sn_external_id s = ext)"
proof -
  let ?key = "\<lambda>s. registry_key (sn_tenant s) (sn_external_id s)"
  obtain m ys where m: "load_tenants outer opts ts empty_maps = Some (Inr m)"
    and ys: "mset ys = mset (all_rows ts)"
    and maps: "rm_by_id m = rm_by_id (fold add_row ys empty_maps)"
      "rm_by_external m = rm_by_external (fold add_row ys empty_maps)"
    using load_tenants_spec[of opts outer ts empty_maps] assms(1-4) by (auto simp: empty_maps_def)
  have set_ys: "set ys = set (all_rows ts)" using ys by (metis set_mset_mset)
  have nocolon: "CHR '':'' \<notin> set (sn_tenant x)" if "x \<in> set ys" for x
    using that set_ys assms(3) by (auto simp: database_ok_def all_rows_def)
  have inj2: "inj_on (\<lambda>s. (sn_tenant s, sn_external_id s)) (set ys)"
    using assms(3) set_ys by (simp add: database_ok_def distinct_map)
  have inj: "inj_on ?key (set ys)"
    using inj2 registry_key_inj nocolon unfolding inj_on_def by blast
  have jwf: "jwf (rm_by_id m)" by (simp add: maps fold_add_row_maps jwf_fold_jset empty_maps_def)
  have keys: "fst ` set (rm_by_id m) = sn_id ` set ys"
    by (simp add: maps fold_add_row_maps keys_fold_jset empty_maps_def)
  have "distinct (map sn_id (all_rows ts))" using assms(3) by (simp add: database_ok_def)
  from distinct_card[OF this] have "card (sn_id ` set ys) = length (all_rows ts)" by (simp add: set_ys)
  then have size: "length (rm_by_id m) = length (all_rows ts)"
    using distinct_card[OF jwf] keys by simp
  have look: "jget (rm_by_external m) (registry_key tenant ext) = Some s \<longleftrightarrow>
      s \<in> set ys \<and> sn_tenant s = tenant \<and> sn_external_id s = ext" for s
  proof
    assume a: "jget (rm_by_external m) (registry_key tenant ext) = Some s"
    then have "registry_key tenant ext \<in> ?key ` set ys"
      using jget_Some_key[OF a] by (simp add: maps fold_add_row_maps keys_fold_jset empty_maps_def)
    then obtain x where x: "x \<in> set ys" "registry_key tenant ext = ?key x" by blast
    have "s = x" using a x jget_fold_jset[OF inj x(1), of "\<lambda>r. r"] by (simp add: maps fold_add_row_maps)
    then show "s \<in> set ys \<and> sn_tenant s = tenant \<and> sn_external_id s = ext"
      using x registry_key_inj[OF x(2) assms(5) nocolon] by simp
  next
    assume "s \<in> set ys \<and> sn_tenant s = tenant \<and> sn_external_id s = ext"
    then show "jget (rm_by_external m) (registry_key tenant ext) = Some s"
      using jget_fold_jset[OF inj, of s "\<lambda>r. r"] by (auto simp: maps fold_add_row_maps)
  qed
  show ?thesis
    using m size look set_ys
    by (simp add: refresh_finish_def registry_size_def registry_lookup_def)
qed

text \<open>Two tenants with the same external id, read in pages of one row.\<close>

definition sample_sensor :: "string \<Rightarrow> string \<Rightarrow> string \<Rightarrow> sensor" where
  "sample_sensor i t e = \<lparr>sn_id = i, sn_external_id = e, sn_name = ''point'', sn_metric = power_kw,
     sn_unit = ''kW'', sn_min_plausible = Some 0, sn_max_plausible = Some 500, sn_is_cumulative = False,
     sn_sample_interval_s = 60, sn_equipment = Some ''eq'', sn_zone = Some (t @ ''-zone''), sn_floor = None,
     sn_building = Some (t @ ''-building''), sn_tenant = t\<rparr>"

definition sample_database :: "tenant_rows list" where
  "sample_database =
     [\<lparr>tr_tenant = ''t1'', tr_sensors = [sample_sensor ''b2'' ''t1'' ''KW'', sample_sensor ''a1'' ''t1'' ''HZ''],
       tr_spatial = [''t1-building'']\<rparr>,
      \<lparr>tr_tenant = ''t2'', tr_sensors = [sample_sensor ''c3'' ''t2'' ''KW''], tr_spatial = []\<rparr>]"

theorem registry_lookup_exact_witness:
  "\<exists>m. load_tenants rev (default_registry_options\<lparr>ro_page_rows := 1\<rparr>) sample_database empty_maps = Some (Inr m) \<and>
    registry_size (refresh_finish (Inr m) (mk_registry default_registry_options)) = 3 \<and>
    registry_lookup (refresh_finish (Inr m) (mk_registry default_registry_options)) ''t2'' ''KW''
      = Some (sample_sensor ''c3'' ''t2'' ''KW'')"
proof -
  have rows: "all_rows sample_database =
      [sample_sensor ''b2'' ''t1'' ''KW'', sample_sensor ''a1'' ''t1'' ''HZ'', sample_sensor ''c3'' ''t2'' ''KW'']"
    by (simp add: all_rows_def sample_database_def)
  have ok: "database_ok sample_database"
    by (simp add: database_ok_def rows) (simp add: sample_database_def sample_sensor_def nil_uuid_def less_char_def)
  show ?thesis
    using registry_lookup_exact[of "default_registry_options\<lparr>ro_page_rows := 1\<rparr>" rev sample_database
        "''t2''" "mk_registry default_registry_options" "''KW''" "sample_sensor ''c3'' ''t2'' ''KW''"] ok
    by (auto simp: rows default_registry_options_def sample_sensor_def)
qed

subsection \<open>Topic ownership\<close>

lemma may_subscribe_unique: "may_subscribe g a t \<Longrightarrow> may_subscribe g b t \<Longrightarrow> a = b"
  by (auto simp: may_subscribe_def split: if_splits)

text \<open>An id that nothing owns admits no subscriber.\<close>

lemma may_subscribe_unknown:
  "topic_scope t \<noteq> ''alerts'' \<Longrightarrow> owner_of g t = None \<Longrightarrow> \<not> may_subscribe g a t"
  by (simp add: may_subscribe_def)

subsection \<open>The memory of unknown ids\<close>

datatype registry_event = Ask string string ms | Swap reg_maps | Failed

fun registry_step :: "registry_event \<Rightarrow> registry \<Rightarrow> registry" where
  "registry_step (Ask t e now) g = snd (should_retry_unknown t e now g)"
| "registry_step (Swap m) g = refresh_finish (Inr m) g"
| "registry_step Failed g = refresh_finish (Inl (RegistryTooLarge (ro_max_sensors (rg_options g)))) g"

lemma registry_step_options [simp]: "rg_options (registry_step ev g) = rg_options g"
  by (cases ev) (auto simp: should_retry_unknown_def refresh_finish_def Let_def)

lemma registry_step_unknown:
  "length (rg_unknown g) \<le> ro_unknown_max (rg_options g) \<Longrightarrow>
   length (rg_unknown (registry_step ev g)) \<le> ro_unknown_max (rg_options g)"
proof (cases ev)
  case (Ask t e now)
  then show "length (rg_unknown g) \<le> ro_unknown_max (rg_options g) \<Longrightarrow> ?thesis"
    using jget_Some_key[of "rg_unknown g" "registry_key t e"]
    by (auto simp: should_retry_unknown_def Let_def length_jset jget_None_iff split: option.splits)
qed (auto simp: refresh_finish_def)

lemma registry_fold_options [simp]: "rg_options (fold registry_step evs g) = rg_options g"
  by (induction evs arbitrary: g) auto

text \<open>However many unknown external ids callers invent, the registry remembers at most
  \<open>unknownMax\<close> of them, through any sequence of asks, swaps and failed refreshes.\<close>
theorem registry_unknown_bounded:
  "length (rg_unknown (fold registry_step evs (mk_registry opts))) \<le> ro_unknown_max opts"
proof (induction evs rule: rev_induct)
  case (snoc ev evs)
  then show ?case
    using registry_step_unknown[of "fold registry_step evs (mk_registry opts)" ev]
    by (simp add: mk_registry_def[of opts])
qed (simp add: mk_registry_def)

text \<open>A failed refresh leaves the maps in service as they were.\<close>

lemma refresh_failed_keeps: "rg_maps (refresh_finish (Inl e) g) = rg_maps g"
  by (simp add: refresh_finish_def)

text \<open>An id refused a retry within the interval: asking again later than the interval is granted.\<close>

lemma should_retry_unknown_quiet:
  "fst (should_retry_unknown t e now g) \<Longrightarrow> now' - now < ro_unknown_retry_ms (rg_options g) \<Longrightarrow>
   \<not> fst (should_retry_unknown t e now' (snd (should_retry_unknown t e now g)))"
  by (auto simp: should_retry_unknown_def Let_def split: if_splits)

end
