(* ===== verification/Simulator.thy ===== *)
theory Simulator
  imports Control_Service Registry
begin

section \<open>The device simulator (apps/ingest/src/simulator/index.ts and context.ts)\<close>

text \<open>
  The synthetic feed and, in this stack, the gateway that applies supervisory commands. Arguments: the sine
  of a fraction of a day, what \<open>Intl.DateTimeFormat\<close> answers for a time zone, and the random draws, numbered per sensor.
  Doubles are taken as exact rationals. The timers and the logging are left out; the columns of a zone that no
  reading depends on (its area and its densities) are too.
\<close>

subsection \<open>Faults\<close>

datatype fault_kind = Drift | Flatline | Spike | OfflineFault

definition fault_kind_of :: "json \<Rightarrow> fault_kind option" where
  "fault_kind_of j =
     (case json_string j of
        Some s \<Rightarrow> if s = ''drift'' then Some Drift else if s = ''flatline'' then Some Flatline
          else if s = ''spike'' then Some Spike else if s = ''offline'' then Some OfflineFault else None
      | None \<Rightarrow> None)"

record fault =
  ft_kind :: fault_kind
  ft_magnitude :: rat
  ft_started_at :: ms

record sim_point_state =
  st_last_emit :: ms
  st_last_value :: "rat option"
  st_accumulator :: rat

definition per_hour_ms :: rat where
  "per_hour_ms = 3600000"

definition apply_fault :: "rat \<Rightarrow> fault option \<Rightarrow> sim_point_state \<Rightarrow> ms \<Rightarrow> rat" where
  "apply_fault v f s now =
     (case f of
        None \<Rightarrow> v
      | Some ft \<Rightarrow>
          (case ft_kind ft of
             Drift \<Rightarrow> v + ft_magnitude ft * (of_int (now - ft_started_at ft) / per_hour_ms)
           | Flatline \<Rightarrow> (case st_last_value s of Some u \<Rightarrow> u | None \<Rightarrow> v)
           | Spike \<Rightarrow> v * ft_magnitude ft
           | OfflineFault \<Rightarrow> v))"

subsection \<open>The building's context\<close>

datatype zone_type = Office | Meeting | Corridor | ServerRoom | Lobby | PlantRoom | Retail | Restroom | Stairwell | Parking

datatype equipment_type =
    Ahu | Vav | Fcu | Chiller | Boiler | Pump | CoolingTower | ElectricMeter | WaterMeter | BtuMeter | LightingCircuit | EvCharger

datatype day_type = Weekday | Saturday | Sunday | Holiday

record sim_zone =
  sz_type :: zone_type
  sz_design_occupancy :: rat
  sz_setpoint :: rat
  sz_schedule :: "string option"

record sim_equipment =
  sq_type :: equipment_type
  sq_rated_power :: "rat option"
  sq_rated_airflow :: "rat option"
  sq_running :: bool

record sim_context =
  sx_timezone :: string
  sx_overrides :: "(string, rat) jsmap"
  sx_zones :: "(string, sim_zone) jsmap"
  sx_equipment :: "(string, sim_equipment) jsmap"
  sx_schedules :: "(string, (day_type, rat list) jsmap) jsmap"

text \<open>The rows of one tenant as the queries read them: a zone's design and profile columns may be null.\<close>

record sim_rows =
  sr_timezones :: "string list"
  sr_zones :: "(string \<times> zone_type \<times> rat option \<times> rat option \<times> string option) list"
  sr_equipment :: "(string \<times> equipment_type \<times> rat option \<times> rat option \<times> equipment_status) list"
  sr_days :: "(string \<times> day_type \<times> rat list) list"

definition add_day :: "string \<times> day_type \<times> rat list \<Rightarrow> (string, (day_type, rat list) jsmap) jsmap
    \<Rightarrow> (string, (day_type, rat list) jsmap) jsmap" where
  "add_day d m = (case d of (schedule, day, fractions) \<Rightarrow>
     jset schedule (jset day fractions (case jget m schedule of Some days \<Rightarrow> days | None \<Rightarrow> [])) m)"

definition load_sim_context :: "sim_rows \<Rightarrow> sim_context" where
  "load_sim_context rows =
     \<lparr>sx_timezone = (case sr_timezones rows of [] \<Rightarrow> ''UTC'' | tz # _ \<Rightarrow> tz),
      sx_overrides = [],
      sx_zones = fold (\<lambda>(i, t, people, setpoint, schedule). jset i
        \<lparr>sz_type = t, sz_design_occupancy = or_else 0 people, sz_setpoint = or_else 23 setpoint, sz_schedule = schedule\<rparr>)
        (sr_zones rows) [],
      sx_equipment = fold (\<lambda>(i, t, power, airflow, status). jset i
        \<lparr>sq_type = t, sq_rated_power = power, sq_rated_airflow = airflow, sq_running = (status \<in> {Operational, Degraded})\<rparr>)
        (sr_equipment rows) [],
      sx_schedules = fold add_day (sr_days rows) []\<rparr>"

text \<open>The parts that \<open>Intl\<close> gives: the hour, which some locales render as 24 at midnight, the minute and the weekday.\<close>

definition local_time :: "nat \<times> nat \<times> string \<Rightarrow> rat \<times> day_type" where
  "local_time parts = (case parts of (hour, minute, weekday) \<Rightarrow>
     (of_nat (hour mod 24) + of_nat minute / 60,
      if weekday = ''Sat'' then Saturday else if weekday = ''Sun'' then Sunday else Weekday))"

definition occupancy_fraction :: "sim_context \<Rightarrow> sim_zone option \<Rightarrow> rat \<Rightarrow> day_type \<Rightarrow> rat" where
  "occupancy_fraction ctx zone hour day =
     (case zone of
        None \<Rightarrow> 0
      | Some z \<Rightarrow>
          if \<not> truthy (sz_schedule z) then 0
          else (case jget (sx_schedules ctx) (the (sz_schedule z)) of
                  None \<Rightarrow> 0
                | Some days \<Rightarrow> (case jget days day of
                    None \<Rightarrow> 0
                  | Some fs \<Rightarrow> let i = nat (\<lfloor>hour\<rfloor> mod 24) in if i < length fs then fs ! i else 0)))"

definition outdoor_temp :: "(rat \<Rightarrow> rat) \<Rightarrow> rat \<Rightarrow> rat" where
  "outdoor_temp day_sine hour = 34 + 8 * day_sine ((hour - 9) / 24)"

definition effective_setpoint :: "(string, rat) jsmap \<Rightarrow> string option \<Rightarrow> rat option \<Rightarrow> rat" where
  "effective_setpoint overrides zone designed =
     (case (case zone of None \<Rightarrow> None | Some z \<Rightarrow> jget overrides z) of
        Some v \<Rightarrow> v
      | None \<Rightarrow> (case designed of Some v \<Rightarrow> v | None \<Rightarrow> 23))"

subsection \<open>One value\<close>

definition clamp :: "rat \<Rightarrow> rat \<Rightarrow> rat \<Rightarrow> rat" where
  "clamp v lo hi = min hi (max lo v)"

definition noise :: "rat \<Rightarrow> rat \<Rightarrow> rat" where
  "noise draw scale = (draw - 1 / 2) * 2 * scale"

definition js_round :: "rat \<Rightarrow> rat" where
  "js_round v = of_int \<lfloor>v + 1 / 2\<rfloor>"

definition seed_accumulator :: "sensor \<Rightarrow> rat" where
  "seed_accumulator s = (if \<not> sn_is_cumulative s then 0 else if sn_metric s = water_m3 then 12000 else 1250000)"

record sim_moment =
  mo_hour :: rat
  mo_day :: day_type
  mo_sine :: "rat \<Rightarrow> rat"

definition zone_of :: "sim_context \<Rightarrow> sensor \<Rightarrow> sim_zone option" where
  "zone_of ctx s = (if truthy (sn_zone s) then jget (sx_zones ctx) (the (sn_zone s)) else None)"

definition equipment_of :: "sim_context \<Rightarrow> sensor \<Rightarrow> sim_equipment option" where
  "equipment_of ctx s = (if truthy (sn_equipment s) then jget (sx_equipment ctx) (the (sn_equipment s)) else None)"

definition setpoint_of :: "sim_context \<Rightarrow> sensor \<Rightarrow> rat" where
  "setpoint_of ctx s = effective_setpoint (sx_overrides ctx) (sn_zone s) (map_option sz_setpoint (zone_of ctx s))"

definition occupancy_of :: "sim_context \<Rightarrow> sim_moment \<Rightarrow> sensor \<Rightarrow> rat" where
  "occupancy_of ctx m s = occupancy_fraction ctx (zone_of ctx s) (mo_hour m) (mo_day m)"

definition demand_of :: "sim_context \<Rightarrow> sim_moment \<Rightarrow> sensor \<Rightarrow> rat" where
  "demand_of ctx m s =
     clamp (2 / 10 + 55 / 100 * occupancy_of ctx m s + (outdoor_temp (mo_sine m) (mo_hour m) - setpoint_of ctx s) * (18 / 1000)) (15 / 100) 1"

definition power_value :: "sim_equipment option \<Rightarrow> rat \<Rightarrow> rat \<Rightarrow> (nat \<Rightarrow> rat) \<Rightarrow> rat" where
  "power_value equip demand occ draw =
     (if (case equip of Some e \<Rightarrow> \<not> sq_running e | None \<Rightarrow> False) then 0
      else let rated = (case equip of Some e \<Rightarrow> or_else 5 (sq_rated_power e) | None \<Rightarrow> 5) in
        case map_option sq_type equip of
          Some Chiller \<Rightarrow> clamp (rated * (35 / 100 + 5 / 10 * demand) + noise (draw 0) 4) 0 (rated * (11 / 10))
        | Some Ahu \<Rightarrow> clamp (rated * (3 / 10 + 6 / 10 * demand) + noise (draw 0) (4 / 10)) 0 rated
        | Some Pump \<Rightarrow> clamp (rated * (72 / 100) + noise (draw 0) (6 / 10)) 0 rated
        | Some CoolingTower \<Rightarrow> clamp (rated * (4 / 10 + 45 / 100 * demand) + noise (draw 0) (8 / 10)) 0 rated
        | Some LightingCircuit \<Rightarrow> clamp (rated * (if occ > 5 / 100 then 9 / 10 else 12 / 100) + noise (draw 0) (3 / 10)) 0 rated
        | Some EvCharger \<Rightarrow> if draw 0 < 12 / 100 then rated * (6 / 10 + draw 1 * (4 / 10)) else 0
        | _ \<Rightarrow> clamp (rated * demand + noise (draw 0) (2 / 10)) 0 rated)"

text \<open>The value and what becomes of the accumulator, which only the two counters advance.\<close>

definition generate :: "sim_context \<Rightarrow> sensor \<Rightarrow> sim_moment \<Rightarrow> (nat \<Rightarrow> rat) \<Rightarrow> rat \<Rightarrow> rat \<Rightarrow> rat \<times> rat" where
  "generate ctx s m draw acc hours =
     (let zone = zone_of ctx s; equip = equipment_of ctx s; occ = occupancy_of ctx m s;
          outdoor = outdoor_temp (mo_sine m) (mo_hour m); setpoint = setpoint_of ctx s; demand = demand_of ctx m s
      in case sn_metric s of
           temperature_c \<Rightarrow>
             (if map_option sq_type equip = Some Chiller then 65 / 10 + noise (draw 0) (4 / 10)
              else if map_option sq_type equip = Some Ahu then setpoint - 8 + noise (draw 0) (5 / 10)
              else setpoint + (outdoor - setpoint) * (35 / 1000) + occ * (5 / 10) + noise (draw 0) (18 / 100), acc)
         | setpoint_temp_c \<Rightarrow> (setpoint, acc)
         | humidity_pct \<Rightarrow> (clamp (48 + 6 * mo_sine m ((mo_hour m - 4) / 24) + occ * 6 + noise (draw 0) (15 / 10)) 20 85, acc)
         | co2_ppm \<Rightarrow>
             (if map_option sz_type zone = Some ServerRoom then 420 + noise (draw 0) 12
              else clamp (430 + occ * 620 + noise (draw 0) 25) 400 2500, acc)
         | occupancy_count \<Rightarrow>
             (let design = (case zone of Some z \<Rightarrow> sz_design_occupancy z | None \<Rightarrow> 0)
              in max 0 (js_round (design * occ + noise (draw 0) (max 1 (design * (8 / 100))))), acc)
         | airflow_cmh \<Rightarrow>
             (clamp ((case equip of Some e \<Rightarrow> or_else 3000 (sq_rated_airflow e) | None \<Rightarrow> 3000) * demand + noise (draw 0) 60) 0 4000, acc)
         | damper_position_pct \<Rightarrow> (clamp (demand * 100 + noise (draw 0) 3) 10 100, acc)
         | valve_position_pct \<Rightarrow> (clamp (demand * 100 + noise (draw 0) 3) 10 100, acc)
         | power_kw \<Rightarrow> (power_value equip demand occ draw, acc)
         | energy_kwh \<Rightarrow> (acc + (180 + 260 * demand) * hours, acc + (180 + 260 * demand) * hours)
         | water_m3 \<Rightarrow> (acc + (4 / 10 + 16 / 10 * demand) * hours, acc + (4 / 10 + 16 / 10 * demand) * hours)
         | pressure_pa \<Rightarrow> (clamp (250 * demand + noise (draw 0) 8) 0 400, acc)
         | illuminance_lux \<Rightarrow> (clamp (if occ > 5 / 100 then 480 + noise (draw 0) 40 else 40 + noise (draw 0) 15) 0 1200, acc))"

subsection \<open>The simulator\<close>

record simulator =
  sm_contexts :: "(string, sim_context) jsmap"
  sm_state :: "(string, sim_point_state) jsmap"
  sm_faults :: "(string, fault) jsmap"
  sm_emitted :: nat

type_synonym simulated = "sensor \<times> rat \<times> ms"

record sim_tick_env =
  tk_local :: "string \<Rightarrow> nat \<times> nat \<times> string"
  tk_sine :: "rat \<Rightarrow> rat"
  tk_draws :: "string \<Rightarrow> nat \<Rightarrow> rat"
  tk_speedup :: rat

definition report_interval :: "rat \<Rightarrow> sensor \<Rightarrow> rat" where
  "report_interval speedup s = max 200 (of_int (sn_sample_interval_s s) * 1000 / speedup)"

definition state_of :: "sensor \<Rightarrow> (string, sim_point_state) jsmap \<Rightarrow> sim_point_state" where
  "state_of s states = (case jget states (sn_id s) of Some st \<Rightarrow> st
     | None \<Rightarrow> \<lparr>st_last_emit = 0, st_last_value = None, st_accumulator = seed_accumulator s\<rparr>)"

definition tick_sensor ::
  "sim_tick_env \<Rightarrow> ms \<Rightarrow> (string, sim_context) jsmap \<Rightarrow> (string, fault) jsmap \<Rightarrow> sensor \<Rightarrow>
   simulated list \<times> (string, sim_point_state) jsmap \<Rightarrow> simulated list \<times> (string, sim_point_state) jsmap" where
  "tick_sensor env now contexts faults s acc =
     (case acc of (out, states) \<Rightarrow>
       (case jget contexts (sn_tenant s) of
          None \<Rightarrow> (out, states)
        | Some ctx \<Rightarrow>
            (let (hour, day) = local_time (tk_local env (sx_timezone ctx));
                 st = state_of s states;
                 states1 = jset (sn_id s) st states;
                 interval = report_interval (tk_speedup env) s;
                 ft = jget faults (sn_id s)
             in if of_int (now - st_last_emit st) < interval then (out, states1)
                else if map_option ft_kind ft = Some OfflineFault then (out, states1)
                else let hours = (if st_last_emit st = 0 then interval else of_int (now - st_last_emit st)) / per_hour_ms;
                         (v, a) = generate ctx s \<lparr>mo_hour = hour, mo_day = day, mo_sine = tk_sine env\<rparr> (tk_draws env (sn_id s))
                                    (st_accumulator st) hours;
                         w = apply_fault v ft st now
                     in (out @ [(s, w, now)],
                         jset (sn_id s) \<lparr>st_last_emit = now, st_last_value = Some w, st_accumulator = a\<rparr> states1))))"

definition sim_tick :: "sim_tick_env \<Rightarrow> ms \<Rightarrow> registry \<Rightarrow> simulator \<Rightarrow> simulated list \<times> simulator" where
  "sim_tick env now g sim =
     (if sm_contexts sim = [] then ([], sim)
      else let (out, states) = fold (tick_sensor env now (sm_contexts sim) (sm_faults sim)) (registry_all g) ([], sm_state sim)
           in (out, sim\<lparr>sm_state := states, sm_emitted := sm_emitted sim + length out\<rparr>))"

subsection \<open>Faults of a running simulator\<close>

definition inject_fault :: "string \<Rightarrow> fault_kind \<Rightarrow> rat \<Rightarrow> ms \<Rightarrow> simulator \<Rightarrow> simulator" where
  "inject_fault i kind magnitude now sim =
     sim\<lparr>sm_faults := jset i \<lparr>ft_kind = kind, ft_magnitude = magnitude, ft_started_at = now\<rparr> (sm_faults sim)\<rparr>"

definition clear_fault :: "string \<Rightarrow> simulator \<Rightarrow> bool \<times> simulator" where
  "clear_fault i sim = (jget (sm_faults sim) i \<noteq> None, sim\<lparr>sm_faults := jdel i (sm_faults sim)\<rparr>)"

definition clear_all_faults :: "simulator \<Rightarrow> simulator" where
  "clear_all_faults sim = sim\<lparr>sm_faults := []\<rparr>"

definition clear_faults_for :: "string \<Rightarrow> registry \<Rightarrow> simulator \<Rightarrow> nat \<times> simulator" where
  "clear_faults_for tenant g sim =
     (let kept = filter (\<lambda>(i, f). map_option sn_tenant (registry_by_id g i) \<noteq> Some tenant) (sm_faults sim)
      in (length (sm_faults sim) - length kept, sim\<lparr>sm_faults := kept\<rparr>))"

subsection \<open>Starting\<close>

text \<open>A stored reading is its sensor, its time and its value; the query takes each sensor's latest. A tenant reads its own rows.\<close>

definition last_stored :: "(string \<times> string \<times> ms \<times> rat) list \<Rightarrow> sensor \<Rightarrow> rat option" where
  "last_stored rows s =
     (case sort_key (\<lambda>(t, i, ts, v). - ts) (filter (\<lambda>(t, i, ts, v). t = sn_tenant s \<and> i = sn_id s) rows) of
        [] \<Rightarrow> None | (_, _, _, v) # _ \<Rightarrow> Some v)"

definition resume_counters :: "(string \<times> string \<times> ms \<times> rat) list \<Rightarrow> registry \<Rightarrow> simulator \<Rightarrow> simulator" where
  "resume_counters rows g sim =
     sim\<lparr>sm_state := fold (\<lambda>s. jset (sn_id s)
         \<lparr>st_last_emit = 0, st_last_value = None, st_accumulator = or_else (seed_accumulator s) (last_stored rows s)\<rparr>)
       (filter sn_is_cumulative (registry_all g)) (sm_state sim)\<rparr>"

subsection \<open>The gateway\<close>

text \<open>What a poll meets for one tenant. An exception ends that tenant's turn: while claiming, when the database is
  left as \<open>ClaimThrew\<close> says, or after so many reports.\<close>

datatype poll_outcome = PollsThrough | ClaimThrew control_db | ReportThrew nat

record poll_env =
  pv_outcome :: poll_outcome
  pv_detail :: "control_refusal \<Rightarrow> string"
  pv_expire_now :: ms
  pv_claim_now :: ms
  pv_locked :: "string list"
  pv_recheck :: "string \<Rightarrow> recheck_env"
  pv_report_now :: ms
  pv_read_now :: ms

definition gateway_applies :: "string \<Rightarrow> ms \<Rightarrow> (string \<times> command) list \<Rightarrow> control_db \<Rightarrow> control_db" where
  "gateway_applies tenant now commands db =
     fold (\<lambda>(i, c) db. snd (report_result tenant i OutcomeApplied (Some ''applied by the in-process device simulator'') now db)) commands db"

definition override_map :: "string \<Rightarrow> ms \<Rightarrow> control_db \<Rightarrow> (string, rat) jsmap" where
  "override_map tenant now db = fold (\<lambda>(z, t, u). jset z t) (active_overrides tenant now db) []"

definition poll_tenant :: "poll_env \<Rightarrow> string \<Rightarrow> sim_context \<Rightarrow> control_db \<Rightarrow> sim_context \<times> control_db" where
  "poll_tenant pv tenant ctx db =
     (case pv_outcome pv of
        ClaimThrew db1 \<Rightarrow> (ctx, db1)
      | outcome \<Rightarrow>
          let (commands, _, db1) = claim_for_gateway (pv_detail pv) tenant ''device-simulator'' 25 (pv_expire_now pv) (pv_claim_now pv)
                (pv_locked pv) (pv_recheck pv) db
          in case outcome of
               ReportThrew n \<Rightarrow> (ctx, gateway_applies tenant (pv_report_now pv) (take n commands) db1)
             | _ \<Rightarrow> let db2 = gateway_applies tenant (pv_report_now pv) commands db1
                    in (ctx\<lparr>sx_overrides := override_map tenant (pv_read_now pv) db2\<rparr>, db2))"

fun poll_contexts :: "(string \<Rightarrow> poll_env) \<Rightarrow> (string, sim_context) jsmap \<Rightarrow> control_db \<Rightarrow> (string, sim_context) jsmap \<times> control_db" where
  "poll_contexts env [] db = ([], db)"
| "poll_contexts env ((tenant, ctx) # cs) db =
     (let (ctx1, db1) = poll_tenant (env tenant) tenant ctx db; (cs1, db2) = poll_contexts env cs db1
      in ((tenant, ctx1) # cs1, db2))"

definition poll_commands :: "(string \<Rightarrow> poll_env) \<Rightarrow> control_db \<Rightarrow> simulator \<Rightarrow> simulator \<times> control_db" where
  "poll_commands env db sim =
     (let (cs, db1) = poll_contexts env (sm_contexts sim) db in (sim\<lparr>sm_contexts := cs\<rparr>, db1))"

definition sim_start ::
  "(string \<times> sim_rows) list \<Rightarrow> (string \<times> string \<times> ms \<times> rat) list \<Rightarrow> registry \<Rightarrow> (string \<Rightarrow> poll_env) \<Rightarrow> control_db \<Rightarrow>
   simulator \<Rightarrow> simulator \<times> control_db" where
  "sim_start tenants rows g env db sim =
     poll_commands env db (resume_counters rows g
       (sim\<lparr>sm_contexts := fold (\<lambda>(t, r). jset t (load_sim_context r)) tenants (sm_contexts sim)\<rparr>))"

subsection \<open>One value\<close>

lemma clamp_range: "lo \<le> hi \<Longrightarrow> lo \<le> clamp v lo hi \<and> clamp v lo hi \<le> hi"
  by (simp add: clamp_def)

lemma noise_range: "0 \<le> u \<Longrightarrow> u \<le> 1 \<Longrightarrow> 0 \<le> k \<Longrightarrow> \<bar>noise u k\<bar> \<le> k"
proof -
  assume u: "0 \<le> u" "u \<le> 1" and k: "0 \<le> k"
  have "noise u k = (2 * u - 1) * k" by (simp add: noise_def algebra_simps)
  then have "\<bar>noise u k\<bar> = \<bar>2 * u - 1\<bar> * k" using k by (simp only: abs_mult abs_of_nonneg)
  also have "\<dots> \<le> 1 * k" using u k by (intro mult_right_mono) auto
  finally show ?thesis by simp
qed

lemma demand_range: "15 / 100 \<le> demand_of ctx m s" "demand_of ctx m s \<le> 1"
  using clamp_range[of "15 / 100" 1] by (simp_all add: demand_of_def)

lemma power_range:
  assumes "0 \<le> draw 1" "draw 1 \<le> 1" "\<forall>e \<in> set_option equip. \<forall>r \<in> set_option (sq_rated_power e). 0 \<le> r"
  defines "rated \<equiv> case equip of Some e \<Rightarrow> or_else 5 (sq_rated_power e) | None \<Rightarrow> 5"
  shows "0 \<le> power_value equip demand occ draw \<and> power_value equip demand occ draw \<le> rated * (11 / 10)"
proof -
  have r: "0 \<le> rated" using assms(3) by (auto simp: rated_def or_else_def split: option.splits)
  define ok where "ok v = (0 \<le> v \<and> v \<le> rated * (11 / 10))" for v
  have "rated * (6 / 10 + draw 1 * (4 / 10)) \<le> rated * (11 / 10)" using r assms(2) by (intro mult_left_mono) auto
  then have oks: "ok 0" "ok (rated * (6 / 10 + draw 1 * (4 / 10)))" "ok (clamp v 0 rated)" "ok (clamp v 0 (rated * (11 / 10)))" for v
    using r assms(1) clamp_range[OF r, of v] clamp_range[of 0 "rated * (11 / 10)" v] by (simp_all add: ok_def)
  have "ok (power_value equip demand occ draw)"
    unfolding power_value_def rated_def[symmetric] Let_def
    by (simp only: oks if_split simp_thms split: option.split equipment_type.split)
  then show ?thesis by (simp only: ok_def)
qed

text \<open>The range each metric's values keep to, as the instruments of such a building would.\<close>

definition within_range :: "rat \<Rightarrow> rat \<Rightarrow> rat \<Rightarrow> bool" where
  "within_range lo hi v = (lo \<le> v \<and> v \<le> hi)"

definition plausible_value :: "sim_context \<Rightarrow> sensor \<Rightarrow> rat \<Rightarrow> rat \<Rightarrow> bool" where
  "plausible_value ctx s acc v =
     (case sn_metric s of
        humidity_pct \<Rightarrow> within_range 20 85 v
      | co2_ppm \<Rightarrow> within_range 400 2500 v
      | occupancy_count \<Rightarrow> 0 \<le> v \<and> v = of_int \<lfloor>v\<rfloor>
      | airflow_cmh \<Rightarrow> within_range 0 4000 v
      | damper_position_pct \<Rightarrow> within_range 10 100 v
      | valve_position_pct \<Rightarrow> within_range 10 100 v
      | power_kw \<Rightarrow>
          (case equipment_of ctx s of
             Some e \<Rightarrow> within_range 0 (or_else 5 (sq_rated_power e) * (11 / 10)) v \<and> (\<not> sq_running e \<longrightarrow> v = 0)
           | None \<Rightarrow> within_range 0 (11 / 2) v)
      | pressure_pa \<Rightarrow> within_range 0 400 v
      | illuminance_lux \<Rightarrow> within_range 0 1200 v
      | setpoint_temp_c \<Rightarrow> v = setpoint_of ctx s
      | energy_kwh \<Rightarrow> acc < v
      | water_m3 \<Rightarrow> acc < v
      | temperature_c \<Rightarrow> True)"

lemma counter_advances:
  assumes "0 < hours" "sn_metric s \<in> {energy_kwh, water_m3}" "generate ctx s m draw acc hours = (v, acc')"
  shows "v = acc'" "acc < acc'"
proof -
  have "0 < (180 + 260 * demand_of ctx m s) * hours" "0 < (4 / 10 + 16 / 10 * demand_of ctx m s) * hours"
    using demand_range(1)[of ctx m s] assms(1) by simp_all
  then show "v = acc'" "acc < acc'"
    using assms(2,3) by (auto simp: generate_def Let_def)
qed

lemma other_metrics_keep:
  "sn_metric s \<notin> {energy_kwh, water_m3} \<Longrightarrow> snd (generate ctx s m draw acc hours) = acc"
  by (simp add: generate_def Let_def split: metric_type.split)

text \<open>Every synthetic value is one the instrument could give: percentages, concentrations, flows, pressures and
  light stay within fixed bounds, a head count is a whole number and not negative, equipment draws between
  nothing and a tenth above its rating and nothing at all when it does not run, a setpoint is the one in
  force, and a counter has advanced.\<close>
theorem synthetic_values_plausible:
  assumes "\<forall>k. 0 \<le> draw k \<and> draw k < 1" "0 < hours"
    and "\<forall>e \<in> set_option (equipment_of ctx s). \<forall>r \<in> set_option (sq_rated_power e). 0 \<le> r"
  shows "plausible_value ctx s acc (fst (generate ctx s m draw acc hours))"
proof (cases "sn_metric s \<in> {energy_kwh, water_m3}")
  case True
  then show ?thesis
    using counter_advances[OF assms(2) True surjective_pairing] by (auto simp: plausible_value_def)
next
  case False
  have n: "\<bar>noise (draw 0) 12\<bar> \<le> 12" using assms(1) by (intro noise_range) (auto intro: less_imp_le)
  have p: "0 \<le> power_value (equipment_of ctx s) d o' draw \<and> power_value (equipment_of ctx s) d o' draw \<le>
      (case equipment_of ctx s of Some e \<Rightarrow> or_else 5 (sq_rated_power e) | None \<Rightarrow> 5) * (11 / 10)" for d o'
    using assms(1,3) by (intro power_range) (auto intro: less_imp_le)
  have z: "power_value (Some e) d o' draw = 0" if "\<not> sq_running e" for e d o' using that by (simp add: power_value_def)
  have count: "0 \<le> max 0 (js_round v) \<and> max 0 (js_round v) = of_int \<lfloor>max 0 (js_round v)\<rfloor>" for v
    by (simp add: js_round_def max_def)
  show ?thesis
    using False n p z count by (cases "sn_metric s"; cases "equipment_of ctx s")
      (auto simp: plausible_value_def generate_def Let_def within_range_def clamp_range abs_le_iff)
qed

subsection \<open>One sensor over many ticks\<close>

fun sim_run :: "(sim_tick_env \<times> ms) list \<Rightarrow> registry \<Rightarrow> simulator \<Rightarrow> simulated list \<times> simulator" where
  "sim_run [] g sim = ([], sim)"
| "sim_run ((env, now) # ts) g sim =
     (let (out, sim1) = sim_tick env now g sim; (outs, sim2) = sim_run ts g sim1 in (out @ outs, sim2))"

definition reports_of :: "string \<Rightarrow> simulated list \<Rightarrow> (rat \<times> ms) list" where
  "reports_of i out = map snd (filter (\<lambda>e. sn_id (fst e) = i) out)"

definition counter_of :: "sensor \<Rightarrow> (string, sim_point_state) jsmap \<Rightarrow> rat" where
  "counter_of s states = st_accumulator (state_of s states)"

lemma state_of_jset [simp]: "state_of s (jset (sn_id s) st states) = st"
  by (simp add: state_of_def)

lemma state_of_same: "jget states' (sn_id s) = jget states (sn_id s) \<Longrightarrow> state_of s states' = state_of s states"
  by (simp add: state_of_def)

lemma reports_append [simp]: "reports_of i (xs @ ys) = reports_of i xs @ reports_of i ys"
  by (simp add: reports_of_def)

lemma report_interval_pos: "0 < report_interval speedup s"
  by (simp add: report_interval_def max_def)

lemma tick_sensor_other:
  assumes "sn_id x \<noteq> i" "tick_sensor env now cs fs x (out, states) = (out', states')"
  shows "jget states' i = jget states i \<and> reports_of i out' = reports_of i out"
  using assms by (auto simp: tick_sensor_def reports_of_def Let_def split: option.splits prod.splits if_splits)

lemma tick_fold_other:
  assumes "i \<notin> sn_id ` set xs" "fold (tick_sensor env now cs fs) xs (out, states) = (out', states')"
  shows "jget states' i = jget states i \<and> reports_of i out' = reports_of i out"
  using assms
proof (induction xs arbitrary: out states)
  case (Cons x xs)
  obtain o1 s1 where x: "tick_sensor env now cs fs x (out, states) = (o1, s1)" by fastforce
  have "sn_id x \<noteq> i" "i \<notin> sn_id ` set xs" using Cons.prems(1) by auto
  then show ?case using Cons.IH[of o1 s1] Cons.prems(2) tick_sensor_other[OF _ x, of i] x by simp
qed simp

text \<open>What a tick does to one sensor is what its own step does: the others neither report for it nor touch its state.\<close>

lemma sim_tick_own:
  assumes "sim_tick env now g sim = (out, sim')" "distinct (map sn_id (registry_all g))" "s \<in> set (registry_all g)"
    "sm_contexts sim \<noteq> []"
  obtains o1 s1 o2 s2 where "tick_sensor env now (sm_contexts sim) (sm_faults sim) s (o1, s1) = (o2, s2)"
    "jget s1 (sn_id s) = jget (sm_state sim) (sn_id s)" "reports_of (sn_id s) o1 = []"
    "jget (sm_state sim') (sn_id s) = jget s2 (sn_id s)" "reports_of (sn_id s) out = reports_of (sn_id s) o2"
proof -
  obtain xs ys where g: "registry_all g = xs @ s # ys" using assms(3) by (metis split_list)
  let ?f = "fold (tick_sensor env now (sm_contexts sim) (sm_faults sim))"
  obtain o1 s1 where 1: "?f xs ([], sm_state sim) = (o1, s1)" by fastforce
  obtain o2 s2 where 2: "tick_sensor env now (sm_contexts sim) (sm_faults sim) s (o1, s1) = (o2, s2)" by fastforce
  obtain o3 s3 where 3: "?f ys (o2, s2) = (o3, s3)" by fastforce
  have sim': "out = o3" "sm_state sim' = s3"
    using assms(1,4) 1 2 3 by (auto simp: sim_tick_def g Let_def)
  have "sn_id s \<notin> sn_id ` set xs" "sn_id s \<notin> sn_id ` set ys" using assms(2) by (auto simp: g)
  then show ?thesis
    using that[OF 2] tick_fold_other[OF _ 1] tick_fold_other[OF _ 3] by (simp add: sim' reports_of_def)
qed

lemma tick_sensor_counter:
  assumes "tick_sensor env now cs fs s (o1, s1) = (o2, s2)" "reports_of (sn_id s) o1 = []"
    and "sn_metric s \<in> {energy_kwh, water_m3}" "jget fs (sn_id s) = None"
  shows "(reports_of (sn_id s) o2 = [] \<and> counter_of s s2 = counter_of s s1) \<or>
    (reports_of (sn_id s) o2 = [(counter_of s s2, now)] \<and> counter_of s s1 < counter_of s s2)"
proof -
  let ?st = "state_of s s1"
  let ?hours = "(if st_last_emit ?st = 0 then report_interval (tk_speedup env) s else of_int (now - st_last_emit ?st)) / per_hour_ms"
  have "0 < ?hours" if "\<not> of_int (now - st_last_emit ?st) < report_interval (tk_speedup env) s"
    using that report_interval_pos[of "tk_speedup env" s] by (auto simp: per_hour_ms_def)
  note step = counter_advances[OF this assms(3)]
  show ?thesis
  proof (cases "jget cs (sn_tenant s)")
    case None
    then show ?thesis using assms(1,2) by (simp add: tick_sensor_def)
  next
    case (Some ctx)
    let ?time = "local_time (tk_local env (sx_timezone ctx))"
    show ?thesis
    proof (cases "of_int (now - st_last_emit ?st) < report_interval (tk_speedup env) s")
      case True
      then show ?thesis
        using assms(1,2) Some by (auto simp: tick_sensor_def Let_def counter_of_def split: prod.splits)
    next
      case False
      obtain v a where gen: "generate ctx s \<lparr>mo_hour = fst ?time, mo_day = snd ?time, mo_sine = tk_sine env\<rparr>
          (tk_draws env (sn_id s)) (st_accumulator ?st) ?hours = (v, a)" by fastforce
      have "(o1 @ [(s, v, now)], jset (sn_id s) \<lparr>st_last_emit = now, st_last_value = Some v, st_accumulator = a\<rparr>
          (jset (sn_id s) ?st s1)) = (o2, s2)"
        using assms(1) Some False gen by (simp add: tick_sensor_def Let_def case_prod_beta apply_fault_def assms(4))
      then show ?thesis using step[OF False gen] assms(2) by (auto simp: reports_of_def counter_of_def)
    qed
  qed
qed

lemma sim_tick_frame: "sm_faults (snd (sim_tick env now g sim)) = sm_faults sim" "sm_contexts (snd (sim_tick env now g sim)) = sm_contexts sim"
  by (simp_all add: sim_tick_def case_prod_beta Let_def)

text \<open>C31: A meter never rewinds: over any run of ticks, whatever the clock, the speed-up and the faults of other points,
  the totals that an energy or water counter without a fault reports are strictly increasing, and all above
  the one it started from.\<close>
theorem counters_never_rewind:
  assumes "distinct (map sn_id (registry_all g))" "s \<in> set (registry_all g)"
    and "sn_metric s \<in> {energy_kwh, water_m3}" "jget (sm_faults sim) (sn_id s) = None"
  shows "sorted_wrt (<) (counter_of s (sm_state sim) # map fst (reports_of (sn_id s) (fst (sim_run ticks g sim))))"
  using assms(4)
proof (induction ticks arbitrary: sim)
  case (Cons t ticks)
  obtain env now where t: "t = (env, now)" by fastforce
  obtain out sim1 where tick: "sim_tick env now g sim = (out, sim1)" by fastforce
  have f1: "jget (sm_faults sim1) (sn_id s) = None" using sim_tick_frame(1)[of env now g sim] tick Cons.prems by simp
  note IH = Cons.IH[OF f1]
  have "(reports_of (sn_id s) out = [] \<and> counter_of s (sm_state sim1) = counter_of s (sm_state sim)) \<or>
    (reports_of (sn_id s) out = [(counter_of s (sm_state sim1), now)] \<and> counter_of s (sm_state sim) < counter_of s (sm_state sim1))"
  proof (cases "sm_contexts sim = []")
    case True
    then show ?thesis using tick by (simp add: sim_tick_def reports_of_def)
  next
    case False
    show ?thesis
    proof (rule sim_tick_own[OF tick assms(1,2) False])
      fix o1 s1 o2 s2
      assume own: "tick_sensor env now (sm_contexts sim) (sm_faults sim) s (o1, s1) = (o2, s2)"
        "jget s1 (sn_id s) = jget (sm_state sim) (sn_id s)" "reports_of (sn_id s) o1 = []"
        "jget (sm_state sim1) (sn_id s) = jget s2 (sn_id s)" "reports_of (sn_id s) out = reports_of (sn_id s) o2"
      have "counter_of s s1 = counter_of s (sm_state sim)" "counter_of s s2 = counter_of s (sm_state sim1)"
        unfolding counter_of_def by (simp_all only: state_of_same[OF own(2)] state_of_same[OF own(4)])
      then show ?thesis using tick_sensor_counter[OF own(1,3) assms(3) Cons.prems] unfolding own(5) by simp
    qed
  qed
  then have now: "reports_of (sn_id s) out = [] \<and> counter_of s (sm_state sim1) = counter_of s (sm_state sim) \<or>
    (map fst (reports_of (sn_id s) out) = [counter_of s (sm_state sim1)] \<and> counter_of s (sm_state sim) < counter_of s (sm_state sim1))"
    by auto
  have run: "fst (sim_run (t # ticks) g sim) = out @ fst (sim_run ticks g sim1)"
    using tick by (simp add: t case_prod_beta Let_def)
  show ?case
    using now
  proof (elim disjE conjE)
    assume "reports_of (sn_id s) out = []" "counter_of s (sm_state sim1) = counter_of s (sm_state sim)"
    then show ?thesis using IH unfolding run by simp
  next
    assume "map fst (reports_of (sn_id s) out) = [counter_of s (sm_state sim1)]" "counter_of s (sm_state sim) < counter_of s (sm_state sim1)"
    then show ?thesis using IH less_trans unfolding run by fastforce
  qed
qed (simp add: reports_of_def)

text \<open>Where the gateway's polls lead. A claim and the reports after it keep the store's invariant.\<close>

lemma recheck_ok: "control_ok now db \<Longrightarrow> control_ok now (snd (snd (recheck detail tenant s env cs db)))"
proof (induction cs arbitrary: db)
  case (Cons e cs)
  obtain i c where e: "e = (i, c)" by (cases e) auto
  show ?case
    using Cons.IH Cons.prems statement_ok(3)[OF Cons.prems] by (simp add: e case_prod_beta split: sum.split)
qed simp

lemma claim_for_gateway_ok:
  assumes "control_ok now db"
  shows "control_ok now (snd (snd (claim_for_gateway detail tenant gateway limit t u locked env db)))"
proof -
  let ?db2 = "snd (get_settings tenant (snd (expire_stale tenant t db)))"
  have "control_ok now ?db2" using statement_ok(1)[OF assms] control_ok_commands[OF get_settings_commands] by simp
  then show ?thesis
    using recheck_ok statement_ok(2) by (simp add: claim_for_gateway_unfold Let_def)
qed

lemma gateway_applies_ok:
  "control_ok now db \<Longrightarrow> now \<le> t \<Longrightarrow> control_ok t (gateway_applies tenant t commands db)"
proof -
  have "control_ok t (fold (\<lambda>(i, c) db. snd (report_result tenant i OutcomeApplied d t db)) commands db)" if "control_ok t db" for db d
    using that settle_command_ok[OF _ order_refl] by (induction commands arbitrary: db) (auto simp: report_result_def)
  then show "control_ok now db \<Longrightarrow> now \<le> t \<Longrightarrow> control_ok t (gateway_applies tenant t commands db)"
    using control_ok_later unfolding gateway_applies_def by blast
qed

lemma first_per_zone_zones:
  "distinct (map cc_zone (first_per_zone seen cs))"
  "cc_zone ` set (first_per_zone seen cs) = cc_zone ` set cs - set seen"
  "set (first_per_zone seen cs) \<subseteq> set cs"
proof -
  have "distinct (map cc_zone (first_per_zone seen cs)) \<and> cc_zone ` set (first_per_zone seen cs) = cc_zone ` set cs - set seen \<and>
      set (first_per_zone seen cs) \<subseteq> set cs"
    by (induction seen cs rule: first_per_zone.induct) auto
  then show "distinct (map cc_zone (first_per_zone seen cs))"
    "cc_zone ` set (first_per_zone seen cs) = cc_zone ` set cs - set seen" "set (first_per_zone seen cs) \<subseteq> set cs" by simp_all
qed

lemma override_map_get:
  assumes "control_ok now db"
  shows "jget (override_map tenant now db) z = Some v \<longleftrightarrow>
    (\<exists>i c. jget (cd_commands db) i = Some c \<and> cc_tenant c = tenant \<and> cc_zone c = z \<and> in_force now c \<and> v = cc_setpoint c)"
proof -
  define rows where "rows = sort_key cc_zone (sort_key (\<lambda>c. - cc_effective_until c) (filter (in_force now) (map snd (visible tenant db))))"
  define fz where "fz = first_per_zone [] rows"
  have map: "override_map tenant now db = fold (\<lambda>c. jset (cc_zone c) (cc_setpoint c)) fz []"
    by (simp add: override_map_def active_overrides_def rows_def[symmetric] fz_def[symmetric] fold_map comp_def)
  have rows: "c \<in> set rows \<longleftrightarrow> (\<exists>i. jget (cd_commands db) i = Some c) \<and> cc_tenant c = tenant \<and> in_force now c" for c
    using control_okD(1)[OF assms] by (force simp: rows_def visible_def)
  have same: "cc_setpoint c = cc_setpoint d"
    if in_rows: "c \<in> set rows" "d \<in> set rows" and zone: "cc_zone c = cc_zone d" for c d
  proof -
    obtain i j where ij: "jget (cd_commands db) i = Some c" "jget (cd_commands db) j = Some d"
      using in_rows unfolding rows by blast
    have "cc_tenant c = cc_tenant d" "in_force now c" "in_force now d" using in_rows unfolding rows by simp_all
    then have "i = j" using assms ij zone unfolding control_ok_def by blast
    then show ?thesis using ij by simp
  qed
  have inj: "inj_on cc_zone (set fz)" using first_per_zone_zones(1)[of "[]" rows] by (simp add: fz_def distinct_map)
  have get: "jget (override_map tenant now db) z = Some v \<longleftrightarrow> (\<exists>d \<in> set fz. cc_zone d = z \<and> v = cc_setpoint d)"
  proof (cases "z \<in> cc_zone ` set fz")
    case True
    then obtain d where d: "d \<in> set fz" "z = cc_zone d" by blast
    have "jget (override_map tenant now db) z = Some (cc_setpoint d)"
      unfolding map d(2) by (rule jget_fold_jset[OF inj d(1)])
    then show ?thesis using d inj by (auto simp: inj_on_def)
  next
    case False
    then show ?thesis unfolding map by (auto simp: jget_fold_jset_other)
  qed
  show ?thesis
  proof
    assume "jget (override_map tenant now db) z = Some v"
    then obtain d where "d \<in> set fz" "cc_zone d = z" "v = cc_setpoint d" unfolding get by blast
    moreover have "d \<in> set rows" using calculation(1) first_per_zone_zones(3)[of "[]" rows] by (auto simp: fz_def)
    ultimately show "\<exists>i c. jget (cd_commands db) i = Some c \<and> cc_tenant c = tenant \<and> cc_zone c = z \<and> in_force now c \<and> v = cc_setpoint c"
      unfolding rows by blast
  next
    assume "\<exists>i c. jget (cd_commands db) i = Some c \<and> cc_tenant c = tenant \<and> cc_zone c = z \<and> in_force now c \<and> v = cc_setpoint c"
    then obtain c where c: "c \<in> set rows" "cc_zone c = z" "v = cc_setpoint c" unfolding rows by blast
    then have "z \<in> cc_zone ` set fz" using first_per_zone_zones(2)[of "[]" rows] by (auto simp: fz_def)
    then obtain d where d: "d \<in> set fz" "cc_zone d = z" by blast
    moreover have "d \<in> set rows" using d(1) first_per_zone_zones(3)[of "[]" rows] by (auto simp: fz_def)
    ultimately show "jget (override_map tenant now db) z = Some v" using same[OF c(1), of d] c(2,3) unfolding get by auto
  qed
qed

text \<open>C14: An applied command moves the building, and only while it is in force: after a poll that goes through, the
  setpoint that a point of a zone reports is the one of the tenant's command in force for that zone, and the
  designed one, or 23 degrees, when there is none; nothing has to revert an override that ends.\<close>
theorem commands_drive_setpoint:
  assumes "control_ok now db" "now \<le> pv_report_now pv" "pv_report_now pv \<le> pv_read_now pv"
    and "pv_outcome pv = PollsThrough" "poll_tenant pv tenant ctx db = (ctx', db')"
    and "sn_metric s = setpoint_temp_c" "sn_zone s = Some z"
  shows "fst (generate ctx' s m draw acc hours) =
    (case filter (\<lambda>(i, c). cc_tenant c = tenant \<and> cc_zone c = z \<and> in_force (pv_read_now pv) c) (cd_commands db') of
       (i, c) # _ \<Rightarrow> cc_setpoint c
     | [] \<Rightarrow> or_else 23 (map_option sz_setpoint (zone_of ctx s)))"
proof -
  obtain commands w db1 where claim: "claim_for_gateway (pv_detail pv) tenant ''device-simulator'' 25 (pv_expire_now pv) (pv_claim_now pv)
      (pv_locked pv) (pv_recheck pv) db = (commands, w, db1)" by (metis prod.collapse)
  have p: "db' = gateway_applies tenant (pv_report_now pv) commands db1"
    "ctx' = ctx\<lparr>sx_overrides := override_map tenant (pv_read_now pv) db'\<rparr>"
    using assms(4,5) claim by (auto simp: poll_tenant_def Let_def)
  have "control_ok now db1"
    using claim_for_gateway_ok[OF assms(1), of "pv_detail pv" tenant "''device-simulator''" 25 "pv_expire_now pv" "pv_claim_now pv"
        "pv_locked pv" "pv_recheck pv"] by (simp add: claim)
  then have ok: "control_ok (pv_read_now pv) db'"
    unfolding p(1) by (rule control_ok_later[OF gateway_applies_ok[OF _ assms(2)] assms(3)])
  let ?live = "filter (\<lambda>(i, c). cc_tenant c = tenant \<and> cc_zone c = z \<and> in_force (pv_read_now pv) c) (cd_commands db')"
  have v: "fst (generate ctx' s m draw acc hours) =
      (case jget (override_map tenant (pv_read_now pv) db') z of Some v \<Rightarrow> v
       | None \<Rightarrow> or_else 23 (map_option sz_setpoint (zone_of ctx s)))"
    using assms(6,7) unfolding p(2)
    by (simp add: generate_def setpoint_of_def effective_setpoint_def zone_of_def or_else_def Let_def split: option.split)
  show ?thesis
  proof (cases ?live)
    case Nil
    have "jget (override_map tenant (pv_read_now pv) db') z = None"
    proof (rule ccontr)
      assume "jget (override_map tenant (pv_read_now pv) db') z \<noteq> None"
      then obtain i c where "jget (cd_commands db') i = Some c" "cc_tenant c = tenant" "cc_zone c = z" "in_force (pv_read_now pv) c"
        using override_map_get[OF ok, of tenant z] by auto
      then have "(i, c) \<in> set ?live" by (auto dest: map_of_SomeD)
      then show False using Nil by simp
    qed
    then show ?thesis unfolding v Nil by simp
  next
    case (Cons e es)
    obtain i c where e: "e = (i, c)" by (cases e)
    have "(i, c) \<in> set ?live" unfolding Cons e by simp
    then have "jget (cd_commands db') i = Some c" "cc_tenant c = tenant" "cc_zone c = z" "in_force (pv_read_now pv) c"
      using control_okD(1)[OF ok] by auto
    then have "jget (override_map tenant (pv_read_now pv) db') z = Some (cc_setpoint c)"
      using override_map_get[OF ok, of tenant z "cc_setpoint c"] by blast
    then show ?thesis unfolding v Cons e by simp
  qed
qed

lemma tick_sensor_paced:
  assumes "tick_sensor env now cs fs s (o1, s1) = (o2, s2)" "reports_of (sn_id s) o1 = []"
  shows "(reports_of (sn_id s) o2 = [] \<and> st_last_emit (state_of s s2) = st_last_emit (state_of s s1)) \<or>
    (\<exists>v. reports_of (sn_id s) o2 = [(v, now)] \<and> st_last_emit (state_of s s2) = now \<and>
       report_interval (tk_speedup env) s \<le> of_int (now - st_last_emit (state_of s s1)) \<and>
       map_option ft_kind (jget fs (sn_id s)) \<noteq> Some OfflineFault)"
proof (cases "jget cs (sn_tenant s)")
  case None
  then show ?thesis using assms by (simp add: tick_sensor_def)
next
  case (Some ctx)
  then show ?thesis
    using assms by (auto simp: tick_sensor_def Let_def case_prod_beta reports_of_def split: if_splits)
qed

lemma sim_tick_paced:
  assumes "sim_tick env now g sim = (out, sim1)" "distinct (map sn_id (registry_all g))" "s \<in> set (registry_all g)"
  shows "(reports_of (sn_id s) out = [] \<and> st_last_emit (state_of s (sm_state sim1)) = st_last_emit (state_of s (sm_state sim))) \<or>
    (\<exists>v. reports_of (sn_id s) out = [(v, now)] \<and> st_last_emit (state_of s (sm_state sim1)) = now \<and>
       report_interval (tk_speedup env) s \<le> of_int (now - st_last_emit (state_of s (sm_state sim))) \<and>
       map_option ft_kind (jget (sm_faults sim) (sn_id s)) \<noteq> Some OfflineFault)"
proof (cases "sm_contexts sim = []")
  case True
  then show ?thesis using assms(1) by (simp add: sim_tick_def reports_of_def)
next
  case False
  show ?thesis
  proof (rule sim_tick_own[OF assms False])
    fix o1 s1 o2 s2
    assume own: "tick_sensor env now (sm_contexts sim) (sm_faults sim) s (o1, s1) = (o2, s2)"
      "jget s1 (sn_id s) = jget (sm_state sim) (sn_id s)" "reports_of (sn_id s) o1 = []"
      "jget (sm_state sim1) (sn_id s) = jget s2 (sn_id s)" "reports_of (sn_id s) out = reports_of (sn_id s) o2"
    show ?thesis
      using tick_sensor_paced[OF own(1,3)] unfolding own(5) state_of_same[OF own(2)] state_of_same[OF own(4)] .
  qed
qed

text \<open>A point never reports faster than its interval, compressed by the speed-up and never below 200 milliseconds,
  and not at all while its fault is to be offline.\<close>
theorem reports_paced:
  assumes "distinct (map sn_id (registry_all g))" "s \<in> set (registry_all g)" "\<forall>t \<in> set ticks. tk_speedup (fst t) = speedup"
  shows "sorted_wrt (\<lambda>t u. report_interval speedup s \<le> of_int (u - t))
      (st_last_emit (state_of s (sm_state sim)) # map snd (reports_of (sn_id s) (fst (sim_run ticks g sim)))) \<and>
    (map_option ft_kind (jget (sm_faults sim) (sn_id s)) = Some OfflineFault \<longrightarrow> reports_of (sn_id s) (fst (sim_run ticks g sim)) = [])"
  using assms(3)
proof (induction ticks arbitrary: sim)
  case (Cons t ticks)
  obtain env now where t: "t = (env, now)" by fastforce
  obtain out sim1 where tick: "sim_tick env now g sim = (out, sim1)" by fastforce
  have sp: "tk_speedup env = speedup" using Cons.prems by (simp add: t)
  have IH: "sorted_wrt (\<lambda>t u. report_interval speedup s \<le> of_int (u - t))
      (st_last_emit (state_of s (sm_state sim1)) # map snd (reports_of (sn_id s) (fst (sim_run ticks g sim1)))) \<and>
    (map_option ft_kind (jget (sm_faults sim1) (sn_id s)) = Some OfflineFault \<longrightarrow> reports_of (sn_id s) (fst (sim_run ticks g sim1)) = [])"
    using Cons by simp
  have same: "sm_faults sim1 = sm_faults sim" using sim_tick_frame(1)[of env now g sim] tick by simp
  have run: "fst (sim_run (t # ticks) g sim) = out @ fst (sim_run ticks g sim1)"
    using tick by (simp add: t case_prod_beta Let_def)
  have later: "report_interval speedup s \<le> of_int (u - a)"
    if "report_interval speedup s \<le> of_int (u - b)" "report_interval speedup s \<le> of_int (b - a)" for u b a :: int
  proof -
    have "(of_int (u - a) :: rat) = of_int (u - b) + of_int (b - a)" by simp
    then show ?thesis using that report_interval_pos[of speedup s] by linarith
  qed
  show ?case
    using sim_tick_paced[OF tick assms(1,2)]
  proof (elim disjE exE conjE)
    assume "reports_of (sn_id s) out = []" "st_last_emit (state_of s (sm_state sim1)) = st_last_emit (state_of s (sm_state sim))"
    then show ?thesis using IH unfolding run same by simp
  next
    fix v
    assume "reports_of (sn_id s) out = [(v, now)]" "st_last_emit (state_of s (sm_state sim1)) = now"
      "report_interval (tk_speedup env) s \<le> of_int (now - st_last_emit (state_of s (sm_state sim)))"
      "map_option ft_kind (jget (sm_faults sim) (sn_id s)) \<noteq> Some OfflineFault"
    then show ?thesis using IH later unfolding run same sp by fastforce
  qed
qed (simp add: reports_of_def)

subsection \<open>Finding: a fault outlives a restart\<close>

text \<open>A counter resumes from the last stored reading, and what is stored is the reading after its fault: a meter that
  reported through a spike of less than one resumes from the lowered value and so rewinds.\<close>

lemma restart_keeps_spike:
  assumes "sn_is_cumulative s" "s \<in> set (registry_all g)" "distinct (map sn_id (registry_all g))"
    and "last_stored rows s = Some (apply_fault v (Some \<lparr>ft_kind = Spike, ft_magnitude = q, ft_started_at = t\<rparr>) st now)"
    and "0 < v" "q < 1"
  shows "counter_of s (sm_state (resume_counters rows g sim)) < v"
proof -
  have inj: "inj_on sn_id (set (filter sn_is_cumulative (registry_all g)))"
    using assms(3) by (auto simp: distinct_map inj_on_def)
  have "state_of s (sm_state (resume_counters rows g sim)) =
      \<lparr>st_last_emit = 0, st_last_value = None, st_accumulator = or_else (seed_accumulator s) (last_stored rows s)\<rparr>"
    using assms(1,2) by (simp add: resume_counters_def state_of_def jget_fold_jset[OF inj])
  moreover have "v * q < v" using assms(5,6) by simp
  ultimately show ?thesis by (simp add: counter_of_def assms(4) or_else_def apply_fault_def)
qed

subsection \<open>A sample building\<close>

definition sample_point :: "string \<Rightarrow> metric_type \<Rightarrow> sensor" where
  "sample_point i m = (sample_sensor i ''t1'' i)\<lparr>sn_metric := m, sn_is_cumulative := (m = energy_kwh), sn_zone := Some ''z1''\<rparr>"

definition sample_site :: registry where
  "sample_site = (mk_registry default_registry_options)
     \<lparr>rg_maps := add_row (sample_point ''b2'' energy_kwh) (add_row (sample_point ''a1'' setpoint_temp_c) empty_maps)\<rparr>"

definition sample_rows_of :: sim_rows where
  "sample_rows_of = \<lparr>sr_timezones = [''Asia/Dubai''], sr_zones = [(''z1'', Office, Some 10, Some 24, None)], sr_equipment = [], sr_days = []\<rparr>"

definition sample_sim :: simulator where
  "sample_sim = \<lparr>sm_contexts = [(''t1'', load_sim_context sample_rows_of)], sm_state = [], sm_faults = [], sm_emitted = 0\<rparr>"

definition sample_tick_env :: sim_tick_env where
  "sample_tick_env = \<lparr>tk_local = \<lambda>_. (24, 30, ''Sun''), tk_sine = \<lambda>_. 0, tk_draws = \<lambda>_ _. 1 / 2, tk_speedup = 10\<rparr>"

lemma sample_site_all: "registry_all sample_site = [sample_point ''a1'' setpoint_temp_c, sample_point ''b2'' energy_kwh]"
  by (simp add: registry_all_def sample_site_def add_row_def empty_maps_def sample_point_def sample_sensor_def mk_registry_def)

lemma sample_site_ids: "distinct (map sn_id (registry_all sample_site))"
  by (simp add: sample_site_all sample_point_def sample_sensor_def)

theorem synthetic_values_plausible_witness:
  "plausible_value (load_sim_context sample_rows_of) (sample_point ''b2'' co2_ppm) 0
     (fst (generate (load_sim_context sample_rows_of) (sample_point ''b2'' co2_ppm) \<lparr>mo_hour = 12, mo_day = Weekday, mo_sine = \<lambda>_. 0\<rparr>
       (\<lambda>_. 1 / 2) 0 1))"
  by (rule synthetic_values_plausible) (simp_all add: equipment_of_def load_sim_context_def sample_rows_of_def)

theorem counters_never_rewind_witness:
  "sorted_wrt (<) (1250000 # map fst (reports_of ''b2'' (fst (sim_run [(sample_tick_env, 100000), (sample_tick_env, 90000), (sample_tick_env, 200000)]
     sample_site sample_sim))))"
  using counters_never_rewind[OF sample_site_ids, of "sample_point ''b2'' energy_kwh" sample_sim
      "[(sample_tick_env, 100000), (sample_tick_env, 90000), (sample_tick_env, 200000)]"]
  by (simp only: sample_site_all) (simp add: sample_point_def sample_sensor_def sample_sim_def counter_of_def state_of_def seed_accumulator_def)

theorem reports_paced_witness:
  "sorted_wrt (\<lambda>t u. report_interval 10 (sample_point ''a1'' setpoint_temp_c) \<le> of_int (u - t))
     (0 # map snd (reports_of ''a1'' (fst (sim_run [(sample_tick_env, 100000), (sample_tick_env, 101000)] sample_site sample_sim))))"
  using reports_paced[OF sample_site_ids, of "sample_point ''a1'' setpoint_temp_c" "[(sample_tick_env, 100000), (sample_tick_env, 101000)]" 10 sample_sim]
  by (simp only: sample_site_all)
    (simp add: sample_point_def sample_sensor_def sample_sim_def state_of_def sample_tick_env_def)

definition sample_poll_env :: poll_env where
  "sample_poll_env = \<lparr>pv_outcome = PollsThrough, pv_detail = \<lambda>_. ''withheld'', pv_expire_now = 1002000, pv_claim_now = 1002000,
     pv_locked = [], pv_recheck = \<lambda>_. sample_recheck_env, pv_report_now = 1002001, pv_read_now = 1002002\<rparr>"

theorem commands_drive_setpoint_witness:
  "fst (generate (fst (poll_tenant sample_poll_env ''t1'' (load_sim_context sample_rows_of) sample_queued_db)) (sample_point ''a1'' setpoint_temp_c)
     \<lparr>mo_hour = 12, mo_day = Weekday, mo_sine = \<lambda>_. 0\<rparr> (\<lambda>_. 1 / 2) 0 1) = cc_setpoint sample_row"
proof -
  have ok: "control_ok 1000001 sample_queued_db"
    using control_reach_ok[OF sample_queued_reach] by (simp add: sample_queued_def sample_judged_state_def sample_start_def)
  have claimed: "claim_for_gateway (\<lambda>_. ''withheld'') ''t1'' ''device-simulator'' 25 1002000 1002000 [] (\<lambda>_. sample_recheck_env) sample_queued_db =
     ([(''c1'', claimed_row 1002000 ''device-simulator'' sample_row)], 0,
      sample_queued_db\<lparr>cd_commands := [(''c1'', claimed_row 1002000 ''device-simulator'' sample_row)]\<rparr>)"
    by (simp add: claim_for_gateway_def expire_stale_def claim_commands_def claim_ids_def update_where_def collectable_def
        get_command_def List.map_filter_def recheck_context_def claimed_row_def sample_queued_db_def sample_rows control_eval
        sample_row_eval)
  have applied: "cd_commands (snd (poll_tenant sample_poll_env ''t1'' ctx sample_queued_db)) =
      [(''c1'', settle_row OutcomeApplied (Some ''applied by the in-process device simulator'') 1002001
        (claimed_row 1002000 ''device-simulator'' sample_row))]" for ctx
    by (simp add: poll_tenant_def sample_poll_env_def claimed gateway_applies_def report_result_def settle_command_def update_where_def
        get_command_def supersede_def claimed_row_def settle_row_def sample_row_eval Let_def)
  have "fst (generate (fst (poll_tenant sample_poll_env ''t1'' (load_sim_context sample_rows_of) sample_queued_db)) (sample_point ''a1'' setpoint_temp_c)
     \<lparr>mo_hour = 12, mo_day = Weekday, mo_sine = \<lambda>_. 0\<rparr> (\<lambda>_. 1 / 2) 0 1) =
    (case filter (\<lambda>(i, c). cc_tenant c = ''t1'' \<and> cc_zone c = ''z1'' \<and> in_force 1002002 c)
        (cd_commands (snd (poll_tenant sample_poll_env ''t1'' (load_sim_context sample_rows_of) sample_queued_db))) of
       (i, c) # _ \<Rightarrow> cc_setpoint c
     | [] \<Rightarrow> or_else 23 (map_option sz_setpoint (zone_of (load_sim_context sample_rows_of) (sample_point ''a1'' setpoint_temp_c))))"
    using commands_drive_setpoint[OF ok, of sample_poll_env "''t1''" "load_sim_context sample_rows_of" _ _ "sample_point ''a1'' setpoint_temp_c" "''z1''"]
    by (simp add: sample_poll_env_def sample_point_def)
  then show ?thesis
    unfolding applied by (simp add: in_force_def settle_row_def claimed_row_def sample_row_eval)
qed

end
