(* ===== verification/Writer.thy ===== *)
theory Writer
  imports Contracts "HOL-Library.Multiset"
begin

section \<open>The batching writer (apps/ingest/src/writer.ts)\<close>

text \<open>
  \<open>TelemetryWriter\<close>: one buffer for every tenant, flushed in one transaction per tenant. A flush
  awaits the database, so it is a sequence of events: it begins (swapping the buffer out), commits
  one group at a time, stamps the touched sensors, and succeeds, or fails at any await and puts the
  batch back. The locals of a running flush are a \<open>flight\<close>. The database side is \<open>insertReadings\<close>
  (packages/db/src/queries/telemetry.ts): a row is keyed by sensor and time, the first write wins, and
  a reading joins only a sensor of the tenant in scope. The key string \<open>sensorId:ts\<close> is the pair: a
  decimal number has no colon.
\<close>

record owned_reading = reading +
  rd_tenant :: string

subsection \<open>The table\<close>

record telemetry_row =
  tw_tenant :: string
  tw_value :: jsnum
  tw_quality :: quality

record store =
  st_rows :: "(string \<times> ms, telemetry_row) jsmap"
  st_owner :: "string \<Rightarrow> string option"
  st_seen :: "(string, ms) jsmap"

type_synonym row_key = "string \<times> ms"

definition reading_key :: "owned_reading \<Rightarrow> row_key" where
  "reading_key r = (rd_sensor r, rd_ts r)"

definition insert_row :: "string \<Rightarrow> owned_reading \<Rightarrow> store \<Rightarrow> int \<times> store" where
  "insert_row tenant r s =
     (if st_owner s (rd_sensor r) = Some tenant \<and> jget (st_rows s) (reading_key r) = None
      then (1, s\<lparr>st_rows := jset (reading_key r)
             \<lparr>tw_tenant = tenant, tw_value = rd_value r, tw_quality = rd_quality r\<rparr> (st_rows s)\<rparr>)
      else (0, s))"

fun insert_readings :: "string \<Rightarrow> owned_reading list \<Rightarrow> store \<Rightarrow> int \<times> store" where
  "insert_readings tenant [] s = (0, s)"
| "insert_readings tenant (r # rs) s =
     (let (k, s1) = insert_row tenant r s; (n, s2) = insert_readings tenant rs s1 in (k + n, s2))"

subsection \<open>Batches\<close>

definition dedupe :: "owned_reading list \<Rightarrow> owned_reading list" where
  "dedupe rs =
     (if length rs < 2 then rs
      else map snd (fold (\<lambda>r m. jset (reading_key r) r m) rs []))"

definition group_add :: "owned_reading \<Rightarrow> (string, owned_reading list) jsmap \<Rightarrow> (string, owned_reading list) jsmap" where
  "group_add r m =
     (case jget m (rd_tenant r) of
        Some list \<Rightarrow> jset (rd_tenant r) (list @ [r]) m
      | None \<Rightarrow> jset (rd_tenant r) [r] m)"

definition group_by_tenant :: "owned_reading list \<Rightarrow> (string, owned_reading list) jsmap" where
  "group_by_tenant rs = fold group_add rs []"

definition touch :: "string \<Rightarrow> string \<Rightarrow> (string, string list) jsmap \<Rightarrow> (string, string list) jsmap" where
  "touch tenant sensor_id m =
     jset tenant (sadd sensor_id (case jget m tenant of None \<Rightarrow> [] | Some ids \<Rightarrow> ids)) m"

subsection \<open>State\<close>

record flight =
  fl_batch :: "owned_reading list"
  fl_touched :: "(string, string list) jsmap"
  fl_started :: ms
  fl_groups :: "(string, owned_reading list) jsmap"
  fl_marks :: "(string, string list) jsmap"
  fl_written :: int

record writer =
  wr_buffer :: "owned_reading list"
  wr_flushing :: bool
  wr_touched :: "(string, string list) jsmap"
  wr_flight :: "flight option"
  wr_written :: int
  wr_dropped :: nat
  wr_flushes :: int
  wr_failed_flushes :: int
  wr_last_error :: "string option"
  wr_last_flush_ms :: "ms option"
  wr_max_rows :: nat
  wr_flush_rows :: nat

definition mk_writer :: "nat \<Rightarrow> nat \<Rightarrow> writer" where
  "mk_writer max_rows flush_rows = \<lparr>wr_buffer = [], wr_flushing = False, wr_touched = [],
     wr_flight = None, wr_written = 0, wr_dropped = 0, wr_flushes = 0, wr_failed_flushes = 0,
     wr_last_error = None, wr_last_flush_ms = None, wr_max_rows = max_rows, wr_flush_rows = flush_rows\<rparr>"

subsection \<open>Operations\<close>

definition shed_oldest :: "writer \<Rightarrow> writer" where
  "shed_oldest w =
     (let overflow = length (wr_buffer w) - wr_max_rows w in
      if overflow > 0
      then w\<lparr>wr_buffer := drop overflow (wr_buffer w), wr_dropped := wr_dropped w + overflow\<rparr>
      else w)"

definition flush_begin :: "ms \<Rightarrow> writer \<Rightarrow> writer" where
  "flush_begin now w =
     (if wr_flushing w \<or> wr_buffer w = [] then w
      else w\<lparr>wr_flushing := True,
             wr_flight := Some \<lparr>fl_batch = wr_buffer w, fl_touched = wr_touched w, fl_started = now,
               fl_groups = group_by_tenant (dedupe (wr_buffer w)), fl_marks = wr_touched w, fl_written = 0\<rparr>,
             wr_buffer := [], wr_touched := []\<rparr>)"

definition enqueue :: "ms \<Rightarrow> owned_reading list \<Rightarrow> writer \<Rightarrow> writer" where
  "enqueue now rs w =
     (let w1 = w\<lparr>wr_buffer := wr_buffer w @ rs,
                 wr_touched := fold (\<lambda>r. touch (rd_tenant r) (rd_sensor r)) rs (wr_touched w)\<rparr>;
          w2 = shed_oldest w1
      in if length (wr_buffer w2) \<ge> wr_flush_rows w2 then flush_begin now w2 else w2)"

text \<open>The transaction of the next tenant commits.\<close>

definition flush_commit :: "writer \<Rightarrow> store \<Rightarrow> writer \<times> store" where
  "flush_commit w s =
     (case wr_flight w of
        Some fl \<Rightarrow>
          (case fl_groups fl of
             (tenant, rows) # rest \<Rightarrow>
               let (n, s') = insert_readings tenant rows s in
               (w\<lparr>wr_flight := Some (fl\<lparr>fl_groups := rest, fl_written := fl_written fl + n\<rparr>)\<rparr>, s')
           | [] \<Rightarrow> (w, s))
      | None \<Rightarrow> (w, s))"

text \<open>One statement of \<open>markSeen\<close>: the touched sensors of the next tenant that are its own.\<close>

definition flush_mark :: "ms \<Rightarrow> writer \<Rightarrow> store \<Rightarrow> writer \<times> store" where
  "flush_mark now w s =
     (case wr_flight w of
        Some fl \<Rightarrow>
          (case (fl_groups fl, fl_marks fl) of
             ([], (tenant, ids) # rest) \<Rightarrow>
               (w\<lparr>wr_flight := Some (fl\<lparr>fl_marks := rest\<rparr>)\<rparr>,
                if ids = [] then s
                else s\<lparr>st_seen := fold (\<lambda>i m. if st_owner s i = Some tenant then jset i now m else m) ids (st_seen s)\<rparr>)
           | _ \<Rightarrow> (w, s))
      | None \<Rightarrow> (w, s))"

definition flush_succeed :: "ms \<Rightarrow> writer \<Rightarrow> writer" where
  "flush_succeed now w =
     (case wr_flight w of
        Some fl \<Rightarrow>
          if fl_groups fl = [] \<and> fl_marks fl = []
          then w\<lparr>wr_written := wr_written w + fl_written fl, wr_flushes := wr_flushes w + 1,
                 wr_last_error := None, wr_last_flush_ms := Some (now - fl_started fl),
                 wr_flushing := False, wr_flight := None\<rparr>
          else w
      | None \<Rightarrow> w)"

definition flush_fail :: "string \<Rightarrow> writer \<Rightarrow> writer" where
  "flush_fail message w =
     (case wr_flight w of
        Some fl \<Rightarrow>
          let w1 = w\<lparr>wr_failed_flushes := wr_failed_flushes w + 1, wr_last_error := Some message,
                     wr_buffer := fl_batch fl @ wr_buffer w,
                     wr_touched := fold (\<lambda>(tenant, ids) m.
                         fold (touch tenant) ids
                           (if jget m tenant = None then jset tenant [] m else m))
                       (fl_touched fl) (wr_touched w)\<rparr>
          in (shed_oldest w1)\<lparr>wr_flushing := False, wr_flight := None\<rparr>
      | None \<Rightarrow> w)"

subsection \<open>Events\<close>

datatype writer_event =
    WEnqueue ms "owned_reading list" | WTimer ms | WCommit | WMark ms | WSucceed ms | WFail string

fun writer_step :: "writer_event \<Rightarrow> writer \<times> store \<Rightarrow> writer \<times> store" where
  "writer_step (WEnqueue now rs) (w, s) = (enqueue now rs w, s)"
| "writer_step (WTimer now) (w, s) = (flush_begin now w, s)"
| "writer_step WCommit (w, s) = flush_commit w s"
| "writer_step (WMark now) (w, s) = flush_mark now w s"
| "writer_step (WSucceed now) (w, s) = (flush_succeed now w, s)"
| "writer_step (WFail message) (w, s) = (flush_fail message w, s)"

fun enqueued :: "writer_event list \<Rightarrow> owned_reading list" where
  "enqueued [] = []"
| "enqueued (WEnqueue now rs # evs) = rs @ enqueued evs"
| "enqueued (_ # evs) = enqueued evs"

subsection \<open>The table\<close>

lemma insert_readings_fold:
  "snd (insert_readings t rs s) = fold (\<lambda>r s. snd (insert_row t r s)) rs s"
  by (induction rs arbitrary: s) (simp_all add: Let_def case_prod_unfold)

lemma insert_row_owner [simp]: "st_owner (snd (insert_row t r s)) = st_owner s"
  by (simp add: insert_row_def)

lemma insert_row_keeps:
  "jget (st_rows s) k = Some row \<Longrightarrow> jget (st_rows (snd (insert_row t r s))) k = Some row"
  by (auto simp: insert_row_def)

lemma insert_row_stores:
  "st_owner s (rd_sensor r) = Some t \<Longrightarrow> jget (st_rows (snd (insert_row t r s))) (reading_key r) \<noteq> None"
  by (simp add: insert_row_def)

text \<open>Every row belongs to its sensor's tenant.\<close>

definition store_ok :: "store \<Rightarrow> bool" where
  "store_ok s = (\<forall>k row. jget (st_rows s) k = Some row \<longrightarrow> st_owner s (fst k) = Some (tw_tenant row))"

lemma insert_row_ok: "store_ok s \<Longrightarrow> store_ok (snd (insert_row t r s))"
  by (auto simp: store_ok_def insert_row_def reading_key_def split: if_splits)

lemma insert_owner [simp]: "st_owner (snd (insert_readings t rs s)) = st_owner s"
  unfolding insert_readings_fold by (induction rs arbitrary: s) simp_all

lemma insert_keeps:
  "jget (st_rows s) k = Some row \<Longrightarrow> jget (st_rows (snd (insert_readings t rs s))) k = Some row"
  unfolding insert_readings_fold by (induction rs arbitrary: s) (simp_all add: insert_row_keeps)

lemma insert_stores:
  "r \<in> set rs \<Longrightarrow> st_owner s (rd_sensor r) = Some t \<Longrightarrow>
   jget (st_rows (snd (insert_readings t rs s))) (reading_key r) \<noteq> None"
proof (induction rs arbitrary: s)
  case (Cons q rs)
  have step: "snd (insert_readings t (q # rs) s) = snd (insert_readings t rs (snd (insert_row t q s)))"
    unfolding insert_readings_fold by simp
  show ?case
  proof (cases "r = q")
    case True
    then obtain row where "jget (st_rows (snd (insert_row t q s))) (reading_key r) = Some row"
      using insert_row_stores Cons.prems(2) by blast
    then show ?thesis unfolding step using insert_keeps by fastforce
  next
    case False
    then show ?thesis unfolding step using Cons by simp
  qed
qed simp

lemma insert_ok: "store_ok s \<Longrightarrow> store_ok (snd (insert_readings t rs s))"
  unfolding insert_readings_fold by (induction rs arbitrary: s) (simp_all add: insert_row_ok)

text \<open>Writing what is already there changes nothing and counts nothing.\<close>

lemma insert_known:
  "\<forall>r \<in> set rs. st_owner s (rd_sensor r) = Some t \<longrightarrow> jget (st_rows s) (reading_key r) \<noteq> None \<Longrightarrow>
   insert_readings t rs s = (0, s)"
  by (induction rs) (auto simp: insert_row_def)

subsection \<open>Batches\<close>

text \<open>\<open>dedupe\<close>: one reading for each key of the batch, the last one, where the key first appeared.\<close>

definition last_with :: "row_key \<Rightarrow> owned_reading list \<Rightarrow> owned_reading" where
  "last_with k rs = last (filter (\<lambda>r. reading_key r = k) rs)"

fun first_keys :: "owned_reading list \<Rightarrow> row_key list" where
  "first_keys [] = []"
| "first_keys (r # rs) = reading_key r # removeAll (reading_key r) (first_keys rs)"

lemma first_keys_append:
  "first_keys (rs @ [r]) = sadd (reading_key r) (first_keys rs)"
  by (induction rs) (auto simp: sadd_def)

lemma set_first_keys: "set (first_keys rs) = reading_key ` set rs"
  by (induction rs) auto

lemma distinct_first_keys: "distinct (first_keys rs)"
  by (induction rs) (auto simp: distinct_removeAll)

lemma jset_new: "k \<notin> set ks \<Longrightarrow> jset k v (map (\<lambda>k. (k, g k)) ks) = map (\<lambda>k. (k, g k)) ks @ [(k, v)]"
  by (induction ks) auto

lemma jset_old:
  "k \<in> set ks \<Longrightarrow> distinct ks \<Longrightarrow>
   jset k v (map (\<lambda>k. (k, g k)) ks) = map (\<lambda>j. (j, if j = k then v else g j)) ks"
  by (induction ks) (auto intro: map_cong)

lemma dedupe_map:
  "fold (\<lambda>r m. jset (reading_key r) r m) rs [] = map (\<lambda>k. (k, last_with k rs)) (first_keys rs)"
proof (induction rs rule: rev_induct)
  case (snoc r rs)
  have lw: "last_with k (rs @ [r]) = (if k = reading_key r then r else last_with k rs)" for k
    by (auto simp: last_with_def)
  show ?case
  proof (cases "reading_key r \<in> set (first_keys rs)")
    case True
    then show ?thesis
      using snoc by (simp add: first_keys_append sadd_def jset_old distinct_first_keys lw)
  next
    case False
    then have "map (\<lambda>k. (k, last_with k (rs @ [r]))) (first_keys rs) = map (\<lambda>k. (k, last_with k rs)) (first_keys rs)"
      using False by (auto simp: lw)
    then show ?thesis using snoc False by (simp add: first_keys_append sadd_def jset_new lw)
  qed
qed simp

lemma dedupe_eq: "dedupe rs = map (\<lambda>k. last_with k rs) (first_keys rs)"
proof (cases "length rs < 2")
  case True
  then consider "rs = []" | r where "rs = [r]" by (cases rs; cases "tl rs") auto
  then show ?thesis by cases (simp_all add: dedupe_def last_with_def)
qed (simp add: dedupe_def dedupe_map comp_def)

lemma last_with_in: "k \<in> reading_key ` set rs \<Longrightarrow> last_with k rs \<in> set rs \<and> reading_key (last_with k rs) = k"
proof -
  assume "k \<in> reading_key ` set rs"
  then have "filter (\<lambda>r. reading_key r = k) rs \<noteq> []" by (auto simp: filter_empty_conv)
  then have "last (filter (\<lambda>r. reading_key r = k) rs) \<in> set (filter (\<lambda>r. reading_key r = k) rs)" by (rule last_in_set)
  then show ?thesis by (simp add: last_with_def)
qed

lemma dedupe_set: "set (dedupe rs) \<subseteq> set rs"
  using last_with_in by (auto simp: dedupe_eq set_first_keys)

lemma dedupe_keys: "map reading_key (dedupe rs) = first_keys rs"
  using last_with_in by (auto simp: dedupe_eq set_first_keys intro!: map_idI)

text \<open>\<open>groupByTenant\<close>: each group is one tenant's readings in order, and every reading is in its group.\<close>

lemma group_get:
  "jget (fold group_add rs m) t =
     (let own = filter (\<lambda>r. rd_tenant r = t) rs in
      case jget m t of None \<Rightarrow> if own = [] then None else Some own | Some old \<Rightarrow> Some (old @ own))"
  by (induction rs arbitrary: m) (auto simp: group_add_def Let_def split: option.splits)

lemma group_jwf: "jwf m \<Longrightarrow> jwf (fold group_add rs m)"
  by (induction rs arbitrary: m) (auto simp: group_add_def split: option.splits)

lemma group_entry:
  "(t, rows) \<in> set (group_by_tenant rs) \<longleftrightarrow> rows = filter (\<lambda>r. rd_tenant r = t) rs \<and> rows \<noteq> []"
proof -
  have "(t, rows) \<in> set (group_by_tenant rs) \<longleftrightarrow> jget (group_by_tenant rs) t = Some rows"
    by (metis group_by_tenant_def group_jwf distinct.simps(1) list.map(1) map_of_eq_Some_iff)
  then show ?thesis by (auto simp: group_by_tenant_def group_get Let_def)
qed

subsection \<open>A flush that is not interrupted\<close>

definition write_groups :: "(string, owned_reading list) jsmap \<Rightarrow> store \<Rightarrow> store" where
  "write_groups gs s = fold (\<lambda>(t, rows) s. snd (insert_readings t rows s)) gs s"

lemma write_groups_pairs:
  "write_groups gs s =
     fold (\<lambda>(t, r) s. snd (insert_row t r s)) (concat (map (\<lambda>(t, rows). map (Pair t) rows) gs)) s"
proof (induction gs arbitrary: s)
  case (Cons g gs)
  have "fold (\<lambda>(t, r) s. snd (insert_row t r s)) (map (Pair t) rows) s =
      fold (\<lambda>r s. snd (insert_row t r s)) rows s" for t rows s
    by (induction rows arbitrary: s) simp_all
  then show ?case using Cons by (cases g) (simp add: write_groups_def insert_readings_fold)
qed (simp add: write_groups_def)

text \<open>The row under a key that at most one of the written readings has.\<close>

lemma fold_insert_row:
  assumes "\<forall>(t, r) \<in> set ps. reading_key r = k \<longrightarrow> (t, r) = (t0, r0)"
  shows "jget (st_rows (fold (\<lambda>(t, r) s. snd (insert_row t r s)) ps s)) k =
    (case jget (st_rows s) k of
       Some row \<Rightarrow> Some row
     | None \<Rightarrow> if (t0, r0) \<in> set ps \<and> reading_key r0 = k \<and> st_owner s (rd_sensor r0) = Some t0
         then Some \<lparr>tw_tenant = t0, tw_value = rd_value r0, tw_quality = rd_quality r0\<rparr> else None)"
  using assms
proof (induction ps arbitrary: s)
  case (Cons p ps)
  obtain t r where p: "p = (t, r)" by (cases p)
  let ?s = "snd (insert_row t r s)"
  have row: "jget (st_rows ?s) k = (if reading_key r = k \<and> st_owner s (rd_sensor r) = Some t \<and> jget (st_rows s) k = None
      then Some \<lparr>tw_tenant = t, tw_value = rd_value r, tw_quality = rd_quality r\<rparr> else jget (st_rows s) k)"
    by (auto simp: insert_row_def)
  have same: "reading_key r = k \<Longrightarrow> t = t0 \<and> r = r0" using Cons.prems p by auto
  have IH: "jget (st_rows (fold (\<lambda>(t, r) s. snd (insert_row t r s)) ps ?s)) k =
    (case jget (st_rows ?s) k of
       Some row \<Rightarrow> Some row
     | None \<Rightarrow> if (t0, r0) \<in> set ps \<and> reading_key r0 = k \<and> st_owner s (rd_sensor r0) = Some t0
         then Some \<lparr>tw_tenant = t0, tw_value = rd_value r0, tw_quality = rd_quality r0\<rparr> else None)"
    using Cons.IH[of ?s, unfolded insert_row_owner] Cons.prems by simp
  show ?case
  proof (cases "reading_key r = k")
    case True
    then show ?thesis using IH row same p by (auto split: option.splits)
  next
    case False
    then have "(t0, r0) \<in> set (p # ps) \<and> reading_key r0 = k \<longleftrightarrow> (t0, r0) \<in> set ps \<and> reading_key r0 = k"
      using p by auto
    then show ?thesis using IH row False p by (auto split: option.splits)
  qed
qed (simp split: option.splits)

lemma last_with_dedupe: "r \<in> set (dedupe rs) \<Longrightarrow> reading_key r = k \<Longrightarrow> r = last_with k rs"
proof -
  assume "r \<in> set (dedupe rs)" and k: "reading_key r = k"
  then obtain k' where k': "k' \<in> reading_key ` set rs" "r = last_with k' rs"
    by (auto simp: dedupe_eq set_first_keys)
  then show ?thesis using last_with_in[OF k'(1)] k by simp
qed

lemma last_with_mem: "k \<in> reading_key ` set rs \<Longrightarrow> last_with k rs \<in> set (dedupe rs)"
  by (auto simp: dedupe_eq set_first_keys)

lemma write_batch_row:
  assumes "k \<in> reading_key ` set rs"
  shows "jget (st_rows (write_groups (group_by_tenant (dedupe rs)) s)) k =
    (case jget (st_rows s) k of
       Some row \<Rightarrow> Some row
     | None \<Rightarrow> let r = last_with k rs in
         if st_owner s (rd_sensor r) = Some (rd_tenant r)
         then Some \<lparr>tw_tenant = rd_tenant r, tw_value = rd_value r, tw_quality = rd_quality r\<rparr> else None)"
proof -
  let ?ps = "concat (map (\<lambda>(t, rows). map (Pair t) rows) (group_by_tenant (dedupe rs)))"
  let ?r = "last_with k rs"
  have mem: "(t, r) \<in> set ?ps \<longleftrightarrow> r \<in> set (dedupe rs) \<and> t = rd_tenant r" for t r
  proof -
    have "(t, r) \<in> set ?ps \<longleftrightarrow> (\<exists>rows. (t, rows) \<in> set (group_by_tenant (dedupe rs)) \<and> r \<in> set rows)"
      by force
    also have "\<dots> \<longleftrightarrow> r \<in> set (filter (\<lambda>r. rd_tenant r = t) (dedupe rs))"
      unfolding group_entry by (auto simp: filter_empty_conv)
    finally show ?thesis by auto
  qed
  have "\<forall>(t, r) \<in> set ?ps. reading_key r = k \<longrightarrow> (t, r) = (rd_tenant ?r, ?r)"
    using mem last_with_dedupe by fastforce
  from fold_insert_row[OF this, of s] show ?thesis
    using last_with_in[OF assms] last_with_mem[OF assms] mem[of "rd_tenant ?r" ?r]
    by (cases "jget (st_rows s) k") (simp_all add: write_groups_pairs Let_def)
qed

text \<open>The events of a flush that runs to its end.\<close>

definition flush_events :: "ms \<Rightarrow> writer \<Rightarrow> writer_event list" where
  "flush_events now w =
     [WTimer now] @ replicate (length (group_by_tenant (dedupe (wr_buffer w)))) WCommit
     @ replicate (length (wr_touched w)) (WMark now) @ [WSucceed now]"

definition mark_all :: "ms \<Rightarrow> (string, string list) jsmap \<Rightarrow> store \<Rightarrow> store" where
  "mark_all now ts s = fold (\<lambda>(tenant, ids) s.
     if ids = [] then s
     else s\<lparr>st_seen := fold (\<lambda>i m. if st_owner s i = Some tenant then jset i now m else m) ids (st_seen s)\<rparr>) ts s"

fun count_groups :: "(string, owned_reading list) jsmap \<Rightarrow> store \<Rightarrow> int" where
  "count_groups [] s = 0"
| "count_groups ((t, rows) # gs) s =
     fst (insert_readings t rows s) + count_groups gs (snd (insert_readings t rows s))"

lemma commits_run:
  "wr_flight w = Some fl \<Longrightarrow>
   fold writer_step (replicate (length (fl_groups fl)) WCommit) (w, s) =
     (w\<lparr>wr_flight := Some (fl\<lparr>fl_groups := [], fl_written := fl_written fl + count_groups (fl_groups fl) s\<rparr>)\<rparr>,
      write_groups (fl_groups fl) s)"
proof (induction "fl_groups fl" arbitrary: fl w s)
  case Nil
  then show ?case by (simp add: write_groups_def)
next
  case (Cons g gs)
  obtain t rows where g: "g = (t, rows)" by (cases g)
  obtain n s1 where ins: "insert_readings t rows s = (n, s1)" by (cases "insert_readings t rows s")
  let ?fl = "fl\<lparr>fl_groups := gs, fl_written := fl_written fl + n\<rparr>"
  let ?w = "w\<lparr>wr_flight := Some ?fl\<rparr>"
  have "flush_commit w s = (?w, s1)"
    using Cons.prems Cons.hyps(2)[symmetric] g ins by (simp add: flush_commit_def)
  then show ?case
    using Cons.hyps(1)[of ?fl ?w s1] Cons.hyps(2)[symmetric] g ins
    by (simp add: write_groups_def)
qed

lemma marks_run:
  "wr_flight w = Some fl \<Longrightarrow> fl_groups fl = [] \<Longrightarrow>
   fold writer_step (replicate (length (fl_marks fl)) (WMark now)) (w, s) =
     (w\<lparr>wr_flight := Some (fl\<lparr>fl_marks := []\<rparr>)\<rparr>, mark_all now (fl_marks fl) s)"
proof (induction "fl_marks fl" arbitrary: fl w s)
  case Nil
  then show ?case by (simp add: mark_all_def)
next
  case (Cons g gs)
  obtain t ids where g: "g = (t, ids)" by (cases g)
  let ?fl = "fl\<lparr>fl_marks := gs\<rparr>"
  let ?w = "w\<lparr>wr_flight := Some ?fl\<rparr>"
  let ?s = "if ids = [] then s
     else s\<lparr>st_seen := fold (\<lambda>i m. if st_owner s i = Some t then jset i now m else m) ids (st_seen s)\<rparr>"
  have "flush_mark now w s = (?w, ?s)"
    using Cons.prems Cons.hyps(2)[symmetric] g by (simp add: flush_mark_def)
  then show ?case
    using Cons.hyps(1)[of ?fl ?w ?s] Cons.hyps(2)[symmetric] Cons.prems(2) g
    by (simp add: mark_all_def)
qed

lemma flush_run:
  assumes "\<not> wr_flushing w" "wr_buffer w \<noteq> []"
  shows "fold writer_step (flush_events now w) (w, s) =
    (w\<lparr>wr_buffer := [], wr_touched := [], wr_flight := None, wr_flushing := False,
       wr_written := wr_written w + count_groups (group_by_tenant (dedupe (wr_buffer w))) s,
       wr_flushes := wr_flushes w + 1, wr_last_error := None, wr_last_flush_ms := Some 0\<rparr>,
     mark_all now (wr_touched w) (write_groups (group_by_tenant (dedupe (wr_buffer w))) s))"
proof -
  let ?gs = "group_by_tenant (dedupe (wr_buffer w))"
  let ?fl = "\<lparr>fl_batch = wr_buffer w, fl_touched = wr_touched w, fl_started = now,
               fl_groups = ?gs, fl_marks = wr_touched w, fl_written = 0\<rparr>"
  let ?w1 = "flush_begin now w"
  have w1: "wr_flight ?w1 = Some ?fl" using assms by (simp add: flush_begin_def)
  show ?thesis
    using commits_run[OF w1, of s] marks_run[of "?w1\<lparr>wr_flight := Some (?fl\<lparr>fl_groups := [],
        fl_written := fl_written ?fl + count_groups ?gs s\<rparr>)\<rparr>" _ now "write_groups ?gs s"] assms
    by (simp add: flush_events_def flush_succeed_def flush_begin_def)
qed

lemma mark_all_rows [simp]: "st_rows (mark_all now ts s) = st_rows s" "st_owner (mark_all now ts s) = st_owner s"
proof -
  have "st_rows (mark_all now ts s) = st_rows s \<and> st_owner (mark_all now ts s) = st_owner s"
    unfolding mark_all_def by (induction ts arbitrary: s) auto
  then show "st_rows (mark_all now ts s) = st_rows s" "st_owner (mark_all now ts s) = st_owner s" by auto
qed

subsection \<open>Nothing is lost without being counted\<close>

text \<open>What a step sheds: the oldest readings past the cap.\<close>

definition shed_by :: "writer_event \<Rightarrow> writer \<Rightarrow> owned_reading list" where
  "shed_by ev w =
     (let past_cap = \<lambda>rs. take (length rs - wr_max_rows w) rs in
      case ev of
        WEnqueue now rs \<Rightarrow> past_cap (wr_buffer w @ rs)
      | WFail message \<Rightarrow> (case wr_flight w of Some fl \<Rightarrow> past_cap (fl_batch fl @ wr_buffer w) | None \<Rightarrow> [])
      | _ \<Rightarrow> [])"

fun writer_run :: "writer_event list \<Rightarrow> writer \<times> store \<Rightarrow> (writer \<times> store) \<times> owned_reading list" where
  "writer_run [] x = (x, [])"
| "writer_run (ev # evs) x =
     (let (y, shed) = writer_run evs (writer_step ev x) in (y, shed_by ev (fst x) @ shed))"

definition in_flight :: "writer \<Rightarrow> owned_reading list" where
  "in_flight w = (case wr_flight w of Some fl \<Rightarrow> fl_batch fl | None \<Rightarrow> [])"

definition stored :: "store \<Rightarrow> owned_reading \<Rightarrow> bool" where
  "stored s r = (jget (st_rows s) (reading_key r) \<noteq> None)"

text \<open>Attribution: a reading carries the tenant of its sensor, as the registry resolved it.\<close>

definition attributed :: "store \<Rightarrow> owned_reading list \<Rightarrow> bool" where
  "attributed s rs = (\<forall>r \<in> set rs. st_owner s (rd_sensor r) = Some (rd_tenant r))"

text \<open>Each reading of a running flush is stored, or its key is still to be written by its tenant's group.\<close>

definition flight_ok :: "flight \<Rightarrow> store \<Rightarrow> bool" where
  "flight_ok fl s =
     (\<forall>r \<in> set (fl_batch fl). stored s r \<or>
        (\<exists>(t, rows) \<in> set (fl_groups fl). t = rd_tenant r \<and> (\<exists>q \<in> set rows. reading_key q = reading_key r)))"

definition writer_inv :: "writer \<times> store \<Rightarrow> bool" where
  "writer_inv = (\<lambda>(w, s). length (wr_buffer w) \<le> wr_max_rows w \<and>
     length (in_flight w) \<le> wr_max_rows w \<and> (wr_flushing w \<longleftrightarrow> wr_flight w \<noteq> None) \<and>
     (\<forall>fl. wr_flight w = Some fl \<longrightarrow> flight_ok fl s) \<and>
     attributed s (wr_buffer w) \<and> attributed s (in_flight w))"

lemma insert_stored: "stored s r \<Longrightarrow> stored (snd (insert_readings t rs s)) r"
  using insert_keeps by (fastforce simp: stored_def)

lemma attributed_simps [simp]:
  "attributed s []" "attributed s (xs @ ys) \<longleftrightarrow> attributed s xs \<and> attributed s ys"
  by (auto simp: attributed_def)

lemma attributed_same:
  assumes "attributed s xs" "q \<in> set xs" "r \<in> set xs" "reading_key q = reading_key r"
  shows "rd_tenant q = rd_tenant r"
proof -
  have "st_owner s (rd_sensor q) = Some (rd_tenant q)" "st_owner s (rd_sensor r) = Some (rd_tenant r)"
    using assms by (auto simp: attributed_def)
  then show ?thesis using assms(4) by (simp add: reading_key_def)
qed

lemma attributed_subset: "attributed s xs \<Longrightarrow> set ys \<subseteq> set xs \<Longrightarrow> attributed s ys"
  by (auto simp: attributed_def)

lemma shed_oldest_fields [simp]:
  "wr_max_rows (shed_oldest w) = wr_max_rows w" "wr_flushing (shed_oldest w) = wr_flushing w"
  "wr_flight (shed_oldest w) = wr_flight w" "wr_touched (shed_oldest w) = wr_touched w"
  "wr_flush_rows (shed_oldest w) = wr_flush_rows w"
  "wr_buffer (shed_oldest w) = drop (length (wr_buffer w) - wr_max_rows w) (wr_buffer w)"
  "wr_dropped (shed_oldest w) = wr_dropped w + (length (wr_buffer w) - wr_max_rows w)"
  by (simp_all add: shed_oldest_def Let_def)

lemma flush_begin_ok:
  assumes "writer_inv (w, s)"
  shows "writer_inv (flush_begin now w, s) \<and> wr_dropped (flush_begin now w) = wr_dropped w \<and>
    wr_max_rows (flush_begin now w) = wr_max_rows w \<and>
    set (wr_buffer (flush_begin now w)) \<union> set (in_flight (flush_begin now w)) =
      set (wr_buffer w) \<union> set (in_flight w)"
proof (cases "wr_flushing w \<or> wr_buffer w = []")
  case True
  then show ?thesis using assms by (simp add: flush_begin_def)
next
  case False
  let ?b = "wr_buffer w"
  have att: "attributed s ?b" using assms by (simp add: writer_inv_def)
  have grouped: "\<exists>(t, rows) \<in> set (group_by_tenant (dedupe ?b)). t = rd_tenant r \<and>
      (\<exists>q \<in> set rows. reading_key q = reading_key r)" if r: "r \<in> set ?b" for r
  proof -
    let ?q = "last_with (reading_key r) ?b"
    have k: "reading_key r \<in> reading_key ` set ?b" using r by blast
    note q = last_with_in[OF k] last_with_mem[OF k]
    have "rd_tenant ?q = rd_tenant r" using attributed_same[OF att] q(1) r by blast
    then have "(rd_tenant r, filter (\<lambda>x. rd_tenant x = rd_tenant r) (dedupe ?b)) \<in> set (group_by_tenant (dedupe ?b))"
      using q by (auto simp: group_entry filter_empty_conv)
    moreover have "?q \<in> set (filter (\<lambda>x. rd_tenant x = rd_tenant r) (dedupe ?b))"
      using q \<open>rd_tenant ?q = rd_tenant r\<close> by simp
    ultimately show ?thesis using q by blast
  qed
  then show ?thesis
    using False assms by (auto simp: flush_begin_def writer_inv_def in_flight_def flight_ok_def)
qed

lemma flush_commit_ok:
  assumes inv: "writer_inv (w, s)" and c: "flush_commit w s = (w', s')"
  shows "writer_inv (w', s') \<and> st_owner s' = st_owner s \<and> wr_dropped w' = wr_dropped w \<and>
    wr_max_rows w' = wr_max_rows w \<and> wr_buffer w' = wr_buffer w \<and> in_flight w' = in_flight w \<and>
    (\<forall>r. stored s r \<longrightarrow> stored s' r)"
proof (cases "\<exists>fl t rows rest. wr_flight w = Some fl \<and> fl_groups fl = (t, rows) # rest")
  case True
  then obtain fl t rows rest where fl: "wr_flight w = Some fl" "fl_groups fl = (t, rows) # rest" by blast
  obtain n where ins: "insert_readings t rows s = (n, s')" and
    w': "w' = w\<lparr>wr_flight := Some (fl\<lparr>fl_groups := rest, fl_written := fl_written fl + n\<rparr>)\<rparr>"
    using c fl by (auto simp: flush_commit_def split: prod.splits)
  have s': "s' = snd (insert_readings t rows s)" using ins by simp
  have own: "st_owner s' = st_owner s" by (simp add: s')
  have ok: "flight_ok fl s" and att: "attributed s (fl_batch fl)"
    using inv fl by (auto simp: writer_inv_def in_flight_def)
  have "stored s' r \<or> (\<exists>(u, rows) \<in> set rest. u = rd_tenant r \<and> (\<exists>q \<in> set rows. reading_key q = reading_key r))"
    if r: "r \<in> set (fl_batch fl)" for r
  proof -
    consider "stored s r" | "t = rd_tenant r" "\<exists>q \<in> set rows. reading_key q = reading_key r"
      | "\<exists>(u, rows) \<in> set rest. u = rd_tenant r \<and> (\<exists>q \<in> set rows. reading_key q = reading_key r)"
      using ok r fl by (auto simp: flight_ok_def)
    then show ?thesis
    proof cases
      case 2
      then obtain q where q: "q \<in> set rows" "reading_key q = reading_key r" by blast
      then have "st_owner s (rd_sensor q) = Some t"
        using att r 2 by (auto simp: attributed_def reading_key_def)
      then show ?thesis using insert_stores[OF q(1)] q(2) s' by (simp add: stored_def)
    qed (use insert_stored s' in blast)+
  qed
  then have "flight_ok (fl\<lparr>fl_groups := rest, fl_written := fl_written fl + n\<rparr>) s'"
    by (simp add: flight_ok_def)
  then show ?thesis
    using inv fl w' own s' insert_stored by (auto simp: writer_inv_def in_flight_def attributed_def)
next
  case False
  then have "w' = w" "s' = s" using c by (auto simp: flush_commit_def split: option.splits list.splits)
  then show ?thesis using inv by simp
qed

text \<open>One step keeps the invariant, counts what it sheds, and loses nothing else.\<close>

definition step_ok :: "owned_reading list \<Rightarrow> owned_reading list \<Rightarrow> writer \<times> store \<Rightarrow> writer \<times> store \<Rightarrow> bool" where
  "step_ok new shed = (\<lambda>(w, s) (w', s').
     writer_inv (w', s') \<and> st_owner s' = st_owner s \<and> wr_max_rows w' = wr_max_rows w \<and>
     wr_dropped w' = wr_dropped w + length shed \<and>
     (\<forall>r. stored s r \<longrightarrow> stored s' r) \<and>
     (\<forall>r \<in> set (wr_buffer w) \<union> set (in_flight w) \<union> set new.
        r \<in> set (wr_buffer w') \<union> set (in_flight w') \<union> set shed \<or> stored s' r))"

lemma take_drop_mem: "r \<in> set xs \<Longrightarrow> r \<in> set (take n xs) \<or> r \<in> set (drop n xs)"
  by (metis append_take_drop_id Un_iff set_append)

lemma enqueue_ok:
  assumes inv: "writer_inv (w, s)" and att: "attributed s rs"
  shows "step_ok rs (shed_by (WEnqueue now rs) w) (w, s) (enqueue now rs w, s)"
proof -
  define b where "b = wr_buffer w @ rs"
  define n where "n = length b - wr_max_rows w"
  define w2 where "w2 = shed_oldest (w\<lparr>wr_buffer := b,
    wr_touched := fold (\<lambda>r. touch (rd_tenant r) (rd_sensor r)) rs (wr_touched w)\<rparr>)"
  have w2: "wr_buffer w2 = drop n b" "in_flight w2 = in_flight w" "wr_max_rows w2 = wr_max_rows w"
    "wr_dropped w2 = wr_dropped w + length (take n b)" "wr_flight w2 = wr_flight w"
    "wr_flushing w2 = wr_flushing w"
    unfolding w2_def n_def in_flight_def by simp_all
  have "attributed s b" using inv att by (simp add: writer_inv_def b_def)
  then have "attributed s (drop n b)" by (rule attributed_subset) (rule set_drop_subset)
  then have inv2: "writer_inv (w2, s)"
    using inv w2 unfolding writer_inv_def by (auto simp: n_def)
  have enq: "enqueue now rs w = w2 \<or> enqueue now rs w = flush_begin now w2"
    by (simp add: enqueue_def Let_def w2_def b_def)
  note fb = flush_begin_ok[OF inv2, of now]
  have w': "writer_inv (enqueue now rs w, s)" using enq inv2 fb by metis
  have max: "wr_max_rows (enqueue now rs w) = wr_max_rows w" using enq w2 fb by metis
  have drp: "wr_dropped (enqueue now rs w) = wr_dropped w + length (take n b)" using enq w2 fb by metis
  have sets: "set (wr_buffer (enqueue now rs w)) \<union> set (in_flight (enqueue now rs w)) = set (drop n b) \<union> set (in_flight w)"
    using enq w2 fb by metis
  have shed: "shed_by (WEnqueue now rs) w = take n b" by (simp add: shed_by_def b_def n_def)
  have mem: "r \<in> (set (drop n b) \<union> set (in_flight w)) \<union> set (take n b)"
    if "r \<in> set (wr_buffer w) \<union> set (in_flight w) \<union> set rs" for r
    using that take_drop_mem[of r b n] by (auto simp: b_def)
  show ?thesis
    unfolding step_ok_def prod.case shed sets using w' max drp mem by blast
qed

lemma timer_ok:
  "writer_inv (w, s) \<Longrightarrow> step_ok [] (shed_by (WTimer now) w) (w, s) (flush_begin now w, s)"
  using flush_begin_ok[of w s now] by (auto simp: step_ok_def shed_by_def)

lemma mark_ok:
  assumes "writer_inv (w, s)"
  shows "step_ok [] (shed_by (WMark now) w) (w, s) (flush_mark now w s)"
proof (cases "\<exists>fl t ids rest. wr_flight w = Some fl \<and> fl_groups fl = [] \<and> fl_marks fl = (t, ids) # rest")
  case True
  then obtain fl t ids rest where fl: "wr_flight w = Some fl" "fl_groups fl = []" "fl_marks fl = (t, ids) # rest" by blast
  obtain s' where f: "flush_mark now w s = (w\<lparr>wr_flight := Some (fl\<lparr>fl_marks := rest\<rparr>)\<rparr>, s')"
    "st_rows s' = st_rows s" "st_owner s' = st_owner s"
    using fl by (simp add: flush_mark_def)
  have "flight_ok fl s" using assms fl by (simp add: writer_inv_def)
  then have "flight_ok (fl\<lparr>fl_marks := rest\<rparr>) s'" using f by (simp add: flight_ok_def stored_def)
  then show ?thesis
    using assms fl f by (auto simp: step_ok_def writer_inv_def in_flight_def shed_by_def stored_def attributed_def)
next
  case False
  then have "flush_mark now w s = (w, s)" by (auto simp: flush_mark_def split: option.splits list.splits)
  then show ?thesis using assms by (auto simp: step_ok_def shed_by_def)
qed

lemma succeed_ok:
  assumes "writer_inv (w, s)"
  shows "step_ok [] (shed_by (WSucceed now) w) (w, s) (flush_succeed now w, s)"
proof (cases "\<exists>fl. wr_flight w = Some fl \<and> fl_groups fl = [] \<and> fl_marks fl = []")
  case True
  then obtain fl where fl: "wr_flight w = Some fl" "fl_groups fl = []" "fl_marks fl = []" by blast
  then have "\<forall>r \<in> set (fl_batch fl). stored s r" using assms by (simp add: writer_inv_def flight_ok_def)
  then show ?thesis
    using assms fl by (auto simp: step_ok_def writer_inv_def flush_succeed_def in_flight_def shed_by_def)
next
  case False
  then have "flush_succeed now w = w" by (auto simp: flush_succeed_def split: option.splits)
  then show ?thesis using assms by (auto simp: step_ok_def shed_by_def)
qed

lemma fail_ok:
  assumes inv: "writer_inv (w, s)"
  shows "step_ok [] (shed_by (WFail message) w) (w, s) (flush_fail message w, s)"
proof (cases "wr_flight w")
  case None
  then show ?thesis using inv by (auto simp: step_ok_def shed_by_def flush_fail_def)
next
  case (Some fl)
  let ?b = "fl_batch fl @ wr_buffer w"
  let ?n = "length ?b - wr_max_rows w"
  let ?w = "flush_fail message w"
  have w: "wr_buffer ?w = drop ?n ?b" "wr_max_rows ?w = wr_max_rows w" "wr_flushing ?w = False"
    "wr_flight ?w = None" "wr_dropped ?w = wr_dropped w + ?n"
    using Some by (simp_all add: flush_fail_def Let_def)
  have "attributed s ?b" using inv Some by (simp add: writer_inv_def in_flight_def)
  then have "attributed s (drop ?n ?b)" by (rule attributed_subset) (rule set_drop_subset)
  then have "writer_inv (?w, s)" using w by (simp add: writer_inv_def in_flight_def)
  moreover have "shed_by (WFail message) w = take ?n ?b" using Some by (simp add: shed_by_def)
  moreover have "r \<in> set (drop ?n ?b) \<or> r \<in> set (take ?n ?b)"
    if "r \<in> set (wr_buffer w) \<union> set (in_flight w)" for r
    using that Some take_drop_mem[of r ?b ?n] by (auto simp: in_flight_def)
  ultimately show ?thesis using w by (auto simp: step_ok_def)
qed

lemma writer_step_ok:
  assumes "writer_inv (w, s)" "attributed s (enqueued [ev])"
  shows "step_ok (enqueued [ev]) (shed_by ev w) (w, s) (writer_step ev (w, s))"
proof (cases ev)
  case WCommit
  obtain w' s' where c: "flush_commit w s = (w', s')" by (cases "flush_commit w s")
  show ?thesis
    using flush_commit_ok[OF assms(1) c] c WCommit by (auto simp: step_ok_def shed_by_def)
qed (use assms enqueue_ok timer_ok mark_ok succeed_ok fail_ok in auto)

lemma enqueued_Cons: "enqueued (ev # evs) = enqueued [ev] @ enqueued evs"
  by (cases ev) auto

lemma writer_run_ok:
  "writer_inv (w, s) \<Longrightarrow> attributed s (enqueued evs) \<Longrightarrow> writer_run evs (w, s) = ((w', s'), shed) \<Longrightarrow>
   step_ok (enqueued evs) shed (w, s) (w', s')"
proof (induction evs arbitrary: w s shed)
  case Nil
  then show ?case by (auto simp: step_ok_def)
next
  case (Cons ev evs)
  obtain w1 s1 where st: "writer_step ev (w, s) = (w1, s1)" by (cases "writer_step ev (w, s)")
  obtain shed' where r: "writer_run evs (w1, s1) = ((w', s'), shed')" "shed = shed_by ev w @ shed'"
    using Cons.prems(3) st by (auto split: prod.splits)
  have att: "attributed s (enqueued [ev])" "attributed s (enqueued evs)"
    using Cons.prems(2) by (simp_all add: enqueued_Cons[of ev evs])
  have one: "step_ok (enqueued [ev]) (shed_by ev w) (w, s) (w1, s1)"
    using writer_step_ok[OF Cons.prems(1) att(1)] st by simp
  then have inv1: "writer_inv (w1, s1)" and own1: "st_owner s1 = st_owner s" by (simp_all add: step_ok_def)
  have "attributed s1 (enqueued evs)" using att(2) own1 by (simp add: attributed_def)
  from Cons.IH[OF inv1 this r(1)] have rest: "step_ok (enqueued evs) shed' (w1, s1) (w', s')" .
  show ?case
    using one rest r(2) unfolding step_ok_def prod.case enqueued_Cons[of ev evs]
    by (auto; blast)
qed

lemma writer_store_ok: "store_ok s \<Longrightarrow> store_ok (snd (writer_step ev (w, s)))"
proof (cases ev)
  case WCommit
  then show "store_ok s \<Longrightarrow> ?thesis"
    by (auto simp: flush_commit_def Let_def case_prod_unfold insert_ok split: option.splits list.splits)
next
  case (WMark now)
  then show "store_ok s \<Longrightarrow> ?thesis"
    by (auto simp: flush_mark_def store_ok_def split: option.splits list.splits)
qed auto

lemma count_stored:
  assumes "\<forall>(t, rows) \<in> set gs. \<forall>r \<in> set rows. st_owner s (rd_sensor r) = Some t \<longrightarrow> stored s r"
  shows "count_groups gs s = 0 \<and> write_groups gs s = s"
  using assms
proof (induction gs)
  case (Cons g gs)
  obtain t rows where g: "g = (t, rows)" by (cases g)
  have "insert_readings t rows s = (0, s)"
    using Cons.prems g by (intro insert_known) (auto simp: stored_def)
  then show ?case using Cons g by (simp add: write_groups_def)
qed (simp add: write_groups_def)

subsection \<open>Properties\<close>

definition sample_owned :: "string \<Rightarrow> string \<Rightarrow> ms \<Rightarrow> rat \<Rightarrow> owned_reading" where
  "sample_owned tenant sensor_id ts v =
     \<lparr>rd_sensor = sensor_id, rd_ts = ts, rd_value = Num v, rd_quality = Good, rd_tenant = tenant\<rparr>"

definition sample_store :: store where
  "sample_store = \<lparr>st_rows = [], st_owner = map_of [(''s1'', ''t1''), (''s2'', ''t2'')], st_seen = []\<rparr>"

definition sample_writes :: "writer_event list" where
  "sample_writes = [WEnqueue 0 [sample_owned ''t1'' ''s1'' 5 1, sample_owned ''t2'' ''s2'' 5 2],
     WTimer 1, WCommit, WFail ''connection terminated'', WEnqueue 2 [sample_owned ''t1'' ''s1'' 6 3]]"

lemmas writer_eval = sample_writes_def mk_writer_def enqueue_def shed_oldest_def flush_begin_def
  flush_commit_def flush_fail_def shed_by_def Let_def touch_def sadd_def dedupe_def reading_key_def
  group_by_tenant_def group_add_def insert_row_def sample_store_def sample_owned_def

text \<open>Where the rows come from: whatever the writer holds was handed to it, each group holds readings of its tenant, and a row the
  table did not have at the start is that of a reading handed in under the tenant that owns the sensor.\<close>

definition row_of :: "owned_reading \<Rightarrow> telemetry_row" where
  "row_of r = \<lparr>tw_tenant = rd_tenant r, tw_value = rd_value r, tw_quality = rd_quality r\<rparr>"

definition rows_from :: "owned_reading set \<Rightarrow> store \<Rightarrow> store \<Rightarrow> bool" where
  "rows_from Q s0 s \<longleftrightarrow>
     st_owner s = st_owner s0 \<and>
     (\<forall>k row. jget (st_rows s) k = Some row \<longrightarrow> jget (st_rows s0) k = Some row \<or>
        (\<exists>q \<in> Q. reading_key q = k \<and> st_owner s0 (rd_sensor q) = Some (rd_tenant q) \<and> row = row_of q))"

definition held_from :: "owned_reading set \<Rightarrow> writer \<Rightarrow> bool" where
  "held_from Q w \<longleftrightarrow>
     set (wr_buffer w) \<subseteq> Q \<and> set (in_flight w) \<subseteq> Q \<and>
     (\<forall>fl. wr_flight w = Some fl \<longrightarrow> (\<forall>(t, rows) \<in> set (fl_groups fl). \<forall>q \<in> set rows. q \<in> Q \<and> rd_tenant q = t))"

lemma insert_row_from:
  "rows_from Q s0 s \<Longrightarrow> q \<in> Q \<Longrightarrow> rd_tenant q = t \<Longrightarrow> rows_from Q s0 (snd (insert_row t q s))"
  unfolding rows_from_def insert_row_def row_of_def by (auto simp del: map_of_eq_Some_iff split: if_splits)

lemma insert_readings_from:
  "rows_from Q s0 s \<Longrightarrow> \<forall>q \<in> set rows. q \<in> Q \<and> rd_tenant q = t \<Longrightarrow> rows_from Q s0 (snd (insert_readings t rows s))"
  unfolding insert_readings_fold by (induction rows arbitrary: s) (simp_all add: insert_row_from)

lemma flush_begin_from: "held_from Q w \<Longrightarrow> held_from Q (flush_begin now w)"
  using dedupe_set[of "wr_buffer w"]
  by (auto simp: held_from_def flush_begin_def in_flight_def group_entry)

lemma writer_step_from:
  assumes "held_from Q w" "rows_from Q s0 s" "set (enqueued [ev]) \<subseteq> Q" "writer_step ev (w, s) = (w', s')"
  shows "held_from Q w' \<and> rows_from Q s0 s'"
proof (cases ev)
  case (WEnqueue now rs)
  then have "held_from Q (w\<lparr>wr_buffer := wr_buffer w @ rs, wr_touched := fold (\<lambda>r. touch (rd_tenant r) (rd_sensor r)) rs (wr_touched w)\<rparr>)"
    using assms(1,3) by (auto simp: held_from_def in_flight_def)
  then have "held_from Q (shed_oldest (w\<lparr>wr_buffer := wr_buffer w @ rs, wr_touched := fold (\<lambda>r. touch (rd_tenant r) (rd_sensor r)) rs (wr_touched w)\<rparr>))"
    unfolding held_from_def in_flight_def shed_oldest_fields by (auto dest!: in_set_dropD)
  note w2 = this flush_begin_from[OF this, of now]
  have "held_from Q (enqueue now rs w)" using w2 unfolding enqueue_def Let_def by (simp del: shed_oldest_fields)
  then show ?thesis using assms(2,4) WEnqueue by simp
next
  case (WTimer now)
  then show ?thesis using assms flush_begin_from by auto
next
  case WCommit
  show ?thesis
  proof (cases "\<exists>fl t rows rest. wr_flight w = Some fl \<and> fl_groups fl = (t, rows) # rest")
    case True
    then obtain fl t rows rest where fl: "wr_flight w = Some fl" "fl_groups fl = (t, rows) # rest" by blast
    then have "\<forall>q \<in> set rows. q \<in> Q \<and> rd_tenant q = t" using assms(1) by (auto simp: held_from_def)
    from insert_readings_from[OF assms(2) this] show ?thesis
      using assms(1,4) fl WCommit by (auto simp: flush_commit_def held_from_def in_flight_def Let_def case_prod_unfold)
  next
    case False
    then have "w' = w" "s' = s" using assms(4) WCommit by (auto simp: flush_commit_def split: option.splits list.splits)
    then show ?thesis using assms(1,2) by simp
  qed
next
  case (WMark now)
  have rows: "rows_from Q s0 (s\<lparr>st_seen := m\<rparr>)" for m using assms(2) by (simp add: rows_from_def)
  from WMark show ?thesis
    using assms rows by (auto simp: flush_mark_def held_from_def in_flight_def Let_def simp del: map_of_eq_Some_iff split: option.splits list.splits if_splits)
next
  case (WSucceed now)
  then show ?thesis using assms by (auto simp: flush_succeed_def held_from_def in_flight_def split: option.splits if_splits)
next
  case (WFail message)
  then show ?thesis
    using assms by (auto simp: flush_fail_def held_from_def in_flight_def Let_def dest!: in_set_dropD split: option.splits)
qed

lemma writer_run_from:
  "held_from Q w \<Longrightarrow> rows_from Q s0 s \<Longrightarrow> set (enqueued evs) \<subseteq> Q \<Longrightarrow> writer_run evs (w, s) = ((w', s'), shed) \<Longrightarrow> rows_from Q s0 s'"
proof (induction evs arbitrary: w s shed)
  case (Cons ev evs)
  obtain w1 s1 where st: "writer_step ev (w, s) = (w1, s1)" by (cases "writer_step ev (w, s)")
  have "held_from Q w1 \<and> rows_from Q s0 s1"
    using Cons.prems(3) by (intro writer_step_from[OF Cons.prems(1,2) _ st]) (auto simp: enqueued_Cons[of ev evs])
  then show ?case using Cons.prems(3,4) st by (auto simp: enqueued_Cons[of ev evs] intro!: Cons.IH split: prod.splits)
qed simp

text \<open>C24: Where every reading handed to the writer names the tenant that owns its sensor, as ingestion resolves it (a statement of
  \<open>insertReadings\<close> drops any other, uncounted), none is silently lost, through any interleaving of enqueues, flushes, partial
  commits and failed flushes: it is in the buffer, in the running flush, one of the readings that were shed, oldest first, and
  counted in \<open>dropped\<close>, or the table has a row for its sensor and time: the one it had at the start, or one that holds the value and
  quality, and the tenant, of a reading handed in for that very sensor and time; and the buffer never holds more than its cap.\<close>
theorem writer_no_loss:
  assumes "attributed s0 (enqueued evs)"
    and "writer_run evs (mk_writer max_rows flush_rows, s0) = ((w, s), shed)"
  shows "length (wr_buffer w) \<le> max_rows \<and> wr_dropped w = length shed \<and>
    (\<forall>r \<in> set (enqueued evs).
       r \<in> set (wr_buffer w) \<or> r \<in> set (in_flight w) \<or> r \<in> set shed \<or>
       (\<exists>row. jget (st_rows s) (reading_key r) = Some row \<and>
          (jget (st_rows s0) (reading_key r) = Some row \<or>
           (\<exists>q \<in> set (enqueued evs). reading_key q = reading_key r \<and>
              row = \<lparr>tw_tenant = rd_tenant r, tw_value = rd_value q, tw_quality = rd_quality q\<rparr>))))"
proof -
  have "writer_inv (mk_writer max_rows flush_rows, s0)"
    by (simp add: writer_inv_def mk_writer_def in_flight_def)
  note ok = writer_run_ok[OF this assms(1,2)]
  have "rows_from (set (enqueued evs)) s0 s"
    by (rule writer_run_from[OF _ _ subset_refl assms(2)]) (simp_all add: held_from_def rows_from_def mk_writer_def in_flight_def)
  moreover have "rd_tenant q = rd_tenant r" if "q \<in> set (enqueued evs)" "r \<in> set (enqueued evs)" "reading_key q = reading_key r" for q r
    using attributed_same[OF assms(1) that] .
  ultimately have src: "jget (st_rows s0) (reading_key r) = Some row \<or>
      (\<exists>q \<in> set (enqueued evs). reading_key q = reading_key r \<and>
         row = \<lparr>tw_tenant = rd_tenant r, tw_value = rd_value q, tw_quality = rd_quality q\<rparr>)"
    if "r \<in> set (enqueued evs)" "jget (st_rows s) (reading_key r) = Some row" for r row
    using that unfolding rows_from_def row_of_def by metis
  have "length (wr_buffer w) \<le> max_rows" "wr_dropped w = length shed"
    using ok by (simp_all add: step_ok_def writer_inv_def mk_writer_def)
  moreover have "r \<in> set (wr_buffer w) \<or> r \<in> set (in_flight w) \<or> r \<in> set shed \<or> (\<exists>row. jget (st_rows s) (reading_key r) = Some row)"
    if "r \<in> set (enqueued evs)" for r
    using ok that by (auto simp: step_ok_def stored_def simp del: map_of_eq_Some_iff)
  ultimately show ?thesis using src by blast
qed

theorem writer_no_loss_witness:
  "\<exists>w s shed. writer_run sample_writes (mk_writer 2 100, sample_store) = ((w, s), shed) \<and>
     length (wr_buffer w) \<le> 2 \<and> length shed = 1"
proof -
  obtain w s shed where run: "writer_run sample_writes (mk_writer 2 100, sample_store) = ((w, s), shed)"
    and d: "wr_dropped w = 1"
    by (simp add: writer_eval)
  have att: "attributed sample_store (enqueued sample_writes)"
    by (simp add: attributed_def sample_writes_def sample_store_def sample_owned_def)
  show ?thesis using run d writer_no_loss[OF att run] by auto
qed

text \<open>A flush that runs to its end stores, for every sensor and time of the batch that the table
  does not hold yet, the value of the LAST reading the batch has for it, under the sensor's own tenant
  and only if that is the tenant the reading claims; a key already stored keeps its first value.\<close>
theorem writer_flush_last_wins:
  assumes "\<not> wr_flushing w" "r \<in> set (wr_buffer w)"
  shows "\<exists>w' s'. fold writer_step (flush_events now w) (w, s) = (w', s') \<and> wr_buffer w' = [] \<and>
    jget (st_rows s') (reading_key r) =
      (case jget (st_rows s) (reading_key r) of
         Some row \<Rightarrow> Some row
       | None \<Rightarrow> let q = last (filter (\<lambda>q. reading_key q = reading_key r) (wr_buffer w)) in
           if st_owner s (rd_sensor q) = Some (rd_tenant q)
           then Some \<lparr>tw_tenant = rd_tenant q, tw_value = rd_value q, tw_quality = rd_quality q\<rparr> else None)"
proof -
  have "wr_buffer w \<noteq> []" using assms(2) by auto
  from flush_run[OF assms(1) this, of now s]
    write_batch_row[of "reading_key r" "wr_buffer w" s]
  show ?thesis using assms(2)
    by (cases "jget (st_rows s) (reading_key r)") (simp_all add: last_with_def Let_def)
qed

theorem writer_flush_last_wins_witness:
  "\<exists>w' s'. fold writer_step (flush_events 7 ((mk_writer 9 9)\<lparr>wr_buffer :=
        [sample_owned ''t1'' ''s1'' 5 1, sample_owned ''t2'' ''s2'' 5 2, sample_owned ''t1'' ''s1'' 5 4]\<rparr>))
      ((mk_writer 9 9)\<lparr>wr_buffer :=
        [sample_owned ''t1'' ''s1'' 5 1, sample_owned ''t2'' ''s2'' 5 2, sample_owned ''t1'' ''s1'' 5 4]\<rparr>, sample_store)
      = (w', s') \<and>
    jget (st_rows s') (''s1'', 5) = Some \<lparr>tw_tenant = ''t1'', tw_value = Num 4, tw_quality = Good\<rparr>"
  using writer_flush_last_wins[of "(mk_writer 9 9)\<lparr>wr_buffer :=
        [sample_owned ''t1'' ''s1'' 5 1, sample_owned ''t2'' ''s2'' 5 2, sample_owned ''t1'' ''s1'' 5 4]\<rparr>"
      "sample_owned ''t1'' ''s1'' 5 1" 7 sample_store]
  by (auto simp: mk_writer_def reading_key_def sample_owned_def sample_store_def Let_def)

text \<open>Retransmission is harmless: when every attributable reading of the buffer is already stored
  (a gateway sends again, or a flush is retried after some tenants had committed), a flush changes no
  row and counts no row as written.\<close>
theorem writer_retransmission:
  assumes "\<not> wr_flushing w" "wr_buffer w \<noteq> []"
    and "\<forall>r \<in> set (wr_buffer w). st_owner s (rd_sensor r) = Some (rd_tenant r) \<longrightarrow>
           jget (st_rows s) (reading_key r) \<noteq> None"
  shows "\<exists>w' s'. fold writer_step (flush_events now w) (w, s) = (w', s') \<and> wr_buffer w' = [] \<and>
    wr_written w' = wr_written w \<and> wr_flushes w' = wr_flushes w + 1 \<and> st_rows s' = st_rows s"
proof -
  have "\<forall>(t, rows) \<in> set (group_by_tenant (dedupe (wr_buffer w))).
      \<forall>r \<in> set rows. st_owner s (rd_sensor r) = Some t \<longrightarrow> stored s r"
    using assms(3) dedupe_set[of "wr_buffer w"] by (auto simp: group_entry stored_def)
  from count_stored[OF this] flush_run[OF assms(1,2), of now s] show ?thesis by simp
qed

theorem writer_retransmission_witness:
  "\<exists>w' s'. fold writer_step (flush_events 7 ((mk_writer 9 9)\<lparr>wr_buffer := [sample_owned ''t1'' ''s1'' 5 4]\<rparr>))
      ((mk_writer 9 9)\<lparr>wr_buffer := [sample_owned ''t1'' ''s1'' 5 4]\<rparr>,
       sample_store\<lparr>st_rows := [((''s1'', 5), \<lparr>tw_tenant = ''t1'', tw_value = Num 1, tw_quality = Good\<rparr>)]\<rparr>) = (w', s') \<and>
    wr_written w' = 0 \<and> st_rows s' = [((''s1'', 5), \<lparr>tw_tenant = ''t1'', tw_value = Num 1, tw_quality = Good\<rparr>)]"
  using writer_retransmission[of "(mk_writer 9 9)\<lparr>wr_buffer := [sample_owned ''t1'' ''s1'' 5 4]\<rparr>"
      "sample_store\<lparr>st_rows := [((''s1'', 5), \<lparr>tw_tenant = ''t1'', tw_value = Num 1, tw_quality = Good\<rparr>)]\<rparr>" 7]
  by (auto simp: mk_writer_def reading_key_def sample_owned_def)

text \<open>Whatever a batch claims, a row always carries the tenant that owns its sensor: no sequence of
  enqueues, commits and failures writes a reading into another tenant.\<close>
theorem writer_rows_owned:
  assumes "store_ok s0"
  shows "store_ok (snd (fold writer_step evs (mk_writer max_rows flush_rows, s0)))"
proof (induction evs rule: rev_induct)
  case (snoc ev evs)
  obtain w s where ws: "fold writer_step evs (mk_writer max_rows flush_rows, s0) = (w, s)" by fastforce
  then show ?case using snoc writer_store_ok[of s ev w] by simp
qed (simp add: assms)

theorem writer_rows_owned_witness:
  "store_ok (snd (fold writer_step [WEnqueue 0 [sample_owned ''t2'' ''s1'' 5 1], WTimer 1, WCommit] (mk_writer 9 9, sample_store)))"
  by (rule writer_rows_owned) (simp add: store_ok_def sample_store_def)

end
