(* ===== verification/Conditions.thy ===== *)
theory Conditions
  imports Registry
begin

section \<open>Alert conditions and rule targets (rules/conditions.ts, rules/targets.ts)\<close>

text \<open>
  The predicates an alert rule is made of, over the tracked state of a sensor, and the expansion of a
  rule to the sensors it watches. Times are whole milliseconds; the least-squares slope is exact
  rational arithmetic, extended to the infinities a flagged sample can carry into the history.
\<close>

subsection \<open>State\<close>

record sensor_state =
  ss_value :: jsnum
  ss_ts :: ms
  ss_changed_at :: ms
  ss_quality :: quality
  ss_history :: "(ms \<times> jsnum) list option"

record eval_context =
  ec_now :: ms
  ec_setpoint :: "jsnum option"
  ec_started_at :: ms

definition is_evaluable :: "alert_condition \<Rightarrow> sensor_state option \<Rightarrow> bool" where
  "is_evaluable c state =
     (case state of
        None \<Rightarrow> c = no_data
      | Some s \<Rightarrow> if c = out_of_range then True else ss_quality s = Good)"

subsection \<open>The slope\<close>

definition slope_samples :: "(ms \<times> jsnum) list \<Rightarrow> ms \<Rightarrow> int \<Rightarrow> (ms \<times> jsnum) list" where
  "slope_samples history now window_s = filter (\<lambda>h. now - fst h \<le> window_s * 1000) history"

definition mean_ts :: "(ms \<times> jsnum) list \<Rightarrow> rat" where
  "mean_ts xs = sum_list (map (\<lambda>h. of_int (fst h)) xs) / of_nat (length xs)"

definition mean_value :: "(ms \<times> jsnum) list \<Rightarrow> jsnum" where
  "mean_value xs = js_scale (1 / of_nat (length xs)) (fold (\<lambda>h s. js_plus s (snd h)) xs (Num 0))"

definition slope_num :: "(ms \<times> jsnum) list \<Rightarrow> jsnum" where
  "slope_num xs = fold (\<lambda>h s. js_plus s
     (js_scale (of_int (fst h) - mean_ts xs) (js_minus (snd h) (mean_value xs)))) xs (Num 0)"

definition slope_den :: "(ms \<times> jsnum) list \<Rightarrow> rat" where
  "slope_den xs = sum_list (map (\<lambda>h. (of_int (fst h) - mean_ts xs) * (of_int (fst h) - mean_ts xs)) xs)"

definition slope_per_hour :: "(ms \<times> jsnum) list \<Rightarrow> ms \<Rightarrow> int \<Rightarrow> jsnum option" where
  "slope_per_hour history now window_s =
     (let xs = slope_samples history now window_s in
      if length xs < 3 then None
      else if 2 * (fst (last xs) - fst (hd xs)) < window_s * 1000 then None
      else if slope_den xs = 0 then None
      else Some (js_scale 3600000 (js_scale (1 / slope_den xs) (slope_num xs))))"

subsection \<open>Evaluation\<close>

definition flatline_epsilon :: rat where
  "flatline_epsilon = 1 / 1000000"

definition window_ms :: "alert_rule \<Rightarrow> ms" where
  "window_ms r = (case ar_window_s r of Some w \<Rightarrow> w | None \<Rightarrow> 0) * 1000"

definition evaluate :: "alert_rule \<Rightarrow> sensor_state option \<Rightarrow> eval_context \<Rightarrow> bool \<times> jsnum option" where
  "evaluate r state ctx =
     (case ar_condition r of
        no_data \<Rightarrow>
          (ec_now ctx - (case state of Some s \<Rightarrow> ss_ts s | None \<Rightarrow> ec_started_at ctx) > window_ms r, None)
      | flatline \<Rightarrow>
          (case state of
             None \<Rightarrow> (False, None)
           | Some s \<Rightarrow> (ec_now ctx - ss_changed_at s > window_ms r, Some (ss_value s)))
      | out_of_range \<Rightarrow>
          (case state of
             None \<Rightarrow> (False, None)
           | Some s \<Rightarrow> (ss_quality s = OutOfRange, Some (ss_value s)))
      | threshold_above \<Rightarrow>
          (case (state, ar_threshold r) of
             (Some s, Some t) \<Rightarrow> (js_gt (ss_value s) (Num t), Some (ss_value s))
           | _ \<Rightarrow> (False, None))
      | threshold_below \<Rightarrow>
          (case (state, ar_threshold r) of
             (Some s, Some t) \<Rightarrow> (js_lt (ss_value s) (Num t), Some (ss_value s))
           | _ \<Rightarrow> (False, None))
      | deviation_from_setpoint \<Rightarrow>
          (case (state, ar_threshold r, ec_setpoint ctx) of
             (Some s, Some t, Some sp) \<Rightarrow> (js_gt (js_abs (js_minus (ss_value s) sp)) (Num t), Some (ss_value s))
           | _ \<Rightarrow> (False, map_option ss_value state))
      | rate_of_change \<Rightarrow>
          (case (state, Option.bind state ss_history, ar_threshold r, ar_window_s r) of
             (Some s, Some h, Some t, Some w) \<Rightarrow>
               (case slope_per_hour h (ec_now ctx) w of
                  None \<Rightarrow> (False, Some (ss_value s))
                | Some slope \<Rightarrow> (js_gt (js_abs slope) (Num t), Some slope))
           | _ \<Rightarrow> (False, map_option ss_value state)))"

subsection \<open>Targets\<close>

record rule_target =
  rt_rule :: alert_rule
  rt_sensor :: sensor
  rt_key :: string

definition watches :: "alert_rule \<Rightarrow> sensor \<Rightarrow> bool" where
  "watches r s =
     (if ar_metric r \<noteq> None \<and> Some (sn_metric s) \<noteq> ar_metric r then False
      else if sn_tenant s \<noteq> ar_tenant r then False
      else if ar_sensor r \<noteq> None then Some (sn_id s) = ar_sensor r
      else if ar_equipment r \<noteq> None then sn_equipment s = ar_equipment r
      else if ar_zone r \<noteq> None then sn_zone s = ar_zone r
      else if ar_floor r \<noteq> None then sn_floor s = ar_floor r
      else if ar_building r \<noteq> None then sn_building s = ar_building r
      else False)"

definition expand_rule :: "alert_rule \<Rightarrow> registry \<Rightarrow> sensor list" where
  "expand_rule r g = filter (watches r) (registry_all g)"

definition target_key :: "alert_rule \<Rightarrow> sensor \<Rightarrow> string" where
  "target_key r s = ar_id r @ '':'' @ sn_id s"

definition expand_all :: "alert_rule list \<Rightarrow> registry \<Rightarrow> rule_target list" where
  "expand_all rules g =
     concat (map (\<lambda>r. map (\<lambda>s. \<lparr>rt_rule = r, rt_sensor = s, rt_key = target_key r s\<rparr>) (expand_rule r g)) rules)"

subsection \<open>Lemmas on targets\<close>

lemma expand_all_mem:
  "t \<in> set (expand_all rules g) \<longleftrightarrow>
     rt_rule t \<in> set rules \<and> rt_sensor t \<in> set (expand_rule (rt_rule t) g) \<and>
     rt_key t = target_key (rt_rule t) (rt_sensor t)"
  by (cases t) (force simp: expand_all_def)

lemma expand_rule_tenant: "s \<in> set (expand_rule r g) \<Longrightarrow> sn_tenant s = ar_tenant r"
  by (auto simp: expand_rule_def watches_def split: if_splits)

subsection \<open>The slope of a line\<close>

definition rat_value :: "jsnum \<Rightarrow> rat" where
  "rat_value v = (case v of Num x \<Rightarrow> x | _ \<Rightarrow> 0)"

lemma fold_js_plus:
  "\<forall>x \<in> set xs. \<exists>q. f x = Num q \<Longrightarrow>
   fold (\<lambda>x s. js_plus s (f x)) xs (Num a) = Num (a + sum_list (map (\<lambda>x. rat_value (f x)) xs))"
  by (induction xs arbitrary: a) (auto simp: rat_value_def add.assoc)

definition on_line :: "rat \<Rightarrow> rat \<Rightarrow> ms \<times> jsnum \<Rightarrow> bool" where
  "on_line a b h = (snd h = Num (a + b * of_int (fst h)))"

lemma mean_on_line:
  assumes "\<forall>h \<in> set xs. on_line a b h" "xs \<noteq> []"
  shows "mean_value xs = Num (a + b * mean_ts xs)"
proof -
  have "\<forall>h \<in> set xs. \<exists>q. snd h = Num q" using assms by (auto simp: on_line_def)
  from fold_js_plus[OF this, of 0] have
    "fold (\<lambda>h s. js_plus s (snd h)) xs (Num 0) = Num (sum_list (map (\<lambda>h. rat_value (snd h)) xs))" by simp
  also have "map (\<lambda>h. rat_value (snd h)) xs = map (\<lambda>h. a + b * of_int (fst h)) xs"
    using assms by (auto simp: on_line_def rat_value_def)
  also have "sum_list (map (\<lambda>h. a + b * of_int (fst h)) xs) =
      of_nat (length xs) * a + b * sum_list (map (\<lambda>h. of_int (fst h)) xs)"
    by (simp add: sum_list_addf sum_list_triv sum_list_const_mult)
  finally show ?thesis
    using assms(2) by (simp add: mean_value_def mean_ts_def field_simps)
qed

lemma slope_num_line:
  assumes line: "\<forall>h \<in> set xs. on_line a b h" and ne: "xs \<noteq> []"
  shows "slope_num xs = Num (b * slope_den xs)"
proof -
  let ?f = "\<lambda>h. js_scale (of_int (fst h) - mean_ts xs) (js_minus (snd h) (mean_value xs))"
  have f: "?f h = Num (b * ((of_int (fst h) - mean_ts xs) * (of_int (fst h) - mean_ts xs)))"
    if "h \<in> set xs" for h
    using that line mean_on_line[OF line ne] by (simp add: on_line_def algebra_simps)
  then have "\<forall>h \<in> set xs. \<exists>q. ?f h = Num q" by blast
  from fold_js_plus[OF this, of 0] have "slope_num xs = Num (sum_list (map (\<lambda>h. rat_value (?f h)) xs))"
    by (simp add: slope_num_def)
  also have "map (\<lambda>h. rat_value (?f h)) xs =
      map (\<lambda>h. b * ((of_int (fst h) - mean_ts xs) * (of_int (fst h) - mean_ts xs))) xs"
    using f by (simp add: rat_value_def)
  also have "sum_list \<dots> = b * slope_den xs" by (simp add: slope_den_def sum_list_const_mult)
  finally show ?thesis .
qed

lemma slope_den_pos:
  assumes "h \<in> set xs" "h' \<in> set xs" "fst h \<noteq> fst h'"
  shows "0 < slope_den xs"
proof -
  let ?d = "\<lambda>h. (of_int (fst h) - mean_ts xs) * (of_int (fst h) - mean_ts xs)"
  obtain y where y: "y \<in> set xs" "of_int (fst y) \<noteq> mean_ts xs"
    using assms by (metis of_int_eq_iff)
  have nn: "0 \<le> ?d z" for z by simp
  have "?d y \<le> slope_den xs"
    unfolding slope_den_def using y(1) nn by (intro member_le_sum_list) auto
  moreover have "0 < ?d y" using y(2) by (auto simp: zero_less_mult_iff linorder_neq_iff)
  ultimately show ?thesis by linarith
qed

text \<open>The rate of change is the least-squares slope in units per hour: on samples that lie on a
  line it is exactly the line's slope, whatever the number and spacing of the samples, as soon as the
  window holds three of them spanning half of it.\<close>
theorem slope_recovers_line:
  assumes "\<forall>h \<in> set (slope_samples history now window_s). on_line a b h"
    and "3 \<le> length (slope_samples history now window_s)" "0 < window_s"
    and "window_s * 1000 \<le> 2 * (fst (last (slope_samples history now window_s)) -
           fst (hd (slope_samples history now window_s)))"
  shows "slope_per_hour history now window_s = Some (Num (3600000 * b))"
proof -
  let ?xs = "slope_samples history now window_s"
  have ne: "?xs \<noteq> []" using assms(2) by auto
  have "fst (last ?xs) \<noteq> fst (hd ?xs)" using assms(3,4) by auto
  then have den: "slope_den ?xs \<noteq> 0" using slope_den_pos[of "last ?xs" ?xs "hd ?xs"] ne by simp
  have "js_scale (1 / slope_den ?xs) (slope_num ?xs) = Num b"
    using slope_num_line[OF assms(1) ne] den by simp
  then show ?thesis using assms(2,4) den by (simp add: slope_per_hour_def Let_def)
qed

theorem slope_recovers_line_witness:
  "slope_per_hour [(0, Num 20), (60000, Num 21), (180000, Num 23), (240000, Num 24)] 240000 240 = Some (Num 60)"
proof -
  have "slope_samples [(0, Num 20), (60000, Num 21), (180000, Num 23), (240000, Num 24)] 240000 240 =
      [(0, Num 20), (60000, Num 21), (180000, Num 23), (240000, Num 24)]"
    by (simp add: slope_samples_def)
  then show ?thesis
    using slope_recovers_line[of "[(0, Num 20), (60000, Num 21), (180000, Num 23), (240000, Num 24)]"
        240000 240 20 "1 / 60000"] by (simp add: on_line_def)
qed

text \<open>A flagged reading never makes a value condition breach.\<close>

lemma flagged_not_evaluable:
  "c \<noteq> out_of_range \<Longrightarrow> ss_quality s \<noteq> Good \<Longrightarrow> \<not> is_evaluable c (Some s)"
  by (simp add: is_evaluable_def)

end
