(* ===== verification/Alert_Store.thy ===== *)
theory Alert_Store
  imports Conditions
begin

section \<open>Alert persistence (apps/ingest/src/rules/store.ts)\<close>

text \<open>
  The rows \<open>alerts\<close> and \<open>alert_notifications\<close> and the statements on them. The row-level policies
  restrict every statement to the tenant in scope; the partial unique index on rule and target
  (migration 003) and the unique index on alert, channel and target (migration 006) are what the
  \<open>ON CONFLICT\<close> clauses rest on. A notification row is named by that triple, which its id determines.
  A new alert's id is an argument, as the database generates it.
\<close>

datatype channel = Webhook | Email | LogChannel

type_synonym notify_target = "channel \<times> string"

record alert =
  al_id :: string
  al_tenant :: string
  al_rule :: string
  al_sensor :: "string option"
  al_equipment :: "string option"
  al_zone :: "string option"
  al_severity :: alert_severity
  al_state :: alert_state
  al_message :: string
  al_trigger :: "jsnum option"
  al_threshold :: "rat option"
  al_opened_at :: ms
  al_acknowledged :: "(ms \<times> string) option"
  al_resolved_at :: "ms option"

datatype note_status = NotePending | NoteDelivered | NoteFailed

record notification =
  nt_tenant :: string
  nt_status :: note_status
  nt_attempts :: int
  nt_last_error :: "string option"
  nt_delivered_at :: "ms option"
  nt_created_at :: ms
  nt_claimed_at :: "ms option"

type_synonym note_key = "string \<times> channel \<times> string"

record alert_db =
  ad_alerts :: "(string, alert) jsmap"
  ad_notes :: "(note_key, notification) jsmap"

definition empty_alert_db :: alert_db where
  "empty_alert_db = \<lparr>ad_alerts = [], ad_notes = []\<rparr>"

subsection \<open>Opening\<close>

record open_input =
  oi_tenant :: string
  oi_rule :: string
  oi_sensor :: string
  oi_equipment :: "string option"
  oi_zone :: "string option"
  oi_severity :: alert_severity
  oi_message :: string
  oi_trigger :: "jsnum option"
  oi_threshold :: "rat option"
  oi_targets :: "notify_target list"

definition coalesce :: "'a option list \<Rightarrow> 'a option" where
  "coalesce vs = (case filter (\<lambda>v. v \<noteq> None) vs of [] \<Rightarrow> None | v # _ \<Rightarrow> v)"

definition alert_target :: "alert \<Rightarrow> string option" where
  "alert_target a = coalesce [al_sensor a, al_equipment a, al_zone a]"

definition is_live :: "alert \<Rightarrow> bool" where
  "is_live a = (al_state a \<noteq> Resolved)"

definition conflicts :: "string \<Rightarrow> string option \<Rightarrow> alert_db \<Rightarrow> bool" where
  "conflicts rule target db =
     list_ex (\<lambda>a. is_live a \<and> al_rule a = rule \<and> alert_target a = target) (map snd (ad_alerts db))"

definition insert_note :: "string \<Rightarrow> string \<Rightarrow> ms \<Rightarrow> notify_target \<Rightarrow> alert_db \<Rightarrow> alert_db" where
  "insert_note tenant alert_id now t db =
     (let key = (alert_id, fst t, snd t) in
      if jget (ad_notes db) key \<noteq> None then db
      else db\<lparr>ad_notes := jset key \<lparr>nt_tenant = tenant, nt_status = NotePending, nt_attempts = 0,
        nt_last_error = None, nt_delivered_at = None, nt_created_at = now, nt_claimed_at = None\<rparr> (ad_notes db)\<rparr>)"

definition open_alert :: "string \<Rightarrow> ms \<Rightarrow> open_input \<Rightarrow> alert_db \<Rightarrow> alert option \<times> alert_db" where
  "open_alert new_id now i db =
     (if conflicts (oi_rule i) (coalesce [Some (oi_sensor i), oi_equipment i, oi_zone i]) db then (None, db)
      else let a = \<lparr>al_id = new_id, al_tenant = oi_tenant i, al_rule = oi_rule i, al_sensor = Some (oi_sensor i),
                    al_equipment = oi_equipment i, al_zone = oi_zone i, al_severity = oi_severity i,
                    al_state = AlertOpen, al_message = oi_message i, al_trigger = oi_trigger i,
                    al_threshold = oi_threshold i, al_opened_at = now, al_acknowledged = None,
                    al_resolved_at = None\<rparr>;
               db1 = db\<lparr>ad_alerts := jset new_id a (ad_alerts db)\<rparr>
           in (Some a, fold (insert_note (oi_tenant i) new_id now) (oi_targets i) db1))"

subsection \<open>Settling\<close>

definition resolve_alert :: "string \<Rightarrow> string \<Rightarrow> ms \<Rightarrow> alert_db \<Rightarrow> alert option \<times> alert_db" where
  "resolve_alert tenant i now db =
     (case jget (ad_alerts db) i of
        Some a \<Rightarrow>
          if al_tenant a = tenant \<and> al_state a \<noteq> Resolved
          then let a' = a\<lparr>al_state := Resolved, al_resolved_at := Some now\<rparr>
               in (Some a', db\<lparr>ad_alerts := jset i a' (ad_alerts db)\<rparr>)
          else (None, db)
      | None \<Rightarrow> (None, db))"

text \<open>Whether the acknowledging user exists, which a foreign key of the table asks, is not modelled.\<close>

definition acknowledge_alert :: "string \<Rightarrow> string \<Rightarrow> string \<Rightarrow> ms \<Rightarrow> alert_db \<Rightarrow> alert option \<times> alert_db" where
  "acknowledge_alert tenant i user now db =
     (case jget (ad_alerts db) i of
        Some a \<Rightarrow>
          if al_tenant a = tenant \<and> al_state a = AlertOpen
          then let a' = a\<lparr>al_state := Acknowledged, al_acknowledged := Some (now, user)\<rparr>
               in (Some a', db\<lparr>ad_alerts := jset i a' (ad_alerts db)\<rparr>)
          else (None, db)
      | None \<Rightarrow> (None, db))"

definition alert_by_id :: "string \<Rightarrow> string \<Rightarrow> alert_db \<Rightarrow> alert option" where
  "alert_by_id tenant i db =
     (case jget (ad_alerts db) i of
        Some a \<Rightarrow> if al_tenant a = tenant then Some a else None
      | None \<Rightarrow> None)"

definition load_live_alerts :: "string \<Rightarrow> alert_db \<Rightarrow> (string, string) jsmap" where
  "load_live_alerts tenant db =
     fold (\<lambda>a. jset (al_rule a @ '':'' @ the (al_sensor a)) (al_id a))
       (filter (\<lambda>a. al_tenant a = tenant \<and> is_live a \<and> al_sensor a \<noteq> None) (map snd (ad_alerts db))) []"

subsection \<open>Listing\<close>

datatype alert_filter = LiveOnly | ResolvedOnly | AnyState

definition matches_filter :: "alert_filter \<Rightarrow> alert \<Rightarrow> bool" where
  "matches_filter f a = (case f of LiveOnly \<Rightarrow> is_live a | ResolvedOnly \<Rightarrow> \<not> is_live a | AnyState \<Rightarrow> True)"

record alert_page =
  ap_alerts :: "alert list"
  ap_total :: nat
  ap_limit :: nat
  ap_truncated :: bool

definition alert_list_limit :: nat where
  "alert_list_limit = 200"

text \<open>\<open>ORDER BY opened_at DESC\<close>, with the window count taken before the limit.\<close>

definition list_alerts :: "string \<Rightarrow> alert_filter \<Rightarrow> nat \<Rightarrow> alert_db \<Rightarrow> alert_page" where
  "list_alerts tenant f limit db =
     (let matching = sort_key (\<lambda>a. - al_opened_at a)
            (filter (\<lambda>a. al_tenant a = tenant \<and> matches_filter f a) (map snd (ad_alerts db)));
          rows = take limit matching;
          total = (if rows = [] then 0 else length matching)
      in \<lparr>ap_alerts = rows, ap_total = total, ap_limit = limit, ap_truncated = total > length rows\<rparr>)"

subsection \<open>One live alert per rule and target\<close>

definition alert_db_ok :: "alert_db \<Rightarrow> bool" where
  "alert_db_ok db =
     (jwf (ad_alerts db) \<and>
      (\<forall>i a. jget (ad_alerts db) i = Some a \<longrightarrow> al_id a = i) \<and>
      (\<forall>i j a b. jget (ad_alerts db) i = Some a \<longrightarrow> jget (ad_alerts db) j = Some b \<longrightarrow>
         is_live a \<longrightarrow> is_live b \<longrightarrow> al_rule a = al_rule b \<longrightarrow> alert_target a = alert_target b \<longrightarrow> i = j) \<and>
      (\<forall>i c t n. jget (ad_notes db) (i, c, t) = Some n \<longrightarrow>
         (\<exists>a. jget (ad_alerts db) i = Some a \<and> al_tenant a = nt_tenant n)))"

lemma alert_db_okI:
  assumes "jwf (ad_alerts db)" "\<And>i a. jget (ad_alerts db) i = Some a \<Longrightarrow> al_id a = i"
    and "\<And>i j a b. jget (ad_alerts db) i = Some a \<Longrightarrow> jget (ad_alerts db) j = Some b \<Longrightarrow>
         is_live a \<Longrightarrow> is_live b \<Longrightarrow> al_rule a = al_rule b \<Longrightarrow> alert_target a = alert_target b \<Longrightarrow> i = j"
    and "\<And>i c t n. jget (ad_notes db) (i, c, t) = Some n \<Longrightarrow>
         \<exists>a. jget (ad_alerts db) i = Some a \<and> al_tenant a = nt_tenant n"
  shows "alert_db_ok db"
  unfolding alert_db_ok_def using assms by blast

lemma alert_db_okD:
  assumes "alert_db_ok db"
  shows "jwf (ad_alerts db)" "jget (ad_alerts db) i = Some a \<Longrightarrow> al_id a = i"
    "jget (ad_alerts db) i = Some a \<Longrightarrow> jget (ad_alerts db) j = Some b \<Longrightarrow>
         is_live a \<Longrightarrow> is_live b \<Longrightarrow> al_rule a = al_rule b \<Longrightarrow> alert_target a = alert_target b \<Longrightarrow> i = j"
    "jget (ad_notes db) (i, c, t) = Some n \<Longrightarrow> \<exists>a. jget (ad_alerts db) i = Some a \<and> al_tenant a = nt_tenant n"
  using assms unfolding alert_db_ok_def by blast+

lemma not_conflicts:
  assumes "\<not> conflicts rule target db" "jget (ad_alerts db) i = Some a" "is_live a" "al_rule a = rule"
  shows "alert_target a \<noteq> target"
proof
  assume "alert_target a = target"
  moreover have "(i, a) \<in> set (ad_alerts db)" using assms(2) by (rule map_of_SomeD)
  ultimately show False
    using assms by (auto simp: conflicts_def list_ex_iff)
qed

lemma insert_note_alerts [simp]: "ad_alerts (insert_note tenant i now t db) = ad_alerts db"
  by (simp add: insert_note_def Let_def)

lemma insert_notes_alerts [simp]: "ad_alerts (fold (insert_note tenant i now) ts db) = ad_alerts db"
  by (induction ts arbitrary: db) simp_all

lemma insert_notes_get:
  "jget (ad_notes (fold (insert_note tenant i now) ts db)) (j, c, t) =
    (case jget (ad_notes db) (j, c, t) of
       Some n \<Rightarrow> Some n
     | None \<Rightarrow> if j = i \<and> (c, t) \<in> set ts
         then Some \<lparr>nt_tenant = tenant, nt_status = NotePending, nt_attempts = 0, nt_last_error = None,
           nt_delivered_at = None, nt_created_at = now, nt_claimed_at = None\<rparr> else None)"
proof (induction ts arbitrary: db)
  case (Cons q ts)
  then show ?case by (cases q) (auto simp: insert_note_def Let_def split: option.splits)
qed (simp split: option.splits)

lemma open_alert_ok [inv_intros]:
  assumes ok: "alert_db_ok db" and fresh: "jget (ad_alerts db) new_id = None"
  shows "alert_db_ok (snd (open_alert new_id now i db))"
proof (cases "conflicts (oi_rule i) (coalesce [Some (oi_sensor i), oi_equipment i, oi_zone i]) db")
  case True
  then show ?thesis using ok by (simp add: open_alert_def)
next
  case False
  obtain a where op: "open_alert new_id now i db = (Some a, fold (insert_note (oi_tenant i) new_id now) (oi_targets i)
      (db\<lparr>ad_alerts := jset new_id a (ad_alerts db)\<rparr>))"
    and a: "al_id a = new_id" "al_rule a = oi_rule i" "al_tenant a = oi_tenant i"
      "alert_target a = coalesce [Some (oi_sensor i), oi_equipment i, oi_zone i]"
    using False by (simp add: open_alert_def Let_def alert_target_def)
  have other: "alert_target b \<noteq> alert_target a" if "jget (ad_alerts db) j = Some b" "is_live b" "al_rule b = al_rule a" for j b
    using not_conflicts[OF False that(1,2)] that(3) a by simp
  have nts: "\<exists>b. jget (jset new_id a (ad_alerts db)) j = Some b \<and> al_tenant b = nt_tenant n"
    if "jget (ad_notes (snd (open_alert new_id now i db))) (j, c, t) = Some n" for j c t n
    using that fresh a alert_db_okD(4)[OF ok, of j c t]
    by (auto simp: op insert_notes_get split: option.splits if_splits)
  show ?thesis
  proof (rule alert_db_okI)
    fix j k b c
    assume "jget (ad_alerts (snd (open_alert new_id now i db))) j = Some b"
      "jget (ad_alerts (snd (open_alert new_id now i db))) k = Some c"
      "is_live b" "is_live c" "al_rule b = al_rule c" "alert_target b = alert_target c"
    then show "j = k"
      using other alert_db_okD(3)[OF ok, of j b k c] by (auto simp: op split: if_splits)
  qed (use alert_db_okD[OF ok] a nts in \<open>auto simp: op split: if_splits\<close>)
qed

text \<open>Settling a row changes neither what it is about nor makes it live again.\<close>

lemma settle_ok:
  assumes ok: "alert_db_ok db" and a: "jget (ad_alerts db) i = Some a"
    and b: "al_id b = al_id a" "al_tenant b = al_tenant a" "al_rule b = al_rule a" "alert_target b = alert_target a"
      "is_live b \<Longrightarrow> is_live a"
  shows "alert_db_ok (db\<lparr>ad_alerts := jset i b (ad_alerts db)\<rparr>)"
proof (rule alert_db_okI)
  fix j k c d
  assume "jget (ad_alerts (db\<lparr>ad_alerts := jset i b (ad_alerts db)\<rparr>)) j = Some c"
    "jget (ad_alerts (db\<lparr>ad_alerts := jset i b (ad_alerts db)\<rparr>)) k = Some d"
    "is_live c" "is_live d" "al_rule c = al_rule d" "alert_target c = alert_target d"
  then show "j = k"
    using alert_db_okD(3)[OF ok, of j "if j = i then a else c" k "if k = i then a else d"] a b
    by (auto split: if_splits)
next
  show "jwf (ad_alerts (db\<lparr>ad_alerts := jset i b (ad_alerts db)\<rparr>))" using alert_db_okD(1)[OF ok] by simp
next
  fix j c assume "jget (ad_alerts (db\<lparr>ad_alerts := jset i b (ad_alerts db)\<rparr>)) j = Some c"
  then show "al_id c = j" using alert_db_okD(2)[OF ok a] alert_db_okD(2)[OF ok, of j] b by (auto split: if_splits)
next
  fix j c t n assume "jget (ad_notes (db\<lparr>ad_alerts := jset i b (ad_alerts db)\<rparr>)) (j, c, t) = Some n"
  then show "\<exists>d. jget (ad_alerts (db\<lparr>ad_alerts := jset i b (ad_alerts db)\<rparr>)) j = Some d \<and> al_tenant d = nt_tenant n"
    using alert_db_okD(4)[OF ok, of j c t n] a b by auto
qed

lemma resolve_alert_ok [inv_intros]: "alert_db_ok db \<Longrightarrow> alert_db_ok (snd (resolve_alert tenant i now db))"
  by (auto simp: resolve_alert_def Let_def is_live_def alert_target_def intro!: settle_ok split: option.splits)

lemma acknowledge_alert_ok [inv_intros]:
  "alert_db_ok db \<Longrightarrow> alert_db_ok (snd (acknowledge_alert tenant i user now db))"
  by (auto simp: acknowledge_alert_def Let_def is_live_def alert_target_def intro!: settle_ok split: option.splits)

lemma empty_alert_db_ok: "alert_db_ok empty_alert_db"
  by (simp add: alert_db_ok_def empty_alert_db_def)

end
