(* ===== verification/Fanout.thy ===== *)
theory Fanout
  imports Registry
begin

section \<open>Live fan-out over WebSocket (apps/ingest/src/fanout.ts)\<close>

text \<open>
  The \<open>Fanout\<close> class: which connection is subscribed to which topic, the readings pending until the
  next tick, and delivery to sockets. A \<open>Subscriber\<close> object is named by its id (the server gives each
  connection a fresh UUID), so a \<open>Set<Subscriber>\<close> is a list of ids without repetition. A socket is
  its ready state, its backlog, what was sent and the closes asked for; a payload is the value that is
  serialised, once per topic. How far a write raises a socket's
  \<open>bufferedAmount\<close> is the \<open>ws\<close> library's business: the argument \<open>grow\<close>. The guard \<open>maySubscribe\<close> is injected: it is an argument, the interface
  \<open>topic_guard\<close> states what the fan-out relies on, and the registry provides it.
\<close>

subsection \<open>State\<close>

datatype payload =
    TelemetryBatch (pl_topic: topic) (pl_readings: "reading_tuple list") (pl_sent_at: ms)
  | OtherMessage string

record subscriber =
  sb_topics :: "topic list"
  sb_tenant :: "string option"
  sb_ready :: int
  sb_buffered :: int
  sb_sent :: "payload list"
  sb_closed :: "(int \<times> string) list"

record fanout =
  fo_by_topic :: "(topic, string list) jsmap"
  fo_subscribers :: "(string, subscriber) jsmap"
  fo_pending :: "(topic, reading list) jsmap"
  fo_frames_sent :: int
  fo_readings_sent :: int
  fo_frames_skipped :: int
  fo_backlogged_closed :: int
  fo_denied :: int
  fo_buffer_max :: int

definition mk_fanout :: "int \<Rightarrow> fanout" where
  "mk_fanout buffer_max = \<lparr>fo_by_topic = [], fo_subscribers = [], fo_pending = [], fo_frames_sent = 0,
     fo_readings_sent = 0, fo_frames_skipped = 0, fo_backlogged_closed = 0, fo_denied = 0,
     fo_buffer_max = buffer_max\<rparr>"

definition sock_open :: int where
  "sock_open = 1"

subsection \<open>Connections\<close>

definition fo_authenticated :: "fanout \<Rightarrow> nat" where
  "fo_authenticated f = length (filter (\<lambda>s. truthy (sb_tenant s)) (map snd (fo_subscribers f)))"

definition connections_for :: "string \<Rightarrow> fanout \<Rightarrow> nat" where
  "connections_for tenant f =
     length (filter (\<lambda>s. sb_tenant s = Some tenant) (map snd (fo_subscribers f)))"

definition fo_authenticate :: "string \<Rightarrow> string \<Rightarrow> fanout \<Rightarrow> bool \<times> fanout" where
  "fo_authenticate i tenant f =
     (case jget (fo_subscribers f) i of
        None \<Rightarrow> (False, f)
      | Some s \<Rightarrow> (True, f\<lparr>fo_subscribers := jset i (s\<lparr>sb_tenant := Some tenant\<rparr>) (fo_subscribers f)\<rparr>))"

definition fo_add :: "string \<Rightarrow> subscriber \<Rightarrow> fanout \<Rightarrow> fanout" where
  "fo_add i s f = f\<lparr>fo_subscribers := jset i s (fo_subscribers f)\<rparr>"

text \<open>Take a connection out of one topic's set, dropping the set when it is empty.\<close>

definition leave_topic :: "string \<Rightarrow> topic \<Rightarrow> (topic, string list) jsmap \<Rightarrow> (topic, string list) jsmap" where
  "leave_topic i t m =
     (case jget m t of
        None \<Rightarrow> m
      | Some ids \<Rightarrow> let ids' = removeAll i ids in if ids' = [] then jdel t m else jset t ids' m)"

definition join_topic :: "string \<Rightarrow> topic \<Rightarrow> (topic, string list) jsmap \<Rightarrow> (topic, string list) jsmap" where
  "join_topic i t m = jset t (sadd i (case jget m t of None \<Rightarrow> [] | Some ids \<Rightarrow> ids)) m"

definition fo_remove :: "string \<Rightarrow> fanout \<Rightarrow> fanout" where
  "fo_remove i f =
     (case jget (fo_subscribers f) i of
        None \<Rightarrow> f
      | Some s \<Rightarrow> f\<lparr>fo_by_topic := fold (leave_topic i) (sb_topics s) (fo_by_topic f),
                    fo_subscribers := jdel i (fo_subscribers f)\<rparr>)"

subsection \<open>Subscriptions\<close>

definition put_topics :: "string \<Rightarrow> (topic list \<Rightarrow> topic list) \<Rightarrow> fanout \<Rightarrow> fanout" where
  "put_topics i h f =
     (case jget (fo_subscribers f) i of
        None \<Rightarrow> f
      | Some s \<Rightarrow> f\<lparr>fo_subscribers := jset i (s\<lparr>sb_topics := h (sb_topics s)\<rparr>) (fo_subscribers f)\<rparr>)"

fun subscribe_all ::
  "(string \<Rightarrow> topic \<Rightarrow> bool) \<Rightarrow> string \<Rightarrow> string \<Rightarrow> topic list \<Rightarrow> topic list \<Rightarrow> fanout \<Rightarrow> topic list \<times> fanout" where
  "subscribe_all may i tenant [] denied f = (denied, f)"
| "subscribe_all may i tenant (t # ts) denied f =
     (if \<not> may tenant t
      then subscribe_all may i tenant ts (denied @ [t]) (f\<lparr>fo_denied := fo_denied f + 1\<rparr>)
      else subscribe_all may i tenant ts denied
        ((put_topics i (sadd t) f)\<lparr>fo_by_topic := join_topic i t (fo_by_topic f)\<rparr>))"

definition topics_of :: "string \<Rightarrow> fanout \<Rightarrow> topic list" where
  "topics_of i f = (case jget (fo_subscribers f) i of None \<Rightarrow> [] | Some s \<Rightarrow> sb_topics s)"

text \<open>\<open>subscribe\<close> answers the topics held and the ones denied.\<close>

definition fo_subscribe ::
  "(string \<Rightarrow> topic \<Rightarrow> bool) \<Rightarrow> string \<Rightarrow> topic list \<Rightarrow> fanout \<Rightarrow> (topic list \<times> topic list) \<times> fanout" where
  "fo_subscribe may i wanted f =
     (case jget (fo_subscribers f) i of
        None \<Rightarrow> (([], []), f)
      | Some s \<Rightarrow>
          if \<not> truthy (sb_tenant s) then ((sb_topics s, wanted), f)
          else let (denied, f') = subscribe_all may i (the (sb_tenant s)) wanted [] f
               in ((topics_of i f', denied), f'))"

definition fo_unsubscribe :: "string \<Rightarrow> topic list \<Rightarrow> fanout \<Rightarrow> topic list \<times> fanout" where
  "fo_unsubscribe i unwanted f =
     (case jget (fo_subscribers f) i of
        None \<Rightarrow> ([], f)
      | Some s \<Rightarrow>
          let f' = fold (\<lambda>t g. (put_topics i (removeAll t) g)\<lparr>fo_by_topic := leave_topic i t (fo_by_topic g)\<rparr>)
                     unwanted f
          in (topics_of i f', f'))"

subsection \<open>Publishing and delivery\<close>

definition topics_for :: "sensor \<Rightarrow> topic list" where
  "topics_for s =
     [topic_sensor (sn_id s)]
     @ (if truthy (sn_zone s) then [topic_zone (the (sn_zone s))] else [])
     @ (if truthy (sn_floor s) then [topic_floor (the (sn_floor s))] else [])
     @ (if truthy (sn_building s) then [topic_building (the (sn_building s))] else [])"

definition publish_topic :: "reading \<Rightarrow> topic \<Rightarrow> fanout \<Rightarrow> fanout" where
  "publish_topic r t f =
     (if jget (fo_by_topic f) t = None then f
      else case jget (fo_pending f) t of
             Some rs \<Rightarrow> f\<lparr>fo_pending := jset t (rs @ [r]) (fo_pending f)\<rparr>
           | None \<Rightarrow> f\<lparr>fo_pending := jset t [r] (fo_pending f)\<rparr>)"

definition fo_publish :: "sensor \<Rightarrow> reading \<Rightarrow> fanout \<Rightarrow> fanout" where
  "fo_publish s r f = fold (publish_topic r) (topics_for s) f"

text \<open>One socket: skipped unless open; closed or passed over when backlogged; written otherwise.\<close>

definition deliver_one :: "(string \<Rightarrow> payload \<Rightarrow> int) \<Rightarrow> payload \<Rightarrow> bool \<Rightarrow> string \<Rightarrow> fanout \<Rightarrow> fanout" where
  "deliver_one grow p must i f =
     (case jget (fo_subscribers f) i of
        None \<Rightarrow> f
      | Some s \<Rightarrow>
          if sb_ready s \<noteq> sock_open then f
          else if sb_buffered s > fo_buffer_max f then
            (if must
             then f\<lparr>fo_backlogged_closed := fo_backlogged_closed f + 1,
                    fo_subscribers := jset i (s\<lparr>sb_closed := sb_closed s @
                      [(1013, ''backlogged; reconnect and reconcile'')]\<rparr>) (fo_subscribers f)\<rparr>
             else f\<lparr>fo_frames_skipped := fo_frames_skipped f + 1\<rparr>)
          else f\<lparr>fo_subscribers := jset i (s\<lparr>sb_sent := sb_sent s @ [p],
                 sb_buffered := sb_buffered s + grow i p\<rparr>) (fo_subscribers f),
                 fo_frames_sent := fo_frames_sent f + 1\<rparr>)"

definition fo_deliver :: "(string \<Rightarrow> payload \<Rightarrow> int) \<Rightarrow> string list \<Rightarrow> payload \<Rightarrow> bool \<Rightarrow> fanout \<Rightarrow> fanout" where
  "fo_deliver grow ids p must f = fold (deliver_one grow p must) ids f"

definition fo_send :: "(string \<Rightarrow> payload \<Rightarrow> int) \<Rightarrow> topic \<Rightarrow> string \<Rightarrow> bool \<Rightarrow> fanout \<Rightarrow> fanout" where
  "fo_send grow t message must f =
     (case jget (fo_by_topic f) t of
        None \<Rightarrow> f
      | Some ids \<Rightarrow> if ids = [] then f else fo_deliver grow ids (OtherMessage message) must f)"

definition tick_one :: "(string \<Rightarrow> payload \<Rightarrow> int) \<Rightarrow> ms \<Rightarrow> topic \<times> reading list \<Rightarrow> fanout \<Rightarrow> fanout" where
  "tick_one grow now = (\<lambda>(t, rs) f.
     (case jget (fo_by_topic f) t of
        None \<Rightarrow> f
      | Some ids \<Rightarrow>
          if ids = [] then f
          else let f' = fo_deliver grow ids (TelemetryBatch t (map compact_reading rs) now) False f
               in f'\<lparr>fo_readings_sent := fo_readings_sent f' + int (length rs) * int (length ids)\<rparr>))"

definition fo_tick :: "(string \<Rightarrow> payload \<Rightarrow> int) \<Rightarrow> ms \<Rightarrow> fanout \<Rightarrow> fanout" where
  "fo_tick grow now f =
     (if fo_pending f = [] then f else fold (tick_one grow now) (fo_pending f) (f\<lparr>fo_pending := []\<rparr>))"

subsection \<open>The interface of the guard\<close>

text \<open>A topic admits the connections of at most one tenant.\<close>

locale topic_guard =
  fixes may :: "string \<Rightarrow> topic \<Rightarrow> bool"
  assumes one_tenant: "may a t \<Longrightarrow> may b t \<Longrightarrow> a = b"

interpretation registry_guard: topic_guard "may_subscribe g" for g
  by unfold_locales (rule may_subscribe_unique)

subsection \<open>Events\<close>

text \<open>What happens to a fan-out: the calls of the server and the pipeline, and what the network does
  to a socket. A connection is added with a fresh id and no topics; the server authenticates a
  connection that has no tenant yet, or rebinds it to the one it has.\<close>

datatype fanout_event =
    EvAdd string
  | EvAuth string string
  | EvRemove string
  | EvSubscribe string "topic list"
  | EvUnsubscribe string "topic list"
  | EvPublish sensor reading
  | EvSend topic string bool
  | EvTick ms
  | EvSocket string int int

definition new_subscriber :: subscriber where
  "new_subscriber = \<lparr>sb_topics = [], sb_tenant = None, sb_ready = sock_open, sb_buffered = 0,
     sb_sent = [], sb_closed = []\<rparr>"

fun fo_step :: "(string \<Rightarrow> payload \<Rightarrow> int) \<Rightarrow> (string \<Rightarrow> topic \<Rightarrow> bool) \<Rightarrow> fanout_event \<Rightarrow> fanout \<Rightarrow> fanout" where
  "fo_step grow may (EvAdd i) f = fo_add i new_subscriber f"
| "fo_step grow may (EvAuth i tenant) f = snd (fo_authenticate i tenant f)"
| "fo_step grow may (EvRemove i) f = fo_remove i f"
| "fo_step grow may (EvSubscribe i ts) f = snd (fo_subscribe may i ts f)"
| "fo_step grow may (EvUnsubscribe i ts) f = snd (fo_unsubscribe i ts f)"
| "fo_step grow may (EvPublish s r) f = fo_publish s r f"
| "fo_step grow may (EvSend t m must) f = fo_send grow t m must f"
| "fo_step grow may (EvTick now) f = fo_tick grow now f"
| "fo_step grow may (EvSocket i ready buffered) f =
     (case jget (fo_subscribers f) i of
        None \<Rightarrow> f
      | Some s \<Rightarrow> f\<lparr>fo_subscribers := jset i (s\<lparr>sb_ready := ready, sb_buffered := buffered\<rparr>) (fo_subscribers f)\<rparr>)"

text \<open>A step the server can make: ids are fresh.\<close>

fun fo_fresh :: "fanout_event \<Rightarrow> fanout \<Rightarrow> bool" where
  "fo_fresh (EvAdd i) f = (jget (fo_subscribers f) i = None)"
| "fo_fresh _ f = True"

text \<open>The connection is not rebound to a second tenant.\<close>

fun fo_bound_once :: "fanout_event \<Rightarrow> fanout \<Rightarrow> bool" where
  "fo_bound_once (EvAuth i tenant) f =
     (case jget (fo_subscribers f) i of None \<Rightarrow> True | Some s \<Rightarrow> sb_tenant s \<in> {None, Some tenant})"
| "fo_bound_once _ f = True"

inductive fo_reach :: "(string \<Rightarrow> payload \<Rightarrow> int) \<Rightarrow> (string \<Rightarrow> topic \<Rightarrow> bool) \<Rightarrow> fanout \<Rightarrow> fanout \<Rightarrow> bool"
  for grow :: "string \<Rightarrow> payload \<Rightarrow> int" and may :: "string \<Rightarrow> topic \<Rightarrow> bool" and f0 :: fanout where
  start: "fo_reach grow may f0 f0"
| step: "fo_reach grow may f0 f \<Longrightarrow> fo_fresh ev f \<Longrightarrow> fo_reach grow may f0 (fo_step grow may ev f)"

inductive fo_reach_bound :: "(string \<Rightarrow> payload \<Rightarrow> int) \<Rightarrow> (string \<Rightarrow> topic \<Rightarrow> bool) \<Rightarrow> fanout \<Rightarrow> fanout \<Rightarrow> bool"
  for grow :: "string \<Rightarrow> payload \<Rightarrow> int" and may :: "string \<Rightarrow> topic \<Rightarrow> bool" and f0 :: fanout where
  start: "fo_reach_bound grow may f0 f0"
| step: "fo_reach_bound grow may f0 f \<Longrightarrow> fo_fresh ev f \<Longrightarrow> fo_bound_once ev f \<Longrightarrow>
    fo_reach_bound grow may f0 (fo_step grow may ev f)"

subsection \<open>The index and the subscriptions agree\<close>

definition members :: "(topic, string list) jsmap \<Rightarrow> topic \<Rightarrow> string list" where
  "members m t = (case jget m t of None \<Rightarrow> [] | Some ids \<Rightarrow> ids)"

definition index_ok :: "(topic, string list) jsmap \<Rightarrow> bool" where
  "index_ok m = (jwf m \<and> (\<forall>t ids. jget m t = Some ids \<longrightarrow> ids \<noteq> [] \<and> distinct ids))"

definition fo_inv :: "fanout \<Rightarrow> bool" where
  "fo_inv f =
     (index_ok (fo_by_topic f) \<and> jwf (fo_subscribers f) \<and>
      (\<forall>i t. i \<in> set (members (fo_by_topic f) t) \<longleftrightarrow> t \<in> set (topics_of i f)))"

lemma removeAll_Nil: "removeAll i xs = [] \<longleftrightarrow> set xs \<subseteq> {i}"
  by (induction xs) auto

lemma members_leave:
  "set (members (leave_topic i t m) u) = (if u = t then set (members m t) - {i} else set (members m u))"
proof (cases "jget m t")
  case (Some ids)
  then show ?thesis
    by (cases "removeAll i ids = []") (auto simp: members_def leave_topic_def Let_def removeAll_Nil)
qed (simp add: members_def leave_topic_def)

lemma members_leave_fold:
  "set (members (fold (leave_topic i) ts m) u) =
     (if u \<in> set ts then set (members m u) - {i} else set (members m u))"
  by (induction ts arbitrary: m) (auto simp: members_leave)

lemma members_join: "set (members (join_topic i t m) u) =
    (if u = t then insert i (set (members m t)) else set (members m u))"
  by (auto simp: members_def join_topic_def)

lemma index_jset: "index_ok m \<Longrightarrow> ids \<noteq> [] \<Longrightarrow> distinct ids \<Longrightarrow> index_ok (jset t ids m)"
  unfolding index_ok_def by (simp split: if_splits)

lemma index_jdel: "index_ok m \<Longrightarrow> index_ok (jdel t m)"
  unfolding index_ok_def by (simp split: if_splits)

lemma index_leave [inv_intros]: "index_ok m \<Longrightarrow> index_ok (leave_topic i t m)"
proof (cases "jget m t")
  case (Some ids)
  moreover assume "index_ok m"
  ultimately have "index_ok m" "distinct (removeAll i ids)"
    by (auto simp: index_ok_def distinct_removeAll)
  then show ?thesis using Some by (simp add: leave_topic_def Let_def index_jset index_jdel)
qed (simp add: leave_topic_def)

lemma index_leave_fold [inv_intros]: "index_ok m \<Longrightarrow> index_ok (fold (leave_topic i) ts m)"
  by (induction ts arbitrary: m) (auto intro: inv_intros)

lemma index_join [inv_intros]: "index_ok m \<Longrightarrow> index_ok (join_topic i t m)"
proof -
  assume m: "index_ok m"
  have "distinct (case jget m t of None \<Rightarrow> [] | Some ids \<Rightarrow> ids)"
    using m by (cases "jget m t") (auto simp: index_ok_def)
  moreover have "sadd i xs \<noteq> []" for xs by (auto simp: sadd_def)
  ultimately show ?thesis unfolding join_topic_def by (intro index_jset m distinct_sadd) auto
qed

lemma members_distinct: "index_ok m \<Longrightarrow> distinct (members m t)"
  by (auto simp: index_ok_def members_def split: option.splits)

text \<open>What delivery does to one socket.\<close>

definition deliver_effect :: "(payload \<Rightarrow> int) \<Rightarrow> payload \<Rightarrow> bool \<Rightarrow> int \<Rightarrow> subscriber \<Rightarrow> subscriber" where
  "deliver_effect gr p must bmax s =
     (if sb_ready s \<noteq> sock_open then s
      else if sb_buffered s > bmax then
        (if must then s\<lparr>sb_closed := sb_closed s @ [(1013, ''backlogged; reconnect and reconcile'')]\<rparr> else s)
      else s\<lparr>sb_sent := sb_sent s @ [p], sb_buffered := sb_buffered s + gr p\<rparr>)"

lemma deliver_effect_fields [simp]:
  "sb_topics (deliver_effect gr p must b s) = sb_topics s"
  "sb_tenant (deliver_effect gr p must b s) = sb_tenant s"
  "sb_ready (deliver_effect gr p must b s) = sb_ready s"
  by (simp_all add: deliver_effect_def)

lemma deliver_one_fields [simp]:
  "fo_by_topic (deliver_one grow p must i f) = fo_by_topic f"
  "fo_pending (deliver_one grow p must i f) = fo_pending f"
  "fo_buffer_max (deliver_one grow p must i f) = fo_buffer_max f"
  by (simp_all add: deliver_one_def split: option.splits)

lemma deliver_one_subs:
  "jget (fo_subscribers (deliver_one grow p must i f)) j =
     map_option (\<lambda>s. if j = i then deliver_effect (grow j) p must (fo_buffer_max f) s else s) (jget (fo_subscribers f) j)"
  by (cases "jget (fo_subscribers f) i"; cases "jget (fo_subscribers f) j")
    (auto simp: deliver_one_def deliver_effect_def)

lemma deliver_one_jwf: "jwf (fo_subscribers f) \<Longrightarrow> jwf (fo_subscribers (deliver_one grow p must i f))"
  by (auto simp: deliver_one_def split: option.splits)

lemma fo_deliver_fields [simp]:
  "fo_by_topic (fo_deliver grow ids p must f) = fo_by_topic f"
  "fo_pending (fo_deliver grow ids p must f) = fo_pending f"
  "fo_buffer_max (fo_deliver grow ids p must f) = fo_buffer_max f"
  by (induction ids arbitrary: f) (simp_all add: fo_deliver_def)

lemma fo_deliver_subs:
  "distinct ids \<Longrightarrow> jget (fo_subscribers (fo_deliver grow ids p must f)) j =
     map_option (\<lambda>s. if j \<in> set ids then deliver_effect (grow j) p must (fo_buffer_max f) s else s)
       (jget (fo_subscribers f) j)"
proof (induction ids arbitrary: f)
  case (Cons i ids)
  have "jget (fo_subscribers (fo_deliver grow ids p must (deliver_one grow p must i f))) j =
     map_option (\<lambda>s. if j \<in> set ids then deliver_effect (grow j) p must (fo_buffer_max f) s else s)
       (jget (fo_subscribers (deliver_one grow p must i f)) j)"
    using Cons.IH[of "deliver_one grow p must i f", unfolded deliver_one_fields] Cons.prems by simp
  then show ?case
    using Cons.prems by (cases "jget (fo_subscribers f) j") (auto simp: fo_deliver_def deliver_one_subs)
qed (simp add: fo_deliver_def option.map_ident)

lemma fo_deliver_jwf: "jwf (fo_subscribers f) \<Longrightarrow> jwf (fo_subscribers (fo_deliver grow ids p must f))"
  by (induction ids arbitrary: f) (auto simp: fo_deliver_def deliver_one_jwf)

lemma fo_deliver_topics: "distinct ids \<Longrightarrow> topics_of i (fo_deliver grow ids p must f) = topics_of i f"
  by (auto simp: topics_of_def fo_deliver_subs split: option.splits)

lemma put_topics_fields [simp]:
  "fo_by_topic (put_topics i h f) = fo_by_topic f" "fo_pending (put_topics i h f) = fo_pending f"
  "fo_buffer_max (put_topics i h f) = fo_buffer_max f"
  by (simp_all add: put_topics_def split: option.splits)

lemma put_topics_subs:
  "jget (fo_subscribers (put_topics i h f)) j =
     map_option (\<lambda>s. if j = i then s\<lparr>sb_topics := h (sb_topics s)\<rparr> else s) (jget (fo_subscribers f) j)"
  by (cases "jget (fo_subscribers f) i"; cases "jget (fo_subscribers f) j") (auto simp: put_topics_def)

lemma put_topics_topics:
  "jget (fo_subscribers f) i \<noteq> None \<Longrightarrow>
   topics_of j (put_topics i h f) = (if j = i then h (topics_of i f) else topics_of j f)"
  by (auto simp: topics_of_def put_topics_subs split: option.splits)

lemma put_topics_jwf: "jwf (fo_subscribers f) \<Longrightarrow> jwf (fo_subscribers (put_topics i h f))"
  by (auto simp: put_topics_def split: option.splits)

lemma fo_inv_parts:
  assumes "fo_inv f"
  shows "index_ok (fo_by_topic f)" "jwf (fo_subscribers f)"
    "i \<in> set (members (fo_by_topic f) t) \<longleftrightarrow> t \<in> set (topics_of i f)"
  using assms by (auto simp: fo_inv_def)

text \<open>Changing a connection without its topics keeps the index.\<close>

lemma fo_inv_same_topics:
  assumes "fo_inv f" "fo_by_topic f' = fo_by_topic f" "jwf (fo_subscribers f')"
    and "\<And>i. topics_of i f' = topics_of i f"
  shows "fo_inv f'"
  using assms by (simp add: fo_inv_def)

lemma inv_add [inv_intros]:
  "fo_inv f \<Longrightarrow> jget (fo_subscribers f) i = None \<Longrightarrow> fo_inv (fo_add i new_subscriber f)"
  by (rule fo_inv_same_topics) (auto simp: fo_add_def topics_of_def new_subscriber_def dest: fo_inv_parts(2))

lemma inv_authenticate [inv_intros]: "fo_inv f \<Longrightarrow> fo_inv (snd (fo_authenticate i tenant f))"
  by (rule fo_inv_same_topics[of f])
    (auto simp: fo_authenticate_def topics_of_def dest: fo_inv_parts(2) split: option.splits)

lemma inv_remove [inv_intros]: "fo_inv f \<Longrightarrow> fo_inv (fo_remove i f)"
proof (cases "jget (fo_subscribers f) i")
  case (Some s)
  assume f: "fo_inv f"
  have "topics_of i f = sb_topics s" using Some by (simp add: topics_of_def)
  then have "i \<in> set (members (fo_by_topic f) t) \<longleftrightarrow> t \<in> set (sb_topics s)" for t
    using fo_inv_parts(3)[OF f, of i] by simp
  moreover have "j \<in> set (members (fo_by_topic f) t) \<longleftrightarrow> t \<in> set (topics_of j f)" for j t
    by (rule fo_inv_parts(3)[OF f])
  ultimately show ?thesis
    using Some f by (auto simp: fo_inv_def fo_remove_def members_leave_fold topics_of_def
        intro: inv_intros dest: eq_key_imp_eq_value)
qed (simp add: fo_remove_def)

lemma inv_join:
  assumes "fo_inv f" "jget (fo_subscribers f) i \<noteq> None"
  shows "fo_inv ((put_topics i (sadd t) f)\<lparr>fo_by_topic := join_topic i t (fo_by_topic f)\<rparr>)"
proof -
  have *: "topics_of j (f\<lparr>fo_by_topic := m\<rparr>) = topics_of j f" for j m f by (simp add: topics_of_def)
  show ?thesis
    using assms by (auto simp: fo_inv_def members_join * put_topics_topics put_topics_jwf intro: inv_intros)
qed

lemma inv_leave:
  assumes "fo_inv f" "jget (fo_subscribers f) i \<noteq> None"
  shows "fo_inv ((put_topics i (removeAll t) f)\<lparr>fo_by_topic := leave_topic i t (fo_by_topic f)\<rparr>)"
proof -
  have *: "topics_of j (f\<lparr>fo_by_topic := m\<rparr>) = topics_of j f" for j m f by (simp add: topics_of_def)
  show ?thesis
    using assms by (auto simp: fo_inv_def members_leave * put_topics_topics put_topics_jwf intro: inv_intros)
qed

lemma put_topics_known:
  "jget (fo_subscribers (put_topics i h f)) j \<noteq> None \<longleftrightarrow> jget (fo_subscribers f) j \<noteq> None"
  by (simp add: put_topics_subs)

lemma inv_subscribe_all:
  "fo_inv f \<Longrightarrow> jget (fo_subscribers f) i \<noteq> None \<Longrightarrow> fo_inv (snd (subscribe_all may i tenant ts d f))"
proof (induction may i tenant ts d f rule: subscribe_all.induct)
  case (2 may i tenant t ts d f)
  have "fo_inv (f\<lparr>fo_denied := fo_denied f + 1\<rparr>)"
    using 2(3) by (simp add: fo_inv_def topics_of_def)
  moreover note inv_join[OF 2(3,4), of t]
  ultimately show ?case using 2 by (simp add: put_topics_subs)
qed simp

lemma inv_subscribe [inv_intros]: "fo_inv f \<Longrightarrow> fo_inv (snd (fo_subscribe may i ts f))"
  using inv_subscribe_all[of f i may _ ts "[]"]
  by (auto simp: fo_subscribe_def Let_def case_prod_unfold split: option.splits)

lemma inv_unsubscribe [inv_intros]: "fo_inv f \<Longrightarrow> fo_inv (snd (fo_unsubscribe i ts f))"
proof -
  have "fo_inv f \<Longrightarrow> jget (fo_subscribers f) i \<noteq> None \<Longrightarrow>
      fo_inv (fold (\<lambda>t g. (put_topics i (removeAll t) g)\<lparr>fo_by_topic := leave_topic i t (fo_by_topic g)\<rparr>) ts f)"
    by (induction ts arbitrary: f) (simp_all add: inv_leave put_topics_subs)
  then show "fo_inv f \<Longrightarrow> fo_inv (snd (fo_unsubscribe i ts f))"
    by (auto simp: fo_unsubscribe_def Let_def split: option.splits)
qed

lemma publish_topic_fields [simp]:
  "fo_by_topic (publish_topic r t f) = fo_by_topic f"
  "fo_subscribers (publish_topic r t f) = fo_subscribers f"
  "fo_buffer_max (publish_topic r t f) = fo_buffer_max f"
  by (auto simp: publish_topic_def split: option.splits)

lemma fo_publish_fields [simp]:
  "fo_by_topic (fo_publish s r f) = fo_by_topic f"
  "fo_subscribers (fo_publish s r f) = fo_subscribers f"
  "fo_buffer_max (fo_publish s r f) = fo_buffer_max f"
proof -
  have "fo_by_topic (fold (publish_topic r) ts f) = fo_by_topic f \<and>
    fo_subscribers (fold (publish_topic r) ts f) = fo_subscribers f \<and>
    fo_buffer_max (fold (publish_topic r) ts f) = fo_buffer_max f" for ts
    by (induction ts arbitrary: f) auto
  then show "fo_by_topic (fo_publish s r f) = fo_by_topic f"
    "fo_subscribers (fo_publish s r f) = fo_subscribers f"
    "fo_buffer_max (fo_publish s r f) = fo_buffer_max f"
    by (simp_all add: fo_publish_def)
qed

lemma inv_publish [inv_intros]: "fo_inv f \<Longrightarrow> fo_inv (fo_publish s r f)"
  by (rule fo_inv_same_topics[of f]) (auto simp: topics_of_def dest: fo_inv_parts(2))

lemma inv_deliver: "fo_inv f \<Longrightarrow> distinct ids \<Longrightarrow> fo_inv (fo_deliver grow ids p must f)"
  by (rule fo_inv_same_topics[of f]) (auto simp: fo_deliver_topics fo_deliver_jwf dest: fo_inv_parts(2))

lemma by_topic_distinct: "fo_inv f \<Longrightarrow> jget (fo_by_topic f) t = Some ids \<Longrightarrow> distinct ids"
  by (auto simp: fo_inv_def index_ok_def)

lemma inv_send [inv_intros]: "fo_inv f \<Longrightarrow> fo_inv (fo_send grow t m must f)"
  by (auto simp: fo_send_def intro: inv_deliver by_topic_distinct split: option.splits)

lemma inv_stats: "fo_inv f \<Longrightarrow> fo_inv (f\<lparr>fo_readings_sent := n\<rparr>)" "fo_inv f \<Longrightarrow> fo_inv (f\<lparr>fo_pending := ps\<rparr>)"
  by (simp_all add: fo_inv_def topics_of_def)

lemma inv_tick_one: "fo_inv f \<Longrightarrow> fo_inv (tick_one grow now tr f)"
  by (auto simp: tick_one_def Let_def case_prod_unfold intro!: inv_stats inv_deliver
      intro: by_topic_distinct split: option.splits)

lemma inv_tick [inv_intros]: "fo_inv f \<Longrightarrow> fo_inv (fo_tick grow now f)"
proof -
  have "fo_inv f \<Longrightarrow> fo_inv (fold (tick_one grow now) ps f)" for ps f
    by (induction ps arbitrary: f) (auto intro: inv_tick_one)
  then show "fo_inv f \<Longrightarrow> fo_inv (fo_tick grow now f)" by (simp add: fo_tick_def inv_stats)
qed

lemma inv_step: "fo_inv f \<Longrightarrow> fo_fresh ev f \<Longrightarrow> fo_inv (fo_step grow may ev f)"
proof (cases ev)
  case (EvSocket i r b)
  then show "fo_inv f \<Longrightarrow> ?thesis"
    by (auto intro!: fo_inv_same_topics[of f] simp: topics_of_def dest: fo_inv_parts(2) split: option.splits)
qed (auto intro: inv_intros)

lemma inv_reach: "fo_reach grow may (mk_fanout b) f \<Longrightarrow> fo_inv f"
proof (induction rule: fo_reach.induct)
  case start
  show ?case by (simp add: fo_inv_def index_ok_def mk_fanout_def members_def topics_of_def)
qed (rule inv_step)

subsection \<open>Delivery\<close>

lemma fo_send_subs:
  assumes "fo_inv f"
  shows "jget (fo_subscribers (fo_send grow t m must f)) i =
    map_option (\<lambda>s. if t \<in> set (sb_topics s)
      then deliver_effect (grow i) (OtherMessage m) must (fo_buffer_max f) s else s) (jget (fo_subscribers f) i)"
proof (cases "jget (fo_by_topic f) t")
  case None
  then have "t \<notin> set (topics_of i f)" using fo_inv_parts(3)[OF assms, of i t] by (simp add: members_def)
  then show ?thesis using None by (cases "jget (fo_subscribers f) i") (auto simp: fo_send_def topics_of_def)
next
  case (Some ids)
  then have ids: "ids \<noteq> []" "distinct ids" using assms by (auto simp: fo_inv_def index_ok_def)
  have "i \<in> set ids \<longleftrightarrow> t \<in> set (topics_of i f)"
    using fo_inv_parts(3)[OF assms, of i t] Some by (simp add: members_def)
  then show ?thesis
    using Some ids by (cases "jget (fo_subscribers f) i") (auto simp: fo_send_def fo_deliver_subs topics_of_def)
qed

lemma tick_one_subs:
  assumes "fo_inv f"
  shows "jget (fo_subscribers (tick_one grow now (t, rs) f)) i =
    map_option (\<lambda>s. if t \<in> set (sb_topics s)
      then deliver_effect (grow i) (TelemetryBatch t (map compact_reading rs) now) False (fo_buffer_max f) s else s)
      (jget (fo_subscribers f) i)"
proof (cases "jget (fo_by_topic f) t")
  case None
  then have "t \<notin> set (topics_of i f)" using fo_inv_parts(3)[OF assms, of i t] by (simp add: members_def)
  then show ?thesis using None by (cases "jget (fo_subscribers f) i") (auto simp: tick_one_def topics_of_def)
next
  case (Some ids)
  then have ids: "ids \<noteq> []" "distinct ids" using assms by (auto simp: fo_inv_def index_ok_def)
  have "i \<in> set ids \<longleftrightarrow> t \<in> set (topics_of i f)"
    using fo_inv_parts(3)[OF assms, of i t] Some by (simp add: members_def)
  then show ?thesis
    using Some ids by (cases "jget (fo_subscribers f) i") (auto simp: tick_one_def Let_def fo_deliver_subs topics_of_def)
qed

lemma tick_one_fields [simp]:
  "fo_by_topic (tick_one grow now tr f) = fo_by_topic f"
  "fo_buffer_max (tick_one grow now tr f) = fo_buffer_max f"
  by (auto simp: tick_one_def Let_def case_prod_unfold split: option.splits)

text \<open>The frames one socket is written by a tick: a batch for each pending topic it holds, in the
  order the topics became pending.\<close>

definition tick_frames :: "ms \<Rightarrow> (topic \<times> reading list) list \<Rightarrow> topic list \<Rightarrow> payload list" where
  "tick_frames now ps held =
     map (\<lambda>(t, rs). TelemetryBatch t (map compact_reading rs) now) (filter (\<lambda>(t, rs). t \<in> set held) ps)"

lemma tick_fold_subs:
  "fo_inv f \<Longrightarrow> jget (fo_subscribers (fold (tick_one grow now) ps f)) i =
    map_option (\<lambda>s. fold (\<lambda>p. deliver_effect (grow i) p False (fo_buffer_max f))
      (tick_frames now ps (sb_topics s)) s) (jget (fo_subscribers f) i)"
proof (induction ps arbitrary: f)
  case Nil
  then show ?case by (cases "jget (fo_subscribers f) i") (simp_all add: tick_frames_def)
next
  case (Cons p ps)
  obtain t rs where p: "p = (t, rs)" by (cases p)
  have "jget (fo_subscribers (fold (tick_one grow now) ps (tick_one grow now (t, rs) f))) i =
    map_option (\<lambda>s. fold (\<lambda>p. deliver_effect (grow i) p False (fo_buffer_max f))
      (tick_frames now ps (sb_topics s)) s)
      (jget (fo_subscribers (tick_one grow now (t, rs) f)) i)"
    using Cons.IH[OF inv_tick_one[OF Cons.prems], of grow now "(t, rs)", unfolded tick_one_fields] .
  then show ?case
    using p by (cases "jget (fo_subscribers f) i") (auto simp: tick_one_subs[OF Cons.prems] tick_frames_def)
qed

lemma fo_tick_subs:
  "fo_inv f \<Longrightarrow> jget (fo_subscribers (fo_tick grow now f)) i =
    map_option (\<lambda>s. fold (\<lambda>p. deliver_effect (grow i) p False (fo_buffer_max f))
      (tick_frames now (fo_pending f) (sb_topics s)) s) (jget (fo_subscribers f) i)"
  using tick_fold_subs[OF inv_stats(2)[of f "[]"], of grow now "fo_pending f" i]
  by (cases "jget (fo_subscribers f) i") (simp_all add: fo_tick_def tick_frames_def)

text \<open>A backlog only grows within a tick, so a socket takes an initial part of the tick's frames,
  and all of them when they fit.\<close>

lemma deliver_closed_socket:
  "sb_ready s \<noteq> sock_open \<or> b < sb_buffered s \<Longrightarrow> fold (\<lambda>p. deliver_effect gr p False b) ps s = s"
  by (induction ps) (auto simp: deliver_effect_def)

lemma deliver_fold_prefix:
  "\<exists>k. sb_sent (fold (\<lambda>p. deliver_effect gr p False b) ps s) = sb_sent s @ take k ps"
proof (induction ps arbitrary: s)
  case (Cons p ps)
  show ?case
  proof (cases "sb_ready s \<noteq> sock_open \<or> b < sb_buffered s")
    case True
    then show ?thesis using deliver_closed_socket[OF True, of gr "p # ps"] by (intro exI[of _ 0]) simp
  next
    case False
    then have "sb_sent (deliver_effect gr p False b s) = sb_sent s @ [p]" by (simp add: deliver_effect_def)
    moreover obtain k where "sb_sent (fold (\<lambda>p. deliver_effect gr p False b) ps (deliver_effect gr p False b s))
        = sb_sent (deliver_effect gr p False b s) @ take k ps" using Cons.IH by blast
    ultimately show ?thesis by (intro exI[of _ "Suc k"]) simp
  qed
qed simp

lemma deliver_fold_all:
  "sb_ready s = sock_open \<Longrightarrow> \<forall>p. 0 \<le> gr p \<Longrightarrow> sb_buffered s + sum_list (map gr ps) \<le> b \<Longrightarrow>
   sb_sent (fold (\<lambda>p. deliver_effect gr p False b) ps s) = sb_sent s @ ps"
proof (induction ps arbitrary: s)
  case (Cons p ps)
  have nn: "0 \<le> sum_list (map gr ps)" using Cons.prems(2) by (intro sum_list_nonneg) auto
  let ?s = "deliver_effect gr p False b s"
  have "sb_buffered s \<le> b" using Cons.prems(3) nn spec[OF Cons.prems(2), of p] by simp
  then have "sb_sent ?s = sb_sent s @ [p]" "sb_buffered ?s = sb_buffered s + gr p"
    using Cons.prems(1) by (simp_all add: deliver_effect_def)
  then show ?case using Cons.IH[of ?s] Cons.prems by simp
qed simp

lemma deliver_skips_nothing_must:
  "fo_frames_skipped (fo_deliver grow ids p True f) = fo_frames_skipped f"
proof -
  have "fo_frames_skipped (deliver_one grow p True i f) = fo_frames_skipped f" for i f
    by (simp add: deliver_one_def split: option.splits)
  then show ?thesis by (induction ids arbitrary: f) (auto simp: fo_deliver_def)
qed

subsection \<open>Admission\<close>

definition held_or_sent :: "subscriber \<Rightarrow> topic set" where
  "held_or_sent s = set (sb_topics s) \<union> {t. \<exists>rs now. TelemetryBatch t rs now \<in> set (sb_sent s)}"

definition admitted :: "(string \<Rightarrow> topic \<Rightarrow> bool) \<Rightarrow> subscriber \<Rightarrow> bool" where
  "admitted may s = (\<forall>t \<in> held_or_sent s. \<exists>tenant. sb_tenant s = Some tenant \<and> may tenant t)"

definition fo_adm :: "(string \<Rightarrow> topic \<Rightarrow> bool) \<Rightarrow> fanout \<Rightarrow> bool" where
  "fo_adm may f = (\<forall>i s. jget (fo_subscribers f) i = Some s \<longrightarrow> admitted may s)"

lemma fo_admD: "fo_adm may f \<Longrightarrow> jget (fo_subscribers f) i = Some s \<Longrightarrow> admitted may s"
  by (simp add: fo_adm_def)

lemma admittedD: "admitted may s \<Longrightarrow> t \<in> held_or_sent s \<Longrightarrow> \<exists>tenant. sb_tenant s = Some tenant \<and> may tenant t"
  by (simp add: admitted_def)

lemma fo_adm_mono:
  assumes "fo_adm may f"
    and "\<And>i s'. jget (fo_subscribers f') i = Some s' \<Longrightarrow>
      \<exists>s. jget (fo_subscribers f) i = Some s \<and> sb_tenant s' = sb_tenant s \<and> held_or_sent s' \<subseteq> held_or_sent s"
  shows "fo_adm may f'"
  unfolding fo_adm_def
proof (intro allI impI)
  fix i s' assume "jget (fo_subscribers f') i = Some s'"
  from assms(2)[OF this] obtain s where s: "jget (fo_subscribers f) i = Some s"
    "sb_tenant s' = sb_tenant s" "held_or_sent s' \<subseteq> held_or_sent s" by blast
  then show "admitted may s'" using assms(1) by (auto simp: fo_adm_def admitted_def)
qed

lemma held_deliver:
  "held_or_sent (deliver_effect gr p must b s) \<subseteq>
     held_or_sent s \<union> (case p of TelemetryBatch t _ _ \<Rightarrow> {t} | OtherMessage _ \<Rightarrow> {})"
  by (auto simp: held_or_sent_def deliver_effect_def split: payload.splits if_splits)

lemma fold_deliver_fields [simp]:
  "sb_tenant (fold (\<lambda>p. deliver_effect gr p False b) ps s) = sb_tenant s"
  "sb_topics (fold (\<lambda>p. deliver_effect gr p False b) ps s) = sb_topics s"
  by (induction ps arbitrary: s) auto

lemma held_tick:
  "held_or_sent (fold (\<lambda>p. deliver_effect gr p False b) (tick_frames now ps (sb_topics s)) s) = held_or_sent s"
proof -
  obtain k where k: "sb_sent (fold (\<lambda>p. deliver_effect gr p False b) (tick_frames now ps (sb_topics s)) s)
      = sb_sent s @ take k (tick_frames now ps (sb_topics s))" using deliver_fold_prefix by blast
  have "t \<in> set (sb_topics s)"
    if "TelemetryBatch t rs n \<in> set (take k (tick_frames now ps (sb_topics s)))" for t rs n
    using in_set_takeD[OF that] by (auto simp: tick_frames_def)
  then show ?thesis by (auto simp: held_or_sent_def k)
qed

lemma adm_subscribe_all:
  "fo_adm may f \<Longrightarrow> jget (fo_subscribers f) i = Some s \<Longrightarrow> sb_tenant s = Some tenant \<Longrightarrow>
   fo_adm may (snd (subscribe_all may i tenant ts d f))"
proof (induction may i tenant ts d f arbitrary: s rule: subscribe_all.induct)
  case (2 may i tenant t ts d f)
  show ?case
  proof (cases "may tenant t")
    case True
    let ?f = "(put_topics i (sadd t) f)\<lparr>fo_by_topic := join_topic i t (fo_by_topic f)\<rparr>"
    have i: "jget (fo_subscribers ?f) i = Some (s\<lparr>sb_topics := sadd t (sb_topics s)\<rparr>)"
      using 2(4) by (simp add: put_topics_subs)
    have "admitted may s" using 2(3,4) by (rule fo_admD)
    then have "admitted may (s\<lparr>sb_topics := sadd t (sb_topics s)\<rparr>)"
      using 2(5) True by (auto simp: admitted_def held_or_sent_def)
    then have "fo_adm may ?f"
      using 2(3,4) by (auto simp: fo_adm_def put_topics_subs split: if_splits)
    then show ?thesis using 2(2)[OF _ _ i] True 2(5) by simp
  next
    case False
    then show ?thesis using 2(1)[OF _ _ _ 2(5)] 2(3,4) by (simp add: fo_adm_def)
  qed
qed simp

lemma adm_unsubscribe: "fo_adm may f \<Longrightarrow> fo_adm may (snd (fo_unsubscribe i ts f))"
proof -
  have one: "fo_adm may f \<Longrightarrow> fo_adm may ((put_topics i (removeAll t) f)\<lparr>fo_by_topic := m\<rparr>)" for f t m
    by (erule fo_adm_mono) (auto simp: put_topics_subs held_or_sent_def)
  have "fo_adm may f \<Longrightarrow>
      fo_adm may (fold (\<lambda>t g. (put_topics i (removeAll t) g)\<lparr>fo_by_topic := leave_topic i t (fo_by_topic g)\<rparr>) ts f)"
    by (induction ts arbitrary: f) (simp_all add: one)
  then show "fo_adm may f \<Longrightarrow> fo_adm may (snd (fo_unsubscribe i ts f))"
    by (auto simp: fo_unsubscribe_def Let_def split: option.splits)
qed

lemma adm_step:
  assumes inv: "fo_inv f" and adm: "fo_adm may f" and "fo_fresh ev f" and "fo_bound_once ev f"
  shows "fo_adm may (fo_step grow may ev f)"
proof (cases ev)
  case (EvAdd i)
  then show ?thesis
    using adm by (auto simp: fo_adm_def fo_add_def new_subscriber_def admitted_def held_or_sent_def)
next
  case (EvAuth i tenant)
  then show ?thesis
    using adm assms(4)
    by (fastforce simp: fo_adm_def fo_authenticate_def admitted_def held_or_sent_def split: option.splits if_splits)
next
  case (EvRemove i)
  then show ?thesis using adm by (auto simp: fo_adm_def fo_remove_def split: option.splits)
next
  case (EvSubscribe i ts)
  have "truthy v \<Longrightarrow> v = Some (the v)" for v by (cases v) (auto simp: truthy_def)
  then show ?thesis
    using EvSubscribe adm adm_subscribe_all[OF adm]
    by (auto simp: fo_subscribe_def Let_def case_prod_unfold split: option.splits)
next
  case (EvUnsubscribe i ts)
  then show ?thesis using adm_unsubscribe[OF adm] by simp
next
  case (EvPublish s r)
  then show ?thesis using adm by (simp add: fo_adm_def)
next
  case (EvSend t m must)
  show ?thesis
    unfolding EvSend fo_step.simps
  proof (rule fo_adm_mono[OF adm])
    fix i s' assume "jget (fo_subscribers (fo_send grow t m must f)) i = Some s'"
    then obtain s where s: "jget (fo_subscribers f) i = Some s"
      "s' = s \<or> s' = deliver_effect (grow i) (OtherMessage m) must (fo_buffer_max f) s"
      by (auto simp: fo_send_subs[OF inv] split: if_splits)
    then show "\<exists>s. jget (fo_subscribers f) i = Some s \<and> sb_tenant s' = sb_tenant s \<and>
        held_or_sent s' \<subseteq> held_or_sent s"
      using held_deliver[of "grow i" "OtherMessage m" must "fo_buffer_max f" s] by auto
  qed
next
  case (EvTick now)
  show ?thesis
    unfolding EvTick fo_step.simps
    by (rule fo_adm_mono[OF adm]) (auto simp: fo_tick_subs[OF inv] held_tick)
next
  case (EvSocket i r b)
  then show ?thesis
    using adm by (auto simp: fo_adm_def admitted_def held_or_sent_def split: option.splits if_splits)
qed

lemma reach_bound_reach: "fo_reach_bound grow may f0 f \<Longrightarrow> fo_reach grow may f0 f"
  by (induction rule: fo_reach_bound.induct) (auto intro: fo_reach.intros)

lemma adm_reach: "fo_reach_bound grow may (mk_fanout b) f \<Longrightarrow> fo_adm may f"
proof (induction rule: fo_reach_bound.induct)
  case start
  show ?case by (simp add: fo_adm_def mk_fanout_def)
next
  case (step f ev)
  then show ?case using adm_step inv_reach reach_bound_reach by blast
qed

text \<open>Under a guard that admits one tenant per topic, the subscribers of a topic are one tenant's.\<close>

context topic_guard
begin

lemma one_audience:
  assumes "fo_reach_bound grow may (mk_fanout b) f" "jget (fo_subscribers f) i = Some s"
    and "t \<in> held_or_sent s"
  shows "\<exists>tenant. sb_tenant s = Some tenant \<and> may tenant t \<and>
    (\<forall>j s'. jget (fo_subscribers f) j = Some s' \<longrightarrow> t \<in> held_or_sent s' \<longrightarrow> sb_tenant s' = Some tenant)"
proof -
  have adm: "fo_adm may f" using assms(1) by (rule adm_reach)
  then obtain tenant where tn: "sb_tenant s = Some tenant" "may tenant t"
    using admittedD[OF fo_admD[OF adm assms(2)] assms(3)] by blast
  have "sb_tenant s' = Some tenant"
    if s': "jget (fo_subscribers f) j = Some s'" "t \<in> held_or_sent s'" for j s'
  proof -
    obtain tn' where "sb_tenant s' = Some tn'" "may tn' t"
      using admittedD[OF fo_admD[OF adm s'(1)] s'(2)] by blast
    then show ?thesis using one_tenant[OF tn(2)] by simp
  qed
  then show ?thesis using tn by blast
qed

end

subsection \<open>What is pending\<close>

text \<open>The readings published for a topic, in order.\<close>

definition published :: "(sensor \<times> reading) list \<Rightarrow> topic \<Rightarrow> reading list" where
  "published pubs t = map snd (filter (\<lambda>(s, r). t \<in> set (topics_for s)) pubs)"

definition is_batch_of :: "topic \<Rightarrow> payload \<Rightarrow> bool" where
  "is_batch_of t p = (case p of TelemetryBatch u _ _ \<Rightarrow> u = t | OtherMessage _ \<Rightarrow> False)"

definition waiting :: "fanout \<Rightarrow> topic \<Rightarrow> reading list" where
  "waiting f t = (case jget (fo_pending f) t of None \<Rightarrow> [] | Some rs \<Rightarrow> rs)"

lemma distinct_topics_for: "distinct (topics_for s)"
  by (simp add: topics_for_def topic_defs)

lemma publish_topic_pending:
  "jget (fo_pending (publish_topic r t f)) u =
     (if u = t \<and> jget (fo_by_topic f) t \<noteq> None then Some (waiting f t @ [r]) else jget (fo_pending f) u)"
  by (auto simp: publish_topic_def waiting_def split: option.splits)

lemma publish_topics_pending:
  "distinct ts \<Longrightarrow> jget (fo_pending (fold (publish_topic r) ts f)) u =
     (if u \<in> set ts \<and> jget (fo_by_topic f) u \<noteq> None then Some (waiting f u @ [r]) else jget (fo_pending f) u)"
proof (induction ts arbitrary: f)
  case (Cons t ts)
  have "waiting (publish_topic r t f) u = waiting f u" if "u \<noteq> t"
    using that by (simp add: waiting_def publish_topic_pending)
  then show ?case using Cons by (auto simp: publish_topic_pending)
qed simp

lemma publish_pending:
  "jget (fo_pending (fo_publish s r f)) u =
     (if u \<in> set (topics_for s) \<and> jget (fo_by_topic f) u \<noteq> None then Some (waiting f u @ [r])
      else jget (fo_pending f) u)"
  by (simp add: fo_publish_def publish_topics_pending distinct_topics_for)

lemma publish_fold_fields:
  "fo_by_topic (fold (\<lambda>(n, r). fo_publish n r) pubs f) = fo_by_topic f"
  "fo_subscribers (fold (\<lambda>(n, r). fo_publish n r) pubs f) = fo_subscribers f"
  "fo_buffer_max (fold (\<lambda>(n, r). fo_publish n r) pubs f) = fo_buffer_max f"
  by (induction pubs arbitrary: f) (auto split: prod.splits)

lemma publish_fold_pending:
  assumes "jget (fo_by_topic f) t \<noteq> None"
  shows "jget (fo_pending (fold (\<lambda>(n, r). fo_publish n r) pubs f)) t =
    (if published pubs t = [] then jget (fo_pending f) t else Some (waiting f t @ published pubs t))"
  using assms
proof (induction pubs arbitrary: f)
  case (Cons p pubs)
  obtain n r where p: "p = (n, r)" by (cases p)
  have "waiting (fo_publish n r f) t = (if t \<in> set (topics_for n) then waiting f t @ [r] else waiting f t)"
    using Cons.prems by (simp add: waiting_def publish_pending)
  then show ?case
    using Cons.IH[of "fo_publish n r f"] Cons.prems p by (auto simp: published_def publish_pending)
qed (simp add: published_def)

lemma publish_fold_jwf:
  "fo_pending f = [] \<Longrightarrow> jwf (fo_pending (fold (\<lambda>(n, r). fo_publish n r) pubs f))"
proof -
  have one: "jwf (fo_pending f) \<Longrightarrow> jwf (fo_pending (publish_topic r t f))" for r t f
    by (simp add: publish_topic_def split: option.splits)
  have many: "jwf (fo_pending f) \<Longrightarrow> jwf (fo_pending (fold (publish_topic r) ts f))" for r ts f
    by (induction ts arbitrary: f) (simp_all add: one)
  have "jwf (fo_pending f) \<Longrightarrow> jwf (fo_pending (fold (\<lambda>(n, r). fo_publish n r) pubs f))"
    by (induction pubs arbitrary: f) (simp_all add: fo_publish_def many split: prod.splits)
  then show "fo_pending f = [] \<Longrightarrow> ?thesis" by simp
qed

lemma inv_publish_fold: "fo_inv f \<Longrightarrow> fo_inv (fold (\<lambda>(n, r). fo_publish n r) pubs f)"
  by (induction pubs arbitrary: f) (auto intro: inv_publish split: prod.splits)

lemma tick_frames_topic:
  "jwf ps \<Longrightarrow> filter (is_batch_of t) (tick_frames now ps held) =
     (if t \<in> set held then (case jget ps t of None \<Rightarrow> [] | Some rs \<Rightarrow> [TelemetryBatch t (map compact_reading rs) now])
      else [])"
proof (induction ps)
  case (Cons p ps)
  obtain u rs where p: "p = (u, rs)" by (cases p)
  have "jget ps u = None" using Cons.prems p by (simp add: jget_None_iff)
  then show ?case using Cons p by (auto simp: tick_frames_def is_batch_of_def)
qed (simp add: tick_frames_def)

subsection \<open>Properties\<close>

text \<open>A sample: two tenants, a sensor of the first, a connection authenticated for each.\<close>

definition sample_owner :: registry where
  "sample_owner = refresh_finish (Inr (own_spatial (sample_database ! 0)
     (add_row (sample_sensor ''b2'' ''t1'' ''KW'') empty_maps))) (mk_registry default_registry_options)"

definition sample_grow :: "string \<Rightarrow> payload \<Rightarrow> int" where
  "sample_grow i p = 0"

definition sample_reading :: reading where
  "sample_reading = \<lparr>rd_sensor = ''b2'', rd_ts = 5, rd_value = Num 1, rd_quality = Good\<rparr>"

definition sample_connect :: "fanout_event list" where
  "sample_connect = [EvAdd ''c1'', EvAuth ''c1'' ''t1'', EvSubscribe ''c1'' [''sensor:b2'', ''zone:zz'']]"

lemma reach_bound_steps:
  "fo_reach_bound grow may f0 f \<Longrightarrow> fo_fresh ev f \<Longrightarrow> fo_bound_once ev f \<Longrightarrow> fo_step grow may ev f = f' \<Longrightarrow>
   fo_reach_bound grow may f0 f'"
  using fo_reach_bound.step by blast

definition sample_fanout :: fanout where
  "sample_fanout = fold (fo_step sample_grow (may_subscribe sample_owner)) sample_connect (mk_fanout 1000)"

lemmas fanout_eval = sample_owner_def sample_database_def sample_connect_def
  refresh_finish_def own_spatial_def sample_grow_def add_row_def own_if_def truthy_def empty_maps_def sample_sensor_def
  mk_registry_def may_subscribe_def owner_of_def topic_scope_def topic_id_def fo_add_def new_subscriber_def
  fo_authenticate_def fo_subscribe_def put_topics_def join_topic_def topics_of_def sadd_def mk_fanout_def
  sock_open_def Let_def registry_key_def

lemma sample_fanout_eq:
  "sample_fanout = \<lparr>fo_by_topic = [(''sensor:b2'', [''c1''])],
     fo_subscribers = [(''c1'', \<lparr>sb_topics = [''sensor:b2''], sb_tenant = Some ''t1'', sb_ready = 1,
       sb_buffered = 0, sb_sent = [], sb_closed = []\<rparr>)],
     fo_pending = [], fo_frames_sent = 0, fo_readings_sent = 0, fo_frames_skipped = 0,
     fo_backlogged_closed = 0, fo_denied = 1, fo_buffer_max = 1000\<rparr>"
  by (simp add: sample_fanout_def fanout_eval)

lemma sample_fanout_reach:
  "fo_reach_bound sample_grow (may_subscribe sample_owner) (mk_fanout 1000) sample_fanout"
  unfolding sample_fanout_def sample_connect_def fold.simps comp_def id_def
  by (intro fo_reach_bound.intros) (simp_all add: fo_add_def new_subscriber_def mk_fanout_def)

text \<open>C23: After any sequence of connects, authentications, subscribes, unsubscribes, disconnects,
  publishes, sends, ticks and socket changes, the index from topics to connections and the topic sets
  of the connections agree: a connection is found under a topic exactly when it is connected and holds
  that topic, no topic keeps an empty or repeating set, so a removed connection is never written to.\<close>
theorem fanout_index_consistent:
  assumes "fo_reach grow may (mk_fanout b) f"
  shows "(i \<in> set (members (fo_by_topic f) t) \<longleftrightarrow>
      (\<exists>s. jget (fo_subscribers f) i = Some s \<and> t \<in> set (sb_topics s))) \<and>
    jget (fo_by_topic f) t \<noteq> Some [] \<and> distinct (members (fo_by_topic f) t)"
proof (intro conjI)
  have inv: "fo_inv f" using inv_reach[OF assms] .
  show "i \<in> set (members (fo_by_topic f) t) \<longleftrightarrow>
      (\<exists>s. jget (fo_subscribers f) i = Some s \<and> t \<in> set (sb_topics s))"
    unfolding fo_inv_parts(3)[OF inv, of i t] topics_of_def
    by (cases "jget (fo_subscribers f) i") simp_all
  show "jget (fo_by_topic f) t \<noteq> Some []" using fo_inv_parts(1)[OF inv] unfolding index_ok_def by blast
  show "distinct (members (fo_by_topic f) t)" by (rule members_distinct[OF fo_inv_parts(1)[OF inv]])
qed

theorem fanout_index_consistent_witness:
  "''c1'' \<in> set (members (fo_by_topic sample_fanout) ''sensor:b2'')"
  using fanout_index_consistent[OF reach_bound_reach[OF sample_fanout_reach], of "''c1''" "''sensor:b2''"]
  by (simp add: sample_fanout_eq)

text \<open>C1: With the registry as the guard, a connection that is bound to one tenant holds, and is ever
  written a telemetry batch for, only topics that its tenant may subscribe to, and every other
  connection holding the same topic belongs to the same tenant: telemetry does not cross tenants.\<close>
theorem fanout_isolation:
  assumes "fo_reach_bound grow (may_subscribe g) (mk_fanout b) f" "jget (fo_subscribers f) i = Some s"
    and "t \<in> set (sb_topics s) \<or> TelemetryBatch t rs now \<in> set (sb_sent s)"
  shows "\<exists>tenant. sb_tenant s = Some tenant \<and> may_subscribe g tenant t \<and>
    (\<forall>j s'. jget (fo_subscribers f) j = Some s' \<longrightarrow> t \<in> set (sb_topics s') \<longrightarrow> sb_tenant s' = Some tenant)"
proof -
  have "t \<in> held_or_sent s" using assms(3) by (auto simp: held_or_sent_def)
  from registry_guard.one_audience[OF assms(1,2) this] obtain tenant where
    a: "sb_tenant s = Some tenant" "may_subscribe g tenant t"
    "\<forall>j s'. jget (fo_subscribers f) j = Some s' \<longrightarrow> t \<in> held_or_sent s' \<longrightarrow> sb_tenant s' = Some tenant"
    by blast
  have "set (sb_topics s') \<subseteq> held_or_sent s'" for s' by (auto simp: held_or_sent_def)
  with a show ?thesis by blast
qed

theorem fanout_isolation_witness:
  "\<exists>tenant. Some ''t1'' = Some tenant \<and> may_subscribe sample_owner tenant ''sensor:b2''"
  using fanout_isolation[OF sample_fanout_reach, of "''c1''" _ "''sensor:b2''" "[]" 0]
  by (simp add: sample_fanout_eq)

text \<open>A connection that authenticates again for another tenant keeps the topics it held: after
  subscribing as tenant t1 and re-authenticating as t2 it is still written t1's readings, though a
  subscribe as t2 to the same topic is refused.\<close>
theorem fanout_reauth_keeps_topics:
  "let may = may_subscribe sample_owner;
       f = fold (fo_step sample_grow may) [EvAuth ''c1'' ''t2'',
             EvPublish (sample_sensor ''b2'' ''t1'' ''KW'') sample_reading, EvTick 9] sample_fanout
   in \<not> may ''t2'' ''sensor:b2'' \<and>
      map_option (\<lambda>s. (sb_tenant s, sb_sent s)) (jget (fo_subscribers f) ''c1'') =
        Some (Some ''t2'', [TelemetryBatch ''sensor:b2'' [compact_reading sample_reading] 9])"
  by (simp add: sample_fanout_eq fanout_eval fo_publish_def publish_topic_def topics_for_def topic_defs
      fo_tick_def tick_one_def fo_deliver_def deliver_one_def)

text \<open>A frame that may not be skipped (an alert) is never silently lost on a connected socket: every
  open subscriber of the topic is either written the frame, at the end of what it was sent, or closed
  with 1013 so that it reconnects and reconciles; no skip is counted, and no one else is touched.\<close>
theorem fanout_must_deliver:
  assumes "fo_reach grow may (mk_fanout b) f" "jget (fo_subscribers f) i = Some s"
  shows "\<exists>s'. jget (fo_subscribers (fo_send grow t m True f)) i = Some s' \<and>
    fo_frames_skipped (fo_send grow t m True f) = fo_frames_skipped f \<and>
    (if t \<in> set (sb_topics s) \<and> sb_ready s = sock_open
     then (if sb_buffered s \<le> fo_buffer_max f
           then sb_sent s' = sb_sent s @ [OtherMessage m] \<and> sb_closed s' = sb_closed s
           else sb_sent s' = sb_sent s \<and>
             sb_closed s' = sb_closed s @ [(1013, ''backlogged; reconnect and reconcile'')])
     else s' = s)"
proof -
  have "fo_frames_skipped (fo_send grow t m True f) = fo_frames_skipped f"
    by (simp add: fo_send_def deliver_skips_nothing_must split: option.splits)
  then show ?thesis
    using assms(2) by (simp add: fo_send_subs[OF inv_reach[OF assms(1)]] deliver_effect_def)
qed

theorem fanout_must_deliver_witness:
  "\<exists>s'. jget (fo_subscribers (fo_send sample_grow ''sensor:b2'' ''raised'' True sample_fanout)) ''c1'' = Some s' \<and>
     sb_sent s' = [OtherMessage ''raised'']"
proof -
  obtain s where s: "jget (fo_subscribers sample_fanout) ''c1'' = Some s" "sb_sent s = []" "sb_buffered s = 0"
    "sb_ready s = sock_open" "''sensor:b2'' \<in> set (sb_topics s)"
    by (simp add: sample_fanout_eq sock_open_def)
  have "fo_buffer_max sample_fanout = 1000" by (simp add: sample_fanout_eq)
  then show ?thesis
    using fanout_must_deliver[OF reach_bound_reach[OF sample_fanout_reach] s(1), of "''sensor:b2''" "''raised''"] s
    by auto
qed

text \<open>Readings published between two ticks reach a connection as one batch per topic, not one
  frame per reading: of an open connection that can take the frames, a tick appends for each topic it
  holds exactly one batch with all the readings published for that topic since the last tick, in order,
  and nothing for a topic without readings.\<close>
theorem fanout_tick_batches:
  assumes "fo_reach grow may (mk_fanout b) f" "fo_pending f = []" "jget (fo_subscribers f) i = Some s"
    and "sb_ready s = sock_open" "\<forall>p. 0 \<le> grow i p"
    and "sb_buffered s + sum_list (map (grow i) (tick_frames now
           (fo_pending (fold (\<lambda>(n, r). fo_publish n r) pubs f)) (sb_topics s))) \<le> fo_buffer_max f"
  shows "\<exists>s' frames. jget (fo_subscribers (fo_tick grow now (fold (\<lambda>(n, r). fo_publish n r) pubs f))) i = Some s' \<and>
    sb_sent s' = sb_sent s @ frames \<and>
    (\<forall>t. filter (is_batch_of t) frames =
       (if t \<in> set (sb_topics s) \<and> published pubs t \<noteq> []
        then [TelemetryBatch t (map compact_reading (published pubs t)) now] else []))"
proof -
  let ?f = "fold (\<lambda>(n, r). fo_publish n r) pubs f"
  let ?ps = "tick_frames now (fo_pending ?f) (sb_topics s)"
  have inv: "fo_inv f" by (rule inv_reach[OF assms(1)])
  have inv': "fo_inv ?f" by (rule inv_publish_fold[OF inv])
  have i: "jget (fo_subscribers ?f) i = Some s" and m: "fo_buffer_max ?f = fo_buffer_max f"
    using assms(3) by (simp_all add: publish_fold_fields)
  have tick: "jget (fo_subscribers (fo_tick grow now ?f)) i =
      Some (fold (\<lambda>p. deliver_effect (grow i) p False (fo_buffer_max f)) ?ps s)"
    using i by (simp add: fo_tick_subs[OF inv'] m)
  have topics: "topics_of i f = sb_topics s" using assms(3) by (simp add: topics_of_def)
  have batches: "filter (is_batch_of t) ?ps =
       (if t \<in> set (sb_topics s) \<and> published pubs t \<noteq> []
        then [TelemetryBatch t (map compact_reading (published pubs t)) now] else [])" for t
  proof (cases "t \<in> set (sb_topics s)")
    case True
    then have "jget (fo_by_topic f) t \<noteq> None"
      using fo_inv_parts(3)[OF inv, of i t] topics by (cases "jget (fo_by_topic f) t") (simp_all add: members_def)
    then have "jget (fo_pending ?f) t = (if published pubs t = [] then None else Some (published pubs t))"
      using publish_fold_pending[of f t pubs] assms(2) by (simp add: waiting_def)
    then show ?thesis using True assms(2) by (simp add: tick_frames_topic publish_fold_jwf)
  next
    case False
    then show ?thesis using assms(2) by (simp add: tick_frames_topic publish_fold_jwf)
  qed
  show ?thesis
    using tick deliver_fold_all[OF assms(4,5,6)] batches by blast
qed

theorem fanout_tick_batches_witness:
  "\<exists>s' frames. jget (fo_subscribers (fo_tick sample_grow 9
      (fold (\<lambda>(n, r). fo_publish n r) [(sample_sensor ''b2'' ''t1'' ''KW'', sample_reading)] sample_fanout))) ''c1'' = Some s' \<and>
     sb_sent s' = [] @ frames \<and>
     filter (is_batch_of ''sensor:b2'') frames = [TelemetryBatch ''sensor:b2'' [compact_reading sample_reading] 9]"
proof -
  obtain s where s: "jget (fo_subscribers sample_fanout) ''c1'' = Some s" "sb_sent s = []" "sb_buffered s = 0"
    "sb_ready s = sock_open" "''sensor:b2'' \<in> set (sb_topics s)"
    by (simp add: sample_fanout_eq sock_open_def)
  have "fo_buffer_max sample_fanout = 1000" "fo_pending sample_fanout = []" by (simp_all add: sample_fanout_eq)
  moreover have "sum_list (map (sample_grow i) xs) = 0" for i xs by (induction xs) (auto simp: sample_grow_def)
  moreover have "published [(sample_sensor ''b2'' ''t1'' ''KW'', sample_reading)] ''sensor:b2'' = [sample_reading]"
    by (simp add: published_def topics_for_def sample_sensor_def topic_defs)
  moreover have "\<forall>p. 0 \<le> sample_grow ''c1'' p" by (simp add: sample_grow_def)
  ultimately show ?thesis
    using fanout_tick_batches[OF reach_bound_reach[OF sample_fanout_reach] _ s(1), of 9
        "[(sample_sensor ''b2'' ''t1'' ''KW'', sample_reading)]"] s(2-5)
    by fastforce
qed

end
