(* ===== verification/Alert_Engine.thy ===== *)
theory Alert_Engine
  imports Alert_Store Fanout
begin

section \<open>The alert rule engine (apps/ingest/src/rules/index.ts)\<close>

text \<open>
  \<open>AlertEngine\<close>: the tracked state of sensors and of rule targets, debounce, cooldown, and the
  asynchronous opens and closes it starts. An \<open>#open\<close> or \<open>#close\<close> that has passed its guards and
  awaits the database is a pending operation; it completes later with the database's reply, with an
  error, or with an error after the statement took effect. The text of an alert (\<open>describe\<close>) and the
  rule's notification targets are arguments.
\<close>

subsection \<open>State\<close>

record target_state =
  tg_breaches :: int
  tg_clears :: int
  tg_open :: "string option"
  tg_resolved_at :: ms

definition new_target_state :: target_state where
  "new_target_state = \<lparr>tg_breaches = 0, tg_clears = 0, tg_open = None, tg_resolved_at = 0\<rparr>"

datatype pending_op =
    PendOpen rule_target "jsnum option"
  | PendClose rule_target string ms

fun op_target :: "pending_op \<Rightarrow> rule_target" where
  "op_target (PendOpen t v) = t"
| "op_target (PendClose t i now) = t"

record engine =
  en_rules :: "alert_rule list"
  en_targets :: "rule_target list"
  en_by_sensor :: "(string, rule_target list) jsmap"
  en_need_history :: "(string, ms) jsmap"
  en_sensor_state :: "(string, sensor_state) jsmap"
  en_target_state :: "(string, target_state) jsmap"
  en_profile :: "(string, rat) jsmap"
  en_live :: "(string, jsnum \<times> ms) jsmap"
  en_in_flight :: "string list"
  en_started_at :: ms
  en_opened :: int
  en_resolved :: int
  en_suppressed :: int
  en_pending :: "pending_op list"

definition mk_engine :: "ms \<Rightarrow> (string, rat) jsmap \<Rightarrow> engine" where
  "mk_engine started profile = \<lparr>en_rules = [], en_targets = [], en_by_sensor = [], en_need_history = [],
     en_sensor_state = [], en_target_state = [], en_profile = profile, en_live = [], en_in_flight = [],
     en_started_at = started, en_opened = 0, en_resolved = 0, en_suppressed = 0, en_pending = []\<rparr>"

definition instantaneous :: "alert_condition \<Rightarrow> bool" where
  "instantaneous c = (c \<in> {threshold_above, threshold_below, out_of_range, deviation_from_setpoint})"

subsection \<open>Refreshing the rules\<close>

definition index_targets :: "rule_target list \<Rightarrow> (string, rule_target list) jsmap" where
  "index_targets ts = fold (\<lambda>t m. case jget m (sn_id (rt_sensor t)) of
       Some list \<Rightarrow> jset (sn_id (rt_sensor t)) (list @ [t]) m
     | None \<Rightarrow> jset (sn_id (rt_sensor t)) [t] m) ts []"

definition history_windows :: "rule_target list \<Rightarrow> (string, ms) jsmap" where
  "history_windows ts = fold (\<lambda>t m. case (ar_condition (rt_rule t), ar_window_s (rt_rule t)) of
       (rate_of_change, Some w) \<Rightarrow>
         jset (sn_id (rt_sensor t))
           (max (case jget m (sn_id (rt_sensor t)) of Some x \<Rightarrow> x | None \<Rightarrow> 0) (w * 1000)) m
     | _ \<Rightarrow> m) ts []"

definition engine_refresh :: "alert_rule list \<Rightarrow> registry \<Rightarrow> engine \<Rightarrow> engine" where
  "engine_refresh rules g e =
     (let ts = expand_all rules g; current = map rt_key ts in
      e\<lparr>en_rules := rules, en_targets := ts, en_by_sensor := index_targets ts,
        en_need_history := history_windows ts,
        en_target_state := filter (\<lambda>(k, s). k \<in> set current \<or> tg_open s \<noteq> None) (en_target_state e)\<rparr>)"

text \<open>At start: the alerts already live are adopted.\<close>

definition engine_adopt :: "(string, string) jsmap \<Rightarrow> engine \<Rightarrow> engine" where
  "engine_adopt live e =
     e\<lparr>en_target_state := fold (\<lambda>(k, alert_id). jset k
         \<lparr>tg_breaches = 0, tg_clears = 0, tg_open = Some alert_id, tg_resolved_at = 0\<rparr>) live (en_target_state e)\<rparr>"

subsection \<open>Evaluating a target\<close>

definition setpoint_stale_ms :: ms where
  "setpoint_stale_ms = 60 * 60 * 1000"

definition live_setpoint_for :: "string \<Rightarrow> ms \<Rightarrow> engine \<Rightarrow> jsnum option \<times> engine" where
  "live_setpoint_for zone now e =
     (case jget (en_live e) zone of
        None \<Rightarrow> (None, e)
      | Some (v, ts) \<Rightarrow>
          if now - ts > setpoint_stale_ms then (None, e\<lparr>en_live := jdel zone (en_live e)\<rparr>)
          else (Some v, e))"

definition setpoint_for :: "sensor \<Rightarrow> ms \<Rightarrow> engine \<Rightarrow> jsnum option \<times> engine" where
  "setpoint_for s now e =
     (if truthy (sn_zone s)
      then (case live_setpoint_for (the (sn_zone s)) now e of
              (Some v, e') \<Rightarrow> (Some v, e')
            | (None, e') \<Rightarrow> (map_option Num (jget (en_profile e') (the (sn_zone s))), e'))
      else (None, e))"

datatype debounce_action = Wait | Suppress | RequestOpen | RequestClose

text \<open>The counters: \<open>n\<close> consecutive breaches open, \<open>n\<close> consecutive clears close, and a target may not
  re-open within the cooldown.\<close>

definition debounce :: "int \<Rightarrow> int \<Rightarrow> ms \<Rightarrow> bool \<Rightarrow> target_state \<Rightarrow> target_state \<times> debounce_action" where
  "debounce n cooldown_s now breaching ts =
     (if breaching then
        let ts' = ts\<lparr>tg_clears := 0, tg_breaches := tg_breaches ts + 1\<rparr> in
        if tg_open ts' \<noteq> None \<or> tg_breaches ts' < n then (ts', Wait)
        else if now - tg_resolved_at ts' < cooldown_s * 1000 then (ts', Suppress)
        else (ts', RequestOpen)
      else
        let ts' = ts\<lparr>tg_breaches := 0\<rparr> in
        if tg_open ts' = None then (ts', Wait)
        else let ts'' = ts'\<lparr>tg_clears := tg_clears ts' + 1\<rparr> in
             if tg_clears ts'' < n then (ts'', Wait) else (ts'', RequestClose))"

text \<open>The synchronous parts of \<open>#open\<close> and \<open>#close\<close>.\<close>

definition start_open :: "rule_target \<Rightarrow> jsnum option \<Rightarrow> engine \<Rightarrow> engine" where
  "start_open t v e =
     (if rt_key t \<in> set (en_in_flight e) then e
      else e\<lparr>en_in_flight := en_in_flight e @ [rt_key t], en_pending := en_pending e @ [PendOpen t v]\<rparr>)"

definition start_close :: "rule_target \<Rightarrow> ms \<Rightarrow> engine \<Rightarrow> engine" where
  "start_close t now e =
     (case jget (en_target_state e) (rt_key t) of
        None \<Rightarrow> e
      | Some ts \<Rightarrow>
          if \<not> truthy (tg_open ts) \<or> rt_key t \<in> set (en_in_flight e) then e
          else e\<lparr>en_in_flight := en_in_flight e @ [rt_key t],
                 en_pending := en_pending e @ [PendClose t (the (tg_open ts)) now]\<rparr>)"

definition target_state_of :: "string \<Rightarrow> engine \<Rightarrow> target_state" where
  "target_state_of key e =
     (case jget (en_target_state e) key of Some ts \<Rightarrow> ts | None \<Rightarrow> new_target_state)"

definition evaluate_target :: "rule_target \<Rightarrow> sensor_state option \<Rightarrow> ms \<Rightarrow> engine \<Rightarrow> engine" where
  "evaluate_target t state now e =
     (if \<not> is_evaluable (ar_condition (rt_rule t)) state then e
      else
        let (setpoint, e1) = setpoint_for (rt_sensor t) now e;
            (breaching, v) = evaluate (rt_rule t) state
              \<lparr>ec_now = now, ec_setpoint = setpoint, ec_started_at = en_started_at e1\<rparr>;
            (ts, action) = debounce (ar_consecutive (rt_rule t)) (ar_cooldown_s (rt_rule t)) now breaching
              (target_state_of (rt_key t) e1);
            e2 = e1\<lparr>en_target_state := jset (rt_key t) ts (en_target_state e1)\<rparr>
        in case action of
             Wait \<Rightarrow> e2
           | Suppress \<Rightarrow> e2\<lparr>en_suppressed := en_suppressed e2 + 1\<rparr>
           | RequestOpen \<Rightarrow> start_open t v e2
           | RequestClose \<Rightarrow> start_close t now e2)"

subsection \<open>Readings and sweeps\<close>

definition track_reading :: "ms option \<Rightarrow> sensor_state option \<Rightarrow> reading \<Rightarrow> sensor_state" where
  "track_reading window prev r =
     (let changed = (case prev of
            None \<Rightarrow> True
          | Some p \<Rightarrow> js_gt (js_abs (js_minus (ss_value p) (rd_value r))) (Num flatline_epsilon));
          kept = Option.bind prev ss_history
      in \<lparr>ss_value = rd_value r, ss_ts = rd_ts r,
          ss_changed_at = (case prev of Some p \<Rightarrow> if changed then rd_ts r else ss_changed_at p | None \<Rightarrow> rd_ts r),
          ss_quality = rd_quality r,
          ss_history = (case window of
              None \<Rightarrow> kept
            | Some w \<Rightarrow> Some (dropWhile (\<lambda>h. fst h < rd_ts r - w)
                ((case kept of Some h \<Rightarrow> h | None \<Rightarrow> []) @ [(rd_ts r, rd_value r)])))\<rparr>)"

definition on_reading :: "sensor \<Rightarrow> reading \<Rightarrow> ms \<Rightarrow> engine \<Rightarrow> engine" where
  "on_reading s r now e =
     (let state = track_reading (jget (en_need_history e) (sn_id s)) (jget (en_sensor_state e) (sn_id s)) r;
          e1 = e\<lparr>en_sensor_state := jset (sn_id s) state (en_sensor_state e)\<rparr>;
          e2 = (if sn_metric s = setpoint_temp_c \<and> truthy (sn_zone s) \<and> rd_quality r = Good
                then e1\<lparr>en_live := jset (the (sn_zone s)) (rd_value r, rd_ts r) (en_live e1)\<rparr> else e1)
      in case jget (en_by_sensor e2) (sn_id s) of
           None \<Rightarrow> e2
         | Some ts \<Rightarrow> fold (\<lambda>t. evaluate_target t (Some state) now)
             (filter (\<lambda>t. instantaneous (ar_condition (rt_rule t))) ts) e2)"

definition engine_sweep :: "ms \<Rightarrow> engine \<Rightarrow> engine" where
  "engine_sweep now e =
     fold (\<lambda>t e. if instantaneous (ar_condition (rt_rule t)) then e
                 else evaluate_target t (jget (en_sensor_state e) (sn_id (rt_sensor t))) now e)
       (en_targets e) e"

subsection \<open>Completion\<close>

datatype db_reply = ReplyError | ReplyRow "alert option"

definition release :: "string \<Rightarrow> engine \<Rightarrow> engine" where
  "release key e = e\<lparr>en_in_flight := removeAll key (en_in_flight e),
     en_pending := filter (\<lambda>p. rt_key (op_target p) \<noteq> key) (en_pending e)\<rparr>"

definition put_target_state :: "string \<Rightarrow> (target_state \<Rightarrow> target_state) \<Rightarrow> engine \<Rightarrow> engine" where
  "put_target_state key h e =
     (case jget (en_target_state e) key of
        None \<Rightarrow> e
      | Some ts \<Rightarrow> e\<lparr>en_target_state := jset key (h ts) (en_target_state e)\<rparr>)"

text \<open>The answers carry the alert to announce, if any.\<close>

definition finish_open :: "rule_target \<Rightarrow> db_reply \<Rightarrow> engine \<Rightarrow> alert option \<times> engine" where
  "finish_open t reply e =
     (case reply of
        ReplyRow (Some a) \<Rightarrow>
          (Some a, release (rt_key t)
            ((put_target_state (rt_key t) (\<lambda>ts. ts\<lparr>tg_open := Some (al_id a), tg_clears := 0\<rparr>) e)
               \<lparr>en_opened := en_opened e + 1\<rparr>))
      | _ \<Rightarrow> (None, release (rt_key t) e))"

definition finish_close :: "rule_target \<Rightarrow> ms \<Rightarrow> db_reply \<Rightarrow> engine \<Rightarrow> alert option \<times> engine" where
  "finish_close t now reply e =
     (case reply of
        ReplyError \<Rightarrow> (None, release (rt_key t) e)
      | ReplyRow a \<Rightarrow>
          (a, release (rt_key t)
            ((put_target_state (rt_key t) (\<lambda>ts. ts\<lparr>tg_open := None, tg_resolved_at := now, tg_clears := 0\<rparr>) e)
               \<lparr>en_resolved := en_resolved e + 1\<rparr>)))"

definition open_input_of ::
  "(alert_rule \<Rightarrow> sensor \<Rightarrow> jsnum option \<Rightarrow> string) \<Rightarrow> (alert_rule \<Rightarrow> notify_target list) \<Rightarrow>
     rule_target \<Rightarrow> jsnum option \<Rightarrow> open_input" where
  "open_input_of describe targets_for t v =
     \<lparr>oi_tenant = sn_tenant (rt_sensor t), oi_rule = ar_id (rt_rule t), oi_sensor = sn_id (rt_sensor t),
      oi_equipment = sn_equipment (rt_sensor t), oi_zone = sn_zone (rt_sensor t),
      oi_severity = ar_severity (rt_rule t), oi_message = describe (rt_rule t) (rt_sensor t) v,
      oi_trigger = v, oi_threshold = ar_threshold (rt_rule t), oi_targets = targets_for (rt_rule t)\<rparr>"

datatype outcome = Answered | Unreached | AnswerLost

text \<open>A pending operation meets the database: its statement runs and is answered, does not run, or
  runs and the answer is lost.\<close>

definition complete_op ::
  "(alert_rule \<Rightarrow> sensor \<Rightarrow> jsnum option \<Rightarrow> string) \<Rightarrow> (alert_rule \<Rightarrow> notify_target list) \<Rightarrow>
     pending_op \<Rightarrow> outcome \<Rightarrow> string \<Rightarrow> ms \<Rightarrow> engine \<Rightarrow> alert_db \<Rightarrow> alert option \<times> engine \<times> alert_db" where
  "complete_op describe targets_for p result new_id now e db =
     (case p of
        PendOpen t v \<Rightarrow>
          let (a, db') = open_alert new_id now (open_input_of describe targets_for t v) db;
              (shown, e') = finish_open t (if result = Answered then ReplyRow a else ReplyError) e
          in (shown, e', if result = Unreached then db else db')
      | PendClose t alert_id started \<Rightarrow>
          let (a, db') = resolve_alert (sn_tenant (rt_sensor t)) alert_id now db;
              (shown, e') = finish_close t started (if result = Answered then ReplyRow a else ReplyError) e
          in (shown, e', if result = Unreached then db else db'))"

subsection \<open>Announcing\<close>

definition emit_topics :: "sensor option \<Rightarrow> string option \<Rightarrow> topic list" where
  "emit_topics s tenant =
     (if truthy tenant then [topic_tenant_alerts (the tenant)] else []) @
     (case s of Some s \<Rightarrow> topics_for s | None \<Rightarrow> [])"

definition engine_emit ::
  "(string \<Rightarrow> payload \<Rightarrow> int) \<Rightarrow> string \<Rightarrow> sensor option \<Rightarrow> string option \<Rightarrow> fanout \<Rightarrow> fanout" where
  "engine_emit grow message s tenant f = fold (\<lambda>t. fo_send grow t message True) (emit_topics s tenant) f"

definition engine_acknowledge ::
  "string \<Rightarrow> string \<Rightarrow> string \<Rightarrow> ms \<Rightarrow> registry \<Rightarrow> alert_db \<Rightarrow> (alert \<times> sensor option) option \<times> alert_db" where
  "engine_acknowledge tenant alert_id user now g db =
     (let (a, db') = acknowledge_alert tenant alert_id user now db in
      (map_option (\<lambda>a. (a, if truthy (al_sensor a) then registry_by_id g (the (al_sensor a)) else None)) a, db'))"

definition engine_live :: "engine \<Rightarrow> nat" where
  "engine_live e = length (filter (\<lambda>s. tg_open s \<noteq> None) (map snd (en_target_state e)))"

subsection \<open>Debounce\<close>

fun debounce_run :: "int \<Rightarrow> int \<Rightarrow> (ms \<times> bool) list \<Rightarrow> target_state \<Rightarrow> target_state" where
  "debounce_run n c [] ts = ts"
| "debounce_run n c ((now, b) # es) ts = debounce_run n c es (fst (debounce n c now b ts))"

definition run_length :: "bool \<Rightarrow> (ms \<times> bool) list \<Rightarrow> nat" where
  "run_length b es = length (takeWhile (\<lambda>e. snd e = b) (rev es))"

lemma debounce_open [simp]: "tg_open (fst (debounce n c now b ts)) = tg_open ts"
  by (simp add: debounce_def Let_def)

lemma debounce_resolved [simp]: "tg_resolved_at (fst (debounce n c now b ts)) = tg_resolved_at ts"
  by (simp add: debounce_def Let_def)

lemma debounce_breaches: "tg_breaches (fst (debounce n c now b ts)) = (if b then tg_breaches ts + 1 else 0)"
  by (simp add: debounce_def Let_def)

lemma debounce_clears:
  "tg_open ts \<noteq> None \<Longrightarrow> tg_clears (fst (debounce n c now b ts)) = (if b then 0 else tg_clears ts + 1)"
  by (cases "tg_open ts") (simp_all add: debounce_def Let_def)

lemma debounce_run_append:
  "debounce_run n c (es @ [(now, b)]) ts = fst (debounce n c now b (debounce_run n c es ts))"
  by (induction n c es ts rule: debounce_run.induct) simp_all

lemma debounce_run_open [simp]: "tg_open (debounce_run n c es ts) = tg_open ts"
  by (induction n c es ts rule: debounce_run.induct) simp_all

lemma debounce_run_resolved [simp]: "tg_resolved_at (debounce_run n c es ts) = tg_resolved_at ts"
  by (induction n c es ts rule: debounce_run.induct) simp_all

lemma run_length_append: "run_length b (es @ [(now, b')]) = (if b' = b then Suc (run_length b es) else 0)"
  by (simp add: run_length_def)

lemma breaches_count:
  "tg_breaches ts = 0 \<Longrightarrow> tg_breaches (debounce_run n c es ts) = int (run_length True es)"
proof (induction es rule: rev_induct)
  case (snoc e es)
  then show ?case
    by (cases e) (simp add: debounce_run_append debounce_breaches run_length_append)
qed (simp add: run_length_def)

lemma clears_count:
  "tg_open ts \<noteq> None \<Longrightarrow> tg_clears ts = 0 \<Longrightarrow>
   tg_clears (debounce_run n c es ts) = int (run_length False es)"
proof (induction es rule: rev_induct)
  case (snoc e es)
  then show ?case
    by (cases e) (simp add: debounce_run_append debounce_clears run_length_append)
qed (simp add: run_length_def)

lemma le_takeWhile: "k \<le> length (takeWhile P xs) \<longleftrightarrow> k \<le> length xs \<and> (\<forall>x \<in> set (take k xs). P x)"
proof (induction xs arbitrary: k)
  case (Cons x xs)
  then show ?case by (cases k) auto
qed simp

text \<open>The run is at least \<open>n\<close> long exactly when the last \<open>n\<close> evaluations agree.\<close>

lemma run_length_last:
  "n \<le> run_length b es \<longleftrightarrow> n \<le> length es \<and> (\<forall>e \<in> set (drop (length es - n) es). snd e = b)"
  by (simp add: run_length_def le_takeWhile take_rev)

lemma debounce_open_iff:
  "0 < n \<Longrightarrow> tg_open ts = None \<Longrightarrow>
   snd (debounce n c now b ts) = RequestOpen \<longleftrightarrow>
     b \<and> n \<le> tg_breaches ts + 1 \<and> c * 1000 \<le> now - tg_resolved_at ts"
  by (auto simp: debounce_def Let_def)

lemma debounce_close_iff:
  "tg_open ts \<noteq> None \<Longrightarrow>
   snd (debounce n c now b ts) = RequestClose \<longleftrightarrow> \<not> b \<and> n \<le> tg_clears ts + 1"
  by (cases "tg_open ts") (auto simp: debounce_def Let_def)

subsection \<open>Evaluation and the pending operations\<close>

definition ops_ok :: "engine \<Rightarrow> bool" where
  "ops_ok e = (map (rt_key \<circ> op_target) (en_pending e) = en_in_flight e \<and> distinct (en_in_flight e))"

definition owned_by :: "string \<Rightarrow> alert \<Rightarrow> bool" where
  "owned_by key a = (al_sensor a \<noteq> None \<and> key = al_rule a @ '':'' @ the (al_sensor a))"

definition tracks :: "alert_db \<Rightarrow> string \<Rightarrow> string \<Rightarrow> bool" where
  "tracks db key i = (\<exists>a. jget (ad_alerts db) i = Some a \<and> owned_by key a)"

definition tracked :: "engine \<Rightarrow> alert_db \<Rightarrow> bool" where
  "tracked e db =
     ((\<forall>k ts i. (k, ts) \<in> set (en_target_state e) \<longrightarrow> tg_open ts = Some i \<longrightarrow> tracks db k i) \<and>
      (\<forall>t i n. PendClose t i n \<in> set (en_pending e) \<longrightarrow> tracks db (rt_key t) i))"

definition keyed :: "rule_target \<Rightarrow> bool" where
  "keyed t = (rt_key t = target_key (rt_rule t) (rt_sensor t))"

definition targets_keyed :: "engine \<Rightarrow> bool" where
  "targets_keyed e =
     ((\<forall>t \<in> set (en_targets e). keyed t) \<and>
      (\<forall>i ts. jget (en_by_sensor e) i = Some ts \<longrightarrow> (\<forall>t \<in> set ts. keyed t)) \<and>
      (\<forall>p \<in> set (en_pending e). keyed (op_target p)))"

definition engine_ok :: "engine \<Rightarrow> alert_db \<Rightarrow> bool" where
  "engine_ok e db = (ops_ok e \<and> tracked e db \<and> targets_keyed e)"

lemma setpoint_for_fields [simp]:
  "en_target_state (snd (setpoint_for s now e)) = en_target_state e"
  "en_pending (snd (setpoint_for s now e)) = en_pending e"
  "en_in_flight (snd (setpoint_for s now e)) = en_in_flight e"
  "en_targets (snd (setpoint_for s now e)) = en_targets e"
  "en_by_sensor (snd (setpoint_for s now e)) = en_by_sensor e"
  "en_sensor_state (snd (setpoint_for s now e)) = en_sensor_state e"
  "en_started_at (snd (setpoint_for s now e)) = en_started_at e"
  by (auto simp: setpoint_for_def live_setpoint_for_def split: option.splits prod.splits)

text \<open>What an evaluation does to the engine, seen from the pending operations.\<close>

lemma evaluate_target_effect:
  "\<exists>ts extra. en_target_state (evaluate_target t state now e) = en_target_state e \<and>
       en_pending (evaluate_target t state now e) = en_pending e \<and>
       en_in_flight (evaluate_target t state now e) = en_in_flight e
   \<or> tg_open ts = tg_open (target_state_of (rt_key t) e) \<and>
     en_target_state (evaluate_target t state now e) = jset (rt_key t) ts (en_target_state e) \<and>
     en_pending (evaluate_target t state now e) = en_pending e @ extra \<and>
     en_in_flight (evaluate_target t state now e) = en_in_flight e @ map (rt_key \<circ> op_target) extra \<and>
     (extra = [] \<or> rt_key t \<notin> set (en_in_flight e) \<and>
        ((\<exists>v. extra = [PendOpen t v]) \<or> (\<exists>i. tg_open ts = Some i \<and> extra = [PendClose t i now])))"
proof (cases "is_evaluable (ar_condition (rt_rule t)) state")
  case True
  obtain sp e1 where sp: "setpoint_for (rt_sensor t) now e = (sp, e1)" by fastforce
  have same: "en_target_state e1 = en_target_state e" "en_pending e1 = en_pending e"
    "en_in_flight e1 = en_in_flight e"
    using setpoint_for_fields[of "rt_sensor t" now e] sp by simp_all
  obtain b v where ev: "evaluate (rt_rule t) state \<lparr>ec_now = now, ec_setpoint = sp,
      ec_started_at = en_started_at e1\<rparr> = (b, v)" by fastforce
  obtain ts act where db: "debounce (ar_consecutive (rt_rule t)) (ar_cooldown_s (rt_rule t)) now b
      (target_state_of (rt_key t) e1) = (ts, act)" by fastforce
  have op: "tg_open ts = tg_open (target_state_of (rt_key t) e)"
  proof -
    have "target_state_of (rt_key t) e1 = target_state_of (rt_key t) e" using same by (simp add: target_state_of_def)
    then show ?thesis
      using debounce_open[of "ar_consecutive (rt_rule t)" "ar_cooldown_s (rt_rule t)" now b
          "target_state_of (rt_key t) e1", unfolded db] by simp
  qed
  let ?e2 = "e1\<lparr>en_target_state := jset (rt_key t) ts (en_target_state e1)\<rparr>"
  have res: "evaluate_target t state now e = (case act of Wait \<Rightarrow> ?e2
      | Suppress \<Rightarrow> ?e2\<lparr>en_suppressed := en_suppressed ?e2 + 1\<rparr>
      | RequestOpen \<Rightarrow> start_open t v ?e2 | RequestClose \<Rightarrow> start_close t now ?e2)"
    using True sp ev db by (cases act) (simp_all add: evaluate_target_def Let_def)
  show ?thesis
  proof (cases act)
    case RequestOpen
    then show ?thesis
      using res op same
      by (intro exI[of _ ts] exI[of _ "if rt_key t \<in> set (en_in_flight e) then [] else [PendOpen t v]"])
        (auto simp: start_open_def)
  next
    case RequestClose
    then show ?thesis
      using res op same
      by (intro exI[of _ ts] exI[of _ "if \<not> truthy (tg_open ts) \<or> rt_key t \<in> set (en_in_flight e) then []
          else [PendClose t (the (tg_open ts)) now]"])
        (auto simp: start_close_def truthy_def split: option.splits)
  qed (use res op same in \<open>intro exI[of _ ts] exI[of _ "[]"]; simp\<close>)+
qed (auto simp: evaluate_target_def)

lemma evaluate_target_targets:
  "en_targets (evaluate_target t state now e) = en_targets e \<and>
   en_by_sensor (evaluate_target t state now e) = en_by_sensor e"
proof -
  have "en_targets (start_open t v x) = en_targets x \<and> en_by_sensor (start_open t v x) = en_by_sensor x"
    "en_targets (start_close t now x) = en_targets x \<and> en_by_sensor (start_close t now x) = en_by_sensor x" for v x
    by (auto simp: start_open_def start_close_def split: option.splits)
  moreover have "en_targets (snd (setpoint_for (rt_sensor t) now e)) = en_targets e"
    "en_by_sensor (snd (setpoint_for (rt_sensor t) now e)) = en_by_sensor e" by simp_all
  ultimately show ?thesis
    unfolding evaluate_target_def Let_def
    by (simp add: case_prod_unfold split: debounce_action.splits)
qed

lemma evaluate_target_ok:
  assumes ok: "engine_ok e db" and t: "keyed t"
  shows "engine_ok (evaluate_target t state now e) db"
proof -
  let ?e = "evaluate_target t state now e"
  have tg: "en_targets ?e = en_targets e" "en_by_sensor ?e = en_by_sensor e"
    using evaluate_target_targets by blast+
  consider (same) "en_target_state ?e = en_target_state e" "en_pending ?e = en_pending e" "en_in_flight ?e = en_in_flight e"
    | (new) ts extra where "tg_open ts = tg_open (target_state_of (rt_key t) e)"
      "en_target_state ?e = jset (rt_key t) ts (en_target_state e)" "en_pending ?e = en_pending e @ extra"
      "en_in_flight ?e = en_in_flight e @ map (rt_key \<circ> op_target) extra"
      "extra = [] \<or> rt_key t \<notin> set (en_in_flight e) \<and>
        ((\<exists>v. extra = [PendOpen t v]) \<or> (\<exists>i. tg_open ts = Some i \<and> extra = [PendClose t i now]))"
    using evaluate_target_effect[of t state now e] by blast
  then show ?thesis
  proof cases
    case same
    then show ?thesis using ok tg by (simp add: engine_ok_def ops_ok_def tracked_def targets_keyed_def)
  next
    case new
    have own: "tracks db (rt_key t) i" if op: "tg_open ts = Some i" for i
    proof -
      obtain old where "jget (en_target_state e) (rt_key t) = Some old" "tg_open old = Some i"
        using op new(1) by (auto simp: target_state_of_def new_target_state_def split: option.splits)
      then show ?thesis using ok map_of_SomeD unfolding engine_ok_def tracked_def by metis
    qed
    have t1: "tracks db k i" if "(k, ts') \<in> set (en_target_state ?e)" "tg_open ts' = Some i" for k ts' i
    proof -
      have "(k, ts') = (rt_key t, ts) \<or> (k, ts') \<in> set (en_target_state e)"
        using that(1) new(2) entries_jset_subset[of "rt_key t" ts "en_target_state e"] by auto
      then show ?thesis using that(2) own ok unfolding engine_ok_def tracked_def by blast
    qed
    have old: "tracks db (rt_key u) i" if "PendClose u i n \<in> set (en_pending e)" for u i n
      using that ok unfolding engine_ok_def tracked_def by blast
    have t2: "tracks db (rt_key u) i" if "PendClose u i n \<in> set (en_pending ?e)" for u i n
      using that old own new(3,5) by auto
    have "tracked ?e db" unfolding tracked_def using t1 t2 by blast
    moreover have "ops_ok ?e" using ok new(3,4,5) by (auto simp: engine_ok_def ops_ok_def)
    moreover have "targets_keyed ?e" using ok new(3,5) tg t by (auto simp: engine_ok_def targets_keyed_def)
    ultimately show ?thesis by (simp add: engine_ok_def)
  qed
qed

lemma engine_ok_same:
  assumes "engine_ok e db" "en_targets e' = en_targets e" "en_by_sensor e' = en_by_sensor e"
    "en_target_state e' = en_target_state e" "en_pending e' = en_pending e" "en_in_flight e' = en_in_flight e"
  shows "engine_ok e' db"
  using assms by (simp add: engine_ok_def ops_ok_def tracked_def targets_keyed_def)

lemma on_reading_ok: "engine_ok e db \<Longrightarrow> engine_ok (on_reading s r now e) db"
proof -
  assume ok: "engine_ok e db"
  define st where "st = track_reading (jget (en_need_history e) (sn_id s)) (jget (en_sensor_state e) (sn_id s)) r"
  define e2 where "e2 = (let e1 = e\<lparr>en_sensor_state := jset (sn_id s) st (en_sensor_state e)\<rparr> in
      if sn_metric s = setpoint_temp_c \<and> truthy (sn_zone s) \<and> rd_quality r = Good
      then e1\<lparr>en_live := jset (the (sn_zone s)) (rd_value r, rd_ts r) (en_live e1)\<rparr> else e1)"
  have e2: "engine_ok e2 db" by (rule engine_ok_same[OF ok]) (simp_all add: e2_def Let_def)
  have eq: "on_reading s r now e = (case jget (en_by_sensor e2) (sn_id s) of
           None \<Rightarrow> e2
         | Some ts \<Rightarrow> fold (\<lambda>t. evaluate_target t (Some st) now)
             (filter (\<lambda>t. instantaneous (ar_condition (rt_rule t))) ts) e2)"
    unfolding on_reading_def e2_def st_def Let_def by (rule refl)
  show ?thesis
  proof (cases "jget (en_by_sensor e2) (sn_id s)")
    case (Some ts)
    then have "\<And>t. t \<in> set (filter (\<lambda>t. instantaneous (ar_condition (rt_rule t))) ts) \<Longrightarrow> keyed t"
      using e2 by (auto simp: engine_ok_def targets_keyed_def)
    then show ?thesis
      unfolding eq Some option.case by (rule fold_invariant[where Q = keyed]) (auto intro: evaluate_target_ok e2)
  qed (simp add: eq e2)
qed

lemma engine_sweep_ok: "engine_ok e db \<Longrightarrow> engine_ok (engine_sweep now e) db"
  unfolding engine_sweep_def
  by (rule fold_invariant[where Q = keyed])
    (auto simp: engine_ok_def[of e] targets_keyed_def evaluate_target_ok)

lemma index_targets_keyed:
  "jget (index_targets ts) i = Some l \<Longrightarrow> set l \<subseteq> set ts"
proof (induction ts arbitrary: i l rule: rev_induct)
  case (snoc t ts)
  let ?m = "index_targets ts"
  have step: "index_targets (ts @ [t]) = (case jget ?m (sn_id (rt_sensor t)) of
       Some list \<Rightarrow> jset (sn_id (rt_sensor t)) (list @ [t]) ?m
     | None \<Rightarrow> jset (sn_id (rt_sensor t)) [t] ?m)"
    unfolding index_targets_def by simp
  show ?case
  proof (cases "jget ?m (sn_id (rt_sensor t))")
    case None
    then show ?thesis using snoc step by (fastforce split: if_splits)
  next
    case (Some old)
    then show ?thesis using snoc.IH[OF Some] snoc step by (fastforce split: if_splits)
  qed
qed (simp add: index_targets_def)

lemma engine_okI:
  assumes "ops_ok e" "\<And>k ts i. (k, ts) \<in> set (en_target_state e) \<Longrightarrow> tg_open ts = Some i \<Longrightarrow> tracks db k i"
    "\<And>t i n. PendClose t i n \<in> set (en_pending e) \<Longrightarrow> tracks db (rt_key t) i" "targets_keyed e"
  shows "engine_ok e db"
  using assms unfolding engine_ok_def tracked_def by blast

lemma engine_okD:
  assumes "engine_ok e db"
  shows "ops_ok e" "(k, ts) \<in> set (en_target_state e) \<Longrightarrow> tg_open ts = Some i \<Longrightarrow> tracks db k i"
    "PendClose t i n \<in> set (en_pending e) \<Longrightarrow> tracks db (rt_key t) i" "targets_keyed e"
  using assms unfolding engine_ok_def tracked_def by blast+

lemma engine_refresh_ok: "engine_ok e db \<Longrightarrow> engine_ok (engine_refresh rules g e) db"
proof (rule engine_okI)
  assume ok: "engine_ok e db"
  let ?e = "engine_refresh rules g e"
  have k: "keyed t" if "t \<in> set (expand_all rules g)" for t
    using that by (simp add: expand_all_mem keyed_def)
  show "ops_ok ?e" using engine_okD(1)[OF ok] by (simp add: engine_refresh_def Let_def ops_ok_def)
  show "targets_keyed ?e"
    using engine_okD(4)[OF ok] k index_targets_keyed
    by (fastforce simp: engine_refresh_def Let_def targets_keyed_def)
  show "tracks db k i" if "(k, ts) \<in> set (en_target_state ?e)" "tg_open ts = Some i" for k ts i
    using that engine_okD(2)[OF ok] by (auto simp: engine_refresh_def Let_def)
  show "tracks db (rt_key t) i" if "PendClose t i n \<in> set (en_pending ?e)" for t i n
    using that engine_okD(3)[OF ok] by (simp add: engine_refresh_def Let_def)
qed

lemma load_live_tracks:
  assumes "alert_db_ok db" "(k, i) \<in> set (load_live_alerts tenant db)"
  shows "tracks db k i"
proof -
  have "set (fold (\<lambda>a. jset (al_rule a @ '':'' @ the (al_sensor a)) (al_id a)) as m) \<subseteq>
      (\<lambda>a. (al_rule a @ '':'' @ the (al_sensor a), al_id a)) ` set as \<union> set m" for as m
  proof (induction as arbitrary: m)
    case (Cons a as)
    then show ?case
      using entries_jset_subset[of "al_rule a @ '':'' @ the (al_sensor a)" "al_id a" m] by fastforce
  qed simp
  from subsetD[OF this assms(2)[unfolded load_live_alerts_def]] obtain a where
    a: "a \<in> snd ` set (ad_alerts db)" "al_sensor a \<noteq> None"
      "k = al_rule a @ '':'' @ the (al_sensor a)" "i = al_id a" by auto
  then obtain j where "(j, a) \<in> set (ad_alerts db)" by auto
  then have "jget (ad_alerts db) j = Some a" using alert_db_okD(1)[OF assms(1)] by (simp add: map_of_is_SomeI)
  moreover have "al_id a = j" using calculation alert_db_okD(2)[OF assms(1)] by blast
  ultimately show ?thesis using a by (auto simp: tracks_def owned_by_def)
qed

lemma engine_adopt_ok:
  assumes ok: "engine_ok e db" and live: "\<And>k i. (k, i) \<in> set live \<Longrightarrow> tracks db k i"
  shows "engine_ok (engine_adopt live e) db"
proof (rule engine_okI)
  let ?f = "\<lambda>(k, alert_id). jset k \<lparr>tg_breaches = 0, tg_clears = 0, tg_open = Some alert_id, tg_resolved_at = 0\<rparr>"
  have "(k, ts) \<in> set (fold ?f live m) \<Longrightarrow> (k, ts) \<in> set m \<or> (\<exists>i. tg_open ts = Some i \<and> (k, i) \<in> set live)"
    for k ts m live
  proof (induction live arbitrary: m)
    case (Cons x live)
    obtain k' i' where x: "x = (k', i')" by (cases x)
    from Cons.IH[of "?f x m"] Cons.prems show ?case
      using entries_jset_subset[of k' "\<lparr>tg_breaches = 0, tg_clears = 0, tg_open = Some i', tg_resolved_at = 0\<rparr>" m]
      by (auto simp: x)
  qed simp
  then show "tracks db k i" if "(k, ts) \<in> set (en_target_state (engine_adopt live e))" "tg_open ts = Some i" for k ts i
    using that engine_okD(2)[OF ok] live unfolding engine_adopt_def by fastforce
qed (use engine_okD[OF ok] in \<open>auto simp: engine_adopt_def ops_ok_def targets_keyed_def\<close>)

text \<open>A change of the database that keeps what each row is about keeps the tracking.\<close>

definition keeps_rows :: "alert_db \<Rightarrow> alert_db \<Rightarrow> bool" where
  "keeps_rows db db' =
     (\<forall>i a. jget (ad_alerts db) i = Some a \<longrightarrow>
        (\<exists>b. jget (ad_alerts db') i = Some b \<and> al_rule b = al_rule a \<and> al_sensor b = al_sensor a \<and>
             al_tenant b = al_tenant a))"

lemma keeps_tracks: "keeps_rows db db' \<Longrightarrow> tracks db k i \<Longrightarrow> tracks db' k i"
  unfolding keeps_rows_def tracks_def owned_by_def by metis

lemma engine_ok_keeps: "engine_ok e db \<Longrightarrow> keeps_rows db db' \<Longrightarrow> engine_ok e db'"
  unfolding engine_ok_def tracked_def using keeps_tracks by blast

lemma keeps_refl: "keeps_rows db db"
  by (simp add: keeps_rows_def)

lemma keeps_open: "jget (ad_alerts db) new_id = None \<Longrightarrow> keeps_rows db (snd (open_alert new_id now i db))"
  by (auto simp: keeps_rows_def open_alert_def Let_def)

lemma keeps_resolve: "keeps_rows db (snd (resolve_alert tenant i now db))"
  by (auto simp: keeps_rows_def resolve_alert_def Let_def split: option.splits)

lemma keeps_acknowledge: "keeps_rows db (snd (acknowledge_alert tenant i user now db))"
  by (auto simp: keeps_rows_def acknowledge_alert_def Let_def split: option.splits)

lemma release_ok:
  assumes ok: "engine_ok e db"
  shows "engine_ok (release key e) db"
proof (rule engine_okI)
  have fl: "map (rt_key \<circ> op_target) (en_pending e) = en_in_flight e" "distinct (en_in_flight e)"
    using engine_okD(1)[OF ok] by (auto simp: ops_ok_def)
  have "map (rt_key \<circ> op_target) (filter (\<lambda>p. rt_key (op_target p) \<noteq> key) ps) =
      removeAll key (map (rt_key \<circ> op_target) ps)" for ps
    by (induction ps) auto
  then show "ops_ok (release key e)"
    using fl by (simp add: ops_ok_def release_def distinct_removeAll)
qed (use engine_okD[OF ok] in \<open>auto simp: release_def targets_keyed_def\<close>)

lemma put_target_ok:
  assumes ok: "engine_ok e db" and h: "\<And>ts i. tg_open (h ts) = Some i \<Longrightarrow> tg_open ts = Some i \<or> tracks db key i"
  shows "engine_ok (put_target_state key h e) db"
proof (cases "jget (en_target_state e) key")
  case None
  then show ?thesis using ok by (simp add: put_target_state_def)
next
  case (Some ts)
  show ?thesis
  proof (rule engine_okI)
    fix k ts' i
    assume a: "(k, ts') \<in> set (en_target_state (put_target_state key h e))" "tg_open ts' = Some i"
    have "(k, ts') = (key, h ts) \<or> (k, ts') \<in> set (en_target_state e)"
      using a(1) entries_jset_subset[of key "h ts" "en_target_state e"] Some by (auto simp: put_target_state_def)
    then show "tracks db k i"
      using a(2) h engine_okD(2)[OF ok] map_of_SomeD[OF Some] by blast
  qed (use engine_okD[OF ok] Some in \<open>auto simp: put_target_state_def ops_ok_def targets_keyed_def\<close>)
qed

lemma engine_count_ok: "engine_ok e db \<Longrightarrow> engine_ok (e\<lparr>en_opened := n\<rparr>) db"
  "engine_ok e db \<Longrightarrow> engine_ok (e\<lparr>en_resolved := n\<rparr>) db"
  by (simp_all add: engine_ok_def ops_ok_def tracked_def targets_keyed_def)

lemma finish_open_ok:
  assumes "engine_ok e db" "\<And>a. reply = ReplyRow (Some a) \<Longrightarrow> tracks db (rt_key t) (al_id a)"
  shows "engine_ok (snd (finish_open t reply e)) db"
proof (cases "\<exists>a. reply = ReplyRow (Some a)")
  case True
  then obtain a where a: "reply = ReplyRow (Some a)" by blast
  have "engine_ok (put_target_state (rt_key t) (\<lambda>ts. ts\<lparr>tg_open := Some (al_id a), tg_clears := 0\<rparr>) e) db"
    using assms a by (intro put_target_ok) auto
  then show ?thesis by (simp add: a finish_open_def release_ok engine_count_ok)
next
  case False
  then have "snd (finish_open t reply e) = release (rt_key t) e"
    by (auto simp: finish_open_def split: db_reply.splits option.splits)
  then show ?thesis using release_ok[OF assms(1)] by simp
qed

lemma finish_close_ok: "engine_ok e db \<Longrightarrow> engine_ok (snd (finish_close t now reply e)) db"
  by (auto simp: finish_close_def split: db_reply.splits intro!: release_ok engine_count_ok put_target_ok)

lemma open_alert_owned:
  assumes "open_alert new_id now (open_input_of describe targets_for t v) db = (Some a, db')" "keyed t"
  shows "tracks db' (rt_key t) (al_id a)"
proof -
  have "al_id a = new_id" "al_rule a = ar_id (rt_rule t)" "al_sensor a = Some (sn_id (rt_sensor t))"
    "jget (ad_alerts db') new_id = Some a"
    using assms(1) by (auto simp: open_alert_def open_input_of_def Let_def split: if_splits)
  then show ?thesis using assms(2) by (auto simp: tracks_def owned_by_def keyed_def target_key_def)
qed

lemma complete_op_ok:
  assumes ok: "engine_ok e db" and db: "alert_db_ok db" and p: "p \<in> set (en_pending e)"
    and fresh: "jget (ad_alerts db) new_id = None"
    and c: "complete_op describe targets_for p result new_id now e db = (shown, e', db')"
  shows "engine_ok e' db' \<and> alert_db_ok db' \<and> keeps_rows db db'"
proof (cases p)
  case (PendOpen t v)
  obtain a db1 where o: "open_alert new_id now (open_input_of describe targets_for t v) db = (a, db1)" by fastforce
  have k: "keyed t" using engine_okD(4)[OF ok] p PendOpen by (auto simp: targets_keyed_def)
  have res: "e' = snd (finish_open t (if result = Answered then ReplyRow a else ReplyError) e)"
    "db' = (if result = Unreached then db else db1)"
    using c PendOpen o by (auto simp: complete_op_def Let_def split: prod.splits)
  have db1: "alert_db_ok db1" "keeps_rows db db1"
    using open_alert_ok[OF db fresh, of now "open_input_of describe targets_for t v"]
      keeps_open[OF fresh, of now "open_input_of describe targets_for t v"] o by simp_all
  have k': "keeps_rows db db'" using res db1 keeps_refl by auto
  have "engine_ok e' db'"
    unfolding res(1)
  proof (rule finish_open_ok)
    show "engine_ok e db'" using ok k' by (rule engine_ok_keeps)
    fix b assume "(if result = Answered then ReplyRow a else ReplyError) = ReplyRow (Some b)"
    then show "tracks db' (rt_key t) (al_id b)"
      using open_alert_owned[OF _ k, of new_id now describe targets_for v db b db1] o res(2) by (auto split: if_splits)
  qed
  then show ?thesis using k' db1 db res(2) by auto
next
  case (PendClose t i started)
  obtain a db1 where o: "resolve_alert (sn_tenant (rt_sensor t)) i now db = (a, db1)" by fastforce
  have res: "e' = snd (finish_close t started (if result = Answered then ReplyRow a else ReplyError) e)"
    "db' = (if result = Unreached then db else db1)"
    using c PendClose o by (auto simp: complete_op_def Let_def split: prod.splits)
  have db1: "alert_db_ok db1" "keeps_rows db db1"
    using resolve_alert_ok[OF db, of "sn_tenant (rt_sensor t)" i now] keeps_resolve[of db "sn_tenant (rt_sensor t)" i now] o
    by simp_all
  have k': "keeps_rows db db'" using res db1 keeps_refl by auto
  have "engine_ok e' db'" unfolding res(1) by (rule finish_close_ok[OF engine_ok_keeps[OF ok k']])
  then show ?thesis using k' db1 db res(2) by auto
qed

subsection \<open>Replicas over one database\<close>

record alert_world =
  aw_engines :: "string \<Rightarrow> engine"
  aw_db :: alert_db

inductive alert_reach ::
  "(alert_rule \<Rightarrow> sensor \<Rightarrow> jsnum option \<Rightarrow> string) \<Rightarrow> (alert_rule \<Rightarrow> notify_target list) \<Rightarrow> alert_world \<Rightarrow> bool"
  for describe :: "alert_rule \<Rightarrow> sensor \<Rightarrow> jsnum option \<Rightarrow> string"
  and targets_for :: "alert_rule \<Rightarrow> notify_target list" where
  start: "(\<And>n. \<exists>t p. aw_engines w n = mk_engine t p) \<Longrightarrow> aw_db w = empty_alert_db \<Longrightarrow> alert_reach describe targets_for w"
| reading: "alert_reach describe targets_for w \<Longrightarrow>
    alert_reach describe targets_for (w\<lparr>aw_engines := (aw_engines w)(n := on_reading s r now (aw_engines w n))\<rparr>)"
| sweeping: "alert_reach describe targets_for w \<Longrightarrow>
    alert_reach describe targets_for (w\<lparr>aw_engines := (aw_engines w)(n := engine_sweep now (aw_engines w n))\<rparr>)"
| refreshing: "alert_reach describe targets_for w \<Longrightarrow>
    alert_reach describe targets_for (w\<lparr>aw_engines := (aw_engines w)(n := engine_refresh rules g (aw_engines w n))\<rparr>)"
| adopting: "alert_reach describe targets_for w \<Longrightarrow>
    alert_reach describe targets_for (w\<lparr>aw_engines := (aw_engines w)(n :=
      engine_adopt (load_live_alerts tenant (aw_db w)) (aw_engines w n))\<rparr>)"
| restarting: "alert_reach describe targets_for w \<Longrightarrow>
    alert_reach describe targets_for (w\<lparr>aw_engines := (aw_engines w)(n := mk_engine t p)\<rparr>)"
| completing: "alert_reach describe targets_for w \<Longrightarrow> p \<in> set (en_pending (aw_engines w n)) \<Longrightarrow>
    jget (ad_alerts (aw_db w)) new_id = None \<Longrightarrow>
    complete_op describe targets_for p result new_id now (aw_engines w n) (aw_db w) = (shown, e', db') \<Longrightarrow>
    alert_reach describe targets_for (w\<lparr>aw_engines := (aw_engines w)(n := e'), aw_db := db'\<rparr>)"
| acknowledging: "alert_reach describe targets_for w \<Longrightarrow>
    alert_reach describe targets_for (w\<lparr>aw_db := snd (acknowledge_alert tenant i user now (aw_db w))\<rparr>)"

definition world_ok :: "alert_world \<Rightarrow> bool" where
  "world_ok w = (alert_db_ok (aw_db w) \<and> (\<forall>n. engine_ok (aw_engines w n) (aw_db w)))"

lemma mk_engine_ok: "engine_ok (mk_engine t p) db"
  by (simp add: engine_ok_def ops_ok_def tracked_def targets_keyed_def mk_engine_def)

lemma world_one: "world_ok w \<Longrightarrow> engine_ok e (aw_db w) \<Longrightarrow> world_ok (w\<lparr>aw_engines := (aw_engines w)(n := e)\<rparr>)"
  by (simp add: world_ok_def)

lemma alert_reach_ok: "alert_reach describe targets_for w \<Longrightarrow> world_ok w"
proof (induction rule: alert_reach.induct)
  case (start w)
  then show ?case using mk_engine_ok empty_alert_db_ok by (metis world_ok_def)
next
  case (adopting w n tenant)
  then show ?case
    using engine_adopt_ok load_live_tracks by (intro world_one) (auto simp: world_ok_def)
next
  case (completing w p n new_id result now shown e' db')
  have "engine_ok e' db' \<and> alert_db_ok db' \<and> keeps_rows (aw_db w) db'"
    using completing complete_op_ok by (metis world_ok_def)
  then show ?case using completing.IH engine_ok_keeps by (auto simp: world_ok_def)
next
  case (acknowledging w tenant i user now)
  then show ?case
    using acknowledge_alert_ok keeps_acknowledge engine_ok_keeps by (fastforce simp: world_ok_def)
qed (auto intro!: world_one on_reading_ok engine_sweep_ok engine_refresh_ok mk_engine_ok simp: world_ok_def)

lemma flagged_evaluation:
  "c = ar_condition (rt_rule t) \<Longrightarrow> c \<noteq> out_of_range \<Longrightarrow> ss_quality st \<noteq> Good \<Longrightarrow> evaluate_target t (Some st) now e = e"
  by (simp add: evaluate_target_def flagged_not_evaluable)

lemma evaluate_pending:
  "\<exists>extra. en_pending (evaluate_target t state now e) = en_pending e @ extra \<and> (\<forall>p \<in> set extra. op_target p = t)"
  using evaluate_target_effect[of t state now e] by (metis append_Nil2 empty_iff empty_set op_target.simps set_ConsD)

subsection \<open>Samples\<close>

definition sample_rule :: "alert_condition \<Rightarrow> alert_rule" where
  "sample_rule c = \<lparr>ar_id = ''r1'', ar_tenant = ''t1'', ar_name = ''rule'', ar_building = None, ar_floor = None,
     ar_zone = None, ar_equipment = None, ar_sensor = Some ''b2'', ar_metric = None, ar_condition = c,
     ar_threshold = Some 10, ar_window_s = Some 60, ar_consecutive = 1, ar_cooldown_s = 0, ar_severity = Warning\<rparr>"

definition sample_engine :: "alert_condition \<Rightarrow> engine" where
  "sample_engine c = engine_refresh [sample_rule c] sample_owner (mk_engine 0 [])"

definition sample_target :: "alert_condition \<Rightarrow> rule_target" where
  "sample_target c = \<lparr>rt_rule = sample_rule c, rt_sensor = sample_sensor ''b2'' ''t1'' ''KW'', rt_key = ''r1:b2''\<rparr>"

definition sample_read :: "quality \<Rightarrow> rat \<Rightarrow> reading" where
  "sample_read q v = \<lparr>rd_sensor = ''b2'', rd_ts = 1000, rd_value = Num v, rd_quality = q\<rparr>"

lemma sample_engine_eq:
  "sample_engine c = (mk_engine 0 [])\<lparr>en_rules := [sample_rule c], en_targets := [sample_target c],
     en_by_sensor := [(''b2'', [sample_target c])],
     en_need_history := (if c = rate_of_change then [(''b2'', 60000)] else [])\<rparr>"
proof -
  have all: "expand_all [sample_rule c] sample_owner = [sample_target c]"
    by (simp add: expand_all_def expand_rule_def registry_all_def sample_owner_def refresh_finish_def
        sample_database_def empty_maps_def mk_registry_def watches_def sample_rule_def sample_target_def
        target_key_def sample_sensor_def)
  show ?thesis
    unfolding sample_engine_def engine_refresh_def all
    by (cases c) (simp_all add: Let_def index_targets_def history_windows_def
        sample_target_def sample_rule_def mk_engine_def sample_sensor_def)
qed

lemmas engine_eval = sample_engine_eq mk_engine_def on_reading_def track_reading_def sample_read_def
  sample_sensor_def sample_target_def sample_rule_def instantaneous_def evaluate_target_def is_evaluable_def
  setpoint_for_def live_setpoint_for_def truthy_def evaluate_def debounce_def target_state_of_def
  new_target_state_def start_open_def start_close_def window_ms_def engine_sweep_def Let_def

text \<open>A world in which one engine has read an implausible value and opened an alert.\<close>

definition sample_describe :: "alert_rule \<Rightarrow> sensor \<Rightarrow> jsnum option \<Rightarrow> string" where
  "sample_describe r s v = ar_name r"

definition sample_notify :: "alert_rule \<Rightarrow> notify_target list" where
  "sample_notify r = [(LogChannel, ''stdout'')]"

definition sample_read_engine :: engine where
  "sample_read_engine = on_reading (sample_sensor ''b2'' ''t1'' ''KW'') (sample_read OutOfRange 600) 1000
     (sample_engine out_of_range)"

definition sample_alert :: alert where
  "sample_alert = \<lparr>al_id = ''a1'', al_tenant = ''t1'', al_rule = ''r1'', al_sensor = Some ''b2'',
     al_equipment = Some ''eq'', al_zone = Some ''t1-zone'', al_severity = Warning, al_state = AlertOpen,
     al_message = ''rule'', al_trigger = Some (Num 600), al_threshold = Some 10, al_opened_at = 1001,
     al_acknowledged = None, al_resolved_at = None\<rparr>"

definition sample_done :: "alert option \<times> engine \<times> alert_db" where
  "sample_done = complete_op sample_describe sample_notify (PendOpen (sample_target out_of_range) (Some (Num 600)))
     Answered ''a1'' 1001 sample_read_engine empty_alert_db"

definition sample_world :: alert_world where
  "sample_world = \<lparr>aw_engines = (\<lambda>n. mk_engine 0 [])(''n1'' := fst (snd sample_done)),
     aw_db = snd (snd sample_done)\<rparr>"

lemma sample_read_engine_pending:
  "en_pending sample_read_engine = [PendOpen (sample_target out_of_range) (Some (Num 600))]"
  by (simp add: sample_read_engine_def engine_eval)

lemma sample_world_db: "ad_alerts (aw_db sample_world) = [(''a1'', sample_alert)]"
  by (simp add: sample_world_def sample_done_def complete_op_def open_alert_def conflicts_def empty_alert_db_def
      Let_def case_prod_unfold open_input_of_def sample_target_def sample_rule_def sample_sensor_def
      sample_describe_def sample_notify_def sample_alert_def)

lemma sample_world_reach: "alert_reach sample_describe sample_notify sample_world"
proof -
  let ?w0 = "\<lparr>aw_engines = (\<lambda>n. mk_engine 0 []), aw_db = empty_alert_db\<rparr>"
  let ?w1 = "?w0\<lparr>aw_engines := (aw_engines ?w0)(''n1'' := engine_refresh [sample_rule out_of_range] sample_owner
      (aw_engines ?w0 ''n1''))\<rparr>"
  let ?w2 = "?w1\<lparr>aw_engines := (aw_engines ?w1)(''n1'' := on_reading (sample_sensor ''b2'' ''t1'' ''KW'')
      (sample_read OutOfRange 600) 1000 (aw_engines ?w1 ''n1''))\<rparr>"
  have w2: "alert_reach sample_describe sample_notify ?w2"
    by (rule alert_reach.reading, rule alert_reach.refreshing, rule alert_reach.start) auto
  have e: "aw_engines ?w2 ''n1'' = sample_read_engine"
    by (simp add: sample_read_engine_def sample_engine_def)
  obtain a e' db' where d: "sample_done = (a, e', db')" by (rule prod_cases3)
  have "alert_reach sample_describe sample_notify
      (?w2\<lparr>aw_engines := (aw_engines ?w2)(''n1'' := e'), aw_db := db'\<rparr>)"
  proof (rule alert_reach.completing[OF w2, where shown = a])
    show "PendOpen (sample_target out_of_range) (Some (Num 600)) \<in> set (en_pending (aw_engines ?w2 ''n1''))"
      unfolding e by (simp add: sample_read_engine_pending)
    show "jget (ad_alerts (aw_db ?w2)) ''a1'' = None" by (simp add: empty_alert_db_def)
    show "complete_op sample_describe sample_notify (PendOpen (sample_target out_of_range) (Some (Num 600)))
        Answered ''a1'' 1001 (aw_engines ?w2 ''n1'') (aw_db ?w2) = (a, e', db')"
      unfolding e using d by (simp add: sample_done_def)
  qed
  moreover have "?w2\<lparr>aw_engines := (aw_engines ?w2)(''n1'' := e'), aw_db := db'\<rparr> = sample_world"
    unfolding sample_world_def d by simp
  ultimately show ?thesis by simp
qed

subsection \<open>Properties\<close>

text \<open>C25: However many replicas of the engine run over the database, whatever they read, and in whatever
  order their statements, restarts, lost answers and acknowledgements interleave, at most one live alert
  exists for a rule and target.\<close>
theorem alert_one_live:
  assumes "alert_reach describe targets_for w"
    and "jget (ad_alerts (aw_db w)) i = Some a" "jget (ad_alerts (aw_db w)) j = Some b"
    and "is_live a" "is_live b" "al_rule a = al_rule b" "alert_target a = alert_target b"
  shows "i = j"
  using alert_db_okD(3)[of "aw_db w" i a j b] alert_reach_ok[OF assms(1)] assms(2-7) by (simp add: world_ok_def)

theorem alert_one_live_witness:
  "jget (ad_alerts (aw_db sample_world)) ''a1'' = Some sample_alert \<and> ''a1'' = ''a1''"
  using alert_one_live[OF sample_world_reach, of "''a1''" sample_alert "''a1''" sample_alert]
  by (simp add: sample_world_db sample_alert_def is_live_def)

text \<open>An engine only ever resolves an alert of its own rule and sensor: a pending close, and every
  alert a target is believed to have open, names a row of the database whose rule and sensor are the
  target's; and an engine has at most one operation under way for a target.\<close>
theorem alert_tracking_sound:
  assumes "alert_reach describe targets_for w"
  shows "(\<forall>t i started. PendClose t i started \<in> set (en_pending (aw_engines w n)) \<longrightarrow>
      (\<exists>a. jget (ad_alerts (aw_db w)) i = Some a \<and> owned_by (rt_key t) a)) \<and>
    (\<forall>k ts i. (k, ts) \<in> set (en_target_state (aw_engines w n)) \<longrightarrow> tg_open ts = Some i \<longrightarrow>
      (\<exists>a. jget (ad_alerts (aw_db w)) i = Some a \<and> owned_by k a)) \<and>
    distinct (map (rt_key \<circ> op_target) (en_pending (aw_engines w n)))"
proof -
  have ok: "engine_ok (aw_engines w n) (aw_db w)" using alert_reach_ok[OF assms] by (simp add: world_ok_def)
  then show ?thesis
    using engine_okD(2,3)[OF ok] engine_okD(1)[OF ok] unfolding tracks_def ops_ok_def by auto
qed

theorem alert_tracking_sound_witness:
  "\<exists>a. jget (ad_alerts (aw_db sample_world)) ''a1'' = Some a \<and> owned_by ''r1:b2'' a"
proof -
  have "\<exists>ts. (''r1:b2'', ts) \<in> set (en_target_state (aw_engines sample_world ''n1'')) \<and> tg_open ts = Some ''a1''"
    by (simp add: sample_world_def sample_done_def complete_op_def open_alert_def conflicts_def empty_alert_db_def
        case_prod_unfold open_input_of_def finish_open_def put_target_state_def release_def
        sample_read_engine_def sample_describe_def sample_notify_def engine_eval)
  then obtain ts where "(''r1:b2'', ts) \<in> set (en_target_state (aw_engines sample_world ''n1''))"
    "tg_open ts = Some ''a1''" by blast
  then show ?thesis using alert_tracking_sound[OF sample_world_reach, of "''n1''"] by blast
qed

text \<open>C26: Debounce is symmetric and exact. A target with no open alert asks for one exactly when the last
  \<open>n\<close> evaluations all breached and the cooldown since its last resolution has passed; a target with an
  open alert asks to close it exactly when the last \<open>n\<close> evaluations were all clear.\<close>
theorem debounce_exact:
  assumes "0 < n"
  shows "(tg_open ts = None \<and> tg_breaches ts = 0 \<longrightarrow>
      (snd (debounce (int n) c now b (debounce_run (int n) c es ts)) = RequestOpen \<longleftrightarrow>
        n \<le> Suc (length es) \<and> (\<forall>e \<in> set (drop (Suc (length es) - n) (es @ [(now, b)])). snd e) \<and>
        c * 1000 \<le> now - tg_resolved_at ts)) \<and>
    (tg_open ts \<noteq> None \<and> tg_clears ts = 0 \<longrightarrow>
      (snd (debounce (int n) c now b (debounce_run (int n) c es ts)) = RequestClose \<longleftrightarrow>
        n \<le> Suc (length es) \<and> (\<forall>e \<in> set (drop (Suc (length es) - n) (es @ [(now, b)])). \<not> snd e)))"
proof (intro conjI impI)
  let ?ts = "debounce_run (int n) c es ts"
  assume a: "tg_open ts = None \<and> tg_breaches ts = 0"
  have "b \<and> int n \<le> tg_breaches ?ts + 1 \<longleftrightarrow> n \<le> run_length True (es @ [(now, b)])"
    using a assms breaches_count[of ts "int n" c es] by (auto simp: run_length_append)
  then show "snd (debounce (int n) c now b ?ts) = RequestOpen \<longleftrightarrow>
      n \<le> Suc (length es) \<and> (\<forall>e \<in> set (drop (Suc (length es) - n) (es @ [(now, b)])). snd e) \<and>
      c * 1000 \<le> now - tg_resolved_at ts"
    using debounce_open_iff[of "int n" ?ts c now b] a assms run_length_last[of n True "es @ [(now, b)]"] by auto
next
  let ?ts = "debounce_run (int n) c es ts"
  assume a: "tg_open ts \<noteq> None \<and> tg_clears ts = 0"
  have "\<not> b \<and> int n \<le> tg_clears ?ts + 1 \<longleftrightarrow> n \<le> run_length False (es @ [(now, b)])"
    using a assms clears_count[of ts "int n" c es] by (auto simp: run_length_append)
  then show "snd (debounce (int n) c now b ?ts) = RequestClose \<longleftrightarrow>
      n \<le> Suc (length es) \<and> (\<forall>e \<in> set (drop (Suc (length es) - n) (es @ [(now, b)])). \<not> snd e)"
    using debounce_close_iff[of ?ts "int n" c now b] a run_length_last[of n False "es @ [(now, b)]"] by auto
qed

theorem debounce_exact_witness:
  "snd (debounce (int 2) 60 70000 True (debounce_run (int 2) 60 [(1000, False), (60500, True)] new_target_state))
     = RequestOpen"
  using debounce_exact[of 2 new_target_state 60 70000 True "[(1000, False), (60500, True)]"]
  by (auto simp: new_target_state_def)

text \<open>A reading that the quality gate flagged opens and closes nothing except for the rules whose
  very condition is the flag: every operation an engine starts on it is an out-of-range rule's.\<close>
theorem flagged_reading_quiet:
  assumes "rd_quality r \<noteq> Good"
  shows "\<exists>extra. en_pending (on_reading s r now e) = en_pending e @ extra \<and>
    (\<forall>p \<in> set extra. ar_condition (rt_rule (op_target p)) = out_of_range)"
proof -
  define st where "st = track_reading (jget (en_need_history e) (sn_id s)) (jget (en_sensor_state e) (sn_id s)) r"
  have q: "ss_quality st \<noteq> Good" using assms by (simp add: st_def track_reading_def Let_def)
  have fold: "\<exists>extra. en_pending (fold (\<lambda>t. evaluate_target t (Some st) now) ts x) = en_pending x @ extra \<and>
      (\<forall>p \<in> set extra. ar_condition (rt_rule (op_target p)) = out_of_range)" for ts x
  proof (induction ts arbitrary: x)
    case (Cons t ts)
    let ?x = "evaluate_target t (Some st) now x"
    obtain ex1 where 1: "en_pending ?x = en_pending x @ ex1" "\<forall>p \<in> set ex1. op_target p = t"
      using evaluate_pending by blast
    obtain ex2 where 2: "en_pending (fold (\<lambda>t. evaluate_target t (Some st) now) ts ?x) = en_pending ?x @ ex2"
      "\<forall>p \<in> set ex2. ar_condition (rt_rule (op_target p)) = out_of_range" using Cons.IH by blast
    show ?case
    proof (cases "ar_condition (rt_rule t) = out_of_range")
      case True
      then show ?thesis using 1 2 by (intro exI[of _ "ex1 @ ex2"]) auto
    next
      case False
      then have "?x = x" using flagged_evaluation[OF refl False q] by simp
      then show ?thesis using 2 by (intro exI[of _ ex2]) simp
    qed
  qed simp
  have eq: "on_reading s r now e = (let e1 = e\<lparr>en_sensor_state := jset (sn_id s) st (en_sensor_state e)\<rparr> in
      case jget (en_by_sensor e1) (sn_id s) of
           None \<Rightarrow> e1
         | Some ts \<Rightarrow> fold (\<lambda>t. evaluate_target t (Some st) now)
             (filter (\<lambda>t. instantaneous (ar_condition (rt_rule t))) ts) e1)"
    unfolding on_reading_def st_def Let_def using assms by simp
  show ?thesis
  proof (cases "jget (en_by_sensor e) (sn_id s)")
    case (Some ts)
    then show ?thesis
      using fold[of "filter (\<lambda>t. instantaneous (ar_condition (rt_rule t))) ts"
          "e\<lparr>en_sensor_state := jset (sn_id s) st (en_sensor_state e)\<rparr>"] by (simp add: eq Let_def)
  qed (simp add: eq Let_def)
qed

theorem flagged_reading_quiet_witness:
  "\<exists>extra. en_pending (on_reading (sample_sensor ''b2'' ''t1'' ''KW'') (sample_read DeviceFault 99) 1000
       (sample_engine out_of_range)) = [] @ extra \<and>
     list_all (\<lambda>p. ar_condition (rt_rule (op_target p)) = out_of_range) extra"
  using flagged_reading_quiet[of "sample_read DeviceFault 99" "sample_sensor ''b2'' ''t1'' ''KW''" 1000
      "sample_engine out_of_range"]
  by (simp add: sample_read_def sample_engine_eq[of out_of_range] mk_engine_def list_all_iff)

text \<open>A sensor that dies after a flagged reading is never reported: the gate that keeps flagged values
  out of value conditions also stops the no-data rule, so no sweep, however late, opens its alert, while
  the same sensor dying after a good reading is reported.\<close>
theorem no_data_masked_by_flag:
  "let read = (\<lambda>q. on_reading (sample_sensor ''b2'' ''t1'' ''KW'') (sample_read q 5) 1000 (sample_engine no_data))
   in (\<forall>now. en_pending (engine_sweep now (read OutOfRange)) = []) \<and>
      en_pending (engine_sweep 62000 (read Good)) = [PendOpen (sample_target no_data) None]"
  by (simp add: engine_eval)

end
