(* ===== verification/Pipeline.thy ===== *)
theory Pipeline
  imports Writer Alert_Engine
begin

section \<open>The ingest path (apps/ingest/src/pipeline.ts)\<close>

text \<open>
  The registry, the writer, the fan-out and the alert engine put together. One clock value stands for
  the reads of the clock within one synchronous call. Timers and logging are left out.
\<close>

record pipeline_config =
  pc_max_clock_skew :: ms
  pc_alert_enabled :: bool

record pipeline =
  pl_registry :: registry
  pl_writer :: writer
  pl_fanout :: fanout
  pl_alerts :: engine
  pl_last_values :: "(string, jsnum) jsmap"

record ingest_result =
  ig_accepted :: nat
  ig_unknown_ids :: "string list"
  ig_flagged :: nat
  ig_future_dated :: nat

definition owned_of :: "sensor \<Rightarrow> ms \<Rightarrow> jsnum \<Rightarrow> quality \<Rightarrow> owned_reading" where
  "owned_of s ts v q = \<lparr>rd_sensor = sn_id s, rd_ts = ts, rd_value = v, rd_quality = q, rd_tenant = sn_tenant s\<rparr>"

definition dispatch_one :: "pipeline_config \<Rightarrow> ms \<Rightarrow> sensor \<times> owned_reading \<Rightarrow> pipeline \<Rightarrow> pipeline" where
  "dispatch_one cfg now e p =
     (let s = fst e; r = reading.truncate (snd e);
          p1 = p\<lparr>pl_last_values := jset (sn_id s) (rd_value r) (pl_last_values p),
                 pl_fanout := fo_publish s r (pl_fanout p)\<rparr>
      in if pc_alert_enabled cfg then p1\<lparr>pl_alerts := on_reading s r now (pl_alerts p1)\<rparr> else p1)"

definition dispatch :: "pipeline_config \<Rightarrow> ms \<Rightarrow> (sensor \<times> owned_reading) list \<Rightarrow> pipeline \<Rightarrow> pipeline" where
  "dispatch cfg now es p =
     (if es = [] then p
      else fold (dispatch_one cfg now) es (p\<lparr>pl_writer := enqueue now (map snd es) (pl_writer p)\<rparr>))"

subsection \<open>Readings from devices\<close>

record ingest_loop =
  il_unknown :: "string list"
  il_readings :: "(sensor \<times> owned_reading) list"
  il_flagged :: nat
  il_future :: nat

definition ingest_one :: "pipeline_config \<Rightarrow> registry \<Rightarrow> string \<Rightarrow> ms \<Rightarrow> raw_reading \<Rightarrow> ingest_loop \<Rightarrow> ingest_loop" where
  "ingest_one cfg g tenant now raw l =
     (case registry_lookup g tenant (rw_external_id raw) of
        None \<Rightarrow> l\<lparr>il_unknown := sadd (rw_external_id raw) (il_unknown l)\<rparr>
      | Some s \<Rightarrow>
          let ts = (case rw_ts raw of Some t \<Rightarrow> t | None \<Rightarrow> now) in
          if ts > now + pc_max_clock_skew cfg then l\<lparr>il_future := il_future l + 1\<rparr>
          else let q = assess_quality s (rw_value raw) (rw_quality raw) in
               l\<lparr>il_flagged := (if q \<noteq> Good then il_flagged l + 1 else il_flagged l),
                 il_readings := il_readings l @ [(s, owned_of s ts (rw_value raw) q)]\<rparr>)"

fun retry_ids :: "string \<Rightarrow> ms \<Rightarrow> string list \<Rightarrow> registry \<Rightarrow> bool \<times> registry" where
  "retry_ids tenant now [] g = (False, g)"
| "retry_ids tenant now (i # ids) g =
     (let (again, g1) = should_retry_unknown tenant i now g; (others, g2) = retry_ids tenant now ids g1
      in (again \<or> others, g2))"

definition ingest_raw ::
  "pipeline_config \<Rightarrow> string \<Rightarrow> ms \<Rightarrow> raw_reading list \<Rightarrow> pipeline \<Rightarrow> ingest_result \<times> pipeline" where
  "ingest_raw cfg tenant now batch p =
     (let l = fold (ingest_one cfg (pl_registry p) tenant now) batch
            \<lparr>il_unknown = [], il_readings = [], il_flagged = 0, il_future = 0\<rparr>;
          p1 = dispatch cfg now (il_readings l) p;
          (again, g) = retry_ids tenant now (il_unknown l) (pl_registry p1);
          p2 = p1\<lparr>pl_registry := (if again then snd (refresh_start g) else g)\<rparr>
      in (\<lparr>ig_accepted = length (il_readings l), ig_unknown_ids = il_unknown l, ig_flagged = il_flagged l,
           ig_future_dated = il_future l\<rparr>, p2))"

subsection \<open>Readings of the simulator\<close>

definition ingest_resolved :: "pipeline_config \<Rightarrow> ms \<Rightarrow> (sensor \<times> jsnum \<times> ms) list \<Rightarrow> pipeline \<Rightarrow> nat \<times> pipeline" where
  "ingest_resolved cfg now items p =
     (length items,
      dispatch cfg now (map (\<lambda>(s, v, ts). (s, owned_of s ts v (assess_quality s v None))) items) p)"

definition last_value :: "string \<Rightarrow> pipeline \<Rightarrow> jsnum option" where
  "last_value sensor p = jget (pl_last_values p) sensor"

subsection \<open>What a batch comes to\<close>

text \<open>The reference: each reading of a batch judged on its own.\<close>

datatype judgement = UnknownId string | FutureDated | Accepted sensor owned_reading

definition judge_raw :: "pipeline_config \<Rightarrow> registry \<Rightarrow> string \<Rightarrow> ms \<Rightarrow> raw_reading \<Rightarrow> judgement" where
  "judge_raw cfg g tenant now raw =
     (case registry_lookup g tenant (rw_external_id raw) of
        None \<Rightarrow> UnknownId (rw_external_id raw)
      | Some s \<Rightarrow>
          let ts = (case rw_ts raw of Some t \<Rightarrow> t | None \<Rightarrow> now) in
          if now + pc_max_clock_skew cfg < ts then FutureDated
          else Accepted s (owned_of s ts (rw_value raw) (assess_quality s (rw_value raw) (rw_quality raw))))"

fun accepted_entries :: "judgement list \<Rightarrow> (sensor \<times> owned_reading) list" where
  "accepted_entries [] = []"
| "accepted_entries (Accepted s r # js) = (s, r) # accepted_entries js"
| "accepted_entries (_ # js) = accepted_entries js"

fun is_unknown :: "judgement \<Rightarrow> bool" where
  "is_unknown (UnknownId _) = True"
| "is_unknown _ = False"

fun is_future :: "judgement \<Rightarrow> bool" where
  "is_future FutureDated = True"
| "is_future _ = False"

definition judge_batch :: "pipeline_config \<Rightarrow> registry \<Rightarrow> string \<Rightarrow> ms \<Rightarrow> raw_reading list \<Rightarrow> judgement list" where
  "judge_batch cfg g tenant now batch = map (judge_raw cfg g tenant now) batch"

lemma ingest_loop_spec:
  assumes "l' = fold (ingest_one cfg g tenant now) batch l"
  shows "il_readings l' = il_readings l @ accepted_entries (judge_batch cfg g tenant now batch)"
    "il_future l' = il_future l + length (filter is_future (judge_batch cfg g tenant now batch))"
    "set (il_unknown l') = set (il_unknown l) \<union> {i. UnknownId i \<in> set (judge_batch cfg g tenant now batch)}"
    "distinct (il_unknown l) \<Longrightarrow> distinct (il_unknown l')"
    "il_flagged l' = il_flagged l +
       length (filter (\<lambda>(s, r). rd_quality r \<noteq> Good) (accepted_entries (judge_batch cfg g tenant now batch)))"
proof -
  have "il_readings l' = il_readings l @ accepted_entries (judge_batch cfg g tenant now batch) \<and>
    il_future l' = il_future l + length (filter is_future (judge_batch cfg g tenant now batch)) \<and>
    set (il_unknown l') = set (il_unknown l) \<union> {i. UnknownId i \<in> set (judge_batch cfg g tenant now batch)} \<and>
    (distinct (il_unknown l) \<longrightarrow> distinct (il_unknown l')) \<and>
    il_flagged l' = il_flagged l +
       length (filter (\<lambda>(s, r). rd_quality r \<noteq> Good) (accepted_entries (judge_batch cfg g tenant now batch)))"
    using assms
  proof (induction batch arbitrary: l)
    case (Cons raw batch)
    from Cons.IH[of "ingest_one cfg g tenant now raw l"] Cons.prems
    show ?case
      by (auto simp: judge_batch_def judge_raw_def ingest_one_def Let_def owned_of_def split: option.splits if_splits)
  qed (simp add: judge_batch_def)
  then show "il_readings l' = il_readings l @ accepted_entries (judge_batch cfg g tenant now batch)"
    "il_future l' = il_future l + length (filter is_future (judge_batch cfg g tenant now batch))"
    "set (il_unknown l') = set (il_unknown l) \<union> {i. UnknownId i \<in> set (judge_batch cfg g tenant now batch)}"
    "distinct (il_unknown l) \<Longrightarrow> distinct (il_unknown l')"
    "il_flagged l' = il_flagged l +
       length (filter (\<lambda>(s, r). rd_quality r \<noteq> Good) (accepted_entries (judge_batch cfg g tenant now batch)))"
    by blast+
qed

lemma dispatch_frame:
  "pl_registry (dispatch cfg now es p) = pl_registry p"
  "pl_writer (dispatch cfg now es p) = (if es = [] then pl_writer p else enqueue now (map snd es) (pl_writer p))"
proof -
  have "pl_registry (fold (dispatch_one cfg now) es q) = pl_registry q \<and> pl_writer (fold (dispatch_one cfg now) es q) = pl_writer q" for q
    by (induction es arbitrary: q) (simp_all add: dispatch_one_def Let_def)
  then show "pl_registry (dispatch cfg now es p) = pl_registry p"
    "pl_writer (dispatch cfg now es p) = (if es = [] then pl_writer p else enqueue now (map snd es) (pl_writer p))"
    by (simp_all add: dispatch_def)
qed

lemma counts_add_up:
  "length (accepted_entries js) + length (filter is_future js) + length (filter is_unknown js) = length js"
  by (induction js rule: accepted_entries.induct) simp_all

text \<open>A batch is accounted for to the last reading: each is accepted, refused as future-dated, or reported by
  its id as unknown; exactly the accepted ones reach the writer, in order, each stamped with the tenant of
  the sensor it resolved to and none dated further ahead of the clock than the configured skew.\<close>
theorem batch_accounted_for:
  assumes "ingest_raw cfg tenant now batch p = (res, p')"
    and "js = judge_batch cfg (pl_registry p) tenant now batch" "rs = map snd (accepted_entries js)"
  shows "ig_accepted res = length rs \<and>
    ig_accepted res + ig_future_dated res + length (filter is_unknown js) = length batch \<and>
    set (ig_unknown_ids res) = {i. UnknownId i \<in> set js} \<and> distinct (ig_unknown_ids res) \<and>
    pl_writer p' = (if rs = [] then pl_writer p else enqueue now rs (pl_writer p)) \<and>
    list_all (\<lambda>(s, r). rd_tenant r = sn_tenant s \<and> rd_sensor r = sn_id s \<and> rd_ts r \<le> now + pc_max_clock_skew cfg)
      (accepted_entries js)"
proof -
  define l where "l = fold (ingest_one cfg (pl_registry p) tenant now) batch
      \<lparr>il_unknown = [], il_readings = [], il_flagged = 0, il_future = 0\<rparr>"
  note spec = ingest_loop_spec[OF l_def]
  have res: "ig_accepted res = length (il_readings l)" "ig_future_dated res = il_future l" "ig_unknown_ids res = il_unknown l"
    and w: "pl_writer p' = pl_writer (dispatch cfg now (il_readings l) p)"
    using assms(1) unfolding ingest_raw_def l_def[symmetric] by (auto simp: Let_def split: prod.splits)
  have own: "list_all (\<lambda>(s, r). rd_tenant r = sn_tenant s \<and> rd_sensor r = sn_id s \<and> rd_ts r \<le> now + pc_max_clock_skew cfg)
      (accepted_entries js)"
    unfolding assms(2) judge_batch_def
    by (induction batch) (auto simp: judge_raw_def Let_def owned_of_def split: option.splits)
  have "length js = length batch" by (simp add: assms(2) judge_batch_def)
  then show ?thesis
    using spec(1-3) spec(4) counts_add_up[of js] own
    by (simp add: res w dispatch_frame assms(2)[symmetric] assms(3))
qed

text \<open>Synthetic and real readings take the same path: when every reading of a batch resolves to its sensor,
  declares no quality and is not future-dated, posting the batch leaves the writer, the fan-out, the alert
  engine and the registry exactly as handing the resolved readings in does.\<close>
theorem synthetic_takes_the_real_path:
  assumes "list_all2 (\<lambda>raw (s, v, ts). registry_lookup (pl_registry p) tenant (rw_external_id raw) = Some s \<and>
      rw_value raw = v \<and> rw_ts raw = Some ts \<and> rw_quality raw = None \<and> ts \<le> now + pc_max_clock_skew cfg) batch items"
  shows "ig_accepted (fst (ingest_raw cfg tenant now batch p)) = fst (ingest_resolved cfg now items p) \<and>
    snd (ingest_raw cfg tenant now batch p) = snd (ingest_resolved cfg now items p)"
proof -
  define l where "l = fold (ingest_one cfg (pl_registry p) tenant now) batch
      \<lparr>il_unknown = [], il_readings = [], il_flagged = 0, il_future = 0\<rparr>"
  let ?es = "map (\<lambda>(s, v, ts). (s, owned_of s ts v (assess_quality s v None))) items"
  have "accepted_entries (judge_batch cfg (pl_registry p) tenant now batch) = ?es \<and>
      {i. UnknownId i \<in> set (judge_batch cfg (pl_registry p) tenant now batch)} = {}"
    using assms by (induction rule: list_all2_induct) (auto simp: judge_batch_def judge_raw_def Let_def)
  then have l: "il_readings l = ?es" "il_unknown l = []"
    using ingest_loop_spec(1,3)[OF l_def] by simp_all
  have raw: "ingest_raw cfg tenant now batch p =
      (\<lparr>ig_accepted = length ?es, ig_unknown_ids = [], ig_flagged = il_flagged l, ig_future_dated = il_future l\<rparr>, dispatch cfg now ?es p)"
    unfolding ingest_raw_def l_def[symmetric] by (simp add: l Let_def)
  show ?thesis unfolding raw by (simp add: ingest_resolved_def)
qed

subsection \<open>A sample batch\<close>

definition sample_cfg :: pipeline_config where
  "sample_cfg = \<lparr>pc_max_clock_skew = 60000, pc_alert_enabled = True\<rparr>"

definition sample_pipeline :: pipeline where
  "sample_pipeline = \<lparr>pl_registry = (mk_registry default_registry_options)\<lparr>rg_maps := add_row (sample_sensor ''b2'' ''t1'' ''KW'') empty_maps\<rparr>,
     pl_writer = mk_writer 10 100, pl_fanout = mk_fanout 1000, pl_alerts = mk_engine 0 [], pl_last_values = []\<rparr>"

definition raw_of :: "string \<Rightarrow> ms \<Rightarrow> raw_reading" where
  "raw_of ext ts = \<lparr>rw_external_id = ext, rw_ts = Some ts, rw_value = Num 5, rw_quality = None\<rparr>"

definition sample_batch :: "raw_reading list" where
  "sample_batch = [raw_of ''KW'' 1000, raw_of ''XX'' 1000, raw_of ''KW'' 99999999]"

lemmas pipeline_eval = sample_cfg_def sample_pipeline_def raw_of_def sample_batch_def judge_batch_def judge_raw_def
  registry_lookup_def registry_key_def add_row_def empty_maps_def own_if_def truthy_def sample_sensor_def mk_registry_def
  owned_of_def assess_quality_def js_finite_def

lemma sample_judged_batch:
  "judge_batch sample_cfg (pl_registry sample_pipeline) ''t1'' 2000 sample_batch =
     [Accepted (sample_sensor ''b2'' ''t1'' ''KW'') (owned_of (sample_sensor ''b2'' ''t1'' ''KW'') 1000 (Num 5) Good),
      UnknownId ''XX'', FutureDated]"
  by (simp add: pipeline_eval)

theorem batch_accounted_for_witness:
  "ig_accepted (fst (ingest_raw sample_cfg ''t1'' 2000 sample_batch sample_pipeline)) = 1 \<and>
   ig_future_dated (fst (ingest_raw sample_cfg ''t1'' 2000 sample_batch sample_pipeline)) = 1 \<and>
   set (ig_unknown_ids (fst (ingest_raw sample_cfg ''t1'' 2000 sample_batch sample_pipeline))) = {''XX''}"
  using batch_accounted_for[OF surjective_pairing sample_judged_batch[symmetric] refl]
  by (simp add: sample_batch_def)

theorem synthetic_takes_the_real_path_witness:
  "snd (ingest_raw sample_cfg ''t1'' 2000 [raw_of ''KW'' 1000] sample_pipeline) =
   snd (ingest_resolved sample_cfg 2000 [(sample_sensor ''b2'' ''t1'' ''KW'', Num 5, 1000)] sample_pipeline)"
  using synthetic_takes_the_real_path[of sample_pipeline "''t1''" 2000 sample_cfg "[raw_of ''KW'' 1000]"
      "[(sample_sensor ''b2'' ''t1'' ''KW'', Num 5, 1000)]"]
  by (simp add: pipeline_eval)

end
