(* ===== verification/Destination.thy ===== *)
theory Destination
  imports Limiter "HOL-Library.Word"
begin

section \<open>Where a webhook may be sent (apps/ingest/src/rules/destination.ts)\<close>

text \<open>
  The special-purpose ranges as words of their width, the textual address forms that \<open>isIP\<close> accepts
  (without zone identifiers), the check of a destination and the pinned lookup. \<open>new URL\<close> and the
  resolver are not under src/: they are arguments.
\<close>

unbundle bit_operations_syntax

type_synonym ipv4 = "32 word"
type_synonym ipv6 = "128 word"

subsection \<open>Textual addresses\<close>

definition is_digit :: "char \<Rightarrow> bool" where
  "is_digit c = (c \<in> set ''0123456789'')"

definition is_hex :: "char \<Rightarrow> bool" where
  "is_hex c = (c \<in> set ''0123456789abcdefABCDEF'')"

definition digit_of :: "char \<Rightarrow> nat" where
  "digit_of c = (let n = of_char c in if n \<ge> 97 then n - 87 else if n \<ge> 65 then n - 55 else n - 48)"

definition number_of :: "nat \<Rightarrow> string \<Rightarrow> nat" where
  "number_of base s = fold (\<lambda>c n. base * n + digit_of c) s 0"

text \<open>An octet: no leading zero, at most 255.\<close>

definition parse_octet :: "string \<Rightarrow> nat option" where
  "parse_octet s =
     (if s \<noteq> [] \<and> length s \<le> 3 \<and> list_all is_digit s \<and> (hd s \<noteq> CHR ''0'' \<or> length s = 1) \<and> number_of 10 s \<le> 255
      then Some (number_of 10 s) else None)"

definition ipv4_of :: "nat \<Rightarrow> nat \<Rightarrow> nat \<Rightarrow> nat \<Rightarrow> ipv4" where
  "ipv4_of a b c d = of_nat (((a * 256 + b) * 256 + c) * 256 + d)"

definition parse_ipv4 :: "string \<Rightarrow> ipv4 option" where
  "parse_ipv4 s =
     (case map parse_octet (split_on CHR ''.'' s) of
        [Some a, Some b, Some c, Some d] \<Rightarrow> Some (ipv4_of a b c d)
      | _ \<Rightarrow> None)"

definition parse_group :: "string \<Rightarrow> nat option" where
  "parse_group s = (if s \<noteq> [] \<and> length s \<le> 4 \<and> list_all is_hex s then Some (number_of 16 s) else None)"

text \<open>A list of groups; the last may be dotted, when \<open>dotted\<close> allows it, and counts as two.\<close>

fun parse_groups :: "bool \<Rightarrow> string list \<Rightarrow> nat list option" where
  "parse_groups dotted [] = Some []"
| "parse_groups dotted [g] =
     (case parse_group g of
        Some n \<Rightarrow> Some [n]
      | None \<Rightarrow>
          if dotted then (case parse_ipv4 g of
              Some w \<Rightarrow> Some [unat w div 65536, unat w mod 65536] | None \<Rightarrow> None)
          else None)"
| "parse_groups dotted (g # gs) =
     (case (parse_group g, parse_groups dotted gs) of
        (Some n, Some ns) \<Rightarrow> Some (n # ns)
      | _ \<Rightarrow> None)"

text \<open>The text before and after the first double colon.\<close>

fun split_double :: "string \<Rightarrow> (string \<times> string) option" where
  "split_double (a # b # s) =
     (if a = CHR '':'' \<and> b = CHR '':'' then Some ([], s)
      else map_option (\<lambda>(l, r). (a # l, r)) (split_double (b # s)))"
| "split_double s = None"

definition groups_of :: "bool \<Rightarrow> string \<Rightarrow> nat list option" where
  "groups_of dotted s = (if s = [] then Some [] else parse_groups dotted (split_on CHR '':'' s))"

definition ipv6_of :: "nat list \<Rightarrow> ipv6" where
  "ipv6_of gs = of_nat (fold (\<lambda>g n. 65536 * n + g) gs 0)"

definition parse_ipv6 :: "string \<Rightarrow> ipv6 option" where
  "parse_ipv6 s =
     (case split_double s of
        None \<Rightarrow> (case groups_of True s of
            Some gs \<Rightarrow> if length gs = 8 then Some (ipv6_of gs) else None | None \<Rightarrow> None)
      | Some (l, r) \<Rightarrow>
          (case (groups_of False l, groups_of True r) of
             (Some ls, Some rs) \<Rightarrow>
               if length ls + length rs \<le> 7
               then Some (ipv6_of (ls @ replicate (8 - length ls - length rs) 0 @ rs)) else None
           | _ \<Rightarrow> None))"

definition is_ip :: "string \<Rightarrow> nat" where
  "is_ip s = (if parse_ipv4 s \<noteq> None then 4 else if parse_ipv6 s \<noteq> None then 6 else 0)"

subsection \<open>The ranges\<close>

definition blocked_v4 :: "(ipv4 \<times> nat \<times> string) list" where
  "blocked_v4 =
     [(ipv4_of 0 0 0 0, 8, ''this-network''),
      (ipv4_of 10 0 0 0, 8, ''private''),
      (ipv4_of 100 64 0 0, 10, ''carrier-grade NAT''),
      (ipv4_of 127 0 0 0, 8, ''loopback''),
      (ipv4_of 169 254 0 0, 16, ''link-local''),
      (ipv4_of 172 16 0 0, 12, ''private''),
      (ipv4_of 192 0 0 0, 24, ''IETF protocol assignments''),
      (ipv4_of 192 0 2 0, 24, ''documentation''),
      (ipv4_of 192 168 0 0, 16, ''private''),
      (ipv4_of 198 18 0 0, 15, ''benchmarking''),
      (ipv4_of 198 51 100 0, 24, ''documentation''),
      (ipv4_of 203 0 113 0, 24, ''documentation''),
      (ipv4_of 224 0 0 0, 4, ''multicast''),
      (ipv4_of 240 0 0 0, 4, ''reserved'')]"

definition blocked_v6 :: "(ipv6 \<times> nat \<times> string) list" where
  "blocked_v6 =
     [(0, 128, ''unspecified''),
      (1, 128, ''loopback''),
      (0x0064ff9b000000000000000000000000, 96, ''NAT64''),
      (0x01000000000000000000000000000000, 64, ''discard-only''),
      (0x20010db8000000000000000000000000, 32, ''documentation''),
      (0xfc000000000000000000000000000000, 7, ''unique-local''),
      (0xfe800000000000000000000000000000, 10, ''link-local''),
      (0xff000000000000000000000000000000, 8, ''multicast'')]"

definition in_subnet :: "nat \<Rightarrow> 'a::len word \<Rightarrow> nat \<Rightarrow> 'a word \<Rightarrow> bool" where
  "in_subnet width net prefix w = (drop_bit (width - prefix) w = drop_bit (width - prefix) net)"

fun first_hit :: "nat \<Rightarrow> ('a::len word \<times> nat \<times> string) list \<Rightarrow> 'a word \<Rightarrow> string option" where
  "first_hit width [] w = None"
| "first_hit width ((net, prefix, label) # rs) w =
     (if in_subnet width net prefix w then Some label else first_hit width rs w)"

subsection \<open>Judging an address\<close>

definition lower :: "char \<Rightarrow> char" where
  "lower c = (let n = of_char c :: nat in if 65 \<le> n \<and> n \<le> 90 then char_of (n + 32) else c)"

definition mapped_prefix :: string where
  "mapped_prefix = ''::ffff:''"

definition mapped_rest :: "string \<Rightarrow> string option" where
  "mapped_rest s = (if map lower (take 7 s) = mapped_prefix then Some (drop 7 s) else None)"

text \<open>The two spellings of an IPv4-mapped address, as the text of the IPv4 address they name.\<close>

definition mapped_dotted :: "string \<Rightarrow> string option" where
  "mapped_dotted s =
     (case mapped_rest s of
        Some r \<Rightarrow> let parts = split_on CHR ''.'' r in
          if length parts = 4 \<and> list_all (\<lambda>p. 1 \<le> length p \<and> length p \<le> 3 \<and> list_all is_digit p) parts
          then Some r else None
      | None \<Rightarrow> None)"

definition mapped_hex :: "string \<Rightarrow> ipv4 option" where
  "mapped_hex s =
     (case mapped_rest s of
        Some r \<Rightarrow> (case map parse_group (split_on CHR '':'' r) of
            [Some hi, Some lo] \<Rightarrow> Some (ipv4_of (hi div 256) (hi mod 256) (lo div 256) (lo mod 256))
          | _ \<Rightarrow> None)
      | None \<Rightarrow> None)"

definition blocked_reason_v4 :: "string \<Rightarrow> string option" where
  "blocked_reason_v4 s =
     (case parse_ipv4 s of None \<Rightarrow> Some ''not an IP address'' | Some w \<Rightarrow> first_hit 32 blocked_v4 w)"

definition blocked_reason :: "string \<Rightarrow> string option" where
  "blocked_reason s =
     (case parse_ipv4 s of
        Some w \<Rightarrow> first_hit 32 blocked_v4 w
      | None \<Rightarrow>
          (case parse_ipv6 s of
             None \<Rightarrow> Some ''not an IP address''
           | Some w \<Rightarrow>
               (case mapped_dotted s of
                  Some v4 \<Rightarrow> blocked_reason_v4 v4
                | None \<Rightarrow>
                    (case mapped_hex s of
                       Some w4 \<Rightarrow> first_hit 32 blocked_v4 w4
                     | None \<Rightarrow> first_hit 128 blocked_v6 w))))"

subsection \<open>Checking a destination\<close>

record url =
  url_protocol :: string
  url_username :: string
  url_password :: string
  url_hostname :: string

type_synonym resolved = "string \<times> nat"

datatype check_result =
    Refused string
  | Cleared url "resolved list"

definition bare_host :: "string \<Rightarrow> string" where
  "bare_host h =
     (let h1 = (if h \<noteq> [] \<and> hd h = CHR ''['' then tl h else h)
      in if h1 \<noteq> [] \<and> last h1 = CHR '']'' then butlast h1 else h1)"

fun first_blocked :: "resolved list \<Rightarrow> (string \<times> string) option" where
  "first_blocked [] = None"
| "first_blocked ((a, f) # as) =
     (case blocked_reason a of
        Some reason \<Rightarrow> if reason = [] then first_blocked as else Some (a, reason)
      | None \<Rightarrow> first_blocked as)"

definition check_destination ::
  "(string \<Rightarrow> url option) \<Rightarrow> (string \<Rightarrow> string + resolved list) \<Rightarrow> string \<Rightarrow> bool \<Rightarrow> check_result" where
  "check_destination parse_url resolve raw allow_private =
     (case parse_url raw of
        None \<Rightarrow> Refused ''not a valid URL''
      | Some u \<Rightarrow>
          if url_protocol u \<noteq> ''http:'' \<and> url_protocol u \<noteq> ''https:''
          then Refused (''unsupported protocol '' @ url_protocol u)
          else if url_username u \<noteq> [] \<or> url_password u \<noteq> []
          then Refused ''credentials in the URL are not accepted''
          else
            let host = bare_host (url_hostname u); family = is_ip host;
                found = (if family \<noteq> 0 then Inr [(host, family)] else resolve host)
            in case found of
                 Inl e \<Rightarrow> Refused (''DNS lookup failed: '' @ e)
               | Inr as \<Rightarrow>
                   if as = [] then Refused ''DNS lookup returned no addresses''
                   else if allow_private then Cleared u as
                   else (case first_blocked as of
                       Some (a, reason) \<Rightarrow>
                         Refused (''resolves to a private or reserved address ('' @ a @ '', '' @ reason @ '')'')
                     | None \<Rightarrow> Cleared u as))"

subsection \<open>The pin\<close>

text \<open>What the lookup answers: every usable address, or the first one.\<close>

definition pinned_pool :: "resolved list \<Rightarrow> nat \<Rightarrow> resolved list" where
  "pinned_pool as wanted =
     (let usable = filter (\<lambda>a. wanted = 0 \<or> snd a = wanted) as in if usable \<noteq> [] then usable else as)"

definition pinned_lookup :: "resolved list \<Rightarrow> nat \<Rightarrow> bool \<Rightarrow> resolved list" where
  "pinned_lookup as wanted all = (let pool = pinned_pool as wanted in if all then pool else [hd pool])"

text \<open>The addresses the socket of a delivery may be opened to: a literal host is dialled as it is, a
  name is looked up through the pin.\<close>

definition dialled :: "url \<Rightarrow> resolved list \<Rightarrow> nat \<Rightarrow> bool \<Rightarrow> string list" where
  "dialled u as wanted all =
     (let host = bare_host (url_hostname u) in
      if is_ip host \<noteq> 0 then [host] else map fst (pinned_lookup as wanted all))"

subsection \<open>Lemmas\<close>

lemma first_blocked_none:
  "first_blocked as = None \<Longrightarrow> (a, f) \<in> set as \<Longrightarrow> blocked_reason a = None \<or> blocked_reason a = Some []"
  by (induction as rule: first_blocked.induct) (auto split: option.splits if_splits)

lemma first_hit_label: "first_hit width rs w = Some l \<Longrightarrow> l \<in> snd ` snd ` set rs"
  by (induction width rs w rule: first_hit.induct) (auto split: if_splits)

lemma blocked_reason_nonempty: "blocked_reason a \<noteq> Some []"
proof -
  have "first_hit 32 blocked_v4 w \<noteq> Some []" for w
    using first_hit_label[of 32 blocked_v4 w "[]"] by (auto simp: blocked_v4_def)
  moreover have "first_hit 128 blocked_v6 w \<noteq> Some []" for w
    using first_hit_label[of 128 blocked_v6 w "[]"] by (auto simp: blocked_v6_def)
  ultimately show ?thesis
    by (auto simp: blocked_reason_def blocked_reason_v4_def split: option.splits)
qed

lemma pinned_pool_sub: "set (pinned_pool as wanted) \<subseteq> set as"
  by (auto simp: pinned_pool_def Let_def)

lemma pinned_pool_ne: "as \<noteq> [] \<Longrightarrow> pinned_pool as wanted \<noteq> []"
  by (simp add: pinned_pool_def Let_def)

lemma pinned_lookup_sub: "as \<noteq> [] \<Longrightarrow> set (pinned_lookup as wanted all) \<subseteq> set as"
  using pinned_pool_sub[of as wanted] pinned_pool_ne[of as wanted]
  by (auto simp: pinned_lookup_def Let_def dest: subsetD[OF _ hd_in_set])

lemma split_on_chars: "set s \<subseteq> insert c (\<Union> (set ` set (split_on c s)))"
proof (induction s)
  case (Cons x s)
  then show ?case by (cases "split_on c s") auto
qed simp

lemma split_on_prefix:
  "c \<notin> set u \<Longrightarrow> split_on c (u @ s) = (u @ hd (split_on c s)) # tl (split_on c s)"
proof (induction u)
  case Nil
  then show ?case using split_on_nonempty[of c s] by simp
qed (auto split: list.splits)

lemma parse_octet_digits: "parse_octet p = Some n \<Longrightarrow> list_all is_digit p \<and> 1 \<le> length p \<and> length p \<le> 3"
  by (cases p) (auto simp: parse_octet_def split: if_splits)

lemma parse_ipv4_parts:
  assumes "parse_ipv4 s = Some w"
  shows "length (split_on CHR ''.'' s) = 4"
    and "list_all (\<lambda>p. 1 \<le> length p \<and> length p \<le> 3 \<and> list_all is_digit p) (split_on CHR ''.'' s)"
proof -
  obtain a b c d where m: "map parse_octet (split_on CHR ''.'' s) = [Some a, Some b, Some c, Some d]"
    using assms by (auto simp: parse_ipv4_def split: list.splits option.splits)
  have "length (map parse_octet (split_on CHR ''.'' s)) = 4" unfolding m by simp
  then show "length (split_on CHR ''.'' s) = 4" by simp
  obtain p q r t where "split_on CHR ''.'' s = [p, q, r, t]" "parse_octet p = Some a" "parse_octet q = Some b"
    "parse_octet r = Some c" "parse_octet t = Some d" using m by auto
  then show "list_all (\<lambda>p. 1 \<le> length p \<and> length p \<le> 3 \<and> list_all is_digit p) (split_on CHR ''.'' s)"
    using parse_octet_digits by auto
qed

lemma parse_ipv4_chars:
  assumes "parse_ipv4 s = Some w" "c \<in> set s"
  shows "is_digit c \<or> c = CHR ''.''"
  using split_on_chars[of s "CHR ''.''"] parse_ipv4_parts(2)[OF assms(1)] assms(2)
  by (auto simp: list_all_iff)

lemma parse_ipv4_dot: "parse_ipv4 s = Some w \<Longrightarrow> CHR ''.'' \<in> set s"
  using parse_ipv4_parts(1)[of s w] split_on_absent[of "CHR ''.''" s] by fastforce

lemma parse_ipv4_colon: "CHR '':'' \<in> set u \<Longrightarrow> CHR ''.'' \<notin> set u \<Longrightarrow> parse_ipv4 (u @ s) = None"
proof (rule ccontr)
  assume u: "CHR '':'' \<in> set u" "CHR ''.'' \<notin> set u" and "parse_ipv4 (u @ s) \<noteq> None"
  then obtain w where "parse_ipv4 (u @ s) = Some w" by blast
  from parse_ipv4_chars[OF this, of "CHR '':''"] u show False by (simp add: is_digit_def)
qed

text \<open>Of a destination that passed the check, whatever family the client asks for and whether it asks for
  one address or all, no address its socket may be opened to is in a blocked range.\<close>

lemma webhook_dials_judged:
  assumes "check_destination parse_url resolve raw False = Cleared u as" "a \<in> set (dialled u as wanted all)"
  shows "blocked_reason a = None"
proof -
  let ?host = "bare_host (url_hostname u)"
  have c: "as \<noteq> []" "first_blocked as = None" "is_ip ?host \<noteq> 0 \<Longrightarrow> as = [(?host, is_ip ?host)]"
    using assms(1) by (auto simp: check_destination_def Let_def split: option.splits if_splits sum.splits)
  have "\<exists>f. (a, f) \<in> set as"
    using assms(2) c pinned_lookup_sub[OF c(1), of wanted all]
    by (auto simp: dialled_def Let_def split: if_splits)
  then show ?thesis using first_blocked_none[OF c(2)] blocked_reason_nonempty by blast
qed

text \<open>Sample arguments: a URL parser that knows one name, and a resolver with a public address.\<close>

definition sample_url :: url where
  "sample_url = \<lparr>url_protocol = ''https:'', url_username = [], url_password = [], url_hostname = ''hook.example''\<rparr>"

definition sample_parse_url :: "string \<Rightarrow> url option" where
  "sample_parse_url s = (if s = ''https://hook.example/'' then Some sample_url else None)"

definition sample_resolve :: "string \<Rightarrow> string + resolved list" where
  "sample_resolve s = Inr [(''8.8.8.8'', 4), (''8.8.4.4'', 4)]"

lemmas address_eval = blocked_reason_def parse_ipv4_def parse_octet_def is_digit_def parse_ipv6_def
  groups_of_def parse_group_def is_hex_def mapped_dotted_def mapped_hex_def mapped_rest_def mapped_prefix_def
  lower_def blocked_reason_v4_def number_of_def digit_of_def ipv4_of_def ipv6_of_def blocked_v4_def
  blocked_v6_def in_subnet_def Let_def

lemma sample_destination_cleared:
  "check_destination sample_parse_url sample_resolve ''https://hook.example/'' False =
     Cleared sample_url [(''8.8.8.8'', 4), (''8.8.4.4'', 4)]"
proof -
  have r: "blocked_reason ''8.8.8.8'' = None" "blocked_reason ''8.8.4.4'' = None" "is_ip ''hook.example'' = 0"
    by (simp_all add: is_ip_def address_eval)
  show ?thesis
    by (simp add: check_destination_def sample_parse_url_def sample_url_def sample_resolve_def bare_host_def r)
qed

text \<open>An IPv4-mapped IPv6 address in its usual spelling is judged exactly as the IPv4 address it
  names, so loopback, private and link-local hosts cannot be reached through it.\<close>
theorem mapped_judged_as_ipv4:
  assumes "parse_ipv4 s = Some w"
  shows "blocked_reason (''::ffff:'' @ s) = blocked_reason s"
proof -
  have no: "CHR '':'' \<notin> set s" using parse_ipv4_chars[OF assms, of "CHR '':''"] by (auto simp: is_digit_def)
  have v4: "parse_ipv4 (''::ffff:'' @ s) = None" by (rule parse_ipv4_colon) simp_all
  have "\<not> is_hex CHR ''.''" by (simp add: is_hex_def)
  then have "\<not> list_all is_hex s" using parse_ipv4_dot[OF assms] unfolding list_all_iff by blast
  then have g: "parse_group s = None" by (simp add: parse_group_def)
  have f: "parse_group ''ffff'' = Some 65535" by (simp add: parse_group_def is_hex_def number_of_def digit_of_def Let_def)
  have "split_on CHR '':'' (''ffff:'' @ s) = [''ffff'', s]" using split_on_absent[OF no] by simp
  then have "groups_of True (''ffff:'' @ s) = Some [65535, unat w div 65536, unat w mod 65536]"
    using g f assms by (simp add: groups_of_def)
  moreover have "split_double (''::ffff:'' @ s) = Some ([], ''ffff:'' @ s)" by simp
  ultimately have v6: "parse_ipv6 (''::ffff:'' @ s) \<noteq> None"
    by (simp add: parse_ipv6_def groups_of_def del: split_double.simps)
  have "mapped_rest (''::ffff:'' @ s) = Some s"
    by (simp add: mapped_rest_def mapped_prefix_def lower_def Let_def)
  then have "mapped_dotted (''::ffff:'' @ s) = Some s"
    using parse_ipv4_parts[OF assms] by (simp add: mapped_dotted_def Let_def)
  then show ?thesis
    using v4 v6 assms unfolding blocked_reason_def blocked_reason_v4_def by (auto split: option.splits)
qed

theorem mapped_judged_as_ipv4_witness:
  "blocked_reason ''::ffff:127.0.0.1'' = blocked_reason ''127.0.0.1''"
proof -
  have "parse_ipv4 ''127.0.0.1'' = Some (ipv4_of 127 0 0 1)" by (simp add: address_eval)
  from mapped_judged_as_ipv4[OF this] show ?thesis by simp
qed

text \<open>The expanded spelling of a mapped address is not recognised as one: loopback written with
  its zero groups in full is a valid IPv6 address that no blocked range covers.\<close>
theorem expanded_mapped_not_blocked:
  "is_ip ''0:0:0:0:0:ffff:127.0.0.1'' = 6 \<and> blocked_reason ''0:0:0:0:0:ffff:127.0.0.1'' = None \<and>
   blocked_reason ''::ffff:127.0.0.1'' = Some ''loopback''"
proof -
  let ?a = "''0:0:0:0:0:ffff:127.0.0.1''"
  have p4: "parse_ipv4 ?a = None" by (simp add: address_eval)
  have p6: "parse_ipv6 ?a = Some 0x0000ffff7f000001" by (simp add: address_eval)
  have m: "mapped_dotted ?a = None" "mapped_hex ?a = None" by (simp_all add: address_eval)
  have "first_hit 128 blocked_v6 0x0000ffff7f000001 = None" by (simp add: blocked_v6_def in_subnet_def)
  then have "is_ip ?a = 6 \<and> blocked_reason ?a = None"
    using p4 p6 m by (simp add: is_ip_def blocked_reason_def del: split_on.simps)
  moreover have "blocked_reason ''::ffff:127.0.0.1'' = Some ''loopback''" by (simp add: address_eval)
  ultimately show ?thesis by simp
qed

text \<open>A subnet test compares the leading bits.\<close>

lemma in_subnet_div:
  "in_subnet 32 net p w \<longleftrightarrow> unat w div 2 ^ (32 - p) = unat net div 2 ^ (32 - p)" for w :: ipv4
  unfolding in_subnet_def word_unat_eq_iff unat_drop_bit_eq by (simp add: drop_bit_eq_div)

lemma unat_ipv4_of:
  assumes "a < 256" "b < 256" "c < 256" "d < 256"
  shows "unat (ipv4_of a b c d) = ((a * 256 + b) * 256 + c) * 256 + d"
proof -
  have "((a * 256 + b) * 256 + c) * 256 + d < 2 ^ 32" using assms by simp
  then show ?thesis unfolding ipv4_of_def by (simp only: unat_of_nat mod_less len_num0 len_bit0 len_num1 len_bit1) simp
qed

lemma first_hit_iff: "first_hit width rs w \<noteq> None \<longleftrightarrow> list_ex (\<lambda>(net, prefix, label). in_subnet width net prefix w) rs"
  by (induction width rs w rule: first_hit.induct) auto

lemma div_step: "d < (k::nat) \<Longrightarrow> (x * k + d) div k = x"
  by simp

lemma eq_step: "d < (k::nat) \<Longrightarrow> x * k + d = y \<longleftrightarrow> x = y div k \<and> d = y mod k"
  by (metis div_mult_mod_eq div_step mod_mult_self3 mod_less)

lemma div_eq_range: "0 < (k::nat) \<Longrightarrow> n div k = q \<longleftrightarrow> q * k \<le> n \<and> n < Suc q * k"
  using less_eq_div_iff_mult_less_eq[of k q n] div_less_iff_less_mult[of k n "Suc q"] by linarith

lemma octet_prefix:
  assumes "unat w = ((a * 256 + b) * 256 + c) * 256 + d" "b < 256" "c < 256" "d < 256"
  shows "unat w div 16777216 = a" "unat w div 65536 = a * 256 + b" "unat w div 256 = (a * 256 + b) * 256 + c"
    "unat w div 4194304 = (a * 256 + b) div 64" "unat w div 1048576 = (a * 256 + b) div 16"
    "unat w div 131072 = (a * 256 + b) div 2" "unat w div 268435456 = a div 16"
proof -
  have c3: "unat w div 256 = (a * 256 + b) * 256 + c" unfolding assms(1) by (rule div_step[OF assms(4)])
  have c2: "unat w div 256 div 256 = a * 256 + b" unfolding c3 by (rule div_step[OF assms(3)])
  have c1: "unat w div 256 div 256 div 256 = a" unfolding c2 by (rule div_step[OF assms(2)])
  have m: "unat w div 16777216 = unat w div 256 div 256 div 256" "unat w div 65536 = unat w div 256 div 256"
    "unat w div 4194304 = unat w div 256 div 256 div 64" "unat w div 1048576 = unat w div 256 div 256 div 16"
    "unat w div 131072 = unat w div 256 div 256 div 2" "unat w div 268435456 = unat w div 256 div 256 div 256 div 16"
    by (simp_all add: div_mult2_eq[symmetric])
  show "unat w div 16777216 = a" "unat w div 65536 = a * 256 + b" "unat w div 256 = (a * 256 + b) * 256 + c"
    "unat w div 4194304 = (a * 256 + b) div 64" "unat w div 1048576 = (a * 256 + b) div 16"
    "unat w div 131072 = (a * 256 + b) div 2" "unat w div 268435456 = a div 16"
    by (simp_all only: m c3 div_step[OF assms(3)] div_step[OF assms(2)])
qed

text \<open>The table of blocked IPv4 ranges covers exactly the special-purpose addresses of its comments,
  octet by octet: every other address, and no other, may be contacted.\<close>
theorem blocked_v4_exact:
  assumes "a < 256" "b < 256" "c < 256" "d < 256"
  shows "first_hit 32 blocked_v4 (ipv4_of a b c d) \<noteq> None \<longleftrightarrow>
    a \<in> {0, 10, 127} \<or> 224 \<le> a \<or> a = 100 \<and> 64 \<le> b \<and> b \<le> 127 \<or> a = 169 \<and> b = 254 \<or>
    a = 172 \<and> 16 \<le> b \<and> b \<le> 31 \<or> a = 192 \<and> (b = 168 \<or> b = 0 \<and> c \<in> {0, 2}) \<or>
    a = 198 \<and> (b \<in> {18, 19} \<or> b = 51 \<and> c = 100) \<or> a = 203 \<and> b = 0 \<and> c = 113"
proof -
  let ?w = "ipv4_of a b c d"
  note pre = octet_prefix[OF unat_ipv4_of[OF assms] assms(2-4)]
  have n: "unat (ipv4_of 0 0 0 0) = 0" "unat (ipv4_of 10 0 0 0) = 167772160"
    "unat (ipv4_of 127 0 0 0) = 2130706432" "unat (ipv4_of 100 64 0 0) = 1681915904"
    "unat (ipv4_of 169 254 0 0) = 2851995648" "unat (ipv4_of 172 16 0 0) = 2886729728"
    "unat (ipv4_of 192 168 0 0) = 3232235520" "unat (ipv4_of 192 0 0 0) = 3221225472"
    "unat (ipv4_of 192 0 2 0) = 3221225984" "unat (ipv4_of 198 18 0 0) = 3323068416"
    "unat (ipv4_of 198 51 100 0) = 3325256704" "unat (ipv4_of 203 0 113 0) = 3405803776"
    "unat (ipv4_of 224 0 0 0) = 3758096384" "unat (ipv4_of 240 0 0 0) = 4026531840"
    by (simp_all add: unat_ipv4_of)
  have
    "in_subnet 32 (ipv4_of 0 0 0 0) 8 ?w \<longleftrightarrow> a = 0"
    "in_subnet 32 (ipv4_of 10 0 0 0) 8 ?w \<longleftrightarrow> a = 10"
    "in_subnet 32 (ipv4_of 127 0 0 0) 8 ?w \<longleftrightarrow> a = 127"
    by (simp_all add: in_subnet_div n pre)
  moreover have "in_subnet 32 (ipv4_of 100 64 0 0) 10 ?w \<longleftrightarrow> (a * 256 + b) div 64 = 401"
    "in_subnet 32 (ipv4_of 169 254 0 0) 16 ?w \<longleftrightarrow> a * 256 + b = 43518"
    "in_subnet 32 (ipv4_of 172 16 0 0) 12 ?w \<longleftrightarrow> (a * 256 + b) div 16 = 2753"
    "in_subnet 32 (ipv4_of 192 168 0 0) 16 ?w \<longleftrightarrow> a * 256 + b = 49320"
    "in_subnet 32 (ipv4_of 192 0 0 0) 24 ?w \<longleftrightarrow> (a * 256 + b) * 256 + c = 12582912"
    "in_subnet 32 (ipv4_of 192 0 2 0) 24 ?w \<longleftrightarrow> (a * 256 + b) * 256 + c = 12582914"
    "in_subnet 32 (ipv4_of 198 18 0 0) 15 ?w \<longleftrightarrow> (a * 256 + b) div 2 = 25353"
    "in_subnet 32 (ipv4_of 198 51 100 0) 24 ?w \<longleftrightarrow> (a * 256 + b) * 256 + c = 12989284"
    "in_subnet 32 (ipv4_of 203 0 113 0) 24 ?w \<longleftrightarrow> (a * 256 + b) * 256 + c = 13303921"
    "in_subnet 32 (ipv4_of 224 0 0 0) 4 ?w \<longleftrightarrow> a div 16 = 14"
    "in_subnet 32 (ipv4_of 240 0 0 0) 4 ?w \<longleftrightarrow> a div 16 = 15"
    by (simp_all add: in_subnet_div n pre)
  moreover have "(a * 256 + b) div 64 = 401 \<longleftrightarrow> a = 100 \<and> 64 \<le> b \<and> b \<le> 127"
  proof -
    have "(a * 256 + b) div 64 = a * 4 + b div 64" using div_mult_self3[of 64 "a * 4" b] by simp
    moreover have "b div 64 < 4" "b div 64 = 1 \<longleftrightarrow> 64 \<le> b \<and> b \<le> 127" using assms(2) div_eq_range[of 64 b] div_less_iff_less_mult[of 64 b 4] by auto
    ultimately show ?thesis using eq_step[of "b div 64" 4 a 401] by simp
  qed
  moreover have "(a * 256 + b) div 16 = 2753 \<longleftrightarrow> a = 172 \<and> 16 \<le> b \<and> b \<le> 31"
  proof -
    have "(a * 256 + b) div 16 = a * 16 + b div 16" using div_mult_self3[of 16 "a * 16" b] by simp
    moreover have "b div 16 < 16" "b div 16 = 1 \<longleftrightarrow> 16 \<le> b \<and> b \<le> 31" using assms(2) div_eq_range[of 16 b] div_less_iff_less_mult[of 16 b 16] by auto
    ultimately show ?thesis using eq_step[of "b div 16" 16 a 2753] by simp
  qed
  moreover have "(a * 256 + b) div 2 = 25353 \<longleftrightarrow> a = 198 \<and> (b = 18 \<or> b = 19)"
  proof -
    have "(a * 256 + b) div 2 = a * 128 + b div 2" using div_mult_self3[of 2 "a * 128" b] by simp
    moreover have "b div 2 < 128" "b div 2 = 9 \<longleftrightarrow> b = 18 \<or> b = 19" using assms(2) div_eq_range[of 2 b] div_less_iff_less_mult[of 2 b 128] by auto
    ultimately show ?thesis using eq_step[of "b div 2" 128 a 25353] by simp
  qed
  moreover have "a * 256 + b = 43518 \<longleftrightarrow> a = 169 \<and> b = 254" "a * 256 + b = 49320 \<longleftrightarrow> a = 192 \<and> b = 168"
    using eq_step[OF assms(2), of a] by simp_all
  moreover have "(a * 256 + b) * 256 + c = 12582912 \<longleftrightarrow> a = 192 \<and> b = 0 \<and> c = 0"
    "(a * 256 + b) * 256 + c = 12582914 \<longleftrightarrow> a = 192 \<and> b = 0 \<and> c = 2"
    "(a * 256 + b) * 256 + c = 12989284 \<longleftrightarrow> a = 198 \<and> b = 51 \<and> c = 100"
    "(a * 256 + b) * 256 + c = 13303921 \<longleftrightarrow> a = 203 \<and> b = 0 \<and> c = 113"
    unfolding eq_step[OF assms(3), of "a * 256 + b"] eq_step[OF assms(2), of a] by simp_all
  moreover have "a div 16 = 14 \<longleftrightarrow> 224 \<le> a \<and> a < 240" "a div 16 = 15 \<longleftrightarrow> 240 \<le> a"
    using assms(1) div_eq_range[of 16 a] by auto
  ultimately have hit: "first_hit 32 blocked_v4 ?w \<noteq> None \<longleftrightarrow>
      a = 0 \<or> a = 10 \<or> a = 100 \<and> 64 \<le> b \<and> b \<le> 127 \<or> a = 127 \<or> a = 169 \<and> b = 254 \<or>
      a = 172 \<and> 16 \<le> b \<and> b \<le> 31 \<or> a = 192 \<and> b = 0 \<and> c = 0 \<or> a = 192 \<and> b = 0 \<and> c = 2 \<or>
      a = 192 \<and> b = 168 \<or> a = 198 \<and> (b = 18 \<or> b = 19) \<or> a = 198 \<and> b = 51 \<and> c = 100 \<or>
      a = 203 \<and> b = 0 \<and> c = 113 \<or> 224 \<le> a \<and> a < 240 \<or> 240 \<le> a"
    unfolding first_hit_iff blocked_v4_def list_ex_Nil_iff list_ex_Cons_iff prod.case by (simp only: simp_thms)
  have "224 \<le> a \<and> a < 240 \<or> 240 \<le> a \<longleftrightarrow> 224 \<le> a" by linarith
  then show ?thesis unfolding hit insert_iff empty_iff by argo
qed

theorem blocked_v4_exact_witness:
  "first_hit 32 blocked_v4 (ipv4_of 169 254 169 254) \<noteq> None \<and> first_hit 32 blocked_v4 (ipv4_of 8 8 8 8) = None"
  using blocked_v4_exact[of 169 254 169 254] blocked_v4_exact[of 8 8 8 8] by simp

subsection \<open>Public addresses, said without the tables\<close>

lemma digit_of_hex: "is_hex c \<Longrightarrow> digit_of c < 16"
  unfolding is_hex_def by (auto simp: digit_of_def Let_def)

lemma number_of_hex: "list_all is_hex s \<Longrightarrow> number_of 16 s < 16 ^ length s"
proof (induction s rule: rev_induct)
  case (snoc c s)
  then have "number_of 16 s < 16 ^ length s" "digit_of c < 16" by (simp_all add: digit_of_hex)
  then show ?case by (simp add: number_of_def)
qed (simp add: number_of_def)

lemma parse_group_bound: "parse_group g = Some n \<Longrightarrow> n < 65536"
proof -
  assume "parse_group g = Some n"
  then have g: "length g \<le> 4" "list_all is_hex g" "n = number_of 16 g" by (auto simp: parse_group_def split: if_splits)
  have "(16::nat) ^ length g \<le> 16 ^ 4" using g(1) by (intro power_increasing) auto
  then show ?thesis using number_of_hex[OF g(2)] g(3) by simp
qed

text \<open>The addresses outside the special-purpose space of RFC 6890 and of the code's comments: of IPv4 by its octets, of IPv6 by
  the numbers of the address. An address in a mapped spelling is the IPv4 address it names.\<close>

definition public_quad :: "nat \<times> nat \<times> nat \<times> nat \<Rightarrow> bool" where
  "public_quad = (\<lambda>(a, b, c, d).
     a \<notin> {0, 10, 127} \<and> a < 224 \<and> \<not> (a = 100 \<and> 64 \<le> b \<and> b \<le> 127) \<and> \<not> (a = 169 \<and> b = 254) \<and>
     \<not> (a = 172 \<and> 16 \<le> b \<and> b \<le> 31) \<and> \<not> (a = 192 \<and> b = 168) \<and> \<not> (a = 192 \<and> b = 0 \<and> c \<in> {0, 2}) \<and>
     \<not> (a = 198 \<and> b \<in> {18, 19}) \<and> \<not> (a = 198 \<and> b = 51 \<and> c = 100) \<and> \<not> (a = 203 \<and> b = 0 \<and> c = 113))"

definition public_v6 :: "nat \<Rightarrow> bool" where
  "public_v6 n =
     (1 < n \<and> n div 2 ^ 32 \<noteq> 0x0064ff9b0000000000000000 \<and> n div 2 ^ 64 \<noteq> 0x0100000000000000 \<and> n div 2 ^ 96 \<noteq> 0x20010db8 \<and>
      (let first = n div 2 ^ 112 in
        \<not> (0xfc00 \<le> first \<and> first \<le> 0xfdff) \<and> \<not> (0xfe80 \<le> first \<and> first \<le> 0xfebf) \<and> first < 0xff00))"

definition quad :: "string \<Rightarrow> (nat \<times> nat \<times> nat \<times> nat) option" where
  "quad s = (case map parse_octet (split_on CHR ''.'' s) of [Some a, Some b, Some c, Some d] \<Rightarrow> Some (a, b, c, d) | _ \<Rightarrow> None)"

definition mapped_quad :: "string \<Rightarrow> (nat \<times> nat \<times> nat \<times> nat) option" where
  "mapped_quad s =
     (case mapped_rest s of
        None \<Rightarrow> None
      | Some r \<Rightarrow> (case quad r of
            Some q \<Rightarrow> Some q
          | None \<Rightarrow> (case map parse_group (split_on CHR '':'' r) of
                [Some h, Some l] \<Rightarrow> Some (h div 256, h mod 256, l div 256, l mod 256) | _ \<Rightarrow> None)))"

definition public_host :: "string \<Rightarrow> bool" where
  "public_host s =
     (case quad s of
        Some q \<Rightarrow> public_quad q
      | None \<Rightarrow> (case parse_ipv6 s of
            None \<Rightarrow> False
          | Some w \<Rightarrow> (case mapped_quad s of Some q \<Rightarrow> public_quad q | None \<Rightarrow> public_v6 (unat w))))"

lemma parse_ipv4_quad: "parse_ipv4 s = map_option (\<lambda>(a, b, c, d). ipv4_of a b c d) (quad s)"
  by (simp add: parse_ipv4_def quad_def split: list.splits option.splits)

lemma quad_bounds: "quad s = Some (a, b, c, d) \<Longrightarrow> a < 256 \<and> b < 256 \<and> c < 256 \<and> d < 256"
proof -
  assume "quad s = Some (a, b, c, d)"
  then have "map parse_octet (split_on CHR ''.'' s) = [Some a, Some b, Some c, Some d]"
    by (auto simp: quad_def split: list.splits option.splits)
  moreover have "parse_octet p = Some n \<Longrightarrow> n < 256" for p n by (auto simp: parse_octet_def split: if_splits)
  ultimately show ?thesis by auto
qed

lemma unlisted_public:
  assumes "a < 256" "b < 256" "c < 256" "d < 256" "first_hit 32 blocked_v4 (ipv4_of a b c d) = None"
  shows "public_quad (a, b, c, d)"
  using blocked_v4_exact[OF assms(1-4)] assms(5) by (auto simp: public_quad_def)

lemma in_subnet_div6:
  "in_subnet 128 net p w \<longleftrightarrow> unat w div 2 ^ (128 - p) = unat net div 2 ^ (128 - p)" for w :: ipv6
  unfolding in_subnet_def word_unat_eq_iff unat_drop_bit_eq by (simp add: drop_bit_eq_div)

lemma unlisted_public_v6:
  assumes "first_hit 128 blocked_v6 w = None"
  shows "public_v6 (unat w)"
proof -
  let ?n = "unat w"
  have out: "\<not> in_subnet 128 net p w" if "(net, p, l) \<in> set blocked_v6" for net p l
    using first_hit_iff[of 128 blocked_v6 w] assms that by (auto simp: list_ex_iff)
  note miss = out[unfolded in_subnet_div6]
  have "?n \<noteq> 0" using miss[of 0 128 "''unspecified''"] by (simp add: blocked_v6_def)
  moreover have "?n \<noteq> 1" using miss[of 1 128 "''loopback''"] by (simp add: blocked_v6_def)
  moreover have "?n div 2 ^ 32 \<noteq> 0x0064ff9b0000000000000000"
    using miss[of "0x0064ff9b000000000000000000000000" 96 "''NAT64''"] by (simp add: blocked_v6_def)
  moreover have "?n div 2 ^ 64 \<noteq> 0x0100000000000000"
    using miss[of "0x01000000000000000000000000000000" 64 "''discard-only''"] by (simp add: blocked_v6_def)
  moreover have "?n div 2 ^ 96 \<noteq> 0x20010db8"
    using miss[of "0x20010db8000000000000000000000000" 32 "''documentation''"] by (simp add: blocked_v6_def)
  moreover have top: "?n div 2 ^ 121 = ?n div 2 ^ 112 div 512" "?n div 2 ^ 118 = ?n div 2 ^ 112 div 64" "?n div 2 ^ 120 = ?n div 2 ^ 112 div 256"
    by (simp_all add: div_mult2_eq[symmetric])
  have "?n div 2 ^ 112 div 512 \<noteq> 126"
    using miss[of "0xfc000000000000000000000000000000" 7 "''unique-local''"] unfolding top(1)[symmetric] by (simp add: blocked_v6_def)
  moreover have "?n div 2 ^ 112 div 64 \<noteq> 1018"
    using miss[of "0xfe800000000000000000000000000000" 10 "''link-local''"] unfolding top(2)[symmetric] by (simp add: blocked_v6_def)
  moreover have "?n div 2 ^ 112 div 256 \<noteq> 255"
    using miss[of "0xff000000000000000000000000000000" 8 "''multicast''"] unfolding top(3)[symmetric] by (simp add: blocked_v6_def)
  moreover have "?n div 2 ^ 112 < 65536"
  proof -
    have "?n < 2 ^ LENGTH(128)" by (rule unsigned_less)
    then show ?thesis by (simp add: div_less_iff_less_mult)
  qed
  ultimately show ?thesis unfolding public_v6_def Let_def by (auto simp: div_eq_range)
qed

lemma cleared_is_public:
  assumes "blocked_reason s = None"
  shows "public_host s"
proof (cases "quad s")
  case (Some q)
  obtain a b c d where q: "q = (a, b, c, d)" by (cases q) auto
  have "first_hit 32 blocked_v4 (ipv4_of a b c d) = None"
    using assms by (simp add: blocked_reason_def parse_ipv4_quad Some q)
  then show ?thesis using unlisted_public quad_bounds[of s a b c d] by (simp add: public_host_def Some q)
next
  case None
  then obtain w where w: "parse_ipv6 s = Some w"
    using assms by (auto simp: blocked_reason_def parse_ipv4_quad split: option.splits)
  show ?thesis
  proof (cases "mapped_quad s")
    case None': None
    have "mapped_dotted s = None"
    proof (rule ccontr)
      assume "mapped_dotted s \<noteq> None"
      then obtain r where r: "mapped_rest s = Some r" "mapped_dotted s = Some r"
        by (auto simp: mapped_dotted_def Let_def split: option.splits if_splits)
      then have "quad r \<noteq> None"
        using assms None w by (auto simp: blocked_reason_def blocked_reason_v4_def parse_ipv4_quad split: option.splits)
      then show False using None' r(1) by (auto simp: mapped_quad_def)
    qed
    moreover have "mapped_hex s = None"
      using None' by (auto simp: mapped_hex_def mapped_quad_def split: option.splits list.splits)
    ultimately have "first_hit 128 blocked_v6 w = None"
      using assms None w by (simp add: blocked_reason_def parse_ipv4_quad)
    then show ?thesis using unlisted_public_v6 None None' w by (simp add: public_host_def)
  next
    case (Some q)
    obtain a b c d where q: "q = (a, b, c, d)" by (cases q) auto
    obtain r where r: "mapped_rest s = Some r" using Some by (auto simp: mapped_quad_def split: option.splits)
    have "public_quad q"
    proof (cases "quad r")
      case (Some q')
      then have q': "q' = q" using \<open>mapped_quad s = Some q\<close> r by (simp add: mapped_quad_def)
      then have v4: "parse_ipv4 r = Some (ipv4_of a b c d)" using Some by (simp add: parse_ipv4_quad q)
      then have "mapped_dotted s = Some r" using parse_ipv4_parts r by (simp add: mapped_dotted_def Let_def)
      then have "first_hit 32 blocked_v4 (ipv4_of a b c d) = None"
        using assms None w v4 by (simp add: blocked_reason_def blocked_reason_v4_def parse_ipv4_quad[of s])
      then show ?thesis using unlisted_public quad_bounds[of r a b c d] Some q' by (simp add: q)
    next
      case none: None
      then obtain h l where hl: "map parse_group (split_on CHR '':'' r) = [Some h, Some l]"
          "(a, b, c, d) = (h div 256, h mod 256, l div 256, l mod 256)"
        using Some r q by (auto simp: mapped_quad_def split: list.splits option.splits)
      have "mapped_hex s = Some (ipv4_of a b c d)" using hl r by (simp add: mapped_hex_def)
      moreover have "mapped_dotted s = None"
        using assms None w none r
        by (auto simp: blocked_reason_def blocked_reason_v4_def parse_ipv4_quad mapped_dotted_def Let_def split: option.splits if_splits)
      ultimately have f: "first_hit 32 blocked_v4 (ipv4_of a b c d) = None"
        using assms None w by (simp add: blocked_reason_def parse_ipv4_quad)
      have "parse_group g = Some n \<Longrightarrow> n < 65536" for g n by (rule parse_group_bound)
      then have "h < 65536" "l < 65536" using hl(1) by auto
      then have "a < 256" "b < 256" "c < 256" "d < 256" using hl(2) by (auto simp: div_less_iff_less_mult)
      then show ?thesis using unlisted_public f by (simp add: q)
    qed
    then show ?thesis using None w Some by (simp add: public_host_def)
  qed
qed

text \<open>Of a destination that passed the check, every address its socket may be opened to is public.\<close>

lemma webhook_dials_public:
  assumes "check_destination parse_url resolve raw False = Cleared u as" "a \<in> set (dialled u as wanted all)"
  shows "public_host a"
  by (rule cleared_is_public[OF webhook_dials_judged[OF assms]])

end
