(* ===== verification/Notify.thy ===== *)
theory Notify
  imports Alert_Engine Destination
begin

section \<open>Notification outbox (apps/ingest/src/rules/notify.ts)\<close>

text \<open>
  The rows of \<open>alert_notifications\<close> are the outbox: they are written with the alert, claimed under a
  lease, delivered, and marked. What the outside answers (the relay, the resolver, the receiver) is an
  argument of a delivery; what leaves the process is appended to \<open>nw_sent\<close>. A statement that a CHECK
  constraint refuses is \<open>None\<close>, an exception that escapes a handler is \<open>Raised\<close>, with the state it left.
  The row locks that other claiming transactions hold are an argument of a claim. A claim's
  \<open>RETURNING\<close> gives the rows in no fixed order; here they come in the order of the subquery.
\<close>

record notify_config =
  nc_enabled :: bool
  nc_smtp :: "string option"
  nc_from :: "string option"
  nc_allow_private :: bool
  nc_max_attempts :: int
  nc_lease :: ms
  nc_batch :: nat

record notify_stats =
  ns_delivered :: int
  ns_failed :: int
  ns_blocked :: int
  ns_skipped :: int

record notify_world =
  nw_db :: alert_db
  nw_stats :: notify_stats
  nw_sent :: "(note_key \<times> alert) list"

subsection \<open>Destinations of a rule\<close>

definition webhook_targets :: "json option \<Rightarrow> notify_target list" where
  "webhook_targets v = (case v of Some (JString u) \<Rightarrow> if u \<noteq> [] then [(Webhook, u)] else [] | _ \<Rightarrow> [])"

definition email_target :: "json \<Rightarrow> notify_target list" where
  "email_target v = (case v of JString a \<Rightarrow> if CHR ''@'' \<in> set a then [(Email, a)] else [] | _ \<Rightarrow> [])"

definition email_targets :: "json option \<Rightarrow> notify_target list" where
  "email_targets v = (case v of
     Some (JArray xs) \<Rightarrow> concat (map email_target xs) | Some x \<Rightarrow> email_target x | None \<Rightarrow> [])"

definition log_targets :: "json option \<Rightarrow> notify_target list" where
  "log_targets v = (if v = Some (JBool True) then [(LogChannel, ''stdout'')] else [])"

definition parse_targets :: "json \<Rightarrow> notify_target list" where
  "parse_targets config =
     webhook_targets (jfield config ''webhook'') @ email_targets (jfield config ''email'')
       @ log_targets (jfield config ''log'')"

definition targets_for :: "notify_config \<Rightarrow> json \<Rightarrow> notify_stats \<Rightarrow> notify_target list \<times> notify_stats" where
  "targets_for cfg config st =
     (let targets = parse_targets config in
      if nc_enabled cfg then (targets, st)
      else ([], st\<lparr>ns_skipped := ns_skipped st + int (length targets)\<rparr>))"

subsection \<open>Claiming rows\<close>

definition claimable :: "notify_config \<Rightarrow> string \<Rightarrow> string option \<Rightarrow> ms \<Rightarrow> alert_db \<Rightarrow> note_key \<times> notification \<Rightarrow> bool" where
  "claimable cfg tenant alert_id now db e =
     (case e of ((i, c, t), n) \<Rightarrow>
        nt_tenant n = tenant \<and> nt_status n \<noteq> NoteDelivered \<and> nt_attempts n < nc_max_attempts cfg \<and>
        (case alert_by_id tenant i db of Some a \<Rightarrow> al_state a \<noteq> Resolved | None \<Rightarrow> False) \<and>
        (case alert_id of None \<Rightarrow> True | Some j \<Rightarrow> i = j) \<and>
        (case nt_claimed_at n of None \<Rightarrow> True | Some since \<Rightarrow> since < now - nc_lease cfg))"

definition claim_rows ::
  "notify_config \<Rightarrow> string \<Rightarrow> string option \<Rightarrow> ms \<Rightarrow> note_key list \<Rightarrow> alert_db \<Rightarrow> note_key list" where
  "claim_rows cfg tenant alert_id now locked db =
     map fst (take (nc_batch cfg) (sort_key (nt_created_at \<circ> snd)
       (filter (\<lambda>e. claimable cfg tenant alert_id now db e \<and> fst e \<notin> set locked) (ad_notes db))))"

definition stamp_claim :: "ms \<Rightarrow> note_key list \<Rightarrow> alert_db \<Rightarrow> alert_db" where
  "stamp_claim now keys db =
     db\<lparr>ad_notes := map (\<lambda>(k, n). (k, if k \<in> set keys then n\<lparr>nt_claimed_at := Some now\<rparr> else n)) (ad_notes db)\<rparr>"

definition claim ::
  "notify_config \<Rightarrow> string \<Rightarrow> string option \<Rightarrow> ms \<Rightarrow> note_key list \<Rightarrow> alert_db \<Rightarrow> note_key list \<times> alert_db" where
  "claim cfg tenant alert_id now locked db =
     (let keys = claim_rows cfg tenant alert_id now locked db in (keys, stamp_claim now keys db))"

subsection \<open>Marking rows\<close>

definition mark_delivered :: "string \<Rightarrow> ms \<Rightarrow> note_key \<Rightarrow> alert_db \<Rightarrow> alert_db" where
  "mark_delivered tenant now key db =
     (case jget (ad_notes db) key of
        Some n \<Rightarrow> if nt_tenant n = tenant
          then db\<lparr>ad_notes := jset key (n\<lparr>nt_status := NoteDelivered, nt_delivered_at := Some now,
            nt_attempts := nt_attempts n + 1, nt_last_error := None\<rparr>) (ad_notes db)\<rparr>
          else db
      | None \<Rightarrow> db)"

text \<open>The column \<open>delivered_at\<close> is left as it is, so on a delivered row the new status breaks the table's
  \<open>CHECK ((status = 'delivered') = (delivered_at IS NOT NULL))\<close> and the statement raises.\<close>

definition note_check :: "notification \<Rightarrow> bool" where
  "note_check n = ((nt_status n = NoteDelivered) = (nt_delivered_at n \<noteq> None) \<and> 0 \<le> nt_attempts n)"

definition mark_failed :: "string \<Rightarrow> note_key \<Rightarrow> string \<Rightarrow> alert_db \<Rightarrow> alert_db option" where
  "mark_failed tenant key err db =
     (case jget (ad_notes db) key of
        Some n \<Rightarrow> if nt_tenant n = tenant
          then let n' = n\<lparr>nt_status := NoteFailed, nt_attempts := nt_attempts n + 1,
                          nt_last_error := Some (take 1000 err)\<rparr>
               in if note_check n' then Some (db\<lparr>ad_notes := jset key n' (ad_notes db)\<rparr>) else None
          else Some db
      | None \<Rightarrow> Some db)"

subsection \<open>Delivering\<close>

datatype 's run = Ok 's | Raised 's

fun on_raise :: "'s run \<Rightarrow> ('s \<Rightarrow> 's run) \<Rightarrow> 's run" where
  "on_raise (Ok s) h = Ok s"
| "on_raise (Raised s) h = h s"

definition run_state :: "'s run \<Rightarrow> 's" where
  "run_state r = (case r of Ok s \<Rightarrow> s | Raised s \<Rightarrow> s)"

record delivery_env =
  de_mail :: "string + unit"
  de_parse :: "string \<Rightarrow> url option"
  de_resolve :: "string \<Rightarrow> string + resolved list"
  de_post :: "url \<Rightarrow> (nat \<Rightarrow> bool \<Rightarrow> resolved list) \<Rightarrow> string + int"
  de_http_text :: "int \<Rightarrow> string"
  de_now :: ms

definition settle_delivered :: "string \<Rightarrow> ms \<Rightarrow> note_key \<Rightarrow> notify_world \<Rightarrow> notify_world run" where
  "settle_delivered tenant now key w =
     Ok (w\<lparr>nw_db := mark_delivered tenant now key (nw_db w),
           nw_stats := nw_stats w\<lparr>ns_delivered := ns_delivered (nw_stats w) + 1\<rparr>\<rparr>)"

definition settle_failed :: "string \<Rightarrow> note_key \<Rightarrow> string \<Rightarrow> notify_world \<Rightarrow> notify_world run" where
  "settle_failed tenant key err w =
     (case mark_failed tenant key err (nw_db w) of
        None \<Rightarrow> Raised w
      | Some db \<Rightarrow> Ok (w\<lparr>nw_db := db, nw_stats := nw_stats w\<lparr>ns_failed := ns_failed (nw_stats w) + 1\<rparr>\<rparr>))"

definition settle_blocked :: "string \<Rightarrow> note_key \<Rightarrow> string \<Rightarrow> notify_world \<Rightarrow> notify_world run" where
  "settle_blocked tenant key err w =
     (case mark_failed tenant key err (nw_db w) of
        None \<Rightarrow> Raised w
      | Some db \<Rightarrow> Ok (w\<lparr>nw_db := db, nw_stats := nw_stats w\<lparr>ns_blocked := ns_blocked (nw_stats w) + 1\<rparr>\<rparr>))"

definition send_out :: "note_key \<Rightarrow> alert \<Rightarrow> notify_world \<Rightarrow> notify_world" where
  "send_out key a w = w\<lparr>nw_sent := nw_sent w @ [(key, a)]\<rparr>"

definition deliver_email ::
  "notify_config \<Rightarrow> delivery_env \<Rightarrow> string \<Rightarrow> note_key \<Rightarrow> alert \<Rightarrow> notify_world \<Rightarrow> notify_world run" where
  "deliver_email cfg env tenant key a w =
     (if nc_smtp cfg = None then settle_failed tenant key ''no email transport configured'' w
      else if nc_from cfg = None \<or> nc_from cfg = Some []
      then settle_failed tenant key ''ALERT_EMAIL_FROM is not set'' w
      else case de_mail env of
             Inr _ \<Rightarrow> settle_delivered tenant (de_now env) key (send_out key a w)
           | Inl e \<Rightarrow> settle_failed tenant key e (send_out key a w))"

text \<open>The CHECK's message, as the driver reports it, is what a failing \<open>markFailed\<close> hands to the handler.\<close>

definition check_message :: string where
  "check_message = ''violates check constraint''"

text \<open>The client that makes the request is handed the URL and, in place of the system's resolver, the lookup that is pinned to the
  addresses the check judged.\<close>

definition deliver_webhook ::
  "notify_config \<Rightarrow> delivery_env \<Rightarrow> string \<Rightarrow> note_key \<Rightarrow> alert \<Rightarrow> notify_world \<Rightarrow> notify_world run" where
  "deliver_webhook cfg env tenant key a w =
     (case check_destination (de_parse env) (de_resolve env) (snd (snd key)) (nc_allow_private cfg) of
        Refused reason \<Rightarrow> settle_blocked tenant key (''blocked: '' @ reason) w
      | Cleared u as \<Rightarrow>
          (let w1 = send_out key a w in
           case de_post env u (pinned_lookup as) of
             Inl e \<Rightarrow> settle_failed tenant key e w1
           | Inr status \<Rightarrow>
               if status < 200 \<or> status \<ge> 300
               then on_raise (settle_failed tenant key (''HTTP '' @ de_http_text env status) w1)
                      (settle_failed tenant key check_message)
               else settle_delivered tenant (de_now env) key w1))"

definition deliver_row ::
  "notify_config \<Rightarrow> delivery_env \<Rightarrow> string \<Rightarrow> note_key \<Rightarrow> alert \<Rightarrow> notify_world \<Rightarrow> notify_world run" where
  "deliver_row cfg env tenant key a w =
     (case fst (snd key) of
        LogChannel \<Rightarrow> settle_delivered tenant (de_now env) key (send_out key a w)
      | Email \<Rightarrow> deliver_email cfg env tenant key a w
      | Webhook \<Rightarrow> deliver_webhook cfg env tenant key a w)"

fun deliver_claimed ::
  "notify_config \<Rightarrow> (note_key \<Rightarrow> delivery_env) \<Rightarrow> string \<Rightarrow> alert option \<Rightarrow> note_key list \<Rightarrow> notify_world \<Rightarrow> notify_world run" where
  "deliver_claimed cfg env tenant known [] w = Ok w"
| "deliver_claimed cfg env tenant known (key # keys) w =
     (let a = (case known of
                 Some b \<Rightarrow> if al_id b = fst key then Some b else alert_by_id tenant (fst key) (nw_db w)
               | None \<Rightarrow> alert_by_id tenant (fst key) (nw_db w))
      in case a of
           None \<Rightarrow> deliver_claimed cfg env tenant known keys w
         | Some b \<Rightarrow>
             (case deliver_row cfg (env key) tenant key b w of
                Raised w' \<Rightarrow> Raised w'
              | Ok w' \<Rightarrow> deliver_claimed cfg env tenant known keys w'))"

definition deliver_for_alert ::
  "notify_config \<Rightarrow> (note_key \<Rightarrow> delivery_env) \<Rightarrow> string \<Rightarrow> ms \<Rightarrow> note_key list \<Rightarrow> alert \<Rightarrow> notify_world \<Rightarrow> notify_world run" where
  "deliver_for_alert cfg env tenant now locked a w =
     (if \<not> nc_enabled cfg then Ok w
      else let (keys, db) = claim cfg tenant (Some (al_id a)) now locked (nw_db w)
           in deliver_claimed cfg env tenant (Some a) keys (w\<lparr>nw_db := db\<rparr>))"

fun retry_tenants ::
  "notify_config \<Rightarrow> (note_key \<Rightarrow> delivery_env) \<Rightarrow> ms \<Rightarrow> note_key list \<Rightarrow> string list \<Rightarrow> nat \<Rightarrow> notify_world \<Rightarrow> (nat \<times> notify_world) run" where
  "retry_tenants cfg env now locked [] sofar w = Ok (sofar, w)"
| "retry_tenants cfg env now locked (tenant # ts) sofar w =
     (let (keys, db) = claim cfg tenant None now locked (nw_db w)
      in case deliver_claimed cfg env tenant None keys (w\<lparr>nw_db := db\<rparr>) of
           Raised w' \<Rightarrow> Raised (sofar, w')
         | Ok w' \<Rightarrow> retry_tenants cfg env now locked ts (sofar + length keys) w')"

definition retry_pending ::
  "notify_config \<Rightarrow> (note_key \<Rightarrow> delivery_env) \<Rightarrow> ms \<Rightarrow> note_key list \<Rightarrow> string list \<Rightarrow> notify_world \<Rightarrow> (nat \<times> notify_world) run" where
  "retry_pending cfg env now locked tenants w =
     (if \<not> nc_enabled cfg then Ok (0, w) else retry_tenants cfg env now locked tenants 0 w)"

subsection \<open>What each statement does to a row\<close>

text \<open>Rows are looked up, not enumerated, and their keys stay whole.\<close>

declare map_of_eq_Some_iff [simp del] split_paired_All [simp del] split_paired_Ex [simp del]

lemma stamp_claim_get:
  "jget (ad_notes (stamp_claim now keys db)) k =
     map_option (\<lambda>n. if k \<in> set keys then n\<lparr>nt_claimed_at := Some now\<rparr> else n) (jget (ad_notes db) k)"
proof -
  have "jget (map (\<lambda>(k, n). (k, if k \<in> set keys then n\<lparr>nt_claimed_at := Some now\<rparr> else n)) m) k =
     map_option (\<lambda>n. if k \<in> set keys then n\<lparr>nt_claimed_at := Some now\<rparr> else n) (jget m k)" for m
    by (induction m) auto
  then show ?thesis by (simp add: stamp_claim_def)
qed

lemma stamp_claim_alerts [simp]: "ad_alerts (stamp_claim now keys db) = ad_alerts db"
  by (simp add: stamp_claim_def)

lemma stamp_claim_keys [simp]: "map fst (ad_notes (stamp_claim now keys db)) = map fst (ad_notes db)"
  by (simp add: stamp_claim_def case_prod_beta comp_def)

lemma claim_rows_distinct:
  assumes "jwf (ad_notes db)"
  shows "distinct (claim_rows cfg tenant alert_id now locked db)"
proof -
  let ?es = "sort_key (nt_created_at \<circ> snd)
    (filter (\<lambda>e. claimable cfg tenant alert_id now db e \<and> fst e \<notin> set locked) (ad_notes db))"
  let ?fs = "filter (\<lambda>e. claimable cfg tenant alert_id now db e \<and> fst e \<notin> set locked) (ad_notes db)"
  have "mset (map fst ?es) = mset (map fst ?fs)" unfolding mset_map mset_sort by (rule refl)
  moreover have "distinct (map fst ?fs)" by (rule jwf_filter[OF assms])
  ultimately have "distinct (map fst ?es)" using mset_eq_imp_distinct_iff by blast
  then show ?thesis by (simp only: claim_rows_def take_map[symmetric] distinct_take)
qed

lemma claim_rows_claimable:
  assumes "jwf (ad_notes db)" "k \<in> set (claim_rows cfg tenant alert_id now locked db)"
  shows "\<exists>n. jget (ad_notes db) k = Some n \<and> claimable cfg tenant alert_id now db (k, n) \<and> k \<notin> set locked"
proof -
  obtain n where "(k, n) \<in> set (ad_notes db)" "claimable cfg tenant alert_id now db (k, n)" "k \<notin> set locked"
    using assms(2) by (auto simp: claim_rows_def dest!: in_set_takeD)
  then show ?thesis using assms(1) by auto
qed

lemma claimableD:
  assumes "claimable cfg tenant alert_id now db (k, n)"
  shows "nt_status n \<noteq> NoteDelivered" "nt_attempts n < nc_max_attempts cfg" "nt_tenant n = tenant"
    "nt_claimed_at n = Some c \<Longrightarrow> c < now - nc_lease cfg"
  using assms by (auto simp: claimable_def split: prod.splits)

lemma mark_delivered_get:
  "jget (ad_notes (mark_delivered tenant now key db)) k =
     (case jget (ad_notes db) k of None \<Rightarrow> None | Some n \<Rightarrow> Some (if k = key \<and> nt_tenant n = tenant
        then n\<lparr>nt_status := NoteDelivered, nt_delivered_at := Some now, nt_attempts := nt_attempts n + 1,
          nt_last_error := None\<rparr> else n))"
  by (auto simp: mark_delivered_def split: option.splits)

lemma mark_failed_get:
  assumes "mark_failed tenant key err db = Some db'"
  shows "jget (ad_notes db') k =
     (case jget (ad_notes db) k of None \<Rightarrow> None | Some n \<Rightarrow> Some (if k = key \<and> nt_tenant n = tenant
        then n\<lparr>nt_status := NoteFailed, nt_attempts := nt_attempts n + 1,
          nt_last_error := Some (take 1000 err)\<rparr> else n))"
  using assms by (auto simp: mark_failed_def Let_def split: option.splits if_splits)

lemma mark_failed_check:
  assumes "mark_failed tenant key err db = Some db'" "jget (ad_notes db) key = Some n" "nt_tenant n = tenant"
  shows "note_check (n\<lparr>nt_status := NoteFailed, nt_attempts := nt_attempts n + 1, nt_last_error := Some (take 1000 err)\<rparr>)"
  using assms by (auto simp: mark_failed_def Let_def split: if_splits)

lemma mark_delivered_frame [simp]:
  "ad_alerts (mark_delivered tenant now key db) = ad_alerts db"
  "jwf (ad_notes db) \<Longrightarrow> jwf (ad_notes (mark_delivered tenant now key db))"
  by (auto simp: mark_delivered_def split: option.splits)

lemma mark_failed_frame:
  assumes "mark_failed tenant key err db = Some db'"
  shows "ad_alerts db' = ad_alerts db" "jwf (ad_notes db) \<Longrightarrow> jwf (ad_notes db')"
  using assms by (auto simp: mark_failed_def Let_def split: option.splits if_splits)

lemma insert_notes_jwf:
  "jwf (ad_notes db) \<Longrightarrow> jwf (ad_notes (fold (insert_note tenant i now) ts db))"
  by (induction ts arbitrary: db) (simp_all add: insert_note_def Let_def)

text \<open>A delivery leaves the store as it was, or marks the one row.\<close>

definition marked :: "string \<Rightarrow> ms \<Rightarrow> note_key \<Rightarrow> alert_db \<Rightarrow> alert_db \<Rightarrow> bool" where
  "marked tenant now key db db' =
     (db' = db \<or> db' = mark_delivered tenant now key db \<or> (\<exists>e. mark_failed tenant key e db = Some db'))"

lemma settle_marked:
  "marked tenant now key (nw_db w) (nw_db (run_state (settle_delivered tenant now key w)))"
  "marked tenant now key (nw_db w) (nw_db (run_state (settle_failed tenant key err w)))"
  "marked tenant now key (nw_db w) (nw_db (run_state (settle_blocked tenant key err w)))"
  by (auto simp: marked_def settle_delivered_def settle_failed_def settle_blocked_def run_state_def split: option.splits)

lemma settle_failed_again:
  "settle_failed tenant key e w = Raised w' \<Longrightarrow> w' = w"
  by (auto simp: settle_failed_def split: option.splits)

lemma send_out_db [simp]: "nw_db (send_out key a w) = nw_db w"
  by (simp add: send_out_def)

lemma deliver_row_marked:
  "marked tenant (de_now env) key (nw_db w) (nw_db (run_state (deliver_row cfg env tenant key a w)))"
proof -
  have again: "marked tenant (de_now env) key (nw_db w)
      (nw_db (run_state (on_raise (settle_failed tenant key e w1) (settle_failed tenant key e2))))"
    if "nw_db w1 = nw_db w" for e e2 w1
    using settle_marked(2)[of tenant "de_now env" key w1 e] settle_marked(2)[of tenant "de_now env" key w1 e2]
      settle_failed_again[of tenant key e w1] that
    by (cases "settle_failed tenant key e w1") (auto simp: run_state_def)
  show ?thesis
    using settle_marked[of tenant "de_now env" key w] settle_marked[of tenant "de_now env" key "send_out key a w"] again
    by (auto simp: deliver_row_def deliver_email_def deliver_webhook_def Let_def split: channel.splits sum.splits check_result.splits)
qed

subsection \<open>Workers on one outbox\<close>

text \<open>
  Any number of workers and replicas share the rows. A step is one committed transaction: an alert is
  opened with its rows, resolved or acknowledged; a worker claims; a worker that claimed a row some
  time ago, perhaps longer than the lease, delivers it. \<open>ob_claims\<close> is the history of the claims
  granted, oldest first. Nothing orders the instants of different transactions.
\<close>

record outbox =
  ob_world :: notify_world
  ob_claims :: "(note_key \<times> ms) list"

definition with_db :: "outbox \<Rightarrow> alert_db \<Rightarrow> outbox" where
  "with_db s db = s\<lparr>ob_world := (ob_world s)\<lparr>nw_db := db\<rparr>\<rparr>"

abbreviation ob_db :: "outbox \<Rightarrow> alert_db" where
  "ob_db s \<equiv> nw_db (ob_world s)"

inductive outbox_step :: "notify_config \<Rightarrow> outbox \<Rightarrow> outbox \<Rightarrow> bool" for cfg where
  raised: "jget (ad_alerts (ob_db s)) new_id = None \<Longrightarrow>
     outbox_step cfg s (with_db s (snd (open_alert new_id now i (ob_db s))))"
| resolved: "outbox_step cfg s (with_db s (snd (resolve_alert tenant i now (ob_db s))))"
| acked: "outbox_step cfg s (with_db s (snd (acknowledge_alert tenant i user now (ob_db s))))"
| claimed: "claim cfg tenant alert_id now locked (ob_db s) = (keys, db) \<Longrightarrow>
     outbox_step cfg s ((with_db s db)\<lparr>ob_claims := ob_claims s @ map (\<lambda>k. (k, now)) keys\<rparr>)"
| delivered: "(k, since) \<in> set (ob_claims s) \<Longrightarrow>
     outbox_step cfg s (s\<lparr>ob_world := run_state (deliver_row cfg env tenant k a (ob_world s))\<rparr>)"

definition outbox_init :: "outbox \<Rightarrow> bool" where
  "outbox_init s = (ob_claims s = [] \<and> ad_notes (ob_db s) = [])"

definition outbox_reach :: "notify_config \<Rightarrow> outbox \<Rightarrow> bool" where
  "outbox_reach cfg s = (\<exists>s0. outbox_init s0 \<and> (outbox_step cfg)\<^sup>*\<^sup>* s0 s)"

text \<open>The rows are well formed, and a row's stamp is no older than any claim on it.\<close>

definition outbox_ok :: "notify_config \<Rightarrow> outbox \<Rightarrow> bool" where
  "outbox_ok cfg s =
     (jwf (ad_notes (ob_db s)) \<and>
      (\<forall>k n. jget (ad_notes (ob_db s)) k = Some n \<longrightarrow> note_check n) \<and>
      (\<forall>k t. (k, t) \<in> set (ob_claims s) \<longrightarrow>
         (\<exists>n c. jget (ad_notes (ob_db s)) k = Some n \<and> nt_claimed_at n = Some c \<and> t \<le> c)) \<and>
      sorted_wrt (\<lambda>e f. fst e = fst f \<longrightarrow> snd e + nc_lease cfg < snd f) (ob_claims s))"

lemma outbox_okI:
  assumes "jwf (ad_notes (ob_db s))" "\<And>k n. jget (ad_notes (ob_db s)) k = Some n \<Longrightarrow> note_check n"
    "\<And>k t. (k, t) \<in> set (ob_claims s) \<Longrightarrow>
         \<exists>n c. jget (ad_notes (ob_db s)) k = Some n \<and> nt_claimed_at n = Some c \<and> t \<le> c"
    "sorted_wrt (\<lambda>e f. fst e = fst f \<longrightarrow> snd e + nc_lease cfg < snd f) (ob_claims s)"
  shows "outbox_ok cfg s"
  unfolding outbox_ok_def using assms by blast

lemma outbox_okD:
  assumes "outbox_ok cfg s"
  shows "jwf (ad_notes (ob_db s))" "jget (ad_notes (ob_db s)) k = Some n \<Longrightarrow> note_check n"
    "(k, t) \<in> set (ob_claims s) \<Longrightarrow>
       \<exists>n c. jget (ad_notes (ob_db s)) k = Some n \<and> nt_claimed_at n = Some c \<and> t \<le> c"
    "sorted_wrt (\<lambda>e f. fst e = fst f \<longrightarrow> snd e + nc_lease cfg < snd f) (ob_claims s)"
  using assms unfolding outbox_ok_def by blast+

text \<open>Steps other than a claim leave every row's stamp, and never unmark a delivered row.\<close>

definition row_kept :: "alert_db \<Rightarrow> alert_db \<Rightarrow> bool" where
  "row_kept db db' =
     (\<forall>k n. jget (ad_notes db) k = Some n \<longrightarrow>
        (\<exists>n'. jget (ad_notes db') k = Some n' \<and> nt_claimed_at n' = nt_claimed_at n \<and>
           (nt_status n = NoteDelivered \<and> note_check n \<longrightarrow> nt_status n' = NoteDelivered)))"

definition rows_checked :: "alert_db \<Rightarrow> bool" where
  "rows_checked db = (jwf (ad_notes db) \<and> (\<forall>k n. jget (ad_notes db) k = Some n \<longrightarrow> note_check n))"

lemma open_alert_rows:
  assumes "rows_checked db"
  shows "rows_checked (snd (open_alert new_id now i db))" "row_kept db (snd (open_alert new_id now i db))"
proof -
  let ?f = "\<lambda>d. fold (insert_note (oi_tenant i) new_id now) (oi_targets i) d"
  have g: "ad_notes (snd (open_alert new_id now i db)) = ad_notes db \<or>
      (\<exists>a. snd (open_alert new_id now i db) = ?f (db\<lparr>ad_alerts := a\<rparr>))"
    by (auto simp: open_alert_def Let_def)
  have f: "rows_checked (?f (db\<lparr>ad_alerts := a\<rparr>))" "row_kept db (?f (db\<lparr>ad_alerts := a\<rparr>))" for a
  proof -
    show "row_kept db (?f (db\<lparr>ad_alerts := a\<rparr>))"
      by (auto simp: row_kept_def insert_notes_get)
    have "note_check n" if "jget (ad_notes (?f (db\<lparr>ad_alerts := a\<rparr>))) (i, c, t) = Some n" for i c t n
      using that assms unfolding insert_notes_get rows_checked_def
      by (auto simp: note_check_def split: option.splits if_splits)
    then show "rows_checked (?f (db\<lparr>ad_alerts := a\<rparr>))"
      using assms insert_notes_jwf[of "db\<lparr>ad_alerts := a\<rparr>"] unfolding rows_checked_def by auto
  qed
  show "rows_checked (snd (open_alert new_id now i db))" "row_kept db (snd (open_alert new_id now i db))"
    using g f assms by (auto simp: rows_checked_def row_kept_def)
qed

lemma settle_alert_rows [simp]:
  "ad_notes (snd (resolve_alert tenant i now db)) = ad_notes db"
  "ad_notes (snd (acknowledge_alert tenant i user now db)) = ad_notes db"
  by (auto simp: resolve_alert_def acknowledge_alert_def Let_def split: option.splits)

lemma marked_rows:
  assumes "rows_checked db" "marked tenant now key db db'"
  shows "rows_checked db'" "row_kept db db'"
proof -
  consider "db' = db" | "db' = mark_delivered tenant now key db" | e where "mark_failed tenant key e db = Some db'"
    using assms(2) by (auto simp: marked_def)
  then have "rows_checked db' \<and> row_kept db db'"
  proof cases
    case 1
    then show ?thesis using assms(1) by (auto simp: row_kept_def)
  next
    case 2
    then show ?thesis using assms(1)
      by (auto simp: rows_checked_def row_kept_def mark_delivered_get note_check_def split: option.splits)
  next
    case 3
    have "note_check n'" if "jget (ad_notes db') k = Some n'" for k n'
      using that assms(1) mark_failed_check[OF 3] unfolding mark_failed_get[OF 3] rows_checked_def
      by (auto split: option.splits if_splits)
    moreover have "row_kept db db'"
      using mark_failed_check[OF 3] unfolding row_kept_def mark_failed_get[OF 3]
      by (auto simp: note_check_def)
    ultimately show ?thesis using assms(1) mark_failed_frame(2)[OF 3] by (auto simp: rows_checked_def)
  qed
  then show "rows_checked db'" "row_kept db db'" by simp_all
qed

lemma with_db_simps [simp]: "ob_db (with_db s db) = db" "ob_claims (with_db s db) = ob_claims s"
  by (simp_all add: with_db_def)

lemma outbox_ok_checked: "outbox_ok cfg s \<Longrightarrow> rows_checked (ob_db s)"
  unfolding outbox_ok_def rows_checked_def by blast

lemma outbox_ok_kept:
  assumes "outbox_ok cfg s" "rows_checked (ob_db s')" "row_kept (ob_db s) (ob_db s')" "ob_claims s' = ob_claims s"
  shows "outbox_ok cfg s'"
proof (rule outbox_okI)
  fix k t assume "(k, t) \<in> set (ob_claims s')"
  then obtain n c where "jget (ad_notes (ob_db s)) k = Some n" "nt_claimed_at n = Some c" "t \<le> c"
    using outbox_okD(3)[OF assms(1)] assms(4) by metis
  moreover obtain n' where "jget (ad_notes (ob_db s')) k = Some n'" "nt_claimed_at n' = nt_claimed_at n"
    using assms(3) calculation(1) unfolding row_kept_def by blast
  ultimately show "\<exists>n c. jget (ad_notes (ob_db s')) k = Some n \<and> nt_claimed_at n = Some c \<and> t \<le> c"
    by auto
qed (use assms outbox_okD[OF assms(1)] in \<open>auto simp: rows_checked_def\<close>)

lemma stamp_claim_checked:
  assumes "rows_checked db"
  shows "rows_checked (stamp_claim now keys db)"
proof -
  have "jwf (ad_notes (stamp_claim now keys db))" using assms by (simp only: stamp_claim_keys rows_checked_def)
  moreover have "note_check n" if "jget (ad_notes (stamp_claim now keys db)) k = Some n" for k n
    using that assms unfolding stamp_claim_get rows_checked_def
    by (auto simp: note_check_def split: if_splits)
  ultimately show ?thesis unfolding rows_checked_def by blast
qed

lemma outbox_ok_claim:
  assumes ok: "outbox_ok cfg s" and c: "claim cfg tenant alert_id now locked (ob_db s) = (keys, db)"
    and lease: "0 \<le> nc_lease cfg"
  shows "outbox_ok cfg ((with_db s db)\<lparr>ob_claims := ob_claims s @ map (\<lambda>k. (k, now)) keys\<rparr>)"
proof -
  have keys: "keys = claim_rows cfg tenant alert_id now locked (ob_db s)" and db: "db = stamp_claim now keys (ob_db s)"
    using c by (auto simp: claim_def Let_def)
  have checked: "rows_checked db" using stamp_claim_checked[OF outbox_ok_checked[OF ok]] by (simp add: db)
  have get: "jget (ad_notes db) k = map_option (\<lambda>n. if k \<in> set keys then n\<lparr>nt_claimed_at := Some now\<rparr> else n)
      (jget (ad_notes (ob_db s)) k)" for k
    unfolding db by (rule stamp_claim_get)
  have old: "t + nc_lease cfg < now" if k: "k \<in> set keys" and t: "(k, t) \<in> set (ob_claims s)" for k t
  proof -
    obtain n where n: "jget (ad_notes (ob_db s)) k = Some n" "claimable cfg tenant alert_id now (ob_db s) (k, n)"
      using claim_rows_claimable[OF outbox_okD(1)[OF ok]] k unfolding keys by blast
    obtain c where "nt_claimed_at n = Some c" "t \<le> c" using outbox_okD(3)[OF ok t] n(1) by auto
    then show ?thesis using claimableD(4)[OF n(2)] by fastforce
  qed
  have stamped: "\<exists>n c. jget (ad_notes db) k = Some n \<and> nt_claimed_at n = Some c \<and> t \<le> c"
    if "(k, t) \<in> set (ob_claims s) \<or> k \<in> set keys \<and> t = now" for k t
  proof (cases "k \<in> set keys")
    case True
    then obtain n where "jget (ad_notes (ob_db s)) k = Some n"
      using claim_rows_claimable[OF outbox_okD(1)[OF ok]] unfolding keys by blast
    then show ?thesis using True old[OF True] that lease by (fastforce simp: get)
  next
    case False
    then show ?thesis using outbox_okD(3)[OF ok, of k t] that by (auto simp: get)
  qed
  have "sorted_wrt (\<lambda>e f. fst e = fst f \<longrightarrow> snd e + nc_lease cfg < snd f) (map (\<lambda>k. (k, now)) keys)"
    using claim_rows_distinct[OF outbox_okD(1)[OF ok], of cfg tenant alert_id now locked]
    unfolding keys[symmetric] by (induction keys) auto
  then show ?thesis
    using outbox_okD(4)[OF ok] old stamped checked
    by (intro outbox_okI) (auto simp: sorted_wrt_append rows_checked_def)
qed

lemma outbox_step_ok:
  assumes "outbox_step cfg s s'" "outbox_ok cfg s" "0 \<le> nc_lease cfg"
  shows "outbox_ok cfg s'"
  using assms
proof cases
  case (raised new_id now i)
  then show ?thesis using open_alert_rows[OF outbox_ok_checked[OF assms(2)]] by (intro outbox_ok_kept[OF assms(2)]) auto
next
  case (delivered k since env tenant a)
  then show ?thesis using marked_rows[OF outbox_ok_checked[OF assms(2)] deliver_row_marked]
    by (intro outbox_ok_kept[OF assms(2)]) auto
qed (use outbox_ok_claim outbox_ok_checked[OF assms(2)] outbox_ok_kept[OF assms(2)] in
      \<open>auto simp: rows_checked_def row_kept_def\<close>)

lemma outbox_steps_ok: "(outbox_step cfg)\<^sup>*\<^sup>* s s' \<Longrightarrow> outbox_ok cfg s \<Longrightarrow> 0 \<le> nc_lease cfg \<Longrightarrow> outbox_ok cfg s'"
  by (induction rule: rtranclp_induct) (auto intro: outbox_step_ok)

lemma outbox_init_ok: "outbox_init s \<Longrightarrow> outbox_ok cfg s"
  by (simp add: outbox_ok_def outbox_init_def)

lemma outbox_reach_ok: "outbox_reach cfg s \<Longrightarrow> 0 \<le> nc_lease cfg \<Longrightarrow> outbox_ok cfg s"
  using outbox_steps_ok outbox_init_ok unfolding outbox_reach_def by blast

text \<open>However many workers and replicas deliver one outbox, and however slow or out of order their
  transactions are, two claims granted on the same notification row are always more than a lease apart,
  so within a lease no two workers ever hold the same row.\<close>
theorem note_claims_spaced:
  assumes "outbox_reach cfg s" "0 \<le> nc_lease cfg" "i < j" "j < length (ob_claims s)"
    and "ob_claims s ! i = (k, t1)" "ob_claims s ! j = (k, t2)"
  shows "t1 + nc_lease cfg < t2"
  using sorted_wrt_nth_less[OF outbox_okD(4)[OF outbox_reach_ok[OF assms(1,2)]] assms(3,4)] assms(5,6) by simp

text \<open>A delivered row is not claimable, so a step leaves its claims and its status alone.\<close>

lemma delivered_row_step:
  assumes "outbox_step cfg s s'" "outbox_ok cfg s"
    and n: "jget (ad_notes (ob_db s)) k = Some n" "nt_status n = NoteDelivered"
  shows "\<exists>n'. jget (ad_notes (ob_db s')) k = Some n' \<and> nt_status n' = NoteDelivered \<and>
    filter (\<lambda>e. fst e = k) (ob_claims s') = filter (\<lambda>e. fst e = k) (ob_claims s)"
proof -
  have c: "note_check n" by (rule outbox_okD(2)[OF assms(2) n(1)])
  have kept: "row_kept (ob_db s) db \<Longrightarrow> \<exists>n'. jget (ad_notes db) k = Some n' \<and> nt_status n' = NoteDelivered" for db
    using n c unfolding row_kept_def by blast
  show ?thesis
    using assms(1)
  proof cases
    case (raised new_id now i)
    then show ?thesis using kept[OF open_alert_rows(2)[OF outbox_ok_checked[OF assms(2)]]] by simp
  next
    case (delivered q since env tenant a)
    then show ?thesis using kept[OF marked_rows(2)[OF outbox_ok_checked[OF assms(2)] deliver_row_marked]] by simp
  next
    case (claimed tenant aid now locked keys db)
    then have *: "keys = claim_rows cfg tenant aid now locked (ob_db s)" "db = stamp_claim now keys (ob_db s)"
      by (auto simp: claim_def Let_def)
    have "k \<notin> set keys"
    proof
      assume "k \<in> set keys"
      then obtain m where "jget (ad_notes (ob_db s)) k = Some m" "claimable cfg tenant aid now (ob_db s) (k, m)"
        using claim_rows_claimable[OF outbox_okD(1)[OF assms(2)]] unfolding *(1) by blast
      then show False using claimableD(1) n by fastforce
    qed
    then show ?thesis using n claimed(1)
      by (auto simp: *(2) stamp_claim_get filter_map comp_def filter_empty_conv)
  qed (use n in auto)
qed

text \<open>Delivery is final: whatever the workers, the alerts and the clocks do afterwards, a delivered row
  stays delivered and no further claim is ever granted on it, so it is not sent again.\<close>
theorem note_delivered_final:
  assumes "outbox_reach cfg s" "0 \<le> nc_lease cfg" "(outbox_step cfg)\<^sup>*\<^sup>* s s'"
    and "jget (ad_notes (ob_db s)) k = Some n" "nt_status n = NoteDelivered"
  shows "\<exists>n'. jget (ad_notes (ob_db s')) k = Some n' \<and> nt_status n' = NoteDelivered \<and>
    filter (\<lambda>e. fst e = k) (ob_claims s') = filter (\<lambda>e. fst e = k) (ob_claims s)"
  using assms(3)
proof (induction rule: rtranclp_induct)
  case base
  then show ?case using assms(4,5) by blast
next
  case (step s1 s2)
  have "outbox_ok cfg s1" by (rule outbox_steps_ok[OF step.hyps(1) outbox_reach_ok[OF assms(1,2)] assms(2)])
  then show ?case using step.IH delivered_row_step[OF step.hyps(2)] by metis
qed

subsection \<open>The sweep drains the outbox\<close>

fun claim_rounds :: "notify_config \<Rightarrow> string \<Rightarrow> ms \<Rightarrow> nat \<Rightarrow> alert_db \<Rightarrow> note_key list \<times> alert_db" where
  "claim_rounds cfg tenant now 0 db = ([], db)"
| "claim_rounds cfg tenant now (Suc n) db =
     (let (keys, db1) = claim cfg tenant None now [] db;
          (rest, db2) = claim_rounds cfg tenant now n db1
      in (keys @ rest, db2))"

lemma claimable_alerts_cong:
  "ad_alerts db' = ad_alerts db \<Longrightarrow> claimable cfg tenant i now db' e = claimable cfg tenant i now db e"
  by (simp add: claimable_def alert_by_id_def)

lemma claimable_after_stamp:
  assumes "0 \<le> nc_lease cfg"
  shows "filter (claimable cfg tenant None now (stamp_claim now keys db)) (ad_notes (stamp_claim now keys db)) =
    filter (\<lambda>e. fst e \<notin> set keys) (filter (claimable cfg tenant None now db) (ad_notes db))"
proof -
  let ?P = "claimable cfg tenant None now db"
  have fresh: "\<not> ?P (k, n\<lparr>nt_claimed_at := Some now\<rparr>)" for k n
    using assms by (simp add: claimable_def split: prod.split)
  have same: "claimable cfg tenant None now (stamp_claim now keys db) = ?P"
    by (rule ext, rule claimable_alerts_cong) simp
  have keep: "filter P (map (\<lambda>(k, n). (k, if k \<in> set keys then n\<lparr>nt_claimed_at := Some now\<rparr> else n)) m) =
      filter (\<lambda>e. fst e \<notin> set keys) (filter P m)"
    if "\<And>k n. \<not> P (k, n\<lparr>nt_claimed_at := Some now\<rparr>)" for P and m :: "(note_key, notification) jsmap"
    using that by (induction m) auto
  have stamped: "ad_notes (stamp_claim now keys db) =
      map (\<lambda>(k, n). (k, if k \<in> set keys then n\<lparr>nt_claimed_at := Some now\<rparr> else n)) (ad_notes db)"
    by (simp add: stamp_claim_def)
  show ?thesis unfolding same stamped by (rule keep) (rule fresh)
qed

lemma distinct_rest:
  assumes "distinct (map fst es)" "mset ss = mset es"
  shows "mset (filter (\<lambda>e. fst e \<notin> set (map fst (take n ss))) es) = mset (drop n ss)"
proof -
  have "distinct (map fst ss)" using assms mset_eq_imp_distinct_iff mset_map by metis
  then have d: "distinct (map fst (take n ss @ drop n ss))" by simp
  have "filter (\<lambda>e. fst e \<notin> set (map fst (take n ss))) (take n ss @ drop n ss) = drop n ss"
    using d by (simp only: filter_append map_append distinct_append) (auto simp: filter_empty_conv filter_id_conv)
  then show ?thesis using assms(2) by (metis append_take_drop_id mset_filter)
qed

text \<open>The sweep loses nothing and repeats nothing: with rows arriving in any number, enough rounds of
  claims at the configured batch size hand out every claimable row of the tenant, each exactly once.\<close>
theorem note_sweep_drains:
  assumes "jwf (ad_notes db)" "0 \<le> nc_lease cfg"
    and "length (filter (claimable cfg tenant None now db) (ad_notes db)) \<le> n * nc_batch cfg"
  shows "mset (fst (claim_rounds cfg tenant now n db)) =
    mset (map fst (filter (claimable cfg tenant None now db) (ad_notes db)))"
  using assms(1,3)
proof (induction n arbitrary: db)
  case (Suc n)
  let ?es = "filter (claimable cfg tenant None now db) (ad_notes db)"
  let ?ss = "sort_key (nt_created_at \<circ> snd) ?es"
  let ?keys = "map fst (take (nc_batch cfg) ?ss)"
  let ?db = "stamp_claim now ?keys db"
  have c: "claim cfg tenant None now [] db = (?keys, ?db)"
    by (simp add: claim_def claim_rows_def Let_def)
  have rest: "mset (filter (claimable cfg tenant None now ?db) (ad_notes ?db)) = mset (drop (nc_batch cfg) ?ss)"
    unfolding claimable_after_stamp[OF assms(2)]
    by (rule distinct_rest) (simp_all only: jwf_filter[OF Suc.prems(1)] mset_sort)
  have "jwf (ad_notes ?db)" using Suc.prems(1) by (simp only: stamp_claim_keys)
  moreover have "length (filter (claimable cfg tenant None now ?db) (ad_notes ?db)) \<le> n * nc_batch cfg"
    using mset_eq_length[OF rest] Suc.prems(2) by (simp only: length_drop length_sort mult_Suc le_diff_conv)
  ultimately have "mset (fst (claim_rounds cfg tenant now n ?db)) =
      mset (map fst (filter (claimable cfg tenant None now ?db) (ad_notes ?db)))"
    by (rule Suc.IH)
  also have "\<dots> = image_mset fst (mset (drop (nc_batch cfg) ?ss))"
    unfolding mset_map rest by (rule refl)
  finally have "mset (fst (claim_rounds cfg tenant now (Suc n) db)) =
      image_mset fst (mset (take (nc_batch cfg) ?ss) + mset (drop (nc_batch cfg) ?ss))"
    by (simp add: c case_prod_beta)
  also have "\<dots> = image_mset fst (mset ?ss)"
    by (simp only: mset_append[symmetric] append_take_drop_id)
  finally show ?case by simp
qed simp

subsection \<open>Attempts\<close>

definition attempts_within :: "int \<Rightarrow> alert_db \<Rightarrow> bool" where
  "attempts_within b db = list_all (\<lambda>(k, n). nt_attempts n \<le> b) (ad_notes db)"

lemma attempts_within_iff:
  "jwf (ad_notes db) \<Longrightarrow>
    attempts_within b db \<longleftrightarrow> (\<forall>k n. jget (ad_notes db) k = Some n \<longrightarrow> nt_attempts n \<le> b)"
  by (auto simp: attempts_within_def list_all_iff map_of_eq_Some_iff split_paired_All)

lemma marked_jwf: "marked tenant now key db db' \<Longrightarrow> jwf (ad_notes db) \<Longrightarrow> jwf (ad_notes db')"
  by (auto simp: marked_def dest: mark_failed_frame)

lemma marked_attempts:
  assumes "marked tenant now key db db'" "jget (ad_notes db') k = Some n'"
  shows "\<exists>n. jget (ad_notes db) k = Some n \<and> nt_attempts n' \<le> nt_attempts n + (if k = key then 1 else 0)"
proof -
  consider "db' = db" | "db' = mark_delivered tenant now key db" | e where "mark_failed tenant key e db = Some db'"
    using assms(1) by (auto simp: marked_def)
  then show ?thesis
  proof cases
    case 3
    show ?thesis using assms(2) unfolding mark_failed_get[OF 3] by (auto split: option.splits)
  qed (use assms(2) in \<open>auto simp: mark_delivered_get split: option.splits\<close>)
qed

text \<open>The rows a worker holds are below the bound when it starts, and each is counted once.\<close>

lemma deliver_claimed_attempts:
  assumes "distinct keys" "jwf (ad_notes (nw_db w))"
    and "\<And>k n. jget (ad_notes (nw_db w)) k = Some n \<Longrightarrow> nt_attempts n + (if k \<in> set keys then 1 else 0) \<le> b"
  shows "jwf (ad_notes (nw_db (run_state (deliver_claimed cfg env tenant known keys w)))) \<and>
    attempts_within b (nw_db (run_state (deliver_claimed cfg env tenant known keys w)))"
  using assms
proof (induction keys arbitrary: w)
  case Nil
  then show ?case by (simp add: run_state_def attempts_within_iff)
next
  case (Cons key keys)
  have skip: "nt_attempts n + (if k \<in> set keys then 1 else 0) \<le> b" if "jget (ad_notes (nw_db w)) k = Some n" for k n
    using Cons.prems(3)[OF that] by (auto split: if_splits)
  have step: "jwf (ad_notes d) \<and> (\<forall>k n. jget (ad_notes d) k = Some n \<longrightarrow>
      nt_attempts n + (if k \<in> set keys then 1 else 0) \<le> b)"
    if md: "marked tenant now key (nw_db w) d" for d now
  proof (intro conjI allI impI)
    fix k n assume "jget (ad_notes d) k = Some n"
    then obtain m where "jget (ad_notes (nw_db w)) k = Some m" "nt_attempts n \<le> nt_attempts m + (if k = key then 1 else 0)"
      using marked_attempts[OF md] by blast
    then show "nt_attempts n + (if k \<in> set keys then 1 else 0) \<le> b"
      using Cons.prems(1) Cons.prems(3)[of k m] by (auto split: if_splits)
  qed (rule marked_jwf[OF md Cons.prems(2)])
  let ?r = "\<lambda>a. deliver_row cfg (env key) tenant key a w"
  have ok: "jwf (ad_notes (nw_db (run_state (deliver_claimed cfg env tenant known keys w')))) \<and>
      attempts_within b (nw_db (run_state (deliver_claimed cfg env tenant known keys w')))" if "?r a = Ok w'" for a w'
    using step[OF deliver_row_marked[of tenant "env key" key w cfg a]] that Cons.prems(1)
    by (intro Cons.IH) (auto simp: run_state_def)
  have raised: "jwf (ad_notes (nw_db w')) \<and> attempts_within b (nw_db w')" if "?r a = Raised w'" for a w'
  proof -
    have *: "jwf (ad_notes (nw_db w'))" "\<And>k n. jget (ad_notes (nw_db w')) k = Some n \<Longrightarrow>
        nt_attempts n + (if k \<in> set keys then 1 else 0) \<le> b"
      using step[OF deliver_row_marked[of tenant "env key" key w cfg a]] that by (auto simp: run_state_def)
    show ?thesis unfolding attempts_within_iff[OF *(1)] using *(1) *(2) by (force split: if_splits)
  qed
  have "jwf (ad_notes (nw_db (run_state r))) \<and> attempts_within b (nw_db (run_state r))"
    if "r = (case a of None \<Rightarrow> deliver_claimed cfg env tenant known keys w
          | Some a \<Rightarrow> (case ?r a of Raised w' \<Rightarrow> Raised w' | Ok w' \<Rightarrow> deliver_claimed cfg env tenant known keys w'))" for r a
  proof (cases a)
    case None
    then show ?thesis using that Cons.IH[OF _ Cons.prems(2) skip] Cons.prems(1) by simp
  next
    case (Some c)
    then show ?thesis using that ok[of c] raised[of c] by (cases "?r c") (simp_all add: run_state_def)
  qed
  then show ?case unfolding deliver_claimed.simps Let_def by blast
qed

lemma claim_deliver_attempts:
  assumes "jwf (ad_notes (nw_db w))" "attempts_within (nc_max_attempts cfg) (nw_db w)"
    and c: "claim cfg tenant alert_id now locked (nw_db w) = (keys, db)"
  shows "jwf (ad_notes (nw_db (run_state (deliver_claimed cfg env tenant known keys (w\<lparr>nw_db := db\<rparr>))))) \<and>
    attempts_within (nc_max_attempts cfg) (nw_db (run_state (deliver_claimed cfg env tenant known keys (w\<lparr>nw_db := db\<rparr>))))"
proof -
  have keys: "keys = claim_rows cfg tenant alert_id now locked (nw_db w)" and db: "db = stamp_claim now keys (nw_db w)"
    using c by (auto simp: claim_def Let_def)
  have "nt_attempts n + (if k \<in> set keys then 1 else 0) \<le> nc_max_attempts cfg" if k: "jget (ad_notes db) k = Some n" for k n
  proof -
    obtain m where m: "jget (ad_notes (nw_db w)) k = Some m" "nt_attempts n = nt_attempts m"
      using k unfolding db stamp_claim_get by (auto split: if_splits)
    have "nt_attempts m < nc_max_attempts cfg" if "k \<in> set keys"
    proof -
      obtain m' where "jget (ad_notes (nw_db w)) k = Some m'" "claimable cfg tenant alert_id now (nw_db w) (k, m')"
        using claim_rows_claimable[OF assms(1)] \<open>k \<in> set keys\<close> unfolding keys by blast
      then show ?thesis using m(1) claimableD(2) by fastforce
    qed
    then show ?thesis using assms(2) m unfolding attempts_within_iff[OF assms(1)] by auto
  qed
  moreover have "jwf (ad_notes db)" using assms(1) unfolding db by (simp only: stamp_claim_keys)
  ultimately show ?thesis
    using claim_rows_distinct[OF assms(1), of cfg tenant alert_id now locked] unfolding keys[symmetric]
    by (intro deliver_claimed_attempts) (auto)
qed

lemma retry_tenants_attempts:
  "jwf (ad_notes (nw_db w)) \<Longrightarrow> attempts_within (nc_max_attempts cfg) (nw_db w) \<Longrightarrow>
    attempts_within (nc_max_attempts cfg) (nw_db (snd (run_state (retry_tenants cfg env now locked tenants sofar w))))"
proof (induction tenants arbitrary: sofar w)
  case (Cons tenant ts)
  obtain keys db where c: "claim cfg tenant None now locked (nw_db w) = (keys, db)" by fastforce
  show ?case
    using claim_deliver_attempts[OF Cons.prems c, of env None] Cons.IH
    by (cases "deliver_claimed cfg env tenant None keys (w\<lparr>nw_db := db\<rparr>)") (auto simp: c run_state_def)
qed (simp add: run_state_def)

text \<open>A sweep over every tenant, whatever the relays, receivers and resolvers answer and whether or not
  it is cut short by an exception, takes no row past the configured number of attempts.\<close>
theorem note_attempts_bounded:
  assumes "jwf (ad_notes (nw_db w))" "attempts_within (nc_max_attempts cfg) (nw_db w)"
  shows "attempts_within (nc_max_attempts cfg) (nw_db (snd (run_state (retry_pending cfg env now locked tenants w))))"
  using retry_tenants_attempts[OF assms] assms(2) by (simp add: retry_pending_def run_state_def)

subsection \<open>What leaves the process\<close>

lemma settle_sent:
  "nw_sent (run_state (settle_delivered tenant now key w)) = nw_sent w"
  "nw_sent (run_state (settle_failed tenant key e w)) = nw_sent w"
  "nw_sent (run_state (settle_blocked tenant key e w)) = nw_sent w"
  by (auto simp: settle_delivered_def settle_failed_def settle_blocked_def run_state_def split: option.splits)

lemma deliver_webhook_sent:
  assumes "nw_sent (run_state (deliver_webhook cfg env tenant key a w)) \<noteq> nw_sent w"
  shows "\<exists>u as. check_destination (de_parse env) (de_resolve env) (snd (snd key)) (nc_allow_private cfg) = Cleared u as"
  using assms by (auto simp: deliver_webhook_def settle_sent split: check_result.splits)

text \<open>C27: Where the configuration does not allow private destinations, delivering a webhook row makes a request only if the
  destination passed the check, and every address the request's socket may be opened to (a literal host itself, a name's addresses
  through the pinned lookup, whatever address family the client asks for and whether it asks for one or for all) is a public one: an IPv4 address outside the special-purpose
  networks, stated octet by octet, an IPv4-mapped address in a spelling with the compressed prefix whose IPv4 address is such a one,
  or an IPv6 address that is neither unspecified, loopback, NAT64, discard-only, documentation, unique-local, link-local nor
  multicast. The expanded spellings of a mapped address count as IPv6 addresses here, as the code judges them.\<close>
theorem webhook_post_public:
  assumes "fst (snd key) = Webhook" "\<not> nc_allow_private cfg"
    and "nw_sent (run_state (deliver_row cfg env tenant key a w)) \<noteq> nw_sent w"
  shows "\<exists>u as. check_destination (de_parse env) (de_resolve env) (snd (snd key)) False = Cleared u as \<and>
    list_all public_host (dialled u as wanted all)"
proof -
  obtain u as where c: "check_destination (de_parse env) (de_resolve env) (snd (snd key)) False = Cleared u as"
    using deliver_webhook_sent[of cfg env tenant key a w] assms by (auto simp: deliver_row_def)
  show ?thesis using c webhook_dials_public[OF c] by (auto simp: list_all_iff)
qed

text \<open>A failure reported late stops the rest of the batch: when another worker has delivered the row in
  the meantime, recording the failure breaks the table's CHECK, the exception leaves the delivery loop,
  and none of the rows claimed after it is tried before its lease runs out.\<close>
theorem late_failure_stops_batch:
  assumes "jget (ad_notes (nw_db w)) key = Some n" "nt_tenant n = tenant" "nt_status n = NoteDelivered" "note_check n"
    and "fst (snd key) = Email" "nc_smtp cfg = None" "alert_by_id tenant (fst key) (nw_db w) = Some a"
  shows "deliver_claimed cfg env tenant None (key # keys) w = Raised w"
proof -
  have "mark_failed tenant key e (nw_db w) = None" for e
    using assms(1-4) by (simp add: mark_failed_def note_check_def Let_def)
  then show ?thesis using assms(5-7) by (simp add: deliver_row_def deliver_email_def settle_failed_def)
qed

subsection \<open>Sample runs\<close>

definition sample_notify_cfg :: notify_config where
  "sample_notify_cfg = \<lparr>nc_enabled = True, nc_smtp = None, nc_from = None, nc_allow_private = False,
     nc_max_attempts = 3, nc_lease = 60000, nc_batch = 50\<rparr>"

definition sample_open_input :: open_input where
  "sample_open_input = \<lparr>oi_tenant = ''t1'', oi_rule = ''r1'', oi_sensor = ''b2'', oi_equipment = None, oi_zone = None,
     oi_severity = Warning, oi_message = ''hot'', oi_trigger = None, oi_threshold = None,
     oi_targets = [(LogChannel, ''stdout''), (Email, ''ops@x'')]\<rparr>"

definition sample_env :: delivery_env where
  "sample_env = \<lparr>de_mail = Inl ''down'', de_parse = sample_parse_url, de_resolve = sample_resolve, de_post = (\<lambda>u lookup. Inr 200),
     de_http_text = (\<lambda>s. ''500''), de_now = 200\<rparr>"

definition sample_outbox :: outbox where
  "sample_outbox = \<lparr>ob_world = \<lparr>nw_db = empty_alert_db,
     nw_stats = \<lparr>ns_delivered = 0, ns_failed = 0, ns_blocked = 0, ns_skipped = 0\<rparr>, nw_sent = []\<rparr>, ob_claims = []\<rparr>"

definition sample_raised :: outbox where
  "sample_raised = with_db sample_outbox (snd (open_alert ''a9'' 10 sample_open_input (ob_db sample_outbox)))"

definition claimed_at :: "ms \<Rightarrow> outbox \<Rightarrow> outbox" where
  "claimed_at now s = (let (keys, db) = claim sample_notify_cfg ''t1'' None now [] (ob_db s)
     in (with_db s db)\<lparr>ob_claims := ob_claims s @ map (\<lambda>k. (k, now)) keys\<rparr>)"

abbreviation sample_log_key :: note_key where
  "sample_log_key \<equiv> (''a9'', LogChannel, ''stdout'')"

abbreviation sample_mail_key :: note_key where
  "sample_mail_key \<equiv> (''a9'', Email, ''ops@x'')"

definition sample_delivered :: outbox where
  "sample_delivered = (let s = claimed_at 100 sample_raised in
     s\<lparr>ob_world := run_state (deliver_row sample_notify_cfg sample_env ''t1'' sample_log_key
       (the (alert_by_id ''t1'' ''a9'' (ob_db s))) (ob_world s))\<rparr>)"

lemmas outbox_eval = sample_notify_cfg_def sample_open_input_def sample_env_def sample_outbox_def sample_raised_def
  sample_delivered_def with_db_def claimed_at_def claim_def claim_rows_def stamp_claim_def claimable_def Let_def
  open_alert_def conflicts_def coalesce_def insert_note_def empty_alert_db_def alert_by_id_def deliver_row_def
  settle_delivered_def settle_failed_def mark_delivered_def mark_failed_def send_out_def run_state_def
  is_live_def deliver_email_def note_check_def

lemma sample_claims:
  "ob_claims (claimed_at 100 sample_raised) = [(sample_log_key, 100), (sample_mail_key, 100)]"
  "ob_claims (claimed_at 60101 (claimed_at 100 sample_raised)) =
     [(sample_log_key, 100), (sample_mail_key, 100), (sample_log_key, 60101), (sample_mail_key, 60101)]"
  "ob_claims sample_delivered = [(sample_log_key, 100), (sample_mail_key, 100)]"
  "map_option nt_status (jget (ad_notes (ob_db sample_delivered)) sample_log_key) = Some NoteDelivered"
  "ob_claims (claimed_at 60101 sample_delivered) =
     [(sample_log_key, 100), (sample_mail_key, 100), (sample_mail_key, 60101)]"
  by (simp_all add: outbox_eval)

lemma claimed_at_step: "outbox_step sample_notify_cfg s (claimed_at now s)"
  unfolding claimed_at_def by (auto simp: case_prod_beta intro!: outbox_step.claimed[where tenant = "''t1''" and alert_id = None])

lemma sample_reach: "outbox_reach sample_notify_cfg sample_raised"
proof -
  have "outbox_step sample_notify_cfg sample_outbox sample_raised"
    unfolding sample_raised_def by (rule outbox_step.raised) (simp add: outbox_eval)
  moreover have "outbox_init sample_outbox" by (simp add: outbox_init_def outbox_eval)
  ultimately show ?thesis unfolding outbox_reach_def by blast
qed

lemma outbox_reach_step: "outbox_reach cfg s \<Longrightarrow> outbox_step cfg s s' \<Longrightarrow> outbox_reach cfg s'"
  unfolding outbox_reach_def by (meson rtranclp.rtrancl_into_rtrancl)

lemma sample_delivered_reach: "outbox_reach sample_notify_cfg sample_delivered"
  unfolding sample_delivered_def Let_def
  by (rule outbox_reach_step[OF outbox_reach_step[OF sample_reach claimed_at_step] outbox_step.delivered[where since = 100]])
    (simp add: sample_claims)

theorem note_claims_spaced_witness:
  "(100::int) + nc_lease sample_notify_cfg < 60101 \<and>
   ob_claims (claimed_at 60101 (claimed_at 100 sample_raised)) ! 2 = (sample_log_key, 60101)"
  using note_claims_spaced[OF outbox_reach_step[OF outbox_reach_step[OF sample_reach claimed_at_step] claimed_at_step],
      of 0 2 60101 100 sample_log_key 100 60101]
  by (simp add: sample_claims sample_notify_cfg_def)

theorem note_delivered_final_witness:
  "\<exists>n'. jget (ad_notes (ob_db (claimed_at 60101 sample_delivered))) sample_log_key = Some n' \<and> nt_status n' = NoteDelivered \<and>
    filter (\<lambda>e. fst e = sample_log_key) (ob_claims (claimed_at 60101 sample_delivered)) =
    filter (\<lambda>e. fst e = sample_log_key) (ob_claims sample_delivered)"
proof -
  obtain n where "jget (ad_notes (ob_db sample_delivered)) sample_log_key = Some n" "nt_status n = NoteDelivered"
    using sample_claims(4) by auto
  moreover have "(outbox_step sample_notify_cfg)\<^sup>*\<^sup>* sample_delivered (claimed_at 60101 sample_delivered)"
    by (rule r_into_rtranclp) (rule claimed_at_step)
  ultimately show ?thesis
    by (intro note_delivered_final[OF sample_delivered_reach]) (auto simp: sample_notify_cfg_def)
qed

theorem note_sweep_drains_witness:
  "mset (fst (claim_rounds (sample_notify_cfg\<lparr>nc_batch := 1\<rparr>) ''t1'' 100 2 (ob_db sample_raised))) =
    {#sample_log_key, sample_mail_key#}"
  using note_sweep_drains[of "ob_db sample_raised" "sample_notify_cfg\<lparr>nc_batch := 1\<rparr>" "''t1''" 100 2]
  by (simp add: outbox_eval)

theorem note_attempts_bounded_witness:
  "attempts_within 3 (nw_db (snd (run_state (retry_pending sample_notify_cfg (\<lambda>_. sample_env) 100 [] [''t1'']
     (ob_world sample_raised)))))"
  using note_attempts_bounded[of "ob_world sample_raised" sample_notify_cfg "\<lambda>_. sample_env" 100 "[]" "[''t1'']"]
  by (simp add: outbox_eval attempts_within_def)

theorem webhook_post_public_witness:
  "\<exists>u as. check_destination sample_parse_url sample_resolve ''https://hook.example/'' False = Cleared u as \<and>
    list_all public_host (dialled u as 4 False)"
  using webhook_post_public[of "(''a9'', Webhook, ''https://hook.example/'')" sample_notify_cfg sample_env "''t1''"
      sample_alert "ob_world sample_raised" 4 False] sample_destination_cleared
  by (simp add: deliver_row_def deliver_webhook_def settle_sent sample_env_def sample_notify_cfg_def send_out_def Let_def)

theorem late_failure_stops_batch_witness:
  "deliver_claimed sample_notify_cfg (\<lambda>_. sample_env) ''t1'' None [sample_mail_key, sample_log_key]
     ((ob_world sample_raised)\<lparr>nw_db := mark_delivered ''t1'' 150 sample_mail_key (ob_db sample_raised)\<rparr>) =
   Raised ((ob_world sample_raised)\<lparr>nw_db := mark_delivered ''t1'' 150 sample_mail_key (ob_db sample_raised)\<rparr>)"
  by (rule late_failure_stops_batch) (auto simp: outbox_eval)

end
