(* ===== verification/Auth.thy ===== *)
theory Auth
  imports Contracts Limiter "HOL-Library.Word"
begin

section \<open>Credentials (packages/db/src/auth.ts, apps/ingest/src/auth.ts, apps/ingest/src/limits.ts)\<close>

text \<open>
  Passwords, sessions, API keys and WebSocket tickets, and the gate in front of every ingest route. The
  digest, the MAC, the password hash and JSON's rendering and parsing of a ticket are arguments; base64url
  is written out. The identity tables are records of rows. Last-used stamps are left out.
\<close>

type_synonym octet = "8 word"

subsection \<open>Base64url\<close>

definition b64_alphabet :: string where
  "b64_alphabet = ''ABCDEFGHIJKLMNOPQRSTUVWXYZabcdefghijklmnopqrstuvwxyz0123456789-_''"

definition b64_char :: "nat \<Rightarrow> char" where
  "b64_char n = b64_alphabet ! n"

fun index_in :: "'a \<Rightarrow> 'a list \<Rightarrow> nat option" where
  "index_in x [] = None"
| "index_in x (y # ys) = (if x = y then Some 0 else map_option Suc (index_in x ys))"

text \<open>The decoder also takes the two characters of plain base64, and passes over anything else.\<close>

definition b64_digit :: "char \<Rightarrow> nat option" where
  "b64_digit c = (if c = CHR ''+'' then Some 62 else if c = CHR ''/'' then Some 63 else index_in c b64_alphabet)"

fun b64_encode_nats :: "nat list \<Rightarrow> nat list" where
  "b64_encode_nats [] = []"
| "b64_encode_nats [a] = [a div 4, (a mod 4) * 16]"
| "b64_encode_nats [a, b] = [a div 4, (a mod 4) * 16 + b div 16, (b mod 16) * 4]"
| "b64_encode_nats (a # b # c # rest) =
     [a div 4, (a mod 4) * 16 + b div 16, (b mod 16) * 4 + c div 64, c mod 64] @ b64_encode_nats rest"

fun b64_decode_nats :: "nat list \<Rightarrow> nat list" where
  "b64_decode_nats (p # q # r # s # rest) =
     [p * 4 + q div 16, (q mod 16) * 16 + r div 4, (r mod 4) * 64 + s] @ b64_decode_nats rest"
| "b64_decode_nats [p, q, r] = [p * 4 + q div 16, (q mod 16) * 16 + r div 4]"
| "b64_decode_nats [p, q] = [p * 4 + q div 16]"
| "b64_decode_nats _ = []"

definition b64url_encode :: "octet list \<Rightarrow> string" where
  "b64url_encode bs = map b64_char (b64_encode_nats (map unat bs))"

definition b64url_decode :: "string \<Rightarrow> octet list" where
  "b64url_decode s = map of_nat (b64_decode_nats (List.map_filter b64_digit (takeWhile (\<lambda>c. c \<noteq> CHR ''='') s)))"

text \<open>What a ticket needs of the encoding: it can be read back, and holds no separator.\<close>

locale text_codec =
  fixes encode :: "octet list \<Rightarrow> string"
    and decode :: "string \<Rightarrow> octet list"
  assumes decode_encode: "decode (encode bs) = bs"
    and no_separator: "CHR ''.'' \<notin> set (encode bs)" "CHR ''$'' \<notin> set (encode bs)"
    and not_empty: "bs \<noteq> [] \<Longrightarrow> encode bs \<noteq> []"
begin

lemma encode_inj: "encode a = encode b \<longleftrightarrow> a = b"
  by (metis decode_encode)

lemma take_encoded: "takeWhile (\<lambda>c. c \<noteq> CHR ''.'') (encode bs @ CHR ''.'' # rest) = encode bs"
  using no_separator(1)[of bs] by (subst takeWhile_append2) auto

lemma drop_encoded: "dropWhile (\<lambda>c. c \<noteq> CHR ''.'') (encode bs @ CHR ''.'' # rest) = CHR ''.'' # rest"
  using no_separator(1)[of bs] by (subst dropWhile_append2) auto

end

lemma index_in_nth: "distinct xs \<Longrightarrow> n < length xs \<Longrightarrow> index_in (xs ! n) xs = Some n"
proof (induction xs arbitrary: n)
  case (Cons y ys)
  then show ?case by (cases n) auto
qed simp

lemma b64_alphabet_facts: "distinct b64_alphabet" "length b64_alphabet = 64"
  "set b64_alphabet \<inter> {CHR ''+'', CHR ''/'', CHR ''='', CHR ''.'', CHR ''$''} = {}"
  by (simp_all add: b64_alphabet_def)

lemma b64_char_in: "n < 64 \<Longrightarrow> b64_char n \<in> set b64_alphabet"
  using b64_alphabet_facts(2) by (simp add: b64_char_def)

lemma b64_digit_char: "n < 64 \<Longrightarrow> b64_digit (b64_char n) = Some n"
proof -
  assume n: "n < 64"
  have "b64_char n \<noteq> CHR ''+''" "b64_char n \<noteq> CHR ''/''" using b64_char_in[OF n] b64_alphabet_facts(3) by auto
  then show ?thesis using index_in_nth[OF b64_alphabet_facts(1), of n] n b64_alphabet_facts(2)
    by (simp add: b64_digit_def b64_char_def)
qed

lemma b64_encode_small: "list_all (\<lambda>n. n < 256) ns \<Longrightarrow> list_all (\<lambda>n. n < 64) (b64_encode_nats ns)"
  by (induction ns rule: b64_encode_nats.induct) auto

lemma b64_decode_encode_nats: "list_all (\<lambda>n. n < 256) ns \<Longrightarrow> b64_decode_nats (b64_encode_nats ns) = ns"
proof (induction ns rule: b64_encode_nats.induct)
  case (4 a b c rest)
  have "b64_encode_nats (a # b # c # rest) =
      a div 4 # ((a mod 4) * 16 + b div 16) # ((b mod 16) * 4 + c div 64) # (c mod 64) # b64_encode_nats rest"
    by simp
  moreover have "(a div 4) * 4 + ((a mod 4) * 16 + b div 16) div 16 = a" "((a mod 4) * 16 + b div 16) mod 16 * 16 + ((b mod 16) * 4 + c div 64) div 4 = b"
    "((b mod 16) * 4 + c div 64) mod 4 * 64 + c mod 64 = c" using 4(2) by auto
  ultimately show ?case using 4 by simp
qed auto

lemma map_filter_digits: "list_all (\<lambda>n. n < 64) ns \<Longrightarrow> List.map_filter b64_digit (map b64_char ns) = ns"
  by (induction ns) (simp_all add: List.map_filter_def b64_digit_char)

lemma b64_chars: "list_all (\<lambda>n. n < 64) ns \<Longrightarrow> set (map b64_char ns) \<subseteq> set b64_alphabet"
  by (auto simp: list_all_iff b64_char_in)

lemma unat_octets: "list_all (\<lambda>n. n < 256) (map unat (bs :: octet list))"
proof -
  have "unat w < 256" for w :: octet using unsigned_less[of w] by simp
  then show ?thesis by (simp add: list_all_iff)
qed

interpretation base64url: text_codec b64url_encode b64url_decode
proof
  fix bs :: "octet list"
  let ?ns = "b64_encode_nats (map unat bs)"
  have small: "list_all (\<lambda>n. n < 64) ?ns" by (rule b64_encode_small[OF unat_octets])
  have "takeWhile (\<lambda>c. c \<noteq> CHR ''='') (map b64_char ?ns) = map b64_char ?ns"
    using b64_chars[OF small] b64_alphabet_facts(3) by (auto simp: takeWhile_eq_all_conv)
  then have "b64url_decode (b64url_encode bs) = map of_nat (map unat bs)"
    unfolding b64url_decode_def b64url_encode_def
    by (simp only: map_filter_digits[OF small] b64_decode_encode_nats[OF unat_octets])
  then show "b64url_decode (b64url_encode bs) = bs" by (simp add: comp_def)
  show "CHR ''.'' \<notin> set (b64url_encode bs)" "CHR ''$'' \<notin> set (b64url_encode bs)"
    using b64_chars[OF small] b64_alphabet_facts(3) unfolding b64url_encode_def by auto
  show "b64url_encode bs \<noteq> []" if "bs \<noteq> []"
    using that by (cases "map unat bs" rule: b64_encode_nats.cases) (auto simp: b64url_encode_def)
qed

subsection \<open>Passwords\<close>

definition scrypt_header :: "string list" where
  "scrypt_header = [''scrypt'', ''32768'', ''8'', ''1'']"

type_synonym scrypt = "string \<Rightarrow> octet list \<Rightarrow> nat \<Rightarrow> string \<Rightarrow> string \<Rightarrow> string \<Rightarrow> octet list"

definition key_length :: nat where
  "key_length = 32"

definition hash_password :: "scrypt \<Rightarrow> octet list \<Rightarrow> string \<Rightarrow> string" where
  "hash_password scrypt salt password =
     join_with ''$'' (scrypt_header @
       [b64url_encode salt, b64url_encode (scrypt password salt key_length ''32768'' ''8'' ''1'')])"

definition verify_password :: "scrypt \<Rightarrow> string \<Rightarrow> string \<Rightarrow> bool" where
  "verify_password scrypt password stored =
     (case split_on CHR ''$'' stored of
        [kind, n, r, p, salt64, hash64] \<Rightarrow>
          if kind \<noteq> ''scrypt'' then False
          else let salt = b64url_decode salt64; expected = b64url_decode hash64;
                   actual = scrypt password salt (length expected) n r p
               in length actual = length expected \<and> actual = expected
      | _ \<Rightarrow> False)"

subsection \<open>Sessions and API keys\<close>

record session_row =
  ss_id :: string
  ss_token_hash :: string
  ss_user :: string
  ss_tenant :: string
  ss_expires_at :: ms

record user_row =
  us_active :: bool
  us_display_name :: string
  us_email :: string

record api_key_row =
  ak_id :: string
  ak_tenant :: string
  ak_kind :: api_key_kind
  ak_scopes :: "string list"
  ak_prefix :: string
  ak_hash :: string
  ak_revoked :: bool
  ak_expires_at :: "ms option"

record identity_db =
  db_sessions :: "session_row list"
  db_users :: "(string, user_row) jsmap"
  db_members :: "(string \<times> string, tenant_role) jsmap"
  db_active_tenants :: "string list"
  db_api_keys :: "api_key_row list"

record session_record =
  sr_session :: string
  sr_user :: string
  sr_tenant :: string
  sr_role :: tenant_role
  sr_display_name :: string
  sr_email :: string

definition session_join :: "identity_db \<Rightarrow> session_row \<Rightarrow> session_record list" where
  "session_join db s =
     (case (jget (db_users db) (ss_user s), jget (db_members db) (ss_tenant s, ss_user s)) of
        (Some u, Some r) \<Rightarrow>
          if us_active u \<and> ss_tenant s \<in> set (db_active_tenants db)
          then [\<lparr>sr_session = ss_id s, sr_user = ss_user s, sr_tenant = ss_tenant s, sr_role = r,
                 sr_display_name = us_display_name u, sr_email = us_email u\<rparr>]
          else []
      | _ \<Rightarrow> [])"

definition first_row :: "'a list \<Rightarrow> 'a option" where
  "first_row rows = (case rows of [] \<Rightarrow> None | r # _ \<Rightarrow> Some r)"

definition resolve_session :: "(string \<Rightarrow> string) \<Rightarrow> string \<Rightarrow> ms \<Rightarrow> identity_db \<Rightarrow> session_record option" where
  "resolve_session sha256 token now db =
     first_row (concat (map (session_join db)
       (filter (\<lambda>s. ss_token_hash s = sha256 token \<and> ss_expires_at s > now) (db_sessions db))))"

definition delete_session :: "(string \<Rightarrow> string) \<Rightarrow> string \<Rightarrow> identity_db \<Rightarrow> identity_db" where
  "delete_session sha256 token db =
     db\<lparr>db_sessions := filter (\<lambda>s. ss_token_hash s \<noteq> sha256 token) (db_sessions db)\<rparr>"

definition purge_expired :: "ms \<Rightarrow> identity_db \<Rightarrow> nat \<times> identity_db" where
  "purge_expired now db =
     (length (filter (\<lambda>s. ss_expires_at s < now) (db_sessions db)),
      db\<lparr>db_sessions := filter (\<lambda>s. \<not> ss_expires_at s < now) (db_sessions db)\<rparr>)"

definition key_usable :: "ms \<Rightarrow> identity_db \<Rightarrow> api_key_row \<Rightarrow> bool" where
  "key_usable now db k =
     (\<not> ak_revoked k \<and> (case ak_expires_at k of None \<Rightarrow> True | Some t \<Rightarrow> t > now) \<and>
      ak_tenant k \<in> set (db_active_tenants db))"

definition resolve_api_key :: "(string \<Rightarrow> string) \<Rightarrow> string \<Rightarrow> ms \<Rightarrow> identity_db \<Rightarrow> principal option" where
  "resolve_api_key sha256 key now db =
     map_option (\<lambda>k. ApiKeyPrincipal (ak_tenant k) (ak_id k) (ak_kind k) (ak_scopes k))
       (first_row (filter (\<lambda>k. ak_prefix k = take 8 key \<and> ak_hash k = sha256 key \<and> key_usable now db k) (db_api_keys db)))"

subsection \<open>WebSocket tickets\<close>

record ws_ticket =
  tk_tenant :: string
  tk_user :: string
  tk_exp :: ms

definition ticket_secret :: "string option \<Rightarrow> string + string" where
  "ticket_secret configured =
     (case configured of
        Some s \<Rightarrow> if length s < 32 then Inl ''AUTH_SECRET must be set to at least 32 characters'' else Inr s
      | None \<Rightarrow> Inl ''AUTH_SECRET must be set to at least 32 characters'')"

definition sign_ticket ::
  "(string \<Rightarrow> string \<Rightarrow> octet list) \<Rightarrow> (ws_ticket \<Rightarrow> octet list) \<Rightarrow> string option \<Rightarrow> string \<Rightarrow> string \<Rightarrow> ms \<Rightarrow> ms \<Rightarrow> string + string" where
  "sign_ticket hmac render configured tenant user now ttl =
     (let encoded = b64url_encode (render \<lparr>tk_tenant = tenant, tk_user = user, tk_exp = now + ttl\<rparr>) in
      case ticket_secret configured of
        Inl e \<Rightarrow> Inl e
      | Inr secret \<Rightarrow> Inr (encoded @ ''.'' @ b64url_encode (hmac secret encoded)))"

definition verify_ticket ::
  "(string \<Rightarrow> string \<Rightarrow> octet list) \<Rightarrow> (octet list \<Rightarrow> ws_ticket option) \<Rightarrow> string option \<Rightarrow> ms \<Rightarrow> string \<Rightarrow> string + ws_ticket option" where
  "verify_ticket hmac parse configured now ticket =
     (let encoded = takeWhile (\<lambda>c. c \<noteq> CHR ''.'') ticket; rest = dropWhile (\<lambda>c. c \<noteq> CHR ''.'') ticket in
      if rest = [] \<or> encoded = [] then Inr None
      else let mac = b64url_decode (tl rest) in
           case ticket_secret configured of
             Inl e \<Rightarrow> Inl e
           | Inr secret \<Rightarrow>
               let expected = hmac secret encoded in
               if length mac \<noteq> length expected \<or> mac \<noteq> expected then Inr None
               else case parse (b64url_decode encoded) of
                      None \<Rightarrow> Inr None
                    | Some t \<Rightarrow> Inr (if tk_exp t > now then Some t else None))"

subsection \<open>The gate of a route\<close>

record request_headers =
  hd_authorization :: "string option"
  hd_api_key :: "string option"

definition lower_char :: "char \<Rightarrow> char" where
  "lower_char c = (let n = of_char c :: nat in if 65 \<le> n \<and> n \<le> 90 then char_of (n + 32) else c)"

text \<open>The pattern is \<open>Bearer\<close> in any case, white space, then at least one character; what follows is trimmed,
  so a header of blanks only is an empty key.\<close>

definition bearer_key :: "string \<Rightarrow> string option" where
  "bearer_key h =
     (if map lower_char (take 6 h) = ''bearer'' \<and> length h \<ge> 8 \<and> js_space (h ! 6)
      then Some (js_trim (drop 6 h)) else None)"

definition extract_key :: "request_headers \<Rightarrow> string option" where
  "extract_key h =
     (case (case hd_authorization h of Some a \<Rightarrow> bearer_key a | None \<Rightarrow> None) of
        Some k \<Rightarrow> Some k
      | None \<Rightarrow> (case hd_api_key h of Some k \<Rightarrow> if length k > 0 then Some k else None | None \<Rightarrow> None))"

datatype auth_failure = Unauthorized string | Forbidden api_scope | TooMany retry_after

definition authenticate ::
  "(string \<Rightarrow> string) \<Rightarrow> identity_db \<Rightarrow> ms \<Rightarrow> ms \<Rightarrow> request_headers \<Rightarrow> api_scope \<Rightarrow> string \<Rightarrow> limiter \<Rightarrow>
   (auth_failure + principal) \<times> limiter" where
  "authenticate sha256 db db_now now h scope address budget =
     (case exhausted now address 1 budget of
        (LimitRefused wait, b1) \<Rightarrow> (Inl (TooMany wait), b1)
      | (LimitOk, b1) \<Rightarrow>
          (case extract_key h of
             None \<Rightarrow> (Inl (Unauthorized ''missing API key''), b1)
           | Some key \<Rightarrow>
               if key = [] then (Inl (Unauthorized ''missing API key''), b1)
               else case resolve_api_key sha256 key db_now db of
                      None \<Rightarrow> (Inl (Unauthorized ''invalid API key''), snd (take_tokens now address 1 b1))
                    | Some p \<Rightarrow>
                        if \<not> has_scope p scope then (Inl (Forbidden scope), snd (take_tokens now address 1 b1))
                        else (Inr p, b1)))"

subsection \<open>The service's limiters\<close>

record rate_config =
  rc_requests_per_s :: rat
  rc_readings_per_s :: rat
  rc_readings_burst :: rat
  rc_auth_failures_per_min :: rat
  rc_auth_failures_burst :: rat
  rc_frames_per_s :: rat
  rc_max_keys :: int

record limits =
  li_auth_failures :: limiter
  li_requests :: limiter
  li_readings :: limiter
  li_frames :: limiter

definition create_limits :: "rate_config \<Rightarrow> string + limits" where
  "create_limits c =
     (let mk = (\<lambda>r b. mk_limiter \<lparr>rate_per_s = r, burst = b, max_keys = rc_max_keys c\<rparr>) in
      case mk (rc_auth_failures_per_min c / 60) (rc_auth_failures_burst c) of
        Inl e \<Rightarrow> Inl e
      | Inr a \<Rightarrow> (case mk (rc_requests_per_s c) (rc_requests_per_s c * 2) of
          Inl e \<Rightarrow> Inl e
        | Inr r \<Rightarrow> (case mk (rc_readings_per_s c) (rc_readings_burst c) of
            Inl e \<Rightarrow> Inl e
          | Inr d \<Rightarrow> (case mk (rc_frames_per_s c) (rc_frames_per_s c * 3) of
              Inl e \<Rightarrow> Inl e
            | Inr f \<Rightarrow> Inr \<lparr>li_auth_failures = a, li_requests = r, li_readings = d, li_frames = f\<rparr>))))"

subsection \<open>Properties\<close>

text \<open>C28: A ticket opens a socket only if its MAC is the one the service's own key gives for its payload and it
  has not expired: what is accepted names exactly the tenant that was signed.\<close>
theorem ticket_accepts_only_signed:
  assumes "verify_ticket hmac parse configured now ticket = Inr (Some t)"
  shows "\<exists>secret encoded mac. configured = Some secret \<and> 32 \<le> length secret \<and> ticket = encoded @ ''.'' @ mac \<and>
    b64url_decode mac = hmac secret encoded \<and> parse (b64url_decode encoded) = Some t \<and> now < tk_exp t"
proof -
  let ?enc = "takeWhile (\<lambda>c. c \<noteq> CHR ''.'') ticket"
  let ?rest = "dropWhile (\<lambda>c. c \<noteq> CHR ''.'') ticket"
  have r: "?rest \<noteq> []"
  proof
    assume "?rest = []"
    then have "verify_ticket hmac parse configured now ticket = Inr None" by (simp add: verify_ticket_def)
    then show False using assms by simp
  qed
  have "\<not> (hd ?rest \<noteq> CHR ''.'')" by (rule hd_dropWhile[OF r])
  then obtain cs where cs: "?rest = CHR ''.'' # cs" using r by (cases ?rest) simp_all
  have "ticket = ?enc @ ?rest" by (rule takeWhile_dropWhile_id[symmetric])
  then have "ticket = ?enc @ ''.'' @ tl ?rest" unfolding cs by simp
  moreover obtain secret where v: "ticket_secret configured = Inr secret" "b64url_decode (tl ?rest) = hmac secret ?enc"
    "parse (b64url_decode ?enc) = Some t" "now < tk_exp t"
    using assms by (auto simp: verify_ticket_def Let_def split: if_splits sum.splits option.splits)
  moreover have "configured = Some secret \<and> 32 \<le> length secret"
    using v(1) by (auto simp: ticket_secret_def split: option.splits if_splits)
  ultimately show ?thesis by blast
qed

text \<open>A ticket the web service signs is accepted by the ingest service, as the same ticket, until the instant
  its time to live ends, and refused from then on.\<close>
theorem ticket_roundtrip:
  assumes "sign_ticket hmac render configured tenant user now ttl = Inr ticket"
    and "parse (render \<lparr>tk_tenant = tenant, tk_user = user, tk_exp = now + ttl\<rparr>) =
      Some \<lparr>tk_tenant = tenant, tk_user = user, tk_exp = now + ttl\<rparr>"
    and "render \<lparr>tk_tenant = tenant, tk_user = user, tk_exp = now + ttl\<rparr> \<noteq> []"
  shows "verify_ticket hmac parse configured later ticket =
    Inr (if later < now + ttl then Some \<lparr>tk_tenant = tenant, tk_user = user, tk_exp = now + ttl\<rparr> else None)"
proof -
  let ?body = "render \<lparr>tk_tenant = tenant, tk_user = user, tk_exp = now + ttl\<rparr>"
  obtain secret where s: "ticket_secret configured = Inr secret"
    "ticket = b64url_encode ?body @ CHR ''.'' # b64url_encode (hmac secret (b64url_encode ?body))"
    using assms(1) by (auto simp: sign_ticket_def Let_def split: sum.splits)
  show ?thesis
    unfolding s(2) verify_ticket_def base64url.take_encoded base64url.drop_encoded
    using base64url.not_empty[OF assms(3)] s(1) assms(2) by (simp add: base64url.decode_encode Let_def)
qed

text \<open>A stored password verifies exactly the passwords that hash like the one it was made from: the salt and
  the cost parameters travel in the encoded string and come back unchanged.\<close>
theorem password_roundtrip:
  assumes "length (scrypt password salt 32 ''32768'' ''8'' ''1'') = 32"
  shows "verify_password scrypt attempt (hash_password scrypt salt password) \<longleftrightarrow>
    scrypt attempt salt 32 ''32768'' ''8'' ''1'' = scrypt password salt 32 ''32768'' ''8'' ''1''"
proof -
  let ?h = "scrypt password salt 32 ''32768'' ''8'' ''1''"
  have "split_on CHR ''$'' (hash_password scrypt salt password) =
      [''scrypt'', ''32768'', ''8'', ''1'', b64url_encode salt, b64url_encode ?h]"
    unfolding hash_password_def key_length_def
    by (subst split_join) (simp_all add: scrypt_header_def base64url.no_separator)
  then show ?thesis using assms by (auto simp: verify_password_def base64url.decode_encode Let_def)
qed

text \<open>A request is let through a route only with a key whose digest is on record, unrevoked, unexpired and of
  an active tenant, and scoped for that route; the tenant it acts for is that key's, and a request that is
  let through is not charged.\<close>
theorem authenticated_by_key:
  assumes "authenticate sha256 db db_now now h scope address budget = (Inr p, budget')"
  shows "\<exists>key k. extract_key h = Some key \<and> k \<in> set (db_api_keys db) \<and> ak_hash k = sha256 key \<and> key_usable db_now db k \<and>
    p = ApiKeyPrincipal (ak_tenant k) (ak_id k) (ak_kind k) (ak_scopes k) \<and> scope_name scope \<in> set (ak_scopes k) \<and>
    exhausted now address 1 budget = (LimitOk, budget')"
proof -
  obtain key where k: "exhausted now address 1 budget = (LimitOk, budget')" "extract_key h = Some key"
    "resolve_api_key sha256 key db_now db = Some p" "has_scope p scope"
    using assms by (auto simp: authenticate_def split: prod.splits limit_result.splits option.splits if_splits)
  obtain r rs where r: "filter (\<lambda>k. ak_prefix k = take 8 key \<and> ak_hash k = sha256 key \<and> key_usable db_now db k) (db_api_keys db) = r # rs"
    "p = ApiKeyPrincipal (ak_tenant r) (ak_id r) (ak_kind r) (ak_scopes r)"
    using k(3) by (auto simp: resolve_api_key_def first_row_def split: list.splits)
  have "r \<in> set (filter (\<lambda>k. ak_prefix k = take 8 key \<and> ak_hash k = sha256 key \<and> key_usable db_now db k) (db_api_keys db))"
    unfolding r(1) by simp
  then show ?thesis using k r(2) by auto
qed

subsection \<open>Failures of addresses that are not tracked\<close>

fun auth_run ::
  "(string \<Rightarrow> string) \<Rightarrow> identity_db \<Rightarrow> ms \<Rightarrow> request_headers \<Rightarrow> api_scope \<Rightarrow> string \<Rightarrow> nat \<Rightarrow> limiter \<Rightarrow> (auth_failure + principal) list" where
  "auth_run sha256 db now h scope address 0 budget = []"
| "auth_run sha256 db now h scope address (Suc n) budget =
     (let (r, b) = authenticate sha256 db now now h scope address budget
      in r # auth_run sha256 db now h scope address n b)"

lemma refill_again: "0 < burst opts \<Longrightarrow> refill opts now (refill opts now b) = refill opts now b"
  by (simp add: refill_def Let_def)

lemma sweep_again:
  assumes "0 < burst (lm_options l)"
  shows "lm_buckets (sweep now (sweep now l)) = lm_buckets (sweep now l)"
  using assms by (simp add: sweep_def filter_map comp_def case_prod_beta refill_again)

lemma refused_untracked:
  assumes "jget (lm_buckets l) address = None" "max_keys (lm_options l) \<le> int (length (lm_buckets (sweep now l)))"
    "0 < burst (lm_options l)"
  shows "jget (lm_buckets (snd (take_tokens now address 1 l))) address = None \<and>
    lm_options (snd (take_tokens now address 1 l)) = lm_options l \<and>
    max_keys (lm_options l) \<le> int (length (lm_buckets (sweep now (snd (take_tokens now address 1 l)))))"
proof -
  have o: "lm_options (sweep now l) = lm_options l" by (simp add: sweep_def)
  have "length (lm_buckets (sweep now l)) \<le> length (lm_buckets l)"
    by (simp add: sweep_def le_trans[OF length_filter_le])
  then have full: "bucket_full_map l" "bucket_full_map (sweep now l)"
    using assms(2) by (simp_all add: bucket_full_map_def o)
  have gone: "jget (lm_buckets (sweep now l)) address = None"
    using assms(1) unfolding sweep_def by (simp add: jget_filter_None jget_map_values)
  have t: "lm_buckets (snd (take_tokens now address 1 l)) = lm_buckets (sweep now l)"
    "lm_options (snd (take_tokens now address 1 l)) = lm_options l"
    using assms(1) full by (simp_all add: take_tokens_def bucket_for_def slot_tokens_def slot_spend_def Let_def o)
  have "lm_buckets (sweep now (snd (take_tokens now address 1 l))) = lm_buckets (sweep now (sweep now l))"
    by (simp add: sweep_def t)
  then show ?thesis using gone assms(2) sweep_again[OF assms(3), of now] by (simp add: t)
qed

text \<open>Failed attempts are not rationed once the limiter has no room: an address it does not track is never
  answered 429, however many invalid keys it has tried, because the check before the lookup does not
  consult the bucket that the untracked addresses share.\<close>
theorem untracked_failures_unrationed:
  assumes "jget (lm_buckets budget) address = None" "0 < burst (lm_options budget)"
    and "max_keys (lm_options budget) \<le> int (length (lm_buckets (sweep now budget)))"
    and "extract_key h = Some key" "key \<noteq> []" "resolve_api_key sha256 key now db = None"
  shows "auth_run sha256 db now h scope address n budget = replicate n (Inl (Unauthorized ''invalid API key''))"
  using assms(1-3)
proof (induction n arbitrary: budget)
  case (Suc n)
  have "authenticate sha256 db now now h scope address budget =
      (Inl (Unauthorized ''invalid API key''), snd (take_tokens now address 1 budget))"
    using Suc.prems(1) assms(4-6) by (simp add: authenticate_def exhausted_def)
  then show ?case
    using Suc.IH refused_untracked[OF Suc.prems(1,3,2)] Suc.prems(2) by simp
qed simp

subsection \<open>Samples\<close>

definition sample_digest :: "string \<Rightarrow> string" where
  "sample_digest s = rev s"

definition sample_hmac :: "string \<Rightarrow> string \<Rightarrow> octet list" where
  "sample_hmac secret s = [of_nat (length secret), of_nat (length s)]"

definition sample_render :: "ws_ticket \<Rightarrow> octet list" where
  "sample_render t = map (of_nat \<circ> of_char) (tk_tenant t) @ [0] @ map (of_nat \<circ> of_char) (tk_user t)"

definition sample_ticket :: ws_ticket where
  "sample_ticket = \<lparr>tk_tenant = ''t'', tk_user = ''u'', tk_exp = 60000\<rparr>"

definition sample_parse :: "octet list \<Rightarrow> ws_ticket option" where
  "sample_parse bs = (if bs = sample_render sample_ticket then Some sample_ticket else None)"

definition sample_secret :: string where
  "sample_secret = replicate 32 CHR ''k''"

definition sample_signed :: string where
  "sample_signed = b64url_encode (sample_render sample_ticket) @ CHR ''.'' #
     b64url_encode (sample_hmac sample_secret (b64url_encode (sample_render sample_ticket)))"

lemma sample_signed_ok:
  "sign_ticket sample_hmac sample_render (Some sample_secret) ''t'' ''u'' 0 60000 = Inr sample_signed"
  by (simp add: sign_ticket_def sample_signed_def ticket_secret_def sample_secret_def sample_ticket_def Let_def)

lemma sample_verified:
  "verify_ticket sample_hmac sample_parse (Some sample_secret) 59999 sample_signed = Inr (Some sample_ticket)"
proof -
  have "b64url_encode (sample_render sample_ticket) \<noteq> []"
    by (rule base64url.not_empty) (simp add: sample_render_def)
  then show ?thesis
    by (simp add: verify_ticket_def sample_signed_def base64url.take_encoded base64url.drop_encoded base64url.decode_encode
        ticket_secret_def sample_secret_def sample_parse_def sample_ticket_def)
qed

theorem ticket_accepts_only_signed_witness:
  "\<exists>secret encoded mac. Some sample_secret = Some secret \<and> 32 \<le> length secret \<and> sample_signed = encoded @ ''.'' @ mac \<and>
    b64url_decode mac = sample_hmac secret encoded \<and> sample_parse (b64url_decode encoded) = Some sample_ticket \<and>
    59999 < tk_exp sample_ticket"
  by (rule ticket_accepts_only_signed[OF sample_verified])

theorem ticket_roundtrip_witness:
  "verify_ticket sample_hmac sample_parse (Some sample_secret) 60000 sample_signed = Inr None"
  using ticket_roundtrip[OF sample_signed_ok, of sample_parse 60000]
  by (simp add: sample_parse_def sample_ticket_def[symmetric], simp add: sample_render_def)

definition sample_scrypt :: scrypt where
  "sample_scrypt password salt n a b c = replicate n (of_nat (length password))"

theorem password_roundtrip_witness:
  "verify_password sample_scrypt ''four'' (hash_password sample_scrypt [1, 2] ''five'') \<and>
   \<not> verify_password sample_scrypt ''longer'' (hash_password sample_scrypt [1, 2] ''five'')"
  using password_roundtrip[of sample_scrypt "''five''" "[1, 2]" "''four''"] password_roundtrip[of sample_scrypt "''five''" "[1, 2]" "''longer''"]
  by (simp add: sample_scrypt_def)

definition sample_identity_db :: identity_db where
  "sample_identity_db = \<lparr>db_sessions = [], db_users = [], db_members = [], db_active_tenants = [''t1''],
     db_api_keys = [\<lparr>ak_id = ''k1'', ak_tenant = ''t1'', ak_kind = DeviceKey, ak_scopes = [''ingest:write''],
       ak_prefix = ''dtw_abcd'', ak_hash = sample_digest ''dtw_abcdef'', ak_revoked = False, ak_expires_at = None\<rparr>]\<rparr>"

definition sample_headers :: "string \<Rightarrow> request_headers" where
  "sample_headers key = \<lparr>hd_authorization = None, hd_api_key = Some key\<rparr>"

definition sample_budget :: limiter where
  "sample_budget = \<lparr>lm_options = \<lparr>rate_per_s = 1, burst = 2, max_keys = 1\<rparr>,
     lm_buckets = [(''10.0.0.1'', \<lparr>tokens = 1, updated_at = 5000\<rparr>)], lm_overflow = None, lm_refused = 0, lm_overflowed = 0\<rparr>"

theorem authenticated_by_key_witness:
  "\<exists>key k. extract_key (sample_headers ''dtw_abcdef'') = Some key \<and> k \<in> set (db_api_keys sample_identity_db) \<and>
    ak_hash k = sample_digest key \<and> key_usable 5000 sample_identity_db k \<and>
    ApiKeyPrincipal ''t1'' ''k1'' DeviceKey [''ingest:write''] = ApiKeyPrincipal (ak_tenant k) (ak_id k) (ak_kind k) (ak_scopes k) \<and>
    scope_name IngestWrite \<in> set (ak_scopes k) \<and> exhausted 5000 ''10.0.0.2'' 1 sample_budget = (LimitOk, sample_budget)"
  by (rule authenticated_by_key[where h = "sample_headers ''dtw_abcdef''"])
    (simp add: authenticate_def exhausted_def sample_budget_def extract_key_def sample_headers_def resolve_api_key_def
      sample_identity_db_def sample_digest_def key_usable_def first_row_def)

theorem untracked_failures_unrationed_witness:
  "auth_run sample_digest sample_identity_db 5000 (sample_headers ''wrong'') IngestWrite ''10.0.0.2'' 3 sample_budget =
    replicate 3 (Inl (Unauthorized ''invalid API key''))"
  by (rule untracked_failures_unrationed[where key = "''wrong''"])
    (simp_all add: sample_budget_def sweep_def refill_def extract_key_def sample_headers_def resolve_api_key_def
      sample_identity_db_def sample_digest_def first_row_def)

end
