(* ===== verification/Metrics.thy ===== *)
theory Metrics
  imports Limiter
begin

section \<open>The Prometheus exposition (apps/ingest/src/metrics.ts)\<close>

text \<open>
  The text a scraper reads, from a snapshot of the counters. How a finite number is printed
  (\<open>String(value)\<close>) is an argument; the names, the escaping, the labels and the order are written out.
\<close>

datatype metric_kind = Counter | Gauge

record metric_sample =
  mx_labels :: "(string \<times> string) list"
  mx_value :: jsnum

record metric =
  mt_name :: string
  mt_help :: string
  mt_kind :: metric_kind
  mt_samples :: "metric_sample list"

definition alpha_char :: "char \<Rightarrow> bool" where
  "alpha_char c = (c \<in> set ''abcdefghijklmnopqrstuvwxyzABCDEFGHIJKLMNOPQRSTUVWXYZ_'')"

definition digit_char :: "char \<Rightarrow> bool" where
  "digit_char c = (c \<in> set ''0123456789'')"

definition metric_name_ok :: "string \<Rightarrow> bool" where
  "metric_name_ok s = (case s of [] \<Rightarrow> False
     | c # cs \<Rightarrow> (alpha_char c \<or> c = CHR '':'') \<and> list_all (\<lambda>d. alpha_char d \<or> digit_char d \<or> d = CHR '':'') cs)"

definition label_name_ok :: "string \<Rightarrow> bool" where
  "label_name_ok s = (case s of [] \<Rightarrow> False | c # cs \<Rightarrow> alpha_char c \<and> list_all (\<lambda>d. alpha_char d \<or> digit_char d) cs)"

definition replace_char :: "char \<Rightarrow> string \<Rightarrow> string \<Rightarrow> string" where
  "replace_char c r s = concat (map (\<lambda>d. if d = c then r else [d]) s)"

abbreviation backslash :: char where "backslash \<equiv> CHR 0x5C"
abbreviation dquote :: char where "dquote \<equiv> CHR 0x22"
abbreviation newline :: char where "newline \<equiv> CHR 0x0A"

definition escape_label :: "string \<Rightarrow> string" where
  "escape_label v = replace_char newline [backslash, CHR ''n'']
     (replace_char dquote [backslash, dquote] (replace_char backslash [backslash, backslash] v))"

definition escape_help :: "string \<Rightarrow> string" where
  "escape_help v = replace_char newline [backslash, CHR ''n''] (replace_char backslash [backslash, backslash] v)"

definition format_value :: "(rat \<Rightarrow> string) \<Rightarrow> jsnum \<Rightarrow> string" where
  "format_value show_number v = (case v of NaN \<Rightarrow> ''NaN'' | PosInf \<Rightarrow> ''+Inf'' | NegInf \<Rightarrow> ''-Inf'' | Num r \<Rightarrow> show_number r)"

definition render_label :: "string \<times> string \<Rightarrow> string" where
  "render_label l = fst l @ [CHR ''='', dquote] @ escape_label (snd l) @ [dquote]"

definition render_labels :: "(string \<times> string) list \<Rightarrow> string" where
  "render_labels ls = (if ls = [] then [] else ''{'' @ join_with '','' (map render_label ls) @ ''}'')"

definition render_sample :: "(rat \<Rightarrow> string) \<Rightarrow> string \<Rightarrow> metric_sample \<Rightarrow> string" where
  "render_sample show_number name s =
     name @ render_labels (mx_labels s) @ '' '' @ format_value show_number (mx_value s)"

datatype render_error = InvalidName string | DuplicateMetric string | CounterSuffix string | InvalidLabel string

definition kind_name :: "metric_kind \<Rightarrow> string" where
  "kind_name k = (case k of Counter \<Rightarrow> ''counter'' | Gauge \<Rightarrow> ''gauge'')"

definition ends_with :: "string \<Rightarrow> string \<Rightarrow> bool" where
  "ends_with s suffix = (length suffix \<le> length s \<and> drop (length s - length suffix) s = suffix)"

fun render_samples :: "(rat \<Rightarrow> string) \<Rightarrow> string \<Rightarrow> metric_sample list \<Rightarrow> render_error + string list" where
  "render_samples show_number name [] = Inr []"
| "render_samples show_number name (s # ss) =
     (case find (\<lambda>k. \<not> label_name_ok k) (map fst (mx_labels s)) of
        Some key \<Rightarrow> Inl (InvalidLabel key)
      | None \<Rightarrow> (case render_samples show_number name ss of
          Inl e \<Rightarrow> Inl e | Inr lines \<Rightarrow> Inr (render_sample show_number name s # lines)))"

definition metric_header :: "metric \<Rightarrow> string list" where
  "metric_header m = [''# HELP '' @ mt_name m @ '' '' @ escape_help (mt_help m),
                      ''# TYPE '' @ mt_name m @ '' '' @ kind_name (mt_kind m)]"

fun render_from :: "(rat \<Rightarrow> string) \<Rightarrow> string list \<Rightarrow> metric list \<Rightarrow> render_error + string list" where
  "render_from show_number seen [] = Inr []"
| "render_from show_number seen (m # ms) =
     (if \<not> metric_name_ok (mt_name m) then Inl (InvalidName (mt_name m))
      else if mt_name m \<in> set seen then Inl (DuplicateMetric (mt_name m))
      else if mt_kind m = Counter \<and> \<not> ends_with (mt_name m) ''_total'' then Inl (CounterSuffix (mt_name m))
      else (case render_samples show_number (mt_name m) (mt_samples m) of
          Inl e \<Rightarrow> Inl e
        | Inr lines \<Rightarrow> (case render_from show_number (mt_name m # seen) ms of
            Inl e \<Rightarrow> Inl e | Inr rest \<Rightarrow> Inr (metric_header m @ lines @ rest))))"

definition render_metrics :: "(rat \<Rightarrow> string) \<Rightarrow> metric list \<Rightarrow> render_error + string" where
  "render_metrics show_number ms =
     (case render_from show_number [] ms of Inl e \<Rightarrow> Inl e | Inr lines \<Rightarrow> Inr (join_with [newline] lines @ [newline]))"

subsection \<open>The snapshot\<close>

record limiter_sample =
  ls_keys :: jsnum
  ls_refused :: jsnum
  ls_overflowed :: jsnum

record writer_stats =
  ws_written :: jsnum
  ws_dropped :: jsnum
  ws_flushes :: jsnum
  ws_failed_flushes :: jsnum
  ws_buffered :: jsnum
  ws_last_flush_ms :: "jsnum option"

record fanout_stats =
  fs_frames_sent :: jsnum
  fs_readings_sent :: jsnum
  fs_frames_skipped :: jsnum
  fs_backlogged_closed :: jsnum
  fs_subscribes_denied :: jsnum
  fs_subscribers :: jsnum
  fs_authenticated :: jsnum
  fs_topics :: jsnum

record alert_stats =
  as_rules :: jsnum
  as_live :: jsnum
  as_opened :: jsnum
  as_resolved :: jsnum
  as_suppressed :: jsnum
  as_delivered :: jsnum
  as_failed :: jsnum
  as_blocked :: jsnum
  as_skipped :: jsnum

record ingest_snapshot =
  is_ready :: bool
  is_uptime_s :: jsnum
  is_sensors :: jsnum
  is_writer :: writer_stats
  is_fanout :: fanout_stats
  is_alerts :: "alert_stats option"
  is_limits :: "(string \<times> limiter_sample) list"

definition one_sample :: "jsnum \<Rightarrow> metric_sample list" where
  "one_sample v = [\<lparr>mx_labels = [], mx_value = v\<rparr>]"

definition labelled :: "string \<Rightarrow> string \<Rightarrow> jsnum \<Rightarrow> metric_sample" where
  "labelled k l v = \<lparr>mx_labels = [(k, l)], mx_value = v\<rparr>"

definition prefixed :: "string \<Rightarrow> metric_kind \<Rightarrow> metric_sample list \<Rightarrow> string \<Rightarrow> metric" where
  "prefixed name kind samples help =
     \<lparr>mt_name = ''dtwin_ingest_'' @ name, mt_help = help, mt_kind = kind, mt_samples = samples\<rparr>"

definition process_metrics :: "ingest_snapshot \<Rightarrow> metric list" where
  "process_metrics s =
     [prefixed ''ready'' Gauge (one_sample (Num (if is_ready s then 1 else 0)))
        ''1 when the write path is draining, 0 when degraded. Same judgement as /readyz.'',
      prefixed ''uptime_seconds'' Gauge (one_sample (is_uptime_s s))
        ''Seconds since this process started. A reset here explains a reset in every counter below.'',
      prefixed ''registry_sensors'' Gauge (one_sample (is_sensors s))
        ''Active sensors in the in-memory registry, across all tenants.'']"

definition writer_metrics :: "writer_stats \<Rightarrow> metric list" where
  "writer_metrics w =
     [prefixed ''readings_written_total'' Counter (one_sample (ws_written w))
        ''Readings durably written to the hypertable.'',
      prefixed ''readings_dropped_total'' Counter (one_sample (ws_dropped w))
        ''Readings shed from the write buffer on overflow, oldest first. Non-zero means data was lost.'',
      prefixed ''writer_flushes_total'' Counter (one_sample (ws_flushes w)) ''Write-buffer flushes attempted.'',
      prefixed ''writer_failed_flushes_total'' Counter (one_sample (ws_failed_flushes w))
        ''Flushes that failed and were returned to the buffer.'',
      prefixed ''writer_buffered_readings'' Gauge (one_sample (ws_buffered w))
        ''Readings accepted but not yet written. Sustained growth precedes dropped readings.'',
      prefixed ''writer_last_flush_milliseconds'' Gauge
        (one_sample (case ws_last_flush_ms w of Some v \<Rightarrow> v | None \<Rightarrow> NaN))
        ''Duration of the most recent flush. NaN before the first.'']"

definition fanout_metrics :: "fanout_stats \<Rightarrow> metric list" where
  "fanout_metrics f =
     [prefixed ''ws_frames_sent_total'' Counter (one_sample (fs_frames_sent f)) ''WebSocket frames delivered to subscribers.'',
      prefixed ''ws_readings_sent_total'' Counter (one_sample (fs_readings_sent f))
        ''Readings delivered, counted once per receiving subscriber.'',
      prefixed ''ws_frames_skipped_total'' Counter (one_sample (fs_frames_skipped f))
        ''Supersedable frames (telemetry, sim progress) skipped for a backlogged client.'',
      prefixed ''ws_backlogged_closed_total'' Counter (one_sample (fs_backlogged_closed f))
        ''Sockets closed because they were too backlogged to take an alert frame, which is never skipped.'',
      prefixed ''ws_subscribes_denied_total'' Counter (one_sample (fs_subscribes_denied f))
        (''Topic subscriptions refused: another tenant'' @ [CHR 0x27] @ ''s topic, or one this service does not know.''),
      prefixed ''ws_connections'' Gauge
        [labelled ''state'' ''authenticated'' (fs_authenticated f),
         labelled ''state'' ''unauthenticated'' (js_minus (fs_subscribers f) (fs_authenticated f))]
        ''Open WebSocket connections, by whether they have completed the auth handshake.'',
      prefixed ''ws_topics'' Gauge (one_sample (fs_topics f)) ''Topics with at least one subscriber.'']"

definition limit_metrics :: "(string \<times> limiter_sample) list \<Rightarrow> metric list" where
  "limit_metrics ls =
     [prefixed ''rate_limit_refused_total'' Counter (map (\<lambda>(n, l). labelled ''limiter'' n (ls_refused l)) ls)
        ''Requests, readings batches, frames or authentication attempts refused by each rate limiter.'',
      prefixed ''rate_limit_overflowed_total'' Counter (map (\<lambda>(n, l). labelled ''limiter'' n (ls_overflowed l)) ls)
        ''Times a limiter was full of mid-burst keys and a newcomer shared the overflow bucket. Non-zero suggests key rotation.'',
      prefixed ''rate_limit_keys'' Gauge (map (\<lambda>(n, l). labelled ''limiter'' n (ls_keys l)) ls)
        ''Keys each rate limiter is tracking.'']"

definition alert_metrics :: "alert_stats \<Rightarrow> metric list" where
  "alert_metrics a =
     [prefixed ''alert_rules'' Gauge (one_sample (as_rules a)) ''Enabled alert rules loaded, across all tenants.'',
      prefixed ''alerts_live'' Gauge (one_sample (as_live a)) ''Alerts currently open or acknowledged.'',
      prefixed ''alerts_opened_total'' Counter (one_sample (as_opened a)) ''Alerts opened by this process.'',
      prefixed ''alerts_resolved_total'' Counter (one_sample (as_resolved a)) ''Alerts resolved by this process.'',
      prefixed ''alerts_suppressed_total'' Counter (one_sample (as_suppressed a))
        ''Alerts not opened because their rule was cooling down.'',
      prefixed ''notifications_total'' Counter
        [labelled ''outcome'' ''delivered'' (as_delivered a), labelled ''outcome'' ''failed'' (as_failed a),
         labelled ''outcome'' ''blocked'' (as_blocked a), labelled ''outcome'' ''skipped'' (as_skipped a)]
        ''Notification attempts by outcome. `blocked` is a destination refused by the SSRF check.'']"

definition ingest_metrics :: "ingest_snapshot \<Rightarrow> metric list" where
  "ingest_metrics s =
     process_metrics s @ writer_metrics (is_writer s) @ fanout_metrics (is_fanout s) @ limit_metrics (is_limits s) @
     (case is_alerts s of None \<Rightarrow> [] | Some a \<Rightarrow> alert_metrics a)"

subsection \<open>What the exposition promises\<close>

text \<open>A reader of the format, for the reference: a quoted value up to its closing quote, then the labels.\<close>

fun read_quoted :: "string \<Rightarrow> (string \<times> string) option" where
  "read_quoted [] = None"
| "read_quoted (c # cs) =
     (if c = dquote then Some ([], cs)
      else if c = newline then None
      else if c = backslash then
        (case cs of [] \<Rightarrow> None
         | d # ds \<Rightarrow> map_option (\<lambda>(v, r). ((if d = CHR ''n'' then newline else d) # v, r)) (read_quoted ds))
      else map_option (\<lambda>(v, r). (c # v, r)) (read_quoted cs))"

fun read_label :: "string \<Rightarrow> (string \<times> string) option" where
  "read_label [] = None"
| "read_label (c # cs) =
     (if c = CHR ''='' then Some ([], tl cs) else map_option (\<lambda>(k, r). (c # k, r)) (read_label cs))"

fun read_labels :: "nat \<Rightarrow> string \<Rightarrow> ((string \<times> string) list \<times> string) option" where
  "read_labels 0 s = None"
| "read_labels (Suc n) s =
     (case read_label s of None \<Rightarrow> None
      | Some (k, r) \<Rightarrow> (case read_quoted r of None \<Rightarrow> None
        | Some (v, CHR '','' # t) \<Rightarrow> map_option (\<lambda>(ls, u). ((k, v) # ls, u)) (read_labels n t)
        | Some (v, CHR ''}'' # t) \<Rightarrow> Some ([(k, v)], t)
        | Some (v, _) \<Rightarrow> None))"

definition read_sample :: "string \<Rightarrow> (string \<times> (string \<times> string) list \<times> string) option" where
  "read_sample line =
     (let name = takeWhile (\<lambda>c. c \<noteq> CHR ''{'' \<and> c \<noteq> CHR '' '') line;
          rest = dropWhile (\<lambda>c. c \<noteq> CHR ''{'' \<and> c \<noteq> CHR '' '') line
      in case rest of
           CHR ''{'' # r \<Rightarrow> (case read_labels (length r) r of
               Some (ls, CHR '' '' # v) \<Rightarrow> Some (name, ls, v) | _ \<Rightarrow> None)
         | CHR '' '' # v \<Rightarrow> Some (name, [], v)
         | _ \<Rightarrow> None)"

lemma replace_char_simps [simp]:
  "replace_char c r [] = []"
  "replace_char c r (d # s) = (if d = c then r else [d]) @ replace_char c r s"
  "replace_char c r (s @ t) = replace_char c r s @ replace_char c r t"
  by (simp_all add: replace_char_def)

lemma escape_label_simps [simp]:
  "escape_label [] = []"
  "escape_label (c # s) =
     (if c = backslash then [backslash, backslash] else if c = dquote then [backslash, dquote]
      else if c = newline then [backslash, CHR ''n''] else [c]) @ escape_label s"
  by (simp_all add: escape_label_def)

lemma read_escaped: "read_quoted (escape_label v @ dquote # r) = Some (v, r)"
  by (induction v) auto

lemma newline_escaped: "newline \<notin> set (escape_label v)" "newline \<notin> set (escape_help v)"
proof -
  show "newline \<notin> set (escape_label v)" by (induction v) auto
  show "newline \<notin> set (escape_help v)" by (induction v) (auto simp: escape_help_def)
qed

lemma name_chars:
  "alpha_char c \<Longrightarrow> c \<notin> {CHR ''='', CHR ''{'', CHR '' '', newline}"
  "digit_char c \<Longrightarrow> c \<notin> {CHR ''='', CHR ''{'', CHR '' '', newline}"
  by (auto simp: alpha_char_def digit_char_def)

lemma label_name_chars:
  assumes "label_name_ok k"
  shows "CHR ''='' \<notin> set k" "newline \<notin> set k"
  using assms name_chars by (fastforce simp: label_name_ok_def list_all_iff split: list.splits)+

lemma metric_name_chars:
  assumes "metric_name_ok k" "c \<in> set k"
  shows "c \<noteq> CHR ''{''" "c \<noteq> CHR '' ''" "c \<noteq> newline"
  using assms name_chars by (fastforce simp: metric_name_ok_def list_all_iff split: list.splits)+

lemma read_label_prefix: "CHR ''='' \<notin> set k \<Longrightarrow> read_label (k @ CHR ''='' # r) = Some (k, tl r)"
  by (induction k) auto

lemma read_render_label:
  "label_name_ok (fst l) \<Longrightarrow>
     read_label (render_label l @ r) = Some (fst l, escape_label (snd l) @ dquote # r)"
  using read_label_prefix[OF label_name_chars(1)] by (simp add: render_label_def)

lemma read_rendered_labels:
  "ls \<noteq> [] \<Longrightarrow> list_all (\<lambda>l. label_name_ok (fst l)) ls \<Longrightarrow> length ls \<le> n \<Longrightarrow>
     read_labels n (join_with '','' (map render_label ls) @ CHR ''}'' # t) = Some (ls, t)"
proof (induction ls arbitrary: n)
  case (Cons l ls)
  obtain m where n: "n = Suc m" using Cons.prems(3) by (cases n) auto
  show ?case
  proof (cases ls)
    case Nil
    then show ?thesis using Cons.prems by (simp add: n read_render_label read_escaped)
  next
    case (Cons k ks)
    have "join_with '','' (map render_label (l # ls)) @ CHR ''}'' # t =
        render_label l @ CHR '','' # join_with '','' (map render_label ls) @ CHR ''}'' # t"
      by (simp add: Cons)
    then show ?thesis
      using Cons.IH[of m] Cons.prems by (simp add: n read_render_label read_escaped local.Cons)
  qed
qed simp

lemma takeWhile_name:
  assumes "metric_name_ok name" "c = CHR ''{'' \<or> c = CHR '' ''"
  shows "takeWhile (\<lambda>c. c \<noteq> CHR ''{'' \<and> c \<noteq> CHR '' '') (name @ c # r) = name"
    and "dropWhile (\<lambda>c. c \<noteq> CHR ''{'' \<and> c \<noteq> CHR '' '') (name @ c # r) = c # r"
  using metric_name_chars[OF assms(1)] assms(2) by (auto simp: takeWhile_append dropWhile_append)

lemma length_join_with: "[] \<notin> set ps \<Longrightarrow> length ps \<le> length (join_with sep ps)"
proof (induction sep ps rule: join_with.induct)
  case (3 sep x y ys)
  then show ?case by (cases x) auto
qed (auto simp: Suc_le_eq)

text \<open>A sample line reads back as it was written, whatever characters the label values hold: a value cannot
  close its own quotes, add a label, or start a line of its own.\<close>
theorem sample_line_roundtrip:
  assumes "metric_name_ok name" "list_all (\<lambda>l. label_name_ok (fst l)) (mx_labels s)"
  shows "read_sample (render_sample show_number name s) =
    Some (name, mx_labels s, format_value show_number (mx_value s))"
proof (cases "mx_labels s = []")
  case True
  then show ?thesis
    using takeWhile_name[OF assms(1), of "CHR '' ''"] by (simp add: read_sample_def render_sample_def render_labels_def Let_def)
next
  case False
  let ?v = "format_value show_number (mx_value s)"
  let ?r = "join_with '','' (map render_label (mx_labels s)) @ CHR ''}'' # CHR '' '' # ?v"
  have l: "length (mx_labels s) \<le> length (join_with '','' (map render_label (mx_labels s)))"
    using length_join_with[of "map render_label (mx_labels s)"] by (auto simp: render_label_def)
  have "render_sample show_number name s = name @ CHR ''{'' # ?r"
    using False by (simp add: render_sample_def render_labels_def)
  moreover have "read_labels (length ?r) ?r = Some (mx_labels s, CHR '' '' # ?v)"
    using l by (intro read_rendered_labels[OF False assms(2)]) simp
  ultimately show ?thesis
    using takeWhile_name[OF assms(1), of "CHR ''{''" ?r] by (simp add: read_sample_def Let_def)
qed

subsection \<open>A scrape is never refused\<close>

definition metric_ok :: "metric \<Rightarrow> bool" where
  "metric_ok m = (metric_name_ok (mt_name m) \<and> (mt_kind m = Counter \<longrightarrow> ends_with (mt_name m) ''_total'') \<and>
     list_all (\<lambda>s. list_all (\<lambda>l. label_name_ok (fst l)) (mx_labels s)) (mt_samples m))"

definition metric_lines :: "(rat \<Rightarrow> string) \<Rightarrow> metric \<Rightarrow> string list" where
  "metric_lines show_number m = metric_header m @ map (render_sample show_number (mt_name m)) (mt_samples m)"

definition labels_ok :: "metric_sample list \<Rightarrow> bool" where
  "labels_ok ss = list_all (\<lambda>s. list_all (\<lambda>l. label_name_ok (fst l)) (mx_labels s)) ss"

lemma find_bad_label:
  "find (\<lambda>k. \<not> label_name_ok k) (map fst ls) = None \<longleftrightarrow> list_all (\<lambda>l. label_name_ok (fst l)) ls"
  by (auto simp: find_None_iff list_all_iff)

lemma render_samples_iff:
  "render_samples show_number name ss = Inr lines \<longleftrightarrow> labels_ok ss \<and> lines = map (render_sample show_number name) ss"
proof (induction ss arbitrary: lines)
  case (Cons s ss)
  show ?case
  proof (cases "list_all (\<lambda>l. label_name_ok (fst l)) (mx_labels s)")
    case True
    then show ?thesis
      using Cons find_bad_label[of "mx_labels s"]
      by (cases "render_samples show_number name ss") (auto simp: labels_ok_def)
  next
    case False
    then obtain k where "find (\<lambda>k. \<not> label_name_ok k) (map fst (mx_labels s)) = Some k"
      using find_bad_label[of "mx_labels s"] by (cases "find (\<lambda>k. \<not> label_name_ok k) (map fst (mx_labels s))") auto
    then show ?thesis using False by (simp add: labels_ok_def)
  qed
qed (auto simp: labels_ok_def)

lemma render_from_iff:
  "render_from show_number seen ms = Inr lines \<longleftrightarrow>
     list_all metric_ok ms \<and> distinct (map mt_name ms) \<and> set (map mt_name ms) \<inter> set seen = {} \<and>
     lines = concat (map (metric_lines show_number) ms)"
proof (induction ms arbitrary: seen lines)
  case (Cons m ms)
  show ?case
  proof (cases "labels_ok (mt_samples m)")
    case True
    then have r: "render_samples show_number (mt_name m) (mt_samples m) = Inr (map (render_sample show_number (mt_name m)) (mt_samples m))"
      by (simp add: render_samples_iff)
    show ?thesis
      using Cons.IH[of "mt_name m # seen"] True
      by (cases "render_from show_number (mt_name m # seen) ms") (auto simp: r metric_ok_def labels_ok_def metric_lines_def)
  next
    case False
    then obtain e where "render_samples show_number (mt_name m) (mt_samples m) = Inl e"
      using render_samples_iff[of show_number "mt_name m" "mt_samples m"]
      by (cases "render_samples show_number (mt_name m) (mt_samples m)") auto
    then show ?thesis using False by (auto simp: metric_ok_def labels_ok_def)
  qed
qed auto

definition suffix_fits :: "metric_kind \<Rightarrow> string \<Rightarrow> bool" where
  "suffix_fits k n = (metric_name_ok (''dtwin_ingest_'' @ n) \<and> (k = Counter \<longrightarrow> ends_with (''dtwin_ingest_'' @ n) ''_total''))"

definition core_suffixes :: "(metric_kind \<times> string) list" where
  "core_suffixes =
     [(Gauge, ''ready''), (Gauge, ''uptime_seconds''), (Gauge, ''registry_sensors''),
      (Counter, ''readings_written_total''), (Counter, ''readings_dropped_total''), (Counter, ''writer_flushes_total''),
      (Counter, ''writer_failed_flushes_total''), (Gauge, ''writer_buffered_readings''),
      (Gauge, ''writer_last_flush_milliseconds''),
      (Counter, ''ws_frames_sent_total''), (Counter, ''ws_readings_sent_total''), (Counter, ''ws_frames_skipped_total''),
      (Counter, ''ws_backlogged_closed_total''), (Counter, ''ws_subscribes_denied_total''), (Gauge, ''ws_connections''),
      (Gauge, ''ws_topics''),
      (Counter, ''rate_limit_refused_total''), (Counter, ''rate_limit_overflowed_total''), (Gauge, ''rate_limit_keys'')]"

definition alert_suffixes :: "(metric_kind \<times> string) list" where
  "alert_suffixes =
     [(Gauge, ''alert_rules''), (Gauge, ''alerts_live''), (Counter, ''alerts_opened_total''),
      (Counter, ''alerts_resolved_total''), (Counter, ''alerts_suppressed_total''), (Counter, ''notifications_total'')]"

lemma metric_suffixes_fit:
  "list_all (\<lambda>(k, n). suffix_fits k n) (core_suffixes @ alert_suffixes)" "distinct (map snd (core_suffixes @ alert_suffixes))"
  by code_simp+

lemma label_names_ok: "label_name_ok ''state''" "label_name_ok ''outcome''" "label_name_ok ''limiter''"
  by code_simp+

lemma metric_ok_prefixed: "metric_ok (prefixed n k ss h) \<longleftrightarrow> suffix_fits k n \<and> labels_ok ss"
  by (auto simp: metric_ok_def prefixed_def suffix_fits_def labels_ok_def)

lemma labels_ok_samples:
  "labels_ok (one_sample v)" "labels_ok []" "labels_ok (labelled l x v # ss) \<longleftrightarrow> label_name_ok l \<and> labels_ok ss"
  by (simp_all add: labels_ok_def one_sample_def labelled_def)

lemma labels_ok_map: "label_name_ok l \<Longrightarrow> labels_ok (map (\<lambda>(n, x). labelled l n (f x)) xs)"
  by (auto simp: labels_ok_def labelled_def list_all_iff)

lemma metric_kind_suffix: "(mt_kind (prefixed n k ss h), mt_name (prefixed n k ss h)) = (k, ''dtwin_ingest_'' @ n)"
  by (simp add: prefixed_def)

lemma ingest_suffixes:
  "map (\<lambda>m. (mt_kind m, mt_name m)) (ingest_metrics s) =
     map (\<lambda>(k, n). (k, ''dtwin_ingest_'' @ n)) (core_suffixes @ (if is_alerts s = None then [] else alert_suffixes))"
  by (cases "is_alerts s")
    (simp_all only: ingest_metrics_def process_metrics_def writer_metrics_def fanout_metrics_def limit_metrics_def
      alert_metrics_def core_suffixes_def alert_suffixes_def option.case list.map append.simps metric_kind_suffix prod.case
      if_True if_False simp_thms option.distinct)

lemma ingest_labels: "list_all (\<lambda>m. labels_ok (mt_samples m)) (ingest_metrics s)"
proof -
  have "mt_samples (prefixed n k ss h) = ss" for n k ss h by (simp add: prefixed_def)
  then show ?thesis
    by (cases "is_alerts s")
      (simp_all only: ingest_metrics_def process_metrics_def writer_metrics_def fanout_metrics_def limit_metrics_def
        alert_metrics_def option.case append.simps list.pred_inject labels_ok_samples labels_ok_map label_names_ok simp_thms)
qed

lemma ingest_metrics_ok: "list_all metric_ok (ingest_metrics s)" "distinct (map mt_name (ingest_metrics s))"
proof -
  define ns where "ns = core_suffixes @ (if is_alerts s = None then [] else alert_suffixes)"
  have ns: "set ns \<subseteq> set (core_suffixes @ alert_suffixes)" "distinct (map snd ns)"
    using metric_suffixes_fit(2) by (simp_all add: ns_def)
  have "map mt_name (ingest_metrics s) = map snd (map (\<lambda>m. (mt_kind m, mt_name m)) (ingest_metrics s))" by simp
  also have "\<dots> = map (append ''dtwin_ingest_'') (map snd ns)"
    unfolding ingest_suffixes ns_def[symmetric] by (simp only: map_map comp_def case_prod_beta snd_conv)
  finally have names: "map mt_name (ingest_metrics s) = map (append ''dtwin_ingest_'') (map snd ns)" .
  show "distinct (map mt_name (ingest_metrics s))"
    unfolding names distinct_map using ns(2) by (simp only: inj_on_def same_append_eq distinct_map) blast
  show "list_all metric_ok (ingest_metrics s)"
    unfolding list_all_iff
  proof
    fix m assume m: "m \<in> set (ingest_metrics s)"
    then have "(mt_kind m, mt_name m) \<in> set (map (\<lambda>(k, n). (k, ''dtwin_ingest_'' @ n)) ns)"
      unfolding ns_def ingest_suffixes[symmetric] by simp
    then obtain n where "(mt_kind m, n) \<in> set ns" "mt_name m = ''dtwin_ingest_'' @ n"
      by auto
    moreover from this ns(1) have "suffix_fits (mt_kind m) n"
      using metric_suffixes_fit(1) unfolding list_all_iff by blast
    moreover have "labels_ok (mt_samples m)" using ingest_labels m by (simp only: list_all_iff)
    ultimately show "metric_ok m" unfolding metric_ok_def suffix_fits_def labels_ok_def by (elim conjE) (intro conjI; simp only:)
  qed
qed

text \<open>The lines of an exposition: none of them is broken by what it carries.\<close>

lemma split_lines:
  "list_all (\<lambda>l. newline \<notin> set l) ls \<Longrightarrow> filter (\<lambda>l. l \<noteq> []) (split_on newline (join_with [newline] ls @ [newline])) = filter (\<lambda>l. l \<noteq> []) ls"
  by (cases "ls = []") (simp_all add: split_on_append split_join)

lemma line_kinds:
  "filter (\<lambda>l. l \<noteq> [] \<and> P l) xs = filter P (filter (\<lambda>l. l \<noteq> []) xs)"
  by (simp add: conj_commute)

lemma labels_no_newline: "list_all (\<lambda>l. label_name_ok (fst l)) ls \<Longrightarrow> newline \<notin> set (render_labels ls)"
proof -
  have "newline \<notin> set (join_with '','' ps)" if "list_all (\<lambda>p. newline \<notin> set p) ps" for ps
    using that by (induction "'',''" ps rule: join_with.induct) auto
  moreover have "newline \<notin> set (render_label l)" if "label_name_ok (fst l)" for l
    using label_name_chars(2)[OF that] newline_escaped(1) by (simp add: render_label_def)
  ultimately show "list_all (\<lambda>l. label_name_ok (fst l)) ls \<Longrightarrow> ?thesis" by (auto simp: render_labels_def list_all_iff)
qed

lemma metric_lines_whole:
  assumes "\<forall>r. newline \<notin> set (show_number r)" "metric_ok m"
  shows "list_all (\<lambda>l. newline \<notin> set l) (metric_lines show_number m)"
proof -
  have name: "newline \<notin> set (mt_name m)" using metric_name_chars(3) assms(2) unfolding metric_ok_def by blast
  moreover have "newline \<notin> set (kind_name (mt_kind m))" by (cases "mt_kind m") (simp_all add: kind_name_def)
  moreover have "newline \<notin> set (format_value show_number v)" for v using assms(1) by (cases v) (simp_all add: format_value_def)
  ultimately show ?thesis
    using assms(2) newline_escaped(2) labels_no_newline
    by (auto simp: metric_lines_def metric_header_def metric_ok_def render_sample_def list_all_iff)
qed

lemma metric_head: "metric_name_ok n \<Longrightarrow> n \<noteq> [] \<and> hd n \<noteq> CHR ''#''"
  by (cases n) (auto simp: metric_name_ok_def alpha_char_def)

lemma metric_lines_read:
  assumes "metric_ok m"
  shows "filter (\<lambda>l. l \<noteq> [] \<and> take 7 l = ''# HELP '') (metric_lines show_number m) = [''# HELP '' @ mt_name m @ '' '' @ escape_help (mt_help m)]"
    and "filter (\<lambda>l. l \<noteq> [] \<and> take 7 l = ''# TYPE '') (metric_lines show_number m) = [''# TYPE '' @ mt_name m @ '' '' @ kind_name (mt_kind m)]"
    and "map read_sample (filter (\<lambda>l. l \<noteq> [] \<and> hd l \<noteq> CHR ''#'') (metric_lines show_number m)) =
      map (\<lambda>s. Some (mt_name m, mx_labels s, format_value show_number (mx_value s))) (mt_samples m)"
proof -
  have n: "metric_name_ok (mt_name m)" using assms by (simp add: metric_ok_def)
  have h: "render_sample show_number (mt_name m) s \<noteq> [] \<and> hd (render_sample show_number (mt_name m) s) \<noteq> CHR ''#''" for s
    using metric_head[OF n] by (simp add: render_sample_def)
  have t: "take 7 (render_sample show_number (mt_name m) s) \<noteq> CHR ''#'' # r" for s r
    using h[of s] by (cases "render_sample show_number (mt_name m) s") auto
  show "filter (\<lambda>l. l \<noteq> [] \<and> take 7 l = ''# HELP '') (metric_lines show_number m) = [''# HELP '' @ mt_name m @ '' '' @ escape_help (mt_help m)]"
    "filter (\<lambda>l. l \<noteq> [] \<and> take 7 l = ''# TYPE '') (metric_lines show_number m) = [''# TYPE '' @ mt_name m @ '' '' @ kind_name (mt_kind m)]"
    using t by (auto simp: metric_lines_def metric_header_def filter_empty_conv)
  have "filter (\<lambda>l. l \<noteq> [] \<and> hd l \<noteq> CHR ''#'') (metric_lines show_number m) = map (render_sample show_number (mt_name m)) (mt_samples m)"
    using h by (simp add: metric_lines_def metric_header_def filter_id_conv)
  then show "map read_sample (filter (\<lambda>l. l \<noteq> [] \<and> hd l \<noteq> CHR ''#'') (metric_lines show_number m)) =
      map (\<lambda>s. Some (mt_name m, mx_labels s, format_value show_number (mx_value s))) (mt_samples m)"
    using assms n by (auto simp: metric_ok_def list_all_iff intro!: sample_line_roundtrip)
qed

definition legal_metrics :: "metric list \<Rightarrow> bool" where
  "legal_metrics ms =
     (distinct (map mt_name ms) \<and> list_all (\<lambda>m. metric_name_ok (mt_name m)) ms \<and>
      list_all (\<lambda>m. mt_kind m = Counter \<longrightarrow> ends_with (mt_name m) ''_total'') ms \<and>
      list_all (\<lambda>m. list_all (\<lambda>s. list_all (\<lambda>l. label_name_ok (fst l)) (mx_labels s)) (mt_samples m)) ms)"

lemma legal_iff: "legal_metrics ms \<longleftrightarrow> list_all metric_ok ms \<and> distinct (map mt_name ms)"
  unfolding legal_metrics_def metric_ok_def list_all_iff by blast

lemma rendered_iff:
  "render_metrics show_number ms = Inr text \<longleftrightarrow>
     legal_metrics ms \<and> text = join_with [newline] (concat (map (metric_lines show_number) ms)) @ [newline]"
proof (cases "render_from show_number [] ms")
  case (Inl e)
  then have "\<not> legal_metrics ms" using render_from_iff[of show_number "[]" ms "concat (map (metric_lines show_number) ms)"] by (auto simp: legal_iff)
  then show ?thesis using Inl by (simp add: render_metrics_def)
next
  case (Inr ls)
  then have "legal_metrics ms" "ls = concat (map (metric_lines show_number) ms)" using render_from_iff[of show_number "[]" ms ls] by (simp_all add: legal_iff)
  then show ?thesis using Inr by (auto simp: render_metrics_def)
qed


definition sample_gauge :: metric_sample where
  "sample_gauge = \<lparr>mx_labels = [(''state'', [dquote, newline, CHR ''}''])], mx_value = Num 1\<rparr>"

theorem sample_line_roundtrip_witness:
  "read_sample (render_sample (\<lambda>_. ''1'') ''up'' sample_gauge) = Some (''up'', [(''state'', [dquote, newline, CHR ''}''])], ''1'')"
  using sample_line_roundtrip[of "''up''" sample_gauge "\<lambda>_. ''1''"]
  by (simp add: sample_gauge_def metric_name_ok_def label_name_ok_def alpha_char_def format_value_def)

definition sample_metric :: metric where
  "sample_metric = \<lparr>mt_name = ''up'', mt_help = [newline], mt_kind = Gauge, mt_samples = [sample_gauge]\<rparr>"


end
