(* ===== verification/Http_Server.thy ===== *)
theory Http_Server
  imports Http_Schemas Simulator Pipeline Notify Auth Metrics
begin

section \<open>The HTTP side of the ingest service (apps/ingest/src/server.ts)\<close>

text \<open>
  The routes, each as one function from the request and the state to the response and the state. Arguments:
  the digest and the identity rows of a key, JSON's parser, the clocks of the process and of the database
  transactions, the building and the memberships each control transaction reads, the ids that are drawn,
  the text of the frames sent to browsers, and what the outside answers a delivery. Between the awaits of a control route other requests run; the
  interleavings of its transactions are those of the control service's own step relation, so here a route
  is one step. An exception that no route catches is answered 500.
\<close>

datatype http_body =
    HbError string
  | HbInvalid string
  | HbRetry string int
  | HbIngest ingest_result
  | HbRefusal issue_refusal
  | HbDryRun permit
  | HbCommand "string \<times> command"
  | HbCommandPage command_page
  | HbSettings control_settings
  | HbClaimed "(string \<times> command) list" nat
  | HbForwarded
  | HbDelivered nat
  | HbAlertPage alert_page
  | HbAlert alert
  | HbFault string fault_kind
  | HbClearedAll
  | HbCleared bool
  | HbStatus string
  | HbText string

type_synonym http_response = "nat \<times> http_body"

record http_request =
  rq_route :: string
  rq_query :: "(string, string) jsmap"
  rq_headers :: request_headers
  rq_acting_user :: "string option"
  rq_remote :: "string option"
  rq_forwarded :: header
  rq_chunks :: "string list"
  rq_broken :: bool

record server =
  sv_pipeline :: pipeline
  sv_limits :: limits
  sv_control :: control_db
  sv_notify :: notify_world
  sv_simulator :: simulator

record http_env =
  he_sha :: "string \<Rightarrow> string"
  he_identity :: identity_db
  he_json :: "string \<Rightarrow> json option"
  he_now :: ms
  he_db_now :: ms
  he_max_body :: nat
  he_hops :: int
  he_pipeline :: pipeline_config
  he_grow :: "string \<Rightarrow> payload \<Rightarrow> int"
  he_issue :: issue_env
  he_members :: identity
  he_list_limit :: nat
  he_claim_max :: nat
  he_claim_detail :: "control_refusal \<Rightarrow> string"
  he_claim_now :: ms
  he_claim_locked :: "string list"
  he_recheck :: "string \<Rightarrow> recheck_env"
  he_notify :: notify_config
  he_delivery :: "note_key \<Rightarrow> delivery_env"
  he_note_locked :: "note_key list"
  he_tenants :: "string list"
  he_alert_limit :: nat
  he_buffer_max :: nat
  he_sim_frame :: "json \<Rightarrow> string"
  he_ack_frame :: "alert \<Rightarrow> string"
  he_uptime_s :: jsnum
  he_show :: "rat \<Rightarrow> string"
  he_summary_ok :: "json \<Rightarrow> bool"

subsection \<open>Bodies and refusals\<close>

text \<open>The body is bounded before it is buffered; a connection that dies mid-body is the client's problem.\<close>

fun read_chunks :: "nat \<Rightarrow> nat \<Rightarrow> string list \<Rightarrow> bool \<Rightarrow> http_response + string" where
  "read_chunks limit got [] broken = (if broken then Inl (400, HbError ''request body could not be read'') else Inr [])"
| "read_chunks limit got (c # cs) broken =
     (if got + length c > limit then Inl (413, HbError ''body exceeds the limit'')
      else (case read_chunks limit (got + length c) cs broken of Inl e \<Rightarrow> Inl e | Inr rest \<Rightarrow> Inr (c @ rest)))"

definition read_json :: "http_env \<Rightarrow> http_request \<Rightarrow> http_response + json" where
  "read_json env rq =
     (case read_chunks (he_max_body env) 0 (rq_chunks rq) (rq_broken rq) of
        Inl e \<Rightarrow> Inl e
      | Inr text \<Rightarrow> (case he_json env text of None \<Rightarrow> Inl (400, HbError ''invalid JSON'') | Some j \<Rightarrow> Inr j))"

definition too_many :: "string \<Rightarrow> retry_after \<Rightarrow> http_response" where
  "too_many error wait = (429, HbRetry error (case wait of RetryAfter n \<Rightarrow> max 1 n | RetryNever \<Rightarrow> 3600))"

definition refuse :: "auth_failure \<Rightarrow> http_response" where
  "refuse failure =
     (case failure of
        TooMany wait \<Rightarrow> too_many ''too many failed authentication attempts from this address'' wait
      | Unauthorized e \<Rightarrow> (401, HbError e)
      | Forbidden scope \<Rightarrow> (403, HbError (''key is not scoped for '' @ scope_name scope)))"

definition with_key ::
  "http_env \<Rightarrow> http_request \<Rightarrow> api_scope \<Rightarrow> (principal \<Rightarrow> server \<Rightarrow> http_response \<times> server) \<Rightarrow> server \<Rightarrow> http_response \<times> server" where
  "with_key env rq scope route sv =
     (let (r, budget) = authenticate (he_sha env) (he_identity env) (he_db_now env) (he_now env) (rq_headers rq) scope
            (client_address (rq_remote rq) (rq_forwarded rq) (he_hops env)) (li_auth_failures (sv_limits sv));
          sv1 = sv\<lparr>sv_limits := (sv_limits sv)\<lparr>li_auth_failures := budget\<rparr>\<rparr>
      in case r of Inl failure \<Rightarrow> (refuse failure, sv1) | Inr p \<Rightarrow> route p sv1)"

definition with_json ::
  "http_env \<Rightarrow> http_request \<Rightarrow> (json \<Rightarrow> server \<Rightarrow> http_response \<times> server) \<Rightarrow> server \<Rightarrow> http_response \<times> server" where
  "with_json env rq route sv = (case read_json env rq of Inl e \<Rightarrow> (e, sv) | Inr j \<Rightarrow> route j sv)"

definition string_field :: "json \<Rightarrow> string \<Rightarrow> string option" where
  "string_field j k = (case jfield j k of Some (JString s) \<Rightarrow> Some s | _ \<Rightarrow> None)"

definition server_error :: http_response where
  "server_error = (500, HbError ''internal error'')"

subsection \<open>Probes\<close>

definition server_ready :: "http_env \<Rightarrow> server \<Rightarrow> bool" where
  "server_ready env sv =
     (registry_size (pl_registry (sv_pipeline sv)) > 0 \<and>
      length (wr_buffer (pl_writer (sv_pipeline sv))) < he_buffer_max env \<and>
      wr_last_error (pl_writer (sv_pipeline sv)) = None)"

definition route_readyz :: "http_env \<Rightarrow> server \<Rightarrow> http_response \<times> server" where
  "route_readyz env sv =
     ((if server_ready env sv then (200, HbStatus ''ready'') else (503, HbStatus ''degraded'')), sv)"

definition route_healthz :: "http_env \<Rightarrow> server \<Rightarrow> http_response \<times> server" where
  "route_healthz env sv =
     ((if server_ready env sv then (200, HbStatus ''ok'') else (503, HbStatus ''degraded'')), sv)"

definition count :: "int \<Rightarrow> jsnum" where
  "count n = Num (of_int n)"

definition limit_stats :: "limiter \<Rightarrow> limiter_sample" where
  "limit_stats l = \<lparr>ls_keys = count (int (fst (limiter_stats l))), ls_refused = count (int (fst (snd (limiter_stats l)))),
     ls_overflowed = count (int (snd (snd (limiter_stats l))))\<rparr>"

definition limiters_of :: "limits \<Rightarrow> (string \<times> limiter_sample) list" where
  "limiters_of l = [(''authFailures'', limit_stats (li_auth_failures l)), (''requests'', limit_stats (li_requests l)),
     (''readings'', limit_stats (li_readings l)), (''frames'', limit_stats (li_frames l))]"

definition writer_stats_of :: "writer \<Rightarrow> writer_stats" where
  "writer_stats_of w = \<lparr>ws_written = count (wr_written w), ws_dropped = count (int (wr_dropped w)), ws_flushes = count (wr_flushes w),
     ws_failed_flushes = count (wr_failed_flushes w), ws_buffered = count (int (length (wr_buffer w))),
     ws_last_flush_ms = map_option count (wr_last_flush_ms w)\<rparr>"

definition fanout_stats_of :: "fanout \<Rightarrow> fanout_stats" where
  "fanout_stats_of f = \<lparr>fs_frames_sent = count (fo_frames_sent f), fs_readings_sent = count (fo_readings_sent f),
     fs_frames_skipped = count (fo_frames_skipped f), fs_backlogged_closed = count (fo_backlogged_closed f),
     fs_subscribes_denied = count (fo_denied f), fs_subscribers = count (int (length (fo_subscribers f))),
     fs_authenticated = count (int (fo_authenticated f)), fs_topics = count (int (length (fo_by_topic f)))\<rparr>"

definition alert_stats_of :: "engine \<Rightarrow> notify_stats \<Rightarrow> alert_stats" where
  "alert_stats_of e n = \<lparr>as_rules = count (int (length (en_rules e))), as_live = count (int (engine_live e)),
     as_opened = count (en_opened e), as_resolved = count (en_resolved e), as_suppressed = count (en_suppressed e),
     as_delivered = count (ns_delivered n), as_failed = count (ns_failed n), as_blocked = count (ns_blocked n),
     as_skipped = count (ns_skipped n)\<rparr>"

definition snapshot_of :: "http_env \<Rightarrow> server \<Rightarrow> ingest_snapshot" where
  "snapshot_of env sv =
     \<lparr>is_ready = server_ready env sv, is_uptime_s = he_uptime_s env,
      is_sensors = count (int (registry_size (pl_registry (sv_pipeline sv)))),
      is_writer = writer_stats_of (pl_writer (sv_pipeline sv)), is_fanout = fanout_stats_of (pl_fanout (sv_pipeline sv)),
      is_alerts = (if pc_alert_enabled (he_pipeline env)
        then Some (alert_stats_of (pl_alerts (sv_pipeline sv)) (nw_stats (sv_notify sv))) else None),
      is_limits = limiters_of (sv_limits sv)\<rparr>"

definition route_metrics :: "http_env \<Rightarrow> server \<Rightarrow> http_response \<times> server" where
  "route_metrics env sv =
     ((case render_metrics (he_show env) (ingest_metrics (snapshot_of env sv)) of
         Inr text \<Rightarrow> (200, HbText text) | Inl _ \<Rightarrow> server_error), sv)"

subsection \<open>Telemetry\<close>

definition key_of :: "principal \<Rightarrow> string" where
  "key_of p = (case p of ApiKeyPrincipal _ key _ _ \<Rightarrow> key | UserPrincipal tenant _ _ _ \<Rightarrow> tenant)"

definition route_ingest :: "http_env \<Rightarrow> http_request \<Rightarrow> principal \<Rightarrow> server \<Rightarrow> http_response \<times> server" where
  "route_ingest env rq p sv =
     (case take_tokens (he_now env) (key_of p) 1 (li_requests (sv_limits sv)) of
        (LimitRefused wait, l) \<Rightarrow>
          (too_many ''request rate exceeded for this key'' wait, sv\<lparr>sv_limits := (sv_limits sv)\<lparr>li_requests := l\<rparr>\<rparr>)
      | (LimitOk, l) \<Rightarrow>
          with_json env rq (\<lambda>j sv1.
            case raw_batch_of j of
              None \<Rightarrow> ((400, HbInvalid ''invalid batch''), sv1)
            | Some batch \<Rightarrow>
                (case take_tokens (he_now env) (pr_tenant p) (of_nat (length batch)) (li_readings (sv_limits sv1)) of
                   (LimitRefused wait, m) \<Rightarrow>
                     (too_many ''reading rate exceeded for this tenant'' wait, sv1\<lparr>sv_limits := (sv_limits sv1)\<lparr>li_readings := m\<rparr>\<rparr>)
                 | (LimitOk, m) \<Rightarrow>
                     let (res, pl) = ingest_raw (he_pipeline env) (pr_tenant p) (he_now env) batch (sv_pipeline sv1)
                     in ((202, HbIngest res), sv1\<lparr>sv_limits := (sv_limits sv1)\<lparr>li_readings := m\<rparr>, sv_pipeline := pl\<rparr>)))
            (sv\<lparr>sv_limits := (sv_limits sv)\<lparr>li_requests := l\<rparr>\<rparr>))"

subsection \<open>The operator's control surface\<close>

definition issue_response :: "issue_result \<Rightarrow> http_response" where
  "issue_response r =
     (case r of
        NotIssued UnknownZone \<Rightarrow> (404, HbRefusal UnknownZone)
      | NotIssued (ByEnvelope refusal) \<Rightarrow> ((if refusal = forbidden_role then 403 else 409), HbRefusal (ByEnvelope refusal))
      | DryRun permit \<Rightarrow> (200, HbDryRun permit)
      | Issued c \<Rightarrow> (202, HbCommand c)
      | IssueRaised _ \<Rightarrow> server_error)"

definition route_issue :: "http_env \<Rightarrow> http_request \<Rightarrow> principal \<Rightarrow> server \<Rightarrow> http_response \<times> server" where
  "route_issue env rq p sv =
     (case rq_acting_user rq of
        None \<Rightarrow> ((400, HbError ''an acting user is required''), sv)
      | Some user \<Rightarrow>
          with_json env rq (\<lambda>j sv1.
            case setpoint_request_of j of
              None \<Rightarrow> ((400, HbInvalid ''invalid command''), sv1)
            | Some q \<Rightarrow>
                let (r, db) = issue_command (pr_tenant p) user q (he_issue env) (sv_control sv1)
                in (issue_response r, sv1\<lparr>sv_control := db\<rparr>)) sv)"

definition route_list_commands :: "http_env \<Rightarrow> principal \<Rightarrow> server \<Rightarrow> http_response \<times> server" where
  "route_list_commands env p sv =
     ((200, HbCommandPage (list_commands (pr_tenant p) (he_list_limit env) (sv_control sv))), sv)"

definition route_cancel :: "http_env \<Rightarrow> http_request \<Rightarrow> principal \<Rightarrow> server \<Rightarrow> http_response \<times> server" where
  "route_cancel env rq p sv =
     with_json env rq (\<lambda>j sv1.
       case (string_field j ''commandId'', rq_acting_user rq) of
         (Some i, Some user) \<Rightarrow>
           if i = [] then ((400, HbError ''commandId and an acting user are required''), sv1)
           else if member_role (pr_tenant p) user (he_members env) \<in> {None, Some Viewer}
           then ((403, HbError ''this user may not cancel commands''), sv1)
           else (case cancel_command (pr_tenant p) i (he_db_now env) (sv_control sv1) of
                   (None, db) \<Rightarrow> ((409, HbError ''no command to cancel''), sv1\<lparr>sv_control := db\<rparr>)
                 | (Some c, db) \<Rightarrow> ((200, HbCommand c), sv1\<lparr>sv_control := db\<rparr>))
       | _ \<Rightarrow> ((400, HbError ''commandId and an acting user are required''), sv1)) sv"

definition route_get_settings :: "principal \<Rightarrow> server \<Rightarrow> http_response \<times> server" where
  "route_get_settings p sv =
     (let (s, db) = get_settings (pr_tenant p) (sv_control sv) in ((200, HbSettings s), sv\<lparr>sv_control := db\<rparr>))"

definition route_put_settings :: "http_env \<Rightarrow> http_request \<Rightarrow> principal \<Rightarrow> server \<Rightarrow> http_response \<times> server" where
  "route_put_settings env rq p sv =
     (case rq_acting_user rq of
        None \<Rightarrow> ((400, HbError ''an acting user is required''), sv)
      | Some user \<Rightarrow>
          if member_role (pr_tenant p) user (he_members env) \<notin> {Some Owner, Some Admin}
          then ((403, HbError ''only an owner or admin may change control settings''), sv)
          else with_json env rq (\<lambda>j sv1.
            case settings_update_of j of
              None \<Rightarrow> ((400, HbInvalid ''invalid settings''), sv1)
            | Some patch \<Rightarrow>
                (case update_settings (pr_tenant p) patch (sv_control sv1) of
                   (None, db) \<Rightarrow> (server_error, sv1\<lparr>sv_control := db\<rparr>)
                 | (Some s, db) \<Rightarrow> ((200, HbSettings s), sv1\<lparr>sv_control := db\<rparr>))) sv)"

subsection \<open>The gateway's surface\<close>

definition claim_limit :: "nat \<Rightarrow> json \<Rightarrow> nat" where
  "claim_limit most j =
     (case jfield j ''limit'' of Some (JNumber n) \<Rightarrow> if n > 0 then min (nat \<lfloor>n\<rfloor>) most else most | _ \<Rightarrow> most)"

definition gateway_name :: "principal \<Rightarrow> json \<Rightarrow> string" where
  "gateway_name p j =
     (case string_field j ''gateway'' of
        Some g \<Rightarrow> if length g \<le> 64 then g
          else (case p of ApiKeyPrincipal _ key _ _ \<Rightarrow> key | UserPrincipal _ _ _ _ \<Rightarrow> ''unknown'')
      | None \<Rightarrow> (case p of ApiKeyPrincipal _ key _ _ \<Rightarrow> key | UserPrincipal _ _ _ _ \<Rightarrow> ''unknown''))"

definition route_claim :: "http_env \<Rightarrow> http_request \<Rightarrow> principal \<Rightarrow> server \<Rightarrow> http_response \<times> server" where
  "route_claim env rq p sv =
     with_json env rq (\<lambda>j sv1.
       let (commands, withheld, db) =
             claim_for_gateway (he_claim_detail env) (pr_tenant p) (gateway_name p j) (claim_limit (he_claim_max env) j)
               (he_db_now env) (he_claim_now env) (he_claim_locked env) (he_recheck env) (sv_control sv1)
       in ((200, HbClaimed commands withheld), sv1\<lparr>sv_control := db\<rparr>)) sv"

definition route_result :: "http_env \<Rightarrow> http_request \<Rightarrow> principal \<Rightarrow> server \<Rightarrow> http_response \<times> server" where
  "route_result env rq p sv =
     with_json env rq (\<lambda>j sv1.
       case (string_field j ''commandId'', if is_object j then result_report_of j else None) of
         (Some i, Some (outcome, detail)) \<Rightarrow>
           if i = [] then ((400, HbInvalid ''commandId and an outcome are required''), sv1)
           else (case report_result (pr_tenant p) i outcome detail (he_db_now env) (sv_control sv1) of
                   (None, db) \<Rightarrow> ((409, HbError ''no dispatched command with that id''), sv1\<lparr>sv_control := db\<rparr>)
                 | (Some c, db) \<Rightarrow> ((200, HbCommand c), sv1\<lparr>sv_control := db\<rparr>))
       | _ \<Rightarrow> ((400, HbInvalid ''commandId and an outcome are required''), sv1)) sv"

subsection \<open>Simulation events\<close>

text \<open>The building an event names, if it is an event of the schema. The nested summary's schema is an argument.\<close>

definition sim_event_building :: "http_env \<Rightarrow> json \<Rightarrow> string option" where
  "sim_event_building env j =
     (case (json_required json_string j ''type'', json_required uuid_of j ''runId'', json_required uuid_of j ''buildingId'') of
        (Some kind, Some _, Some b) \<Rightarrow>
          if (kind = ''sim.progress'' \<and> checked (\<lambda>n. 0 \<le> n \<and> n \<le> 100) (json_required json_number j ''progressPct'') \<noteq> None) \<or>
             (kind = ''sim.complete'' \<and> (case jfield j ''summary'' of Some s \<Rightarrow> he_summary_ok env s | None \<Rightarrow> False)) \<or>
             (kind = ''sim.failed'' \<and> json_required json_string j ''error'' \<noteq> None)
          then Some b else None
      | _ \<Rightarrow> None)"

definition route_sim_event :: "http_env \<Rightarrow> http_request \<Rightarrow> principal \<Rightarrow> server \<Rightarrow> http_response \<times> server" where
  "route_sim_event env rq p sv =
     with_json env rq (\<lambda>j sv1.
       case sim_event_building env j of
         None \<Rightarrow> ((400, HbInvalid ''invalid sim event''), sv1)
       | Some b \<Rightarrow>
           if owner_of (pl_registry (sv_pipeline sv1)) (topic_building b) \<noteq> Some (pr_tenant p)
           then ((403, HbError ''building does not belong to this tenant''), sv1)
           else ((202, HbForwarded), sv1\<lparr>sv_pipeline := (sv_pipeline sv1)
                  \<lparr>pl_fanout := fo_send (he_grow env) (topic_sim b) (he_sim_frame env j) False (pl_fanout (sv_pipeline sv1))\<rparr>\<rparr>)) sv"

subsection \<open>Alerts\<close>

definition route_notify_sweep :: "http_env \<Rightarrow> server \<Rightarrow> http_response \<times> server" where
  "route_notify_sweep env sv =
     (case retry_pending (he_notify env) (he_delivery env) (he_db_now env) (he_note_locked env) (he_tenants env) (sv_notify sv) of
        Ok (n, w) \<Rightarrow> ((200, HbDelivered n), sv\<lparr>sv_notify := w\<rparr>)
      | Raised (n, w) \<Rightarrow> (server_error, sv\<lparr>sv_notify := w\<rparr>))"

definition route_alerts :: "http_env \<Rightarrow> http_request \<Rightarrow> principal \<Rightarrow> server \<Rightarrow> http_response \<times> server" where
  "route_alerts env rq p sv =
     (let f = (if jget (rq_query rq) ''state'' = Some ''live'' then LiveOnly
               else if jget (rq_query rq) ''state'' = Some ''resolved'' then ResolvedOnly else AnyState)
      in ((200, HbAlertPage (list_alerts (pr_tenant p) f (he_alert_limit env) (nw_db (sv_notify sv)))), sv))"

definition route_ack :: "http_env \<Rightarrow> http_request \<Rightarrow> principal \<Rightarrow> server \<Rightarrow> http_response \<times> server" where
  "route_ack env rq p sv =
     with_json env rq (\<lambda>j sv1.
       case (string_field j ''alertId'', rq_acting_user rq) of
         (Some i, Some user) \<Rightarrow>
           if i = [] then ((400, HbError ''alertId and an acting user are required''), sv1)
           else (case engine_acknowledge (pr_tenant p) i user (he_db_now env) (pl_registry (sv_pipeline sv1)) (nw_db (sv_notify sv1)) of
                   (None, db) \<Rightarrow> ((409, HbError ''alert is not open''), sv1\<lparr>sv_notify := (sv_notify sv1)\<lparr>nw_db := db\<rparr>\<rparr>)
                 | (Some (a, s), db) \<Rightarrow>
                     ((200, HbAlert a),
                      sv1\<lparr>sv_notify := (sv_notify sv1)\<lparr>nw_db := db\<rparr>,
                          sv_pipeline := (sv_pipeline sv1)\<lparr>pl_fanout :=
                            engine_emit (he_grow env) (he_ack_frame env a) s (Some (pr_tenant p)) (pl_fanout (sv_pipeline sv1))\<rparr>\<rparr>))
       | _ \<Rightarrow> ((400, HbError ''alertId and an acting user are required''), sv1)) sv"

subsection \<open>Simulated faults\<close>

definition sensor_named :: "string \<Rightarrow> json \<Rightarrow> registry \<Rightarrow> sensor option" where
  "sensor_named tenant j g =
     (let found = (if truthy (string_field j ''sensorId'') then registry_by_id g (the (string_field j ''sensorId''))
          else if truthy (string_field j ''externalId'') then registry_lookup g tenant (the (string_field j ''externalId''))
          else None)
      in case found of Some s \<Rightarrow> if sn_tenant s = tenant then Some s else None | None \<Rightarrow> None)"

definition route_fault :: "http_env \<Rightarrow> http_request \<Rightarrow> principal \<Rightarrow> server \<Rightarrow> http_response \<times> server" where
  "route_fault env rq p sv =
     with_json env rq (\<lambda>j sv1.
       if \<not> is_object j then ((400, HbError ''body must be a JSON object''), sv1)
       else case sensor_named (pr_tenant p) j (pl_registry (sv_pipeline sv1)) of
              None \<Rightarrow> ((404, HbError ''unknown sensor''), sv1)
            | Some s \<Rightarrow>
                (case (case jfield j ''kind'' of Some v \<Rightarrow> fault_kind_of v | None \<Rightarrow> None) of
                   None \<Rightarrow> ((400, HbError ''kind must be one of drift, flatline, spike, offline''), sv1)
                 | Some kind \<Rightarrow>
                     let magnitude = (case jfield j ''magnitude'' of Some (JNumber m) \<Rightarrow> m | _ \<Rightarrow> 1)
                     in ((200, HbFault (sn_id s) kind),
                         sv1\<lparr>sv_simulator := inject_fault (sn_id s) kind magnitude (he_now env) (sv_simulator sv1)\<rparr>))) sv"

definition route_clear_fault :: "http_request \<Rightarrow> principal \<Rightarrow> server \<Rightarrow> http_response \<times> server" where
  "route_clear_fault rq p sv =
     (let g = pl_registry (sv_pipeline sv); i = jget (rq_query rq) ''sensorId'' in
      if \<not> truthy i then ((200, HbClearedAll), sv\<lparr>sv_simulator := snd (clear_faults_for (pr_tenant p) g (sv_simulator sv))\<rparr>)
      else if map_option sn_tenant (registry_by_id g (the i)) \<noteq> Some (pr_tenant p) then ((404, HbError ''unknown sensor''), sv)
      else let (cleared, sim) = clear_fault (the i) (sv_simulator sv) in ((200, HbCleared cleared), sv\<lparr>sv_simulator := sim\<rparr>))"

subsection \<open>The dispatch\<close>

text \<open>The routes that need a key, with the scope each asks for.\<close>

definition keyed_routes ::
  "http_env \<Rightarrow> http_request \<Rightarrow> (string \<times> api_scope \<times> (principal \<Rightarrow> server \<Rightarrow> http_response \<times> server)) list" where
  "keyed_routes env rq =
     [(''POST /ingest'', IngestWrite, route_ingest env rq),
      (''POST /control/commands'', ControlWrite, route_issue env rq),
      (''GET /control/commands'', ControlWrite, route_list_commands env),
      (''POST /control/commands/cancel'', ControlWrite, route_cancel env rq),
      (''GET /control/settings'', ControlWrite, route_get_settings),
      (''POST /control/settings'', ControlWrite, route_put_settings env rq),
      (''POST /control/dispatch/claim'', ControlDispatch, route_claim env rq),
      (''POST /control/dispatch/result'', ControlDispatch, route_result env rq),
      (''POST /internal/sim-event'', SimNotify, route_sim_event env rq),
      (''POST /internal/notify-sweep'', IngestWrite, \<lambda>p. route_notify_sweep env),
      (''GET /alerts'', IngestWrite, route_alerts env rq),
      (''POST /alerts/ack'', IngestWrite, route_ack env rq),
      (''POST /simulator/fault'', IngestWrite, route_fault env rq),
      (''DELETE /simulator/fault'', IngestWrite, route_clear_fault rq)]"

definition handle_request :: "http_env \<Rightarrow> http_request \<Rightarrow> server \<Rightarrow> http_response \<times> server" where
  "handle_request env rq sv =
     (if rq_route rq = ''GET /livez'' then ((200, HbStatus ''alive''), sv)
      else if rq_route rq = ''GET /readyz'' then route_readyz env sv
      else if rq_route rq = ''GET /metrics'' then route_metrics env sv
      else if rq_route rq = ''GET /healthz'' then route_healthz env sv
      else case map_of (keyed_routes env rq) (rq_route rq) of
             Some (scope, route) \<Rightarrow> with_key env rq scope route sv
           | None \<Rightarrow> ((404, HbError (''no route for '' @ rq_route rq)), sv))"

end
