(* ===== verification/Http_Isolation.thy ===== *)
theory Http_Isolation
  imports Http_Server
begin

section \<open>What one request can change\<close>

text \<open>
  Theorems on the dispatch as a whole: a request changes nothing without a key that carries the route's
  scope, what it changes is its own tenant's, and a batch of readings is taken only within both budgets.
\<close>

subsection \<open>No change without a key\<close>

definition request_key :: "http_env \<Rightarrow> http_request \<Rightarrow> api_scope \<Rightarrow> server \<Rightarrow> (auth_failure + principal) \<times> limiter" where
  "request_key env rq scope sv =
     authenticate (he_sha env) (he_identity env) (he_db_now env) (he_now env) (rq_headers rq) scope
       (client_address (rq_remote rq) (rq_forwarded rq) (he_hops env)) (li_auth_failures (sv_limits sv))"

definition counted :: "limiter \<Rightarrow> server \<Rightarrow> server" where
  "counted budget sv = sv\<lparr>sv_limits := (sv_limits sv)\<lparr>li_auth_failures := budget\<rparr>\<rparr>"

lemma with_key_cases:
  "with_key env rq scope route sv =
     (case request_key env rq scope sv of
        (Inl failure, budget) \<Rightarrow> (refuse failure, counted budget sv)
      | (Inr p, budget) \<Rightarrow> route p (counted budget sv))"
  by (simp add: with_key_def request_key_def counted_def Let_def split: prod.split sum.split)

text \<open>A request is one of four probes, which change nothing, or one of the keyed routes, or is not found.\<close>

lemma handle_request_cases:
  obtains (none) "snd (handle_request env rq sv) = sv"
  | (keyed) scope route where "map_of (keyed_routes env rq) (rq_route rq) = Some (scope, route)"
    "handle_request env rq sv = with_key env rq scope route sv"
proof (cases "rq_route rq \<in> {''GET /livez'', ''GET /readyz'', ''GET /metrics'', ''GET /healthz''}")
  case True
  then show ?thesis
    by (intro none) (auto simp: handle_request_def route_readyz_def route_metrics_def route_healthz_def)
next
  case False
  then have "handle_request env rq sv =
      (case map_of (keyed_routes env rq) (rq_route rq) of
         Some (scope, route) \<Rightarrow> with_key env rq scope route sv
       | None \<Rightarrow> ((404, HbError (''no route for '' @ rq_route rq)), sv))"
    unfolding handle_request_def by (simp only: insert_iff de_Morgan_disj if_False)
  then show ?thesis by (cases "map_of (keyed_routes env rq) (rq_route rq)") (auto intro: none keyed)
qed

lemma refuse_status: "fst (refuse failure) \<in> {401, 403, 429}"
  by (simp add: refuse_def too_many_def split: auth_failure.split)

lemma keyed_route_in: "map_of (keyed_routes env rq) r = Some (scope, route) \<Longrightarrow> (r, scope, route) \<in> set (keyed_routes env rq)"
  by (rule map_of_SomeD)

text \<open>C13: No request changes anything without authority: if it leaves the service in any other state than the one
  it found, the limiter of failed authentications aside, then its key is a live one of an active tenant and
  carries the scope its route asks for.\<close>
theorem changes_need_a_key:
  assumes "handle_request env rq sv = (resp, sv')" "sv' \<noteq> counted (li_auth_failures (sv_limits sv')) sv"
  shows "\<exists>scope route key k. map_of (keyed_routes env rq) (rq_route rq) = Some (scope, route) \<and>
    extract_key (rq_headers rq) = Some key \<and> k \<in> set (db_api_keys (he_identity env)) \<and> ak_hash k = he_sha env key \<and>
    key_usable (he_db_now env) (he_identity env) k \<and> scope_name scope \<in> set (ak_scopes k)"
proof (cases rule: handle_request_cases[of env rq sv])
  case none
  then have "sv' = sv" using assms(1) by simp
  then show ?thesis using assms(2) by (simp add: counted_def)
next
  case (keyed scope route)
  obtain r budget where k: "request_key env rq scope sv = (r, budget)" by fastforce
  show ?thesis
  proof (cases r)
    case (Inl failure)
    then have "sv' = counted budget sv" using assms(1) keyed(2) k by (simp add: with_key_cases)
    then show ?thesis using assms(2) by (simp add: counted_def)
  next
    case (Inr p)
    then have "\<exists>key k. extract_key (rq_headers rq) = Some key \<and> k \<in> set (db_api_keys (he_identity env)) \<and>
        ak_hash k = he_sha env key \<and> key_usable (he_db_now env) (he_identity env) k \<and> scope_name scope \<in> set (ak_scopes k)"
      using authenticated_by_key k unfolding request_key_def by blast
    then show ?thesis using keyed(1) by blast
  qed
qed

subsection \<open>One tenant's requests and another's rows\<close>

text \<open>The readings a writer still holds, in its buffer or in the flush that is running.\<close>

definition held_readings :: "writer \<Rightarrow> owned_reading list" where
  "held_readings w = (case wr_flight w of Some fl \<Rightarrow> fl_batch fl | None \<Rightarrow> []) @ wr_buffer w"

text \<open>What a request leaves alone of tenant \<open>other\<close>: its commands and settings, its alerts and their
  notifications, the faults injected in its sensors, and the readings waiting to be written for it, none of which is added.\<close>

definition other_kept :: "string \<Rightarrow> server \<Rightarrow> server \<Rightarrow> bool" where
  "other_kept other sv sv' =
     (tenant_kept other (sv_control sv) (sv_control sv') \<and>
      jget (cd_settings (sv_control sv')) other = jget (cd_settings (sv_control sv)) other \<and>
      (\<forall>i a. al_tenant a = other \<longrightarrow>
         (jget (ad_alerts (nw_db (sv_notify sv'))) i = Some a \<longleftrightarrow> jget (ad_alerts (nw_db (sv_notify sv))) i = Some a)) \<and>
      ad_notes (nw_db (sv_notify sv')) = ad_notes (nw_db (sv_notify sv)) \<and>
      (\<forall>i s. registry_by_id (pl_registry (sv_pipeline sv)) i = Some s \<longrightarrow> sn_tenant s = other \<longrightarrow>
         jget (sm_faults (sv_simulator sv')) i = jget (sm_faults (sv_simulator sv)) i) \<and>
      (\<forall>r. r \<in> set (held_readings (pl_writer (sv_pipeline sv'))) \<longrightarrow> rd_tenant r = other \<longrightarrow>
         r \<in> set (held_readings (pl_writer (sv_pipeline sv)))))"

text \<open>The maps of the registry agree with each other, as a load leaves them.\<close>

definition registry_indexed :: "registry \<Rightarrow> bool" where
  "registry_indexed g =
     (list_all (\<lambda>(k, s). k = registry_key (sn_tenant s) (sn_external_id s) \<and> CHR '':'' \<notin> set (sn_tenant s) \<and>
        registry_by_id g (sn_id s) = Some s) (rm_by_external (rg_maps g)) \<and>
      list_all (\<lambda>(i, s). sn_id s = i) (rm_by_id (rg_maps g)))"

lemma registry_indexedD:
  assumes "registry_indexed g"
  shows "registry_lookup g tenant e = Some s \<Longrightarrow> CHR '':'' \<notin> set tenant \<Longrightarrow>
      sn_tenant s = tenant \<and> registry_by_id g (sn_id s) = Some s"
    "registry_by_id g i = Some s \<Longrightarrow> sn_id s = i"
  using assms registry_key_inj[of tenant e]
  by (auto simp: registry_indexed_def list_all_iff registry_lookup_def registry_by_id_def dest!: map_of_SomeD)

lemma fold_jset_values:
  "(k, v) \<in> set (fold (\<lambda>r. jset (f r) r) zs acc) \<Longrightarrow> (k, v) \<in> set acc \<or> v \<in> set zs \<and> k = f v"
proof (induction zs arbitrary: acc)
  case (Cons z zs)
  then show ?case using Cons.IH[of "jset (f z) z acc"] entries_jset_subset[of "f z" z acc] by auto
qed simp

text \<open>A database that keeps its keys loads into such maps.\<close>

lemma loaded_registry_indexed:
  assumes "0 < ro_page_rows opts" "\<forall>xs. mset (outer xs) = mset xs" "database_ok ts"
    and "length (all_rows ts) \<le> ro_max_sensors opts" "load_tenants outer opts ts empty_maps = Some (Inr m)"
  shows "registry_indexed (refresh_finish (Inr m) g)"
proof -
  let ?key = "\<lambda>s. registry_key (sn_tenant s) (sn_external_id s)"
  obtain ys where ys: "mset ys = mset (all_rows ts)"
    and maps: "rm_by_id m = rm_by_id (fold add_row ys empty_maps)"
      "rm_by_external m = rm_by_external (fold add_row ys empty_maps)"
    using load_tenants_spec[of opts outer ts empty_maps] assms by (auto simp: empty_maps_def)
  have set_ys: "set ys = set (all_rows ts)" using ys by (metis set_mset_mset)
  have nocolon: "CHR '':'' \<notin> set (sn_tenant x)" if "x \<in> set ys" for x
    using that set_ys assms(3) by (auto simp: database_ok_def all_rows_def)
  have inj: "inj_on sn_id (set ys)"
    using assms(3) set_ys by (simp add: database_ok_def distinct_map)
  show ?thesis
    unfolding registry_indexed_def list_all_iff
  proof (intro conjI ballI)
    fix e assume e: "e \<in> set (rm_by_external (rg_maps (refresh_finish (Inr m) g)))"
    obtain k s where ks: "e = (k, s)" by (cases e)
    have "(k, s) \<in> set (fold (\<lambda>r. jset (?key r) r) ys [])"
      using e unfolding ks refresh_finish_def by (simp add: maps fold_add_row_maps empty_maps_def)
    from fold_jset_values[OF this] have s: "s \<in> set ys" "k = ?key s" by simp_all
    have "registry_by_id (refresh_finish (Inr m) g) (sn_id s) = Some s"
      using jget_fold_jset[OF inj s(1), of "\<lambda>r. r"] unfolding registry_by_id_def refresh_finish_def
      by (simp add: maps fold_add_row_maps)
    then show "case e of (k, s) \<Rightarrow> k = ?key s \<and> CHR '':'' \<notin> set (sn_tenant s) \<and>
        registry_by_id (refresh_finish (Inr m) g) (sn_id s) = Some s"
      using nocolon[OF s(1)] s(2) unfolding ks by simp
  next
    fix e assume e: "e \<in> set (rm_by_id (rg_maps (refresh_finish (Inr m) g)))"
    obtain k s where ks: "e = (k, s)" by (cases e)
    have "(k, s) \<in> set (fold (\<lambda>r. jset (sn_id r) r) ys [])"
      using e unfolding ks refresh_finish_def by (simp add: maps fold_add_row_maps empty_maps_def)
    from fold_jset_values[OF this] show "case e of (i, s) \<Rightarrow> sn_id s = i" unfolding ks by simp
  qed
qed

text \<open>The statements of each route, one by one.\<close>

lemma other_kept_refl [simp]: "other_kept other sv sv"
  by (simp add: other_kept_def tenant_kept_def)

lemma other_kept_counted [simp]: "other_kept other (counted budget sv) sv' = other_kept other sv sv'"
  by (simp add: other_kept_def counted_def)

lemma other_kept_limits [simp]:
  "other_kept other sv (sv'\<lparr>sv_limits := l\<rparr>) = other_kept other sv sv'"
  "other_kept other (sv\<lparr>sv_limits := l\<rparr>) sv' = other_kept other sv sv'"
  by (simp_all add: other_kept_def)

lemma tenant_kept_same: "cd_commands db' = cd_commands db \<Longrightarrow> tenant_kept other db db'"
  by (simp add: tenant_kept_def)

lemma tenant_kept_trans: "tenant_kept u a b \<Longrightarrow> tenant_kept u b c \<Longrightarrow> tenant_kept u a c"
  by (simp add: tenant_kept_def)

lemma get_settings_other: "other \<noteq> tenant \<Longrightarrow> jget (cd_settings (snd (get_settings tenant db))) other = jget (cd_settings db) other"
  by (simp add: get_settings_def split: option.split)

lemma update_settings_other: "other \<noteq> tenant \<Longrightarrow> jget (cd_settings (snd (update_settings tenant p db))) other = jget (cd_settings db) other"
  using get_settings_other[of other tenant db]
  by (cases "get_settings tenant db") (simp add: update_settings_def Let_def)

lemma other_kept_control:
  assumes "tenant_kept other (sv_control sv) db" "jget (cd_settings db) other = jget (cd_settings (sv_control sv)) other"
  shows "other_kept other sv (sv\<lparr>sv_control := db\<rparr>)"
  using assms by (simp add: other_kept_def)

lemma issue_command_other:
  assumes "other \<noteq> tenant" "jget (cd_commands db) (ie_new_id e) = None"
  shows "tenant_kept other db (snd (issue_command tenant user q e db)) \<and>
    jget (cd_settings (snd (issue_command tenant user q e db))) other = jget (cd_settings db) other"
proof -
  obtain r db1 where j: "judge_request tenant user q e db = (r, db1)" by fastforce
  have db1: "cd_commands db1 = cd_commands db" using judge_request_commands[of tenant user q e db] j by simp
  have s1: "jget (cd_settings db1) other = jget (cd_settings db) other"
    using j get_settings_other[OF assms(1), of db] by (auto simp: judge_request_def Let_def split: option.splits if_splits sum.splits)
  show ?thesis
  proof (cases r)
    case (Inr p)
    let ?n = "order_of tenant user q p"
    have "tenant_kept other db1 (snd (insert_command (ie_building e) (ie_new_id e) (ie_insert_now e) ?n db1))"
      using assms db1 insert_command_rows(2)[of db1 "ie_new_id e" other ?n] by (simp add: order_of_def)
    moreover have "cd_settings (snd (insert_command (ie_building e) (ie_new_id e) (ie_insert_now e) ?n db1)) = cd_settings db1"
      by (cases rule: insert_command_cases[of "ie_building e" "ie_new_id e" "ie_insert_now e" ?n db1]) simp_all
    moreover have "snd (queue_order ?n e db1) = snd (insert_command (ie_building e) (ie_new_id e) (ie_insert_now e) ?n db1)"
      by (simp add: queue_order_def split: prod.split sum.split option.split)
    ultimately show ?thesis
      using j Inr db1 s1 tenant_kept_trans[OF tenant_kept_same[OF db1]] tenant_kept_same[OF db1] by (simp add: issue_command_def)
  qed (use j db1 s1 tenant_kept_same in \<open>simp add: issue_command_def\<close>)
qed

lemma recheck_other:
  assumes "other \<noteq> tenant"
  shows "tenant_kept other db (snd (snd (recheck detail tenant s env cs db))) \<and>
    cd_settings (snd (snd (recheck detail tenant s env cs db))) = cd_settings db"
proof (induction cs arbitrary: db)
  case (Cons e cs)
  obtain i c where e: "e = (i, c)" by (cases e) auto
  have "tenant_kept other db (release_command tenant i d db)" "cd_settings (release_command tenant i d db) = cd_settings db" for d
    using statement_tenant(3)[OF assms] by (simp_all add: release_command_def)
  then show ?case
    using Cons.IH tenant_kept_trans by (auto simp: e case_prod_beta split: sum.split) blast
qed (simp add: tenant_kept_def)

lemma claim_for_gateway_other:
  assumes "other \<noteq> tenant" "jwf (cd_commands db)"
  shows "tenant_kept other db (snd (snd (claim_for_gateway detail tenant gateway limit t u locked env db))) \<and>
    jget (cd_settings (snd (snd (claim_for_gateway detail tenant gateway limit t u locked env db)))) other = jget (cd_settings db) other"
proof -
  let ?db1 = "snd (expire_stale tenant t db)"
  let ?db2 = "snd (get_settings tenant ?db1)"
  let ?db3 = "snd (claim_commands tenant gateway limit u locked ?db2)"
  have k2: "tenant_kept other db ?db2" "jget (cd_settings ?db2) other = jget (cd_settings db) other"
    using tenant_kept_trans[OF statement_tenant(1)[OF assms(1)] tenant_kept_same[OF get_settings_commands]]
      get_settings_other[OF assms(1)] by simp_all
  have "jwf (cd_commands ?db2)" using assms(2) by simp
  then have k3: "tenant_kept other db ?db3" "cd_settings ?db3 = cd_settings ?db2"
    using tenant_kept_trans[OF k2(1) statement_tenant(2)[OF assms(1)]] by (simp_all add: claim_commands_db)
  show ?thesis
    using k2 k3(2) tenant_kept_trans[OF k3(1)] recheck_other[OF assms(1)]
    unfolding claim_for_gateway_unfold Let_def by auto
qed

lemma settle_settings: "cd_settings (snd (settle_command tenant i outcome d t db)) = cd_settings db"
  by (cases rule: settle_command_cases[of tenant i outcome d t db]) (simp_all add: supersede_def)

lemma acknowledge_other:
  assumes "other \<noteq> tenant" "al_tenant a = other"
  shows "jget (ad_alerts (snd (acknowledge_alert tenant i user now db))) j = Some a \<longleftrightarrow> jget (ad_alerts db) j = Some a"
  using assms by (auto simp: acknowledge_alert_def Let_def split: option.splits)

lemma acknowledge_notes: "ad_notes (snd (acknowledge_alert tenant i user now db)) = ad_notes db"
  by (simp add: acknowledge_alert_def Let_def split: option.splits)

lemma held_enqueue: "set (held_readings (enqueue now rs w)) \<subseteq> set (held_readings w) \<union> set rs"
proof -
  have shed: "set (wr_buffer (shed_oldest v)) \<subseteq> set (wr_buffer v)" "wr_flight (shed_oldest v) = wr_flight v" for v
    by (auto simp: shed_oldest_def Let_def dest: in_set_dropD)
  have starts: "set (held_readings (flush_begin now v)) \<subseteq> set (held_readings v)" for v
    by (auto simp: flush_begin_def held_readings_def)
  let ?w1 = "w\<lparr>wr_buffer := wr_buffer w @ rs, wr_touched := fold (\<lambda>r. touch (rd_tenant r) (rd_sensor r)) rs (wr_touched w)\<rparr>"
  have "set (held_readings (shed_oldest ?w1)) \<subseteq> set (held_readings w) \<union> set rs"
    using shed[of ?w1] by (auto simp: held_readings_def)
  then show ?thesis using starts[of "shed_oldest ?w1"] by (auto simp: enqueue_def Let_def)
qed

lemma retry_ids_maps: "rg_maps (snd (retry_ids tenant now ids g)) = rg_maps g"
proof (induction ids arbitrary: g)
  case (Cons i ids)
  have "rg_maps (snd (should_retry_unknown tenant i now g)) = rg_maps g"
    by (simp add: should_retry_unknown_def Let_def)
  then show ?case using Cons.IH by (simp add: case_prod_beta Let_def)
qed simp

lemma accepted_own:
  assumes "registry_indexed g" "CHR '':'' \<notin> set tenant" "r \<in> set (map snd (accepted_entries (judge_batch cfg g tenant now batch)))"
  shows "rd_tenant r = tenant"
  using assms(3) registry_indexedD(1)[OF assms(1) _ assms(2)]
  by (induction batch) (auto simp: judge_batch_def judge_raw_def owned_of_def Let_def split: option.splits if_splits)

lemma ingest_held:
  assumes "registry_indexed (pl_registry p)" "CHR '':'' \<notin> set tenant"
    and "r \<in> set (held_readings (pl_writer (snd (ingest_raw cfg tenant now batch p))))" "rd_tenant r \<noteq> tenant"
  shows "r \<in> set (held_readings (pl_writer p))"
proof -
  define l where "l = fold (ingest_one cfg (pl_registry p) tenant now) batch
      \<lparr>il_unknown = [], il_readings = [], il_flagged = 0, il_future = 0\<rparr>"
  have rs: "il_readings l = accepted_entries (judge_batch cfg (pl_registry p) tenant now batch)"
    using ingest_loop_spec(1)[OF l_def] by simp
  have "pl_writer (snd (ingest_raw cfg tenant now batch p)) = pl_writer (dispatch cfg now (il_readings l) p)"
    unfolding ingest_raw_def l_def[symmetric] by (simp add: Let_def case_prod_beta)
  then have "r \<in> set (held_readings (pl_writer p)) \<or> r \<in> set (map snd (il_readings l))"
    using assms(3) subsetD[OF held_enqueue, of r now "map snd (il_readings l)" "pl_writer p"]
    by (auto simp: dispatch_frame split: if_splits)
  then show ?thesis using assms(4) accepted_own[OF assms(1,2)] unfolding rs by blast
qed

text \<open>What the state and the request are taken to satisfy: the registry's maps agree, command ids are unique, the
  id a new command would get is unused, and a tenant's id, being a UUID, has no colon.\<close>

definition server_sound :: "http_env \<Rightarrow> string \<Rightarrow> server \<Rightarrow> bool" where
  "server_sound env tenant sv =
     (registry_indexed (pl_registry (sv_pipeline sv)) \<and> jwf (cd_commands (sv_control sv)) \<and>
      jget (cd_commands (sv_control sv)) (ie_new_id (he_issue env)) = None \<and> CHR '':'' \<notin> set tenant)"

lemma with_json_kept:
  assumes "\<And>j. other_kept other sv (snd (route j sv))"
  shows "other_kept other sv (snd (with_json env rq route sv))"
  using assms by (simp add: with_json_def split: sum.split)

lemma issue_kept:
  assumes "other \<noteq> pr_tenant p" "server_sound env (pr_tenant p) sv"
  shows "other_kept other sv (snd (route_issue env rq p sv))"
  using issue_command_other[OF assms(1), of "sv_control sv" "he_issue env"] assms(2)
  by (auto simp: route_issue_def server_sound_def case_prod_beta Let_def split: option.split
      intro!: with_json_kept other_kept_control)

lemma cancel_kept:
  assumes "other \<noteq> pr_tenant p" "server_sound env (pr_tenant p) sv"
  shows "other_kept other sv (snd (route_cancel env rq p sv))"
proof -
  have "other_kept other sv (sv\<lparr>sv_control := db\<rparr>)" if "cancel_command (pr_tenant p) i t (sv_control sv) = (r, db)" for i t r db
    using statement_tenant(5)[OF assms(1), of "sv_control sv" i t] that
    by (auto intro!: other_kept_control simp: cancel_command_def Let_def)
  then show ?thesis
    unfolding route_cancel_def by (intro with_json_kept) (auto split: option.split prod.split)
qed

lemma settings_kept:
  assumes "other \<noteq> pr_tenant p" "server_sound env (pr_tenant p) sv"
  shows "other_kept other sv (snd (route_get_settings p sv))" "other_kept other sv (snd (route_put_settings env rq p sv))"
proof -
  show "other_kept other sv (snd (route_get_settings p sv))"
    using get_settings_other[OF assms(1)]
    by (auto simp: route_get_settings_def case_prod_beta Let_def intro!: other_kept_control tenant_kept_same)
  have "other_kept other sv (sv\<lparr>sv_control := db\<rparr>)" if "update_settings (pr_tenant p) patch (sv_control sv) = (r, db)" for patch r db
    using update_settings_other[OF assms(1), of patch "sv_control sv"] update_settings_commands[of "pr_tenant p" patch "sv_control sv"] that
    by (intro other_kept_control tenant_kept_same) simp_all
  then show "other_kept other sv (snd (route_put_settings env rq p sv))"
    by (auto simp: route_put_settings_def split: option.split prod.split intro!: with_json_kept)
qed

lemma claim_kept:
  assumes "other \<noteq> pr_tenant p" "server_sound env (pr_tenant p) sv"
  shows "other_kept other sv (snd (route_claim env rq p sv))"
  using claim_for_gateway_other[OF assms(1), of "sv_control sv"] assms(2)
  by (auto simp: route_claim_def server_sound_def case_prod_beta Let_def intro!: with_json_kept other_kept_control)

lemma result_kept:
  assumes "other \<noteq> pr_tenant p" "server_sound env (pr_tenant p) sv"
  shows "other_kept other sv (snd (route_result env rq p sv))"
proof -
  have "other_kept other sv (sv\<lparr>sv_control := db\<rparr>)"
    if "report_result (pr_tenant p) i c d t (sv_control sv) = (r, db)" for i c d t r db
    using settle_command_tenant[OF assms(1), of "sv_control sv" i c d t] settle_settings[of "pr_tenant p" i c d t "sv_control sv"] that
    by (intro other_kept_control) (simp_all add: report_result_def)
  then show ?thesis
    unfolding route_result_def by (intro with_json_kept) (auto split: option.split prod.split)
qed

lemma ingest_kept:
  assumes "other \<noteq> pr_tenant p" "server_sound env (pr_tenant p) sv"
  shows "other_kept other sv (snd (route_ingest env rq p sv))"
proof -
  have "other_kept other sv (sv\<lparr>sv_limits := l, sv_pipeline := pl\<rparr>)"
    if "ingest_raw (he_pipeline env) (pr_tenant p) t batch (sv_pipeline sv) = (res, pl)" for l t batch res pl
    using assms ingest_held[of "sv_pipeline sv" "pr_tenant p" _ "he_pipeline env" t batch] that
    by (auto simp: other_kept_def server_sound_def tenant_kept_def)
  then show ?thesis
    by (auto simp: route_ingest_def with_json_def Let_def split: prod.split limit_result.split option.split sum.split)
qed

lemma sim_event_kept: "other_kept other sv (snd (route_sim_event env rq p sv))"
  unfolding route_sim_event_def
  by (rule with_json_kept) (auto simp: other_kept_def tenant_kept_def split: option.split)

lemma ack_kept:
  assumes "other \<noteq> pr_tenant p" "server_sound env (pr_tenant p) sv"
  shows "other_kept other sv (snd (route_ack env rq p sv))"
proof -
  have "other_kept other sv (sv\<lparr>sv_notify := (sv_notify sv)\<lparr>nw_db := db\<rparr>, sv_pipeline := (sv_pipeline sv)\<lparr>pl_fanout := f\<rparr>\<rparr>) \<and>
      other_kept other sv (sv\<lparr>sv_notify := (sv_notify sv)\<lparr>nw_db := db\<rparr>\<rparr>)"
    if "engine_acknowledge (pr_tenant p) i user t g (nw_db (sv_notify sv)) = (r, db)" for i user t g r db f
    using acknowledge_other[OF assms(1)] acknowledge_notes[of "pr_tenant p" i user t "nw_db (sv_notify sv)"] that
    by (auto simp: other_kept_def tenant_kept_def engine_acknowledge_def case_prod_beta Let_def)
  then show ?thesis
    unfolding route_ack_def by (intro with_json_kept) (auto split: option.split prod.split)
qed

lemma sensor_named_own:
  assumes "registry_indexed g" "sensor_named tenant j g = Some s" "CHR '':'' \<notin> set tenant"
  shows "sn_tenant s = tenant \<and> registry_by_id g (sn_id s) = Some s"
proof -
  have s: "sn_tenant s = tenant"
    using assms(2) by (auto simp: sensor_named_def Let_def split: option.splits if_splits)
  have "(\<exists>i. registry_by_id g i = Some s) \<or> (\<exists>e. registry_lookup g tenant e = Some s)"
    using assms(2) unfolding sensor_named_def Let_def by (auto split: option.splits if_splits)
  then show ?thesis using s registry_indexedD[OF assms(1)] assms(3) by auto
qed

lemma fault_kept:
  assumes "other \<noteq> pr_tenant p" "server_sound env (pr_tenant p) sv"
  shows "other_kept other sv (snd (route_fault env rq p sv))"
proof -
  have "other_kept other sv (sv\<lparr>sv_simulator := inject_fault (sn_id s) kind q t (sv_simulator sv)\<rparr>)"
    if "sensor_named (pr_tenant p) j (pl_registry (sv_pipeline sv)) = Some s" for j s kind q t
    using assms sensor_named_own[OF _ that] by (auto simp: other_kept_def server_sound_def tenant_kept_def inject_fault_def)
  then show ?thesis
    unfolding route_fault_def by (intro with_json_kept) (auto simp: Let_def split: option.split)
qed

lemma clear_fault_kept:
  assumes "other \<noteq> pr_tenant p" "server_sound env (pr_tenant p) sv"
  shows "other_kept other sv (snd (route_clear_fault rq p sv))"
proof -
  have "jget (filter (\<lambda>(j, f). map_option sn_tenant (registry_by_id g j) \<noteq> Some (pr_tenant p)) faults) i = jget faults i"
    if "registry_by_id g i = Some s" "sn_tenant s = other" for g and faults :: "(string, fault) jsmap" and i s
    using that assms(1) by (induction faults) auto
  then show ?thesis
    using assms by (auto simp: route_clear_fault_def clear_faults_for_def clear_fault_def Let_def other_kept_def tenant_kept_def)
qed

lemma keyed_route_kept:
  assumes "other \<noteq> pr_tenant p" "server_sound env (pr_tenant p) sv"
    and "(r, scope, route) \<in> set (keyed_routes env rq)" "r \<noteq> ''POST /internal/notify-sweep''"
  shows "other_kept other sv (snd (route p sv))"
proof -
  have reads: "snd (route_list_commands env p sv) = sv" "snd (route_alerts env rq p sv) = sv"
    by (simp_all add: route_list_commands_def route_alerts_def Let_def)
  show ?thesis
    using assms(3,4) reads issue_kept[OF assms(1,2)] cancel_kept[OF assms(1,2)] settings_kept[OF assms(1,2)]
      claim_kept[OF assms(1,2)] result_kept[OF assms(1,2)] ingest_kept[OF assms(1,2)] sim_event_kept ack_kept[OF assms(1,2)]
      fault_kept[OF assms(1,2)] clear_fault_kept[OF assms(1,2)]
    unfolding keyed_routes_def by (elim set_ConsD[elim_format] disjE; simp)
qed

text \<open>C3: A request touches its own tenant only: whichever keyed route it takes but the notification sweep, which
  is the service's own, the commands, the control settings, the alerts, the notifications and the injected
  faults of every other tenant stay as they are, and no reading is queued to be written in another tenant's name.\<close>
theorem request_keeps_other_tenants:
  assumes "map_of (keyed_routes env rq) (rq_route rq) = Some (scope, route)" "rq_route rq \<noteq> ''POST /internal/notify-sweep''"
    and "request_key env rq scope sv = (Inr p, budget)" "other \<noteq> pr_tenant p" "server_sound env (pr_tenant p) sv"
  shows "other_kept other sv (snd (handle_request env rq sv))"
proof (cases rule: handle_request_cases[of env rq sv])
  case none
  then show ?thesis by simp
next
  case (keyed scope' route')
  have "server_sound env (pr_tenant p) (counted budget sv)" using assms(5) by (simp add: server_sound_def counted_def)
  from keyed_route_kept[OF assms(4) this keyed_route_in[OF assms(1)] assms(2)]
  show ?thesis using keyed assms(1,3) by (simp add: with_key_cases)
qed

subsection \<open>A batch is taken whole or not at all\<close>

definition ingest_granted :: "http_env \<Rightarrow> principal \<Rightarrow> raw_reading list \<Rightarrow> server \<Rightarrow> bool" where
  "ingest_granted env p batch sv =
     (fst (take_tokens (he_now env) (key_of p) 1 (li_requests (sv_limits sv))) = LimitOk \<and>
      fst (take_tokens (he_now env) (pr_tenant p) (of_nat (length batch)) (li_readings (sv_limits sv))) = LimitOk)"

lemma read_chunks_status: "read_chunks limit got cs broken = Inl e \<Longrightarrow> fst e \<in> {400, 413}"
  by (induction limit got cs broken rule: read_chunks.induct) (auto split: if_splits sum.splits)

lemma read_json_status: "read_json env rq = Inl e \<Longrightarrow> fst e \<in> {400, 413}"
  by (auto simp: read_json_def dest: read_chunks_status split: sum.splits option.splits)

text \<open>C29: A batch is taken whole or not at all: either the request and all its readings fit the key's and the
  tenant's budgets, the answer is 202 and the pipeline is exactly what ingesting the batch makes of it, or the
  answer is one of the refusals and the pipeline is untouched.\<close>
theorem ingest_whole_or_refused:
  assumes "rq_route rq = ''POST /ingest''" "handle_request env rq sv = ((status, body), sv')"
  shows "(status = 202 \<and> (\<exists>p budget j batch res.
      request_key env rq IngestWrite sv = (Inr p, budget) \<and> read_json env rq = Inr j \<and> raw_batch_of j = Some batch \<and>
      ingest_granted env p batch sv \<and> body = HbIngest res \<and>
      ingest_raw (he_pipeline env) (pr_tenant p) (he_now env) batch (sv_pipeline sv) = (res, sv_pipeline sv'))) \<or>
    (status \<in> {400, 401, 403, 413, 429} \<and> sv_pipeline sv' = sv_pipeline sv)"
proof -
  have h: "handle_request env rq sv = with_key env rq IngestWrite (route_ingest env rq) sv"
    using assms(1) by (simp add: handle_request_def keyed_routes_def)
  obtain r budget where k: "request_key env rq IngestWrite sv = (r, budget)" by fastforce
  show ?thesis
  proof (cases r)
    case (Inl failure)
    then show ?thesis using assms(2) h k refuse_status[of failure] by (auto simp: with_key_cases counted_def)
  next
    case (Inr p)
    then have r: "route_ingest env rq p (counted budget sv) = ((status, body), sv')" using assms(2) h k by (simp add: with_key_cases)
    obtain q l where q: "take_tokens (he_now env) (key_of p) 1 (li_requests (sv_limits sv)) = (q, l)" by fastforce
    show ?thesis
    proof (cases "q = LimitOk \<and> (\<exists>j batch. read_json env rq = Inr j \<and> raw_batch_of j = Some batch \<and>
        fst (take_tokens (he_now env) (pr_tenant p) (of_nat (length batch)) (li_readings (sv_limits sv))) = LimitOk)")
      case True
      then obtain j batch m where "q = LimitOk" "read_json env rq = Inr j" "raw_batch_of j = Some batch"
        "take_tokens (he_now env) (pr_tenant p) (of_nat (length batch)) (li_readings (sv_limits sv)) = (LimitOk, m)"
        by (auto simp: prod_eq_iff)
      then show ?thesis
        using r q k Inr by (auto simp: route_ingest_def with_json_def counted_def ingest_granted_def Let_def split: prod.splits)
    next
      case False
      then show ?thesis
        using r q read_json_status[of env rq]
        by (fastforce simp: route_ingest_def with_json_def counted_def too_many_def
            split: limit_result.splits sum.splits option.splits prod.splits)
    qed
  qed
qed

subsection \<open>Findings\<close>

text \<open>A request rate below one every two seconds is accepted at boot and then refuses every batch: the burst is
  twice the rate, so less than the one token a request costs, and every authenticated request is answered
  429 with an hour to wait, however long the key has waited.\<close>
theorem slow_rate_refuses_all:
  assumes "create_limits c = Inr l" "rc_requests_per_s c < 1 / 2"
    and "lm_options (li_requests (sv_limits sv)) = lm_options (li_requests l)" "lm_inv t (li_requests (sv_limits sv))" "t \<le> he_now env"
    and "rq_route rq = ''POST /ingest''" "request_key env rq IngestWrite sv = (Inr p, budget)"
  shows "fst (handle_request env rq sv) = (429, HbRetry ''request rate exceeded for this key'' 3600)"
proof -
  let ?l = "li_requests (sv_limits sv)"
  have b: "burst (lm_options ?l) < 1"
    using assms(1,2) unfolding assms(3)
    by (auto simp: create_limits_def mk_limiter_def Let_def split: sum.splits if_splits)
  obtain r l' where q: "take_tokens (he_now env) (key_of p) 1 ?l = (r, l')" by fastforce
  note level = take_tokens_level[OF assms(4,5) _ refl q]
  have "r \<noteq> LimitOk"
    using level(4) b slot_level_burst[of "fst (bucket_for (he_now env) (key_of p) ?l)" "he_now env" ?l] by simp
  then have "r = LimitRefused RetryNever" using level(5) b by simp
  moreover have "handle_request env rq sv = with_key env rq IngestWrite (route_ingest env rq) sv"
    using assms(6) by (simp add: handle_request_def keyed_routes_def)
  ultimately show ?thesis using assms(7) q by (simp add: with_key_cases route_ingest_def counted_def too_many_def)
qed

text \<open>The schema of a command admits the two ends of the setpoint range, the table does not.\<close>

lemma range_end_is_a_server_error:
  assumes "setpoint_request_of j = Some q" "sq_setpoint q \<in> {-50, 60}" "\<not> sq_dry_run q"
    and "judge_request tenant user q e db = (Inr p, db1)"
  shows "fst (issue_response (fst (issue_command tenant user q e db))) = 500"
  using assms by (auto simp: issue_command_def queue_order_def insert_command_def command_check_def new_row_def order_of_def
      issue_response_def server_error_def)

subsection \<open>A sample service\<close>

definition sample_post :: "string \<Rightarrow> string list \<Rightarrow> http_request" where
  "sample_post route chunks = \<lparr>rq_route = route, rq_query = [], rq_headers = sample_headers ''dtw_abcdef'', rq_acting_user = None,
     rq_remote = Some ''10.0.0.2'', rq_forwarded = HNone, rq_chunks = chunks, rq_broken = False\<rparr>"

definition sample_json :: "string \<Rightarrow> json option" where
  "sample_json s = (if s = ''BATCH'' then Some (JObject [(''readings'', JArray [JObject [(''externalId'', JString ''KW''), (''value'', JNumber 5)]])]) else None)"

definition sample_http_env :: http_env where
  "sample_http_env = \<lparr>he_sha = sample_digest, he_identity = sample_identity_db, he_json = sample_json, he_now = 5000, he_db_now = 5000,
     he_max_body = 1000, he_hops = 0, he_pipeline = sample_cfg, he_grow = sample_grow, he_issue = sample_issue_env,
     he_members = sample_identity, he_list_limit = 10, he_claim_max = 10, he_claim_detail = \<lambda>_. ''withheld'', he_claim_now = 5000,
     he_claim_locked = [], he_recheck = \<lambda>_. sample_recheck_env, he_notify = sample_notify_cfg, he_delivery = \<lambda>_. sample_env,
     he_note_locked = [], he_tenants = [''t1''], he_alert_limit = 10, he_buffer_max = 100, he_sim_frame = \<lambda>_. ''{}'',
     he_ack_frame = \<lambda>_. ''{}'', he_uptime_s = Num 5, he_show = \<lambda>_. ''0'', he_summary_ok = \<lambda>_. True\<rparr>"

definition sample_limiter_of :: "rat \<Rightarrow> limiter" where
  "sample_limiter_of r = \<lparr>lm_options = \<lparr>rate_per_s = r, burst = r * 2, max_keys = 10\<rparr>, lm_buckets = [], lm_overflow = None,
     lm_refused = 0, lm_overflowed = 0\<rparr>"

definition sample_server :: "rat \<Rightarrow> server" where
  "sample_server r = \<lparr>sv_pipeline = sample_pipeline,
     sv_limits = \<lparr>li_auth_failures = sample_budget, li_requests = sample_limiter_of r, li_readings = sample_limiter_of 50,
       li_frames = sample_limiter_of 20\<rparr>,
     sv_control = sample_control_db,
     sv_notify = \<lparr>nw_db = empty_alert_db, nw_stats = \<lparr>ns_delivered = 0, ns_failed = 0, ns_blocked = 0, ns_skipped = 0\<rparr>, nw_sent = []\<rparr>,
     sv_simulator = \<lparr>sm_contexts = [], sm_state = [], sm_faults = [(''b2'', \<lparr>ft_kind = Drift, ft_magnitude = 1, ft_started_at = 0\<rparr>)],
       sm_emitted = 0\<rparr>\<rparr>"

lemmas sample_key_eval = request_key_def authenticate_def exhausted_def sample_http_env_def sample_server_def sample_post_def
  client_address_def sample_budget_def extract_key_def sample_headers_def resolve_api_key_def sample_identity_db_def sample_digest_def
  key_usable_def first_row_def

lemma sample_request_key:
  "request_key sample_http_env (sample_post route chunks) IngestWrite (sample_server r) =
     (Inr (ApiKeyPrincipal ''t1'' ''k1'' DeviceKey [''ingest:write'']), sample_budget)"
  by (simp add: sample_key_eval)

lemma sample_first_request: "r \<ge> 1 \<Longrightarrow> take_tokens 5000 k 1 (sample_limiter_of r) = (LimitOk, snd (take_tokens 5000 k 1 (sample_limiter_of r)))"
  by (simp add: prod_eq_iff take_tokens_def bucket_for_def bucket_full_map_def sample_limiter_of_def slot_tokens_def full_bucket_def Let_def)

theorem changes_need_a_key_witness:
  "\<exists>scope route key k. map_of (keyed_routes sample_http_env (sample_post ''DELETE /simulator/fault'' [])) ''DELETE /simulator/fault'' = Some (scope, route) \<and>
    extract_key (sample_headers ''dtw_abcdef'') = Some key \<and> k \<in> set (db_api_keys sample_identity_db) \<and> ak_hash k = sample_digest key \<and>
    key_usable 5000 sample_identity_db k \<and> scope_name scope \<in> set (ak_scopes k)"
proof -
  let ?sv' = "(counted sample_budget (sample_server 50))\<lparr>sv_simulator := (sv_simulator (sample_server 50))\<lparr>sm_faults := []\<rparr>\<rparr>"
  have "handle_request sample_http_env (sample_post ''DELETE /simulator/fault'' []) (sample_server 50) = ((200, HbClearedAll), ?sv')"
    using sample_request_key[of "''DELETE /simulator/fault''" "[]" 50]
    by (simp add: handle_request_def keyed_routes_def sample_post_def with_key_cases route_clear_fault_def truthy_def counted_def
        sample_server_def clear_faults_for_def registry_by_id_def pipeline_eval Let_def)
  from changes_need_a_key[OF this] show ?thesis
    by (simp add: counted_def sample_server_def sample_post_def sample_http_env_def)
qed

lemma sample_registry_indexed: "registry_indexed (pl_registry sample_pipeline)"
  by (simp add: registry_indexed_def registry_by_id_def pipeline_eval)

theorem request_keeps_other_tenants_witness:
  "other_kept ''t2'' (sample_server 50) (snd (handle_request sample_http_env (sample_post ''POST /ingest'' [''BATCH'']) (sample_server 50)))"
proof (rule request_keeps_other_tenants[where scope = IngestWrite and p = "ApiKeyPrincipal ''t1'' ''k1'' DeviceKey [''ingest:write'']"])
  show "server_sound sample_http_env (pr_tenant (ApiKeyPrincipal ''t1'' ''k1'' DeviceKey [''ingest:write''])) (sample_server 50)"
    using sample_registry_indexed by (simp add: server_sound_def sample_server_def sample_control_db_def)
qed (simp_all add: sample_request_key, simp_all add: sample_post_def keyed_routes_def)

theorem slow_rate_refuses_all_witness:
  "fst (handle_request sample_http_env (sample_post ''POST /ingest'' [''BATCH'']) (sample_server (1 / 3))) =
     (429, HbRetry ''request rate exceeded for this key'' 3600)"
proof (rule slow_rate_refuses_all[where t = 0])
  let ?c = "\<lparr>rc_requests_per_s = 1 / 3, rc_readings_per_s = 50, rc_readings_burst = 10000, rc_auth_failures_per_min = 30,
    rc_auth_failures_burst = 20, rc_frames_per_s = 20, rc_max_keys = 10\<rparr>"
  show "create_limits ?c = Inr (case create_limits ?c of Inr l \<Rightarrow> l)" "rc_requests_per_s ?c < 1 / 2"
    "lm_options (li_requests (sv_limits (sample_server (1 / 3)))) = lm_options (li_requests (case create_limits ?c of Inr l \<Rightarrow> l))"
    by (simp_all add: create_limits_def mk_limiter_def sample_server_def sample_limiter_of_def)
qed (simp_all add: sample_request_key, simp_all add: sample_post_def sample_server_def sample_limiter_of_def lm_inv_def sample_http_env_def)

definition sample_one_reading :: "raw_reading list" where
  "sample_one_reading = [\<lparr>rw_external_id = ''KW'', rw_ts = None, rw_value = Num 5, rw_quality = None\<rparr>]"

lemma sample_body: "read_json sample_http_env (sample_post route [''BA'', ''TCH'']) = Inr (the (sample_json ''BATCH''))"
  "raw_batch_of (the (sample_json ''BATCH'')) = Some sample_one_reading"
  by (simp_all add: read_json_def sample_http_env_def sample_post_def sample_json_def raw_batch_of_def raw_reading_of_def
      jfield_def json_required_def json_optional_def checked_def json_string_def json_number_def max_batch_readings_def sample_one_reading_def)

theorem ingest_whole_or_refused_witness:
  "\<exists>res. fst (handle_request sample_http_env (sample_post ''POST /ingest'' [''BA'', ''TCH'']) (sample_server 50)) = (202, HbIngest res) \<and>
    ingest_raw sample_cfg ''t1'' 5000 sample_one_reading sample_pipeline =
      (res, sv_pipeline (snd (handle_request sample_http_env (sample_post ''POST /ingest'' [''BA'', ''TCH'']) (sample_server 50))))"
proof -
  let ?rq = "sample_post ''POST /ingest'' [''BA'', ''TCH'']"
  let ?p = "ApiKeyPrincipal ''t1'' ''k1'' DeviceKey [''ingest:write'']"
  have rt: "rq_route ?rq = ''POST /ingest''" by (simp add: sample_post_def)
  obtain l m where lm: "take_tokens 5000 ''k1'' 1 (sample_limiter_of 50) = (LimitOk, l)"
    "take_tokens 5000 ''t1'' 1 (sample_limiter_of 50) = (LimitOk, m)" using sample_first_request[of 50 "''k1''"] sample_first_request[of 50 "''t1''"] by simp
  have h: "handle_request sample_http_env ?rq (sample_server 50) = route_ingest sample_http_env ?rq ?p (counted sample_budget (sample_server 50))"
    using rt by (simp add: handle_request_def keyed_routes_def with_key_cases sample_request_key)
  have f: "fst (handle_request sample_http_env ?rq (sample_server 50)) = (202, HbIngest (fst (ingest_raw sample_cfg ''t1'' 5000 sample_one_reading sample_pipeline)))"
    unfolding h using lm sample_body by (simp add: route_ingest_def with_json_def counted_def sample_server_def sample_http_env_def
        key_of_def sample_one_reading_def case_prod_beta Let_def)
  then have "handle_request sample_http_env ?rq (sample_server 50) =
      ((202, HbIngest (fst (ingest_raw sample_cfg ''t1'' 5000 sample_one_reading sample_pipeline))),
       snd (handle_request sample_http_env ?rq (sample_server 50)))" by (simp add: prod_eq_iff)
  from ingest_whole_or_refused[OF rt this] show ?thesis
    using f sample_body by (auto simp: sample_request_key) (simp_all add: sample_http_env_def sample_server_def)
qed

end
