(* ===== verification/Ws_Session.thy ===== *)
theory Ws_Session
  imports Fanout Auth
begin

section \<open>The WebSocket side of the ingest service (apps/ingest/src/server.ts)\<close>

text \<open>
  One handler per connection: it starts with no tenant and a deadline, may only authenticate and ping
  until a ticket is accepted, and is rationed by frames. Arguments: the JSON parser, the MAC and the ticket's
  parser, the signing secret, the fan-out's guard and the growth of a socket's backlog. A reply is recorded when
  the socket is open; the sockets live in the fan-out, and a connection it no longer holds has been closed.
  An exception in the handler has no catcher: the step gives \<open>Inl\<close>.
\<close>

subsection \<open>Client frames (\<open>ClientMessage\<close>)\<close>

datatype client_message =
    CmAuth string
  | CmSubscribe "topic list"
  | CmUnsubscribe "topic list"
  | CmPing int

text \<open>An array of one to 64 topics.\<close>

definition json_topics :: "json option \<Rightarrow> topic list option" where
  "json_topics j =
     (case j of
        Some (JArray js) \<Rightarrow>
          (case all_some (map json_string js) of
             Some ts \<Rightarrow> if list_all topic_ok ts \<and> 1 \<le> length ts \<and> length ts \<le> 64 then Some ts else None
           | None \<Rightarrow> None)
      | _ \<Rightarrow> None)"

definition client_message_of :: "json \<Rightarrow> client_message option" where
  "client_message_of j =
     (case jfield j ''type'' of
        Some (JString kind) \<Rightarrow>
          (if kind = ''auth'' then
             (case jfield j ''ticket'' of Some (JString t) \<Rightarrow> if 1 \<le> length t then Some (CmAuth t) else None | _ \<Rightarrow> None)
           else if kind = ''subscribe'' then map_option CmSubscribe (json_topics (jfield j ''topics''))
           else if kind = ''unsubscribe'' then map_option CmUnsubscribe (json_topics (jfield j ''topics''))
           else if kind = ''ping'' then
             (case jfield j ''ts'' of Some (JNumber n) \<Rightarrow> if of_int \<lfloor>n\<rfloor> = n then Some (CmPing \<lfloor>n\<rfloor>) else None | _ \<Rightarrow> None)
           else None)
      | _ \<Rightarrow> None)"

definition parse_client_message :: "(string \<Rightarrow> json option) \<Rightarrow> string \<Rightarrow> client_message option" where
  "parse_client_message json_parse raw =
     (case json_parse raw of None \<Rightarrow> None | Some j \<Rightarrow> client_message_of j)"

subsection \<open>A connection\<close>

datatype server_reply =
    RpError string
  | RpAuthenticated string
  | RpPong int
  | RpSubscribed "topic list"
  | RpDenied "topic list"

record ws_session =
  se_tenant :: "string option"
  se_deadline :: bool
  se_replies :: "server_reply list"
  se_closes :: "int list"

record ws_world =
  wv_fanout :: fanout
  wv_frames :: limiter
  wv_sessions :: "(string, ws_session) jsmap"

record ws_env =
  we_json :: "string \<Rightarrow> json option"
  we_hmac :: "string \<Rightarrow> string \<Rightarrow> octet list"
  we_ticket :: "octet list \<Rightarrow> ws_ticket option"
  we_secret :: "string option"
  we_may :: "string \<Rightarrow> topic \<Rightarrow> bool"
  we_grow :: "string \<Rightarrow> payload \<Rightarrow> int"
  we_max_connections :: nat

definition new_session :: ws_session where
  "new_session = \<lparr>se_tenant = None, se_deadline = True, se_replies = [], se_closes = []\<rparr>"

definition put_session :: "string \<Rightarrow> ws_session \<Rightarrow> ws_world \<Rightarrow> ws_world" where
  "put_session i s w = w\<lparr>wv_sessions := jset i s (wv_sessions w)\<rparr>"

definition socket_open :: "string \<Rightarrow> ws_world \<Rightarrow> bool" where
  "socket_open i w = (case jget (fo_subscribers (wv_fanout w)) i of Some s \<Rightarrow> sb_ready s = sock_open | None \<Rightarrow> False)"

definition ws_reply :: "string \<Rightarrow> server_reply \<Rightarrow> ws_world \<Rightarrow> ws_world" where
  "ws_reply i r w =
     (case jget (wv_sessions w) i of
        Some s \<Rightarrow> if socket_open i w then put_session i (s\<lparr>se_replies := se_replies s @ [r]\<rparr>) w else w
      | None \<Rightarrow> w)"

text \<open>\<open>close()\<close> without a code is recorded as 1005, the code the peer then sees.\<close>

definition ws_close :: "string \<Rightarrow> int \<Rightarrow> ws_world \<Rightarrow> ws_world" where
  "ws_close i code w =
     (case jget (wv_sessions w) i of
        Some s \<Rightarrow> put_session i (s\<lparr>se_closes := se_closes s @ [code]\<rparr>) w
      | None \<Rightarrow> w)"

definition ws_connect :: "string \<Rightarrow> ws_world \<Rightarrow> ws_world" where
  "ws_connect i w = put_session i new_session (w\<lparr>wv_fanout := fo_add i new_subscriber (wv_fanout w)\<rparr>)"

definition ws_deadline :: "string \<Rightarrow> ws_world \<Rightarrow> ws_world" where
  "ws_deadline i w =
     (case jget (wv_sessions w) i of
        Some s \<Rightarrow>
          if \<not> se_deadline s then w
          else let w1 = put_session i (s\<lparr>se_deadline := False\<rparr>) w in
               if truthy (se_tenant s) then w1 else ws_close i 1005 (ws_reply i (RpError ''auth_timeout'') w1)
      | None \<Rightarrow> w)"

definition ws_accept :: "string \<Rightarrow> string \<Rightarrow> ws_world \<Rightarrow> ws_world" where
  "ws_accept i tenant w =
     (case jget (wv_sessions w) i of
        Some s \<Rightarrow>
          ws_reply i (RpAuthenticated tenant)
            ((put_session i (s\<lparr>se_tenant := Some tenant, se_deadline := False\<rparr>) w)
               \<lparr>wv_fanout := snd (fo_authenticate i tenant (wv_fanout w))\<rparr>)
      | None \<Rightarrow> w)"

definition ws_auth :: "ws_env \<Rightarrow> ms \<Rightarrow> string \<Rightarrow> string \<Rightarrow> ws_world \<Rightarrow> string + ws_world" where
  "ws_auth env now i ticket w =
     (case verify_ticket (we_hmac env) (we_ticket env) (we_secret env) now ticket of
        Inl e \<Rightarrow> Inl e
      | Inr None \<Rightarrow> Inr (ws_close i 1005 (ws_reply i (RpError ''auth_failed'') w))
      | Inr (Some t) \<Rightarrow>
          if connections_for (tk_tenant t) (wv_fanout w) \<ge> we_max_connections env
          then Inr (ws_close i 1013 (ws_reply i (RpError ''too_many_connections'') w))
          else Inr (ws_accept i (tk_tenant t) w))"

definition ws_subscribe :: "ws_env \<Rightarrow> string \<Rightarrow> topic list \<Rightarrow> ws_world \<Rightarrow> ws_world" where
  "ws_subscribe env i ts w =
     (let ((accepted, denied), f) = fo_subscribe (we_may env) i ts (wv_fanout w);
          w1 = ws_reply i (RpSubscribed accepted) (w\<lparr>wv_fanout := f\<rparr>)
      in if 0 < length denied then ws_reply i (RpDenied denied) w1 else w1)"

definition ws_unsubscribe :: "string \<Rightarrow> topic list \<Rightarrow> ws_world \<Rightarrow> ws_world" where
  "ws_unsubscribe i ts w =
     (let (held, f) = fo_unsubscribe i ts (wv_fanout w) in ws_reply i (RpSubscribed held) (w\<lparr>wv_fanout := f\<rparr>))"

definition ws_message :: "ws_env \<Rightarrow> ms \<Rightarrow> string \<Rightarrow> ws_session \<Rightarrow> client_message \<Rightarrow> ws_world \<Rightarrow> string + ws_world" where
  "ws_message env now i s m w =
     (case m of
        CmAuth ticket \<Rightarrow> ws_auth env now i ticket w
      | CmPing ts \<Rightarrow> Inr (ws_reply i (RpPong ts) w)
      | CmSubscribe ts \<Rightarrow>
          Inr (if \<not> truthy (se_tenant s) then ws_reply i (RpError ''unauthenticated'') w else ws_subscribe env i ts w)
      | CmUnsubscribe ts \<Rightarrow>
          Inr (if \<not> truthy (se_tenant s) then ws_reply i (RpError ''unauthenticated'') w else ws_unsubscribe i ts w))"

definition ws_frame :: "ws_env \<Rightarrow> ms \<Rightarrow> string \<Rightarrow> string \<Rightarrow> ws_world \<Rightarrow> string + ws_world" where
  "ws_frame env now i raw w =
     (case jget (wv_sessions w) i of
        None \<Rightarrow> Inr w
      | Some s \<Rightarrow>
          let (grant, l) = take_tokens now i 1 (wv_frames w); w1 = w\<lparr>wv_frames := l\<rparr> in
          if grant \<noteq> LimitOk then Inr (ws_close i 1008 (ws_reply i (RpError ''rate_limited'') w1))
          else (case parse_client_message (we_json env) raw of
              None \<Rightarrow> Inr (ws_reply i (RpError ''bad_message'') w1)
            | Some m \<Rightarrow> ws_message env now i s m w1))"

text \<open>\<open>cleanup\<close>, on close and on error.\<close>

definition ws_cleanup :: "string \<Rightarrow> ws_world \<Rightarrow> ws_world" where
  "ws_cleanup i w =
     (case jget (wv_sessions w) i of
        Some s \<Rightarrow> (put_session i (s\<lparr>se_deadline := False\<rparr>) w)\<lparr>wv_fanout := fo_remove i (wv_fanout w)\<rparr>
      | None \<Rightarrow> w)"

subsection \<open>Events\<close>

text \<open>What can happen to the sockets. The last event stands for what the pipeline and the network do to the
  fan-out: publishing, sending, the tick, and the state of a socket.\<close>

datatype ws_event =
    WsConnect string
  | WsFrame ms string string
  | WsDeadline string
  | WsClosed string
  | WsFanout fanout_event

fun pipeline_event :: "fanout_event \<Rightarrow> bool" where
  "pipeline_event (EvPublish s r) = True"
| "pipeline_event (EvSend t m must) = True"
| "pipeline_event (EvTick now) = True"
| "pipeline_event (EvSocket i ready buffered) = True"
| "pipeline_event _ = False"

text \<open>Connections get fresh ids.\<close>

fun ws_possible :: "ws_event \<Rightarrow> ws_world \<Rightarrow> bool" where
  "ws_possible (WsConnect i) w = (jget (wv_sessions w) i = None)"
| "ws_possible (WsFanout ev) w = pipeline_event ev"
| "ws_possible _ w = True"

fun ws_step :: "ws_env \<Rightarrow> ws_event \<Rightarrow> ws_world \<Rightarrow> string + ws_world" where
  "ws_step env (WsConnect i) w = Inr (ws_connect i w)"
| "ws_step env (WsFrame now i raw) w = ws_frame env now i raw w"
| "ws_step env (WsDeadline i) w = Inr (ws_deadline i w)"
| "ws_step env (WsClosed i) w = Inr (ws_cleanup i w)"
| "ws_step env (WsFanout ev) w = Inr (w\<lparr>wv_fanout := fo_step (we_grow env) (we_may env) ev (wv_fanout w)\<rparr>)"

definition ws_start :: "int \<Rightarrow> limiter \<Rightarrow> ws_world" where
  "ws_start buffer_max frames = \<lparr>wv_fanout = mk_fanout buffer_max, wv_frames = frames, wv_sessions = []\<rparr>"

inductive ws_reach :: "ws_env \<Rightarrow> ws_world \<Rightarrow> ws_world \<Rightarrow> bool" for env :: ws_env and w0 :: ws_world where
  start: "ws_reach env w0 w0"
| step: "ws_reach env w0 w \<Longrightarrow> ws_possible ev w \<Longrightarrow> ws_step env ev w = Inr w' \<Longrightarrow> ws_reach env w0 w'"

subsection \<open>Who the connections belong to\<close>

definition owners :: "(string, subscriber) jsmap \<Rightarrow> (string, string option) jsmap" where
  "owners m = map (\<lambda>(i, s). (i, sb_tenant s)) m"

abbreviation tenants :: "fanout \<Rightarrow> (string, string option) jsmap" where
  "tenants f \<equiv> owners (fo_subscribers f)"

definition held_by :: "string \<Rightarrow> (string, string option) jsmap \<Rightarrow> nat" where
  "held_by t ts = length (filter (\<lambda>(i, v). v = Some t) ts)"

lemma connections_tenants: "connections_for t f = held_by t (tenants f)"
  by (simp add: connections_for_def held_by_def owners_def filter_map comp_def case_prod_beta)

lemma jget_owners: "jget (owners m) i = map_option sb_tenant (jget m i)"
  by (simp add: owners_def jget_map_values)

lemma jset_same: "jget m k = Some v \<Longrightarrow> jset k v m = m"
  by (induction m) auto

lemma owners_jset: "owners (jset i s m) = jset i (sb_tenant s) (owners m)"
  by (induction m) (auto simp: owners_def)

lemma owners_same: "jget m i = Some s \<Longrightarrow> jset i (sb_tenant s) (owners m) = owners m"
  by (simp add: jset_same jget_owners)

lemma owners_jdel: "owners (jdel i m) = jdel i (owners m)"
  by (induction m) (auto simp: owners_def)

lemmas owners_simps = owners_jset owners_same owners_jdel

lemma tenants_deliver_one: "tenants (deliver_one grow p must i f) = tenants f"
  by (simp add: deliver_one_def owners_simps split: option.split)

lemma tenants_deliver: "tenants (fo_deliver grow ids p must f) = tenants f"
  unfolding fo_deliver_def by (induction ids arbitrary: f) (simp_all add: tenants_deliver_one)

lemma tenants_send: "tenants (fo_send grow t m must f) = tenants f"
  by (simp add: fo_send_def tenants_deliver split: option.split)

lemma tenants_tick: "tenants (fo_tick grow now f) = tenants f"
proof -
  have one: "tenants (tick_one grow now e f) = tenants f" for e f
    by (cases e) (simp add: tick_one_def Let_def tenants_deliver split: option.split)
  have "tenants (fold (tick_one grow now) es f) = tenants f" for es f
    by (induction es arbitrary: f) (simp_all add: one)
  then show ?thesis by (simp add: fo_tick_def)
qed

lemma tenants_put_topics: "tenants (put_topics i h f) = tenants f"
  by (simp add: put_topics_def owners_simps split: option.split)

lemma tenants_subscribe: "tenants (snd (fo_subscribe may i ts f)) = tenants f"
proof -
  have "tenants (snd (subscribe_all may i t ts d f)) = tenants f" for t d
    by (induction may i t ts d f rule: subscribe_all.induct) (simp_all add: tenants_put_topics)
  then show ?thesis by (simp add: fo_subscribe_def Let_def case_prod_unfold split: option.split)
qed

lemma tenants_unsubscribe: "tenants (snd (fo_unsubscribe i ts f)) = tenants f"
proof -
  have "tenants (fold (\<lambda>t g. (put_topics i (removeAll t) g)\<lparr>fo_by_topic := leave_topic i t (fo_by_topic g)\<rparr>) ts f) = tenants f"
    by (induction ts arbitrary: f) (simp_all add: tenants_put_topics)
  then show ?thesis by (simp add: fo_unsubscribe_def Let_def split: option.split)
qed

lemma tenants_pipeline: "pipeline_event ev \<Longrightarrow> tenants (fo_step grow may ev f) = tenants f"
  by (cases ev) (simp_all add: tenants_send tenants_tick owners_simps split: option.split)

lemma tenants_authenticate:
  "tenants (snd (fo_authenticate i t f)) = (if jget (fo_subscribers f) i = None then tenants f else jset i (Some t) (tenants f))"
  by (simp add: fo_authenticate_def owners_jset split: option.split)

lemma tenants_add: "tenants (fo_add i s f) = jset i (sb_tenant s) (tenants f)"
  by (simp add: fo_add_def owners_jset)

lemma tenants_remove: "tenants (fo_remove i f) = jdel i (tenants f)"
proof (cases "jget (fo_subscribers f) i")
  case None
  then have "jget (tenants f) i = None" by (simp add: jget_owners)
  then have "i \<notin> fst ` set (tenants f)" by (simp only: jget_None_iff not_False_eq_True)
  then show ?thesis using None by (simp add: fo_remove_def delete_idem)
qed (simp add: fo_remove_def owners_jdel)

lemma held_by_jset: "held_by t (jset i v ts) \<le> held_by t ts + (if v = Some t then 1 else 0)"
  by (induction ts) (auto simp: held_by_def)

lemma held_by_jdel: "held_by t (jdel i ts) \<le> held_by t ts"
  by (induction ts) (auto simp: held_by_def)

subsection \<open>Steps of the server are steps of the fan-out\<close>

definition tenant_of_session :: "ws_world \<Rightarrow> string \<Rightarrow> string option option" where
  "tenant_of_session w i = map_option se_tenant (jget (wv_sessions w) i)"

lemma put_session_simps [simp]:
  "wv_fanout (put_session i s w) = wv_fanout w"
  "tenant_of_session (put_session i s w) j = (if j = i then Some (se_tenant s) else tenant_of_session w j)"
  by (simp_all add: put_session_def tenant_of_session_def)

lemma tenant_of_session_updates [simp]:
  "tenant_of_session (w\<lparr>wv_fanout := f\<rparr>) j = tenant_of_session w j"
  "tenant_of_session (w\<lparr>wv_frames := l\<rparr>) j = tenant_of_session w j"
  by (simp_all add: tenant_of_session_def)

lemma ws_reply_simps [simp]:
  "wv_fanout (ws_reply i r w) = wv_fanout w" "tenant_of_session (ws_reply i r w) j = tenant_of_session w j"
  by (auto simp: ws_reply_def tenant_of_session_def put_session_def split: option.split)

lemma ws_close_simps [simp]:
  "wv_fanout (ws_close i c w) = wv_fanout w" "tenant_of_session (ws_close i c w) j = tenant_of_session w j"
  by (auto simp: ws_close_def tenant_of_session_def put_session_def split: option.split)

lemma ws_deadline_simps [simp]:
  "wv_fanout (ws_deadline i w) = wv_fanout w" "tenant_of_session (ws_deadline i w) j = tenant_of_session w j"
  by (auto simp: ws_deadline_def Let_def tenant_of_session_def[of w] split: option.split)

text \<open>The tenant the fan-out has for a connection is the one its handler has.\<close>

definition ws_linked :: "ws_world \<Rightarrow> bool" where
  "ws_linked w = (\<forall>i v. jget (tenants (wv_fanout w)) i = Some v \<longrightarrow> tenant_of_session w i = Some v)"

lemma ws_linkedI:
  assumes "ws_linked w" "tenants (wv_fanout w') = tenants (wv_fanout w)" "\<And>i. tenant_of_session w' i = tenant_of_session w i"
  shows "ws_linked w'"
  using assms by (simp add: ws_linked_def)

text \<open>What one step does to the fan-out: one of the fan-out's own events, or nothing.\<close>

fun server_event :: "ws_env \<Rightarrow> fanout_event \<Rightarrow> fanout \<Rightarrow> bool" where
  "server_event env (EvAuth i t) f = (connections_for t f < we_max_connections env)"
| "server_event env ev f = fo_fresh ev f"

lemma ws_frame_cases:
  assumes "ws_frame env now i raw w = Inr w'"
  obtains (same) "wv_fanout w' = wv_fanout w" "\<And>j. tenant_of_session w' j = tenant_of_session w j"
  | (accept) t where "connections_for t (wv_fanout w) < we_max_connections env"
      "wv_fanout w' = snd (fo_authenticate i t (wv_fanout w))" "jget (wv_sessions w) i \<noteq> None"
      "\<And>j. tenant_of_session w' j = (if j = i then Some (Some t) else tenant_of_session w j)"
  | (topics) ts where "wv_fanout w' = snd (fo_subscribe (we_may env) i ts (wv_fanout w)) \<or>
        wv_fanout w' = snd (fo_unsubscribe i ts (wv_fanout w))"
      "\<And>j. tenant_of_session w' j = tenant_of_session w j"
proof (cases "jget (wv_sessions w) i")
  case None
  then show ?thesis using assms by (intro same) (simp_all add: ws_frame_def)
next
  case (Some s)
  obtain g l where g: "take_tokens now i 1 (wv_frames w) = (g, l)" by fastforce
  let ?w = "w\<lparr>wv_frames := l\<rparr>"
  show ?thesis
  proof (cases "g \<noteq> LimitOk \<or> parse_client_message (we_json env) raw = None")
    case True
    then show ?thesis using assms Some g by (intro same) (auto simp: ws_frame_def Let_def split: if_splits option.splits)
  next
    case False
    then obtain m where m: "ws_message env now i s m ?w = Inr w'"
      using assms Some g by (auto simp: ws_frame_def Let_def)
    show ?thesis
    proof (cases m)
      case (CmAuth ticket)
      show ?thesis
      proof (cases "\<exists>t. verify_ticket (we_hmac env) (we_ticket env) (we_secret env) now ticket = Inr (Some t) \<and>
          \<not> connections_for (tk_tenant t) (wv_fanout w) \<ge> we_max_connections env")
        case True
        then obtain t where t: "verify_ticket (we_hmac env) (we_ticket env) (we_secret env) now ticket = Inr (Some t)"
          "\<not> connections_for (tk_tenant t) (wv_fanout w) \<ge> we_max_connections env" by blast
        have "w' = ws_accept i (tk_tenant t) ?w" using m CmAuth t by (simp add: ws_message_def ws_auth_def)
        then show ?thesis using Some t(2) by (intro accept[of "tk_tenant t"]) (simp_all add: ws_accept_def)
      next
        case False
        then show ?thesis
          using m CmAuth by (intro same) (auto simp: ws_message_def ws_auth_def split: sum.splits option.splits if_splits)
      qed
    next
      case (CmSubscribe ts)
      show ?thesis
      proof (cases "truthy (se_tenant s)")
        case True
        then show ?thesis
          using m CmSubscribe
          by (intro topics[of ts]) (auto simp: ws_message_def ws_subscribe_def Let_def case_prod_unfold)
      next
        case False
        then show ?thesis using m CmSubscribe by (intro same) (auto simp: ws_message_def)
      qed
    next
      case (CmUnsubscribe ts)
      show ?thesis
      proof (cases "truthy (se_tenant s)")
        case True
        then show ?thesis
          using m CmUnsubscribe
          by (intro topics[of ts]) (auto simp: ws_message_def ws_unsubscribe_def Let_def case_prod_unfold)
      next
        case False
        then show ?thesis using m CmUnsubscribe by (intro same) (auto simp: ws_message_def)
      qed
    next
      case (CmPing ts)
      then show ?thesis using m by (intro same) (auto simp: ws_message_def)
    qed
  qed
qed

lemma ws_step_inv:
  assumes "ws_step env ev w = Inr w'" "ws_possible ev w" "ws_linked w"
  shows "ws_linked w' \<and> (wv_fanout w' = wv_fanout w \<or>
    (\<exists>fev. wv_fanout w' = fo_step (we_grow env) (we_may env) fev (wv_fanout w) \<and> fo_fresh fev (wv_fanout w) \<and>
       server_event env fev (wv_fanout w)))"
proof (cases ev)
  case (WsConnect i)
  have new: "jget (fo_subscribers (wv_fanout w)) i = None"
  proof (rule ccontr)
    assume "jget (fo_subscribers (wv_fanout w)) i \<noteq> None"
    then obtain v where "jget (tenants (wv_fanout w)) i = Some v" by (auto simp: jget_owners)
    then have "tenant_of_session w i = Some v" using assms(3) by (simp add: ws_linked_def)
    then show False using assms(2) WsConnect by (simp add: tenant_of_session_def)
  qed
  have w': "w' = ws_connect i w" using assms(1) WsConnect by simp
  then have "wv_fanout w' = fo_step (we_grow env) (we_may env) (EvAdd i) (wv_fanout w)" by (simp add: ws_connect_def)
  moreover have "ws_linked w'"
    using assms(3) by (auto simp: w' ws_connect_def ws_linked_def tenants_add new_subscriber_def new_session_def)
  ultimately show ?thesis using new by (intro conjI disjI2 exI[of _ "EvAdd i"]) simp_all
next
  case (WsFrame now i raw)
  then have "ws_frame env now i raw w = Inr w'" using assms(1) by simp
  then show ?thesis
  proof (cases rule: ws_frame_cases)
    case same
    then show ?thesis using ws_linkedI[OF assms(3)] by simp
  next
    case (accept t)
    then have "wv_fanout w' = fo_step (we_grow env) (we_may env) (EvAuth i t) (wv_fanout w)" by simp
    moreover have "ws_linked w'"
      using assms(3) accept(2,4)
      by (auto simp: ws_linked_def tenants_authenticate jget_owners split: if_splits)
    ultimately show ?thesis using accept(1) by (intro conjI disjI2 exI[of _ "EvAuth i t"]) simp_all
  next
    case (topics ts)
    then have "wv_fanout w' = fo_step (we_grow env) (we_may env) (EvSubscribe i ts) (wv_fanout w) \<or>
        wv_fanout w' = fo_step (we_grow env) (we_may env) (EvUnsubscribe i ts) (wv_fanout w)" by simp
    moreover have "tenants (wv_fanout w') = tenants (wv_fanout w)"
      using topics(1) by (auto simp: tenants_subscribe tenants_unsubscribe)
    moreover have "ws_linked w'" using ws_linkedI[OF assms(3) calculation(2) topics(2)] .
    moreover have "fo_fresh e (wv_fanout w) \<and> server_event env e (wv_fanout w)"
      if "e = EvSubscribe i ts \<or> e = EvUnsubscribe i ts" for e using that by auto
    ultimately show ?thesis by blast
  qed
next
  case (WsDeadline i)
  then show ?thesis using assms ws_linkedI[OF assms(3), of w'] by auto
next
  case (WsClosed i)
  then have w': "w' = ws_cleanup i w" using assms(1) by simp
  show ?thesis
  proof (cases "jget (wv_sessions w) i")
    case None
    then show ?thesis using assms(3) by (simp add: w' ws_cleanup_def)
  next
    case (Some s)
    then have "wv_fanout w' = fo_step (we_grow env) (we_may env) (EvRemove i) (wv_fanout w)" by (simp add: w' ws_cleanup_def)
    moreover have "ws_linked w'"
      using assms(3) Some by (auto simp: w' ws_cleanup_def ws_linked_def tenants_remove tenant_of_session_def put_session_def split: if_splits)
    ultimately show ?thesis by (intro conjI disjI2 exI[of _ "EvRemove i"]) simp_all
  qed
next
  case (WsFanout fev)
  then have w': "w' = w\<lparr>wv_fanout := fo_step (we_grow env) (we_may env) fev (wv_fanout w)\<rparr>" "pipeline_event fev"
    using assms by auto
  then have "fo_fresh fev (wv_fanout w) \<and> server_event env fev (wv_fanout w)" by (cases fev) auto
  then show ?thesis
    using w' ws_linkedI[OF assms(3), of w'] tenants_pipeline[OF w'(2)] by auto
qed

lemma ws_reach_inv:
  "ws_reach env (ws_start b l) w \<Longrightarrow> ws_linked w \<and> fo_reach (we_grow env) (we_may env) (mk_fanout b) (wv_fanout w)"
proof (induction rule: ws_reach.induct)
  case start
  show ?case by (simp add: ws_linked_def ws_start_def mk_fanout_def owners_def fo_reach.start[of _ _ "mk_fanout b", unfolded mk_fanout_def])
next
  case (step w ev w')
  then show ?case using ws_step_inv[OF step(3,2)] fo_reach.step by metis
qed

lemma cap_step:
  assumes "server_event env fev f" "held_by t (tenants f) \<le> we_max_connections env"
  shows "held_by t (tenants (fo_step (we_grow env) (we_may env) fev f)) \<le> we_max_connections env"
proof (cases fev)
  case (EvAdd i)
  then show ?thesis
    using assms(2) held_by_jset[of t i None "tenants f"] by (simp add: tenants_add new_subscriber_def)
next
  case (EvAuth i u)
  have "held_by u (tenants f) < we_max_connections env" using assms(1) EvAuth by (simp add: connections_tenants)
  then show ?thesis
    using assms(2) EvAuth held_by_jset[of t i "Some u" "tenants f"] by (auto simp: tenants_authenticate split: if_splits)
next
  case (EvRemove i)
  then show ?thesis using assms(2) held_by_jdel[of t i "tenants f"] by (simp add: tenants_remove)
next
  case (EvSubscribe i ts)
  then show ?thesis using assms(2) by (simp add: tenants_subscribe)
next
  case (EvUnsubscribe i ts)
  then show ?thesis using assms(2) by (simp add: tenants_unsubscribe)
qed (use assms(2) in \<open>simp_all add: tenants_pipeline del: fo_step.simps\<close>)

lemma ws_reach_cap: "ws_reach env (ws_start b l) w \<Longrightarrow> held_by t (tenants (wv_fanout w)) \<le> we_max_connections env"
proof (induction rule: ws_reach.induct)
  case start
  show ?case by (simp add: ws_start_def mk_fanout_def owners_def held_by_def)
next
  case (step w ev w')
  then show ?case using ws_step_inv[OF step(3,2)] ws_reach_inv[OF step(1)] cap_step[of env _ "wv_fanout w" t] by auto
qed

subsection \<open>Silence before the ticket\<close>

text \<open>A connection with no tenant holds no topics and was written nothing.\<close>

definition fo_quiet :: "fanout \<Rightarrow> bool" where
  "fo_quiet f = (\<forall>i s. jget (fo_subscribers f) i = Some s \<longrightarrow> sb_tenant s = None \<longrightarrow> sb_topics s = [] \<and> sb_sent s = [])"

lemma fo_quietD: "fo_quiet f \<Longrightarrow> jget (fo_subscribers f) i = Some s \<Longrightarrow> sb_tenant s = None \<Longrightarrow> sb_topics s = [] \<and> sb_sent s = []"
  by (simp add: fo_quiet_def)

lemma fo_quiet_mono:
  assumes "fo_quiet f"
    and "\<And>i s'. jget (fo_subscribers f') i = Some s' \<Longrightarrow> sb_tenant s' = None \<Longrightarrow>
      \<exists>s. jget (fo_subscribers f) i = Some s \<and> sb_tenant s = None \<and>
        (sb_topics s = [] \<longrightarrow> sb_sent s = [] \<longrightarrow> sb_topics s' = [] \<and> sb_sent s' = [])"
  shows "fo_quiet f'"
  using assms unfolding fo_quiet_def by blast

lemma quiet_put_topics:
  assumes "fo_quiet f" "h [] = [] \<or> (\<exists>s t. jget (fo_subscribers f) i = Some s \<and> sb_tenant s = Some t)"
  shows "fo_quiet ((put_topics i h f)\<lparr>fo_by_topic := m\<rparr>)"
  using assms(1) by (rule fo_quiet_mono) (use assms(2) in \<open>auto simp: put_topics_subs split: if_splits\<close>)

lemma quiet_subscribe: "fo_quiet f \<Longrightarrow> fo_quiet (snd (fo_subscribe may i ts f))"
proof -
  have all: "fo_quiet f \<Longrightarrow> jget (fo_subscribers f) i = Some s \<Longrightarrow> sb_tenant s = Some t \<Longrightarrow>
      fo_quiet (snd (subscribe_all may i t ts d f))" for s t d
  proof (induction may i t ts d f arbitrary: s rule: subscribe_all.induct)
    case (2 may i t x ts d f)
    let ?f = "(put_topics i (sadd x) f)\<lparr>fo_by_topic := join_topic i x (fo_by_topic f)\<rparr>"
    show ?case
    proof (cases "may t x")
      case True
      have "fo_quiet ?f" using 2(3-5) by (intro quiet_put_topics) auto
      moreover have "jget (fo_subscribers ?f) i = Some (s\<lparr>sb_topics := sadd x (sb_topics s)\<rparr>)"
        using 2(4) by (simp add: put_topics_subs)
      ultimately show ?thesis using 2(2)[of "s\<lparr>sb_topics := sadd x (sb_topics s)\<rparr>"] True 2(5) by simp
    next
      case False
      have "fo_quiet (f\<lparr>fo_denied := fo_denied f + 1\<rparr>)" using 2(3) by (simp add: fo_quiet_def)
      then show ?thesis using 2(1)[of s] False 2(4,5) by simp
    qed
  qed simp
  show "fo_quiet f \<Longrightarrow> ?thesis"
  proof (cases "jget (fo_subscribers f) i")
    case (Some s)
    assume q: "fo_quiet f"
    show ?thesis
    proof (cases "truthy (sb_tenant s)")
      case True
      then obtain t where "sb_tenant s = Some t" by (cases "sb_tenant s") (auto simp: truthy_def)
      then show ?thesis using all[OF q Some] Some True by (simp add: fo_subscribe_def Let_def case_prod_unfold)
    next
      case False
      then show ?thesis using q Some by (simp add: fo_subscribe_def)
    qed
  qed (simp add: fo_subscribe_def)
qed

lemma quiet_unsubscribe: "fo_quiet f \<Longrightarrow> fo_quiet (snd (fo_unsubscribe i ts f))"
proof -
  have "fo_quiet f \<Longrightarrow> fo_quiet (fold (\<lambda>t g. (put_topics i (removeAll t) g)\<lparr>fo_by_topic := leave_topic i t (fo_by_topic g)\<rparr>) ts f)"
    by (induction ts arbitrary: f) (simp_all add: quiet_put_topics)
  then show "fo_quiet f \<Longrightarrow> ?thesis" by (auto simp: fo_unsubscribe_def Let_def split: option.split)
qed

lemma quiet_step:
  assumes inv: "fo_inv f" and quiet: "fo_quiet f" and "fo_fresh ev f"
  shows "fo_quiet (fo_step grow may ev f)"
proof (cases ev)
  case (EvAdd i)
  then show ?thesis using quiet by (auto simp: fo_quiet_def fo_add_def new_subscriber_def)
next
  case (EvAuth i t)
  then show ?thesis using quiet by (auto simp: fo_quiet_def fo_authenticate_def split: option.splits if_splits)
next
  case (EvRemove i)
  then show ?thesis using quiet by (auto simp: fo_quiet_def fo_remove_def split: option.splits)
next
  case (EvSend t m must)
  show ?thesis
    unfolding EvSend fo_step.simps
  proof (rule fo_quiet_mono[OF quiet])
    fix i s' assume a: "jget (fo_subscribers (fo_send grow t m must f)) i = Some s'" "sb_tenant s' = None"
    then obtain s where s: "jget (fo_subscribers f) i = Some s"
      "s' = (if t \<in> set (sb_topics s) then deliver_effect (grow i) (OtherMessage m) must (fo_buffer_max f) s else s)"
      unfolding fo_send_subs[OF inv] by (cases "jget (fo_subscribers f) i") simp_all
    then have "sb_tenant s = None" using a(2) by (simp split: if_splits)
    with s show "\<exists>s. jget (fo_subscribers f) i = Some s \<and> sb_tenant s = None \<and>
        (sb_topics s = [] \<longrightarrow> sb_sent s = [] \<longrightarrow> sb_topics s' = [] \<and> sb_sent s' = [])"
      by (intro exI[of _ s]) simp
  qed
next
  case (EvTick now)
  show ?thesis
    unfolding EvTick fo_step.simps using quiet
    by (rule fo_quiet_mono) (auto simp: fo_tick_subs[OF inv] tick_frames_def)
next
  case (EvSocket i r b)
  then show ?thesis using quiet by (auto simp: fo_quiet_def split: option.splits if_splits)
next
  case (EvPublish s r)
  then show ?thesis using quiet by (simp add: fo_quiet_def)
qed (simp_all add: quiet_subscribe[OF quiet] quiet_unsubscribe[OF quiet])

lemma quiet_reach: "fo_reach grow may (mk_fanout b) f \<Longrightarrow> fo_quiet f"
proof (induction rule: fo_reach.induct)
  case start
  show ?case by (simp add: fo_quiet_def mk_fanout_def)
next
  case (step f ev)
  then show ?case using quiet_step[OF inv_reach] by blast
qed

subsection \<open>Properties\<close>

text \<open>C32: The WebSocket server refines the fan-out: every state its handlers, its timers and its sockets can bring
  the fan-out to is one that the fan-out's own events reach, with each connection added once under a fresh id,
  and each connection's tenant is the one its handler holds.\<close>
theorem ws_refines_fanout:
  assumes "ws_reach env (ws_start b frames) w"
  shows "fo_reach (we_grow env) (we_may env) (mk_fanout b) (wv_fanout w) \<and>
    (jget (fo_subscribers (wv_fanout w)) i = Some sub \<longrightarrow> tenant_of_session w i = Some (sb_tenant sub))"
  using ws_reach_inv[OF assms] by (simp add: ws_linked_def jget_owners)

text \<open>No tenant ever holds more connections than the configured maximum, however tickets are reused, whatever
  connections come and go, and also when a connection authenticates a second time.\<close>
theorem ws_connections_capped:
  assumes "ws_reach env (ws_start b frames) w"
  shows "connections_for tenant (wv_fanout w) \<le> we_max_connections env"
  using ws_reach_cap[OF assms] by (simp add: connections_tenants)

text \<open>Until its ticket is accepted a connection holds no topic and is written no frame of the fan-out,
  whatever it sends.\<close>
theorem ws_silent_before_ticket:
  assumes "ws_reach env (ws_start b frames) w" "jget (wv_sessions w) i = Some s" "se_tenant s = None"
    and "jget (fo_subscribers (wv_fanout w)) i = Some sub"
  shows "sb_topics sub = [] \<and> sb_sent sub = []"
proof -
  have "jget (tenants (wv_fanout w)) i = Some (sb_tenant sub)" using assms(4) by (simp add: jget_owners)
  then have "tenant_of_session w i = Some (sb_tenant sub)" using ws_reach_inv[OF assms(1)] unfolding ws_linked_def by blast
  then have "sb_tenant sub = None" using assms(2,3) by (simp add: tenant_of_session_def)
  then show ?thesis using fo_quietD[OF quiet_reach assms(4)] ws_reach_inv[OF assms(1)] by blast
qed

subsection \<open>Pings and the deadline\<close>

fun ws_run :: "ws_env \<Rightarrow> ws_event list \<Rightarrow> ws_world \<Rightarrow> string + ws_world" where
  "ws_run env [] w = Inr w"
| "ws_run env (ev # evs) w = (case ws_step env ev w of Inl e \<Rightarrow> Inl e | Inr w' \<Rightarrow> ws_run env evs w')"

definition is_ping :: "ws_env \<Rightarrow> string \<Rightarrow> bool" where
  "is_ping env raw = (case parse_client_message (we_json env) raw of Some (CmPing _) \<Rightarrow> True | _ \<Rightarrow> False)"

definition awaiting :: "string \<Rightarrow> ws_world \<Rightarrow> bool" where
  "awaiting i w = (case jget (wv_sessions w) i of Some s \<Rightarrow> se_tenant s = None \<and> se_deadline s | None \<Rightarrow> False)"

lemma awaiting_keep [simp]:
  "awaiting i (ws_reply i r w) = awaiting i w" "awaiting i (ws_close i c w) = awaiting i w"
  "awaiting i (w\<lparr>wv_frames := l\<rparr>) = awaiting i w"
  by (auto simp: ws_reply_def ws_close_def awaiting_def put_session_def split: option.split)

lemma ping_keeps_awaiting:
  assumes "is_ping env raw" "awaiting i w"
  shows "\<exists>w'. ws_frame env now i raw w = Inr w' \<and> awaiting i w'"
proof -
  obtain s ts where s: "jget (wv_sessions w) i = Some s" "parse_client_message (we_json env) raw = Some (CmPing ts)"
    using assms by (auto simp: is_ping_def awaiting_def split: option.splits client_message.splits)
  obtain g l where "take_tokens now i 1 (wv_frames w) = (g, l)" by fastforce
  then show ?thesis using s assms(2) by (simp add: ws_frame_def ws_message_def Let_def)
qed

lemma deadline_closes:
  "awaiting i w \<Longrightarrow> \<exists>s. jget (wv_sessions (ws_deadline i w)) i = Some s \<and> se_closes s \<noteq> [] \<and> last (se_closes s) = 1005"
  by (auto simp: awaiting_def ws_deadline_def ws_close_def ws_reply_def put_session_def Let_def truthy_def split: option.splits)

text \<open>Pings are answered before a ticket is accepted but buy no time: a connection that only pings, however
  often, is asked to close when its deadline comes, as one that sends nothing is.\<close>
theorem ping_does_not_defer_deadline:
  assumes "awaiting i w" "list_all (\<lambda>(now, raw). is_ping env raw) frames"
  shows "\<exists>w' s. ws_run env (map (\<lambda>(now, raw). WsFrame now i raw) frames @ [WsDeadline i]) w = Inr w' \<and>
    jget (wv_sessions w') i = Some s \<and> se_closes s \<noteq> [] \<and> last (se_closes s) = 1005"
  using assms
proof (induction frames arbitrary: w)
  case Nil
  then show ?case using deadline_closes by simp
next
  case (Cons fr frames)
  obtain now raw where fr: "fr = (now, raw)" by fastforce
  then obtain w' where "ws_frame env now i raw w = Inr w'" "awaiting i w'"
    using Cons.prems ping_keeps_awaiting[of env raw i w now] by auto
  then show ?case using Cons.IH[of w'] Cons.prems fr by simp
qed

subsection \<open>Samples\<close>

definition sample_frames_limiter :: limiter where
  "sample_frames_limiter = \<lparr>lm_options = \<lparr>rate_per_s = 1, burst = 3, max_keys = 10\<rparr>, lm_buckets = [], lm_overflow = None,
     lm_refused = 0, lm_overflowed = 0\<rparr>"

definition sample_json :: "string \<Rightarrow> json option" where
  "sample_json raw =
     (if raw = ''p'' then Some (JObject [(''type'', JString ''ping''), (''ts'', JNumber 7)])
      else if raw = ''a'' then Some (JObject [(''type'', JString ''auth''), (''ticket'', JString sample_signed)])
      else None)"

definition sample_ws_env :: ws_env where
  "sample_ws_env = \<lparr>we_json = sample_json, we_hmac = sample_hmac, we_ticket = sample_parse, we_secret = Some sample_secret,
     we_may = (\<lambda>_ _. True), we_grow = (\<lambda>_ _. 0), we_max_connections = 1\<rparr>"

definition sample_ws_start :: ws_world where
  "sample_ws_start = ws_connect ''c1'' (ws_start 10 sample_frames_limiter)"

lemma sample_ws_connected: "ws_reach sample_ws_env (ws_start 10 sample_frames_limiter) sample_ws_start"
  by (rule ws_reach.step[OF ws_reach.start, of "WsConnect ''c1''"]) (simp_all add: sample_ws_start_def ws_start_def)

lemma sample_ws_authenticated:
  "\<exists>w. ws_reach sample_ws_env (ws_start 10 sample_frames_limiter) w \<and> connections_for ''t'' (wv_fanout w) = 1"
proof -
  have "\<exists>w. ws_step sample_ws_env (WsFrame 59999 ''c1'' ''a'') sample_ws_start = Inr w \<and> connections_for ''t'' (wv_fanout w) = 1"
    using sample_verified
    by (simp add: ws_frame_def sample_ws_start_def ws_start_def ws_connect_def put_session_def sample_frames_limiter_def
        take_tokens_def bucket_for_def bucket_full_map_def full_bucket_def slot_tokens_def slot_spend_def Let_def
        parse_client_message_def sample_ws_env_def sample_json_def client_message_of_def jfield_def sample_signed_def
        ws_message_def ws_auth_def ws_accept_def connections_for_def mk_fanout_def fo_add_def new_subscriber_def
        fo_authenticate_def sample_ticket_def)
  then show ?thesis using ws_reach.step[OF sample_ws_connected, of "WsFrame 59999 ''c1'' ''a''"] by auto
qed

theorem ws_refines_fanout_witness:
  "fo_reach (we_grow sample_ws_env) (we_may sample_ws_env) (mk_fanout 10) (wv_fanout sample_ws_start)"
  using ws_refines_fanout[OF sample_ws_connected] by blast

theorem ws_connections_capped_witness:
  "\<exists>w :: ws_world. connections_for ''t'' (wv_fanout w) = 1 \<and> connections_for ''t'' (wv_fanout w) \<le> we_max_connections sample_ws_env"
proof -
  obtain w where w: "ws_reach sample_ws_env (ws_start 10 sample_frames_limiter) w" "connections_for ''t'' (wv_fanout w) = 1"
    using sample_ws_authenticated by blast
  show ?thesis by (intro exI[of _ w] conjI w(2) ws_connections_capped[OF w(1)])
qed

theorem ws_silent_before_ticket_witness:
  "\<exists>sub. jget (fo_subscribers (wv_fanout sample_ws_start)) ''c1'' = Some sub \<and> sb_topics sub = [] \<and> sb_sent sub = []"
  using ws_silent_before_ticket[OF sample_ws_connected, of "''c1''" new_session new_subscriber]
  by (simp add: sample_ws_start_def ws_connect_def put_session_def new_session_def ws_start_def mk_fanout_def fo_add_def)

theorem ping_does_not_defer_deadline_witness:
  "\<exists>w' s. ws_run sample_ws_env [WsFrame 1 ''c1'' ''p'', WsFrame 2 ''c1'' ''p'', WsDeadline ''c1''] sample_ws_start = Inr w' \<and>
    jget (wv_sessions w') ''c1'' = Some s \<and> se_closes s \<noteq> [] \<and> last (se_closes s) = 1005"
  using ping_does_not_defer_deadline[of "''c1''" sample_ws_start sample_ws_env "[(1, ''p''), (2, ''p'')]"]
  by (simp add: is_ping_def awaiting_def sample_ws_start_def ws_connect_def put_session_def new_session_def ws_start_def
      sample_ws_env_def parse_client_message_def sample_json_def client_message_of_def jfield_def del: ws_run.simps)

end
