(* ===== verification/Sql_Split.thy ===== *)
theory Sql_Split
  imports Limiter
begin

section \<open>Splitting a migration into statements (packages/db/src/sql-split.ts)\<close>

text \<open>
  The splitter walks the text by index. Its inner loops are total functions with their measures; the
  outer loop is a partial function whose totality is a theorem. Reading beyond the end of a string
  gives \<open>undefined\<close>, here \<open>None\<close>. The reference below works on what is left of the text instead.
\<close>

definition char_at :: "string \<Rightarrow> nat \<Rightarrow> char option" where
  "char_at s i = (if i < length s then Some (s ! i) else None)"

definition index_of :: "string \<Rightarrow> string \<Rightarrow> nat \<Rightarrow> nat option" where
  "index_of pat s i = find (\<lambda>j. take (length pat) (drop j s) = pat) [i ..< length s]"

abbreviation sql_newline :: char where "sql_newline \<equiv> CHR 0x0A"
abbreviation squote :: char where "squote \<equiv> CHR 0x27"
abbreviation sql_dquote :: char where "sql_dquote \<equiv> CHR 0x22"

function block_end :: "string \<Rightarrow> nat \<Rightarrow> nat \<Rightarrow> nat" where
  "block_end s depth i =
     (if i < length s \<and> depth > 0 then
        (if char_at s i = Some CHR ''/'' \<and> char_at s (i + 1) = Some CHR ''*'' then block_end s (depth + 1) (i + 2)
         else if char_at s i = Some CHR ''*'' \<and> char_at s (i + 1) = Some CHR ''/'' then block_end s (depth - 1) (i + 2)
         else block_end s depth (i + 1))
      else i)"
  by pat_completeness auto
termination by (relation "measure (\<lambda>(s, depth, i). length s - i)") auto

function quoted_end :: "string \<Rightarrow> nat \<Rightarrow> nat" where
  "quoted_end s i =
     (if i < length s then
        (if s ! i = squote then
           (if char_at s (i + 1) = Some squote then quoted_end s (i + 2) else i + 1)
         else quoted_end s (i + 1))
      else i)"
  by pat_completeness auto
termination by (relation "measure (\<lambda>(s, i). length s - i)") auto

function ident_end :: "string \<Rightarrow> nat \<Rightarrow> nat" where
  "ident_end s i = (if i < length s \<and> s ! i \<noteq> sql_dquote then ident_end s (i + 1) else i)"
  by pat_completeness auto
termination by (relation "measure (\<lambda>(s, i). length s - i)") auto

declare block_end.simps [simp del] quoted_end.simps [simp del] ident_end.simps [simp del]

definition tag_start :: "char \<Rightarrow> bool" where
  "tag_start c = (c \<in> set ''abcdefghijklmnopqrstuvwxyzABCDEFGHIJKLMNOPQRSTUVWXYZ_'')"

definition tag_char :: "char \<Rightarrow> bool" where
  "tag_char c = (tag_start c \<or> c \<in> set ''0123456789'')"

text \<open>The dollar tag at the head of the text, closing dollar included.\<close>

definition dollar_tag :: "string \<Rightarrow> string option" where
  "dollar_tag s =
     (if take 2 s = ''$$'' then Some ''$$''
      else if take 1 s = ''$'' \<and> 1 < length s \<and> tag_start (s ! 1) \<and> take 1 (dropWhile tag_char (tl s)) = ''$''
      then Some (''$'' @ takeWhile tag_char (tl s) @ ''$'') else None)"

definition keep_statement :: "string \<Rightarrow> string list" where
  "keep_statement s = (let t = js_trim s in if length t > 0 then [t] else [])"

partial_function (option) split_loop :: "string \<Rightarrow> nat \<Rightarrow> nat \<Rightarrow> string list \<Rightarrow> string list option" where
  "split_loop sql start i statements =
     (if i < length sql then
        (if sql ! i = CHR ''-'' \<and> char_at sql (i + 1) = Some CHR ''-'' then
           split_loop sql start (case index_of [sql_newline] sql i of None \<Rightarrow> length sql | Some nl \<Rightarrow> nl + 1) statements
         else if sql ! i = CHR ''/'' \<and> char_at sql (i + 1) = Some CHR ''*'' then
           split_loop sql start (block_end sql 1 (i + 2)) statements
         else if sql ! i = squote then split_loop sql start (quoted_end sql (i + 1)) statements
         else if sql ! i = sql_dquote then split_loop sql start (ident_end sql (i + 1) + 1) statements
         else (case (if sql ! i = CHR ''$'' then dollar_tag (drop i sql) else None) of
             Some marker \<Rightarrow>
               split_loop sql start
                 (case index_of marker sql (i + length marker) of None \<Rightarrow> length sql | Some e \<Rightarrow> e + length marker) statements
           | None \<Rightarrow>
               if sql ! i = CHR '';'' then
                 split_loop sql (i + 1) (i + 1) (statements @ keep_statement (take (i - start) (drop start sql)))
               else split_loop sql start (i + 1) statements))
      else Some (statements @ keep_statement (drop start sql)))"

definition split_statements :: "string \<Rightarrow> string list option" where
  "split_statements sql = split_loop sql 0 0 []"

subsection \<open>The reference: one token at a time\<close>

fun block_rest :: "nat \<Rightarrow> string \<Rightarrow> string" where
  "block_rest d [] = []"
| "block_rest d (c # s) =
     (if d = 0 then c # s
      else (case s of
          e # t \<Rightarrow> if c = CHR ''/'' \<and> e = CHR ''*'' then block_rest (d + 1) t
            else if c = CHR ''*'' \<and> e = CHR ''/'' then block_rest (d - 1) t
            else block_rest d s
        | [] \<Rightarrow> []))"

fun quoted_rest :: "string \<Rightarrow> string" where
  "quoted_rest [] = []"
| "quoted_rest (c # s) =
     (if c = squote then (case s of d # t \<Rightarrow> if d = squote then quoted_rest t else s | [] \<Rightarrow> []) else quoted_rest s)"

fun after_marker :: "string \<Rightarrow> string \<Rightarrow> string" where
  "after_marker m [] = []"
| "after_marker m (c # s) = (if take (length m) (c # s) = m then drop (length m) (c # s) else after_marker m s)"

datatype head_kind = Opaque | Terminator | Plain

text \<open>What the head of a text that is not empty is, and the text after it.\<close>

definition token_rest :: "string \<Rightarrow> head_kind \<times> string" where
  "token_rest s =
     (if take 2 s = ''--'' then (Opaque, after_marker [sql_newline] s)
      else if take 2 s = ''/*'' then (Opaque, block_rest 1 (drop 2 s))
      else if hd s = squote then (Opaque, quoted_rest (tl s))
      else if hd s = sql_dquote then (Opaque, drop 1 (dropWhile (\<lambda>c. c \<noteq> sql_dquote) (tl s)))
      else (case dollar_tag s of
          Some m \<Rightarrow> (Opaque, after_marker m (drop (length m) s))
        | None \<Rightarrow> (if hd s = CHR '';'' then Terminator else Plain, tl s)))"

lemma take_two_drop:
  "take 2 (drop i s) = [a, b] \<longleftrightarrow> i < length s \<and> s ! i = a \<and> char_at s (i + 1) = Some b"
proof (cases "drop i s")
  case (Cons c cs)
  then have i: "i < length s" by (cases "i < length s") auto
  have c: "s ! i = c" "drop (Suc i) s = cs" using Cons i by (simp_all add: Cons_nth_drop_Suc[symmetric])
  show ?thesis
  proof (cases cs)
    case Nil
    then show ?thesis using c i by (auto simp: char_at_def Cons)
  next
    case (Cons d ds)
    then have "Suc i < length s" using c by (cases "Suc i < length s") auto
    then show ?thesis using c i Cons \<open>drop i s = c # cs\<close> by (auto simp: char_at_def Cons_nth_drop_Suc[symmetric] numeral_2_eq_2)
  qed
qed (auto simp: char_at_def)

lemma block_end_rest:
  "i \<le> length s \<Longrightarrow> drop (block_end s d i) s = block_rest d (drop i s) \<and> i \<le> block_end s d i"
proof (induction s d i rule: block_end.induct)
  case (1 s d i)
  show ?case
  proof (cases "i < length s \<and> 0 < d")
    case True
    then have h: "drop i s = s ! i # drop (Suc i) s" by (simp add: Cons_nth_drop_Suc)
    show ?thesis
    proof (cases "Suc i < length s")
      case more: True
      then have h2: "drop (Suc i) s = s ! Suc i # drop (Suc (Suc i)) s" by (simp add: Cons_nth_drop_Suc)
      show ?thesis
        using 1 True more unfolding block_end.simps[of s d i] by (auto simp: h h2 char_at_def)
    next
      case False
      then have h2: "drop (Suc i) s = []" by simp
      show ?thesis
        using 1 True False unfolding block_end.simps[of s d i] by (auto simp: h h2 char_at_def block_end.simps)
    qed
  next
    case False
    then show ?thesis using 1 by (cases "drop i s") (auto simp: block_end.simps[of s d i])
  qed
qed

lemma quoted_end_rest:
  "i \<le> length s \<Longrightarrow> drop (quoted_end s i) s = quoted_rest (drop i s) \<and> i \<le> quoted_end s i"
proof (induction s i rule: quoted_end.induct)
  case (1 s i)
  show ?case
  proof (cases "i < length s")
    case True
    then have h: "drop i s = s ! i # drop (Suc i) s" by (simp add: Cons_nth_drop_Suc)
    show ?thesis
    proof (cases "Suc i < length s")
      case more: True
      then have h2: "drop (Suc i) s = s ! Suc i # drop (Suc (Suc i)) s" by (simp add: Cons_nth_drop_Suc)
      show ?thesis
        using 1 True more unfolding quoted_end.simps[of s i] by (auto simp: h h2 char_at_def)
    next
      case False
      then have h2: "drop (Suc i) s = []" by simp
      show ?thesis
        using 1 True False unfolding quoted_end.simps[of s i] by (auto simp: h h2 char_at_def)
    qed
  next
    case False
    then show ?thesis unfolding quoted_end.simps[of s i] using 1 by simp
  qed
qed

lemma ident_end_rest:
  "i \<le> length s \<Longrightarrow> drop (ident_end s i) s = dropWhile (\<lambda>c. c \<noteq> sql_dquote) (drop i s) \<and> i \<le> ident_end s i"
proof (induction s i rule: ident_end.induct)
  case (1 s i)
  show ?case
  proof (cases "i < length s")
    case True
    then have h: "drop i s = s ! i # drop (Suc i) s" by (simp add: Cons_nth_drop_Suc)
    show ?thesis
      using 1 True unfolding ident_end.simps[of s i] by (auto simp: h)
  next
    case False
    then show ?thesis unfolding ident_end.simps[of s i] using 1 by simp
  qed
qed

definition found_end :: "string \<Rightarrow> string \<Rightarrow> nat \<Rightarrow> nat" where
  "found_end m s i = (case index_of m s i of None \<Rightarrow> length s | Some e \<Rightarrow> e + length m)"

lemma found_end_rest:
  "i \<le> length s \<Longrightarrow> drop (found_end m s i) s = after_marker m (drop i s) \<and> i \<le> found_end m s i"
proof (induction "length s - i" arbitrary: i)
  case 0
  then show ?case by (simp add: found_end_def index_of_def)
next
  case (Suc n)
  then have i: "i < length s" by simp
  then have h: "drop i s = s ! i # drop (Suc i) s" "[i..<length s] = i # [Suc i..<length s]"
    by (simp_all add: Cons_nth_drop_Suc upt_conv_Cons)
  have "n = length s - Suc i" "Suc i \<le> length s" using Suc.hyps(2) i by simp_all
  note rest = Suc.hyps(1)[OF this]
  have "drop (length m) (s ! i # drop (Suc i) s) = drop (i + length m) s"
    by (simp only: h(1)[symmetric] drop_drop add.commute)
  with rest show ?case by (auto simp: found_end_def index_of_def h)
qed

text \<open>Every token takes at least a character, so the text runs out.\<close>

lemma after_marker_shorter: "length (after_marker m s) \<le> length s"
  by (induction m s rule: after_marker.induct) auto

lemma quoted_rest_shorter: "length (quoted_rest s) \<le> length s"
proof (induction s rule: length_induct)
  case (1 s)
  show ?case
  proof (cases s)
    case (Cons c cs)
    then show ?thesis using 1[rule_format, of cs] 1[rule_format, of "tl cs"] by (cases cs) auto
  qed simp
qed

lemma block_rest_shorter: "length (block_rest d s) \<le> length s"
proof (induction s arbitrary: d rule: length_induct)
  case (1 s)
  have shorter: "length t < length s \<Longrightarrow> length (block_rest d t) \<le> length t" for t d using 1 by simp
  show ?case
  proof (cases s)
    case (Cons c cs)
    then show ?thesis
      using shorter[of cs d] shorter[of "tl cs" "d + 1"] shorter[of "tl cs" "d - 1"] by (cases cs) auto
  qed simp
qed

lemma dollar_tag_head: "dollar_tag s = Some m \<Longrightarrow> take 1 s = ''$'' \<and> 2 \<le> length m"
  by (cases s) (auto simp: dollar_tag_def numeral_2_eq_2 split: if_splits)

lemma token_rest_shorter:
  assumes "s \<noteq> []" "token_rest s = (k, r)"
  shows "length r < length s"
proof -
  obtain c cs where s: "s = c # cs" using assms(1) by (cases s) auto
  have "length (dropWhile P cs) - Suc 0 \<le> length cs" for P using length_dropWhile_le[of P cs] by simp
  moreover have "length (after_marker m (drop n cs)) \<le> length cs" for m n
    using after_marker_shorter[of m "drop n cs"] by simp
  moreover have "length (after_marker [sql_newline] cs) \<le> length cs" by (rule after_marker_shorter)
  moreover have "length (block_rest 1 (drop n cs)) \<le> length cs" for n
    using block_rest_shorter[of 1 "drop n cs"] by simp
  moreover note quoted_rest_shorter[of cs] dollar_tag_head[of s]
  ultimately show ?thesis
    using assms(2) s
    by (auto simp: token_rest_def le_imp_less_Suc numeral_2_eq_2 drop_Cons' split: if_splits option.splits)
qed

function raw_pieces :: "string \<Rightarrow> string list" where
  "raw_pieces s =
     (if s = [] then [[]]
      else let (k, r) = token_rest s; ps = raw_pieces r in
           if k = Terminator then [] # ps else (take (length s - length r) s @ hd ps) # tl ps)"
  by pat_completeness auto
termination
  by (relation "measure length") (auto dest: token_rest_shorter[OF _ sym])

declare raw_pieces.simps [simp del]

lemma split_loop_step:
  assumes "i < length sql" "token_rest (drop i sql) = (k, r)"
  shows "(k = Terminator \<and> r = drop (i + 1) sql \<and>
      split_loop sql start i acc = split_loop sql (i + 1) (i + 1) (acc @ keep_statement (take (i - start) (drop start sql)))) \<or>
    (k \<noteq> Terminator \<and> (\<exists>j\<ge>i. drop j sql = r \<and> split_loop sql start i acc = split_loop sql start j acc))"
proof -
  have h: "drop i sql = sql ! i # drop (Suc i) sql" using assms(1) by (simp add: Cons_nth_drop_Suc)
  note loop = split_loop.simps[of sql start i acc]
  note pair = take_two_drop[of i sql]
  consider (line) "take 2 (drop i sql) = ''--''" | (block) "take 2 (drop i sql) = ''/*''" "take 2 (drop i sql) \<noteq> ''--''"
    | (quote) "sql ! i = squote" | (ident) "sql ! i = sql_dquote"
    | (rest) "take 2 (drop i sql) \<noteq> ''--''" "take 2 (drop i sql) \<noteq> ''/*''" "sql ! i \<noteq> squote" "sql ! i \<noteq> sql_dquote"
    by blast
  then show ?thesis
  proof cases
    case line
    then have "k = Opaque" "r = after_marker [sql_newline] (drop i sql)" using assms(2) by (simp_all add: token_rest_def)
    moreover have "split_loop sql start i acc = split_loop sql start (found_end [sql_newline] sql i) acc"
      using line assms(1) unfolding loop pair by (simp add: found_end_def split: option.split)
    ultimately show ?thesis using found_end_rest[of i sql "[sql_newline]"] assms(1) by auto
  next
    case block
    then have "k = Opaque" "r = block_rest 1 (drop (i + 2) sql)" using assms(2) by (simp_all add: token_rest_def add.commute)
    moreover have "split_loop sql start i acc = split_loop sql start (block_end sql 1 (i + 2)) acc"
      using block assms(1) unfolding loop pair by simp
    moreover have "i + 2 \<le> length sql" using block(1) unfolding pair by (auto simp: char_at_def split: if_splits)
    ultimately show ?thesis using block_end_rest[of "i + 2" sql 1] by fastforce
  next
    case quote
    then have "k = Opaque" "r = quoted_rest (drop (Suc i) sql)" using assms(2) by (auto simp: token_rest_def h)
    moreover have "split_loop sql start i acc = split_loop sql start (quoted_end sql (i + 1)) acc"
      using quote assms(1) unfolding loop by simp
    ultimately show ?thesis
      using quoted_end_rest[of "Suc i" sql] assms(1) by (auto intro!: exI[of _ "quoted_end sql (Suc i)"])
  next
    case ident
    then have "k = Opaque" "r = drop 1 (dropWhile (\<lambda>c. c \<noteq> sql_dquote) (drop (Suc i) sql))"
      using assms(2) by (auto simp: token_rest_def h)
    moreover have "split_loop sql start i acc = split_loop sql start (ident_end sql (i + 1) + 1) acc"
      using ident assms(1) unfolding loop by simp
    moreover have "drop (ident_end sql (Suc i) + 1) sql = drop 1 (drop (ident_end sql (Suc i)) sql)" by simp
    ultimately show ?thesis using ident_end_rest[of "Suc i" sql] assms(1) by (intro disjI2) (auto intro!: exI[of _ "ident_end sql (Suc i) + 1"])
  next
    case rest
    then have plain: "\<not> (sql ! i = CHR ''-'' \<and> char_at sql (i + 1) = Some CHR ''-'')"
      "\<not> (sql ! i = CHR ''/'' \<and> char_at sql (i + 1) = Some CHR ''*'')"
      using assms(1) unfolding pair by simp_all
    have none: "sql ! i \<noteq> CHR ''$'' \<Longrightarrow> dollar_tag (drop i sql) = None"
      using dollar_tag_head[of "drop i sql"] by (cases "dollar_tag (drop i sql)") (auto simp: h)
    show ?thesis
    proof (cases "dollar_tag (drop i sql)")
      case None
      then have "k = (if sql ! i = CHR '';'' then Terminator else Plain)" "r = drop (Suc i) sql"
        using assms(2) rest by (auto simp: token_rest_def h)
      moreover have "split_loop sql start i acc =
          (if sql ! i = CHR '';'' then split_loop sql (i + 1) (i + 1) (acc @ keep_statement (take (i - start) (drop start sql)))
           else split_loop sql start (i + 1) acc)"
        using None assms(1) rest(3,4) plain unfolding loop by auto
      ultimately show ?thesis by (auto intro!: exI[of _ "Suc i"])
    next
      case (Some m)
      then have d: "sql ! i = CHR ''$''" "2 \<le> length m" using none dollar_tag_head by auto
      have "k = Opaque" "r = after_marker m (drop (i + length m) sql)"
        using assms(2) rest Some by (auto simp: token_rest_def h[symmetric] hd_drop_conv_nth assms(1) add.commute)
      moreover have "split_loop sql start i acc = split_loop sql start (found_end m sql (i + length m)) acc"
        using Some assms(1) d plain unfolding loop by (simp add: found_end_def split: option.split)
      moreover have "drop (found_end m sql (i + length m)) sql = after_marker m (drop (i + length m) sql) \<and> i \<le> found_end m sql (i + length m)"
      proof (cases "i + length m \<le> length sql")
        case True
        then show ?thesis using found_end_rest[of "i + length m" sql m] by auto
      next
        case False
        then show ?thesis using assms(1) by (simp add: found_end_def index_of_def)
      qed
      ultimately show ?thesis by auto
    qed
  qed
qed

lemma raw_pieces_ne: "raw_pieces s \<noteq> []"
proof (induction s rule: raw_pieces.induct)
  case (1 s)
  then show ?case unfolding raw_pieces.simps[of s] by (auto simp: Let_def split: prod.split)
qed

lemma split_loop_spec:
  assumes "start \<le> i" "start \<le> length sql"
  shows "split_loop sql start i acc =
    Some (acc @ concat (map keep_statement
      ((take (i - start) (drop start sql) @ hd (raw_pieces (drop i sql))) # tl (raw_pieces (drop i sql)))))"
  using assms
proof (induction "drop i sql" arbitrary: start i acc rule: length_induct)
  case (1 i start acc)
  show ?case
  proof (cases "i < length sql")
    case False
    then show ?thesis
      unfolding split_loop.simps[of sql start i acc] using 1(2,3) by (simp add: raw_pieces.simps[of "[]"])
  next
    case True
    obtain k r where t: "token_rest (drop i sql) = (k, r)" by fastforce
    have short: "length r < length (drop i sql)" using token_rest_shorter[OF _ t] True by simp
    have pieces: "raw_pieces (drop i sql) =
        (if k = Terminator then [] # raw_pieces r
         else (take (length (drop i sql) - length r) (drop i sql) @ hd (raw_pieces r)) # tl (raw_pieces r))"
      using True t by (simp add: raw_pieces.simps[of "drop i sql"] Let_def)
    from split_loop_step[OF True t, of start acc] show ?thesis
    proof
      assume a: "k = Terminator \<and> r = drop (i + 1) sql \<and>
        split_loop sql start i acc = split_loop sql (i + 1) (i + 1) (acc @ keep_statement (take (i - start) (drop start sql)))"
      then have "split_loop sql (i + 1) (i + 1) (acc @ keep_statement (take (i - start) (drop start sql))) =
          Some ((acc @ keep_statement (take (i - start) (drop start sql))) @ concat (map keep_statement
            ((take (i + 1 - (i + 1)) (drop (i + 1) sql) @ hd (raw_pieces (drop (i + 1) sql))) # tl (raw_pieces (drop (i + 1) sql)))))"
        using 1(1)[rule_format, of "drop (i + 1) sql" "i + 1" "i + 1" "acc @ keep_statement (take (i - start) (drop start sql))"]
          short True by simp
      then show ?thesis using a pieces raw_pieces_ne[of r] by (cases "raw_pieces r") simp_all
    next
      assume "k \<noteq> Terminator \<and> (\<exists>j\<ge>i. drop j sql = r \<and> split_loop sql start i acc = split_loop sql start j acc)"
      then obtain j where j: "k \<noteq> Terminator" "i \<le> j" "drop j sql = r" "split_loop sql start i acc = split_loop sql start j acc"
        by blast
      have "take (j - start) (drop start sql) = take (i - start) (drop start sql) @ take (j - i) (drop i sql)"
        using 1(2) j(2) take_add[of "i - start" "j - i" "drop start sql"] by simp
      moreover have "take (j - i) (drop i sql) = take (length (drop i sql) - length r) (drop i sql)"
        using j(2,3) True by (cases "j \<le> length sql") auto
      ultimately have cut: "take (j - start) (drop start sql) =
          take (i - start) (drop start sql) @ take (length (drop i sql) - length r) (drop i sql)" by simp
      have "split_loop sql start j acc = Some (acc @ concat (map keep_statement
          ((take (j - start) (drop start sql) @ hd (raw_pieces (drop j sql))) # tl (raw_pieces (drop j sql)))))"
        using 1(1)[rule_format, of "drop j sql" j start acc] short[folded j(3)] j(2) 1(2,3) by simp
      then show ?thesis
        unfolding j(4) pieces if_not_P[OF j(1)] j(3) cut by simp
    qed
  qed
qed

lemma token_rest_suffix: "token_rest s = (k, r) \<Longrightarrow> s \<noteq> [] \<Longrightarrow> take (length s - length r) s @ r = s"
proof -
  assume t: "token_rest s = (k, r)" "s \<noteq> []"
  then have "(k = Terminator \<and> r = drop (0 + 1) s \<and>
      split_loop s 0 0 [] = split_loop s (0 + 1) (0 + 1) ([] @ keep_statement (take (0 - 0) (drop 0 s)))) \<or>
    (k \<noteq> Terminator \<and> (\<exists>j\<ge>0. drop j s = r \<and> split_loop s 0 0 [] = split_loop s 0 j []))"
    by (intro split_loop_step) simp_all
  then obtain j where "r = drop j s" by auto
  then show ?thesis by (cases "j \<le> length s") auto
qed

lemma terminator_head: "token_rest s = (Terminator, r) \<Longrightarrow> s \<noteq> [] \<Longrightarrow> s = CHR '';'' # r"
  by (cases s) (auto simp: token_rest_def split: if_splits option.splits)

lemma join_raw_pieces: "join_with '';'' (raw_pieces s) = s"
proof (induction s rule: raw_pieces.induct)
  case (1 s)
  show ?case
  proof (cases "s = []")
    case False
    obtain k r where t: "token_rest s = (k, r)" by fastforce
    have ih: "join_with '';'' (raw_pieces r) = r" using 1[OF False t[symmetric] refl] .
    obtain p ps where ps: "raw_pieces r = p # ps" using raw_pieces_ne[of r] by (cases "raw_pieces r") auto
    have glue: "join_with '';'' ((x @ p) # ps) = x @ join_with '';'' (p # ps)" for x by (cases ps) simp_all
    show ?thesis
      using False t ih terminator_head[of s r] token_rest_suffix[OF t False] glue
      by (auto simp: raw_pieces.simps[of s] ps Let_def)
  qed (simp add: raw_pieces.simps)
qed

lemma split_statements_eq: "split_statements sql = Some (filter (\<lambda>st. st \<noteq> []) (map js_trim (raw_pieces sql)))"
proof -
  have "concat (map keep_statement ps) = filter (\<lambda>st. st \<noteq> []) (map js_trim ps)" for ps
    by (induction ps) (simp_all add: keep_statement_def Let_def)
  then show ?thesis
    using split_loop_spec[of 0 0 sql "[]"] raw_pieces_ne[of sql] by (simp add: split_statements_def)
qed

text \<open>The splitter returns on every text, in step with the reference: it cuts the text exactly at the
  semicolons that stand outside comments, quotes and dollar-quoted strings, and nothing but those
  semicolons and the white space around a statement is lost.\<close>
theorem split_terminates:
  "split_statements sql = Some (filter (\<lambda>st. st \<noteq> []) (map js_trim (raw_pieces sql))) \<and>
   join_with '';'' (raw_pieces sql) = sql"
  by (simp add: split_statements_eq join_raw_pieces)

subsection \<open>A script built of statements splits into them\<close>

text \<open>A text that opens no comment or quotation it does not close, and has no semicolon of its own.\<close>

definition complete_statement :: "string \<Rightarrow> bool" where
  "complete_statement st = (raw_pieces (st @ '';'') = [st, []])"

lemma quoted_rest_append: "quoted_rest s \<noteq> [] \<Longrightarrow> quoted_rest (s @ v) = quoted_rest s @ v"
proof (induction s rule: length_induct)
  case (1 s)
  have shorter: "length t < length s \<Longrightarrow> quoted_rest t \<noteq> [] \<Longrightarrow> quoted_rest (t @ v) = quoted_rest t @ v" for t
    using 1 by simp
  show ?case
  proof (cases s)
    case (Cons c cs)
    then show ?thesis
      using 1(2) shorter[of cs] shorter[of "tl cs"]
      by (cases cs) (auto simp: quoted_rest.simps(2)[of c] simp del: quoted_rest.simps(2) split: if_splits)
  qed (use 1(2) in simp)
qed

lemma block_rest_append: "block_rest d s \<noteq> [] \<Longrightarrow> block_rest d (s @ v) = block_rest d s @ v"
proof (induction s arbitrary: d rule: length_induct)
  case (1 s)
  have shorter: "length t < length s \<Longrightarrow> block_rest d t \<noteq> [] \<Longrightarrow> block_rest d (t @ v) = block_rest d t @ v" for t d
    using 1 by simp
  show ?case
  proof (cases s)
    case (Cons c cs)
    then show ?thesis
      using 1(2) shorter[of cs d] shorter[of "tl cs" "d + 1"] shorter[of "tl cs" "d - 1"] by (cases cs) (auto split: if_splits)
  qed (use 1(2) in simp)
qed

lemma after_marker_append: "after_marker m s \<noteq> [] \<Longrightarrow> after_marker m (s @ v) = after_marker m s @ v"
proof (induction m s rule: after_marker.induct)
  case (2 m c s)
  show ?case
  proof (cases "take (length m) (c # s) = m")
    case True
    then have "length m \<le> length (c # s)" by (metis length_take min.absorb_iff2 min.commute)
    then have "take (length m) ((c # s) @ v) = m" "drop (length m) ((c # s) @ v) = drop (length m) (c # s) @ v"
      using True unfolding take_append drop_append by simp_all
    then show ?thesis using True by simp
  next
    case False
    have "take (length m) ((c # s) @ v) \<noteq> m"
    proof
      assume m: "take (length m) ((c # s) @ v) = m"
      then have "length (c # s) < length m" using False unfolding take_append by (cases "length m \<le> length (c # s)") auto
      then have "length t \<le> length (c # s) \<Longrightarrow> after_marker m t = []" for t
        by (induction t) (auto dest: arg_cong[of _ _ length])
      then have "after_marker m (c # s) = []" by blast
      then show False using 2(2) by (rule notE[rotated])
    qed
    then show ?thesis using False 2 by simp
  qed
qed simp

lemma dollar_tag_append:
  assumes "s \<noteq> []"
  shows "dollar_tag (s @ '';'' @ v) = dollar_tag (s @ '';'')"
proof -
  obtain c cs where s: "s = c # cs" using assms by (cases s) auto
  have semi: "\<not> tag_char CHR '';''" by (simp add: tag_char_def tag_start_def)
  have "dropWhile tag_char (cs @ '';'' @ v) = dropWhile tag_char (cs @ '';'') @ v"
    "takeWhile tag_char (cs @ '';'' @ v) = takeWhile tag_char (cs @ '';'')"
    by (induction cs) (simp_all add: semi)
  moreover have "dropWhile tag_char (cs @ '';'') \<noteq> []" by (induction cs) (simp_all add: semi)
  moreover have "take 2 (s @ '';'' @ v) = take 2 (s @ '';'')" "(s @ '';'' @ v) ! 1 = (s @ '';'') ! 1"
    by (simp_all add: s numeral_2_eq_2 nth_append nth_Cons' take_Cons' )
  ultimately show ?thesis
    by (cases "dropWhile tag_char (cs @ '';'')") (simp_all add: dollar_tag_def s)
qed

lemma dropWhile_more: "dropWhile P xs \<noteq> [] \<Longrightarrow> dropWhile P (xs @ ys) = dropWhile P xs @ ys"
  by (induction xs) auto

text \<open>What closes before the end of a text closes in the same way when more text follows.\<close>

lemma token_rest_append:
  assumes "s \<noteq> []" "token_rest (s @ '';'') = (k, r)" "r \<noteq> []"
  shows "token_rest (s @ '';'' @ v) = (k, r @ v)"
proof -
  obtain c cs where s: "s = c # cs" using assms(1) by (cases s) auto
  have two: "take 2 (s @ '';'' @ v) = take 2 (s @ '';'')" by (simp add: s numeral_2_eq_2 take_Cons')
  have hds: "hd (s @ '';'') = hd s" by (simp add: s)
  have tl: "tl (s @ '';'' @ v) = tl (s @ '';'') @ v" "hd (s @ '';'' @ v) = hd (s @ '';'')" by (simp_all add: s)
  consider (line) "take 2 (s @ '';'') = ''--''" | (block) "take 2 (s @ '';'') = ''/*''" "take 2 (s @ '';'') \<noteq> ''--''"
    | (other) "take 2 (s @ '';'') \<noteq> ''--''" "take 2 (s @ '';'') \<noteq> ''/*''" by blast
  then show ?thesis
  proof cases
    case line
    then show ?thesis
      using assms(2,3) after_marker_append[of "[sql_newline]" "s @ '';''" v] unfolding token_rest_def two by simp
  next
    case block
    then have "2 \<le> length (s @ '';'')" by (auto simp: s)
    then have "drop 2 (s @ '';'' @ v) = drop 2 (s @ '';'') @ v" by (simp add: s numeral_2_eq_2 drop_Cons')
    then show ?thesis
      using assms(2,3) block block_rest_append[of 1 "drop 2 (s @ '';'')" v] unfolding token_rest_def two by simp
  next
    case other
    show ?thesis
    proof (cases "hd s = squote \<or> hd s = sql_dquote")
      case True
      define w where "w = dropWhile (\<lambda>c. c \<noteq> sql_dquote) (tl (s @ '';''))"
      have "dropWhile (\<lambda>c. c \<noteq> sql_dquote) (tl (s @ '';'') @ v) = w @ v" if "w \<noteq> []"
        using that unfolding w_def by (rule dropWhile_more)
      moreover have "drop 1 (w @ v) = drop 1 w @ v" if "w \<noteq> []"
        using that by (cases w) auto
      ultimately show ?thesis
        using assms(2,3) hds other True quoted_rest_append[of "tl (s @ '';'')" v] unfolding token_rest_def two tl w_def[symmetric]
        by (cases "w = []") (simp_all split: if_splits)
    next
      case False
      show ?thesis
      proof (cases "dollar_tag (s @ '';'')")
        case None
        then show ?thesis
          using assms(2,3) other False dollar_tag_append[OF assms(1), of v] hds unfolding token_rest_def two tl
          by (simp split: if_splits)
      next
        case (Some m)
        have "after_marker m (drop (length m) (s @ '';'')) \<noteq> []"
          using assms(2,3) other False Some hds unfolding token_rest_def by (auto split: if_splits)
        moreover from this have len: "length m \<le> length (s @ '';'')" by (cases "length m \<le> length (s @ '';'')") auto
        have "drop (length m) (s @ '';'' @ v) = drop (length m) (s @ '';'') @ v"
          using len drop_append[of "length m" "s @ '';''" v] by simp
        ultimately show ?thesis
          using assms(2,3) hds other False Some dollar_tag_append[OF assms(1), of v]
            after_marker_append[of m "drop (length m) (s @ '';'')" v] unfolding token_rest_def two tl
          by simp
      qed
    qed
  qed
qed

lemma complete_then:
  assumes "complete_statement u"
  shows "raw_pieces (u @ '';'' @ v) = u # raw_pieces v"
  using assms
proof (induction u rule: length_induct)
  case (1 u)
  have semi: "token_rest (CHR '';'' # t) = (Terminator, t)" for t
    by (simp add: token_rest_def dollar_tag_def numeral_2_eq_2)
  show ?case
  proof (cases "u = []")
    case True
    then show ?thesis by (simp add: raw_pieces.simps[of "CHR '';'' # v"] semi)
  next
    case False
    let ?s = "u @ '';''"
    have whole: "raw_pieces ?s = [u, []]" using 1(2) by (simp add: complete_statement_def)
    obtain k r where t: "token_rest ?s = (k, r)" by fastforce
    have step: "raw_pieces ?s = (if k = Terminator then [] # raw_pieces r
        else (take (length ?s - length r) ?s @ hd (raw_pieces r)) # tl (raw_pieces r))"
      using t by (simp add: raw_pieces.simps[of ?s] Let_def)
    have k: "k \<noteq> Terminator" using step whole False by auto
    obtain p ps where ps: "raw_pieces r = p # ps" using raw_pieces_ne[of r] by (cases "raw_pieces r") auto
    have p: "ps = [[]]" "u = take (length ?s - length r) ?s @ p" using step whole k ps by auto
    have r: "r = p @ '';''" using join_raw_pieces[of r] ps p(1) by simp
    have "length p < length u" using token_rest_shorter[OF _ t] r by simp
    moreover have "complete_statement p" using ps p(1) r by (simp add: complete_statement_def)
    ultimately have rec: "raw_pieces (r @ v) = p # raw_pieces v" using 1(1) r by simp
    have "token_rest (u @ '';'' @ v) = (k, r @ v)" using token_rest_append[OF False t] r by simp
    then have "raw_pieces (u @ '';'' @ v) =
        (take (length (u @ '';'' @ v) - length (r @ v)) (u @ '';'' @ v) @ p) # raw_pieces v"
      using k rec by (simp add: raw_pieces.simps[of "u @ CHR '';'' # v"] Let_def)
    moreover have "take (length (u @ '';'' @ v) - length (r @ v)) (u @ '';'' @ v) = take (length ?s - length r) ?s"
      using r by simp
    ultimately show ?thesis using p(2) by simp
  qed
qed

lemma newline_complete: "complete_statement st \<Longrightarrow> complete_statement (sql_newline # st)"
proof -
  have "token_rest (sql_newline # t) = (Plain, t)" for t
    by (simp add: token_rest_def dollar_tag_def numeral_2_eq_2)
  then show "complete_statement st \<Longrightarrow> complete_statement (sql_newline # st)"
    by (simp add: complete_statement_def raw_pieces.simps[of "sql_newline # st @ '';''"] Let_def Suc_diff_le)
qed

lemma newline_trimmed: "js_trim (sql_newline # st) = js_trim st"
  by (simp add: js_trim_def js_space_def)

text \<open>A script written as statements, each closing what it opens and followed by a semicolon and a new
  line, is split back into exactly those statements: function bodies and the seed's \<open>DO\<close> block, with the
  semicolons inside them, come out whole.\<close>
theorem split_roundtrip:
  assumes "list_all (\<lambda>st. complete_statement st \<and> js_trim st = st \<and> st \<noteq> []) sts"
  shows "split_statements (concat (map (\<lambda>st. st @ [CHR '';'', sql_newline]) sts)) = Some sts"
proof -
  let ?keep = "\<lambda>ps. filter (\<lambda>st. st \<noteq> []) (map js_trim ps)"
  let ?script = "\<lambda>sts. concat (map (\<lambda>st. st @ [CHR '';'', sql_newline]) sts)"
  have blank: "?keep (raw_pieces [sql_newline]) = []"
    by (simp add: raw_pieces.simps token_rest_def dollar_tag_def numeral_2_eq_2 js_trim_def js_space_def)
  have tail: "list_all (\<lambda>st. complete_statement st \<and> js_trim st = st \<and> st \<noteq> []) sts \<Longrightarrow>
      ?keep (raw_pieces (sql_newline # ?script sts)) = sts" for sts
  proof (induction sts)
    case (Cons st sts)
    then show ?case
      using complete_then[OF newline_complete, of st "sql_newline # ?script sts"] by (simp add: newline_trimmed)
  qed (simp add: blank)
  have "?keep (raw_pieces (?script sts)) = sts"
  proof (cases sts)
    case Nil
    then show ?thesis by (simp add: raw_pieces.simps js_trim_def)
  next
    case (Cons st rest)
    then show ?thesis using complete_then[of st "sql_newline # ?script rest"] tail[of rest] assms by simp
  qed
  then show ?thesis by (simp add: split_statements_eq)
qed

text \<open>A block with semicolons inside its dollar quotes, and a quoted one.\<close>

definition sample_statements :: "string list" where
  "sample_statements = [''DO $a$;$a$'', [squote, CHR '';'', squote]]"

theorem split_roundtrip_witness:
  "split_statements (concat (map (\<lambda>st. st @ [CHR '';'', sql_newline]) sample_statements)) = Some sample_statements"
  by (rule split_roundtrip) code_simp

end
