(* ===== verification/Write_Path.thy ===== *)
theory Write_Path
  imports Pipeline
begin

section \<open>From an accepted reading to the table\<close>

text \<open>
  The ingest path and the writer together, when a reading's time is one that the table cannot hold. Which
  times it can hold is an argument (\<open>storable\<close>): PostgreSQL raises an error for a \<open>bigint\<close> or a timestamp out
  of its range, and the statement of that group fails. Every other answer of the database stays possible.
\<close>

text \<open>A group's statement commits only when the table can hold every one of its times.\<close>

definition may_happen :: "(ms \<Rightarrow> bool) \<Rightarrow> writer_event \<Rightarrow> writer \<Rightarrow> bool" where
  "may_happen storable ev w =
     (case ev of
        WCommit \<Rightarrow> (case wr_flight w of
            Some fl \<Rightarrow> (case fl_groups fl of (t, rows) # _ \<Rightarrow> list_all (\<lambda>r. storable (rd_ts r)) rows | [] \<Rightarrow> True)
          | None \<Rightarrow> True)
      | _ \<Rightarrow> True)"

fun storable_run :: "(ms \<Rightarrow> bool) \<Rightarrow> writer_event list \<Rightarrow> writer \<times> store \<Rightarrow> bool" where
  "storable_run storable [] x = True"
| "storable_run storable (ev # evs) x = (may_happen storable ev (fst x) \<and> storable_run storable evs (writer_step ev x))"

definition unstorable :: "(ms \<Rightarrow> bool) \<Rightarrow> owned_reading list \<Rightarrow> bool" where
  "unstorable storable rs = (\<exists>r \<in> set rs. \<not> storable (rd_ts r))"

definition stalled :: "(ms \<Rightarrow> bool) \<Rightarrow> writer \<Rightarrow> bool" where
  "stalled storable w =
     ((wr_flushing w \<longleftrightarrow> wr_flight w \<noteq> None) \<and>
      (case wr_flight w of
         None \<Rightarrow> unstorable storable (wr_buffer w)
       | Some fl \<Rightarrow> unstorable storable (fl_batch fl) \<and> unstorable storable (concat (map snd (fl_groups fl)))))"

lemma unstorable_append [simp]:
  "unstorable storable (xs @ ys) \<longleftrightarrow> unstorable storable xs \<or> unstorable storable ys"
  by (auto simp: unstorable_def)

lemma unstorable_groups:
  assumes "unstorable storable rs"
  shows "unstorable storable (concat (map snd (group_by_tenant (dedupe rs))))"
proof -
  obtain r where r: "r \<in> set rs" "\<not> storable (rd_ts r)" using assms by (auto simp: unstorable_def)
  then have k: "reading_key r \<in> reading_key ` set rs" by simp
  define q where "q = last_with (reading_key r) rs"
  have q: "q \<in> set (dedupe rs)" using k by (auto simp: q_def dedupe_eq set_first_keys)
  have "reading_key q = reading_key r" using last_with_in[OF k] by (simp add: q_def)
  then have ts: "rd_ts q = rd_ts r" by (simp add: reading_key_def)
  let ?rows = "filter (\<lambda>x. rd_tenant x = rd_tenant q) (dedupe rs)"
  have mem: "q \<in> set ?rows" using q by simp
  then have g: "(rd_tenant q, ?rows) \<in> set (group_by_tenant (dedupe rs))" unfolding group_entry by (metis empty_iff empty_set)
  have "\<exists>e \<in> set (group_by_tenant (dedupe rs)). q \<in> set (snd e)" by (rule bexI[OF _ g]) (use mem in simp)
  then have "q \<in> set (concat (map snd (group_by_tenant (dedupe rs))))" by simp
  then show ?thesis unfolding unstorable_def using ts r(2) by metis
qed

lemma stalled_begin: "stalled storable w \<Longrightarrow> stalled storable (flush_begin now w)"
  using unstorable_groups[of storable "wr_buffer w"]
  by (auto simp: stalled_def flush_begin_def split: option.splits)

lemma not_shed: "take (length rs - n) rs = [] \<Longrightarrow> length rs \<le> n"
  by (cases rs) auto

lemma stalled_enqueue:
  assumes "stalled storable w" "shed_by (WEnqueue now rs) w = []"
  shows "stalled storable (enqueue now rs w)"
proof -
  have len: "length (wr_buffer w @ rs) \<le> wr_max_rows w" using assms(2) not_shed by (auto simp: shed_by_def)
  let ?w = "w\<lparr>wr_buffer := wr_buffer w @ rs, wr_touched := fold (\<lambda>r. touch (rd_tenant r) (rd_sensor r)) rs (wr_touched w)\<rparr>"
  have "stalled storable ?w" using assms(1) by (auto simp: stalled_def split: option.splits)
  then show ?thesis using len stalled_begin by (simp add: enqueue_def shed_oldest_def Let_def)
qed

lemma enqueue_stats: "wr_flushes (enqueue now rs w) = wr_flushes w" "wr_written (enqueue now rs w) = wr_written w"
  by (simp_all add: enqueue_def shed_oldest_def flush_begin_def Let_def)

lemma stalled_step:
  assumes "stalled storable w" "may_happen storable ev w" "shed_by ev w = []"
  shows "stalled storable (fst (writer_step ev (w, s))) \<and>
    wr_flushes (fst (writer_step ev (w, s))) = wr_flushes w \<and> wr_written (fst (writer_step ev (w, s))) = wr_written w"
proof (cases ev)
  case (WEnqueue now rs)
  then show ?thesis using stalled_enqueue[OF assms(1)] assms(3) by (simp add: enqueue_stats)
next
  case (WTimer now)
  then show ?thesis using stalled_begin[OF assms(1)] by (simp add: flush_begin_def)
next
  case WCommit
  show ?thesis
  proof (cases "wr_flight w")
    case (Some fl)
    then obtain t rows gs where g: "fl_groups fl = (t, rows) # gs"
      using assms(1) by (cases "fl_groups fl") (auto simp: stalled_def unstorable_def)
    then have "\<not> unstorable storable rows" using assms(2) WCommit Some by (auto simp: may_happen_def unstorable_def list_all_iff)
    then show ?thesis
      using assms(1) WCommit Some g by (cases "insert_readings t rows s") (auto simp: stalled_def flush_commit_def)
  qed (use assms(1) WCommit in \<open>simp add: flush_commit_def\<close>)
next
  case (WMark now)
  have "flush_mark now w s = (w, s)" if "wr_flight w = Some fl" for fl
    using assms(1) that by (cases "fl_groups fl") (auto simp: stalled_def flush_mark_def unstorable_def)
  then show ?thesis using assms(1) WMark by (cases "wr_flight w") (simp_all add: flush_mark_def)
next
  case (WSucceed now)
  have "flush_succeed now w = w" if "wr_flight w = Some fl" for fl
    using assms(1) that by (cases "fl_groups fl") (auto simp: stalled_def flush_succeed_def unstorable_def)
  then show ?thesis using assms(1) WSucceed by (cases "wr_flight w") (simp_all add: flush_succeed_def)
next
  case (WFail message)
  show ?thesis
  proof (cases "wr_flight w")
    case (Some fl)
    then have "length (fl_batch fl @ wr_buffer w) \<le> wr_max_rows w" using assms(3) WFail not_shed by (auto simp: shed_by_def)
    then show ?thesis using assms(1) WFail Some by (auto simp: stalled_def flush_fail_def shed_oldest_def Let_def)
  qed (use assms(1) WFail in \<open>simp add: flush_fail_def\<close>)
qed

lemma stalled_run:
  assumes "stalled storable w" "storable_run storable evs (w, s)" "snd (writer_run evs (w, s)) = []"
    "fst (writer_run evs (w, s)) = (w', s')"
  shows "stalled storable w' \<and> wr_flushes w' = wr_flushes w \<and> wr_written w' = wr_written w"
  using assms
proof (induction evs arbitrary: w s)
  case (Cons ev evs)
  obtain w1 s1 where x: "writer_step ev (w, s) = (w1, s1)" by fastforce
  have "shed_by ev w = []" "snd (writer_run evs (w1, s1)) = []" "fst (writer_run evs (w1, s1)) = (w', s')"
    using Cons.prems(3,4) by (simp_all add: x case_prod_unfold Let_def)
  then show ?case using stalled_step[OF Cons.prems(1), of ev s] Cons.IH[of w1 s1] Cons.prems(2) x by simp
qed simp

text \<open>C30: One reading accepted while no flush is in progress and the buffer has room for its batch can stop every tenant's
  writes: a time far in the past passes the schema and the clock check
  and is answered as accepted, but when the table cannot hold it every flush that contains it fails and puts it
  back. From then on no flush succeeds and no write is counted, whatever else is posted and however often the
  timer fires, until the buffer overflows.\<close>
theorem ancient_reading_stalls_writer:
  assumes "ingest_raw cfg tenant now batch p = (res, p')"
    and "raw \<in> set batch" "registry_lookup (pl_registry p) tenant (rw_external_id raw) = Some sensor"
    and "rw_ts raw = Some ts" "ts \<le> now + pc_max_clock_skew cfg" "\<not> storable ts"
    and "wr_flight (pl_writer p) = None" "\<not> wr_flushing (pl_writer p)"
    and "length (wr_buffer (pl_writer p)) + length batch \<le> wr_max_rows (pl_writer p)"
    and "storable_run storable evs (pl_writer p', st)" "snd (writer_run evs (pl_writer p', st)) = []"
  shows "0 < ig_accepted res \<and>
    wr_flushes (fst (fst (writer_run evs (pl_writer p', st)))) = wr_flushes (pl_writer p) \<and>
    wr_written (fst (fst (writer_run evs (pl_writer p', st)))) = wr_written (pl_writer p)"
proof -
  let ?js = "judge_batch cfg (pl_registry p) tenant now batch"
  let ?rs = "map snd (accepted_entries ?js)"
  define l where "l = fold (ingest_one cfg (pl_registry p) tenant now) batch
      \<lparr>il_unknown = [], il_readings = [], il_flagged = 0, il_future = 0\<rparr>"
  have readings: "il_readings l = accepted_entries ?js" using ingest_loop_spec(1)[OF l_def] by simp
  have res: "ig_accepted res = length ?rs" "pl_writer p' = pl_writer (dispatch cfg now (accepted_entries ?js) p)"
    using assms(1) unfolding ingest_raw_def l_def[symmetric] by (auto simp: Let_def readings split: prod.splits)
  have "(sensor, owned_of sensor ts (rw_value raw) (assess_quality sensor (rw_value raw) (rw_quality raw))) \<in> set (accepted_entries ?js)"
    using assms(2-5) unfolding judge_batch_def by (induction batch) (auto simp: judge_raw_def Let_def split: option.splits)
  then obtain r where r: "r \<in> set ?rs" "rd_ts r = ts" by (force simp: owned_of_def)
  then have w': "pl_writer p' = enqueue now ?rs (pl_writer p)" using res(2) by (auto simp: dispatch_frame)
  have "length (accepted_entries js) \<le> length js" for js by (induction js rule: accepted_entries.induct) simp_all
  from this[of ?js] have "length ?rs \<le> length batch" by (simp add: judge_batch_def)
  then have fits: "length (wr_buffer (pl_writer p) @ ?rs) \<le> wr_max_rows (pl_writer p)" using assms(9) by simp
  let ?w = "(pl_writer p)\<lparr>wr_buffer := wr_buffer (pl_writer p) @ ?rs,
      wr_touched := fold (\<lambda>r. touch (rd_tenant r) (rd_sensor r)) ?rs (wr_touched (pl_writer p))\<rparr>"
  have "unstorable storable ?rs" using r assms(6) by (auto simp: unstorable_def)
  then have "stalled storable ?w" using assms(7,8) by (simp add: stalled_def)
  then have st: "stalled storable (pl_writer p')" unfolding w' enqueue_def Let_def
    using fits stalled_begin by (simp add: shed_oldest_def Let_def)
  obtain w2 s2 where run: "fst (writer_run evs (pl_writer p', st)) = (w2, s2)" by fastforce
  have "0 < length ?rs" using r(1) by (cases ?rs) auto
  then show ?thesis
    using stalled_run[OF st assms(10,11) run] res(1) run w' by (simp add: enqueue_stats)
qed

text \<open>What PostgreSQL's \<open>timestamptz\<close> can hold, in milliseconds, and a reading before it.\<close>

definition sample_storable :: "ms \<Rightarrow> bool" where
  "sample_storable ts = (-210866803200000 \<le> ts \<and> ts < 9224318016000000)"

definition sample_stall :: "writer_event list" where
  "sample_stall = [WTimer 3000, WFail ''timestamp out of range'', WTimer 4000, WFail ''timestamp out of range'']"

theorem ancient_reading_stalls_writer_witness:
  "wr_flushes (fst (fst (writer_run sample_stall
     (pl_writer (snd (ingest_raw sample_cfg ''t1'' 2000 [raw_of ''KW'' (-1000000000000000)] sample_pipeline)), sample_store)))) = 0"
proof -
  have lookup: "registry_lookup (pl_registry sample_pipeline) ''t1'' (rw_external_id (raw_of ''KW'' (-1000000000000000))) =
      Some (sample_sensor ''b2'' ''t1'' ''KW'')"
    by (simp add: pipeline_eval)
  have judged: "judge_batch sample_cfg (pl_registry sample_pipeline) ''t1'' 2000 [raw_of ''KW'' (-1000000000000000)] =
      [Accepted (sample_sensor ''b2'' ''t1'' ''KW'') (owned_of (sample_sensor ''b2'' ''t1'' ''KW'') (-1000000000000000) (Num 5) Good)]"
    by (simp add: pipeline_eval)
  define w where "w = pl_writer (snd (ingest_raw sample_cfg ''t1'' 2000 [raw_of ''KW'' (-1000000000000000)] sample_pipeline))"
  have "il_readings (fold (ingest_one sample_cfg (pl_registry sample_pipeline) ''t1'' 2000) [raw_of ''KW'' (-1000000000000000)]
      \<lparr>il_unknown = [], il_readings = [], il_flagged = 0, il_future = 0\<rparr>) =
      [(sample_sensor ''b2'' ''t1'' ''KW'', owned_of (sample_sensor ''b2'' ''t1'' ''KW'') (-1000000000000000) (Num 5) Good)]"
    unfolding ingest_loop_spec(1)[OF refl] judged by simp
  then have w: "w = enqueue 2000 [owned_of (sample_sensor ''b2'' ''t1'' ''KW'') (-1000000000000000) (Num 5) Good] (mk_writer 10 100)"
    unfolding w_def ingest_raw_def Let_def by (simp add: dispatch_frame case_prod_unfold sample_pipeline_def del: fold_simps)
  have ok: "storable_run sample_storable sample_stall (w, sample_store)" "snd (writer_run sample_stall (w, sample_store)) = []"
    by (simp_all add: w sample_stall_def may_happen_def enqueue_def shed_oldest_def mk_writer_def flush_begin_def flush_fail_def
        shed_by_def Let_def owned_of_def sample_sensor_def)
  show ?thesis
    using ancient_reading_stalls_writer[OF surjective_pairing list.set_intros(1) lookup,
        where ts = "-1000000000000000" and storable = sample_storable and evs = sample_stall and st = sample_store]
      ok[unfolded w_def]
    by (simp add: raw_of_def sample_storable_def sample_cfg_def, simp add: sample_pipeline_def mk_writer_def)
qed

end
