(* ===== verification/Js_Regex.thy ===== *)
theory Js_Regex
  imports Prelude
begin

section \<open>Matching a pattern the way JavaScript does\<close>

text \<open>
  Texts are lists of code points. A pattern is matched by backtracking: \<open>ends\<close> lists the places where a match
  from a position can end, in the order the engine tries them, so the head is the match it takes. What the
  Unicode property classes contain and how characters fold is an argument.
\<close>

type_synonym codepoint = nat
type_synonym utext = "codepoint list"

definition cps :: "string \<Rightarrow> utext" where
  "cps s = map of_char s"

datatype rx =
    Sat "codepoint \<Rightarrow> bool"
  | Eps
  | Seq rx rx
  | Alt rx rx
  | Star rx
  | At "utext \<Rightarrow> nat \<Rightarrow> bool"

text \<open>An iteration of a star that consumes nothing is abandoned, so as many iterations as characters are enough.\<close>

fun star_ends :: "nat \<Rightarrow> (nat \<Rightarrow> nat list) \<Rightarrow> nat \<Rightarrow> nat list" where
  "star_ends 0 f i = [i]"
| "star_ends (Suc n) f i = concat (map (\<lambda>j. if i < j then star_ends n f j else []) (f i)) @ [i]"

primrec ends :: "rx \<Rightarrow> utext \<Rightarrow> nat \<Rightarrow> nat list" where
  "ends (Sat p) s i = (if i < length s \<and> p (s ! i) then [Suc i] else [])"
| "ends Eps s i = [i]"
| "ends (Seq a b) s i = concat (map (ends b s) (ends a s i))"
| "ends (Alt a b) s i = ends a s i @ ends b s i"
| "ends (Star r) s i = star_ends (length s - i) (ends r s) i"
| "ends (At p) s i = (if p s i then [i] else [])"

text \<open>The matches of a global search, each from the end of the one before.\<close>

fun search :: "nat \<Rightarrow> rx \<Rightarrow> utext \<Rightarrow> nat \<Rightarrow> (nat \<times> nat) list" where
  "search 0 r s i = []"
| "search (Suc n) r s i =
     (case ends r s i of
        [] \<Rightarrow> search n r s (Suc i)
      | j # _ \<Rightarrow> (i, j) # search n r s (if j = i then Suc i else j))"

definition all_matches :: "rx \<Rightarrow> utext \<Rightarrow> (nat \<times> nat) list" where
  "all_matches r s = search (Suc (length s)) r s 0"

definition rx_test :: "rx \<Rightarrow> utext \<Rightarrow> bool" where
  "rx_test r s = list_ex (\<lambda>i. ends r s i \<noteq> []) [0 ..< Suc (length s)]"

definition piece :: "utext \<Rightarrow> nat \<Rightarrow> nat \<Rightarrow> utext" where
  "piece s i j = take (j - i) (drop i s)"

subsection \<open>Characters\<close>

record unicode =
  uc_letter :: "codepoint \<Rightarrow> bool"
  uc_number :: "codepoint \<Rightarrow> bool"
  uc_decimal :: "codepoint \<Rightarrow> bool"
  uc_format :: "codepoint \<Rightarrow> bool"
  uc_fold :: "codepoint \<Rightarrow> codepoint"

definition js_space :: "codepoint \<Rightarrow> bool" where
  "js_space c = (c \<in> {9, 10, 11, 12, 13, 32, 0xA0, 0x1680, 0x2028, 0x2029, 0x202F, 0x205F, 0x3000, 0xFEFF} \<or> 0x2000 \<le> c \<and> c \<le> 0x200A)"

definition word_char :: "unicode \<Rightarrow> codepoint \<Rightarrow> bool" where
  "word_char u c = list_ex (\<lambda>w. uc_fold u c = uc_fold u w)
     (cps ''ABCDEFGHIJKLMNOPQRSTUVWXYZabcdefghijklmnopqrstuvwxyz0123456789_'')"

definition before :: "(codepoint \<Rightarrow> bool) \<Rightarrow> utext \<Rightarrow> nat \<Rightarrow> bool" where
  "before p s i = (0 < i \<and> i \<le> length s \<and> p (s ! (i - 1)))"

definition after :: "(codepoint \<Rightarrow> bool) \<Rightarrow> utext \<Rightarrow> nat \<Rightarrow> bool" where
  "after p s i = (i < length s \<and> p (s ! i))"

definition boundary :: "unicode \<Rightarrow> rx" where
  "boundary u = At (\<lambda>s i. before (word_char u) s i \<noteq> after (word_char u) s i)"

definition at_start :: rx where "at_start = At (\<lambda>s i. i = 0)"

definition at_end :: rx where "at_end = At (\<lambda>s i. i = length s)"

definition one_of :: "unicode \<Rightarrow> utext \<Rightarrow> rx" where
  "one_of u cs = Sat (\<lambda>c. list_ex (\<lambda>k. uc_fold u c = uc_fold u k) cs)"

definition opt :: "rx \<Rightarrow> rx" where "opt r = Alt r Eps"

definition plus1 :: "rx \<Rightarrow> rx" where "plus1 r = Seq r (Star r)"

fun seqs :: "rx list \<Rightarrow> rx" where
  "seqs [] = Eps"
| "seqs (r # rs) = Seq r (seqs rs)"

fun alts :: "rx list \<Rightarrow> rx" where
  "alts [] = At (\<lambda>s i. False)"
| "alts (r # rs) = Alt r (alts rs)"

definition lit :: "unicode \<Rightarrow> string \<Rightarrow> rx" where
  "lit u w = seqs (map (\<lambda>c. one_of u [c]) (cps w))"

subsection \<open>Where a match can end\<close>

named_theorems match_intros

lemma ends_Seq [match_intros]: "k \<in> set (ends a s i) \<Longrightarrow> j \<in> set (ends b s k) \<Longrightarrow> j \<in> set (ends (Seq a b) s i)"
  by auto

lemma ends_opt: "i \<in> set (ends (opt r) s i)" "j \<in> set (ends r s i) \<Longrightarrow> j \<in> set (ends (opt r) s i)"
  by (simp_all add: opt_def)

lemma ends_alts: "r \<in> set rs \<Longrightarrow> j \<in> set (ends r s i) \<Longrightarrow> j \<in> set (ends (alts rs) s i)"
  by (induction rs) auto

lemma star_ends_zero: "i \<in> set (star_ends n f i)"
  by (cases n) simp_all

lemma ends_Star: "i \<in> set (ends (Star r) s i)"
  by (simp add: star_ends_zero)

lemma ends_plus1: "j \<in> set (ends r s i) \<Longrightarrow> j \<in> set (ends (plus1 r) s i)"
  unfolding plus1_def by (erule ends_Seq) (rule ends_Star)

lemma ends_Sat: "i < length s \<Longrightarrow> p (s ! i) \<Longrightarrow> Suc i \<in> set (ends (Sat p) s i)"
  by simp

lemma ends_At: "p s i \<Longrightarrow> i \<in> set (ends (At p) s i)"
  by simp

lemma ends_lit:
  "i + length w \<le> length s \<Longrightarrow> take (length w) (drop i s) = cps w \<Longrightarrow> i + length w \<in> set (ends (lit u w) s i)"
proof (induction w arbitrary: i)
  case (Cons c w)
  have i: "i < length s" using Cons.prems(1) by simp
  then have d: "drop i s = s ! i # drop (Suc i) s" by (rule Cons_nth_drop_Suc[symmetric])
  have "s ! i = of_char c" "take (length w) (drop (Suc i) s) = cps w" using Cons.prems(2) by (simp_all add: d cps_def)
  moreover from Cons.IH[of "Suc i"] this(2) Cons.prems(1) have "Suc i + length w \<in> set (ends (lit u w) s (Suc i))" by simp
  ultimately show ?case using i by (auto simp: lit_def cps_def one_of_def)
qed (simp add: lit_def cps_def)

lemma rx_testI: "j \<in> set (ends r s i) \<Longrightarrow> i \<le> length s \<Longrightarrow> rx_test r s"
  unfolding rx_test_def list_ex_iff set_upt by (rule bexI[of _ i]) (auto simp del: upt_Suc)

text \<open>A search finds something as soon as some position matches.\<close>

lemma search_found:
  "ends r s i \<noteq> [] \<Longrightarrow> k \<le> i \<Longrightarrow> i < k + n \<Longrightarrow> search n r s k \<noteq> []"
proof (induction n arbitrary: k)
  case (Suc n)
  show ?case
  proof (cases "ends r s k")
    case Nil
    then have "k \<noteq> i" using Suc.prems(1) by auto
    then show ?thesis using Nil Suc.IH[of "Suc k"] Suc.prems by simp
  qed simp
qed simp

lemma all_matches_found: "j \<in> set (ends r s i) \<Longrightarrow> i \<le> length s \<Longrightarrow> all_matches r s \<noteq> []"
  unfolding all_matches_def by (rule search_found[of r s i]) auto

end
