(* ===== verification/Copilot_Units.thy ===== *)
theory Copilot_Units
  imports Js_Regex
begin

section \<open>Units and figures (apps/web/lib/copilot/units.ts)\<close>

text \<open>
  The unit of a number is the suffix of the key it is cited from. A figure is shown as \<open>Intl.NumberFormat\<close>
  shows it in \<open>en-US\<close>: rounded half away from zero, with its thousands grouped. Numbers are exact rationals.
\<close>

datatype unit_id = UKperH | UZoneH | UKwh | UKw | UPpm | UCmh | UPct | UM2 | UM3 | UMin | UCount | UKg | UC | UK | UH | US

definition unit_name :: "unit_id \<Rightarrow> string" where
  "unit_name x = (case x of UKperH \<Rightarrow> ''k_per_h'' | UZoneH \<Rightarrow> ''zone_h'' | UKwh \<Rightarrow> ''kwh'' | UKw \<Rightarrow> ''kw'' | UPpm \<Rightarrow> ''ppm''
     | UCmh \<Rightarrow> ''cmh'' | UPct \<Rightarrow> ''pct'' | UM2 \<Rightarrow> ''m2'' | UM3 \<Rightarrow> ''m3'' | UMin \<Rightarrow> ''min'' | UCount \<Rightarrow> ''count'' | UKg \<Rightarrow> ''kg''
     | UC \<Rightarrow> ''c'' | UK \<Rightarrow> ''k'' | UH \<Rightarrow> ''h'' | US \<Rightarrow> ''s'')"

definition unit_suffixes :: "(string \<times> unit_id) list" where
  "unit_suffixes = map (\<lambda>x. (CHR ''_'' # unit_name x, x))
     [UKperH, UZoneH, UKwh, UKw, UPpm, UCmh, UPct, UM2, UM3, UMin, UCount, UKg, UC, UK, UH, US]"

definition unit_symbol :: "unit_id \<Rightarrow> utext" where
  "unit_symbol x = (case x of UKperH \<Rightarrow> cps ''K/h'' | UZoneH \<Rightarrow> cps ''zone-hours'' | UKwh \<Rightarrow> cps ''kWh'' | UKw \<Rightarrow> cps ''kW''
     | UPpm \<Rightarrow> cps ''ppm'' | UCmh \<Rightarrow> cps ''m'' @ [0xB3] @ cps ''/h'' | UPct \<Rightarrow> cps ''%'' | UM2 \<Rightarrow> cps ''m'' @ [0xB2]
     | UM3 \<Rightarrow> cps ''m'' @ [0xB3] | UMin \<Rightarrow> cps ''min'' | UCount \<Rightarrow> [] | UKg \<Rightarrow> cps ''kg'' | UC \<Rightarrow> [0xB0] @ cps ''C''
     | UK \<Rightarrow> cps ''K'' | UH \<Rightarrow> cps ''h'' | US \<Rightarrow> cps ''s'')"

definition ends_in :: "string \<Rightarrow> string \<Rightarrow> bool" where
  "ends_in suffix s = (length suffix \<le> length s \<and> drop (length s - length suffix) s = suffix)"

fun unit_from :: "(string \<times> unit_id) list \<Rightarrow> string \<Rightarrow> unit_id option" where
  "unit_from [] key = None"
| "unit_from ((suffix, x) # rest) key =
     (if length key > length suffix \<and> ends_in suffix key
      then (let stem = take (length key - length suffix) key in
            if ends_in ''_per'' stem \<or> stem = ''per'' then None else Some x)
      else unit_from rest key)"

definition unit_of_key :: "string \<Rightarrow> unit_id option" where
  "unit_of_key key = unit_from unit_suffixes key"

subsection \<open>Figures\<close>

definition round_half_away :: "rat \<Rightarrow> int" where
  "round_half_away v = (if v < 0 then - \<lfloor>- v + 1 / 2\<rfloor> else \<lfloor>v + 1 / 2\<rfloor>)"

fun digits_of :: "nat \<Rightarrow> string" where
  "digits_of n = (if n < 10 then [] else digits_of (n div 10)) @ [char_of (48 + n mod 10)]"

declare digits_of.simps [simp del]

fun group3 :: "string \<Rightarrow> string" where
  "group3 (a # b # c # d # rest) = a # b # c # CHR '','' # group3 (d # rest)"
| "group3 ds = ds"

definition grouped :: "bool \<Rightarrow> string \<Rightarrow> string" where
  "grouped g ds = (if g then rev (group3 (rev ds)) else ds)"

definition pad_zeros :: "nat \<Rightarrow> string \<Rightarrow> string" where
  "pad_zeros n ds = replicate (n - length ds) CHR ''0'' @ ds"

text \<open>The sign is dropped when every digit that is left is a zero.\<close>

definition format_number :: "rat \<Rightarrow> nat \<Rightarrow> bool \<Rightarrow> string" where
  "format_number v decimals g =
     (let n = round_half_away (v * 10 ^ decimals); m = nat \<bar>n\<bar>;
          whole = m div 10 ^ decimals; part = m mod 10 ^ decimals;
          shown = grouped g (digits_of whole) @ (if decimals = 0 then [] else CHR ''.'' # pad_zeros decimals (digits_of part))
      in (if n < 0 then ''-'' else []) @ shown)"

definition displayed_value :: "rat \<Rightarrow> nat \<Rightarrow> rat" where
  "displayed_value v decimals = of_int (round_half_away (v * 10 ^ decimals)) / 10 ^ decimals"

definition format_quantity :: "rat \<Rightarrow> nat \<Rightarrow> unit_id \<Rightarrow> utext" where
  "format_quantity v decimals x =
     (let n = cps (format_number v decimals True) in
      if unit_symbol x = [] then n
      else if x = UPct then n @ unit_symbol x else n @ cps '' '' @ unit_symbol x)"

definition default_decimals :: "unit_id \<Rightarrow> rat \<Rightarrow> nat" where
  "default_decimals x v =
     (if x \<in> {UC, UK, UKperH, UKw, UM3, UH, UZoneH} then 1
      else if x = UCount then (if v = of_int \<lfloor>v\<rfloor> then 0 else 1) else 0)"

subsection \<open>What is read off the screen\<close>

text \<open>The reference: a reader of a shown figure, who skips the commas.\<close>

definition digit_val :: "char \<Rightarrow> nat" where
  "digit_val c = of_char c - 48"

definition read_digits :: "string \<Rightarrow> nat" where
  "read_digits ds = fold (\<lambda>c n. 10 * n + digit_val c) (filter (\<lambda>c. c \<noteq> CHR '','') ds) 0"

definition read_number :: "string \<Rightarrow> rat" where
  "read_number s =
     (let neg = (take 1 s = ''-''); body = (if neg then tl s else s);
          whole = takeWhile (\<lambda>c. c \<noteq> CHR ''.'') body; part = drop (length whole + 1) body;
          v = of_nat (read_digits whole) + of_nat (read_digits part) / 10 ^ length part
      in if neg then - v else v)"

definition digit :: "char \<Rightarrow> bool" where
  "digit c = (c \<in> set ''0123456789'')"

lemma digit_char: "digit (char_of (48 + n mod 10))" "digit_val (char_of (48 + n mod 10)) = n mod 10" for n :: nat
proof -
  have "list_all (\<lambda>m :: nat. digit (char_of (48 + m)) \<and> digit_val (char_of (48 + m)) = m) [0 ..< 10]" by code_simp
  then show "digit (char_of (48 + n mod 10))" "digit_val (char_of (48 + n mod 10)) = n mod 10"
    unfolding list_all_iff by simp_all
qed

lemma digits_of_digits: "list_all digit (digits_of n)" "digits_of n \<noteq> []"
proof -
  show "list_all digit (digits_of n)" by (induction n rule: digits_of.induct) (subst digits_of.simps, simp add: digit_char)
  show "digits_of n \<noteq> []" by (subst digits_of.simps) simp
qed

lemma digit_facts: "digit c \<Longrightarrow> c \<noteq> CHR '',''" "digit c \<Longrightarrow> c \<noteq> CHR ''.''" "digit c \<Longrightarrow> c \<noteq> CHR ''-''"
  by (auto simp: digit_def)

lemma filter_commas: "list_all digit ds \<Longrightarrow> filter (\<lambda>c. c \<noteq> CHR '','') ds = ds"
  using digit_facts(1) by (induction ds) auto

lemma group3_spec:
  "list_all digit ds \<Longrightarrow> filter (\<lambda>c. c \<noteq> CHR '','') (group3 ds) = ds \<and> set (group3 ds) \<subseteq> insert CHR '','' (set ds)"
  using digit_facts(1) by (induction ds rule: group3.induct) auto

lemma grouped_spec:
  assumes "list_all digit ds"
  shows "filter (\<lambda>c. c \<noteq> CHR '','') (grouped g ds) = ds" "set (grouped g ds) \<subseteq> insert CHR '','' (set ds)"
proof -
  have "list_all digit (rev ds)" using assms by simp
  from group3_spec[OF this] show "filter (\<lambda>c. c \<noteq> CHR '','') (grouped g ds) = ds" "set (grouped g ds) \<subseteq> insert CHR '','' (set ds)"
    using filter_commas[OF assms] by (auto simp: grouped_def rev_filter[symmetric])
qed

lemma read_digits_append: "fold (\<lambda>c n. 10 * n + digit_val c) (xs @ [x]) 0 = 10 * fold (\<lambda>c n. 10 * n + digit_val c) xs 0 + digit_val x"
  by simp

lemma read_digits_of: "read_digits (digits_of n) = n"
proof (induction n rule: digits_of.induct)
  case (1 n)
  have "read_digits (digits_of n) = fold (\<lambda>c n. 10 * n + digit_val c) (digits_of n) 0"
    by (simp add: read_digits_def filter_commas digits_of_digits)
  also have "\<dots> = 10 * (if n < 10 then 0 else n div 10) + n mod 10"
    using 1 by (subst digits_of.simps) (auto simp: digit_char read_digits_def filter_commas digits_of_digits)
  also have "\<dots> = n" by simp
  finally show ?case .
qed

lemma read_grouped: "read_digits (grouped g (digits_of n)) = n"
  using read_digits_of[of n] by (simp add: read_digits_def grouped_spec filter_commas digits_of_digits)

lemma read_padded: "list_all digit ds \<Longrightarrow> read_digits (pad_zeros n ds) = read_digits ds"
proof -
  have "fold (\<lambda>c n. 10 * n + digit_val c) (replicate k CHR ''0'') 0 = 0" for k
    by (induction k) (simp_all add: digit_val_def)
  moreover have "filter (\<lambda>c. c \<noteq> CHR '','') (replicate k CHR ''0'') = replicate k CHR ''0''" for k by (induction k) auto
  ultimately show "list_all digit ds \<Longrightarrow> read_digits (pad_zeros n ds) = read_digits ds"
    by (simp add: read_digits_def pad_zeros_def filter_commas)
qed

lemma digits_length: "n < 10 ^ k \<Longrightarrow> 0 < k \<Longrightarrow> length (digits_of n) \<le> k"
proof (induction k arbitrary: n)
  case (Suc k)
  show ?case
  proof (cases "n < 10")
    case True
    then show ?thesis by (subst digits_of.simps) simp
  next
    case False
    then have "n div 10 < 10 ^ k" "0 < k" using Suc.prems by (auto simp: less_mult_imp_div_less intro!: gr0I)
    then show ?thesis using Suc.IH[of "n div 10"] False by (subst digits_of.simps) simp
  qed
qed simp

text \<open>C38: What the operator sees is what the verifier compared: read back, commas and all, the text of a figure is
  the rounded value exactly, whatever its size and sign.\<close>
theorem shown_value_read_back:
  "read_number (format_number v decimals g) = displayed_value v decimals"
proof -
  define n where "n = round_half_away (v * 10 ^ decimals)"
  define m where "m = nat \<bar>n\<bar>"
  define whole where "whole = grouped g (digits_of (m div 10 ^ decimals))"
  define part where "part = (if decimals = 0 then [] else pad_zeros decimals (digits_of (m mod 10 ^ decimals)))"
  have "c = CHR '','' \<or> digit c" if "c \<in> set whole" for c
    using that grouped_spec(2)[OF digits_of_digits(1), of g "m div 10 ^ decimals"] digits_of_digits(1)[of "m div 10 ^ decimals"]
    unfolding whole_def list_all_iff by blast
  then have ds: "list_all (\<lambda>c. c \<noteq> CHR ''.'' \<and> c \<noteq> CHR ''-'') whole"
    using digit_facts(2,3) unfolding list_all_iff by fastforce
  have "filter (\<lambda>c. c \<noteq> CHR '','') whole \<noteq> []"
    using digits_of_digits by (simp add: whole_def grouped_spec)
  then have w: "whole \<noteq> []" by auto
  have lp: "length part = decimals"
    using digits_length[of "m mod 10 ^ decimals" decimals] by (auto simp: part_def pad_zeros_def)
  define body where "body = whole @ (if decimals = 0 then [] else CHR ''.'' # part)"
  have tw: "takeWhile (\<lambda>c. c \<noteq> CHR ''.'') body = whole" "drop (length whole + 1) body = part"
    using ds by (auto simp: body_def part_def list_all_iff takeWhile_append)
  have rd: "read_digits whole = m div 10 ^ decimals" "read_digits part = m mod 10 ^ decimals"
    by (auto simp: whole_def part_def read_grouped read_padded digits_of_digits read_digits_of) (simp add: read_digits_def)
  have "(of_nat (m div 10 ^ decimals) + of_nat (m mod 10 ^ decimals) / 10 ^ decimals :: rat) = of_nat m / 10 ^ decimals"
  proof -
    have "(of_nat m :: rat) = of_nat (m div 10 ^ decimals) * of_nat (10 ^ decimals) + of_nat (m mod 10 ^ decimals)"
      by (simp only: of_nat_mult[symmetric] of_nat_add[symmetric] div_mult_mod_eq)
    then show ?thesis by (simp add: field_simps)
  qed
  moreover have "take 1 body \<noteq> ''-''" using ds w by (cases whole) (auto simp: body_def)
  moreover have "format_number v decimals g = (if n < 0 then ''-'' else []) @ body"
    by (simp add: format_number_def n_def[symmetric] m_def[symmetric] body_def whole_def part_def Let_def)
  moreover from calculation have "read_number (format_number v decimals g) =
      (if n < 0 then - (of_nat (m div 10 ^ decimals) + of_nat (m mod 10 ^ decimals) / 10 ^ decimals)
       else of_nat (m div 10 ^ decimals) + of_nat (m mod 10 ^ decimals) / 10 ^ decimals)"
    using tw rd lp by (simp add: read_number_def Let_def del: length_drop)
  ultimately have "read_number (format_number v decimals g) = (if n < 0 then - 1 else 1) * (of_nat m / 10 ^ decimals)"
    by simp
  also have "\<dots> = of_int n / 10 ^ decimals" by (simp add: m_def)
  finally show ?thesis by (simp add: displayed_value_def n_def)
qed

end
