(* ===== verification/Copilot_Evidence.thy ===== *)
theory Copilot_Evidence
  imports Copilot_Units
begin

section \<open>The evidence vocabulary (apps/web/lib/copilot/evidence.ts and caveats.ts)\<close>

text \<open>
  What a tool result becomes, what an answer is made of and what the verifier can say of it. The wording of the
  caveats is left out; which caveat is shown, and in which order, is modelled.
\<close>

datatype evidence_kind = Measured | Simulated | Configured

datatype caveat =
    SIM_ANALYTICALLY_VERIFIED | SIM_SYNTHETIC_WEATHER | SIM_UNIFORM_DELTA | SIM_UNMET_OWN_BAND | SIM_CONSTANT_COP_NO_SETBACK
  | SIM_PEAK_INTERVAL_MEAN | SIM_PLANT_RESIZED_PER_RUN | SIM_SUBSET | PARTIAL_COVERAGE | FLAGGED_EXCLUDED | PLANT_NOT_ALLOCATED
  | FLOORS_WITHIN_2PCT | METER_SUSPECT_BUCKETS | MAIN_VS_SUBMETERS_UNRECONCILED | NO_STATUS_HISTORY | NO_WEATHER_STORED
  | NO_SCHEDULED_START

definition caveat_ids :: "caveat list" where
  "caveat_ids =
     [SIM_ANALYTICALLY_VERIFIED, SIM_SYNTHETIC_WEATHER, SIM_UNIFORM_DELTA, SIM_UNMET_OWN_BAND, SIM_CONSTANT_COP_NO_SETBACK,
      SIM_PEAK_INTERVAL_MEAN, SIM_PLANT_RESIZED_PER_RUN, SIM_SUBSET, PARTIAL_COVERAGE, FLAGGED_EXCLUDED, PLANT_NOT_ALLOCATED,
      FLOORS_WITHIN_2PCT, METER_SUSPECT_BUCKETS, MAIN_VS_SUBMETERS_UNRECONCILED, NO_STATUS_HISTORY, NO_WEATHER_STORED,
      NO_SCHEDULED_START]"

definition simulated_figure_caveat :: caveat where
  "simulated_figure_caveat = SIM_ANALYTICALLY_VERIFIED"

definition check_mode_caveat :: caveat where
  "check_mode_caveat = NO_SCHEDULED_START"

text \<open>The lines are left as their codes: without repetition, in catalogue order.\<close>

definition caveat_lines :: "caveat list \<Rightarrow> caveat list" where
  "caveat_lines ids = filter (\<lambda>i. i \<in> set ids) caveat_ids"

lemma caveat_lines_set: "set (caveat_lines ids) = set ids"
proof -
  have "c \<in> set caveat_ids" for c by (cases c) (simp_all add: caveat_ids_def)
  then show ?thesis by (auto simp: caveat_lines_def)
qed

lemma caveat_lines_distinct: "distinct (caveat_lines ids)"
  unfolding caveat_lines_def by (rule distinct_filter) (simp add: caveat_ids_def)

subsection \<open>Ids\<close>

definition decimal_char :: "char \<Rightarrow> bool" where
  "decimal_char c = (c \<in> set ''0123456789'')"

definition one_or_two_digits :: "string \<Rightarrow> bool" where
  "one_or_two_digits s = (length s \<in> {1, 2} \<and> list_all decimal_char s)"

definition evidence_id_ok :: "string \<Rightarrow> bool" where
  "evidence_id_ok s =
     (s \<in> {''C.1'', ''C.2'', ''C.3''} \<or>
      (take 1 s = ''T'' \<and> take 1 (drop 1 s) \<in> {''1'', ''2'', ''3'', ''4'', ''5'', ''6'', ''7'', ''8''} \<and> take 2 (drop 2 s) = ''.E'' \<and>
         one_or_two_digits (drop 4 s)) \<or>
      (take 3 s = ''K.E'' \<and> one_or_two_digits (drop 3 s)))"

definition task_id_ok :: "string \<Rightarrow> bool" where
  "task_id_ok s = (s \<in> {''C'', ''K''} \<or> (length s = 2 \<and> take 1 s = ''T'' \<and> drop 1 s \<in> {''1'', ''2'', ''3'', ''4'', ''5'', ''6'', ''7'', ''8''}))"

subsection \<open>Evidence\<close>

datatype evidence_source =
    Telemetry5m | Telemetry1h | TelemetryT | AlertsSource | ControlCommands | MaintenanceLogs | EquipmentSource
  | WeatherObservations | SimulationSource | IngestControl | Directory

record evidence =
  ev_id :: string
  ev_task :: string
  ev_tool :: string
  ev_kind :: evidence_kind
  ev_source :: evidence_source
  ev_label :: string
  ev_window :: "(string \<times> string) option"
  ev_coverage :: "(nat \<times> nat) option"
  ev_flagged_excluded :: "nat option"
  ev_truncated :: "(nat \<times> nat) option"
  ev_caveats :: "caveat list"
  ev_headline :: "(string \<times> string) list"
  ev_data :: json
  ev_at :: string

definition evidence_ok :: "evidence \<Rightarrow> bool" where
  "evidence_ok e =
     (evidence_id_ok (ev_id e) \<and> task_id_ok (ev_task e) \<and> 1 \<le> length (ev_tool e) \<and> length (ev_tool e) \<le> 64 \<and>
      length (ev_label e) \<le> 200 \<and> length (ev_headline e) \<le> 6 \<and>
      list_all (\<lambda>(l, p). length l \<le> 80 \<and> length p \<le> 120) (ev_headline e) \<and>
      take (length (ev_task e) + 1) (ev_id e) = ev_task e @ ''.'')"

type_synonym evidence_map = "(string, evidence) jsmap"

subsection \<open>Answers\<close>

record ref =
  rf_evidence :: string
  rf_path :: string

datatype basis = BasisOf evidence_kind | Derived

datatype derive_op = Difference | Sum | PercentChange

record figure =
  fg_value :: rat
  fg_decimals :: nat
  fg_unit :: unit_id
  fg_basis :: basis
  fg_ref :: "ref option"
  fg_derive :: "(derive_op \<times> ref list) option"

datatype segment = TextSeg utext | NumSeg figure | CiteSeg "string list"

record answer_doc =
  an_paragraphs :: "segment list list"
  an_caveats :: "caveat list"

text \<open>A text's length counts UTF-16 units.\<close>

definition utf16_length :: "utext \<Rightarrow> nat" where
  "utf16_length t = sum_list (map (\<lambda>c. if c > 0xFFFF then 2 else 1) t)"

definition ref_ok :: "ref \<Rightarrow> bool" where
  "ref_ok r = (evidence_id_ok (rf_evidence r) \<and> 1 \<le> length (rf_path r) \<and> length (rf_path r) \<le> 120)"

definition segment_ok :: "segment \<Rightarrow> bool" where
  "segment_ok s =
     (case s of
        TextSeg t \<Rightarrow> utf16_length t \<le> 600
      | NumSeg f \<Rightarrow> fg_decimals f \<le> 3 \<and> (case fg_ref f of None \<Rightarrow> True | Some r \<Rightarrow> ref_ok r) \<and>
          (case fg_derive f of None \<Rightarrow> True | Some (_, rs) \<Rightarrow> 2 \<le> length rs \<and> length rs \<le> 6 \<and> list_all ref_ok rs)
      | CiteSeg ids \<Rightarrow> 1 \<le> length ids \<and> length ids \<le> 6 \<and> list_all evidence_id_ok ids)"

definition answer_ok :: "answer_doc \<Rightarrow> bool" where
  "answer_ok a =
     (1 \<le> length (an_paragraphs a) \<and> length (an_paragraphs a) \<le> 6 \<and>
      list_all (\<lambda>p. p \<noteq> [] \<and> list_all segment_ok p) (an_paragraphs a) \<and> length (an_caveats a) \<le> 16)"

subsection \<open>Verification\<close>

datatype verify_rule =
    RShape | RRef | RDerive | RUnit | RBasis | RUncitable | RValueMismatch | RUnitNumberInText | RGluedFigure | RCaveatRequired
  | RCaveatUnsupported | RUnpairedTotal | RBannedWord | RInvisibleCharacter | REvidenceScope | RTooLong

text \<open>A violation is its segment, counted across the paragraphs, and its rule; the sentence that goes with it is left out.\<close>

type_synonym violation = "nat option \<times> verify_rule"

end
