(* ===== verification/Copilot_Verify.thy ===== *)
theory Copilot_Verify
  imports Copilot_Evidence
begin

section \<open>The verifier (apps/web/lib/copilot/verify.ts)\<close>

text \<open>
  A pure function between the model's draft and the operator. The patterns are written out as the source has
  them; the Unicode classes and the folding of case are an argument.
\<close>

subsection \<open>Patterns\<close>

definition sp :: rx where
  "sp = Sat (\<lambda>c. js_space c \<or> c \<in> {0xA0, 0x202F, 0x2009})"

definition spaces :: rx where "spaces = Star (Sat js_space)"

definition digits_rx :: "unicode \<Rightarrow> rx" where
  "digits_rx u =
     (let nd = Sat (uc_decimal u); sep = one_of u (cps ''.,'') in
      seqs [opt (Sat (\<lambda>c. c \<in> {0x2D, 0x2B, 0x2212})),
            alts [seqs [plus1 nd, Star (Seq sep (plus1 nd))], seqs [sep, plus1 nd]]])"

definition glued_left :: "unicode \<Rightarrow> codepoint \<Rightarrow> bool" where
  "glued_left u c = (uc_letter u c \<or> uc_number u c \<or> c \<in> set (cps ''_.,:/''))"

definition name_char :: "unicode \<Rightarrow> codepoint \<Rightarrow> bool" where
  "name_char u c = (uc_letter u c \<or> uc_number u c \<or> c = of_char CHR ''_'')"

definition multiplier :: "unicode \<Rightarrow> codepoint \<Rightarrow> bool" where
  "multiplier u c = list_ex (\<lambda>k. uc_fold u c = uc_fold u k) [0x394, 0x3B4, of_char CHR ''x'', of_char CHR ''X'', 0xD7]"

definition number_start :: "unicode \<Rightarrow> utext \<Rightarrow> nat \<Rightarrow> bool" where
  "number_start u s i =
     (\<not> before (glued_left u) s i \<or> (before (multiplier u) s i \<and> (i = 1 \<or> \<not> before (name_char u) s (i - 1))))"

definition number_rx :: "unicode \<Rightarrow> rx" where
  "number_rx u = Seq (At (number_start u)) (digits_rx u)"

definition unit_rxs :: "unicode \<Rightarrow> rx list" where
  "unit_rxs u =
     (let w = lit u; b = boundary u; o1 = one_of u; slash = seqs [spaces, w ''/'', spaces];
          no_word = At (\<lambda>s i. \<not> after (\<lambda>c. uc_letter u c \<or> uc_number u c) s i); dash = Sat (\<lambda>c. js_space c \<or> c = 0x2D);
          hour = seqs [w ''h'', opt (alts [w ''r'', w ''our''])]
      in [seqs [Sat (\<lambda>c. c = 0xB0), opt sp, opt (o1 (cps ''cfk''))], o1 [0x2103], o1 [0x2109], w ''%'', o1 [0x2030],
          seqs [w ''percent'', opt (w ''age''), opt (seqs [plus1 (Sat js_space), w ''point'', opt (w ''s'')]), b],
          seqs [w ''per'', opt (Sat js_space), w ''cent'', b], seqs [w ''pct'', opt (w ''s''), b], seqs [w ''pp'', b],
          seqs [w ''kelvin'', opt (w ''s''), b], seqs [w ''celsius'', b], seqs [w ''fahrenheit'', b],
          seqs [w ''degree'', opt (w ''s''), b], seqs [w ''deg'', opt (alts [w ''s'', o1 (cps ''cfk'')]), b],
          seqs [opt (alts [w ''kilo'', w ''mega'', w ''giga'']), w ''watt'', opt (seqs [opt dash, w ''hour'', opt (w ''s'')]), opt (w ''s''), b],
          seqs [opt (o1 (cps ''kmg'')), w ''w'', opt (w ''h''), b],
          seqs [w ''m'', o1 [0xB3, of_char CHR ''3''], opt (seqs [slash, hour]), no_word],
          seqs [w ''m'', o1 [0xB2, of_char CHR ''2''], no_word],
          seqs [w ''cmh'', b],
          seqs [alts [w ''cubic'', w ''square''], plus1 (Sat js_space), w ''met'', alts [w ''re'', w ''er''], opt (w ''s''), b],
          seqs [w ''ppm'', b],
          seqs [w ''zone'', opt (Sat (\<lambda>c. js_space c \<or> c = 0x5F \<or> c = 0x2D)), w ''h'', opt (seqs [w ''our'', opt (w ''s'')]), b],
          seqs [w ''k'', alts [slash, w ''_per_''], w ''h'', b],
          seqs [w ''h'', opt (alts [seqs [w ''our'', opt (w ''s'')], seqs [w ''r'', opt (w ''s'')]]), b],
          seqs [w ''min'', opt (alts [w ''s'', seqs [w ''ute'', opt (w ''s'')]]), b],
          seqs [w ''s'', opt (alts [seqs [w ''ec'', opt (w ''s'')], seqs [w ''econd'', opt (w ''s'')]]), b],
          seqs [w ''kg'', b], seqs [w ''kilo'', opt (w ''gram''), opt (w ''s''), b], seqs [w ''tonne'', opt (w ''s''), b],
          seqs [w ''ton'', opt (w ''s''), b], seqs [w ''t'', b], seqs [alts [w ''tr'', w ''rt''], b],
          seqs [w ''btu'', opt (w ''s''), opt (seqs [slash, hour]), b],
          seqs [opt (o1 (cps ''kmgt'')), w ''j'', b],
          seqs [alts [seqs [w ''joule'', opt (w ''s'')], seqs [w ''litre'', opt (w ''s'')], seqs [w ''liter'', opt (w ''s'')]], b],
          seqs [w ''l'', slash, w ''s'', b], seqs [w ''cfm'', b],
          seqs [alts [w ''aed'', w ''usd'', w ''eur'', w ''gbp'', seqs [w ''dh'', opt (w ''s'')], seqs [w ''dirham'', opt (w ''s'')],
                      seqs [w ''dollar'', opt (w ''s'')], seqs [w ''euro'', opt (w ''s'')], seqs [w ''pound'', opt (w ''s'')], w ''fils'',
                      seqs [w ''cent'', opt (w ''s'')]], b],
          seqs [w ''k'', b], seqs [w ''c'', b], seqs [w ''m'', b]])"

definition quantity_rx :: "unicode \<Rightarrow> rx" where
  "quantity_rx u = seqs [number_rx u, Star sp, opt (seqs [lit u ''-'', Star sp]), alts (unit_rxs u)]"

definition money_first_rx :: "unicode \<Rightarrow> rx" where
  "money_first_rx u =
     seqs [alts [seqs [At (\<lambda>s i. \<not> before (name_char u) s i),
                       alts [lit u ''aed'', lit u ''usd'', lit u ''eur'', lit u ''gbp'', seqs [lit u ''dh'', opt (lit u ''s'')]]],
                 Sat (\<lambda>c. c \<in> {0x24, 0x20AC, 0xA3, 0xA5, 0x20B9})],
           Star sp, digits_rx u]"

definition quantity_at_start :: "unicode \<Rightarrow> rx" where
  "quantity_at_start u = Seq at_start (quantity_rx u)"

definition validated_rx :: "unicode \<Rightarrow> rx" where
  "validated_rx u = seqs [boundary u, lit u ''validat'',
     alts [lit u ''e'', lit u ''ed'', lit u ''es'', lit u ''ing'', lit u ''ion'', lit u ''ions''], boundary u]"

definition forecast_rx :: "unicode \<Rightarrow> rx" where
  "forecast_rx u = seqs [boundary u, lit u ''forecast'',
     opt (alts [lit u ''s'', lit u ''ed'', lit u ''ing'', lit u ''er'', lit u ''ers'']), boundary u]"

subsection \<open>Prose\<close>

definition shown_text :: "unicode \<Rightarrow> utext \<Rightarrow> utext" where
  "shown_text u t = filter (\<lambda>c. \<not> uc_format u c) t"

definition trim_text :: "utext \<Rightarrow> utext" where
  "trim_text t = rev (dropWhile js_space (rev (dropWhile js_space t)))"

definition quantities_in :: "unicode \<Rightarrow> utext \<Rightarrow> utext list" where
  "quantities_in u t =
     (let v = shown_text u t in
      map (\<lambda>(i, j). trim_text (piece v i j))
        (sort_key fst (all_matches (quantity_rx u) v @ all_matches (money_first_rx u) v)))"

text \<open>The rules of wording; \<open>forecast\<close> says whether the request has forecast weather.\<close>

definition verify_text :: "unicode \<Rightarrow> utext \<Rightarrow> bool \<Rightarrow> verify_rule list" where
  "verify_text u t forecast =
     (let v = shown_text u t in
      (if list_ex (uc_format u) t then [RInvisibleCharacter] else []) @
      (if quantities_in u v \<noteq> [] then [RUnitNumberInText] else []) @
      (if rx_test (validated_rx u) v then [RBannedWord] else []) @
      (if rx_test (forecast_rx u) v \<and> \<not> forecast then [RBannedWord] else []))"

subsection \<open>Paths\<close>

datatype path_step = Key string | Index nat

definition key_start :: "char \<Rightarrow> bool" where
  "key_start c = (c \<in> set ''ABCDEFGHIJKLMNOPQRSTUVWXYZabcdefghijklmnopqrstuvwxyz_'')"

definition key_char :: "char \<Rightarrow> bool" where
  "key_char c = (key_start c \<or> decimal_char c)"

definition index_value :: "string \<Rightarrow> nat" where
  "index_value ds = fold (\<lambda>c n. 10 * n + (of_char c - 48)) ds 0"

text \<open>A key, then indexes of one to four digits, then either the end or a dot and another key. The fuel is the length.\<close>

fun path_from :: "nat \<Rightarrow> bool \<Rightarrow> string \<Rightarrow> path_step list option" where
  "path_from 0 key_next s = None"
| "path_from (Suc n) True s =
     (case s of
        [] \<Rightarrow> None
      | c # cs \<Rightarrow>
          if key_start c then map_option ((#) (Key (c # takeWhile key_char cs))) (path_from n False (dropWhile key_char cs)) else None)"
| "path_from (Suc n) False s =
     (case s of
        [] \<Rightarrow> Some []
      | c # cs \<Rightarrow>
          if c = CHR ''.'' then path_from n True cs
          else if c = CHR ''['' then
            (let ds = takeWhile decimal_char cs in
             if 1 \<le> length ds \<and> length ds \<le> 4 \<and> take 1 (drop (length ds) cs) = '']''
             then map_option ((#) (Index (index_value ds))) (path_from n False (drop (length ds + 1) cs)) else None)
          else None)"

definition parse_path :: "string \<Rightarrow> path_step list option" where
  "parse_path path = path_from (length path + 1) True path"

fun follow :: "path_step list \<Rightarrow> json \<Rightarrow> string \<Rightarrow> (json \<times> string) option" where
  "follow [] current key = Some (current, key)"
| "follow (Key k # ps) current key =
     (case current of
        JObject m \<Rightarrow> (case jget m k of None \<Rightarrow> None | Some v \<Rightarrow> follow ps v k)
      | _ \<Rightarrow> None)"
| "follow (Index i # ps) current key =
     (case current of
        JArray xs \<Rightarrow> if i < length xs then follow ps (xs ! i) key else None
      | _ \<Rightarrow> None)"

text \<open>The value a path leads to, with the last key on the way.\<close>

definition lookup_path :: "json \<Rightarrow> string \<Rightarrow> (json \<times> string) option" where
  "lookup_path data path = (case parse_path path of None \<Rightarrow> None | Some ps \<Rightarrow> follow ps data [])"

record cited =
  ct_evidence :: string
  ct_path :: string
  ct_value :: rat
  ct_unit :: unit_id
  ct_kind :: evidence_kind

definition resolve_ref :: "ref \<Rightarrow> evidence_map \<Rightarrow> verify_rule + cited" where
  "resolve_ref r evidence =
     (case jget evidence (rf_evidence r) of
        None \<Rightarrow> Inl REvidenceScope
      | Some e \<Rightarrow>
          (case lookup_path (ev_data e) (rf_path r) of
             Some (JNumber v, key) \<Rightarrow>
               (case unit_of_key key of
                  None \<Rightarrow> Inl RUncitable
                | Some x \<Rightarrow> Inr \<lparr>ct_evidence = rf_evidence r, ct_path = rf_path r, ct_value = v, ct_unit = x, ct_kind = ev_kind e\<rparr>)
           | _ \<Rightarrow> Inl RRef))"

subsection \<open>Derivations\<close>

definition evaluate_derive :: "derive_op \<Rightarrow> cited list \<Rightarrow> (rat \<times> unit_id) option" where
  "evaluate_derive op cs =
     (case op of
        Difference \<Rightarrow>
          (case cs of
             [a, b] \<Rightarrow>
               (if ct_unit a = UC \<and> ct_unit b = UC then Some (ct_value a - ct_value b, UK)
                else if ct_unit a = UC \<and> ct_unit b = UK then Some (ct_value a - ct_value b, UC)
                else if ct_unit a = ct_unit b \<and> ct_unit a \<noteq> UPct then Some (ct_value a - ct_value b, ct_unit a)
                else None)
           | _ \<Rightarrow> None)
      | Sum \<Rightarrow>
          (case cs of
             [] \<Rightarrow> None
           | c # _ \<Rightarrow>
               if list_ex (\<lambda>d. ct_unit d \<noteq> ct_unit c) cs then None
               else if ct_unit c = UC \<or> ct_unit c = UPct then None
               else Some (sum_list (map ct_value cs), ct_unit c))
      | PercentChange \<Rightarrow>
          (case cs of
             [a, b] \<Rightarrow>
               (if ct_unit a \<noteq> ct_unit b then None
                else if ct_unit a = UC \<or> ct_unit a = UPct then None
                else if ct_value a = 0 then None
                else Some ((ct_value b - ct_value a) / \<bar>ct_value a\<bar> * 100, UPct))
           | _ \<Rightarrow> None))"

definition agrees :: "rat \<Rightarrow> nat \<Rightarrow> rat \<Rightarrow> bool" where
  "agrees v decimals actual =
     (\<bar>displayed_value v decimals - actual\<bar> \<le> 1 / 2 / 10 ^ decimals + (1 / 10 ^ 9) * max 1 \<bar>actual\<bar>)"

subsection \<open>Figures\<close>

definition segment_evidence :: "segment \<Rightarrow> string list" where
  "segment_evidence s =
     (case s of
        TextSeg _ \<Rightarrow> []
      | CiteSeg ids \<Rightarrow> ids
      | NumSeg f \<Rightarrow> rev (remdups (rev ((case fg_ref f of Some r \<Rightarrow> [rf_evidence r] | None \<Rightarrow> []) @
                     (case fg_derive f of Some (_, rs) \<Rightarrow> map rf_evidence rs | None \<Rightarrow> [])))))"

text \<open>\<open>rows[01].x\<close> and \<open>rows[1].x\<close> get one spelling. An index is rewritten exactly; a run of more digits than a
  double can hold is not a path and fails later in any case.\<close>

fun canonical_path :: "nat \<Rightarrow> string \<Rightarrow> string" where
  "canonical_path 0 s = s"
| "canonical_path (Suc n) [] = []"
| "canonical_path (Suc n) (c # cs) =
     (let ds = takeWhile decimal_char cs in
      if c = CHR ''['' \<and> ds \<noteq> [] \<and> take 1 (drop (length ds) cs) = '']''
      then ''['' @ digits_of (index_value ds) @ '']'' @ canonical_path n (drop (length ds + 1) cs)
      else c # canonical_path n cs)"

definition place_of :: "ref \<Rightarrow> string" where
  "place_of r = rf_evidence r @ ''|'' @ canonical_path (length (rf_path r)) (rf_path r)"

definition check_ref :: "figure \<Rightarrow> ref \<Rightarrow> evidence_map \<Rightarrow> verify_rule list" where
  "check_ref f r evidence =
     (if fg_basis f = Derived then [RDerive]
      else case resolve_ref r evidence of
             Inl rule \<Rightarrow> [rule]
           | Inr c \<Rightarrow>
               (if fg_unit f \<noteq> ct_unit c then [RUnit] else []) @
               (if fg_basis f \<noteq> BasisOf (ct_kind c) then [RBasis] else []) @
               (if \<not> agrees (fg_value f) (fg_decimals f) (ct_value c) then [RValueMismatch] else []))"

definition check_derive :: "figure \<Rightarrow> derive_op \<Rightarrow> ref list \<Rightarrow> evidence_map \<Rightarrow> verify_rule list" where
  "check_derive f op rs evidence =
     (if fg_basis f \<noteq> Derived then [RBasis]
      else if \<not> distinct (map place_of rs) then [RDerive]
      else let found = map (\<lambda>r. resolve_ref r evidence) rs;
               bad = List.map_filter (\<lambda>x. case x of Inl rule \<Rightarrow> Some rule | Inr _ \<Rightarrow> None) found;
               cs = List.map_filter (\<lambda>x. case x of Inl _ \<Rightarrow> None | Inr c \<Rightarrow> Some c) found
           in if bad \<noteq> [] then bad
              else if Simulated \<in> ct_kind ` set cs \<and> Measured \<in> ct_kind ` set cs then [RBasis]
              else case evaluate_derive op cs of
                     None \<Rightarrow> [RDerive]
                   | Some (v, x) \<Rightarrow>
                       (if fg_unit f \<noteq> x then [RUnit] else []) @
                       (if \<not> agrees (fg_value f) (fg_decimals f) v then [RValueMismatch] else []))"

definition check_num :: "figure \<Rightarrow> evidence_map \<Rightarrow> verify_rule list" where
  "check_num f evidence =
     (case (fg_ref f, fg_derive f) of
        (None, None) \<Rightarrow> [RRef]
      | (Some _, Some _) \<Rightarrow> [RRef]
      | (Some r, None) \<Rightarrow> check_ref f r evidence
      | (None, Some (op, rs)) \<Rightarrow> check_derive f op rs evidence)"

subsection \<open>Prose around a figure\<close>

text \<open>What is read on one side of a figure up to the next, and whether a figure ends it: the segments after it,
  or the segments before it in reverse order.\<close>

fun prose_after :: "segment list \<Rightarrow> utext \<times> bool" where
  "prose_after [] = ([], False)"
| "prose_after (NumSeg _ # ss) = ([], True)"
| "prose_after (TextSeg t # ss) = (let (r, fig) = prose_after ss in (t @ r, fig))"
| "prose_after (CiteSeg _ # ss) = prose_after ss"

fun prose_before :: "segment list \<Rightarrow> utext \<times> bool" where
  "prose_before [] = ([], False)"
| "prose_before (NumSeg _ # ss) = ([], True)"
| "prose_before (TextSeg t # ss) = (let (r, fig) = prose_before ss in (r @ t, fig))"
| "prose_before (CiteSeg _ # ss) = prose_before ss"

definition glued_before_rx :: "unicode \<Rightarrow> rx" where
  "glued_before_rx u = Seq (alts [Sat (\<lambda>c. uc_number u c \<or> c \<in> set (cps ''.,'')),
     seqs [Sat (\<lambda>c. c \<in> {0x2B, 0x2D, 0x2212}), spaces]]) at_end"

definition glued_after_rx :: "unicode \<Rightarrow> rx" where
  "glued_after_rx u = Seq at_start (alts [Sat (uc_number u), seqs [Sat (\<lambda>c. c \<in> set (cps ''.,'')), Sat (uc_number u)]])"

definition trim_end :: "utext \<Rightarrow> utext" where
  "trim_end t = rev (dropWhile js_space (rev t))"

definition read_at_start :: "unicode \<Rightarrow> utext \<Rightarrow> utext option" where
  "read_at_start u t = (case ends (quantity_at_start u) t 0 of [] \<Rightarrow> None | j # _ \<Rightarrow> Some (trim_end (piece t 0 j)))"

definition joins :: "unicode \<Rightarrow> utext \<Rightarrow> utext \<Rightarrow> bool" where
  "joins u shown nx =
     (shown \<noteq> [] \<and> \<not> uc_number u (last shown) \<and> nx \<noteq> [] \<and>
      (uc_letter u (hd nx) \<or> uc_number u (hd nx) \<or> hd nx = 0xB0 \<or> hd nx = of_char CHR ''%''))"

definition check_glue :: "unicode \<Rightarrow> segment list \<Rightarrow> figure \<Rightarrow> segment list \<Rightarrow> verify_rule list" where
  "check_glue u earlier f later =
     (let (prev, prev_figure) = prose_before earlier; (nx, _) = prose_after later;
          shown = format_quantity (fg_value f) (fg_decimals f) (fg_unit f)
      in (if prev_figure \<and> prev = [] then [RGluedFigure] else []) @
         (if rx_test (glued_before_rx u) prev then [RGluedFigure] else []) @
         (if rx_test (glued_after_rx u) nx then [RGluedFigure]
          else if nx \<noteq> [] \<and>
            ((case read_at_start u (shown @ shown_text u nx) of None \<Rightarrow> False | Some r \<Rightarrow> utf16_length r > utf16_length shown) \<or>
             joins u shown nx)
          then [RGluedFigure] else []))"

definition is_simulated_figure :: "figure \<Rightarrow> evidence_map \<Rightarrow> bool" where
  "is_simulated_figure f evidence =
     (fg_basis f = BasisOf Simulated \<or>
      list_ex (\<lambda>i. case jget evidence i of Some e \<Rightarrow> ev_kind e = Simulated | None \<Rightarrow> False) (segment_evidence (NumSeg f)))"

subsection \<open>A meter's two totals\<close>

definition other_total :: "string \<Rightarrow> string option" where
  "other_total path =
     (if path = ''total_kwh'' then Some ''total_excluding_suspect_kwh''
      else if path = ''total_m3'' then Some ''total_excluding_suspect_m3''
      else if path = ''total_excluding_suspect_kwh'' then Some ''total_kwh''
      else if path = ''total_excluding_suspect_m3'' then Some ''total_m3'' else None)"

definition has_number :: "json \<Rightarrow> string \<Rightarrow> bool" where
  "has_number data path = (case lookup_path data path of Some (JNumber _, _) \<Rightarrow> True | _ \<Rightarrow> False)"

text \<open>The total that a ref leaves out, if the meter has suspect periods and the other total is a number.\<close>

definition missing_total :: "evidence_map \<Rightarrow> ref list \<Rightarrow> ref \<Rightarrow> string option" where
  "missing_total evidence here r =
     (case (other_total (rf_path r), jget evidence (rf_evidence r)) of
        (Some other, Some e) \<Rightarrow>
          if METER_SUSPECT_BUCKETS \<notin> set (ev_caveats e) then None
          else if list_ex (\<lambda>h. rf_evidence h = rf_evidence r \<and> rf_path h = other) here then None
          else if \<not> has_number (ev_data e) other then None else Some other
      | _ \<Rightarrow> None)"

fun unpaired_from :: "evidence_map \<Rightarrow> ref list \<Rightarrow> (string \<times> string) list \<Rightarrow> ref list \<Rightarrow> verify_rule list" where
  "unpaired_from evidence here seen [] = []"
| "unpaired_from evidence here seen (r # rs) =
     (case missing_total evidence here r of
        None \<Rightarrow> unpaired_from evidence here seen rs
      | Some other \<Rightarrow>
          if (rf_evidence r, other) \<in> set seen then unpaired_from evidence here seen rs
          else RUnpairedTotal # unpaired_from evidence here ((rf_evidence r, rf_path r) # seen) rs)"

definition unpaired_totals :: "ref list \<Rightarrow> evidence_map \<Rightarrow> verify_rule list" where
  "unpaired_totals refs evidence = unpaired_from evidence refs [] refs"

subsection \<open>Answers\<close>

definition flush_run :: "unicode \<Rightarrow> bool \<Rightarrow> (nat \<times> utext) option \<Rightarrow> violation list" where
  "flush_run u forecast r = (case r of None \<Rightarrow> [] | Some (from, t) \<Rightarrow> map (Pair (Some from)) (verify_text u t forecast))"

text \<open>One paragraph: the segments read so far, latest first, the prose that is being read, and what is left.\<close>

fun check_paragraph ::
  "unicode \<Rightarrow> evidence_map \<Rightarrow> bool \<Rightarrow> nat \<Rightarrow> segment list \<Rightarrow> (nat \<times> utext) option \<Rightarrow> segment list \<Rightarrow> violation list" where
  "check_paragraph u evidence forecast base earlier r [] = flush_run u forecast r"
| "check_paragraph u evidence forecast base earlier r (TextSeg t # ss) =
     check_paragraph u evidence forecast base (TextSeg t # earlier)
       (Some (case r of None \<Rightarrow> (base + length earlier, t) | Some (from, x) \<Rightarrow> (from, x @ t))) ss"
| "check_paragraph u evidence forecast base earlier r (CiteSeg ids # ss) =
     map (\<lambda>_. (Some (base + length earlier), REvidenceScope)) (filter (\<lambda>i. jget evidence i = None) ids) @
     check_paragraph u evidence forecast base (CiteSeg ids # earlier) r ss"
| "check_paragraph u evidence forecast base earlier r (NumSeg f # ss) =
     flush_run u forecast r @
     map (Pair (Some (base + length earlier))) (check_num f evidence @ check_glue u earlier f ss) @
     check_paragraph u evidence forecast base (NumSeg f # earlier) None ss"

definition segment_refs :: "segment \<Rightarrow> ref list" where
  "segment_refs s =
     (case s of NumSeg f \<Rightarrow> (case fg_ref f of Some r \<Rightarrow> [r] | None \<Rightarrow> []) @ (case fg_derive f of Some (_, rs) \<Rightarrow> rs | None \<Rightarrow> [])
      | _ \<Rightarrow> [])"

fun check_paragraphs :: "unicode \<Rightarrow> evidence_map \<Rightarrow> bool \<Rightarrow> nat \<Rightarrow> segment list list \<Rightarrow> violation list" where
  "check_paragraphs u evidence forecast base [] = []"
| "check_paragraphs u evidence forecast base (p # ps) =
     check_paragraph u evidence forecast base [] None p @
     map (Pair None) (unpaired_totals (concat (map segment_refs p)) evidence) @
     check_paragraphs u evidence forecast (base + length p) ps"

definition cited_ids :: "evidence_map \<Rightarrow> segment list \<Rightarrow> string list" where
  "cited_ids evidence ss = rev (remdups (rev (filter (\<lambda>i. jget evidence i \<noteq> None) (concat (map segment_evidence ss)))))"

definition simulated_figures :: "evidence_map \<Rightarrow> segment list \<Rightarrow> bool" where
  "simulated_figures evidence ss = list_ex (\<lambda>s. case s of NumSeg f \<Rightarrow> is_simulated_figure f evidence | _ \<Rightarrow> False) ss"

definition record_needs :: "evidence_map \<Rightarrow> string \<Rightarrow> caveat list" where
  "record_needs evidence i =
     (case jget evidence i of
        None \<Rightarrow> []
      | Some e \<Rightarrow> ev_caveats e @ (if ev_kind e = Simulated then [simulated_figure_caveat] else []))"

definition required_caveats :: "evidence_map \<Rightarrow> segment list \<Rightarrow> caveat list" where
  "required_caveats evidence ss =
     rev (remdups (rev (concat (map (record_needs evidence) (cited_ids evidence ss)) @
       (if simulated_figures evidence ss then [simulated_figure_caveat] else []))))"

definition supported_caveat :: "evidence_map \<Rightarrow> segment list \<Rightarrow> caveat \<Rightarrow> bool" where
  "supported_caveat evidence ss c =
     (list_ex (\<lambda>(i, e). c \<in> set (ev_caveats e)) evidence \<or> c = check_mode_caveat \<or>
      (c = simulated_figure_caveat \<and> (simulated_figures evidence ss \<or> list_ex (\<lambda>(i, e). ev_kind e = Simulated) evidence)))"

record answer_bounds =
  ab_paragraphs :: nat
  ab_segments :: nat
  ab_text_chars :: nat

definition default_bounds :: answer_bounds where
  "default_bounds = \<lparr>ab_paragraphs = 6, ab_segments = 48, ab_text_chars = 1600\<rparr>"

definition text_chars :: "segment list \<Rightarrow> nat" where
  "text_chars ss = sum_list (map (\<lambda>s. case s of TextSeg t \<Rightarrow> utf16_length t | _ \<Rightarrow> 0) ss)"

definition verify_answer :: "unicode \<Rightarrow> answer_doc \<Rightarrow> evidence_map \<Rightarrow> bool \<Rightarrow> answer_bounds \<Rightarrow> violation list" where
  "verify_answer u doc evidence forecast bounds =
     (if \<not> answer_ok doc then [(None, RShape)]
      else let ss = concat (an_paragraphs doc) in
        (if ab_paragraphs bounds < length (an_paragraphs doc) then [(None, RTooLong)] else []) @
        (if ab_segments bounds < length ss then [(None, RTooLong)] else []) @
        (if ab_text_chars bounds < text_chars ss then [(None, RTooLong)] else []) @
        check_paragraphs u evidence forecast 0 (an_paragraphs doc) @
        map (\<lambda>_. (None, RCaveatRequired)) (filter (\<lambda>c. c \<notin> set (an_caveats doc)) (required_caveats evidence ss)) @
        map (\<lambda>_. (None, RCaveatUnsupported))
          (filter (\<lambda>c. \<not> supported_caveat evidence ss c) (rev (remdups (rev (an_caveats doc))))))"

subsection \<open>What a verified answer guarantees\<close>

text \<open>The reference: where a figure comes from. One ref leads through a key that names the unit to the value, in
  evidence of the stated kind; a derivation computes it from such values, none twice and never a measured
  with a simulated one.\<close>

definition cites :: "evidence_map \<Rightarrow> ref \<Rightarrow> rat \<Rightarrow> unit_id \<Rightarrow> evidence_kind \<Rightarrow> bool" where
  "cites evidence r v x k =
     (\<exists>e key. jget evidence (rf_evidence r) = Some e \<and> ev_kind e = k \<and>
        lookup_path (ev_data e) (rf_path r) = Some (JNumber v, key) \<and> unit_of_key key = Some x)"

definition backed :: "evidence_map \<Rightarrow> figure \<Rightarrow> bool" where
  "backed evidence f =
     ((\<exists>r k v. fg_ref f = Some r \<and> fg_derive f = None \<and> fg_basis f = BasisOf k \<and> cites evidence r v (fg_unit f) k \<and>
         agrees (fg_value f) (fg_decimals f) v) \<or>
      (\<exists>op rs cs v. fg_ref f = None \<and> fg_derive f = Some (op, rs) \<and> fg_basis f = Derived \<and> distinct (map place_of rs) \<and>
         list_all2 (\<lambda>r c. cites evidence r (ct_value c) (ct_unit c) (ct_kind c)) rs cs \<and>
         \<not> (Simulated \<in> ct_kind ` set cs \<and> Measured \<in> ct_kind ` set cs) \<and>
         evaluate_derive op cs = Some (v, fg_unit f) \<and> agrees (fg_value f) (fg_decimals f) v))"

lemma resolve_ref_cites:
  "resolve_ref r evidence = Inr c \<Longrightarrow> cites evidence r (ct_value c) (ct_unit c) (ct_kind c)"
  by (auto simp: resolve_ref_def cites_def split: option.splits json.splits prod.splits)

lemma resolved_all:
  assumes "List.map_filter (\<lambda>x. case x of Inl rule \<Rightarrow> Some rule | Inr _ \<Rightarrow> None) (map (\<lambda>r. resolve_ref r evidence) rs) = []"
  shows "list_all2 (\<lambda>r c. cites evidence r (ct_value c) (ct_unit c) (ct_kind c)) rs
    (List.map_filter (\<lambda>x. case x of Inl _ \<Rightarrow> None | Inr c \<Rightarrow> Some c) (map (\<lambda>r. resolve_ref r evidence) rs))"
  using assms by (induction rs) (auto simp: List.map_filter_def resolve_ref_cites split: sum.splits)

lemma check_num_backed: "check_num f evidence = [] \<Longrightarrow> backed evidence f"
proof -
  assume ok: "check_num f evidence = []"
  show ?thesis
  proof (cases "fg_ref f")
    case (Some r)
    then have c: "fg_derive f = None" "check_ref f r evidence = []" using ok by (auto simp: check_num_def split: option.splits)
    then obtain c where "resolve_ref r evidence = Inr c" "fg_unit f = ct_unit c" "fg_basis f = BasisOf (ct_kind c)"
      "agrees (fg_value f) (fg_decimals f) (ct_value c)"
      by (auto simp: check_ref_def split: if_splits sum.splits)
    then show ?thesis using Some c(1) resolve_ref_cites[of r evidence c] by (auto simp: backed_def)
  next
    case None
    then obtain op rs where d: "fg_derive f = Some (op, rs)" "check_derive f op rs evidence = []"
      using ok by (auto simp: check_num_def split: option.splits)
    then show ?thesis
      using None resolved_all[of evidence rs] unfolding backed_def check_derive_def Let_def
      by (auto split: if_splits option.splits)
  qed
qed

lemma check_paragraph_clean:
  assumes "check_paragraph u evidence forecast base earlier r ss = []"
  shows "\<forall>f. NumSeg f \<in> set ss \<longrightarrow> check_num f evidence = []"
    "\<forall>ids. CiteSeg ids \<in> set ss \<longrightarrow> (\<forall>i \<in> set ids. jget evidence i \<noteq> None)"
  using assms by (induction u evidence forecast base earlier r ss rule: check_paragraph.induct) (auto simp: filter_empty_conv)

lemma check_paragraphs_clean:
  "check_paragraphs u evidence forecast base ps = [] \<Longrightarrow>
   \<forall>p \<in> set ps. (\<exists>b. check_paragraph u evidence forecast b [] None p = []) \<and> unpaired_totals (concat (map segment_refs p)) evidence = []"
  by (induction ps arbitrary: base) auto

lemma verify_answer_clean:
  assumes "verify_answer u doc evidence forecast bounds = []"
  shows "answer_ok doc" "check_paragraphs u evidence forecast 0 (an_paragraphs doc) = []"
    "set (required_caveats evidence (concat (an_paragraphs doc))) \<subseteq> set (an_caveats doc)"
    "\<forall>c \<in> set (an_caveats doc). supported_caveat evidence (concat (an_paragraphs doc)) c"
    "length (an_paragraphs doc) \<le> ab_paragraphs bounds" "length (concat (an_paragraphs doc)) \<le> ab_segments bounds"
    "text_chars (concat (an_paragraphs doc)) \<le> ab_text_chars bounds"
  using assms by (auto simp: verify_answer_def Let_def filter_empty_conv split: if_splits)

text \<open>No figure without its source: every number in an answer that verifies is, at the precision it is shown with,
  a value of this request's evidence whose key names the stated unit and whose kind is the stated basis, or
  the declared derivation of such values, and every citation names evidence of this request.\<close>
theorem verified_figures_backed:
  assumes "verify_answer u doc evidence forecast bounds = []" "p \<in> set (an_paragraphs doc)" "s \<in> set p"
  shows "case s of
      NumSeg f \<Rightarrow> backed evidence f
    | CiteSeg ids \<Rightarrow> list_all (\<lambda>i. jget evidence i \<noteq> None) ids
    | TextSeg t \<Rightarrow> utf16_length t \<le> 600"
proof -
  obtain b where c: "check_paragraph u evidence forecast b [] None p = []"
    using check_paragraphs_clean[OF verify_answer_clean(2)[OF assms(1)]] assms(2) by blast
  have "segment_ok s" using verify_answer_clean(1)[OF assms(1)] assms(2,3) by (auto simp: answer_ok_def list_all_iff)
  then show ?thesis
    using check_paragraph_clean[OF c] assms(3) check_num_backed
    by (cases s) (auto simp: segment_ok_def list_all_iff)
qed

text \<open>Whatever a verified answer cites is a record of this request.\<close>

lemma backed_cites: "backed evidence f \<Longrightarrow> i \<in> set (segment_evidence (NumSeg f)) \<Longrightarrow> jget evidence i \<noteq> None"
  unfolding backed_def segment_evidence_def
  by (auto simp: cites_def list_all2_conv_all_nth in_set_conv_nth simp del: map_of_eq_Some_iff) metis+

lemma cited_is_held:
  assumes "verify_answer u doc evidence forecast bounds = []" "p \<in> set (an_paragraphs doc)" "s \<in> set p" "i \<in> set (segment_evidence s)"
  shows "\<exists>e. jget evidence i = Some e"
proof -
  obtain b where c: "check_paragraph u evidence forecast b [] None p = []"
    using check_paragraphs_clean[OF verify_answer_clean(2)[OF assms(1)]] assms(2) by blast
  show ?thesis
  proof (cases s)
    case (NumSeg f)
    then have "backed evidence f" using check_num_backed check_paragraph_clean(1)[OF c] assms(3) by blast
    then show ?thesis using backed_cites[of evidence f i] assms(4) NumSeg by blast
  next
    case (CiteSeg ids)
    then show ?thesis using check_paragraph_clean(2)[OF c] assms(3,4) by (fastforce simp: segment_evidence_def simp del: map_of_eq_Some_iff)
  qed (use assms(4) in \<open>simp add: segment_evidence_def\<close>)
qed

lemma simulated_figure_has_record:
  assumes "backed evidence f" "is_simulated_figure f evidence"
  shows "\<exists>i e. jget evidence i = Some e \<and> ev_kind e = Simulated"
proof (cases "fg_basis f = BasisOf Simulated")
  case True
  then show ?thesis using assms(1) unfolding backed_def cites_def by fastforce
next
  case False
  then show ?thesis using assms(2) by (auto simp: is_simulated_figure_def list_ex_iff simp del: map_of_eq_Some_iff split: option.splits)
qed

lemma simulated_figures_obtain:
  assumes "simulated_figures evidence (concat ps)"
  obtains p f where "p \<in> set ps" "NumSeg f \<in> set p" "is_simulated_figure f evidence"
proof -
  obtain s where s: "s \<in> set (concat ps)" "case s of NumSeg f \<Rightarrow> is_simulated_figure f evidence | _ \<Rightarrow> False"
    using assms unfolding simulated_figures_def list_ex_iff by blast
  from s(2) obtain f where f: "s = NumSeg f" "is_simulated_figure f evidence" by (simp split: segment.split_asm)
  obtain p where "p \<in> set ps" "s \<in> set p" using s(1) unfolding set_concat by blast
  then show thesis using that f by blast
qed

text \<open>C12: An answer that verifies carries every caveat it owes and only such as are called for. It owes those of every record its
  figures and citations name, each of which is a record of this request, and the model-estimate caveat as soon as such a record is
  simulated. Each caveat it carries is one of a record of this request (cited or not), or the model-estimate caveat where this
  request holds a simulated record, or the check-mode caveat, which an answer may always carry.\<close>
theorem verified_caveats_exact:
  assumes "verify_answer u doc evidence forecast bounds = []"
  shows "(\<forall>s \<in> set (concat (an_paragraphs doc)). \<forall>i \<in> set (segment_evidence s).
      \<exists>e. jget evidence i = Some e \<and> set (ev_caveats e) \<subseteq> set (an_caveats doc) \<and>
        (ev_kind e = Simulated \<longrightarrow> simulated_figure_caveat \<in> set (an_caveats doc))) \<and>
    (\<forall>c \<in> set (an_caveats doc). c = check_mode_caveat \<or> (\<exists>(i, e) \<in> set evidence. c \<in> set (ev_caveats e)) \<or>
      c = simulated_figure_caveat \<and> (\<exists>(i, e) \<in> set evidence. ev_kind e = Simulated))"
proof (intro conjI ballI)
  fix s i
  assume s: "s \<in> set (concat (an_paragraphs doc))" and i: "i \<in> set (segment_evidence s)"
  obtain e where e: "jget evidence i = Some e" using cited_is_held[OF assms _ _ i] s by auto
  have "i \<in> set (cited_ids evidence (concat (an_paragraphs doc)))"
    using s i e by (auto simp: cited_ids_def)
  then have "set (record_needs evidence i) \<subseteq> set (required_caveats evidence (concat (an_paragraphs doc)))"
    unfolding required_caveats_def by auto
  then have "set (record_needs evidence i) \<subseteq> set (an_caveats doc)"
    using verify_answer_clean(3)[OF assms] by blast
  then show "\<exists>e. jget evidence i = Some e \<and> set (ev_caveats e) \<subseteq> set (an_caveats doc) \<and>
      (ev_kind e = Simulated \<longrightarrow> simulated_figure_caveat \<in> set (an_caveats doc))"
    using e by (auto simp: record_needs_def simp del: map_of_eq_Some_iff split: if_splits)
next
  fix c
  assume "c \<in> set (an_caveats doc)"
  then have sup: "supported_caveat evidence (concat (an_paragraphs doc)) c" using verify_answer_clean(4)[OF assms] by blast
  have "\<exists>(i, e) \<in> set evidence. ev_kind e = Simulated" if sim: "simulated_figures evidence (concat (an_paragraphs doc))"
  proof -
    obtain p f where f: "p \<in> set (an_paragraphs doc)" "NumSeg f \<in> set p" "is_simulated_figure f evidence"
      using simulated_figures_obtain[OF sim] by blast
    have "backed evidence f"
      using check_paragraphs_clean[OF verify_answer_clean(2)[OF assms]] f(1,2) check_paragraph_clean(1) check_num_backed by blast
    from simulated_figure_has_record[OF this f(3)] show ?thesis by (blast dest: map_of_SomeD)
  qed
  then show "c = check_mode_caveat \<or> (\<exists>(i, e) \<in> set evidence. c \<in> set (ev_caveats e)) \<or>
      c = simulated_figure_caveat \<and> (\<exists>(i, e) \<in> set evidence. ev_kind e = Simulated)"
    using sup unfolding supported_caveat_def list_ex_iff by blast
qed

text \<open>The prose of a paragraph as it is read: the texts between two figures joined, straight through the citations.\<close>

fun prose_runs :: "utext option \<Rightarrow> segment list \<Rightarrow> utext list" where
  "prose_runs r [] = (case r of None \<Rightarrow> [] | Some t \<Rightarrow> [t])"
| "prose_runs r (TextSeg t # ss) = prose_runs (Some (case r of None \<Rightarrow> t | Some x \<Rightarrow> x @ t)) ss"
| "prose_runs r (CiteSeg ids # ss) = prose_runs r ss"
| "prose_runs r (NumSeg f # ss) = (case r of None \<Rightarrow> [] | Some t \<Rightarrow> [t]) @ prose_runs None ss"

lemma check_paragraph_prose:
  "check_paragraph u evidence forecast base earlier r ss = [] \<Longrightarrow>
   \<forall>t \<in> set (prose_runs (map_option snd r) ss). verify_text u t forecast = []"
proof (induction u evidence forecast base earlier r ss rule: check_paragraph.induct)
  case (1 u evidence forecast base earlier r)
  then show ?case by (cases r) (auto simp: flush_run_def)
next
  case (2 u evidence forecast base earlier r t ss)
  then show ?case by (cases r) (auto simp: case_prod_beta)
next
  case (4 u evidence forecast base earlier r f ss)
  then show ?case by (cases r) (auto simp: flush_run_def)
qed simp

lemma star_once:
  assumes "j \<in> set (ends r s i)" "i < j" "j \<le> length s"
  shows "j \<in> set (ends (Star r) s i)"
proof -
  obtain n where n: "length s - i = Suc n" using assms by (cases "length s - i") auto
  show ?thesis using assms star_ends_zero[of j n "ends r s"] by (auto simp: n)
qed

lemma word_char_ascii:
  "c \<in> set ''ABCDEFGHIJKLMNOPQRSTUVWXYZabcdefghijklmnopqrstuvwxyz0123456789_'' \<Longrightarrow> word_char u (of_char c)"
  unfolding word_char_def cps_def list_ex_iff set_map by (rule bexI[where x = "of_char c"]) (rule refl, erule imageI)

lemma boundary_after:
  assumes "word_char u a" "post = [] \<or> \<not> word_char u (hd post)" "i = length q + 1"
  shows "i \<in> set (ends (boundary u) (q @ a # post) i)"
  using assms by (cases post) (auto simp: boundary_def before_def after_def nth_append)

text \<open>The units as prose writes them, family by family as the source lists them, a blank where any white space may stand. Letters are
  meant in either case. The signs need nothing after them, the words must not run on.\<close>

definition unit_signs :: "utext list list" where
  "unit_signs = [[[0xB0], 0xB0 # cps ''c'', 0xB0 # cps ''f'', 0xB0 # cps ''k'', 0xB0 # cps '' c'', 0xB0 # cps '' f'', 0xB0 # cps '' k''],
     [[0x2103]], [[0x2109]], [cps ''%''], [[0x2030]]]"

definition front_words :: "utext list list" where
  "front_words =
     [map cps [''percent'', ''percentage'', ''percent point'', ''percent points'', ''percentage point'', ''percentage points''],
      map cps [''percent'', ''per cent''],
      map cps [''pct'', ''pcts''],
      map cps [''pp''],
      map cps [''kelvin'', ''kelvins''],
      map cps [''celsius''],
      map cps [''fahrenheit''],
      map cps [''degree'', ''degrees''],
      map cps [''deg'', ''degs'', ''degc'', ''degf'', ''degk''],
      map cps [''watt'', ''watts'', ''watthour'', ''watthours'', ''watt hour'', ''watt hours'', ''watt-hour'', ''watt-hours'', ''kilowatt'',
         ''kilowatts'', ''kilowatthour'', ''kilowatthours'', ''kilowatt hour'', ''kilowatt hours'', ''kilowatt-hour'', ''kilowatt-hours'',
         ''megawatt'', ''megawatts'', ''megawatthour'', ''megawatthours'', ''megawatt hour'', ''megawatt hours'', ''megawatt-hour'',
         ''megawatt-hours'', ''gigawatt'', ''gigawatts'', ''gigawatthour'', ''gigawatthours'', ''gigawatt hour'', ''gigawatt hours'',
         ''gigawatt-hour'', ''gigawatt-hours''],
      map cps [''w'', ''wh'', ''kw'', ''kwh'', ''mw'', ''mwh'', ''gw'', ''gwh'']]"

definition metre_words :: "utext list list" where
  "metre_words =
     [[cps ''m'' @ [0xB3], cps ''m3'', cps ''m'' @ [0xB3] @ cps ''/h'', cps ''m'' @ [0xB3] @ cps ''/hr'', cps ''m'' @ [0xB3] @ cps ''/hour'',
       cps ''m3/h'', cps ''m3/hr'', cps ''m3/hour''],
      [cps ''m'' @ [0xB2], cps ''m2'']]"

definition back_words :: "utext list list" where
  "back_words =
     [map cps [''cmh''],
      map cps [''cubic metre'', ''cubic metres'', ''cubic meter'', ''cubic meters'', ''square metre'', ''square metres'', ''square meter'',
         ''square meters''],
      map cps [''ppm''],
      map cps [''zoneh'', ''zonehour'', ''zonehours'', ''zone_h'', ''zone_hour'', ''zone_hours'', ''zone h'', ''zone hour'', ''zone hours'',
         ''zone-h'', ''zone-hour'', ''zone-hours''],
      map cps [''k/h'', ''k_per_h''],
      map cps [''h'', ''hour'', ''hours'', ''hr'', ''hrs''],
      map cps [''min'', ''mins'', ''minute'', ''minutes''],
      map cps [''s'', ''sec'', ''secs'', ''second'', ''seconds''],
      map cps [''kg''],
      map cps [''kilo'', ''kilos'', ''kilogram'', ''kilograms''],
      map cps [''tonne'', ''tonnes''],
      map cps [''ton'', ''tons''],
      map cps [''t''],
      map cps [''tr'', ''rt''],
      map cps [''btu'', ''btus'', ''btu/h'', ''btu/hr'', ''btu/hour''],
      map cps [''j'', ''kj'', ''mj'', ''gj'', ''tj''],
      map cps [''joule'', ''joules'', ''litre'', ''litres'', ''liter'', ''liters''],
      map cps [''l/s''],
      map cps [''cfm''],
      map cps [''aed'', ''usd'', ''eur'', ''gbp'', ''dh'', ''dhs'', ''dirham'', ''dirhams'', ''dollar'', ''dollars'', ''euro'', ''euros'',
         ''pound'', ''pounds'', ''fils'', ''cent'', ''cents''],
      map cps [''k''],
      map cps [''c''],
      map cps [''m'']]"

definition ascii_letter :: "codepoint \<Rightarrow> bool" where
  "ascii_letter k = (65 \<le> k \<and> k \<le> 90 \<or> 97 \<le> k \<and> k \<le> 122)"

text \<open>A text in any case: the letters fold together, every other character is itself.\<close>

definition cased :: "unicode \<Rightarrow> utext \<Rightarrow> utext \<Rightarrow> bool" where
  "cased u = list_all2 (\<lambda>c k. c = k \<or> (ascii_letter k \<and> uc_fold u c = uc_fold u k))"

definition clean_after :: "unicode \<Rightarrow> utext \<Rightarrow> bool" where
  "clean_after u post = (post = [] \<or> (\<not> word_char u (hd post) \<and> \<not> uc_letter u (hd post) \<and> \<not> uc_number u (hd post)))"

definition names_unit :: "unicode \<Rightarrow> utext \<Rightarrow> utext \<Rightarrow> bool" where
  "names_unit u w post =
     (list_ex (cased u w) (concat unit_signs) \<or> (list_ex (cased u w) (concat (front_words @ metre_words @ back_words)) \<and> clean_after u post))"

lemma ends_seqs:
  "i \<in> set (ends (seqs []) s i)" "k \<in> set (ends r s i) \<Longrightarrow> j \<in> set (ends (seqs rs) s k) \<Longrightarrow> j \<in> set (ends (seqs (r # rs)) s i)"
  by auto

lemma ends_one_at: "s = q @ a # post \<Longrightarrow> i = length q \<Longrightarrow> j = i + 1 \<Longrightarrow> a \<in> set cs \<Longrightarrow> j \<in> set (ends (one_of u cs) s i)"
  by (auto simp: one_of_def list_ex_iff)

lemmas seq_step = ends_seqs(2) and seq_stop = ends_seqs(1)

text \<open>The patterns of the units are built from a few forms, whose words can be listed.\<close>

datatype frag =
    Word string
  | OneOf utext
  | Perhaps frag
  | Either "frag list"
  | Row "frag list"
  | Mark "codepoint \<Rightarrow> bool" utext
  | Marks "codepoint \<Rightarrow> bool" utext
  | Blanks

primrec rx_of :: "unicode \<Rightarrow> frag \<Rightarrow> rx" where
  "rx_of u (Word w) = lit u w"
| "rx_of u (OneOf ks) = one_of u ks"
| "rx_of u (Perhaps f) = opt (rx_of u f)"
| "rx_of u (Either fs) = alts (map (rx_of u) fs)"
| "rx_of u (Row fs) = seqs (map (rx_of u) fs)"
| "rx_of u (Mark P cs) = Sat P"
| "rx_of u (Marks P cs) = plus1 (Sat P)"
| "rx_of u Blanks = spaces"

definition each_then :: "utext list \<Rightarrow> utext list \<Rightarrow> utext list" where
  "each_then xs ys = concat (map (\<lambda>x. map ((@) x) ys) xs)"

primrec words_of :: "frag \<Rightarrow> utext list" where
  "words_of (Word w) = [cps w]"
| "words_of (OneOf ks) = map (\<lambda>k. [k]) ks"
| "words_of (Perhaps f) = [] # words_of f"
| "words_of (Either fs) = concat (map words_of fs)"
| "words_of (Row fs) = foldr each_then (map words_of fs) [[]]"
| "words_of (Mark P cs) = map (\<lambda>c. [c]) (filter (\<lambda>c. P c \<and> \<not> ascii_letter c) cs)"
| "words_of (Marks P cs) = map (\<lambda>c. [c]) (filter (\<lambda>c. P c \<and> \<not> ascii_letter c) cs)"
| "words_of Blanks = [[]]"

definition consumes :: "unicode \<Rightarrow> rx \<Rightarrow> utext \<Rightarrow> bool" where
  "consumes u r w \<longleftrightarrow> (\<forall>q w' post. cased u w' w \<longrightarrow> length q + length w \<in> set (ends r (q @ w' @ post) (length q)))"

lemma consumesD:
  "consumes u r w \<Longrightarrow> cased u w' w \<Longrightarrow> s = q @ w' @ post \<Longrightarrow> i = length q \<Longrightarrow> j = i + length w \<Longrightarrow> j \<in> set (ends r s i)"
  by (simp add: consumes_def)

lemma consumes_none: "consumes u (seqs []) []" "consumes u (opt r) []" "consumes u (Star r) []"
  by (auto simp: consumes_def cased_def opt_def star_ends_zero)

lemma consumes_Seq:
  assumes "consumes u a x" "consumes u b y"
  shows "consumes u (Seq a b) (x @ y)"
  unfolding consumes_def
proof (intro allI impI)
  fix q w' post
  assume "cased u w' (x @ y)"
  then obtain x' y' where w: "w' = x' @ y'" "cased u x' x" "cased u y' y" unfolding cased_def list_all2_append2 by auto
  then have len: "length x' = length x" by (simp add: cased_def list_all2_lengthD)
  have "length q + length x \<in> set (ends a (q @ w' @ post) (length q))"
    by (rule consumesD[OF assms(1) w(2), where post = "y' @ post"]) (simp_all add: w(1))
  moreover have "length q + length x + length y \<in> set (ends b (q @ w' @ post) (length q + length x))"
    by (rule consumesD[OF assms(2) w(3), where q = "q @ x'" and post = post]) (simp_all add: w(1) len)
  ultimately show "length q + length (x @ y) \<in> set (ends (Seq a b) (q @ w' @ post) (length q))"
    by (simp add: add.assoc del: ends.simps) (rule ends_Seq)
qed

lemma consumes_one: "k \<in> set ks \<Longrightarrow> consumes u (one_of u ks) [k]"
  by (auto simp: consumes_def cased_def one_of_def list_ex_iff list_all2_Cons2 nth_append)

lemma consumes_lit: "consumes u (lit u w) (cps w)"
proof (induction w)
  case (Cons c w)
  have "consumes u (Seq (one_of u [of_char c]) (lit u w)) ([of_char c] @ cps w)"
    by (rule consumes_Seq[OF consumes_one Cons.IH]) simp
  then show ?case by (simp add: lit_def cps_def)
qed (simp add: lit_def cps_def consumes_none del: seqs.simps(1))

lemma consumes_opt: "consumes u r w \<Longrightarrow> consumes u (opt r) w"
  by (simp add: consumes_def opt_def)

lemma consumes_alts: "r \<in> set rs \<Longrightarrow> consumes u r w \<Longrightarrow> consumes u (alts rs) w"
  by (simp add: consumes_def ends_alts)

lemma consumes_Sat: "P c \<Longrightarrow> \<not> ascii_letter c \<Longrightarrow> consumes u (Sat P) [c]"
  by (auto simp: consumes_def cased_def list_all2_Cons2 nth_append)

lemma consumes_plus1: "consumes u r w \<Longrightarrow> consumes u (plus1 r) w"
  unfolding consumes_def using ends_plus1 by blast

lemma each_then_iff: "w \<in> set (each_then xs ys) \<longleftrightarrow> (\<exists>x \<in> set xs. \<exists>y \<in> set ys. w = x @ y)"
  by (auto simp: each_then_def)

lemma row_consumes:
  "(\<And>f w. f \<in> set fs \<Longrightarrow> w \<in> set (words_of f) \<Longrightarrow> consumes u (rx_of u f) w) \<Longrightarrow>
   w \<in> set (foldr each_then (map words_of fs) [[]]) \<Longrightarrow> consumes u (seqs (map (rx_of u) fs)) w"
proof (induction fs arbitrary: w)
  case Nil
  then show ?case using consumes_none(1) by simp
next
  case (Cons f fs)
  then obtain x y where "w = x @ y" "x \<in> set (words_of f)" "y \<in> set (foldr each_then (map words_of fs) [[]])"
    by (auto simp: each_then_iff)
  then show ?case using Cons.IH[of y] Cons.prems(1) by (simp add: consumes_Seq)
qed

lemma words_consumed: "w \<in> set (words_of f) \<Longrightarrow> consumes u (rx_of u f) w"
proof (induction f arbitrary: w)
  case (Perhaps f)
  then show ?case by (auto intro: consumes_none consumes_opt)
next
  case (Either fs)
  then show ?case using consumes_alts[of _ "map (rx_of u) fs" u w] by fastforce
next
  case (Row fs)
  then show ?case using row_consumes[of fs u w] by simp
qed (auto simp: consumes_lit consumes_one spaces_def consumes_none intro!: consumes_Sat consumes_plus1)

abbreviation plural :: frag where "plural \<equiv> Perhaps (Word ''s'')"
abbreviation slashed :: frag where "slashed \<equiv> Row [Blanks, Word ''/'', Blanks]"
abbreviation hourly :: frag where "hourly \<equiv> Row [Word ''h'', Perhaps (Either [Word ''r'', Word ''our''])]"

definition sign_frags :: "frag list list" where
  "sign_frags =
     [[Mark (\<lambda>c. c = 0xB0) [0xB0], Perhaps (Mark (\<lambda>c. js_space c \<or> c \<in> {0xA0, 0x202F, 0x2009}) [32]), Perhaps (OneOf (cps ''cfk''))]]"

definition front_frags :: "frag list list" where
  "front_frags =
     [[Word ''percent'', Perhaps (Word ''age''), Perhaps (Row [Marks js_space [32], Word ''point'', plural])],
      [Word ''per'', Perhaps (Mark js_space [32]), Word ''cent''], [Word ''pct'', plural], [Word ''pp''],
      [Word ''kelvin'', plural], [Word ''celsius''], [Word ''fahrenheit''],
      [Word ''degree'', plural], [Word ''deg'', Perhaps (Either [Word ''s'', OneOf (cps ''cfk'')])],
      [Perhaps (Either [Word ''kilo'', Word ''mega'', Word ''giga'']), Word ''watt'',
       Perhaps (Row [Perhaps (Mark (\<lambda>c. js_space c \<or> c = 0x2D) [32, 0x2D]), Word ''hour'', plural]), plural],
      [Perhaps (OneOf (cps ''kmg'')), Word ''w'', Perhaps (Word ''h'')]]"

definition metre_frags :: "frag list list" where
  "metre_frags =
     [[Word ''m'', OneOf [0xB3, of_char CHR ''3''], Perhaps (Row [slashed, hourly])], [Word ''m'', OneOf [0xB2, of_char CHR ''2'']]]"

definition back_frags :: "frag list list" where
  "back_frags =
     [[Word ''cmh''],
      [Either [Word ''cubic'', Word ''square''], Marks js_space [32], Word ''met'', Either [Word ''re'', Word ''er''], plural],
      [Word ''ppm''],
      [Word ''zone'', Perhaps (Mark (\<lambda>c. js_space c \<or> c = 0x5F \<or> c = 0x2D) [32, 0x5F, 0x2D]), Word ''h'', Perhaps (Row [Word ''our'', plural])],
      [Word ''k'', Either [slashed, Word ''_per_''], Word ''h''],
      [Word ''h'', Perhaps (Either [Row [Word ''our'', plural], Row [Word ''r'', plural]])],
      [Word ''min'', Perhaps (Either [Word ''s'', Row [Word ''ute'', plural]])],
      [Word ''s'', Perhaps (Either [Row [Word ''ec'', plural], Row [Word ''econd'', plural]])],
      [Word ''kg''], [Word ''kilo'', Perhaps (Word ''gram''), plural], [Word ''tonne'', plural],
      [Word ''ton'', plural], [Word ''t''], [Either [Word ''tr'', Word ''rt'']],
      [Word ''btu'', plural, Perhaps (Row [slashed, hourly])],
      [Perhaps (OneOf (cps ''kmgt'')), Word ''j''],
      [Either [Row [Word ''joule'', plural], Row [Word ''litre'', plural], Row [Word ''liter'', plural]]],
      [Word ''l'', slashed, Word ''s''], [Word ''cfm''],
      [Either [Word ''aed'', Word ''usd'', Word ''eur'', Word ''gbp'', Row [Word ''dh'', plural], Row [Word ''dirham'', plural],
         Row [Word ''dollar'', plural], Row [Word ''euro'', plural], Row [Word ''pound'', plural], Word ''fils'', Row [Word ''cent'', plural]]],
      [Word ''k''], [Word ''c''], [Word ''m'']]"

abbreviation no_word_rx :: "unicode \<Rightarrow> rx" where
  "no_word_rx u \<equiv> At (\<lambda>s i. \<not> after (\<lambda>c. uc_letter u c \<or> uc_number u c) s i)"

lemma unit_rxs_frags:
  "unit_rxs u = map (\<lambda>fs. seqs (map (rx_of u) fs)) sign_frags @ [one_of u [0x2103], one_of u [0x2109], lit u ''%'', one_of u [0x2030]] @
     map (\<lambda>fs. seqs (map (rx_of u) fs @ [boundary u])) front_frags @
     map (\<lambda>fs. seqs (map (rx_of u) fs @ [no_word_rx u])) metre_frags @
     map (\<lambda>fs. seqs (map (rx_of u) fs @ [boundary u])) back_frags"
  by (simp add: unit_rxs_def Let_def sign_frags_def front_frags_def metre_frags_def back_frags_def sp_def)

text \<open>Every word of the lists is a word of its pattern; and those that must end at a word boundary end with a letter.\<close>

definition words_fit :: "utext list list \<Rightarrow> frag list list \<Rightarrow> bool" where
  "words_fit wss fss = list_all2 (\<lambda>ws fs. list_all (\<lambda>w. w \<in> set (words_of (Row fs))) ws) wss fss"

lemmas words_eval = each_then_def cps_def js_space_def ascii_letter_def

lemma front_fit: "words_fit front_words front_frags"
  unfolding words_fit_def front_words_def front_frags_def by (simp add: words_eval)

lemma metre_fit: "words_fit metre_words metre_frags"
  unfolding words_fit_def metre_words_def metre_frags_def by (simp add: words_eval)

lemma back_fit: "words_fit back_words back_frags"
  unfolding words_fit_def back_words_def back_frags_def by (simp add: words_eval)

lemma sign_fit: "words_fit (take 1 unit_signs) sign_frags" "drop 1 unit_signs = [[[0x2103]], [[0x2109]], [cps ''%''], [[0x2030]]]"
  by (simp_all add: words_fit_def unit_signs_def sign_frags_def words_eval)

definition ends_letter :: "utext \<Rightarrow> bool" where
  "ends_letter w = (w \<noteq> [] \<and> last w \<in> set (cps ''abcdefghijklmnopqrstuvwxyz''))"

lemma words_end: "list_all ends_letter (concat (front_words @ back_words))"
  by (simp add: front_words_def back_words_def ends_letter_def cps_def)

lemma words_fit_D: "words_fit wss fss \<Longrightarrow> w \<in> set (concat wss) \<Longrightarrow> \<exists>fs \<in> set fss. w \<in> set (words_of (Row fs))"
  unfolding words_fit_def by (induction rule: list_all2_induct) (auto simp: list_all_iff)

lemma row_words_consumed: "w \<in> set (words_of (Row fs)) \<Longrightarrow> consumes u (seqs (map (rx_of u) fs)) w"
  using words_consumed[of w "Row fs" u] by (simp del: words_of.simps)

lemma ends_seqs_append: "k \<in> set (ends (seqs rs) s i) \<Longrightarrow> j \<in> set (ends r s k) \<Longrightarrow> j \<in> set (ends (seqs (rs @ [r])) s i)"
  by (induction rs arbitrary: i) auto

lemma cased_end:
  assumes "cased u w' w" "ends_letter w"
  shows "w' \<noteq> [] \<and> word_char u (last w')"
proof -
  have "w' \<noteq> []" using assms by (auto simp: cased_def ends_letter_def)
  moreover have "last w' = last w \<or> uc_fold u (last w') = uc_fold u (last w)"
  proof -
    have "length w' = length w" "w \<noteq> []" using assms by (auto simp: cased_def ends_letter_def list_all2_lengthD)
    then show ?thesis
      using assms(1) calculation list_all2_nthD[of _ w' w "length w' - 1"] by (fastforce simp: cased_def last_conv_nth)
  qed
  moreover have "last w \<in> set (cps ''ABCDEFGHIJKLMNOPQRSTUVWXYZabcdefghijklmnopqrstuvwxyz0123456789_'')"
    using assms(2) unfolding ends_letter_def cps_def by auto
  ultimately show ?thesis unfolding word_char_def list_ex_iff by metis
qed

lemma boundary_at:
  assumes "word_char u (last w')" "w' \<noteq> []" "clean_after u post" "i = length q + length w'"
  shows "i \<in> set (ends (boundary u) (q @ w' @ post) i)"
proof -
  have w: "w' = butlast w' @ [last w']" using assms(2) by simp
  have "q @ w' @ post = (q @ butlast w') @ last w' # post" by (subst w) simp
  moreover have "i = length (q @ butlast w') + 1" using assms(2,4) by simp
  moreover have "post = [] \<or> \<not> word_char u (hd post)" using assms(3) by (auto simp: clean_after_def)
  ultimately show ?thesis using boundary_after[OF assms(1), of post i "q @ butlast w'"] by (simp only:)
qed

lemma no_word_at: "clean_after u post \<Longrightarrow> i = length q + length w' \<Longrightarrow> i \<in> set (ends (no_word_rx u) (q @ w' @ post) i)"
  by (cases post) (auto simp: after_def clean_after_def nth_append)

lemma unit_pattern:
  assumes "names_unit u w' post"
  shows "\<exists>r \<in> set (unit_rxs u). length q + length w' \<in> set (ends r (q @ w' @ post) (length q))"
proof -
  have len: "length w' = length w" if "cased u w' w" for w using that by (simp add: cased_def list_all2_lengthD)
  have hit: "length q + length w' \<in> set (ends r (q @ w' @ post) (length q))" if "cased u w' w" "consumes u r w" for r w
    by (rule consumesD[OF that(2,1) refl refl]) (simp add: len[OF that(1)])
  have bnd: "\<exists>r \<in> set (unit_rxs u). length q + length w' \<in> set (ends r (q @ w' @ post) (length q))"
    if "fs \<in> set front_frags \<or> fs \<in> set back_frags" "cased u w' w" "w \<in> set (words_of (Row fs))" "ends_letter w" "clean_after u post" for fs w
  proof (rule bexI)
    show "seqs (map (rx_of u) fs @ [boundary u]) \<in> set (unit_rxs u)" using that(1) by (auto simp: unit_rxs_frags)
    show "length q + length w' \<in> set (ends (seqs (map (rx_of u) fs @ [boundary u])) (q @ w' @ post) (length q))"
      using ends_seqs_append[OF hit[OF that(2) row_words_consumed[OF that(3)]] boundary_at] cased_end[OF that(2,4)] that(5) by blast
  qed
  from assms consider w where "w \<in> set (concat unit_signs)" "cased u w' w"
    | w where "w \<in> set (concat (front_words @ back_words))" "cased u w' w" "clean_after u post"
    | w where "w \<in> set (concat metre_words)" "cased u w' w" "clean_after u post"
    unfolding names_unit_def list_ex_iff concat_append set_append by blast
  then show ?thesis
  proof cases
    case 1
    have "w \<in> set (concat (take 1 unit_signs)) \<or> w \<in> set (concat (drop 1 unit_signs))"
      using 1(1) by (metis Un_iff append_take_drop_id concat_append set_append)
    then have "w \<in> set (concat (take 1 unit_signs)) \<or> w = [0x2103] \<or> w = [0x2109] \<or> w = cps ''%'' \<or> w = [0x2030]"
      unfolding sign_fit(2) by auto
    then have "\<exists>r \<in> set (unit_rxs u). consumes u r w"
    proof (elim disjE)
      assume "w \<in> set (concat (take 1 unit_signs))"
      then obtain fs where "fs \<in> set sign_frags" "w \<in> set (words_of (Row fs))" using words_fit_D[OF sign_fit(1)] by blast
      then show ?thesis by (intro bexI[where x = "seqs (map (rx_of u) fs)"] row_words_consumed) (auto simp: unit_rxs_frags)
    qed (auto simp: unit_rxs_frags consumes_one consumes_lit)
    then show ?thesis using hit[OF 1(2)] by blast
  next
    case 2
    then have "ends_letter w" using words_end by (simp only: list_all_iff)
    moreover obtain fs where "fs \<in> set front_frags \<or> fs \<in> set back_frags" "w \<in> set (words_of (Row fs))"
      using 2(1) words_fit_D[OF front_fit] words_fit_D[OF back_fit] unfolding concat_append set_append by blast
    ultimately show ?thesis using bnd 2 by blast
  next
    case 3
    then obtain fs where fs: "fs \<in> set metre_frags" "w \<in> set (words_of (Row fs))" using words_fit_D[OF metre_fit] by blast
    show ?thesis
    proof (rule bexI)
      show "seqs (map (rx_of u) fs @ [no_word_rx u]) \<in> set (unit_rxs u)" using fs(1) by (auto simp: unit_rxs_frags)
      show "length q + length w' \<in> set (ends (seqs (map (rx_of u) fs @ [no_word_rx u])) (q @ w' @ post) (length q))"
        by (rule ends_seqs_append[OF hit[OF 3(2) row_words_consumed[OF fs(2)]] no_word_at[OF 3(3) refl]])
    qed
  qed
qed

lemma star_all:
  "list_all P ds \<Longrightarrow> s = q @ ds @ post \<Longrightarrow> length ds \<le> n \<Longrightarrow>
   length q + length ds \<in> set (star_ends n (ends (Sat P) s) (length q))"
proof (induction ds arbitrary: q n)
  case Nil
  then show ?case by (simp add: star_ends_zero)
next
  case (Cons d ds)
  obtain m where m: "n = Suc m" using Cons.prems(3) by (cases n) auto
  have "length (q @ [d]) + length ds \<in> set (star_ends m (ends (Sat P) s) (length (q @ [d])))"
    by (rule Cons.IH) (use Cons.prems m in simp_all)
  then have "length q + length (d # ds) \<in> set (star_ends m (ends (Sat P) s) (Suc (length q)))" by simp
  moreover have "ends (Sat P) s (length q) = [Suc (length q)]" using Cons.prems(1,2) by simp
  ultimately show ?case unfolding m by (simp del: ends.simps)
qed

lemma ends_run:
  "list_all P ds \<Longrightarrow> s = q @ ds @ post \<Longrightarrow> i = length q \<Longrightarrow> j = i + length ds \<Longrightarrow> j \<in> set (ends (Star (Sat P)) s i)"
  using star_all[of P ds s q post "length s - length q"] by simp

lemma ends_run1:
  assumes "ds \<noteq> []" "list_all P ds" "s = q @ ds @ post" "i = length q" "j = i + length ds"
  shows "j \<in> set (ends (plus1 (Sat P)) s i)"
proof -
  obtain d rest where ds: "ds = d # rest" using assms(1) by (cases ds) auto
  have "Suc i \<in> set (ends (Sat P) s i)" by (rule ends_Sat) (use assms ds in simp_all)
  moreover have "j \<in> set (ends (Star (Sat P)) s (Suc i))"
    by (rule ends_run[of P rest s "q @ [d]" post]) (use assms ds in simp_all)
  ultimately show ?thesis unfolding plus1_def by (rule ends_Seq)
qed

text \<open>A number as it is written: digits, and groups of digits after points or commas; or digits after a single point or comma.\<close>

lemma dropWhile_shorter: "length (dropWhile P xs) \<le> length xs"
  by (induction xs) auto

function digit_groups :: "unicode \<Rightarrow> utext \<Rightarrow> bool" where
  "digit_groups u [] = True"
| "digit_groups u (c # cs) =
     (c \<in> set (cps ''.,'') \<and> takeWhile (uc_decimal u) cs \<noteq> [] \<and> digit_groups u (dropWhile (uc_decimal u) cs))"
  by pat_completeness auto
termination
  by (relation "measure (\<lambda>(u, cs). length cs)") (simp_all add: le_imp_less_Suc[OF dropWhile_shorter])

definition written_number :: "unicode \<Rightarrow> utext \<Rightarrow> bool" where
  "written_number u n =
     ((takeWhile (uc_decimal u) n \<noteq> [] \<and> digit_groups u (dropWhile (uc_decimal u) n)) \<or>
      (n \<noteq> [] \<and> hd n \<in> set (cps ''.,'') \<and> tl n \<noteq> [] \<and> list_all (uc_decimal u) (tl n)))"

text \<open>What stands between the number and its unit: spaces of any kind, and at most one hyphen.\<close>

definition gap_char :: "codepoint \<Rightarrow> bool" where
  "gap_char c = (js_space c \<or> c \<in> {0xA0, 0x202F, 0x2009})"

definition unit_gap :: "utext \<Rightarrow> bool" where
  "unit_gap gap =
     (let rest = dropWhile gap_char gap in rest = [] \<or> (hd rest = 0x2D \<and> list_all gap_char (tl rest)))"

abbreviation group_rx :: "unicode \<Rightarrow> rx" where
  "group_rx u \<equiv> Seq (one_of u (cps ''.,'')) (plus1 (Sat (uc_decimal u)))"

lemma star_ends_more: "j \<in> set (star_ends n f i) \<Longrightarrow> n \<le> m \<Longrightarrow> j \<in> set (star_ends m f i)"
proof (induction n arbitrary: i m)
  case 0
  then show ?case by (simp add: star_ends_zero)
next
  case (Suc n)
  obtain m' where m: "m = Suc m'" "n \<le> m'" using Suc.prems(2) by (cases m) auto
  then show ?case using Suc.IH[OF _ m(2)] Suc.prems(1) by (auto split: if_splits)
qed

lemma star_step:
  assumes "k \<in> set (ends r s i)" "i < k" "k \<le> length s" "j \<in> set (ends (Star r) s k)"
  shows "j \<in> set (ends (Star r) s i)"
proof -
  obtain n where n: "length s - i = Suc n" "length s - k \<le> n" using assms(2,3) by (cases "length s - i") auto
  have "j \<in> set (star_ends n (ends r s) k)" using assms(4) star_ends_more[OF _ n(2)] by simp
  then show ?thesis using assms(1,2) n(1) by auto
qed

lemma dec_part: "list_all (uc_decimal u) (takeWhile (uc_decimal u) n)"
  by (auto simp: list_all_iff dest: set_takeWhileD)

lemma groups_end:
  "digit_groups u gs \<Longrightarrow> s = q @ gs @ post \<Longrightarrow> i = length q \<Longrightarrow> j = i + length gs \<Longrightarrow> j \<in> set (ends (Star (group_rx u)) s i)"
proof (induction u gs arbitrary: q i j rule: digit_groups.induct)
  case (1 u)
  then have "j = i" by simp
  show ?case unfolding \<open>j = i\<close> by (rule ends_Star)
next
  case (2 u c cs)
  let ?ds = "takeWhile (uc_decimal u) cs" and ?rest = "dropWhile (uc_decimal u) cs"
  have c: "c \<in> set (cps ''.,'')" "?ds \<noteq> []" "digit_groups u ?rest" using 2(2) by auto
  have cs: "cs = ?ds @ ?rest" by simp
  then have s: "s = q @ c # ?ds @ ?rest @ post" using 2(3) by (metis append_Cons append_assoc)
  have len: "length cs = length ?ds + length ?rest" by (metis cs length_append)
  have "i + 1 \<in> set (ends (one_of u (cps ''.,'')) s i)" by (rule ends_one_at[OF s 2(4) refl c(1)])
  moreover have "i + 1 + length ?ds \<in> set (ends (plus1 (Sat (uc_decimal u))) s (i + 1))"
    by (rule ends_run1[OF c(2) dec_part, of s "q @ [c]" "?rest @ post"]) (simp_all add: s 2(4) del: takeWhile_dropWhile_id)
  ultimately have one: "i + 1 + length ?ds \<in> set (ends (group_rx u) s i)" by (rule ends_Seq)
  have more: "j \<in> set (ends (Star (group_rx u)) s (i + 1 + length ?ds))"
    by (rule 2(1)[OF c(3), of "q @ c # ?ds"]) (simp_all add: s 2(4,5) len del: takeWhile_dropWhile_id)
  have "i + 1 + length ?ds \<le> length s" by (simp add: s 2(4) del: takeWhile_dropWhile_id)
  from star_step[OF one _ this more] show ?case by simp
qed

lemma number_ends:
  assumes n: "written_number u n" and s: "s = q @ n @ post" and i: "i = length q" "j = i + length n"
  shows "j \<in> set (ends (digits_rx u) s i)"
proof -
  let ?ds = "takeWhile (uc_decimal u) n" and ?rest = "dropWhile (uc_decimal u) n" and ?dec = "plus1 (Sat (uc_decimal u))"
  from n have "j \<in> set (ends (alts [seqs [?dec, Star (group_rx u)], seqs [one_of u (cps ''.,''), ?dec]]) s i)"
    unfolding written_number_def
  proof (elim disjE conjE)
    assume ds: "?ds \<noteq> []" and g: "digit_groups u ?rest"
    have split: "n = ?ds @ ?rest" by simp
    have len: "length n = length ?ds + length ?rest" by (metis length_append split)
    have at: "s = (q @ ?ds) @ ?rest @ post" using s split by (metis append_assoc)
    have one: "i + length ?ds \<in> set (ends ?dec s i)"
      by (rule ends_run1[OF ds dec_part, of s q "?rest @ post"]) (simp_all add: at i del: takeWhile_dropWhile_id)
    have more: "j \<in> set (ends (Star (group_rx u)) s (i + length ?ds))" by (rule groups_end[OF g at]) (simp_all add: i len)
    show ?thesis by (rule ends_alts[OF _ seq_step[OF one seq_step[OF more seq_stop]]]) simp
  next
    assume "n \<noteq> []" and c: "hd n \<in> set (cps ''.,'')" "tl n \<noteq> []" "list_all (uc_decimal u) (tl n)"
    then have at: "s = q @ hd n # tl n @ post" using s by (cases n) auto
    have one: "i + 1 \<in> set (ends (one_of u (cps ''.,'')) s i)" by (rule ends_one_at[OF at i(1) refl c(1)])
    have more: "j \<in> set (ends ?dec s (i + 1))"
      by (rule ends_run1[OF c(2,3), of s "q @ [hd n]" post]) (use at i \<open>n \<noteq> []\<close> in \<open>simp_all\<close>)
    show ?thesis by (rule ends_alts[OF _ seq_step[OF one seq_step[OF more seq_stop]]]) simp
  qed
  then show ?thesis unfolding digits_rx_def Let_def by (rule seq_step[OF ends_opt(1) seq_step[OF _ seq_stop]])
qed

lemma gap_ends:
  assumes "unit_gap gap" "s = q @ gap @ post" "i = length q" "j = i + length gap"
  shows "\<exists>k. k \<in> set (ends (Star sp) s i) \<and> j \<in> set (ends (opt (seqs [lit u ''-'', Star sp])) s k)"
proof -
  let ?a = "takeWhile gap_char gap" and ?rest = "dropWhile gap_char gap"
  have split: "gap = ?a @ ?rest" by simp
  have len: "length gap = length ?a + length ?rest" by (metis length_append split)
  have at: "s = q @ ?a @ ?rest @ post" using assms(2) split by (metis append_assoc)
  have "list_all gap_char ?a" by (auto simp: list_all_iff dest: set_takeWhileD)
  then have first: "i + length ?a \<in> set (ends (Star sp) s i)"
    unfolding sp_def gap_char_def[symmetric] by (rule ends_run[OF _ at assms(3) refl])
  show ?thesis
  proof (cases ?rest)
    case Nil
    then have j: "i + length ?a = j" using assms(4) len by simp
    show ?thesis by (rule exI[of _ j], rule conjI[OF first[unfolded j] ends_opt(1)])
  next
    case (Cons c b)
    then have c: "c = 0x2D" "list_all gap_char b" using assms(1) by (auto simp: unit_gap_def Let_def)
    have "s = (q @ ?a) @ [0x2D] @ b @ post" using at Cons c(1) by simp
    then have "i + length ?a + 1 \<in> set (ends (lit u ''-'') s (i + length ?a))"
      by (intro consumesD[OF consumes_lit, where w' = "[0x2D]" and q = "q @ ?a"]) (simp_all add: cased_def cps_def assms(3))
    moreover have "j \<in> set (ends (Star sp) s (i + length ?a + 1))"
      unfolding sp_def gap_char_def[symmetric]
      by (rule ends_run[OF c(2), of s "q @ ?a @ [0x2D]" post]) (use at Cons c(1) len assms(3,4) in simp_all)
    ultimately have "j \<in> set (ends (seqs [lit u ''-'', Star sp]) s (i + length ?a))" by (rule seq_step[OF _ seq_step[OF _ seq_stop]])
    then show ?thesis using first ends_opt(2) by blast
  qed
qed

lemma quantity_ends:
  assumes "written_number u n" "unit_gap gap" "names_unit u w post"
    and "pre = [] \<or> \<not> glued_left u (last pre)" "t = pre @ n @ gap @ w @ post"
  shows "\<exists>j. j \<in> set (ends (quantity_rx u) t (length pre))"
proof -
  let ?i = "length pre" and ?j = "length pre + length n" and ?k = "length pre + length n + length gap"
  have "number_start u t ?i" using assms(4) by (cases pre rule: rev_cases) (auto simp: number_start_def before_def assms(5) nth_append)
  then have "?i \<in> set (ends (At (number_start u)) t ?i)" by (rule ends_At)
  moreover have "?j \<in> set (ends (digits_rx u) t ?i)" by (rule number_ends[OF assms(1,5)]) simp_all
  ultimately have num: "?j \<in> set (ends (number_rx u) t ?i)" unfolding number_rx_def by (rule ends_Seq)
  obtain m where gap: "m \<in> set (ends (Star sp) t ?j)" "?k \<in> set (ends (opt (seqs [lit u ''-'', Star sp])) t m)"
    using gap_ends[OF assms(2), of t "pre @ n" "w @ post" ?j ?k u] by (auto simp: assms(5))
  obtain r where "r \<in> set (unit_rxs u)" "?k + length w \<in> set (ends r t ?k)"
    using unit_pattern[OF assms(3), of "pre @ n @ gap"] by (auto simp: assms(5) add.assoc)
  then have "?k + length w \<in> set (ends (alts (unit_rxs u)) t ?k)" by (rule ends_alts)
  then show ?thesis
    unfolding quantity_rx_def by (intro exI) (rule seq_step[OF num seq_step[OF gap(1) seq_step[OF gap(2) seq_step[OF _ seq_stop]]]])
qed

lemma quantities_found:
  assumes "list_all (\<lambda>c. \<not> uc_format u c) t" "j \<in> set (ends (quantity_rx u) t i)" "i \<le> length t"
  shows "quantities_in u t \<noteq> []"
proof -
  have "shown_text u t = t" using assms(1) by (simp add: shown_text_def list_all_iff)
  moreover have "sort_key f (ms @ ns) \<noteq> []" if "ms \<noteq> []" for f :: "nat \<times> nat \<Rightarrow> nat" and ms ns
    using that set_sort[of f "ms @ ns"] by (metis append_is_Nil_conv set_empty)
  ultimately show ?thesis using all_matches_found[OF assms(2,3)] by (simp only: quantities_in_def Let_def map_is_Nil_conv)
qed

lemma quantity_is_refused:
  assumes "written_number u n" "unit_gap gap" "names_unit u w post"
    and "pre = [] \<or> \<not> glued_left u (last pre)" "t = pre @ n @ gap @ w @ post"
  shows "verify_text u t forecast \<noteq> []"
proof (cases "list_ex (uc_format u) t")
  case False
  then have plain: "list_all (\<lambda>c. \<not> uc_format u c) t" by (auto simp: list_ex_iff list_all_iff)
  then have "shown_text u t = t" by (simp add: shown_text_def list_all_iff)
  moreover obtain j where "j \<in> set (ends (quantity_rx u) t (length pre))" using quantity_ends[OF assms] by blast
  then have "quantities_in u t \<noteq> []" by (rule quantities_found[OF plain]) (simp add: assms(5))
  ultimately show ?thesis by (simp add: verify_text_def)
qed (simp add: verify_text_def Let_def)


subsection \<open>Prose that the patterns do not read\<close>

lemma seqs_dead: "r \<in> set rs \<Longrightarrow> (\<And>i. ends r t i = []) \<Longrightarrow> ends (seqs rs) t i = []"
  by (induction rs arbitrary: i) auto

lemma alts_dead: "(\<And>r. r \<in> set rs \<Longrightarrow> ends r t i = []) \<Longrightarrow> ends (alts rs) t i = []"
  by (induction rs) auto

lemma Sat_absent: "list_all (\<lambda>c. \<not> P c) t \<Longrightarrow> ends (Sat P) t i = []"
  by (simp add: list_all_length)

lemma one_of_absent: "list_all (\<lambda>c. list_all (\<lambda>k. uc_fold u c \<noteq> uc_fold u k) ks) t \<Longrightarrow> ends (one_of u ks) t i = []"
  unfolding one_of_def by (rule Sat_absent) (auto simp: list_all_iff list_ex_iff)

lemma lit_absent: "w \<noteq> [] \<Longrightarrow> list_all (\<lambda>c. uc_fold u c \<noteq> uc_fold u (of_char (hd w))) t \<Longrightarrow> ends (lit u w) t i = []"
  unfolding lit_def cps_def
  by (cases w) (auto intro!: seqs_dead[of "one_of u [of_char (hd w)]"] one_of_absent simp del: seqs.simps)

lemma plus1_dead: "ends r t i = [] \<Longrightarrow> ends (plus1 r) t i = []"
  by (simp add: plus1_def)

lemma seqs_dead1: "ends r t i = [] \<Longrightarrow> ends (seqs (r # rs)) t i = []"
  by simp

lemma digits_absent: "list_all (\<lambda>c. \<not> uc_decimal u c) t \<Longrightarrow> ends (digits_rx u) t i = []"
  unfolding digits_rx_def Let_def
  by (rule seqs_dead[OF list.set_intros(2)[OF list.set_intros(1)]], rule alts_dead)
    (auto intro: seqs_dead[OF _ plus1_dead[OF Sat_absent]] simp del: seqs.simps)

text \<open>Numbers that are all glued to what stands before them.\<close>

lemma number_glued:
  assumes "list_all (\<lambda>c. c \<notin> {0x2D, 0x2B, 0x2212}) t" "list_all (\<lambda>c. list_all (\<lambda>k. uc_fold u c \<noteq> uc_fold u k) (cps ''.,'')) t"
    and "list_all (\<lambda>j. \<not> uc_decimal u (t ! j) \<or> \<not> number_start u t j) [0 ..< length t]"
  shows "ends (number_rx u) t i = []"
proof (cases "number_start u t i")
  case True
  then have "\<not> (i < length t \<and> uc_decimal u (t ! i))" using assms(3) by (auto simp: list_all_iff)
  then have d: "ends (plus1 (Sat (uc_decimal u))) t i = []" by (simp only: plus1_def ends.simps if_False list.map concat.simps)
  have "ends (opt (Sat (\<lambda>c. c \<in> {0x2D, 0x2B, 0x2212}))) t i = [i]"
    by (simp only: opt_def ends.simps(2,4) Sat_absent[OF assms(1)] append_Nil)
  moreover have "ends (alts [seqs [plus1 (Sat (uc_decimal u)), r], seqs [one_of u (cps ''.,''), q]]) t i = []" for r q
    by (rule alts_dead) (auto intro: seqs_dead1 d one_of_absent[OF assms(2)] simp del: seqs.simps)
  ultimately show ?thesis by (simp add: number_rx_def digits_rx_def Let_def del: alts.simps)
qed (simp add: number_rx_def)

lemma search_absent: "(\<And>i. ends r s i = []) \<Longrightarrow> search n r s k = []"
  by (induction n arbitrary: k) simp_all

lemma money_absent:
  assumes "list_all (\<lambda>c. c \<notin> {0x24, 0x20AC, 0xA3, 0xA5, 0x20B9}) t"
    and "list_all (\<lambda>c. list_all (\<lambda>k. uc_fold u c \<noteq> uc_fold u (of_char k)) ''auegd'') t"
  shows "ends (money_first_rx u) t i = []"
proof -
  have w: "ends (lit u w) t i = []" if "w \<noteq> []" "hd w \<in> set ''auegd''" for w i
    by (rule lit_absent[OF that(1)]) (use assms(2) that(2) in \<open>auto simp: list_all_iff\<close>)
  have "ends (alts [lit u ''aed'', lit u ''usd'', lit u ''eur'', lit u ''gbp'', seqs [lit u ''dh'', opt (lit u ''s'')]]) t i = []" for i
    by (rule alts_dead) (auto intro: w seqs_dead1[OF w] simp del: seqs.simps)
  then have names: "ends (seqs [r, alts [lit u ''aed'', lit u ''usd'', lit u ''eur'', lit u ''gbp'', seqs [lit u ''dh'', opt (lit u ''s'')]]]) t i = []" for r i
    by (rule seqs_dead[rotated]) simp
  show ?thesis unfolding money_first_rx_def
    by (rule seqs_dead1, rule alts_dead) (use names Sat_absent[OF assms(1)] in \<open>auto simp del: seqs.simps ends.simps(1)\<close>)
qed

lemma no_quantities:
  assumes "list_all (\<lambda>c. \<not> uc_format u c) t" "\<And>i. ends (number_rx u) t i = []" "\<And>i. ends (money_first_rx u) t i = []"
  shows "quantities_in u t = []"
proof -
  have "shown_text u t = t" using assms(1) by (simp add: shown_text_def list_all_iff)
  moreover have "ends (quantity_rx u) t i = []" for i unfolding quantity_rx_def by (rule seqs_dead[OF _ assms(2)]) simp
  ultimately show ?thesis using assms(3) by (simp add: quantities_in_def all_matches_def search_absent)
qed

lemma plain_prose:
  assumes "list_all (\<lambda>c. \<not> uc_format u c) t" "quantities_in u t = []"
    and "list_all (\<lambda>c. list_all (\<lambda>k. uc_fold u c \<noteq> uc_fold u (of_char k)) ''vf'') t"
  shows "verify_text u t forecast = []"
proof -
  have t: "shown_text u t = t" using assms(1) by (simp add: shown_text_def list_all_iff)
  have w: "ends (lit u w) t i = []" if "w \<noteq> []" "hd w \<in> set ''vf''" for w i
    by (rule lit_absent[OF that(1)]) (use assms(3) that(2) in \<open>auto simp: list_all_iff\<close>)
  have "ends (validated_rx u) t i = []" "ends (forecast_rx u) t i = []" for i
    unfolding validated_rx_def forecast_rx_def
    by (rule seqs_dead[of "lit u ''validat''"], simp, rule w; simp) (rule seqs_dead[of "lit u ''forecast''"], simp, rule w; simp)
  then have "\<not> rx_test (validated_rx u) t" "\<not> rx_test (forecast_rx u) t" by (simp_all add: rx_test_def list_ex_iff)
  then show ?thesis using assms(1,2) by (simp add: verify_text_def t list_all_iff list_ex_iff)
qed


text \<open>The classes restricted to ASCII, as a concrete instance.\<close>

definition ascii_classes :: unicode where
  "ascii_classes = \<lparr>uc_letter = (\<lambda>c. (65 \<le> c \<and> c \<le> 90) \<or> (97 \<le> c \<and> c \<le> 122)), uc_number = (\<lambda>c. 48 \<le> c \<and> c \<le> 57),
     uc_decimal = (\<lambda>c. 48 \<le> c \<and> c \<le> 57), uc_format = (\<lambda>c. c = 0xAD), uc_fold = (\<lambda>c. if 65 \<le> c \<and> c \<le> 90 then c + 32 else c)\<rparr>"

text \<open>A colon before the number, or a slash, and the quantity is not read.\<close>

lemma colon_hides_quantity: "verify_text ascii_classes (cps ''Now:44 kW'') False = []"
proof (rule plain_prose)
  have "ends (number_rx ascii_classes) (cps ''Now:44 kW'') i = []" for i
    by (rule number_glued)
      (simp_all add: cps_def ascii_classes_def number_start_def before_def glued_left_def multiplier_def upt_rec)
  note number = this
  have "ends (money_first_rx ascii_classes) (cps ''Now:44 kW'') i = []" for i
    by (rule money_absent) (simp_all add: cps_def ascii_classes_def)
  then show "quantities_in ascii_classes (cps ''Now:44 kW'') = []" by (rule no_quantities[OF _ number, rotated]) code_simp
qed code_simp+

lemma all_caveats_unanswerable:
  assumes "verify_answer u doc evidence forecast bounds = []" "i \<in> set (cited_ids evidence (concat (an_paragraphs doc)))"
    and "jget evidence i = Some e"
  shows "\<not> set caveat_ids \<subseteq> set (ev_caveats e)"
proof
  assume "set caveat_ids \<subseteq> set (ev_caveats e)"
  moreover have "set (ev_caveats e) \<subseteq> set (required_caveats evidence (concat (an_paragraphs doc)))"
    using assms(2,3) by (auto simp: required_caveats_def record_needs_def intro!: bexI[of _ i])
  ultimately have "set caveat_ids \<subseteq> set (an_caveats doc)" using verify_answer_clean(3)[OF assms(1)] by blast
  then have "card (set caveat_ids) \<le> length (an_caveats doc)" by (meson List.finite_set card_length card_mono le_trans)
  moreover have "card (set caveat_ids) = 17" by (simp add: caveat_ids_def)
  moreover have "length (an_caveats doc) \<le> 16" using verify_answer_clean(1)[OF assms(1)] by (simp add: answer_ok_def)
  ultimately show False by simp
qed

subsection \<open>An answer that verifies\<close>

definition peak_evidence :: evidence_map where
  "peak_evidence = [(''T1.E1'', \<lparr>ev_id = ''T1.E1'', ev_task = ''T1'', ev_tool = ''energy'', ev_kind = Measured, ev_source = Telemetry5m,
     ev_label = ''Peak'', ev_window = None, ev_coverage = None, ev_flagged_excluded = None, ev_truncated = None, ev_caveats = [METER_SUSPECT_BUCKETS],
     ev_headline = [], ev_data = JObject [(''peak_kw'', JNumber (218 / 5))], ev_at = ''''\<rparr>)]"

definition peak_figure :: figure where
  "peak_figure = \<lparr>fg_value = 218 / 5, fg_decimals = 1, fg_unit = UKw, fg_basis = BasisOf Measured,
     fg_ref = Some \<lparr>rf_evidence = ''T1.E1'', rf_path = ''peak_kw''\<rparr>, fg_derive = None\<rparr>"

definition peak_answer :: answer_doc where
  "peak_answer = \<lparr>an_paragraphs = [[TextSeg (cps ''The peak was ''), NumSeg peak_figure]], an_caveats = [METER_SUSPECT_BUCKETS]\<rparr>"

lemma peak_prose: "verify_text ascii_classes (cps ''The peak was '') False = []"
proof (rule plain_prose)
  have d: "list_all (\<lambda>c. \<not> uc_decimal ascii_classes c) (cps ''The peak was '')" by code_simp
  have "ends (number_rx ascii_classes) (cps ''The peak was '') i = []" for i by (simp add: number_rx_def digits_absent[OF d])
  moreover have "ends (money_first_rx ascii_classes) (cps ''The peak was '') i = []" for i
    unfolding money_first_rx_def by (rule seqs_dead[OF _ digits_absent[OF d]]) simp
  ultimately show "quantities_in ascii_classes (cps ''The peak was '') = []" by (rule no_quantities[rotated]) code_simp
qed code_simp+

lemma peak_answer_verified: "verify_answer ascii_classes peak_answer peak_evidence False default_bounds = []"
proof -
  have "check_num peak_figure peak_evidence = []" by code_simp
  moreover have "\<not> rx_test (glued_before_rx ascii_classes) (cps ''The peak was '')"
    by (simp add: rx_test_def glued_before_rx_def cps_def ascii_classes_def)
  moreover have "\<not> rx_test (glued_after_rx ascii_classes) []" by code_simp
  moreover have "check_glue ascii_classes [TextSeg (cps ''The peak was '')] peak_figure [] = []"
    using calculation(2,3) by (simp add: check_glue_def cps_def)
  ultimately have paragraphs: "check_paragraphs ascii_classes peak_evidence False 0 (an_paragraphs peak_answer) = []"
    by (simp add: peak_answer_def peak_prose flush_run_def unpaired_totals_def segment_refs_def peak_figure_def missing_total_def other_total_def)
  have "utf16_length (cps ''The peak was '') \<le> 600" by (simp add: utf16_length_def cps_def)
  moreover have "evidence_id_ok ''T1.E1''" by code_simp
  ultimately have "answer_ok peak_answer"
    by (simp add: answer_ok_def peak_answer_def segment_ok_def peak_figure_def ref_ok_def)
  moreover have "length (an_paragraphs peak_answer) \<le> 6" "length (concat (an_paragraphs peak_answer)) \<le> 48" by (simp_all add: peak_answer_def)
  moreover have "text_chars (concat (an_paragraphs peak_answer)) \<le> 1600"
    by (simp add: text_chars_def peak_answer_def utf16_length_def cps_def)
  moreover have "required_caveats peak_evidence (concat (an_paragraphs peak_answer)) = [METER_SUSPECT_BUCKETS]"
    by (simp add: required_caveats_def cited_ids_def segment_evidence_def peak_answer_def peak_figure_def record_needs_def
        peak_evidence_def simulated_figures_def is_simulated_figure_def)
  moreover have "filter (\<lambda>c. \<not> supported_caveat peak_evidence (concat (an_paragraphs peak_answer)) c) (rev (remdups (rev (an_caveats peak_answer)))) = []"
    by (simp add: peak_answer_def supported_caveat_def peak_evidence_def)
  moreover have "an_caveats peak_answer = [METER_SUSPECT_BUCKETS]" by (simp add: peak_answer_def)
  ultimately show ?thesis using paragraphs by (simp add: verify_answer_def default_bounds_def Let_def)
qed

theorem verified_figures_backed_witness: "backed peak_evidence peak_figure"
proof -
  have "[TextSeg (cps ''The peak was ''), NumSeg peak_figure] \<in> set (an_paragraphs peak_answer)" by (simp add: peak_answer_def)
  from verified_figures_backed[OF peak_answer_verified this, of "NumSeg peak_figure"] show ?thesis by simp
qed

theorem verified_caveats_exact_witness: "METER_SUSPECT_BUCKETS \<in> set (an_caveats peak_answer)"
proof -
  have s: "NumSeg peak_figure \<in> set (concat (an_paragraphs peak_answer))" by (simp add: peak_answer_def)
  have i: "''T1.E1'' \<in> set (segment_evidence (NumSeg peak_figure))" by code_simp
  have e: "jget peak_evidence ''T1.E1'' = Some (snd (hd peak_evidence))" by code_simp
  have "METER_SUSPECT_BUCKETS \<in> set (ev_caveats (snd (hd peak_evidence)))" by code_simp
  moreover obtain x where "jget peak_evidence ''T1.E1'' = Some x" "set (ev_caveats x) \<subseteq> set (an_caveats peak_answer)"
    using conjunct1[OF verified_caveats_exact[OF peak_answer_verified], rule_format, OF s i] by blast
  ultimately show ?thesis using e by auto
qed


end
