(* ===== verification/Copilot_Render.thy ===== *)
theory Copilot_Render
  imports Copilot_Verify
begin

section \<open>What the operator is shown (apps/web/lib/copilot/render.ts)\<close>

text \<open>
  A verified answer as the segments of the panel, as plain text for later turns, and a record as a card. The fixed
  texts of the caveats and the printing of a number that has no unit are arguments.
\<close>

datatype rendered =
    ShownText utext
  | ShownNum utext basis "string list" bool
  | ShownCite "string list"

record rendered_answer =
  ra_paragraphs :: "rendered list list"
  ra_caveats :: "caveat list"

definition render_segment :: "evidence_map \<Rightarrow> segment \<Rightarrow> rendered" where
  "render_segment evidence s =
     (case s of
        TextSeg t \<Rightarrow> ShownText t
      | CiteSeg ids \<Rightarrow> ShownCite ids
      | NumSeg f \<Rightarrow> ShownNum (format_quantity (fg_value f) (fg_decimals f) (fg_unit f)) (fg_basis f) (segment_evidence s)
          (is_simulated_figure f evidence))"

text \<open>The verifier runs again; \<open>None\<close> means that the evidence cards are shown instead.\<close>

definition render_answer :: "unicode \<Rightarrow> answer_doc option \<Rightarrow> evidence_map \<Rightarrow> bool \<Rightarrow> rendered_answer option" where
  "render_answer u answer evidence forecast =
     (case answer of
        None \<Rightarrow> None
      | Some doc \<Rightarrow>
          if verify_answer u doc evidence forecast default_bounds \<noteq> [] then None
          else Some \<lparr>ra_paragraphs = map (map (render_segment evidence)) (an_paragraphs doc), ra_caveats = caveat_lines (an_caveats doc)\<rparr>)"

definition shown_words :: "rendered \<Rightarrow> utext" where
  "shown_words s = (case s of ShownText t \<Rightarrow> t | ShownNum t _ _ _ \<Rightarrow> t | ShownCite _ \<Rightarrow> [])"

fun paragraphs_joined :: "utext list \<Rightarrow> utext" where
  "paragraphs_joined [] = []"
| "paragraphs_joined [t] = t"
| "paragraphs_joined (t # ts) = t @ [10, 10] @ paragraphs_joined ts"

definition answer_plain_text :: "(caveat \<Rightarrow> utext) \<Rightarrow> rendered_answer \<Rightarrow> utext" where
  "answer_plain_text line r =
     paragraphs_joined (map (\<lambda>p. trim_text (concat (map shown_words p))) (ra_paragraphs r) @ map line (ra_caveats r))"

subsection \<open>Evidence cards\<close>

record card =
  cd_id :: string
  cd_label :: string
  cd_source :: evidence_source
  cd_kind :: evidence_kind
  cd_window :: "(string \<times> string) option"
  cd_coverage :: "(nat \<times> nat) option"
  cd_flagged :: "nat option"
  cd_truncated :: "(nat \<times> nat) option"
  cd_headline :: "(string \<times> utext) list"
  cd_caveats :: "caveat list"

definition dash_text :: utext where "dash_text = [0x2014]"

definition headline_text :: "(rat \<Rightarrow> utext) \<Rightarrow> json \<Rightarrow> string \<Rightarrow> utext" where
  "headline_text print data path =
     (case lookup_path data path of
        None \<Rightarrow> dash_text
      | Some (JNumber v, key) \<Rightarrow>
          (case unit_of_key key of None \<Rightarrow> print v | Some x \<Rightarrow> format_quantity v (default_decimals x v) x)
      | Some (JBool b, _) \<Rightarrow> cps (if b then ''yes'' else ''no'')
      | Some (JString s, _) \<Rightarrow> if 80 < length s then cps (take 79 s) @ [0x2026] else cps s
      | Some _ \<Rightarrow> dash_text)"

definition render_card :: "(rat \<Rightarrow> utext) \<Rightarrow> evidence \<Rightarrow> card" where
  "render_card print e =
     \<lparr>cd_id = ev_id e, cd_label = ev_label e, cd_source = ev_source e, cd_kind = ev_kind e, cd_window = ev_window e,
      cd_coverage = ev_coverage e, cd_flagged = ev_flagged_excluded e, cd_truncated = ev_truncated e,
      cd_headline = map (\<lambda>(l, p). (l, headline_text print (ev_data e) p)) (ev_headline e),
      cd_caveats = caveat_lines (if ev_kind e = Simulated then ev_caveats e @ [simulated_figure_caveat] else ev_caveats e)\<rparr>"

subsection \<open>What is shown is verified\<close>

lemma simulated_needs_caveat:
  assumes "verify_answer u doc evidence forecast bounds = []" "NumSeg f \<in> set (concat (an_paragraphs doc))" "is_simulated_figure f evidence"
  shows "simulated_figure_caveat \<in> set (an_caveats doc)"
proof -
  have "simulated_figures evidence (concat (an_paragraphs doc))"
    using assms(2,3) unfolding simulated_figures_def list_ex_iff by (intro bexI[of _ "NumSeg f"]) simp_all
  then have "simulated_figure_caveat \<in> set (required_caveats evidence (concat (an_paragraphs doc)))"
    by (simp add: required_caveats_def)
  then show ?thesis using verify_answer_clean(3)[OF assms(1)] by blast
qed

lemma render_answer_Some:
  "render_answer u answer evidence forecast = Some r \<longleftrightarrow>
   (\<exists>doc. answer = Some doc \<and> verify_answer u doc evidence forecast default_bounds = [] \<and>
     r = \<lparr>ra_paragraphs = map (map (render_segment evidence)) (an_paragraphs doc), ra_caveats = caveat_lines (an_caveats doc)\<rparr>)"
  by (auto simp: render_answer_def split: option.splits)

text \<open>What a derivation means: a difference of two values, where two temperatures give kelvins and kelvins off a temperature give a
  temperature; the sum of values of one unit that can be added up; the change from the first value to the second in percent of
  the first.\<close>

fun derives :: "derive_op \<Rightarrow> cited list \<Rightarrow> rat \<Rightarrow> unit_id \<Rightarrow> bool" where
  "derives Difference cs v x =
     (\<exists>a b. cs = [a, b] \<and> v = ct_value a - ct_value b \<and>
        (x = UK \<and> ct_unit a = UC \<and> ct_unit b = UC \<or> x = UC \<and> ct_unit a = UC \<and> ct_unit b = UK \<or>
         x \<notin> {UC, UPct} \<and> ct_unit a = x \<and> ct_unit b = x))"
| "derives Sum cs v x = (cs \<noteq> [] \<and> (\<forall>c \<in> set cs. ct_unit c = x) \<and> x \<notin> {UC, UPct} \<and> v = sum_list (map ct_value cs))"
| "derives PercentChange cs v x =
     (\<exists>a b. cs = [a, b] \<and> ct_unit a = ct_unit b \<and> ct_unit a \<notin> {UC, UPct} \<and> ct_value a \<noteq> 0 \<and>
        v = (ct_value b - ct_value a) / \<bar>ct_value a\<bar> * 100 \<and> x = UPct)"

lemma evaluate_derives: "evaluate_derive op cs = Some (v, x) \<Longrightarrow> derives op cs v x"
  by (cases op) (auto simp: evaluate_derive_def list_ex_iff split: list.splits if_splits)

text \<open>C11: Every figure that is shown has its source. Its text is the written form of a figure whose rounded value differs from a
  sourced value by at most half a unit of the last decimal shown (plus a billionth of the value, or of one where the value is smaller); and the sourced value is either
  one that this request's evidence holds under a key that names the unit shown, in a record of the kind shown as its basis, or, where
  the basis shown is Derived, the stated difference, sum or percent change of such values, none cited twice and never a measured with
  a simulated one, in the unit that follows. The figure names the records it rests on, and where it depends on model output it
  is marked so, with the model-estimate caveat beside it.\<close>
theorem shown_figures_backed:
  assumes "render_answer u answer evidence forecast = Some r" "p \<in> set (ra_paragraphs r)" "ShownNum t b ids sim \<in> set p"
  shows "\<exists>f v. t = format_quantity (fg_value f) (fg_decimals f) (fg_unit f) \<and>
     \<bar>displayed_value (fg_value f) (fg_decimals f) - v\<bar> \<le> 1 / 2 / 10 ^ fg_decimals f + (1 / 10 ^ 9) * max 1 \<bar>v\<bar> \<and>
     ((\<exists>c k. fg_ref f = Some c \<and> fg_derive f = None \<and> b = BasisOf k \<and> cites evidence c v (fg_unit f) k) \<or>
      (\<exists>op rs cs. fg_ref f = None \<and> fg_derive f = Some (op, rs) \<and> b = Derived \<and> distinct (map place_of rs) \<and>
         list_all2 (\<lambda>c x. cites evidence c (ct_value x) (ct_unit x) (ct_kind x)) rs cs \<and>
         \<not> (Simulated \<in> ct_kind ` set cs \<and> Measured \<in> ct_kind ` set cs) \<and> derives op cs v (fg_unit f))) \<and>
     ids = segment_evidence (NumSeg f) \<and> sim = is_simulated_figure f evidence \<and>
     (sim \<longrightarrow> simulated_figure_caveat \<in> set (ra_caveats r))"
proof -
  obtain doc where doc: "answer = Some doc" "verify_answer u doc evidence forecast default_bounds = []"
    "r = \<lparr>ra_paragraphs = map (map (render_segment evidence)) (an_paragraphs doc), ra_caveats = caveat_lines (an_caveats doc)\<rparr>"
    using assms(1) by (auto simp: render_answer_Some)
  then obtain q s where q: "q \<in> set (an_paragraphs doc)" "s \<in> set q" "render_segment evidence s = ShownNum t b ids sim"
    using assms(2,3) by auto
  then obtain f where f: "s = NumSeg f" "t = format_quantity (fg_value f) (fg_decimals f) (fg_unit f)" "b = fg_basis f"
    "ids = segment_evidence (NumSeg f)" "sim = is_simulated_figure f evidence"
    by (auto simp: render_segment_def split: segment.splits)
  obtain base where "check_paragraph u evidence forecast base [] None q = []"
    using check_paragraphs_clean[OF verify_answer_clean(2)[OF doc(2)]] q(1) by blast
  then have backed: "backed evidence f" using check_paragraph_clean(1) check_num_backed q(2) f(1) by blast
  have caveat: "simulated_figure_caveat \<in> set (ra_caveats r)" if sim
    using simulated_needs_caveat[OF doc(2), of f] q f(1,5) that doc(3) by (auto simp: caveat_lines_set)
  from backed show ?thesis unfolding backed_def agrees_def
  proof (elim disjE exE conjE)
    fix c k v
    assume "fg_ref f = Some c" "fg_derive f = None" "fg_basis f = BasisOf k" "cites evidence c v (fg_unit f) k"
      "\<bar>displayed_value (fg_value f) (fg_decimals f) - v\<bar> \<le> 1 / 2 / 10 ^ fg_decimals f + (1 / 10 ^ 9) * max 1 \<bar>v\<bar>"
    then show ?thesis using f caveat by (intro exI[of _ f] exI[of _ v]) auto
  next
    fix op rs cs v
    assume "fg_ref f = None" "fg_derive f = Some (op, rs)" "fg_basis f = Derived" "distinct (map place_of rs)"
      "list_all2 (\<lambda>r c. cites evidence r (ct_value c) (ct_unit c) (ct_kind c)) rs cs"
      "\<not> (Simulated \<in> ct_kind ` set cs \<and> Measured \<in> ct_kind ` set cs)" "evaluate_derive op cs = Some (v, fg_unit f)"
      "\<bar>displayed_value (fg_value f) (fg_decimals f) - v\<bar> \<le> 1 / 2 / 10 ^ fg_decimals f + (1 / 10 ^ 9) * max 1 \<bar>v\<bar>"
    then show ?thesis using f caveat evaluate_derives by (intro exI[of _ f] exI[of _ v]) blast
  qed
qed

theorem shown_figures_backed_witness:
  "\<exists>r. render_answer ascii_classes (Some peak_answer) peak_evidence False = Some r \<and>
     (\<exists>f. cps ''43.6 kW'' = format_quantity (fg_value f) (fg_decimals f) (fg_unit f) \<and>
        is_simulated_figure peak_figure peak_evidence = is_simulated_figure f peak_evidence)"
proof -
  let ?r = "\<lparr>ra_paragraphs = map (map (render_segment peak_evidence)) (an_paragraphs peak_answer), ra_caveats = caveat_lines (an_caveats peak_answer)\<rparr>"
  have r: "render_answer ascii_classes (Some peak_answer) peak_evidence False = Some ?r"
    by (simp add: render_answer_def peak_answer_verified)
  have p: "[render_segment peak_evidence (TextSeg (cps ''The peak was '')), render_segment peak_evidence (NumSeg peak_figure)] \<in> set (ra_paragraphs ?r)"
    by (simp add: peak_answer_def)
  have t: "format_quantity (fg_value peak_figure) (fg_decimals peak_figure) (fg_unit peak_figure) = cps ''43.6 kW''" by code_simp
  have "ShownNum (cps ''43.6 kW'') (fg_basis peak_figure) (segment_evidence (NumSeg peak_figure)) (is_simulated_figure peak_figure peak_evidence)
      \<in> set [render_segment peak_evidence (TextSeg (cps ''The peak was '')), render_segment peak_evidence (NumSeg peak_figure)]"
    by (simp add: render_segment_def t)
  from shown_figures_backed[OF r p this] r show ?thesis by blast
qed

text \<open>A card states the model-estimate caveat on anything simulated, and every caveat of its record.\<close>

lemma card_carries_caveats:
  "set (cd_caveats (render_card print e)) = set (ev_caveats e) \<union> (if ev_kind e = Simulated then {simulated_figure_caveat} else {})"
  by (simp add: render_card_def caveat_lines_set)

text \<open>No evidence id outlives its request in the plain text: what a citation shows is nothing.\<close>

lemma plain_text_without_cites:
  "answer_plain_text line r =
   answer_plain_text line (r\<lparr>ra_paragraphs := map (filter (\<lambda>s. case s of ShownCite _ \<Rightarrow> False | _ \<Rightarrow> True)) (ra_paragraphs r)\<rparr>)"
proof -
  have "concat (map shown_words (filter (\<lambda>s. case s of ShownCite _ \<Rightarrow> False | _ \<Rightarrow> True) p)) = concat (map shown_words p)" for p
    by (induction p) (auto simp: shown_words_def split: rendered.splits)
  then show ?thesis by (simp add: answer_plain_text_def comp_def)
qed

end
