(* ===== verification/Copilot_Ledger.thy ===== *)
theory Copilot_Ledger
  imports Prelude "HOL-Library.List_Lexorder" "HOL-Library.Char_ord" "HOL-Library.Multiset"
begin

section \<open>The approval ledger (apps/web/lib/copilot/ledger.ts)\<close>

text \<open>
  The plans a person approved, held for \<open>apply\<close> to take once. A plan reaches the ledger through a checkpoint, so
  it is a \<open>json\<close> value here, read field by field. How a primitive is printed (\<open>JSON.stringify\<close>) and the digest are
  arguments; the two readings of the clock that a grant makes are two arguments.
\<close>

record granted_command =
  gc_zone :: string
  gc_zone_name :: string
  gc_setpoint :: rat
  gc_duration :: "int option"
  gc_reason :: string

record grant =
  gt_plan :: string
  gt_hash :: string
  gt_commands :: "granted_command list"
  gt_at :: ms

record grantable =
  pl_id :: json
  pl_hash :: json
  pl_commands :: json

record digest =
  dg_print :: "json \<Rightarrow> string"
  dg_hash :: "string \<Rightarrow> string"

subsection \<open>The identity of a plan\<close>

fun joined :: "string \<Rightarrow> string list \<Rightarrow> string" where
  "joined sep [] = []"
| "joined sep [s] = s"
| "joined sep (s # ss) = s @ sep @ joined sep ss"

fun canonical_json :: "(json \<Rightarrow> string) \<Rightarrow> json \<Rightarrow> string" where
  "canonical_json p (JArray xs) = ''['' @ joined '','' (map (canonical_json p) xs) @ '']''"
| "canonical_json p (JObject m) =
     ''{'' @ joined '','' (map (\<lambda>(k, s). p (JString k) @ '':'' @ s)
       (sort_key fst (map (\<lambda>(k, v). (k, canonical_json p v)) m))) @ ''}''"
| "canonical_json p j = p j"

text \<open>The fields that are sent. A field that is absent is \<open>undefined\<close> and not written; an absent duration is null.\<close>

definition sent_command :: "json \<Rightarrow> json" where
  "sent_command c =
     (let f = (\<lambda>k. case jfield c k of Some v \<Rightarrow> [(k, v)] | None \<Rightarrow> []) in
      JObject (f ''zoneId'' @ f ''setpointTempC'' @
        [(''durationS'', case jfield c ''durationS'' of Some v \<Rightarrow> v | None \<Rightarrow> JNull)] @ f ''reason''))"

definition hash_commands :: "digest \<Rightarrow> json list \<Rightarrow> string" where
  "hash_commands d cs = dg_hash d (canonical_json (dg_print d) (JArray (map sent_command cs)))"

definition hash_shape :: "string \<Rightarrow> bool" where
  "hash_shape s = (length s = 64 \<and> list_all (\<lambda>c. c \<in> set ''0123456789abcdef'') s)"

definition command_json :: "granted_command \<Rightarrow> json" where
  "command_json c =
     JObject [(''zoneId'', JString (gc_zone c)), (''zoneName'', JString (gc_zone_name c)), (''setpointTempC'', JNumber (gc_setpoint c)),
       (''durationS'', case gc_duration c of None \<Rightarrow> JNull | Some s \<Rightarrow> JNumber (of_int s)), (''reason'', JString (gc_reason c))]"

subsection \<open>What is kept of a plan\<close>

text \<open>One command, every field checked for its type.\<close>

definition granted_of :: "json \<Rightarrow> granted_command option" where
  "granted_of c =
     (case (jfield c ''zoneId'', jfield c ''zoneName'', jfield c ''setpointTempC'', jfield c ''reason'') of
        (Some (JString z), Some (JString n), Some (JNumber t), Some (JString r)) \<Rightarrow>
          (case jfield c ''durationS'' of
             None \<Rightarrow> Some \<lparr>gc_zone = z, gc_zone_name = n, gc_setpoint = t, gc_duration = None, gc_reason = r\<rparr>
           | Some JNull \<Rightarrow> Some \<lparr>gc_zone = z, gc_zone_name = n, gc_setpoint = t, gc_duration = None, gc_reason = r\<rparr>
           | Some j \<Rightarrow>
               map_option (\<lambda>s. \<lparr>gc_zone = z, gc_zone_name = n, gc_setpoint = t, gc_duration = Some s, gc_reason = r\<rparr>)
                 (checked (\<lambda>s. 0 < s) (json_int j)))
      | _ \<Rightarrow> None)"

text \<open>\<open>None\<close> stands for null, and for a plan whose reading throws: both are refused alike.\<close>

definition project :: "json \<Rightarrow> nat \<Rightarrow> granted_command list option" where
  "project commands max_commands =
     (case commands of
        JArray cs \<Rightarrow> if cs = [] \<or> max_commands < length cs then None else all_some (map granted_of cs)
      | _ \<Rightarrow> None)"

subsection \<open>The ledger\<close>

record ledger =
  lg_grants :: "(string, grant) jsmap"
  lg_granted :: "(string, ms) jsmap"
  lg_ttl :: ms
  lg_plan_ttl :: ms
  lg_max :: nat

definition new_ledger :: "int \<Rightarrow> int \<Rightarrow> nat \<Rightarrow> ledger" where
  "new_ledger grant_ttl_s plan_ttl_s max_commands =
     \<lparr>lg_grants = [], lg_granted = [], lg_ttl = grant_ttl_s * 1000, lg_plan_ttl = plan_ttl_s * 1000, lg_max = max_commands\<rparr>"

definition sweep_ledger :: "ms \<Rightarrow> ledger \<Rightarrow> ledger" where
  "sweep_ledger now l =
     l\<lparr>lg_grants := filter (\<lambda>(t, g). now - gt_at g < lg_ttl l) (lg_grants l),
       lg_granted := filter (\<lambda>(p, a). now - a < lg_plan_ttl l) (lg_granted l)\<rparr>"

definition revoke_grant :: "string \<Rightarrow> ledger \<Rightarrow> ledger" where
  "revoke_grant thread l = l\<lparr>lg_grants := jdel thread (lg_grants l)\<rparr>"

definition grant_plan :: "digest \<Rightarrow> ms \<Rightarrow> ms \<Rightarrow> string \<Rightarrow> grantable \<Rightarrow> ledger \<Rightarrow> bool \<times> ledger" where
  "grant_plan d swept now thread plan l =
     (let l1 = sweep_ledger swept l in
      case (pl_id plan, pl_hash plan, project (pl_commands plan) (lg_max l)) of
        (JString i, JString h, Some cs) \<Rightarrow>
          if i = [] \<or> \<not> hash_shape h \<or> hash_commands d (map command_json cs) \<noteq> h then (False, revoke_grant thread l1)
          else if jget (lg_granted l1) i \<noteq> None then (False, l1)
          else (True, l1\<lparr>lg_grants := jset thread \<lparr>gt_plan = i, gt_hash = h, gt_commands = cs, gt_at = now\<rparr> (lg_grants l1),
                         lg_granted := jset i now (lg_granted l1)\<rparr>)
      | _ \<Rightarrow> (False, revoke_grant thread l1))"

definition take_grant :: "ms \<Rightarrow> string \<Rightarrow> ledger \<Rightarrow> grant option \<times> ledger" where
  "take_grant now thread l =
     (case jget (lg_grants l) thread of
        None \<Rightarrow> (None, l)
      | Some g \<Rightarrow>
          (if 0 \<le> now - gt_at g \<and> now - gt_at g < lg_ttl l then Some g else None, revoke_grant thread l))"

definition holds_grant :: "string \<Rightarrow> ledger \<Rightarrow> bool" where
  "holds_grant thread l = (jget (lg_grants l) thread \<noteq> None)"

subsection \<open>What is kept hashes to what was shown\<close>

lemma granted_of_sent:
  assumes "granted_of c = Some g"
  shows "sent_command (command_json g) = sent_command c"
proof -
  obtain m where m: "c = JObject m" using assms by (cases c) (auto simp: granted_of_def jfield_def)
  then obtain z n t r where f: "jget m ''zoneId'' = Some (JString z)" "jget m ''zoneName'' = Some (JString n)"
    "jget m ''setpointTempC'' = Some (JNumber t)" "jget m ''reason'' = Some (JString r)"
    using assms unfolding granted_of_def by (auto simp: jfield_def split: option.splits json.splits)
  show ?thesis
  proof (cases "jget m ''durationS''")
    case None
    then show ?thesis using assms by (auto simp: granted_of_def m f sent_command_def command_json_def jfield_def)
  next
    case (Some j)
    then show ?thesis using assms
      by (cases j) (auto simp: granted_of_def m f sent_command_def command_json_def jfield_def json_int_def checked_def split: if_splits)
  qed
qed

lemma all_some_sent: "all_some (map granted_of cs) = Some gs \<Longrightarrow> map sent_command (map command_json gs) = map sent_command cs"
proof (induction cs arbitrary: gs)
  case (Cons c cs)
  then show ?case using granted_of_sent[of c] by (cases "granted_of c") auto
qed simp

lemma project_hash:
  "project (JArray cs) n = Some gs \<Longrightarrow> hash_commands d (map command_json gs) = hash_commands d cs"
proof -
  assume "project (JArray cs) n = Some gs"
  then have "all_some (map granted_of cs) = Some gs" by (simp add: project_def split: if_splits)
  from all_some_sent[OF this] show ?thesis by (simp only: hash_commands_def)
qed

lemma project_Some_array: "project j n = Some gs \<Longrightarrow> \<exists>cs. j = JArray cs \<and> cs \<noteq> [] \<and> length cs \<le> n"
  by (auto simp: project_def split: json.splits if_splits)

lemma grant_plan_True:
  assumes "grant_plan d swept now thread plan l = (True, l')"
  obtains i h cs gs where "pl_id plan = JString i" "pl_hash plan = JString h" "pl_commands plan = JArray cs"
    "project (JArray cs) (lg_max l) = Some gs" "hash_commands d cs = h" "jget (lg_granted (sweep_ledger swept l)) i = None"
    "l' = (sweep_ledger swept l)\<lparr>lg_grants := jset thread \<lparr>gt_plan = i, gt_hash = h, gt_commands = gs, gt_at = now\<rparr> (lg_grants (sweep_ledger swept l)),
                         lg_granted := jset i now (lg_granted (sweep_ledger swept l))\<rparr>"
proof -
  obtain i h gs where p: "pl_id plan = JString i" "pl_hash plan = JString h" "project (pl_commands plan) (lg_max l) = Some gs"
    using assms by (auto simp: grant_plan_def Let_def split: json.splits option.splits)
  moreover obtain cs where "pl_commands plan = JArray cs" using project_Some_array[OF p(3)] by blast
  ultimately show thesis
    using that assms project_hash[of cs "lg_max l" gs d] by (simp add: grant_plan_def Let_def split: if_splits)
qed

subsection \<open>Runs of the ledger\<close>

datatype ledger_event =
    LGrant string grantable ms ms
  | LTake string ms
  | LRevoke string

fun event_times :: "ledger_event \<Rightarrow> ms list" where
  "event_times (LGrant thread plan swept now) = [swept, now]"
| "event_times (LTake thread now) = [now]"
| "event_times (LRevoke thread) = []"

text \<open>The grants that were taken, the latest first.\<close>

fun ledger_step :: "digest \<Rightarrow> ledger_event \<Rightarrow> ledger \<times> grant list \<Rightarrow> ledger \<times> grant list" where
  "ledger_step d (LGrant thread plan swept now) (l, taken) = (snd (grant_plan d swept now thread plan l), taken)"
| "ledger_step d (LTake thread now) (l, taken) =
     (case take_grant now thread l of (g, l') \<Rightarrow> (l', (case g of Some x \<Rightarrow> x # taken | None \<Rightarrow> taken)))"
| "ledger_step d (LRevoke thread) (l, taken) = (revoke_grant thread l, taken)"

definition ledger_run :: "digest \<Rightarrow> ledger \<Rightarrow> ledger_event list \<Rightarrow> ledger \<times> grant list" where
  "ledger_run d l evs = fold (ledger_step d) evs (l, [])"

text \<open>The invariant, over the history of grants: at most one grant of a plan in any plan TTL, and every grant is in at
  most one place.\<close>

definition granted_values :: "ledger \<Rightarrow> grant list" where
  "granted_values l = map snd (lg_grants l)"

definition spaced :: "ms \<Rightarrow> grant list \<Rightarrow> bool" where
  "spaced ttl = sorted_wrt (\<lambda>a b. gt_plan a = gt_plan b \<longrightarrow> gt_at b + ttl \<le> gt_at a)"

definition remembered :: "ms \<Rightarrow> ledger \<Rightarrow> grant \<Rightarrow> bool" where
  "remembered now l g =
     (gt_at g \<le> now \<and> (case jget (lg_granted l) (gt_plan g) of Some a \<Rightarrow> gt_at g \<le> a | None \<Rightarrow> gt_at g + lg_plan_ttl l \<le> now))"

definition ledger_inv :: "ms \<Rightarrow> ledger \<Rightarrow> grant list \<Rightarrow> grant list \<Rightarrow> bool" where
  "ledger_inv now l taken hist =
     (jwf (lg_grants l) \<and> jwf (lg_granted l) \<and> spaced (lg_plan_ttl l) hist \<and>
      mset taken + mset (granted_values l) \<subseteq># mset hist \<and> list_all (remembered now l) hist)"


lemma remembered_later: "remembered now l g \<Longrightarrow> now \<le> later \<Longrightarrow> remembered later l g"
  by (auto simp: remembered_def split: option.splits)

lemma ledger_inv_later: "ledger_inv now l taken hist \<Longrightarrow> now \<le> later \<Longrightarrow> ledger_inv later l taken hist"
  using remembered_later by (auto simp: ledger_inv_def list_all_iff)

lemma mset_filter_values: "mset (map snd (filter P m)) \<subseteq># mset (map snd m)"
  by (simp add: image_mset_subseteq_mono)

lemma mset_jdel_values: "mset (map snd (jdel k m)) \<subseteq># mset (map snd m)"
  unfolding AList.delete_eq by (rule mset_filter_values)

lemma mset_jset_values: "mset (map snd (jset k v m)) \<subseteq># add_mset v (mset (map snd m))"
  by (induction m) (auto simp: add_mset_commute intro: subset_mset.order_trans)

lemma mset_taken_values: "jget m k = Some g \<Longrightarrow> add_mset g (mset (map snd (jdel k m))) \<subseteq># mset (map snd m)"
proof (induction m)
  case (Cons x m)
  then show ?case using mset_jdel_values[of k m] by (cases x) (auto simp: add_mset_commute split: if_splits)
qed simp

lemma sweep_remembered:
  "jwf (lg_granted l) \<Longrightarrow> remembered now l g \<Longrightarrow> remembered now (sweep_ledger now l) g"
proof -
  assume wf: "jwf (lg_granted l)" and r: "remembered now l g"
  have "jget (filter (\<lambda>(p, a). now - a < lg_plan_ttl l) (lg_granted l)) (gt_plan g) =
    (case jget (lg_granted l) (gt_plan g) of None \<Rightarrow> None | Some a \<Rightarrow> if now - a < lg_plan_ttl l then Some a else None)"
    by (simp add: jget_filter[OF wf] split: option.split)
  then show ?thesis using r unfolding remembered_def sweep_ledger_def by (cases "jget (lg_granted l) (gt_plan g)") auto
qed

lemma held_shrinks: "mset taken + held \<subseteq># h \<Longrightarrow> held' \<subseteq># held \<Longrightarrow> mset taken + held' \<subseteq># h"
  by (metis subset_mset.add_left_mono subset_mset.order_trans)

lemma sweep_inv: "ledger_inv now l taken hist \<Longrightarrow> ledger_inv now (sweep_ledger now l) taken hist"
  using sweep_remembered[of l now] held_shrinks[OF _ mset_filter_values[of "\<lambda>(t, g). now - gt_at g < lg_ttl l" "lg_grants l"], of taken]
  by (simp add: ledger_inv_def granted_values_def list_all_iff) (simp add: sweep_ledger_def)

lemma revoke_inv: "ledger_inv now l taken hist \<Longrightarrow> ledger_inv now (revoke_grant thread l) taken hist"
  using held_shrinks[OF _ mset_jdel_values[of thread "lg_grants l"], of taken]
  by (auto simp: ledger_inv_def granted_values_def revoke_grant_def list_all_iff remembered_def split: option.splits)

lemma take_inv:
  assumes "ledger_inv now l taken hist" "take_grant t thread l = (g, l')"
  shows "ledger_inv now l' (case g of Some x \<Rightarrow> x # taken | None \<Rightarrow> taken) hist"
proof (cases g)
  case None
  then show ?thesis using assms revoke_inv[OF assms(1)] by (auto simp: take_grant_def split: option.splits if_splits)
next
  case (Some x)
  then have x: "jget (lg_grants l) thread = Some x" "l' = revoke_grant thread l"
    using assms(2) by (auto simp: take_grant_def split: option.splits if_splits)
  have "mset (x # taken) + mset (granted_values l') \<subseteq># mset taken + mset (granted_values l)"
    using mset_taken_values[OF x(1)] by (simp add: granted_values_def x(2) revoke_grant_def)
  also have "mset taken + mset (granted_values l) \<subseteq># mset hist" using assms(1) by (simp add: ledger_inv_def)
  finally have "mset (x # taken) + mset (granted_values l') \<subseteq># mset hist" .
  then show ?thesis using revoke_inv[OF assms(1), of thread] Some x(2) by (simp add: ledger_inv_def)
qed

text \<open>A grant that is made is spaced from every earlier grant of its plan.\<close>

lemma grant_inv:
  assumes inv: "ledger_inv swept l taken hist" and le: "swept \<le> now" and g: "grant_plan d swept now thread plan l = (ok, l')"
  shows "\<exists>hist'. ledger_inv now l' taken hist'"
proof (cases ok)
  case False
  note s = sweep_inv[OF inv]
  from g False have "l' = sweep_ledger swept l \<or> l' = revoke_grant thread (sweep_ledger swept l)"
    by (auto simp: grant_plan_def Let_def split: json.splits option.splits if_splits)
  then show ?thesis using ledger_inv_later[OF s le] ledger_inv_later[OF revoke_inv[OF s] le] by blast
next
  case True
  let ?l = "sweep_ledger swept l"
  obtain i h gs where new: "jget (lg_granted ?l) i = None"
    "l' = ?l\<lparr>lg_grants := jset thread \<lparr>gt_plan = i, gt_hash = h, gt_commands = gs, gt_at = now\<rparr> (lg_grants ?l), lg_granted := jset i now (lg_granted ?l)\<rparr>"
    using g True by (metis grant_plan_True)
  let ?g = "\<lparr>gt_plan = i, gt_hash = h, gt_commands = gs, gt_at = now\<rparr>"
  have s: "ledger_inv swept ?l taken hist" by (rule sweep_inv[OF inv])
  have old: "gt_at b + lg_plan_ttl l \<le> now" if "b \<in> set hist" "gt_plan b = i" for b
    using s that new(1) le by (auto simp: ledger_inv_def list_all_iff remembered_def sweep_ledger_def split: option.splits)
  have "spaced (lg_plan_ttl l) (?g # hist)" using s old by (auto simp: ledger_inv_def spaced_def sweep_ledger_def)
  moreover have "mset taken + mset (granted_values l') \<subseteq># mset (?g # hist)"
  proof -
    have "mset (granted_values l') \<subseteq># add_mset ?g (mset (granted_values ?l))"
      using mset_jset_values[of thread ?g "lg_grants ?l"] by (simp add: granted_values_def new(2))
    then have "mset taken + mset (granted_values l') \<subseteq># add_mset ?g (mset taken + mset (granted_values ?l))"
      using subset_mset.add_left_mono by fastforce
    moreover have "add_mset ?g (mset taken + mset (granted_values ?l)) \<subseteq># add_mset ?g (mset hist)"
      using s by (simp add: ledger_inv_def)
    ultimately show ?thesis by (metis mset.simps(2) subset_mset.order_trans)
  qed
  moreover have "list_all (remembered now l') (?g # hist)"
    using ledger_inv_later[OF s le] le by (auto simp: ledger_inv_def list_all_iff remembered_def new(2) split: option.splits)
  moreover have "jwf (lg_grants l')" "jwf (lg_granted l')" "lg_plan_ttl l' = lg_plan_ttl l"
    using s by (simp_all add: ledger_inv_def new(2) sweep_ledger_def)
  ultimately show ?thesis unfolding ledger_inv_def by metis
qed

lemma ledger_step_inv:
  assumes "ledger_inv now l taken hist" "sorted (now # event_times e)" "ledger_step d e (l, taken) = (l', taken')"
  shows "\<exists>hist'. ledger_inv (last (now # event_times e)) l' taken' hist'"
proof (cases e)
  case (LGrant thread plan swept later)
  have "ledger_inv swept l taken hist" by (rule ledger_inv_later[OF assms(1)]) (use assms(2) LGrant in simp)
  then show ?thesis using grant_inv[of swept l taken hist later d thread plan] assms(2,3) LGrant by (auto simp: prod_eq_iff)
next
  case (LTake thread later)
  have "ledger_inv later l taken hist" by (rule ledger_inv_later[OF assms(1)]) (use assms(2) LTake in simp)
  then show ?thesis using take_inv[of later l taken hist later thread] assms(3) LTake by (auto split: prod.splits)
next
  case (LRevoke thread)
  then show ?thesis using revoke_inv[OF assms(1)] assms(3) by auto
qed

lemma ledger_step_ttl: "lg_plan_ttl (fst (ledger_step d e (l, taken))) = lg_plan_ttl l"
  by (cases e) (auto simp: grant_plan_def take_grant_def revoke_grant_def sweep_ledger_def Let_def
      split: json.splits option.splits if_splits)

lemma ledger_run_inv:
  "ledger_inv now l taken hist \<Longrightarrow> sorted (now # concat (map event_times evs)) \<Longrightarrow>
   \<exists>later hist'. case fold (ledger_step d) evs (l, taken) of (l', taken') \<Rightarrow>
     ledger_inv later l' taken' hist' \<and> lg_plan_ttl l' = lg_plan_ttl l"
proof (induction evs arbitrary: now l taken hist)
  case (Cons e evs)
  obtain l1 taken1 where step: "ledger_step d e (l, taken) = (l1, taken1)" by fastforce
  have now: "sorted (now # event_times e)" using Cons.prems(2) by (auto simp: sorted_append)
  obtain hist1 where one: "ledger_inv (last (now # event_times e)) l1 taken1 hist1"
    using ledger_step_inv[OF Cons.prems(1) now step] by blast
  have "sorted (last (now # event_times e) # concat (map event_times evs))"
    using Cons.prems(2) by (cases e) (auto simp: sorted_append)
  from Cons.IH[OF one this] show ?case using step ledger_step_ttl[of d e l taken] by simp
qed auto

lemma spaced_subset:
  assumes "spaced ttl hist" "mset xs \<subseteq># mset hist" "i < length xs" "j < length xs" "i \<noteq> j" "gt_plan (xs ! i) = gt_plan (xs ! j)"
  shows "ttl \<le> \<bar>gt_at (xs ! i) - gt_at (xs ! j)\<bar>"
  using assms
proof (induction hist arbitrary: xs i j)
  case (Cons g hist)
  have rest: "spaced ttl hist" "\<forall>b \<in> set hist. gt_plan g = gt_plan b \<longrightarrow> gt_at b + ttl \<le> gt_at g"
    using Cons.prems(1) by (auto simp: spaced_def)
  show ?case
  proof (cases "mset xs \<subseteq># mset hist")
    case True
    then show ?thesis using Cons.IH[OF rest(1)] Cons.prems(3-) by blast
  next
    case False
    obtain k where k: "k < length xs" "xs ! k = g" "mset (take k xs @ drop (Suc k) xs) \<subseteq># mset hist"
    proof -
      have "g \<in># mset xs"
      proof (rule ccontr)
        assume "g \<notin># mset xs"
        have "count (mset xs) a \<le> count (mset hist) a" for a
        proof (cases "a = g")
          case True
          then show ?thesis using \<open>g \<notin># mset xs\<close> by (simp add: not_in_iff[THEN iffD1])
        next
          case False
          then show ?thesis using mset_subset_eq_count[OF Cons.prems(2), of a] by simp
        qed
        then have "mset xs \<subseteq># mset hist" by (rule mset_subset_eqI)
        then show False using False by contradiction
      qed
      then have "g \<in> set xs" by simp
      then obtain k where k: "k < length xs" "xs ! k = g" by (auto simp: in_set_conv_nth)
      then have "xs = take k xs @ g # drop (Suc k) xs" using id_take_nth_drop by blast
      then have "mset xs = add_mset g (mset (take k xs @ drop (Suc k) xs))" by (metis mset.simps(2) mset_append union_mset_add_mset_right)
      then have "mset (take k xs @ drop (Suc k) xs) \<subseteq># mset hist" using Cons.prems(2) by simp
      then show thesis using that k by blast
    qed
    let ?ys = "take k xs @ drop (Suc k) xs"
    have others: "xs ! n \<in> set ?ys" if "n < length xs" "n \<noteq> k" for n
    proof (cases "n < k")
      case True
      then show ?thesis using nth_mem[of n "take k xs"] that by simp
    next
      case False
      then show ?thesis using nth_mem[of "n - Suc k" "drop (Suc k) xs"] that by simp
    qed
    then have hist: "xs ! n \<in> set hist" if "n < length xs" "n \<noteq> k" for n
      using that k(3) by (meson mset_subset_eqD set_mset_mset in_multiset_in_set)
    show ?thesis
    proof (cases "i = k \<or> j = k")
      case True
      then show ?thesis using rest(2) hist[of i] hist[of j] Cons.prems(3-) k(2) by fastforce
    next
      case False
      define shift where "shift n = (if n < k then n else n - 1)" for n
      have s: "shift n < length ?ys \<and> ?ys ! shift n = xs ! n" if "n < length xs" "n \<noteq> k" for n
        using that k(1) by (auto simp: shift_def nth_append min_def)
      have "shift i \<noteq> shift j" using Cons.prems(5) False by (auto simp: shift_def split: if_splits)
      then show ?thesis using Cons.IH[OF rest(1) k(3), of "shift i" "shift j"] s[of i] s[of j] Cons.prems(3-) False by auto
    qed
  qed
qed simp

text \<open>A plan is taken for issue at most once in a plan's lifetime: in every run of the ledger from empty, with whatever
  plans are presented, two grants of one plan id that \<open>apply\<close> takes were made at least a plan TTL apart.\<close>
theorem plan_taken_once:
  assumes "ledger_run d (new_ledger grant_ttl_s plan_ttl_s max_commands) evs = (l, taken)" "sorted (concat (map event_times evs))"
    and "i < length taken" "j < length taken" "i \<noteq> j" "gt_plan (taken ! i) = gt_plan (taken ! j)"
  shows "plan_ttl_s * 1000 \<le> \<bar>gt_at (taken ! i) - gt_at (taken ! j)\<bar>"
proof -
  let ?l = "new_ledger grant_ttl_s plan_ttl_s max_commands"
  define now where "now = (case concat (map event_times evs) of [] \<Rightarrow> 0 | t # _ \<Rightarrow> t)"
  have "sorted (now # concat (map event_times evs))" 
    by (cases "concat (map event_times evs)") (use assms(2) in \<open>simp_all add: now_def del: sorted_append\<close>)
  moreover have "ledger_inv now ?l [] []" by (simp add: ledger_inv_def new_ledger_def granted_values_def spaced_def)
  ultimately obtain later hist where inv: "ledger_inv later l taken hist" "lg_plan_ttl l = lg_plan_ttl ?l"
    using ledger_run_inv[of now ?l "[]" "[]" evs d] assms(1) by (auto simp: ledger_run_def)
  then have "mset taken \<subseteq># mset hist" by (auto simp: ledger_inv_def intro: subset_mset.order_trans[OF mset_subset_eq_add_left])
  moreover have "spaced (plan_ttl_s * 1000) hist" using inv by (simp add: ledger_inv_def new_ledger_def)
  ultimately show ?thesis using spaced_subset assms(3-6) by blast
qed

text \<open>A grant is consumed on its first reading: whatever it returned, reading the thread again returns nothing until
  another grant is made.\<close>
theorem grant_read_once: "take_grant later thread (snd (take_grant now thread l)) = (None, snd (take_grant now thread l))"
  by (auto simp: take_grant_def revoke_grant_def split: option.splits)

subsection \<open>A grant and its reading\<close>

definition one_plan :: grantable where
  "one_plan = \<lparr>pl_id = JString ''p'', pl_hash = JString (replicate 64 CHR ''0''), pl_commands = JArray [JObject [(''zoneId'', JString ''z''),
     (''zoneName'', JString ''Lab''), (''setpointTempC'', JNumber 23), (''reason'', JString ''warm'')]]\<rparr>"

definition zero_digest :: digest where
  "zero_digest = \<lparr>dg_print = (\<lambda>j. []), dg_hash = (\<lambda>s. replicate 64 CHR ''0'')\<rparr>"

text \<open>Granted and taken, and again once the plan's lifetime has passed.\<close>

definition two_grants :: "ledger_event list" where
  "two_grants = [LGrant ''t'' one_plan 0 0, LTake ''t'' 10, LGrant ''t'' one_plan 5000 5000, LTake ''t'' 5010]"

lemma two_grants_taken:
  "\<exists>l a b. ledger_run zero_digest (new_ledger 1 5 12) two_grants = (l, [a, b]) \<and> gt_plan a = ''p'' \<and> gt_plan b = ''p'' \<and> gt_at a = 5000 \<and> gt_at b = 0"
proof -
  have "hash_shape (replicate 64 CHR ''0'')" by code_simp
  then show ?thesis
    by (simp add: ledger_run_def two_grants_def grant_plan_def sweep_ledger_def new_ledger_def one_plan_def project_def granted_of_def jfield_def
        hash_commands_def zero_digest_def take_grant_def revoke_grant_def Let_def)
qed

theorem plan_taken_once_witness:
  "\<exists>l a b. ledger_run zero_digest (new_ledger 1 5 12) two_grants = (l, [a, b]) \<and> gt_plan a = gt_plan b \<and> 5 * 1000 \<le> \<bar>gt_at a - gt_at b\<bar>"
proof -
  obtain l a b where r: "ledger_run zero_digest (new_ledger 1 5 12) two_grants = (l, [a, b])" "gt_plan a = ''p''" "gt_plan b = ''p''"
    using two_grants_taken by blast
  have "5 * 1000 \<le> \<bar>gt_at a - gt_at b\<bar>"
    using plan_taken_once[OF r(1), of 0 1] by (simp add: two_grants_def r(2,3))
  then show ?thesis using r by simp
qed

end
