(* ===== verification/Copilot_Runs.thy ===== *)
theory Copilot_Runs
  imports Prelude
begin

section \<open>Limits and the run registry (apps/web/lib/copilot/limits.ts, registry.ts)\<close>

text \<open>
  The table of bounds, and one request's budget, deadline and stop flag per thread. A model call is two steps, its
  start and its settling; the identity of an \<open>AbortController\<close> is a number that is never used twice. Timers are
  events.
\<close>

subsection \<open>Limits\<close>

type_synonym limits = "(string, int) jsmap"

definition default_limits :: limits where
  "default_limits = [
    (''maxWaves'', 3), (''maxTasksPerWave'', 4), (''maxTasksPerRequest'', 8), (''maxSimulateTasksPerRequest'', 1),
    (''maxConcurrency'', 3), (''maxPlannerRepairs'', 1), (''maxModelCalls'', 40), (''deadlineS'', 300), (''maxTokens'', 16000),
    (''maxSpecialistTurns'', 6), (''maxToolCallsPerTurn'', 6), (''maxToolCallsPerTask'', 12), (''maxEvidenceBytes'', 8192),
    (''maxEvidencePerRequest'', 60), (''maxComposeEvidenceBytes'', 65536), (''maxDrafts'', 3), (''maxAnswerParagraphs'', 6),
    (''maxAnswerSegments'', 48), (''maxAnswerTextChars'', 1600), (''zoneConditionsMaxWindowH'', 168),
    (''zoneTimelineMaxWindowH'', 168), (''zoneHistoryMaxWindowH'', 48), (''zoneHistory5mMaxSpanH'', 4),
    (''energyByEndUseMaxWindowH'', 744), (''compareZonesMaxWindowH'', 744), (''compareZonesBandMaxWindowH'', 168),
    (''listAlertsMaxWindowH'', 744), (''controlHistoryMaxWindowH'', 744), (''listDefaultWindowH'', 168),
    (''meterHourMaxWindowH'', 168), (''meterLocalDayMaxWindowH'', 2208), (''futureToleranceS'', 300),
    (''zoneTimelineMaxItems'', 25), (''listAlertsMaxItems'', 15), (''controlHistoryMaxItems'', 12),
    (''compareZonesMaxItems'', 24), (''equipmentStatusMaxItems'', 40), (''simCallsPerRequest'', 1), (''simRunsPerRequest'', 3),
    (''simInFlightPerRequest'', 1), (''simRunsPerProcess'', 1), (''simRunsPerUserPerHour'', 12), (''simMaxZoneH'', 10000),
    (''simRunDeadlineS'', 45), (''simPollIntervalMs'', 500), (''simMaxWindowH'', 72), (''simWarmupH'', 24),
    (''simMaxScenarios'', 2), (''simMaxZones'', 24), (''simMaxDeltaK'', 3), (''maxPlanCommands'', 12), (''planTtlS'', 600),
    (''grantTtlS'', 120), (''recursionLimit'', 40), (''lockRetryAfterS'', 2), (''pingIntervalS'', 15), (''dialogueKept'', 40),
    (''dialogueTail'', 6), (''maxRequestTextChars'', 2000), (''maxRequestBodyBytes'', 16384), (''maxGraphs'', 200),
    (''maxThreadsPerGraph'', 16)]"

definition limit_of :: "limits \<Rightarrow> string \<Rightarrow> int" where
  "limit_of l k = (case jget l k of Some n \<Rightarrow> n | None \<Rightarrow> 0)"

datatype limit_error = UnknownLimit string | BadLimit string

text \<open>Overrides in the order of their entries; \<open>None\<close> is \<open>undefined\<close>.\<close>

fun merge_limits :: "(string \<times> json option) list \<Rightarrow> limits \<Rightarrow> limit_error + limits" where
  "merge_limits [] l = Inr l"
| "merge_limits ((k, v) # rest) l =
     (if jget default_limits k = None then Inl (UnknownLimit k)
      else case v of
             None \<Rightarrow> merge_limits rest l
           | Some j \<Rightarrow> (case checked (\<lambda>n. 0 < n) (json_int j) of None \<Rightarrow> Inl (BadLimit k) | Some n \<Rightarrow> merge_limits rest (jset k n l)))"

definition resolve_limits :: "(string \<times> json option) list \<Rightarrow> limit_error + limits" where
  "resolve_limits overrides = merge_limits overrides default_limits"

definition limits_ok :: "limits \<Rightarrow> bool" where
  "limits_ok l = (map fst l = map fst default_limits \<and> list_all (\<lambda>(k, n). 0 < n) l)"

subsection \<open>The shape of a request to the model\<close>

datatype role = Planner | Compose | Diagnose | Analyse | Simulate | Control

datatype budget_reason = Stopped | Deadline | Budget

text \<open>A request, as far as its shape is looked at: a block is its marker and, in a tool result, the markers inside.\<close>

datatype message_content = PlainText | Blocks "(json option \<times> json option list) list"

record model_params =
  mp_max_tokens :: int
  mp_thinking :: bool
  mp_fallbacks :: bool
  mp_tool_choice :: "string option option"
  mp_cache :: "json option"
  mp_tools :: "json option list"
  mp_system :: message_content
  mp_messages :: "message_content list"

definition present :: "json option \<Rightarrow> json list" where
  "present m = (case m of None \<Rightarrow> [] | Some JNull \<Rightarrow> [] | Some j \<Rightarrow> [j])"

definition content_markers :: "message_content \<Rightarrow> json list" where
  "content_markers c =
     (case c of PlainText \<Rightarrow> [] | Blocks bs \<Rightarrow> concat (map (\<lambda>(m, inner). present m @ concat (map present inner)) bs))"

definition cache_markers :: "model_params \<Rightarrow> json list" where
  "cache_markers p =
     present (mp_cache p) @ concat (map present (mp_tools p)) @
     (case mp_system p of PlainText \<Rightarrow> [] | Blocks bs \<Rightarrow> concat (map (present \<circ> fst) bs)) @
     concat (map content_markers (mp_messages p))"

definition five_minute_ephemeral :: "json \<Rightarrow> bool" where
  "five_minute_ephemeral j =
     (case j of
        JObject m \<Rightarrow>
          jget m ''type'' = Some (JString ''ephemeral'') \<and> (jget m ''ttl'' = None \<or> jget m ''ttl'' = Some (JString ''5m'')) \<and>
          list_all (\<lambda>(k, v). k = ''type'' \<or> k = ''ttl'') m
      | _ \<Rightarrow> False)"

datatype shape_problem = WrongMaxTokens | HasThinking | HasFallbacks | ForcedTool | TooManyMarkers | OddMarker

definition max_cache_breakpoints :: nat where "max_cache_breakpoints = 4"

definition request_shape_error :: "model_params \<Rightarrow> int \<Rightarrow> shape_problem option" where
  "request_shape_error p max_tokens =
     (if mp_max_tokens p \<noteq> max_tokens then Some WrongMaxTokens
      else if mp_thinking p then Some HasThinking
      else if mp_fallbacks p then Some HasFallbacks
      else if mp_tool_choice p \<notin> {None, Some (Some ''auto''), Some (Some ''none'')} then Some ForcedTool
      else if max_cache_breakpoints < length (cache_markers p) then Some TooManyMarkers
      else if \<not> list_all five_minute_ephemeral (cache_markers p) then Some OddMarker
      else None)"

subsection \<open>Requests\<close>

record tokens =
  tk_input :: rat
  tk_output :: rat
  tk_cache_read :: rat
  tk_cache_write :: rat

text \<open>The calls in flight, each with the reason it was aborted for.\<close>

record request_entry =
  rq_id :: string
  rq_started :: ms
  rq_deadline :: ms
  rq_calls_used :: int
  rq_by_role :: "(role, int) jsmap"
  rq_stop :: bool
  rq_evidence :: int
  rq_sim_calls :: int
  rq_sim_runs :: int
  rq_sim_in_flight :: int
  rq_tokens :: tokens
  rq_calls :: "(nat, budget_reason option) jsmap"

record registry =
  rr_entries :: "(string, request_entry) jsmap"
  rr_limits :: limits
  rr_next :: nat

definition roles :: "role list" where
  "roles = [Planner, Compose, Diagnose, Analyse, Simulate, Control]"

definition zero_by_role :: "(role, int) jsmap" where
  "zero_by_role = map (\<lambda>r. (r, 0)) roles"

definition zero_tokens :: tokens where
  "zero_tokens = \<lparr>tk_input = 0, tk_output = 0, tk_cache_read = 0, tk_cache_write = 0\<rparr>"

definition counted :: "json option \<Rightarrow> rat" where
  "counted v = (case v of Some (JNumber n) \<Rightarrow> if 0 < n then n else 0 | _ \<Rightarrow> 0)"

definition add_tokens :: "json option \<Rightarrow> tokens \<Rightarrow> tokens" where
  "add_tokens usage t =
     (let n = (\<lambda>k. case usage of Some j \<Rightarrow> counted (jfield j k) | None \<Rightarrow> 0) in
      \<lparr>tk_input = tk_input t + n ''input_tokens'', tk_output = tk_output t + n ''output_tokens'',
       tk_cache_read = tk_cache_read t + n ''cache_read_input_tokens'', tk_cache_write = tk_cache_write t + n ''cache_creation_input_tokens''\<rparr>)"

definition sweep_requests :: "ms \<Rightarrow> registry \<Rightarrow> registry" where
  "sweep_requests now r =
     r\<lparr>rr_entries := filter (\<lambda>(t, e). now - rq_started e < (limit_of (rr_limits r) ''deadlineS'' + limit_of (rr_limits r) ''planTtlS'') * 1000) (rr_entries r)\<rparr>"

definition fresh_request :: "limits \<Rightarrow> ms \<Rightarrow> string \<Rightarrow> request_entry" where
  "fresh_request l now i =
     \<lparr>rq_id = i, rq_started = now, rq_deadline = now + limit_of l ''deadlineS'' * 1000, rq_calls_used = 0,
      rq_by_role = zero_by_role, rq_stop = False, rq_evidence = 0, rq_sim_calls = 0, rq_sim_runs = 0, rq_sim_in_flight = 0,
      rq_tokens = zero_tokens, rq_calls = []\<rparr>"

definition begin_request :: "ms \<Rightarrow> string \<Rightarrow> string \<Rightarrow> registry \<Rightarrow> registry" where
  "begin_request now thread i r =
     (let r1 = sweep_requests now r in r1\<lparr>rr_entries := jset thread (fresh_request (rr_limits r) now i) (rr_entries r1)\<rparr>)"

definition refusal :: "ms \<Rightarrow> string \<Rightarrow> registry \<Rightarrow> budget_reason option" where
  "refusal now thread r =
     (case jget (rr_entries r) thread of
        None \<Rightarrow> Some Stopped
      | Some e \<Rightarrow>
          if rq_stop e then Some Stopped
          else if rq_deadline e \<le> now then Some Deadline
          else if limit_of (rr_limits r) ''maxModelCalls'' \<le> rq_calls_used e then Some Budget
          else None)"

definition interrupted :: "ms \<Rightarrow> string \<Rightarrow> registry \<Rightarrow> budget_reason option" where
  "interrupted now thread r =
     (case jget (rr_entries r) thread of
        None \<Rightarrow> Some Stopped
      | Some e \<Rightarrow> if rq_stop e then Some Stopped else if rq_deadline e \<le> now then Some Deadline else None)"

definition set_entry :: "string \<Rightarrow> request_entry \<Rightarrow> registry \<Rightarrow> registry" where
  "set_entry thread e r = r\<lparr>rr_entries := jset thread e (rr_entries r)\<rparr>"

definition on_entry :: "string \<Rightarrow> (request_entry \<Rightarrow> request_entry) \<Rightarrow> registry \<Rightarrow> registry" where
  "on_entry thread f r = (case jget (rr_entries r) thread of None \<Rightarrow> r | Some e \<Rightarrow> set_entry thread (f e) r)"

datatype call_error = BadShape shape_problem | Refused budget_reason

text \<open>The start of a call: its number and the time it is given. \<open>later\<close> is the second reading of the clock.\<close>

definition start_call ::
  "ms \<Rightarrow> ms \<Rightarrow> string \<Rightarrow> role \<Rightarrow> model_params \<Rightarrow> registry \<Rightarrow> (call_error + nat \<times> ms) \<times> registry" where
  "start_call now later thread role params r =
     (case request_shape_error params (limit_of (rr_limits r) ''maxTokens'') of
        Some p \<Rightarrow> (Inl (BadShape p), r)
      | None \<Rightarrow>
          (case refusal now thread r of
             Some why \<Rightarrow> (Inl (Refused why), r)
           | None \<Rightarrow>
               let e = the (jget (rr_entries r) thread); n = rr_next r in
               (Inr (n, max 1 (rq_deadline e - later)),
                (set_entry thread
                  (e\<lparr>rq_calls_used := rq_calls_used e + 1, rq_by_role := jset role (the (jget (rq_by_role e) role) + 1) (rq_by_role e),
                     rq_calls := jset n None (rq_calls e)\<rparr>) r)\<lparr>rr_next := n + 1\<rparr>)))"

definition abort_call :: "budget_reason \<Rightarrow> budget_reason option \<Rightarrow> budget_reason option" where
  "abort_call why c = (case c of None \<Rightarrow> Some why | Some w \<Rightarrow> Some w)"

text \<open>The deadline timer of a call.\<close>

definition call_timeout :: "string \<Rightarrow> nat \<Rightarrow> registry \<Rightarrow> registry" where
  "call_timeout thread n =
     on_entry thread (\<lambda>e. e\<lparr>rq_calls := (case jget (rq_calls e) n of None \<Rightarrow> rq_calls e | Some c \<Rightarrow> jset n (abort_call Deadline c) (rq_calls e))\<rparr>)"

text \<open>A call settles with a reply and its usage, or fails; one that was aborted is refused, whatever comes later. The
  reply of a call whose request is over or replaced changes nothing that is held.\<close>

datatype settled = Replied "json option" | CallFailed

definition settle_call :: "string \<Rightarrow> nat \<Rightarrow> settled \<Rightarrow> registry \<Rightarrow> registry" where
  "settle_call thread n s =
     on_entry thread (\<lambda>e.
       case jget (rq_calls e) n of
         None \<Rightarrow> e
       | Some c \<Rightarrow>
           (let t = (case (c, s) of (None, Replied usage) \<Rightarrow> add_tokens usage (rq_tokens e) | _ \<Rightarrow> rq_tokens e)
            in e\<lparr>rq_tokens := t, rq_calls := jdel n (rq_calls e)\<rparr>))"

definition stop_request :: "string \<Rightarrow> registry \<Rightarrow> bool \<times> registry" where
  "stop_request thread r =
     (jget (rr_entries r) thread \<noteq> None,
      on_entry thread (\<lambda>e. e\<lparr>rq_stop := True, rq_calls := map (\<lambda>(n, c). (n, abort_call Stopped c)) (rq_calls e)\<rparr>) r)"

definition stop_requested :: "string \<Rightarrow> registry \<Rightarrow> bool" where
  "stop_requested thread r = (case jget (rr_entries r) thread of None \<Rightarrow> False | Some e \<Rightarrow> rq_stop e)"

definition clear_stop :: "string \<Rightarrow> registry \<Rightarrow> registry" where
  "clear_stop thread = on_entry thread (\<lambda>e. e\<lparr>rq_stop := False\<rparr>)"

definition usage_of :: "string \<Rightarrow> registry \<Rightarrow> (int \<times> (role, int) jsmap \<times> int \<times> tokens) option" where
  "usage_of thread r =
     map_option (\<lambda>e. (rq_calls_used e, rq_by_role e, rq_sim_runs e, rq_tokens e)) (jget (rr_entries r) thread)"

definition end_request :: "string \<Rightarrow> registry \<Rightarrow> (int \<times> (role, int) jsmap \<times> int \<times> tokens) option \<times> registry" where
  "end_request thread r = (usage_of thread r, r\<lparr>rr_entries := jdel thread (rr_entries r)\<rparr>)"

definition any_open :: "ms \<Rightarrow> registry \<Rightarrow> bool \<times> registry" where
  "any_open now r = (let r1 = sweep_requests now r in (rr_entries r1 \<noteq> [], r1))"

definition open_request :: "string \<Rightarrow> registry \<Rightarrow> string option" where
  "open_request thread r = map_option rq_id (jget (rr_entries r) thread)"

subsection \<open>Evidence and simulation runs\<close>

definition evidence_full :: "string \<Rightarrow> registry \<Rightarrow> bool" where
  "evidence_full thread r =
     (case jget (rr_entries r) thread of None \<Rightarrow> True | Some e \<Rightarrow> limit_of (rr_limits r) ''maxEvidencePerRequest'' \<le> rq_evidence e)"

definition claim_evidence :: "string \<Rightarrow> registry \<Rightarrow> bool \<times> registry" where
  "claim_evidence thread r =
     (if evidence_full thread r then (False, r) else (True, on_entry thread (\<lambda>e. e\<lparr>rq_evidence := rq_evidence e + 1\<rparr>) r))"

definition claim_sim_call :: "string \<Rightarrow> registry \<Rightarrow> bool \<times> registry" where
  "claim_sim_call thread r =
     (case jget (rr_entries r) thread of
        None \<Rightarrow> (False, r)
      | Some e \<Rightarrow>
          if rq_stop e \<or> limit_of (rr_limits r) ''simCallsPerRequest'' \<le> rq_sim_calls e then (False, r)
          else (True, set_entry thread (e\<lparr>rq_sim_calls := rq_sim_calls e + 1\<rparr>) r))"

datatype sim_refusal = SimInterrupted budget_reason | NoRequest | InFlight | RunLimit

definition begin_sim_run :: "ms \<Rightarrow> string \<Rightarrow> registry \<Rightarrow> sim_refusal option \<times> registry" where
  "begin_sim_run now thread r =
     (case jget (rr_entries r) thread of
        None \<Rightarrow> (Some NoRequest, r)
      | Some e \<Rightarrow>
          (case interrupted now thread r of
             Some why \<Rightarrow> (Some (SimInterrupted why), r)
           | None \<Rightarrow>
               if limit_of (rr_limits r) ''simInFlightPerRequest'' \<le> rq_sim_in_flight e then (Some InFlight, r)
               else if limit_of (rr_limits r) ''simRunsPerRequest'' \<le> rq_sim_runs e then (Some RunLimit, r)
               else (None, set_entry thread (e\<lparr>rq_sim_runs := rq_sim_runs e + 1, rq_sim_in_flight := rq_sim_in_flight e + 1\<rparr>) r)))"

definition end_sim_run :: "string \<Rightarrow> registry \<Rightarrow> registry" where
  "end_sim_run thread =
     on_entry thread (\<lambda>e. if 0 < rq_sim_in_flight e then e\<lparr>rq_sim_in_flight := rq_sim_in_flight e - 1\<rparr> else e)"

subsection \<open>Runs of the registry\<close>

datatype run_event =
    RBegin ms string string
  | RCall ms ms string role model_params
  | RTimeout string nat
  | RSettle string nat settled
  | RStop string
  | RClear string
  | REnd string
  | RAnyOpen ms
  | REvidence string
  | RSimCall string
  | RSimBegin ms string
  | RSimEnd string

fun run_step :: "run_event \<Rightarrow> registry \<Rightarrow> registry" where
  "run_step (RBegin now t i) r = begin_request now t i r"
| "run_step (RCall now later t role p) r = snd (start_call now later t role p r)"
| "run_step (RTimeout t n) r = call_timeout t n r"
| "run_step (RSettle t n s) r = settle_call t n s r"
| "run_step (RStop t) r = snd (stop_request t r)"
| "run_step (RClear t) r = clear_stop t r"
| "run_step (REnd t) r = snd (end_request t r)"
| "run_step (RAnyOpen now) r = snd (any_open now r)"
| "run_step (REvidence t) r = snd (claim_evidence t r)"
| "run_step (RSimCall t) r = snd (claim_sim_call t r)"
| "run_step (RSimBegin now t) r = snd (begin_sim_run now t r)"
| "run_step (RSimEnd t) r = end_sim_run t r"

definition new_registry :: "limits \<Rightarrow> registry" where
  "new_registry l = \<lparr>rr_entries = [], rr_limits = l, rr_next = 0\<rparr>"

definition run_all :: "limits \<Rightarrow> run_event list \<Rightarrow> registry" where
  "run_all l evs = fold run_step evs (new_registry l)"

text \<open>A request within its bounds, and the registry's invariant.\<close>

definition within_bounds :: "limits \<Rightarrow> request_entry \<Rightarrow> bool" where
  "within_bounds l e =
     (0 \<le> rq_calls_used e \<and> rq_calls_used e \<le> limit_of l ''maxModelCalls'' \<and>
      sum_list (map snd (rq_by_role e)) = rq_calls_used e \<and> int (length (rq_calls e)) \<le> rq_calls_used e \<and>
      0 \<le> rq_evidence e \<and> rq_evidence e \<le> limit_of l ''maxEvidencePerRequest'' \<and>
      0 \<le> rq_sim_calls e \<and> rq_sim_calls e \<le> limit_of l ''simCallsPerRequest'' \<and>
      0 \<le> rq_sim_in_flight e \<and> rq_sim_in_flight e \<le> rq_sim_runs e \<and>
      rq_sim_in_flight e \<le> limit_of l ''simInFlightPerRequest'' \<and> rq_sim_runs e \<le> limit_of l ''simRunsPerRequest'' \<and>
      rq_deadline e = rq_started e + limit_of l ''deadlineS'' * 1000)"

definition calls_known :: "nat \<Rightarrow> request_entry \<Rightarrow> bool" where
  "calls_known n e = (map fst (rq_by_role e) = roles \<and> jwf (rq_calls e) \<and> list_all (\<lambda>(c, w). c < n) (rq_calls e))"

definition registry_ok :: "registry \<Rightarrow> bool" where
  "registry_ok r =
     (jwf (rr_entries r) \<and> limits_ok (rr_limits r) \<and>
      list_all (\<lambda>(t, e). within_bounds (rr_limits r) e \<and> calls_known (rr_next r) e) (rr_entries r))"

lemma limits_ok_pos: "limits_ok l \<Longrightarrow> jget default_limits k \<noteq> None \<Longrightarrow> 0 < limit_of l k"
proof -
  assume l: "limits_ok l" and k: "jget default_limits k \<noteq> None"
  then have "k \<in> fst ` set l" unfolding limits_ok_def by (metis image_set jget_None_iff)
  then obtain n where n: "jget l k = Some n" by (metis jget_None_iff option.exhaust)
  then have "(k, n) \<in> set l" by (rule map_of_SomeD)
  then show ?thesis using l n by (auto simp: limits_ok_def limit_of_def list_all_iff)
qed

lemma registry_ok_entry:
  "registry_ok r \<Longrightarrow> jget (rr_entries r) t = Some e \<Longrightarrow> within_bounds (rr_limits r) e \<and> calls_known (rr_next r) e"
  by (auto simp: registry_ok_def list_all_iff dest!: map_of_SomeD)

lemma registry_ok_entries:
  assumes "registry_ok r" "jwf es" "\<And>t e. (t, e) \<in> set es \<Longrightarrow> (t, e) \<in> set (rr_entries r) \<or> within_bounds (rr_limits r) e \<and> calls_known (rr_next r) e"
  shows "registry_ok (r\<lparr>rr_entries := es\<rparr>)"
  using assms by (force simp: registry_ok_def list_all_iff)

lemma set_jset_cases: "(t, e) \<in> set (jset k v m) \<Longrightarrow> (t, e) \<in> set m \<or> t = k \<and> e = v"
  by (induction m) (auto split: if_splits)

lemma set_entry_ok [inv_intros]:
  "registry_ok r \<Longrightarrow> within_bounds (rr_limits r) e \<Longrightarrow> calls_known (rr_next r) e \<Longrightarrow> registry_ok (set_entry t e r)"
  unfolding set_entry_def
  by (rule registry_ok_entries) (auto simp: registry_ok_def dest!: set_jset_cases)

lemma on_entry_ok [inv_intros]:
  "registry_ok r \<Longrightarrow>
   (\<And>e. within_bounds (rr_limits r) e \<Longrightarrow> calls_known (rr_next r) e \<Longrightarrow> within_bounds (rr_limits r) (f e) \<and> calls_known (rr_next r) (f e)) \<Longrightarrow>
   registry_ok (on_entry t f r)"
  using registry_ok_entry[of r t] by (auto simp: on_entry_def split: option.splits intro!: set_entry_ok)

lemma sweep_requests_ok [inv_intros]: "registry_ok r \<Longrightarrow> registry_ok (sweep_requests now r)"
  unfolding sweep_requests_def by (rule registry_ok_entries) (auto simp: registry_ok_def)

lemma sum_list_jset:
  "jwf m \<Longrightarrow> jget m k = Some v \<Longrightarrow> sum_list (map snd (jset k (v + 1) m)) = sum_list (map snd m) + (1 :: int)"
  by (induction m) (auto simp: jget_None_iff split: if_splits)

lemma roles_all: "r \<in> set roles"
  by (cases r) (simp_all add: roles_def)

lemma roles_distinct: "distinct roles"
  by (simp add: roles_def)

lemma started_bounds:
  assumes "within_bounds l e" "calls_known n e" "rq_calls_used e < limit_of l ''maxModelCalls''"
  shows "within_bounds l (e\<lparr>rq_calls_used := rq_calls_used e + 1, rq_by_role := jset role (the (jget (rq_by_role e) role) + 1) (rq_by_role e),
     rq_calls := jset n None (rq_calls e)\<rparr>)"
proof -
  have wf: "jwf (rq_by_role e)" using assms(2) roles_distinct by (simp add: calls_known_def)
  obtain v where v: "jget (rq_by_role e) role = Some v"
    using assms(2) roles_all[of role] unfolding calls_known_def by (metis image_set jget_None_iff option.exhaust)
  have "n \<notin> fst ` set (rq_calls e)" using assms(2) by (auto simp: calls_known_def list_all_iff)
  then show ?thesis using assms(1,3) sum_list_jset[OF wf v] v by (simp add: within_bounds_def length_jset)
qed

lemma started_known:
  assumes "calls_known n e"
  shows "calls_known (Suc n) (e\<lparr>rq_calls_used := rq_calls_used e + 1, rq_by_role := jset role v (rq_by_role e), rq_calls := jset n None (rq_calls e)\<rparr>)"
proof -
  have "map fst (jset role v (rq_by_role e)) = roles"
    using assms roles_all[of role] by (simp add: calls_known_def keys_jset flip: set_map)
  moreover have "(c, w) \<in> set (jset n None (rq_calls e)) \<Longrightarrow> c < Suc n" for c w
    using assms by (auto simp: calls_known_def list_all_iff dest!: set_jset_cases)
  ultimately show ?thesis using assms by (simp add: calls_known_def list_all_iff) auto
qed

lemma calls_known_Suc: "calls_known n e \<Longrightarrow> calls_known (Suc n) e"
  by (auto simp: calls_known_def list_all_iff intro: less_SucI)

lemma length_jset_held: "jget m k = Some v \<Longrightarrow> length (jset k w m) = length m"
  by (simp add: length_jset jget_Some_key)

lemma start_call_ok [inv_intros]: "registry_ok r \<Longrightarrow> registry_ok (snd (start_call now later t role p r))"
proof (cases "request_shape_error p (limit_of (rr_limits r) ''maxTokens'') = None \<and> refusal now t r = None")
  case True
  assume ok: "registry_ok r"
  from True obtain e where e: "jget (rr_entries r) t = Some e" "rq_calls_used e < limit_of (rr_limits r) ''maxModelCalls''"
    by (auto simp: refusal_def split: option.splits if_splits)
  let ?e = "e\<lparr>rq_calls_used := rq_calls_used e + 1, rq_by_role := jset role (the (jget (rq_by_role e) role) + 1) (rq_by_role e),
     rq_calls := jset (rr_next r) None (rq_calls e)\<rparr>"
  have b: "within_bounds (rr_limits r) e" "calls_known (rr_next r) e" using registry_ok_entry[OF ok e(1)] by auto
  have "registry_ok (r\<lparr>rr_next := Suc (rr_next r)\<rparr>)"
    using ok calls_known_Suc by (auto simp: registry_ok_def list_all_iff)
  then have "registry_ok (set_entry t ?e (r\<lparr>rr_next := Suc (rr_next r)\<rparr>))"
    by (rule set_entry_ok) (use started_bounds[OF b e(2)] started_known[OF b(2)] in simp_all)
  moreover have "r\<lparr>rr_next := n, rr_entries := x\<rparr> = r\<lparr>rr_entries := x, rr_next := n\<rparr>" for n x by simp
  ultimately show ?thesis using True e(1) by (simp add: start_call_def Let_def set_entry_def)
next
  case False
  assume "registry_ok r"
  then show ?thesis using False by (auto simp: start_call_def split: option.splits)
qed

lemma limit_values:
  "jget default_limits ''maxModelCalls'' = Some 40" "jget default_limits ''maxEvidencePerRequest'' = Some 60"
  "jget default_limits ''simCallsPerRequest'' = Some 1" "jget default_limits ''simInFlightPerRequest'' = Some 1"
  "jget default_limits ''simRunsPerRequest'' = Some 3" "jget default_limits ''deadlineS'' = Some 300"
  "jget default_limits ''planTtlS'' = Some 600" "jget default_limits ''maxTokens'' = Some 16000"
  by code_simp+

lemma fresh_request_ok: "limits_ok l \<Longrightarrow> within_bounds l (fresh_request l now i) \<and> calls_known n (fresh_request l now i)"
proof -
  assume "limits_ok l"
  then have "0 < limit_of l k" if "k \<in> {''maxModelCalls'', ''maxEvidencePerRequest'', ''simCallsPerRequest'', ''simInFlightPerRequest'', ''simRunsPerRequest''}" for k
    using that by (intro limits_ok_pos) (auto simp: limit_values)
  then show ?thesis by (simp add: fresh_request_def within_bounds_def calls_known_def zero_by_role_def roles_def less_imp_le)
qed

lemma begin_request_ok [inv_intros]: "registry_ok r \<Longrightarrow> registry_ok (begin_request now t i r)"
proof -
  assume ok: "registry_ok r"
  then have "limits_ok (rr_limits r)" by (simp add: registry_ok_def)
  then have "registry_ok (set_entry t (fresh_request (rr_limits r) now i) (sweep_requests now r))"
    by (intro set_entry_ok sweep_requests_ok ok) (simp_all add: sweep_requests_def fresh_request_ok)
  then show ?thesis by (simp add: begin_request_def Let_def set_entry_def)
qed

lemma int_length_jdel: "int (length m) \<le> n \<Longrightarrow> int (length (jdel k m)) \<le> n"
proof -
  assume "int (length m) \<le> n"
  moreover have "length (jdel k m) \<le> length m" by (simp add: AList.delete_eq)
  ultimately show ?thesis by linarith
qed

lemma calls_known_jdel: "calls_known n e \<Longrightarrow> calls_known n (e\<lparr>rq_tokens := t, rq_calls := jdel c (rq_calls e)\<rparr>)"
  by (auto simp: calls_known_def list_all_iff AList.delete_eq)

lemma run_step_ok: "registry_ok r \<Longrightarrow> registry_ok (run_step ev r)"
proof (cases ev)
  case (RTimeout t n)
  assume "registry_ok r"
  then show ?thesis unfolding RTimeout run_step.simps call_timeout_def
    by (rule on_entry_ok)
      (auto simp: within_bounds_def calls_known_def length_jset_held list_all_iff dest!: set_jset_cases dest: map_of_SomeD split: option.splits)
next
  case (RSettle t n s)
  assume "registry_ok r"
  then show ?thesis unfolding RSettle run_step.simps settle_call_def
    by (rule on_entry_ok)
      (auto simp: within_bounds_def Let_def int_length_jdel calls_known_jdel split: option.splits)
next
  case (RStop t)
  assume "registry_ok r"
  then show ?thesis unfolding RStop run_step.simps stop_request_def snd_conv
    by (rule on_entry_ok) (auto simp: within_bounds_def calls_known_def list_all_iff comp_def case_prod_beta)
next
  case (REvidence t)
  assume ok: "registry_ok r"
  show ?thesis
  proof (cases "evidence_full t r")
    case False
    then obtain e where e: "jget (rr_entries r) t = Some e" "rq_evidence e < limit_of (rr_limits r) ''maxEvidencePerRequest''"
      by (auto simp: evidence_full_def split: option.splits)
    then show ?thesis using False registry_ok_entry[OF ok e(1)] set_entry_ok[OF ok]
      by (simp add: REvidence claim_evidence_def on_entry_def within_bounds_def calls_known_def)
  qed (simp add: REvidence claim_evidence_def ok)
next
  case (RSimCall t)
  assume ok: "registry_ok r"
  then show ?thesis using registry_ok_entry[OF ok, of t]
    by (auto simp: RSimCall claim_sim_call_def within_bounds_def calls_known_def split: option.splits intro!: set_entry_ok)
next
  case (RSimBegin now t)
  assume ok: "registry_ok r"
  then show ?thesis using registry_ok_entry[OF ok, of t]
    by (auto simp: RSimBegin begin_sim_run_def within_bounds_def calls_known_def split: option.splits intro!: set_entry_ok)
next
  case (RSimEnd t)
  assume "registry_ok r"
  then show ?thesis unfolding RSimEnd run_step.simps end_sim_run_def
    by (rule on_entry_ok) (auto simp: within_bounds_def calls_known_def)
next
  case (RClear t)
  assume "registry_ok r"
  then show ?thesis unfolding RClear run_step.simps clear_stop_def
    by (rule on_entry_ok) (auto simp: within_bounds_def calls_known_def)
next
  case (REnd t)
  assume ok: "registry_ok r"
  show ?thesis unfolding REnd run_step.simps end_request_def snd_conv
    by (rule registry_ok_entries[OF ok]) (use ok in \<open>simp add: registry_ok_def\<close>, simp add: AList.delete_eq)
qed (simp_all add: begin_request_ok start_call_ok any_open_def Let_def sweep_requests_ok)

lemma run_all_ok: "limits_ok l \<Longrightarrow> registry_ok (run_all l evs)"
proof -
  assume "limits_ok l"
  then have "registry_ok (new_registry l)" by (simp add: new_registry_def registry_ok_def)
  then show ?thesis unfolding run_all_def by (induction evs rule: rev_induct) (simp_all add: run_step_ok)
qed

lemma run_step_limits [simp]: "rr_limits (run_step ev r) = rr_limits r"
  by (cases ev) (auto simp: begin_request_def sweep_requests_def start_call_def call_timeout_def settle_call_def stop_request_def
      clear_stop_def end_request_def any_open_def claim_evidence_def claim_sim_call_def begin_sim_run_def end_sim_run_def on_entry_def
      set_entry_def Let_def split: option.splits)

lemma run_all_limits: "rr_limits (run_all l evs) = l"
  unfolding run_all_def by (induction evs rule: rev_induct) (simp_all add: new_registry_def)

lemma merge_limits_ok: "merge_limits overrides l = Inr l' \<Longrightarrow> limits_ok l \<Longrightarrow> limits_ok l'"
proof (induction overrides arbitrary: l)
  case (Cons x xs)
  obtain k v where x: "x = (k, v)" by (cases x)
  show ?case
  proof (cases v)
    case None
    then show ?thesis using Cons x by (auto split: if_splits)
  next
    case (Some j)
    then obtain n where n: "checked (\<lambda>n. 0 < n) (json_int j) = Some n" "jget default_limits k \<noteq> None" "merge_limits xs (jset k n l) = Inr l'"
      using Cons.prems(1) x by (auto split: if_splits option.splits)
    have pos: "0 < n" using n(1) by (simp add: checked_def split: option.splits if_splits)
    have key: "k \<in> set (map fst l)" using n(2) Cons.prems(2) unfolding limits_ok_def by (metis image_set jget_None_iff)
    have "limits_ok (jset k n l)"
      using Cons.prems(2) pos key unfolding limits_ok_def keys_jset by (auto simp: list_all_iff dest!: set_jset_cases)
    then show ?thesis using Cons.IH n(3) by blast
  qed
qed simp

lemma default_limits_ok: "limits_ok default_limits"
  by (simp add: limits_ok_def default_limits_def)

text \<open>C20: The copilot's budget: whatever the overrides that are accepted, and however model calls, their replies, stops,
  evidence and simulation runs of any number of threads interleave, no open request has made more model calls,
  holds more evidence or has run more simulations than its limits allow, and its calls in flight are among
  those it has paid for.\<close>
theorem request_budget_kept:
  assumes "resolve_limits overrides = Inr l" "jget (rr_entries (run_all l evs)) thread = Some e"
  shows "within_bounds l e"
proof -
  have "limits_ok l" using assms(1) merge_limits_ok default_limits_ok unfolding resolve_limits_def by blast
  then show ?thesis using registry_ok_entry[OF run_all_ok assms(2)] by (simp add: run_all_limits)
qed

text \<open>Stop.\<close>

definition halted :: "string \<Rightarrow> registry \<Rightarrow> bool" where
  "halted thread r =
     (case jget (rr_entries r) thread of None \<Rightarrow> True | Some e \<Rightarrow> rq_stop e \<and> list_all (\<lambda>(n, c). c \<noteq> None) (rq_calls e))"

definition new_word :: "string \<Rightarrow> run_event \<Rightarrow> bool" where
  "new_word thread ev = (case ev of RBegin now t i \<Rightarrow> t = thread | RClear t \<Rightarrow> t = thread | _ \<Rightarrow> False)"

lemma halted_stop: "halted thread (snd (stop_request thread r))"
  by (auto simp: halted_def stop_request_def on_entry_def set_entry_def abort_call_def list_all_iff split: option.splits)

definition entry_halted :: "request_entry \<Rightarrow> bool" where
  "entry_halted e = (rq_stop e \<and> list_all (\<lambda>(n, c). c \<noteq> None) (rq_calls e))"

lemma halted_entry: "halted thread r \<longleftrightarrow> (\<forall>e. jget (rr_entries r) thread = Some e \<longrightarrow> entry_halted e)"
  by (auto simp: halted_def entry_halted_def split: option.splits)

lemma halted_set: "halted thread r \<Longrightarrow> t \<noteq> thread \<or> entry_halted e \<Longrightarrow> halted thread (set_entry t e r)"
  by (auto simp: halted_entry set_entry_def)

lemma halted_on: "halted thread r \<Longrightarrow> t \<noteq> thread \<or> (\<forall>e. entry_halted e \<longrightarrow> entry_halted (f e)) \<Longrightarrow> halted thread (on_entry t f r)"
  by (auto simp: on_entry_def halted_entry set_entry_def split: option.splits)

lemma halted_sweep: "jwf (rr_entries r) \<Longrightarrow> halted thread r \<Longrightarrow> halted thread (sweep_requests now r)"
  by (auto simp: halted_entry sweep_requests_def jget_filter split: option.splits if_splits)

lemma halted_refusal: "halted thread r \<Longrightarrow> refusal now thread r = Some Stopped \<and> interrupted now thread r = Some Stopped"
  by (auto simp: halted_entry refusal_def interrupted_def entry_halted_def split: option.splits)

lemma halted_more: "halted thread (r\<lparr>rr_next := n\<rparr>) = halted thread r"
  by (simp add: halted_entry)

lemma halted_step:
  assumes wf: "jwf (rr_entries r)" and h: "halted thread r" and w: "\<not> new_word thread ev"
  shows "halted thread (run_step ev r)"
proof (cases ev)
  case (RBegin now t i)
  then show ?thesis using w halted_sweep[OF wf h, of now] by (auto simp: begin_request_def Let_def new_word_def halted_entry)
next
  case (RCall now later t role p)
  show ?thesis
  proof (cases "t = thread")
    case True
    then show ?thesis using RCall halted_refusal[OF h] h by (simp add: start_call_def split: option.splits)
  next
    case False
    then show ?thesis using RCall halted_set[OF h, of t] h by (auto simp: start_call_def Let_def halted_more split: option.splits)
  qed
next
  case (RTimeout t n)
  have "entry_halted e \<Longrightarrow> entry_halted (e\<lparr>rq_calls := (case jget (rq_calls e) n of None \<Rightarrow> rq_calls e | Some c \<Rightarrow> jset n (abort_call Deadline c) (rq_calls e))\<rparr>)" for e
    by (auto simp: entry_halted_def list_all_iff abort_call_def dest!: set_jset_cases split: option.splits)
  then show ?thesis using RTimeout halted_on[OF h] by (simp add: call_timeout_def)
next
  case (RSettle t n s)
  have "entry_halted e \<Longrightarrow> entry_halted (case jget (rq_calls e) n of None \<Rightarrow> e | Some c \<Rightarrow>
      (let t = (case (c, s) of (None, Replied usage) \<Rightarrow> add_tokens usage (rq_tokens e) | _ \<Rightarrow> rq_tokens e)
       in e\<lparr>rq_tokens := t, rq_calls := jdel n (rq_calls e)\<rparr>))" for e
    by (auto simp: entry_halted_def list_all_iff Let_def AList.delete_eq split: option.splits)
  then show ?thesis using RSettle halted_on[OF h] by (simp add: settle_call_def)
next
  case (RStop t)
  have "entry_halted e \<Longrightarrow> entry_halted (e\<lparr>rq_stop := True, rq_calls := map (\<lambda>(n, c). (n, abort_call Stopped c)) (rq_calls e)\<rparr>)" for e
    by (auto simp: entry_halted_def list_all_iff abort_call_def split: option.splits)
  then show ?thesis using RStop halted_on[OF h] by (simp add: stop_request_def)
next
  case (RClear t)
  then show ?thesis using w halted_on[OF h] by (simp add: clear_stop_def new_word_def)
next
  case (REnd t)
  then show ?thesis using h by (auto simp: end_request_def halted_entry)
next
  case (RAnyOpen now)
  then show ?thesis using halted_sweep[OF wf h] by (simp add: any_open_def Let_def)
next
  case (REvidence t)
  then show ?thesis using h halted_on[OF h] by (simp add: claim_evidence_def entry_halted_def)
next
  case (RSimCall t)
  show ?thesis
  proof (cases "t = thread")
    case True
    then have "jget (rr_entries r) t = Some e \<Longrightarrow> rq_stop e" for e using h by (simp add: halted_entry entry_halted_def)
    then show ?thesis using RSimCall h by (simp add: claim_sim_call_def split: option.split)
  next
    case False
    then have "halted thread (set_entry t e r)" for e using halted_set[OF h] by blast
    then show ?thesis using RSimCall h by (simp add: claim_sim_call_def split: option.split)
  qed
next
  case (RSimBegin now t)
  show ?thesis
  proof (cases "t = thread")
    case True
    have "interrupted now thread r = Some Stopped" using halted_refusal[OF h] by blast
    then show ?thesis using RSimBegin h True by (cases "jget (rr_entries r) thread") (simp_all add: begin_sim_run_def)
  next
    case False
    then have "halted thread (set_entry t e r)" for e using halted_set[OF h] by blast
    then show ?thesis using RSimBegin h by (simp add: begin_sim_run_def split: option.split)
  qed
next
  case (RSimEnd t)
  then show ?thesis using halted_on[OF h] by (simp add: end_sim_run_def entry_halted_def)
qed

text \<open>Stop holds: after the operator's Stop on a thread, whatever happens next, until a new message or a decision on that
  thread, every model call and every simulation run on it is refused, and every call that was in flight is aborted.\<close>
theorem stop_holds:
  assumes "limits_ok l" "list_all (\<lambda>ev. \<not> new_word thread ev) later" "r = fold run_step later (snd (stop_request thread (run_all l evs)))"
  shows "refusal now thread r = Some Stopped \<and> interrupted now thread r = Some Stopped \<and>
    (case jget (rr_entries r) thread of None \<Rightarrow> True | Some e \<Rightarrow> list_all (\<lambda>(n, c). c \<noteq> None) (rq_calls e))"
proof -
  have "registry_ok (snd (stop_request thread (run_all l evs)))"
    using run_step_ok[OF run_all_ok[OF assms(1)], of "RStop thread"] by simp
  then have "registry_ok r \<and> halted thread r"
    using assms(2) halted_stop[of thread "run_all l evs"] unfolding assms(3)
  proof (induction later arbitrary: rule: rev_induct)
    case (snoc ev later)
    then show ?case using run_step_ok halted_step by (auto simp: registry_ok_def)
  qed simp
  then show ?thesis using halted_refusal by (auto simp: halted_def split: option.splits)
qed

text \<open>A call that no request of its thread holds, and that will not be held again.\<close>

definition gone :: "string \<Rightarrow> nat \<Rightarrow> registry \<Rightarrow> bool" where
  "gone thread n r =
     (n < rr_next r \<and> (\<forall>e. jget (rr_entries r) thread = Some e \<longrightarrow> n \<notin> fst ` set (rq_calls e)))"

lemma gone_set: "gone thread n r \<Longrightarrow> t \<noteq> thread \<or> n \<notin> fst ` set (rq_calls e) \<Longrightarrow> gone thread n (set_entry t e r)"
  by (auto simp: gone_def set_entry_def)

lemma gone_on:
  "gone thread n r \<Longrightarrow> (\<And>e. fst ` set (rq_calls (f e)) \<subseteq> fst ` set (rq_calls e)) \<Longrightarrow> gone thread n (on_entry t f r)"
  by (auto simp: on_entry_def gone_def set_entry_def split: option.splits)

lemma gone_sweep: "jwf (rr_entries r) \<Longrightarrow> gone thread n r \<Longrightarrow> gone thread n (sweep_requests now r)"
  by (auto simp: gone_def sweep_requests_def jget_filter split: option.splits if_splits)

lemma keys_jset_held: "jget m k = Some v \<Longrightarrow> fst ` set (jset k w m) = fst ` set m"
  by (auto simp: update_conv' dom_update dest: jget_Some_key)

lemma gone_step:
  assumes wf: "jwf (rr_entries r)" and g: "gone thread n r"
  shows "gone thread n (run_step ev r)"
proof (cases ev)
  case (RBegin now t i)
  have "gone thread n (set_entry t (fresh_request (rr_limits r) now i) (sweep_requests now r))"
    by (rule gone_set[OF gone_sweep[OF wf g]]) (simp add: fresh_request_def)
  then show ?thesis using RBegin by (simp add: begin_request_def Let_def set_entry_def)
next
  case (RCall now later t role p)
  have "gone thread n ((set_entry t (e\<lparr>rq_calls_used := a, rq_by_role := b, rq_calls := jset (rr_next r) None (rq_calls e)\<rparr>) r)\<lparr>rr_next := rr_next r + 1\<rparr>)"
    if "jget (rr_entries r) t = Some e" for e a b
    using g that by (auto simp: gone_def set_entry_def keys_jset simp flip: set_map)
  then show ?thesis using RCall g by (auto simp: start_call_def Let_def refusal_def split: option.splits)
next
  case (RTimeout t c)
  then show ?thesis using gone_on[OF g] by (simp add: call_timeout_def keys_jset_held split: option.split)
next
  case (RSettle t c s)
  then show ?thesis using gone_on[OF g] by (auto simp: settle_call_def Let_def AList.delete_eq intro!: gone_on[OF g] split: option.splits)
next
  case (RStop t)
  then show ?thesis by (auto simp: stop_request_def image_image case_prod_beta intro!: gone_on[OF g])
next
  case (RSimBegin now t)
  have "gone thread n (set_entry t (e\<lparr>rq_sim_runs := a, rq_sim_in_flight := b\<rparr>) r)" if "jget (rr_entries r) t = Some e" for e a b
    using g that by (auto simp: gone_def set_entry_def)
  then show ?thesis using RSimBegin g by (simp add: begin_sim_run_def split: option.split)
next
  case (RSimCall t)
  have "gone thread n (set_entry t (e\<lparr>rq_sim_calls := a\<rparr>) r)" if "jget (rr_entries r) t = Some e" for e a
    using g that by (auto simp: gone_def set_entry_def)
  then show ?thesis using RSimCall g by (simp add: claim_sim_call_def split: option.split)
next
  case (REnd t)
  then show ?thesis using g by (auto simp: end_request_def gone_def)
next
  case (RSimEnd t)
  then show ?thesis by (auto simp: end_sim_run_def intro!: gone_on[OF g] split: if_splits)
qed (use g in \<open>auto simp: clear_stop_def any_open_def Let_def claim_evidence_def intro!: gone_on gone_sweep wf\<close>)

text \<open>A reply charges the request that asked: once a request is over or another has replaced it, the late reply of one of
  its calls changes nothing that is held, whatever has happened on any thread in between.\<close>
theorem straggler_charges_nothing:
  assumes "limits_ok l" "start_call now later thread role p (run_all l evs) = (Inr (n, remaining), r1)"
    and "r2 = snd (end_request thread r1) \<or> r2 = begin_request then_at thread i r1"
  shows "settle_call thread n s (fold run_step rest r2) = fold run_step rest r2"
proof -
  have ok: "registry_ok r1" using start_call_ok[OF run_all_ok[OF assms(1)]] assms(2) by (metis snd_conv)
  have "n < rr_next r1" using assms(2) by (auto simp: start_call_def Let_def split: option.splits)
  moreover have "rr_next r2 = rr_next r1" using assms(3) by (auto simp: end_request_def begin_request_def sweep_requests_def Let_def)
  moreover have "jget (rr_entries r2) thread = None \<or> (\<exists>e. jget (rr_entries r2) thread = Some e \<and> rq_calls e = [])"
    using assms(3) by (auto simp: end_request_def begin_request_def Let_def fresh_request_def)
  ultimately have "gone thread n r2" by (auto simp: gone_def)
  moreover have "registry_ok r2"
    using assms(3) run_step_ok[OF ok, of "REnd thread"] run_step_ok[OF ok, of "RBegin then_at thread i"] by auto
  ultimately have "registry_ok (fold run_step rest r2) \<and> gone thread n (fold run_step rest r2)"
  proof (induction rest rule: rev_induct)
    case (snoc ev rest)
    then show ?case using run_step_ok gone_step by (auto simp: registry_ok_def)
  qed simp
  then have "jget (rr_entries (fold run_step rest r2)) thread = Some e \<Longrightarrow> jget (rq_calls e) n = None" for e
    by (simp add: gone_def jget_None_iff)
  then show ?thesis by (auto simp: settle_call_def on_entry_def set_entry_def update_triv split: option.splits)
qed

text \<open>A request that made one call, with the default limits.\<close>

definition plain_params :: model_params where
  "plain_params = \<lparr>mp_max_tokens = 16000, mp_thinking = False, mp_fallbacks = False, mp_tool_choice = None, mp_cache = None,
     mp_tools = [], mp_system = PlainText, mp_messages = [PlainText]\<rparr>"

definition one_call :: "run_event list" where
  "one_call = [RBegin 0 ''t'' ''r1'', RCall 1 1 ''t'' Planner plain_params]"

lemmas one_call_defs =
  run_all_def one_call_def new_registry_def begin_request_def sweep_requests_def start_call_def refusal_def plain_params_def
  request_shape_error_def cache_markers_def present_def content_markers_def fresh_request_def limit_of_def limit_values
  zero_by_role_def roles_def set_entry_def Let_def max_cache_breakpoints_def

lemma one_call_run:
  "jget (rr_entries (run_all default_limits one_call)) ''t'' =
   Some ((fresh_request default_limits 0 ''r1'')\<lparr>rq_calls_used := 1, rq_by_role := jset Planner 1 zero_by_role, rq_calls := [(0, None)]\<rparr>)"
  by (simp add: one_call_defs)

theorem request_budget_kept_witness:
  "within_bounds default_limits ((fresh_request default_limits 0 ''r1'')\<lparr>rq_calls_used := 1, rq_by_role := jset Planner 1 zero_by_role, rq_calls := [(0, None)]\<rparr>)"
  by (rule request_budget_kept[of "[]", OF _ one_call_run]) (simp add: resolve_limits_def)

theorem stop_holds_witness:
  "refusal 2 ''t'' (fold run_step [RSettle ''t'' 0 CallFailed] (snd (stop_request ''t'' (run_all default_limits one_call)))) = Some Stopped"
  using stop_holds[OF default_limits_ok _ refl, of "''t''" "[RSettle ''t'' 0 CallFailed]" 2 one_call] by (simp add: new_word_def)

theorem straggler_charges_nothing_witness:
  "\<exists>r1. snd (end_request ''t'' r1) = settle_call ''t'' 0 (Replied None) (snd (end_request ''t'' r1)) \<and> rr_next r1 = 1"
proof -
  have "start_call 1 1 ''t'' Planner plain_params (run_all default_limits [RBegin 0 ''t'' ''r1'']) = (Inr (0, 299999), run_all default_limits one_call)"
    by (simp add: one_call_defs)
  from straggler_charges_nothing[OF default_limits_ok this, of "snd (end_request ''t'' (run_all default_limits one_call))" _ _ "Replied None" "[]"]
  have "snd (end_request ''t'' (run_all default_limits one_call)) = settle_call ''t'' 0 (Replied None) (snd (end_request ''t'' (run_all default_limits one_call)))"
    by simp
  moreover have "rr_next (run_all default_limits one_call) = 1"
    by (simp add: one_call_defs)
  ultimately show ?thesis by blast
qed

end
