(* ===== verification/Copilot_State.thy ===== *)
theory Copilot_State
  imports Http_Schemas Copilot_Render Copilot_Ledger Copilot_Runs
begin

section \<open>The state of a copilot thread (apps/web/lib/copilot/state.ts, notices.ts)\<close>

text \<open>
  The channels of the graph with their reducers. A time is its milliseconds; text that goes through the verifier is
  read as its code points. What a channel holds only to be shown is left out.
\<close>

datatype notice_code =
    PlanSuperseded | ContextUnavailable | ControlUnavailable | MultipleBuildings | WaveLimit | BudgetNotice | DeadlineNotice
  | StoppedNotice | ModelRefused | PlannerUnavailable | ControlNotPermitted | ComposeUnavailable | VerifyFailed
  | MessageUnverified | PlanRefused | PlanDeclined | PlanStale | PlanExpired | ApplyRefused

datatype notice = Notice notice_code "(string \<times> json) list"

definition code_of_notice :: "notice \<Rightarrow> notice_code" where
  "code_of_notice n = (case n of Notice c _ \<Rightarrow> c)"

text \<open>The notice for a request that ran out.\<close>

definition budget_notice :: "budget_reason \<Rightarrow> limits \<Rightarrow> notice" where
  "budget_notice why l =
     (case why of
        Budget \<Rightarrow> Notice BudgetNotice [(''calls'', JNumber (of_int (limit_of l ''maxModelCalls'')))]
      | Deadline \<Rightarrow> Notice DeadlineNotice [(''seconds'', JNumber (of_int (limit_of l ''deadlineS'')))]
      | Stopped \<Rightarrow> Notice StoppedNotice [])"

subsection \<open>What the channels hold\<close>

record inbox_message =
  ib_request :: string
  ib_text :: string
  ib_may_command :: bool

record request_stamp =
  rs_request :: string
  rs_seq :: nat
  rs_text :: string
  rs_now :: ms
  rs_user :: string
  rs_may_command :: bool

record directory_zone =
  dz_id :: string
  dz_name :: string
  dz_designed :: "rat option"

record orient_context =
  oc_directory :: "directory_zone list"
  oc_sim_available :: bool
  oc_envelope :: bool

datatype scope_source = FromPlanner | FromFallback

record request_scope =
  sc_control :: bool
  sc_simulation :: bool
  sc_source :: scope_source

datatype next_step = NextDispatch | NextCompose | NextControl | NextFinish

record planner_route =
  pr_next :: next_step
  pr_tasks :: "string list"
  pr_interpretation :: "string option"
  pr_message :: "string option"

datatype specialist_node = SDiagnose | SAnalyse | SSimulate

record task_spec =
  ts_id :: string
  ts_specialist :: specialist_node
  ts_goal :: string
  ts_zones :: "string list"
  ts_from :: "string option"
  ts_to :: "string option"
  ts_inputs :: "string list"
  ts_wave :: int
  ts_done :: bool

datatype control_mode = Propose | Check

record control_task =
  ct_mode :: control_mode
  ct_brief :: string
  ct_inputs :: "string list"
  ct_done :: bool

datatype finding_status = Answered | Partial | CannotAnswer | FindingFailed | FindingRefused

datatype finding_reason =
    TurnLimit | ToolLimit | OverBudget | PastDeadline | StoppedReason | NoReport | ModelError | EvidenceFull

record finding =
  fd_task :: string
  fd_specialist :: role
  fd_status :: finding_status
  fd_reason :: "finding_reason option"
  fd_summary :: string
  fd_claims :: "(string \<times> string list) list"
  fd_questions :: "string list"
  fd_caveats :: "caveat list"
  fd_evidence :: "string list"

record proposed_command =
  pc_zone :: string
  pc_setpoint :: rat
  pc_duration :: "int option"
  pc_reason :: string

record proposed_plan =
  pp_summary :: string
  pp_commands :: "proposed_command list"
  pp_basis :: "(string \<times> string) option"

datatype verdict = Allowed rat int ms | Denied string string

record reviewed_command =
  rc_zone :: string
  rc_zone_name :: string
  rc_setpoint :: rat
  rc_duration :: int
  rc_reason :: string
  rc_verdict :: verdict

record simulation_match =
  sm_evidence :: string
  sm_scenario :: string
  sm_zones :: bool
  sm_setpoints :: bool

record reviewed_plan =
  rp_id :: string
  rp_hash :: string
  rp_checked :: ms
  rp_expires :: ms
  rp_summary :: string
  rp_commands :: "reviewed_command list"
  rp_simulation :: "simulation_match option"

datatype decision = Approved | DeclinedPlan | StalePlan | ExpiredPlan

datatype issue_result = Issued string | NotIssued string string

record outcome =
  ou_zone_name :: string
  ou_setpoint :: rat
  ou_result :: issue_result

datatype dialogue_entry =
    OperatorSaid string string
  | CopilotSaid string "utext option" "notice_code list" "outcome list"

record copilot_state =
  cs_inbox :: "inbox_message option"
  cs_request :: "request_stamp option"
  cs_dialogue :: "dialogue_entry list"
  cs_context :: "orient_context option"
  cs_scope :: "request_scope option"
  cs_route :: "planner_route option"
  cs_waves :: int
  cs_task_seq :: nat
  cs_tasks :: "(string, task_spec) jsmap"
  cs_findings :: "(string, finding) jsmap"
  cs_evidence :: evidence_map
  cs_control :: "control_task option"
  cs_proposal :: "proposed_plan option"
  cs_answer :: "answer_doc option"
  cs_violations :: "violation list"
  cs_drafts :: int
  cs_notices :: "notice list"
  cs_plan :: "reviewed_plan option"
  cs_decision :: "decision option"
  cs_outcomes :: "outcome list"

definition empty_state :: copilot_state where
  "empty_state =
     \<lparr>cs_inbox = None, cs_request = None, cs_dialogue = [], cs_context = None, cs_scope = None, cs_route = None, cs_waves = 0,
      cs_task_seq = 0, cs_tasks = [], cs_findings = [], cs_evidence = [], cs_control = None, cs_proposal = None, cs_answer = None,
      cs_violations = [], cs_drafts = 0, cs_notices = [], cs_plan = None, cs_decision = None, cs_outcomes = []\<rparr>"

subsection \<open>Reducers\<close>

definition merge_record :: "('k, 'v) jsmap \<Rightarrow> ('k, 'v) jsmap option \<Rightarrow> ('k, 'v) jsmap" where
  "merge_record held update = (case update of None \<Rightarrow> [] | Some m \<Rightarrow> fold (\<lambda>(k, v). jset k v) m held)"

definition append_dialogue :: "dialogue_entry list \<Rightarrow> dialogue_entry list \<Rightarrow> dialogue_entry list" where
  "append_dialogue held extra =
     (let all = held @ extra; kept = nat (limit_of default_limits ''dialogueKept'') in drop (length all - kept) all)"

definition say :: "notice list \<Rightarrow> copilot_state \<Rightarrow> copilot_state" where
  "say ns s = s\<lparr>cs_notices := cs_notices s @ ns\<rparr>"

text \<open>Write-once: the first write of a request wins.\<close>

definition write_scope :: "request_scope \<Rightarrow> copilot_state \<Rightarrow> copilot_state" where
  "write_scope sc s = s\<lparr>cs_scope := (case cs_scope s of Some held \<Rightarrow> Some held | None \<Rightarrow> Some sc)\<rparr>"

section \<open>Where a request begins and ends (apps/web/lib/copilot/lifecycle.ts)\<close>

text \<open>The node \<open>intake\<close>: \<open>None\<close> stands for the TypeError of a run with nothing to answer.\<close>

definition intake :: "ms \<Rightarrow> string \<Rightarrow> string \<Rightarrow> copilot_state \<Rightarrow> ledger \<Rightarrow> registry \<Rightarrow> (copilot_state \<times> ledger \<times> registry) option" where
  "intake now thread user s l r =
     (case cs_inbox s of
        None \<Rightarrow> None
      | Some m \<Rightarrow>
          let seq = (case cs_request s of None \<Rightarrow> 0 | Some q \<Rightarrow> rs_seq q) + 1;
              notices = (if cs_plan s \<noteq> None then [Notice PlanSuperseded []] else [])
          in Some
            (empty_state\<lparr>
               cs_request := Some \<lparr>rs_request = ib_request m, rs_seq = seq, rs_text = ib_text m, rs_now = now, rs_user = user,
                 rs_may_command = ib_may_command m\<rparr>,
               cs_dialogue := append_dialogue (cs_dialogue s) [OperatorSaid (ib_request m) (ib_text m)],
               cs_notices := notices\<rparr>,
             revoke_grant thread l, begin_request now thread (ib_request m) r))"

definition declined_node :: "copilot_state \<Rightarrow> copilot_state" where
  "declined_node s =
     say [Notice (case cs_decision s of Some ExpiredPlan \<Rightarrow> PlanExpired | Some DeclinedPlan \<Rightarrow> PlanDeclined | _ \<Rightarrow> PlanStale) []]
       (s\<lparr>cs_plan := None, cs_decision := None\<rparr>)"

definition rendered_now :: "unicode \<Rightarrow> copilot_state \<Rightarrow> rendered_answer option" where
  "rendered_now u s = (if cs_violations s = [] then render_answer u (cs_answer s) (cs_evidence s) False else None)"

text \<open>What \<open>finish\<close> records as said: the verified answer, or a message that keeps to the wording, or nothing. Whether
  forecast weather exists is the constant false.\<close>

definition said_text :: "unicode \<Rightarrow> (caveat \<Rightarrow> utext) \<Rightarrow> copilot_state \<Rightarrow> utext option" where
  "said_text u line s =
     (case rendered_now u s of
        Some r \<Rightarrow> Some (answer_plain_text line r)
      | None \<Rightarrow>
          (case cs_route s of
             None \<Rightarrow> None
           | Some p \<Rightarrow> (case pr_message p of
               None \<Rightarrow> None
             | Some m \<Rightarrow> if verify_text u (cps m) False = [] then Some (cps m) else None)))"

definition finish_node :: "unicode \<Rightarrow> (caveat \<Rightarrow> utext) \<Rightarrow> string \<Rightarrow> copilot_state \<Rightarrow> registry \<Rightarrow> copilot_state \<times> registry" where
  "finish_node u line thread s r =
     (let i = (case cs_request s of None \<Rightarrow> [] | Some q \<Rightarrow> rs_request q);
          codes = rev (remdups (rev (map code_of_notice (cs_notices s))))
      in (s\<lparr>cs_dialogue := append_dialogue (cs_dialogue s) [CopilotSaid i (said_text u line s) codes (cs_outcomes s)]\<rparr>,
          snd (end_request thread r)))"

section \<open>What a request can use (apps/web/lib/copilot/orient.ts)\<close>

text \<open>
  The node \<open>orient\<close>, from what the two reads gave: the snapshot or a rejection, the control settings or a rejection.
  The records C.1 to C.3 and whether the time zone of the building is known are arguments.
\<close>

record orient_snapshot =
  os_building :: "string option"
  os_multiple :: bool
  os_directory :: "directory_zone list"

definition orient_node ::
  "orient_snapshot option \<Rightarrow> bool \<Rightarrow> bool \<Rightarrow> bool \<Rightarrow> evidence_map \<Rightarrow> copilot_state \<Rightarrow> copilot_state" where
  "orient_node snapshot settings zone_known sim records s =
     (let lost = say [Notice ContextUnavailable []] (s\<lparr>cs_context := None\<rparr>) in
      case snapshot of
        None \<Rightarrow> lost
      | Some snap \<Rightarrow>
          (case os_building snap of
             None \<Rightarrow> lost
           | Some name \<Rightarrow>
               if cs_request s \<noteq> None \<and> \<not> zone_known then lost
               else say ((if settings then [] else [Notice ControlUnavailable []]) @
                         (if os_multiple snap then [Notice MultipleBuildings [(''building'', JString name)]] else []))
                      (s\<lparr>cs_context := Some \<lparr>oc_directory = os_directory snap, oc_sim_available = sim, oc_envelope = settings\<rparr>,
                         cs_evidence := merge_record (cs_evidence s) (Some records)\<rparr>)))"

datatype graph_node =
    NIntake | NOrient | NPlanner | NSpecialists "string list" | NJoin | NCompose | NVerify | NControl | NPlanCheck | NConfirm
  | NApply | NDeclined | NFinish | NEnd

definition after_orient :: "copilot_state \<Rightarrow> graph_node" where
  "after_orient s =
     (if cs_context s = None \<or> ContextUnavailable \<in> code_of_notice ` set (cs_notices s) then NFinish else NPlanner)"

section \<open>The fan-out and the fan-in (apps/web/lib/copilot/fanout.ts)\<close>

definition may_control :: "copilot_state \<Rightarrow> bool" where
  "may_control s =
     ((case cs_scope s of Some sc \<Rightarrow> sc_control sc | None \<Rightarrow> False) \<and>
      (case cs_request s of Some q \<Rightarrow> rs_may_command q | None \<Rightarrow> False))"

definition control_pending :: "copilot_state \<Rightarrow> bool" where
  "control_pending s = (case cs_control s of Some t \<Rightarrow> \<not> ct_done t | None \<Rightarrow> False)"

definition onward_node :: "copilot_state \<Rightarrow> graph_node" where
  "onward_node s = (if cs_findings s \<noteq> [] then NCompose else NFinish)"

text \<open>The tasks of a dispatch that are sent; a list of sends is never empty.\<close>

definition sent_tasks :: "copilot_state \<Rightarrow> string list \<Rightarrow> string list" where
  "sent_tasks s ids = filter (\<lambda>i. case jget (cs_tasks s) i of Some t \<Rightarrow> \<not> ts_done t | None \<Rightarrow> False) ids"

definition after_planner :: "copilot_state \<Rightarrow> graph_node" where
  "after_planner s =
     (case cs_route s of
        None \<Rightarrow> onward_node s
      | Some p \<Rightarrow>
          (case pr_next p of
             NextDispatch \<Rightarrow>
               if cs_context s = None \<or> cs_request s = None \<or> sent_tasks s (pr_tasks p) = [] then onward_node s
               else NSpecialists (sent_tasks s (pr_tasks p))
           | NextControl \<Rightarrow>
               if cs_findings s \<noteq> [] then NCompose
               else if control_pending s \<and> may_control s then NControl else onward_node s
           | NextCompose \<Rightarrow> NCompose
           | NextFinish \<Rightarrow> NFinish))"

text \<open>The evidence a specialist is handed: copies of what the planner named, at most six.\<close>

definition task_inputs :: "copilot_state \<Rightarrow> task_spec \<Rightarrow> evidence list" where
  "task_inputs s t = List.map_filter (jget (cs_evidence s)) (take 6 (filter (\<lambda>i. jget (cs_evidence s) i \<noteq> None) (ts_inputs t)))"

definition join_node :: "copilot_state \<Rightarrow> copilot_state" where
  "join_node s =
     s\<lparr>cs_tasks := merge_record (cs_tasks s)
        (Some (map (\<lambda>(i, t). (i, t\<lparr>ts_done := True\<rparr>))
          (filter (\<lambda>(i, t). \<not> ts_done t \<and> jget (cs_findings s) i \<noteq> None) (cs_tasks s))))\<rparr>"

section \<open>Routers (apps/web/lib/copilot/graph.ts)\<close>

definition after_verify :: "limits \<Rightarrow> copilot_state \<Rightarrow> graph_node" where
  "after_verify l s =
     (if cs_violations s \<noteq> [] \<and> cs_answer s \<noteq> None \<and> cs_drafts s < limit_of l ''maxDrafts'' then NCompose
      else if control_pending s \<and> may_control s then NControl
      else NFinish)"

definition after_control :: "copilot_state \<Rightarrow> graph_node" where
  "after_control s = (if cs_proposal s \<noteq> None then NPlanCheck else NCompose)"

definition after_plan_check :: "copilot_state \<Rightarrow> graph_node" where
  "after_plan_check s = (if cs_plan s \<noteq> None then NConfirm else NFinish)"

definition after_confirm :: "copilot_state \<Rightarrow> graph_node" where
  "after_confirm s = (if cs_decision s = Some Approved then NApply else NDeclined)"

end
