(* ===== verification/Copilot_Tools.thy ===== *)
theory Copilot_Tools
  imports Copilot_State
begin

section \<open>The tools a specialist may call (apps/web/lib/copilot/tools)\<close>

text \<open>
  The dispatcher of one model turn (index.ts), the evidence it numbers (common.ts), and the two tools that end in
  something else than evidence: a plan for the operator (control.ts) and a finding (report.ts). What a reading tool
  gives back and what the envelope answers a dry run are arguments, numbered in call order; the texts of the errors and
  the runs a simulation started are left out.
\<close>

subsection \<open>Who may call what\<close>

definition role_tools :: "role \<Rightarrow> string list" where
  "role_tools r =
     (case r of
        Diagnose \<Rightarrow> [''zone_conditions'', ''zone_history'', ''zone_timeline'', ''equipment_status'', ''list_alerts'', ''control_history'',
                     ''report_finding'']
      | Analyse \<Rightarrow> [''energy_by_end_use'', ''meter_consumption'', ''compare_zones'', ''report_finding'']
      | Simulate \<Rightarrow> [''simulate_scenarios'', ''report_finding'']
      | Control \<Rightarrow> [''list_zones'', ''control_envelope'', ''dry_run_setpoint'', ''propose_plan'', ''report_finding'']
      | _ \<Rightarrow> [])"

definition offered_tools :: "role \<Rightarrow> control_mode option \<Rightarrow> string list" where
  "offered_tools r mode =
     (if r = Control \<and> mode \<noteq> Some Propose then filter (\<lambda>t. t \<noteq> ''propose_plan'') (role_tools r) else role_tools r)"

record tool_call =
  tc_id :: string
  tc_name :: string
  tc_input :: json

record tool_task =
  tt_task :: string
  tt_inputs :: "string list"
  tt_produced :: "string list"
  tt_mode :: "control_mode option"

subsection \<open>Plans (tools/control.ts)\<close>

definition trimmed_text :: "nat \<Rightarrow> nat \<Rightarrow> string \<Rightarrow> string option" where
  "trimmed_text lo hi s = checked (\<lambda>t. lo \<le> length t \<and> length t \<le> hi) (Some (js_trim s))"

definition parse_command :: "proposed_command \<Rightarrow> proposed_command option" where
  "parse_command c =
     (if uuid_shape (pc_zone c) \<and> pred_option (\<lambda>d. 0 < d \<and> d \<le> 86400) (pc_duration c)
      then map_option (\<lambda>r. c\<lparr>pc_reason := r\<rparr>) (trimmed_text 3 300 (pc_reason c)) else None)"

definition scenario_name_ok :: "string \<Rightarrow> bool" where
  "scenario_name_ok s =
     (1 \<le> length s \<and> length s \<le> 40 \<and> list_all (\<lambda>c. c \<in> set ''abcdefghijklmnopqrstuvwxyz0123456789-'') s)"

text \<open>\<open>ProposedPlanWithBasis\<close>: a plan is parsed again wherever it arrives.\<close>

definition parse_plan :: "proposed_plan \<Rightarrow> proposed_plan option" where
  "parse_plan p =
     (case (trimmed_text 3 500 (pp_summary p), all_some (map parse_command (pp_commands p))) of
        (Some s, Some cs) \<Rightarrow>
          if cs \<noteq> [] \<and> int (length cs) \<le> limit_of default_limits ''maxPlanCommands'' \<and>
             pred_option (\<lambda>(e, n). evidence_id_ok e \<and> scenario_name_ok n) (pp_basis p)
          then Some \<lparr>pp_summary = s, pp_commands = cs, pp_basis = pp_basis p\<rparr> else None
      | _ \<Rightarrow> None)"

definition command_input :: "json \<Rightarrow> proposed_command option" where
  "command_input j =
     (case (json_required json_string j ''zoneId'', json_required json_number j ''setpointTempC'', json_optional json_int j ''durationS'',
            json_required json_string j ''reason'') of
        (Some z, Some t, Some d, Some r) \<Rightarrow> Some \<lparr>pc_zone = z, pc_setpoint = t, pc_duration = d, pc_reason = r\<rparr>
      | _ \<Rightarrow> None)"

definition strict_object :: "string list \<Rightarrow> json \<Rightarrow> bool" where
  "strict_object ks j = (case j of JObject m \<Rightarrow> list_all (\<lambda>(k, v). k \<in> set ks) m | _ \<Rightarrow> False)"

definition basis_input :: "json \<Rightarrow> (string \<times> string) option" where
  "basis_input j =
     (if strict_object [''evidenceId'', ''scenario''] j
      then case (json_required json_string j ''evidenceId'', json_required json_string j ''scenario'') of
             (Some e, Some n) \<Rightarrow> Some (e, n)
           | _ \<Rightarrow> None
      else None)"

definition plan_input :: "json \<Rightarrow> proposed_plan option" where
  "plan_input j =
     (case (json_required json_string j ''summary'', jfield j ''commands'', json_optional basis_input j ''basis'') of
        (Some s, Some (JArray cs), Some b) \<Rightarrow>
          (case all_some (map command_input cs) of
             Some ps \<Rightarrow> parse_plan \<lparr>pp_summary = s, pp_commands = ps, pp_basis = b\<rparr>
           | None \<Rightarrow> None)
      | _ \<Rightarrow> None)"

datatype plan_refusal =
    PlanInvalid | ZoneTwice string | UnknownPlanZone string | SummaryWording | ReasonWording string | BasisNotGiven string
  | NoProbe | ProbeUnreachable | EnvelopeRefuses "string list"

fun zone_twice :: "string list \<Rightarrow> string list \<Rightarrow> string option" where
  "zone_twice seen [] = None"
| "zone_twice seen (z # zs) = (if z \<in> set seen then Some z else zone_twice (z # seen) zs)"

definition denied :: "verdict \<Rightarrow> bool" where
  "denied v = (case v of Allowed _ _ _ \<Rightarrow> False | Denied _ _ \<Rightarrow> True)"

text \<open>The dry runs, one after the other; \<open>None\<close> once one throws. The answers of a call are numbered from 0, so the argument stands for
  what the control service answers during that call.\<close>

fun dry_runs :: "(nat \<Rightarrow> proposed_command \<Rightarrow> verdict option) \<Rightarrow> nat \<Rightarrow> proposed_command list \<Rightarrow> verdict list option" where
  "dry_runs probe i [] = Some []"
| "dry_runs probe i (c # cs) =
     (case probe i c of None \<Rightarrow> None | Some v \<Rightarrow> map_option (Cons v) (dry_runs probe (i + 1) cs))"

text \<open>What stops a plan before it is dry-run, in the order of the checks.\<close>

definition plan_problem :: "unicode \<Rightarrow> directory_zone list \<Rightarrow> tool_task \<Rightarrow> proposed_plan \<Rightarrow> plan_refusal option" where
  "plan_problem u directory task p =
     (let cs = pp_commands p in
      case (zone_twice [] (map pc_zone cs), find (\<lambda>c. pc_zone c \<notin> set (map dz_id directory)) cs) of
        (Some z, _) \<Rightarrow> Some (ZoneTwice z)
      | (None, Some c) \<Rightarrow> Some (UnknownPlanZone (pc_zone c))
      | (None, None) \<Rightarrow>
          if verify_text u (cps (pp_summary p)) False \<noteq> [] then Some SummaryWording
          else case find (\<lambda>c. verify_text u (cps (pc_reason c)) False \<noteq> []) cs of
                 Some c \<Rightarrow> Some (ReasonWording (pc_zone c))
               | None \<Rightarrow>
                   (case pp_basis p of
                      Some (e, n) \<Rightarrow> if e \<in> set (tt_inputs task @ tt_produced task) then None else Some (BasisNotGiven e)
                    | None \<Rightarrow> None))"

definition propose_plan ::
  "unicode \<Rightarrow> directory_zone list \<Rightarrow> tool_task \<Rightarrow> (nat \<Rightarrow> proposed_command \<Rightarrow> verdict option) option \<Rightarrow> json
     \<Rightarrow> plan_refusal + proposed_plan" where
  "propose_plan u directory task probe input =
     (case plan_input input of
        None \<Rightarrow> Inl PlanInvalid
      | Some p \<Rightarrow>
          (case (plan_problem u directory task p, probe) of
             (Some r, _) \<Rightarrow> Inl r
           | (None, None) \<Rightarrow> Inl NoProbe
           | (None, Some ask) \<Rightarrow>
               (case dry_runs ask 0 (pp_commands p) of
                  None \<Rightarrow> Inl ProbeUnreachable
                | Some vs \<Rightarrow>
                    (let refused = filter (\<lambda>(c, v). denied v) (zip (pp_commands p) vs) in
                     if refused \<noteq> [] then Inl (EnvelopeRefuses (map (pc_zone \<circ> fst) refused)) else Inr p))))"

subsection \<open>Findings (tools/report.ts)\<close>

record finding_report =
  fr_status :: finding_status
  fr_summary :: string
  fr_claims :: "(string \<times> string list) list"
  fr_questions :: "string list"
  fr_caveats :: "caveat list"

definition claim_ok :: "string \<times> string list \<Rightarrow> (string \<times> string list) option" where
  "claim_ok c =
     (case c of (t, ids) \<Rightarrow>
        if 1 \<le> length ids \<and> length ids \<le> 6 \<and> list_all evidence_id_ok ids
        then map_option (\<lambda>x. (x, ids)) (trimmed_text 1 300 t) else None)"

text \<open>\<open>ReportFindingInput\<close> on an input of the right types.\<close>

definition parse_report :: "finding_report \<Rightarrow> finding_report option" where
  "parse_report r =
     (case (trimmed_text 1 800 (fr_summary r), all_some (map claim_ok (fr_claims r)), all_some (map (trimmed_text 0 300) (fr_questions r))) of
        (Some s, Some cs, Some qs) \<Rightarrow>
          if fr_status r \<in> {Answered, Partial, CannotAnswer} \<and> length cs \<le> 12 \<and> length qs \<le> 5
          then Some (r\<lparr>fr_summary := s, fr_claims := cs, fr_questions := qs\<rparr>) else None
      | _ \<Rightarrow> None)"

definition order_caveats :: "caveat list \<Rightarrow> caveat list" where
  "order_caveats ids = filter (\<lambda>c. c \<in> set ids) caveat_ids"

lemma order_caveats_set [simp]: "set (order_caveats ids) = set ids"
  using caveat_lines_set[of ids] by (simp add: order_caveats_def caveat_lines_def)

datatype report_refusal = ReportInvalid | UnknownIds "string list"

text \<open>The parse from JSON to the types of a report is an argument.\<close>

definition report_finding :: "(json \<Rightarrow> finding_report option) \<Rightarrow> tool_task \<Rightarrow> json \<Rightarrow> report_refusal + finding_report" where
  "report_finding typed task input =
     (case Option.bind (typed input) parse_report of
        None \<Rightarrow> Inl ReportInvalid
      | Some r \<Rightarrow>
          (let unknown = filter (\<lambda>i. i \<notin> set (tt_inputs task @ tt_produced task))
                 (rev (remdups (rev (concat (map snd (fr_claims r))))))
           in if unknown \<noteq> [] then Inl (UnknownIds unknown) else Inr (r\<lparr>fr_caveats := order_caveats (fr_caveats r)\<rparr>)))"

subsection \<open>Evidence (tools/common.ts)\<close>

text \<open>A record before it has its number: its id, its task and its time are set when it is sealed.\<close>

definition clipped :: "char \<Rightarrow> nat \<Rightarrow> string \<Rightarrow> string" where
  "clipped dots n s = (if n < length s then take (n - 1) s @ [dots] else s)"

definition seal_evidence :: "char \<Rightarrow> evidence \<Rightarrow> string \<Rightarrow> string \<Rightarrow> string \<Rightarrow> evidence" where
  "seal_evidence dots draft i task stamp =
     draft\<lparr>ev_id := i, ev_task := task, ev_label := clipped dots 200 (ev_label draft), ev_caveats := order_caveats (ev_caveats draft),
       ev_headline := map (\<lambda>(l, p). (clipped dots 80 l, p)) (take 6 (ev_headline draft)), ev_at := stamp\<rparr>"

text \<open>The allocator: what the task has numbered so far, and the ledger of the request behind it.\<close>

definition next_evidence :: "string \<Rightarrow> string \<Rightarrow> nat \<Rightarrow> registry \<Rightarrow> string option \<times> nat \<times> registry" where
  "next_evidence thread task n r =
     (let i = task @ ''.E'' @ digits_of (n + 1) in
      if \<not> evidence_id_ok i then (None, n, r)
      else (case claim_evidence thread r of (True, r1) \<Rightarrow> (Some i, n + 1, r1) | (False, r1) \<Rightarrow> (None, n, r1)))"

subsection \<open>One call\<close>

datatype draft_result = DraftRefused | ServiceDown | ToolBroken | Drafted evidence int

datatype tool_error =
    NotOffered | CallInterrupted budget_reason | BadReport report_refusal | BadPlan plan_refusal | DraftError draft_result
  | TooLarge int | PastTurn | PastTask | LedgerFull | SecondPlan | SecondReport

datatype tool_outcome = OutError tool_error | OutEvidence evidence | OutProposal proposed_plan | OutReport finding_report

record tool_world =
  tw_unicode :: unicode
  tw_directory :: "directory_zone list"
  tw_probe :: "(nat \<Rightarrow> proposed_command \<Rightarrow> verdict option) option"
  tw_typed :: "json \<Rightarrow> finding_report option"
  tw_interrupted :: "nat \<Rightarrow> budget_reason option"
  tw_draft :: "nat \<Rightarrow> string \<Rightarrow> json \<Rightarrow> draft_result"
  tw_limits :: limits
  tw_dots :: char
  tw_now :: string

definition execute_call :: "tool_world \<Rightarrow> role \<Rightarrow> tool_task \<Rightarrow> nat \<Rightarrow> tool_call \<Rightarrow> tool_outcome" where
  "execute_call w r task i c =
     (if tc_name c \<notin> set (offered_tools r (tt_mode task)) then OutError NotOffered
      else if tc_name c \<noteq> ''report_finding'' \<and> tw_interrupted w i \<noteq> None
           then OutError (CallInterrupted (the (tw_interrupted w i)))
      else if tc_name c = ''report_finding''
           then (case report_finding (tw_typed w) task (tc_input c) of Inl e \<Rightarrow> OutError (BadReport e) | Inr f \<Rightarrow> OutReport f)
      else if tc_name c = ''propose_plan''
           then (case propose_plan (tw_unicode w) (tw_directory w) task (tw_probe w) (tc_input c) of
                   Inl e \<Rightarrow> OutError (BadPlan e) | Inr p \<Rightarrow> OutProposal p)
      else (case tw_draft w i (tc_name c) (tc_input c) of
              Drafted e bytes \<Rightarrow>
                if limit_of (tw_limits w) ''maxEvidenceBytes'' < bytes then OutError (TooLarge bytes) else OutEvidence e
            | d \<Rightarrow> OutError (DraftError d)))"

subsection \<open>One turn\<close>

text \<open>Which calls run: at most so many per turn, and the calls that are not a report within what the task has left.\<close>

fun admit_calls :: "int \<Rightarrow> int \<Rightarrow> int \<Rightarrow> tool_call list \<Rightarrow> tool_error option list" where
  "admit_calls per_turn budget i [] = []"
| "admit_calls per_turn budget i (c # cs) =
     (if per_turn \<le> i then Some PastTurn # admit_calls per_turn budget (i + 1) cs
      else if tc_name c \<noteq> ''report_finding'' \<and> budget \<le> 0 then Some PastTask # admit_calls per_turn budget (i + 1) cs
      else None # admit_calls per_turn (if tc_name c = ''report_finding'' then budget else budget - 1) (i + 1) cs)"

datatype tool_result = ResultError tool_error | ResultEvidence string | ResultPlan | ResultReport

record turn_result =
  tr_blocks :: "(string \<times> tool_result) list"
  tr_evidence :: "evidence list"
  tr_proposal :: "proposed_plan option"
  tr_report :: "finding_report option"
  tr_calls_run :: nat
  tr_ledger_full :: bool

fun collect_one ::
  "tool_world \<Rightarrow> string \<Rightarrow> string \<Rightarrow> tool_call \<times> tool_outcome \<Rightarrow> turn_result \<times> nat \<times> registry \<Rightarrow> turn_result \<times> nat \<times> registry" where
  "collect_one w thread task (c, x) (t, n, r) =
     (case x of
        OutError e \<Rightarrow> (t\<lparr>tr_blocks := tr_blocks t @ [(tc_id c, ResultError e)]\<rparr>, n, r)
      | OutEvidence d \<Rightarrow>
          (case next_evidence thread task n r of
             (None, n1, r1) \<Rightarrow> (t\<lparr>tr_blocks := tr_blocks t @ [(tc_id c, ResultError LedgerFull)], tr_ledger_full := True\<rparr>, n1, r1)
           | (Some i, n1, r1) \<Rightarrow>
               (t\<lparr>tr_blocks := tr_blocks t @ [(tc_id c, ResultEvidence i)],
                  tr_evidence := tr_evidence t @ [seal_evidence (tw_dots w) d i task (tw_now w)]\<rparr>, n1, r1))
      | OutProposal p \<Rightarrow>
          (if tr_proposal t = None
           then (t\<lparr>tr_blocks := tr_blocks t @ [(tc_id c, ResultPlan)], tr_proposal := Some p\<rparr>, n, r)
           else (t\<lparr>tr_blocks := tr_blocks t @ [(tc_id c, ResultError SecondPlan)]\<rparr>, n, r))
      | OutReport f \<Rightarrow>
          (if tr_report t = None
           then (t\<lparr>tr_blocks := tr_blocks t @ [(tc_id c, ResultReport)], tr_report := Some f\<rparr>, n, r)
           else (t\<lparr>tr_blocks := tr_blocks t @ [(tc_id c, ResultError SecondReport)]\<rparr>, n, r)))"

definition call_outcomes :: "tool_world \<Rightarrow> role \<Rightarrow> tool_task \<Rightarrow> int \<Rightarrow> tool_call list \<Rightarrow> (tool_call \<times> tool_outcome) list" where
  "call_outcomes w r task so_far cs =
     map (\<lambda>(i, c, a). (c, case a of Some e \<Rightarrow> OutError e | None \<Rightarrow> execute_call w r task i c))
       (enumerate 0 (zip cs (admit_calls (limit_of (tw_limits w) ''maxToolCallsPerTurn'')
          (max 0 (limit_of (tw_limits w) ''maxToolCallsPerTask'' - so_far)) 0 cs)))"

definition calls_admitted :: "tool_world \<Rightarrow> int \<Rightarrow> tool_call list \<Rightarrow> nat" where
  "calls_admitted w so_far cs =
     length (filter (\<lambda>a. a = None) (admit_calls (limit_of (tw_limits w) ''maxToolCallsPerTurn'')
          (max 0 (limit_of (tw_limits w) ''maxToolCallsPerTask'' - so_far)) 0 cs))"

text \<open>\<open>earlier\<close> is how many records the task has numbered in earlier turns.\<close>

definition run_tools ::
  "tool_world \<Rightarrow> role \<Rightarrow> tool_task \<Rightarrow> string \<Rightarrow> int \<Rightarrow> nat \<Rightarrow> tool_call list \<Rightarrow> registry \<Rightarrow> turn_result \<times> nat \<times> registry" where
  "run_tools w r task thread so_far earlier cs reg =
     fold (collect_one w thread (tt_task task)) (call_outcomes w r task so_far cs)
       (\<lparr>tr_blocks = [], tr_evidence = [], tr_proposal = None, tr_report = None, tr_calls_run = calls_admitted w so_far cs,
         tr_ledger_full = False\<rparr>, earlier, reg)"

subsection \<open>What reaches the person has been checked\<close>

lemma zone_twice_distinct: "zone_twice seen zs = None \<Longrightarrow> distinct zs \<and> set zs \<inter> set seen = {}"
proof (induction zs arbitrary: seen)
  case (Cons z zs)
  then show ?case using Cons.IH[of "z # seen"] by (auto split: if_splits)
qed simp

text \<open>A plan that is well-formed, about known zones, without a figure in its words, and allowed command by command.\<close>

definition vetted :: "tool_world \<Rightarrow> proposed_plan \<Rightarrow> bool" where
  "vetted w p =
     (distinct (map pc_zone (pp_commands p)) \<and> list_all (\<lambda>c. pc_zone c \<in> dz_id ` set (tw_directory w)) (pp_commands p) \<and>
      verify_text (tw_unicode w) (cps (pp_summary p)) False = [] \<and>
      list_all (\<lambda>c. verify_text (tw_unicode w) (cps (pc_reason c)) False = []) (pp_commands p) \<and>
      (case tw_probe w of
         None \<Rightarrow> False
       | Some ask \<Rightarrow>
           (case dry_runs ask 0 (pp_commands p) of
              None \<Rightarrow> False
            | Some vs \<Rightarrow> length vs = length (pp_commands p) \<and> list_all (\<lambda>v. \<not> denied v) vs)))"

lemma dry_runs_length: "dry_runs ask i cs = Some vs \<Longrightarrow> length vs = length cs"
  by (induction cs arbitrary: i vs) (auto split: option.splits)

lemma plan_problem_None:
  assumes "plan_problem u directory task p = None"
  shows "distinct (map pc_zone (pp_commands p)) \<and> list_all (\<lambda>c. pc_zone c \<in> dz_id ` set directory) (pp_commands p) \<and>
    verify_text u (cps (pp_summary p)) False = [] \<and> list_all (\<lambda>c. verify_text u (cps (pc_reason c)) False = []) (pp_commands p)"
  using assms zone_twice_distinct[of "[]" "map pc_zone (pp_commands p)"]
  by (auto simp: plan_problem_def Let_def find_None_iff list_all_iff split: option.splits if_splits)

lemma propose_plan_vetted:
  assumes "propose_plan (tw_unicode w) (tw_directory w) task (tw_probe w) input = Inr p"
  shows "vetted w p"
proof -
  obtain ask vs where p: "plan_problem (tw_unicode w) (tw_directory w) task p = None" "tw_probe w = Some ask"
    "dry_runs ask 0 (pp_commands p) = Some vs" "filter (\<lambda>(c, v). denied v) (zip (pp_commands p) vs) = []"
    using assms by (auto simp: propose_plan_def Let_def simp del: filter_empty_conv split: option.splits if_splits)
  have n: "length vs = length (pp_commands p)" using p(3) by (rule dry_runs_length)
  have "\<not> denied v" if v: "v \<in> set vs" for v
  proof -
    obtain i where i: "i < length vs" "v = vs ! i" using v unfolding in_set_conv_nth by metis
    have "(pp_commands p ! i, v) \<in> set (zip (pp_commands p) vs)" using i n by (auto simp: in_set_zip)
    then show ?thesis using p(4) by (auto simp: filter_empty_conv)
  qed
  then show ?thesis using plan_problem_None[OF p(1)] p(2,3) n by (simp add: vetted_def list_all_iff)
qed

lemma execute_proposal:
  "execute_call w r task i c = OutProposal p \<Longrightarrow> r = Control \<and> tt_mode task = Some Propose \<and> vetted w p"
  by (auto simp: execute_call_def offered_tools_def role_tools_def intro: propose_plan_vetted
      split: if_splits sum.splits role.splits draft_result.splits)

lemma collect_proposal:
  "tr_proposal (fst (fold (collect_one w thread task) xs (t, n, r))) = Some p \<Longrightarrow>
   tr_proposal t = Some p \<or> (\<exists>c. (c, OutProposal p) \<in> set xs)"
proof (induction xs arbitrary: t n r)
  case (Cons x xs)
  obtain c y where x: "x = (c, y)" by (cases x)
  obtain t1 n1 r1 where one: "collect_one w thread task (c, y) (t, n, r) = (t1, n1, r1)" by (cases "collect_one w thread task (c, y) (t, n, r)") auto
  have "tr_proposal t1 = Some p \<or> (\<exists>c. (c, OutProposal p) \<in> set xs)"
    using Cons.IH[of t1 n1 r1] Cons.prems by (simp add: x one del: collect_one.simps)
  moreover have "tr_proposal t1 = tr_proposal t \<or> (\<exists>q. y = OutProposal q \<and> tr_proposal t1 = Some q)"
    using one by (auto split: tool_outcome.splits if_splits option.splits prod.splits)
  ultimately show ?case by (auto simp: x)
qed simp

lemma call_outcomes_proposal:
  "(c, OutProposal p) \<in> set (call_outcomes w r task so_far cs) \<Longrightarrow> \<exists>i. execute_call w r task i c = OutProposal p"
  by (auto simp: call_outcomes_def split: option.splits)

lemma run_tools_proposal:
  assumes "run_tools w r task thread so_far earlier cs reg = (t, n, reg')" "tr_proposal t = Some p"
  shows "r = Control \<and> tt_mode task = Some Propose \<and> vetted w p"
proof -
  have "tr_proposal (fst (fold (collect_one w thread (tt_task task)) (call_outcomes w r task so_far cs)
       (\<lparr>tr_blocks = [], tr_evidence = [], tr_proposal = None, tr_report = None, tr_calls_run = calls_admitted w so_far cs,
         tr_ledger_full = False\<rparr>, earlier, reg))) = Some p"
    using assms by (simp add: run_tools_def)
  from collect_proposal[OF this] obtain c where "(c, OutProposal p) \<in> set (call_outcomes w r task so_far cs)" by auto
  then show ?thesis using call_outcomes_proposal execute_proposal by blast
qed

text \<open>C37: A turn of tool calls hands over a plan only when the controller made it in its proposing mode, and then the plan
  names known zones, each once, its words pass the verifier, and every command's dry run was just allowed.\<close>
theorem proposal_vetted:
  assumes "run_tools w r task thread so_far earlier cs reg = (t, n, reg')" "tr_proposal t = Some p"
  shows "r = Control \<and> tt_mode task = Some Propose \<and> vetted w p"
  by (rule run_tools_proposal[OF assms])

subsection \<open>Every call is answered, every record has its own number\<close>

definition evidence_id :: "string \<Rightarrow> nat \<Rightarrow> string" where
  "evidence_id task n = task @ ''.E'' @ digits_of (n + 1)"

definition evidence_used :: "string \<Rightarrow> registry \<Rightarrow> int" where
  "evidence_used thread r = (case jget (rr_entries r) thread of Some e \<Rightarrow> rq_evidence e | None \<Rightarrow> 0)"

lemma claim_evidence_used:
  "claim_evidence thread r = (ok, r1) \<Longrightarrow> evidence_used thread r1 = evidence_used thread r + (if ok then 1 else 0)"
  by (auto simp: claim_evidence_def evidence_full_def evidence_used_def on_entry_def set_entry_def split: option.splits if_splits)

lemma next_evidence_cases:
  assumes "next_evidence thread task n r = (i, n1, r1)"
  shows "(i = None \<and> n1 = n \<and> evidence_used thread r1 = evidence_used thread r) \<or>
    (i = Some (evidence_id task n) \<and> n1 = n + 1 \<and> evidence_used thread r1 = evidence_used thread r + 1)"
  using assms claim_evidence_used[of thread r]
  by (auto simp: next_evidence_def evidence_id_def Let_def split: if_splits prod.splits bool.splits)

definition numbered :: "string \<Rightarrow> string \<Rightarrow> nat \<Rightarrow> registry \<Rightarrow> turn_result \<times> nat \<times> registry \<Rightarrow> bool" where
  "numbered thread task n0 r0 x =
     (case x of (t, n, r) \<Rightarrow>
        n0 \<le> n \<and> map ev_id (tr_evidence t) = map (evidence_id task) [n0 ..< n] \<and> list_all (\<lambda>e. ev_task e = task) (tr_evidence t) \<and>
        evidence_used thread r = evidence_used thread r0 + int (n - n0))"

lemma collect_one_numbered:
  assumes "numbered thread task n0 r0 (t, n, r)"
  shows "numbered thread task n0 r0 (collect_one w thread task (c, x) (t, n, r)) \<and>
    map fst (tr_blocks (fst (collect_one w thread task (c, x) (t, n, r)))) = map fst (tr_blocks t) @ [tc_id c]"
proof (cases x)
  case (OutEvidence d)
  obtain i n1 r1 where one: "next_evidence thread task n r = (i, n1, r1)" by (cases "next_evidence thread task n r") auto
  show ?thesis
    using next_evidence_cases[OF one] assms
    by (auto simp: OutEvidence one numbered_def seal_evidence_def Suc_diff_le)
qed (use assms in \<open>auto simp: numbered_def\<close>)

lemma collect_numbered:
  "numbered thread task n0 r0 (t, n, r) \<Longrightarrow>
   numbered thread task n0 r0 (fold (collect_one w thread task) xs (t, n, r)) \<and>
   map fst (tr_blocks (fst (fold (collect_one w thread task) xs (t, n, r)))) = map fst (tr_blocks t) @ map (tc_id \<circ> fst) xs"
proof (induction xs arbitrary: t n r)
  case (Cons x xs)
  obtain c y where x: "x = (c, y)" by (cases x)
  obtain t1 n1 r1 where one: "collect_one w thread task (c, y) (t, n, r) = (t1, n1, r1)" by (cases "collect_one w thread task (c, y) (t, n, r)") auto
  show ?case using collect_one_numbered[OF Cons.prems, of w c y] Cons.IH[of t1 n1 r1] by (simp add: x one del: collect_one.simps)
qed simp

lemma admit_length: "length (admit_calls per_turn budget i cs) = length cs"
  by (induction per_turn budget i cs rule: admit_calls.induct) auto

lemma call_outcomes_calls: "map fst (call_outcomes w r task so_far cs) = cs"
proof -
  have "map (\<lambda>(i, c, a). c) (enumerate 0 (zip cs as)) = cs" if "length as = length cs" for as :: "tool_error option list"
  proof -
    have "map (\<lambda>(i, c, a). c) (enumerate 0 (zip cs as)) = map fst (map snd (enumerate 0 (zip cs as)))"
      by (simp only: case_prod_unfold comp_def map_map)
    then show ?thesis using that by (simp del: map_map)
  qed
  from this[OF admit_length] show ?thesis by (simp add: call_outcomes_def comp_def case_prod_unfold)
qed

text \<open>A turn answers every tool call of the assistant's message, in order; its records are numbered one after the other
  from where the task left off, and each took a slot of the request's ledger.\<close>

theorem turn_answers_every_call:
  assumes "run_tools w r task thread so_far earlier cs reg = (t, n, reg')"
  shows "map fst (tr_blocks t) = map tc_id cs \<and> map ev_id (tr_evidence t) = map (evidence_id (tt_task task)) [earlier ..< n] \<and>
    evidence_used thread reg' = evidence_used thread reg + int (length (tr_evidence t))"
proof -
  let ?t = "\<lparr>tr_blocks = [], tr_evidence = [], tr_proposal = None, tr_report = None, tr_calls_run = calls_admitted w so_far cs, tr_ledger_full = False\<rparr>"
  have "numbered thread (tt_task task) earlier reg (?t, earlier, reg)" by (simp add: numbered_def)
  from collect_numbered[OF this, of w "call_outcomes w r task so_far cs"]
  have a: "numbered thread (tt_task task) earlier reg (t, n, reg')" and b: "map fst (tr_blocks t) = map tc_id (map fst (call_outcomes w r task so_far cs))"
    using assms by (simp_all add: run_tools_def comp_def)
  have "length (tr_evidence t) = n - earlier" 
  proof -
    have "length (map ev_id (tr_evidence t)) = length (map (evidence_id (tt_task task)) [earlier ..< n])" using a by (simp add: numbered_def del: length_map)
    then show ?thesis by simp
  qed
  then show ?thesis using a b by (simp add: numbered_def call_outcomes_calls)
qed

text \<open>A refused report is counted with the calls that ran, so it does take from what the task has left in later turns.\<close>

lemma report_is_counted:
  "tc_name c = ''report_finding'' \<Longrightarrow> 0 < limit_of (tw_limits w) ''maxToolCallsPerTurn'' \<Longrightarrow> calls_admitted w so_far [c] = 1"
  by (simp add: calls_admitted_def)

subsection \<open>A turn\<close>

lemma plain_words:
  assumes d: "list_all (\<lambda>c. \<not> uc_decimal ascii_classes c) t" and f: "list_all (\<lambda>c. \<not> uc_format ascii_classes c) t"
    and v: "list_all (\<lambda>c. list_all (\<lambda>k. uc_fold ascii_classes c \<noteq> uc_fold ascii_classes (of_char k)) ''vf'') t"
  shows "verify_text ascii_classes t False = []"
proof (rule plain_prose[OF f _ v])
  have "ends (number_rx ascii_classes) t i = []" for i by (simp add: number_rx_def digits_absent[OF d])
  moreover have "ends (money_first_rx ascii_classes) t i = []" for i
    unfolding money_first_rx_def by (rule seqs_dead[OF _ digits_absent[OF d]]) simp
  ultimately show "quantities_in ascii_classes t = []" by (rule no_quantities[rotated]) (rule f)
qed

definition lab :: string where "lab = ''0b5c1d2e-0000-4000-8000-0000000000aa''"

definition cool_world :: tool_world where
  "cool_world = \<lparr>tw_unicode = ascii_classes, tw_directory = [\<lparr>dz_id = lab, dz_name = ''Lab'', dz_designed = Some 24\<rparr>],
     tw_probe = Some (\<lambda>i c. Some (Allowed (pc_setpoint c) 3600 0)), tw_typed = (\<lambda>j. None), tw_interrupted = (\<lambda>i. None),
     tw_draft = (\<lambda>i n j. DraftRefused), tw_limits = default_limits, tw_dots = CHR ''~'', tw_now = []\<rparr>"

definition cool_call :: tool_call where
  "cool_call = \<lparr>tc_id = ''c1'', tc_name = ''propose_plan'', tc_input = JObject [(''summary'', JString ''cool it''),
     (''commands'', JArray [JObject [(''zoneId'', JString lab), (''setpointTempC'', JNumber 23), (''reason'', JString ''warm'')]])]\<rparr>"

definition cool_task :: tool_task where
  "cool_task = \<lparr>tt_task = ''K'', tt_inputs = [], tt_produced = [], tt_mode = Some Propose\<rparr>"

definition cool_plan :: proposed_plan where
  "cool_plan = \<lparr>pp_summary = ''cool it'', pp_commands = [\<lparr>pc_zone = lab, pc_setpoint = 23, pc_duration = None, pc_reason = ''warm''\<rparr>], pp_basis = None\<rparr>"

lemma cool_wording:
  "verify_text ascii_classes (cps ''cool it'') False = []" "verify_text ascii_classes (cps ''warm'') False = []"
  by (rule plain_words; code_simp)+

lemma cool_input: "plan_input (tc_input cool_call) = Some cool_plan"
proof -
  have "uuid_shape lab" by code_simp
  moreover have "js_trim ''cool it'' = ''cool it''" "js_trim ''warm'' = ''warm''" by code_simp+
  moreover have "limit_of default_limits ''maxPlanCommands'' = 12" by code_simp
  ultimately show ?thesis
    by (simp add: plan_input_def cool_call_def jfield_def json_required_def json_optional_def json_string_def json_number_def command_input_def
        parse_plan_def parse_command_def trimmed_text_def checked_def cool_plan_def)
qed

lemma cool_turn:
  "run_tools cool_world Control cool_task ''t'' 0 0 [cool_call] reg =
   (\<lparr>tr_blocks = [(''c1'', ResultPlan)], tr_evidence = [], tr_proposal = Some cool_plan, tr_report = None, tr_calls_run = 1, tr_ledger_full = False\<rparr>, 0, reg)"
proof -
  have "limit_of default_limits ''maxToolCallsPerTurn'' = 6" "limit_of default_limits ''maxToolCallsPerTask'' = 12" by code_simp+
  moreover have "plan_problem ascii_classes (tw_directory cool_world) cool_task cool_plan = None"
    by (simp add: plan_problem_def cool_plan_def cool_world_def cool_wording)
  then have "propose_plan ascii_classes (tw_directory cool_world) cool_task (tw_probe cool_world) (tc_input cool_call) = Inr cool_plan"
    by (simp add: propose_plan_def cool_input) (simp add: cool_world_def cool_plan_def denied_def)
  then have "execute_call cool_world Control cool_task 0 cool_call = OutProposal cool_plan"
    by (simp add: execute_call_def) (simp add: cool_call_def cool_task_def cool_world_def offered_tools_def role_tools_def)
  moreover have "tc_name cool_call = ''propose_plan''" "tc_id cool_call = ''c1''" "tw_limits cool_world = default_limits"
    by (simp_all add: cool_call_def cool_world_def)
  ultimately show ?thesis by (simp add: run_tools_def call_outcomes_def calls_admitted_def)
qed

theorem proposal_vetted_witness: "vetted cool_world cool_plan"
  using proposal_vetted[OF cool_turn[of "new_registry default_limits"]] by simp

theorem turn_answers_every_call_witness:
  "map fst (tr_blocks (fst (run_tools cool_world Control cool_task ''t'' 0 0 [cool_call] (new_registry default_limits)))) = [''c1'']"
  using turn_answers_every_call[OF cool_turn[of "new_registry default_limits"]] by (simp add: cool_turn)

end
