(* ===== verification/Copilot_Planner.thy ===== *)
theory Copilot_Planner
  imports Copilot_State
begin

section \<open>The planner (apps/web/lib/copilot/planner.ts)\<close>

text \<open>
  One decision: the schema it must meet, the rules the schema cannot say, the repair and the fallback. What the model
  answers, call by call, and what the registry answers are arguments. The shape of a timestamp is an argument too.
\<close>

subsection \<open>Decisions\<close>

datatype planner_intent =
    IntentDiagnose | IntentAnalyse | IntentWhatif | IntentControl | IntentCompound | IntentClarify | IntentOutOfScope

record planned_task =
  pt_specialist :: specialist_node
  pt_goal :: string
  pt_zones :: "string list"
  pt_from :: "string option"
  pt_to :: "string option"
  pt_inputs :: "string list"

record planned_control =
  pk_mode :: control_mode
  pk_brief :: string
  pk_inputs :: "string list"

record planner_decision =
  pd_intent :: planner_intent
  pd_interpretation :: string
  pd_control :: bool
  pd_simulation :: bool
  pd_next :: next_step
  pd_tasks :: "planned_task list"
  pd_control_task :: "planned_control option"
  pd_message :: "string option"

definition words_ok :: "nat \<Rightarrow> nat \<Rightarrow> string \<Rightarrow> bool" where
  "words_ok lo hi s = (lo \<le> length s \<and> length s \<le> hi)"

definition ids_ok :: "string list \<Rightarrow> bool" where
  "ids_ok ids = (length ids \<le> 6 \<and> list_all evidence_id_ok ids)"

definition planned_task_ok :: "(string \<Rightarrow> bool) \<Rightarrow> planned_task \<Rightarrow> bool" where
  "planned_task_ok instant t =
     (words_ok 3 600 (pt_goal t) \<and> length (pt_zones t) \<le> 24 \<and> list_all uuid_shape (pt_zones t) \<and>
      pred_option instant (pt_from t) \<and> pred_option instant (pt_to t) \<and> ids_ok (pt_inputs t))"

definition decision_ok :: "(string \<Rightarrow> bool) \<Rightarrow> planner_decision \<Rightarrow> bool" where
  "decision_ok instant d =
     (words_ok 0 400 (pd_interpretation d) \<and> length (pd_tasks d) \<le> 4 \<and> list_all (planned_task_ok instant) (pd_tasks d) \<and>
      pred_option (\<lambda>k. words_ok 3 600 (pk_brief k) \<and> ids_ok (pk_inputs k)) (pd_control_task d) \<and>
      pred_option (words_ok 0 600) (pd_message d))"

subsection \<open>Validation\<close>

definition available_specialists :: "orient_context \<Rightarrow> specialist_node list" where
  "available_specialists c = (if oc_sim_available c then [SDiagnose, SAnalyse, SSimulate] else [SDiagnose, SAnalyse])"

datatype plan_error =
    TaskCount nat
  | TasksNotDispatched next_step
  | TooManyTasks nat
  | SimulateNotOffered
  | SimulateNotAsked
  | TooManySimulations
  | TaskZone nat string
  | TaskEvidence nat string
  | ControlGivenBefore
  | ControlEvidence string
  | ControlTaskMissing
  | MessageMissing
  | MessageUnwanted
  | FinishUnwanted

definition simulate_tasks :: "copilot_state \<Rightarrow> nat" where
  "simulate_tasks s = length (filter (\<lambda>(i, t). ts_specialist t = SSimulate) (cs_tasks s))"

definition task_errors :: "orient_context option \<Rightarrow> evidence_map \<Rightarrow> nat \<times> planned_task \<Rightarrow> plan_error list" where
  "task_errors context evidence it =
     (let (i, t) = it; directory = (case context of Some c \<Rightarrow> map dz_id (oc_directory c) | None \<Rightarrow> []) in
      map (TaskZone i) (filter (\<lambda>z. z \<notin> set directory) (pt_zones t)) @
      map (TaskEvidence i) (filter (\<lambda>e. jget evidence e = None) (pt_inputs t)))"

definition talking :: "planner_decision \<Rightarrow> bool" where
  "talking d = (pd_next d = NextFinish \<and> pd_intent d \<in> {IntentClarify, IntentOutOfScope})"

definition drops_control :: "bool \<Rightarrow> planner_decision \<Rightarrow> copilot_state \<Rightarrow> bool" where
  "drops_control allow_control d s =
     (pd_control_task d \<noteq> None \<and>
      \<not> (allow_control \<and> (case cs_request s of Some q \<Rightarrow> rs_may_command q | None \<Rightarrow> False)))"

definition validate_plan :: "limits \<Rightarrow> bool \<Rightarrow> bool \<Rightarrow> planner_decision \<Rightarrow> copilot_state \<Rightarrow> plan_error list" where
  "validate_plan l allow_control allow_simulation d s =
     (let n = length (pd_tasks d); so_far = length (cs_tasks s);
          simulate = length (filter (\<lambda>t. pt_specialist t = SSimulate) (pd_tasks d));
          offered = (case cs_context s of Some c \<Rightarrow> available_specialists c | None \<Rightarrow> []) in
      (if pd_next d = NextDispatch then (if n < 1 \<or> int n > limit_of l ''maxTasksPerWave'' then [TaskCount n] else [])
       else if 0 < n then [TasksNotDispatched (pd_next d)] else []) @
      (if int (so_far + n) > limit_of l ''maxTasksPerRequest'' then [TooManyTasks so_far] else []) @
      (if 0 < simulate
       then (if SSimulate \<notin> set offered then [SimulateNotOffered] else if \<not> allow_simulation then [SimulateNotAsked] else []) @
            (if int (simulate_tasks s + simulate) > limit_of l ''maxSimulateTasksPerRequest'' then [TooManySimulations] else [])
       else []) @
      concat (map (task_errors (cs_context s) (cs_evidence s)) (enumerate 0 (pd_tasks d))) @
      (case pd_control_task d of
         None \<Rightarrow> []
       | Some k \<Rightarrow>
           if drops_control allow_control d s then []
           else if cs_control s \<noteq> None then [ControlGivenBefore]
           else map ControlEvidence (filter (\<lambda>e. jget (cs_evidence s) e = None) (pk_inputs k))) @
      (if pd_next d = NextControl \<and> pd_control_task d = None \<and> cs_control s = None then [ControlTaskMissing] else []) @
      (if talking d \<and> pd_message d = None then [MessageMissing] else []) @
      (if \<not> talking d \<and> pd_message d \<noteq> None then [MessageUnwanted] else []) @
      (if pd_next d = NextFinish \<and> \<not> talking d then [FinishUnwanted] else []))"

subsection \<open>The node\<close>

datatype 'a call_reply = CallRefused budget_reason | CallBroken | ModelDeclined | Unparsed | Parsed 'a

definition onward_next :: "copilot_state \<Rightarrow> next_step" where
  "onward_next s = (if cs_findings s \<noteq> [] then NextCompose else NextFinish)"

definition route_to :: "next_step \<Rightarrow> string list \<Rightarrow> string option \<Rightarrow> string option \<Rightarrow> copilot_state \<Rightarrow> copilot_state" where
  "route_to nxt ids interpretation msg s =
     s\<lparr>cs_route := Some \<lparr>pr_next = nxt, pr_tasks = ids, pr_interpretation = interpretation, pr_message = msg\<rparr>\<rparr>"

definition move_on :: "notice list \<Rightarrow> copilot_state \<Rightarrow> copilot_state" where
  "move_on ns s =
     say ns (route_to (onward_next s) [] (case cs_route s of Some p \<Rightarrow> pr_interpretation p | None \<Rightarrow> None) None s)"

definition fallback_controls :: "(bool \<times> bool) option \<Rightarrow> copilot_state \<Rightarrow> bool" where
  "fallback_controls first s =
     ((case cs_request s of Some q \<Rightarrow> rs_may_command q | None \<Rightarrow> False) \<and> cs_waves s = 0 \<and> cs_findings s = [] \<and> cs_control s = None \<and>
      (case cs_scope s of Some sc \<Rightarrow> sc_control sc | None \<Rightarrow> (case first of Some (c, m) \<Rightarrow> c | None \<Rightarrow> True)))"

definition planner_fallback :: "(bool \<times> bool) option \<Rightarrow> copilot_state \<Rightarrow> copilot_state" where
  "planner_fallback first s =
     (if fallback_controls first s
      then route_to NextControl [] None None
             ((write_scope \<lparr>sc_control = True, sc_simulation = False, sc_source = FromFallback\<rparr> s)
              \<lparr>cs_control := Some \<lparr>ct_mode = Propose, ct_brief = (case cs_request s of Some q \<Rightarrow> rs_text q | None \<Rightarrow> []), ct_inputs = [], ct_done = False\<rparr>\<rparr>)
      else move_on [Notice PlannerUnavailable []] s)"

definition task_id :: "nat \<Rightarrow> string" where
  "task_id n = ''T'' @ digits_of n"

definition new_tasks :: "copilot_state \<Rightarrow> planned_task list \<Rightarrow> (string, task_spec) jsmap" where
  "new_tasks s ts =
     map (\<lambda>(i, t). (task_id (cs_task_seq s + i + 1),
        \<lparr>ts_id = task_id (cs_task_seq s + i + 1), ts_specialist = pt_specialist t, ts_goal = pt_goal t, ts_zones = pt_zones t,
         ts_from = pt_from t, ts_to = pt_to t, ts_inputs = pt_inputs t, ts_wave = cs_waves s + 1, ts_done = False\<rparr>))
       (enumerate 0 ts)"

definition accept_decision :: "unicode \<Rightarrow> planner_decision \<Rightarrow> bool \<Rightarrow> (bool \<times> bool) option \<Rightarrow> copilot_state \<Rightarrow> copilot_state" where
  "accept_decision u d drop_control first s =
     (let nxt = (if drop_control \<and> pd_next d = NextControl \<and> cs_control s = None then onward_next s else pd_next d);
          unfit = (case pd_message d of Some m \<Rightarrow> verify_text u (cps m) False \<noteq> [] | None \<Rightarrow> False);
          msg = (if unfit then None else pd_message d);
          ts = (if nxt = NextDispatch then new_tasks s (pd_tasks d) else []);
          s1 = (case first of
                  Some (c, m) \<Rightarrow> (if cs_scope s = None
                    then write_scope \<lparr>sc_control = c, sc_simulation = m, sc_source = FromPlanner\<rparr> s else s)
                | None \<Rightarrow> s);
          s2 = (case pd_control_task d of
                  Some k \<Rightarrow> (if drop_control then s1
                    else s1\<lparr>cs_control := Some \<lparr>ct_mode = pk_mode k, ct_brief = pk_brief k, ct_inputs = pk_inputs k, ct_done = False\<rparr>\<rparr>)
                | None \<Rightarrow> s1);
          s3 = (if nxt = NextDispatch
                then s2\<lparr>cs_tasks := merge_record (cs_tasks s) (Some ts), cs_waves := cs_waves s + 1,
                        cs_task_seq := cs_task_seq s + length (pd_tasks d)\<rparr>
                else s2)
      in say ((if drop_control then [Notice ControlNotPermitted []] else []) @ (if unfit then [Notice MessageUnverified []] else []))
           (route_to nxt (map fst ts) (if js_trim (pd_interpretation d) = [] then None else Some (pd_interpretation d)) msg s3))"

text \<open>The attempts, at most one more than the repairs allowed. A reply that does not meet the schema, or breaks a rule, is
  repaired; \<open>first\<close> remembers the authority of the first decision that met the schema.\<close>

primrec planner_attempts ::
  "unicode \<Rightarrow> (string \<Rightarrow> bool) \<Rightarrow> limits \<Rightarrow> (nat \<Rightarrow> planner_decision call_reply) \<Rightarrow> copilot_state \<Rightarrow> nat \<Rightarrow> nat
     \<Rightarrow> (bool \<times> bool) option \<Rightarrow> copilot_state" where
  "planner_attempts u instant l replies s 0 attempt first = planner_fallback first s"
| "planner_attempts u instant l replies s (Suc remaining) attempt first =
     (case replies attempt of
        CallRefused why \<Rightarrow> move_on [budget_notice why l] s
      | CallBroken \<Rightarrow> planner_fallback first s
      | ModelDeclined \<Rightarrow> say [Notice ModelRefused []] (route_to NextFinish [] None None s)
      | Unparsed \<Rightarrow> planner_attempts u instant l replies s remaining (attempt + 1) first
      | Parsed d \<Rightarrow>
          if \<not> decision_ok instant d then planner_attempts u instant l replies s remaining (attempt + 1) first
          else (let first1 = (if cs_scope s = None \<and> first = None then Some (pd_control d, pd_simulation d) else first);
                    (c, m) = (case cs_scope s of Some sc \<Rightarrow> (sc_control sc, sc_simulation sc)
                              | None \<Rightarrow> (case first1 of Some f \<Rightarrow> f | None \<Rightarrow> (False, False)))
                in if validate_plan l c m d s \<noteq> []
                   then planner_attempts u instant l replies s remaining (attempt + 1) first1
                   else accept_decision u d (drops_control c d s) first1 s))"

definition planner_node ::
  "unicode \<Rightarrow> (string \<Rightarrow> bool) \<Rightarrow> limits \<Rightarrow> budget_reason option \<Rightarrow> (nat \<Rightarrow> planner_decision call_reply) \<Rightarrow> copilot_state \<Rightarrow> copilot_state" where
  "planner_node u instant l refused replies s =
     (if cs_context s = None \<or> cs_request s = None then move_on [] s
      else if limit_of l ''maxWaves'' \<le> cs_waves s then move_on [Notice WaveLimit [(''waves'', JNumber (of_int (cs_waves s)))]] s
      else case refused of
             Some why \<Rightarrow> move_on [budget_notice why l] s
           | None \<Rightarrow> planner_attempts u instant l replies s (nat (limit_of l ''maxPlannerRepairs'' + 1)) 0 None)"

end
