(* ===== verification/Copilot_Plan.thy ===== *)
theory Copilot_Plan
  imports Copilot_Tools Copilot_Planner
begin

section \<open>Compose and verify (apps/web/lib/copilot/compose.ts)\<close>

text \<open>
  The nodes that write and check an answer, and the one door to the building: \<open>plan_check\<close>, \<open>confirm\<close>, \<open>apply\<close>. The size of
  a record as JSON, the model's reply, the envelope's answers, the person's decision, the control service's answers and
  every reading of the clock are arguments; what the registry answers (Stop, the deadline) is one too, its own theory
  says what it may be. Setpoints are exact rationals.
\<close>

definition cited_by_findings :: "copilot_state \<Rightarrow> string list" where
  "cited_by_findings s = concat (map (\<lambda>(t, f). concat (map snd (fd_claims f))) (cs_findings s))"

definition evidence_rank :: "copilot_state \<Rightarrow> evidence \<Rightarrow> nat" where
  "evidence_rank s e = (if ev_id e \<in> set (cited_by_findings s) then 0 else if ev_task e = ''C'' then 1 else 2)"

fun keep_within :: "(evidence \<Rightarrow> int) \<Rightarrow> int \<Rightarrow> int \<Rightarrow> evidence list \<Rightarrow> string list" where
  "keep_within bytes_of most bytes [] = []"
| "keep_within bytes_of most bytes (e # es) =
     (if bytes + bytes_of e \<le> most then ev_id e # keep_within bytes_of most (bytes + bytes_of e) es else keep_within bytes_of most bytes es)"

text \<open>The records with whether their data is sent, and the ids whose data is not.\<close>

definition compose_evidence :: "(evidence \<Rightarrow> int) \<Rightarrow> int \<Rightarrow> copilot_state \<Rightarrow> (evidence \<times> bool) list \<times> string list" where
  "compose_evidence bytes_of most s =
     (let all = map snd (cs_evidence s); keep = keep_within bytes_of most 0 (sort_key (evidence_rank s) all) in
      (map (\<lambda>e. (e, ev_id e \<in> set keep)) all, map ev_id (filter (\<lambda>e. ev_id e \<notin> set keep) all)))"

definition said_refused :: "copilot_state \<Rightarrow> notice list" where
  "said_refused s =
     (if list_ex (\<lambda>(t, f). fd_status f = FindingRefused) (cs_findings s) \<and> ModelRefused \<notin> code_of_notice ` set (cs_notices s)
      then [Notice ModelRefused []] else [])"

definition reason_notice :: "budget_reason \<Rightarrow> notice_code" where
  "reason_notice why = (case why of Budget \<Rightarrow> BudgetNotice | Deadline \<Rightarrow> DeadlineNotice | Stopped \<Rightarrow> StoppedNotice)"

definition compose_unavailable :: "notice list \<Rightarrow> copilot_state \<Rightarrow> copilot_state" where
  "compose_unavailable ns s =
     say (said_refused s @ ns @ [Notice ComposeUnavailable []]) (s\<lparr>cs_answer := None, cs_drafts := cs_drafts s + 1\<rparr>)"

definition compose_node :: "limits \<Rightarrow> answer_doc call_reply \<Rightarrow> copilot_state \<Rightarrow> copilot_state" where
  "compose_node l reply s =
     (if limit_of l ''maxDrafts'' \<le> cs_drafts s then say (said_refused s) s
      else case reply of
             CallRefused why \<Rightarrow>
               compose_unavailable (if reason_notice why \<in> code_of_notice ` set (cs_notices s) then [] else [budget_notice why l]) s
           | Parsed a \<Rightarrow> say (said_refused s) (s\<lparr>cs_answer := Some a, cs_drafts := cs_drafts s + 1\<rparr>)
           | _ \<Rightarrow> compose_unavailable [] s)"

definition finding_caveat_violations :: "copilot_state \<Rightarrow> violation list" where
  "finding_caveat_violations s =
     (case (cs_answer s, cs_control s) of
        (Some a, Some t) \<Rightarrow>
          if ct_mode t = Check \<and> jget (cs_findings s) ''K'' \<noteq> None \<and> check_mode_caveat \<notin> set (an_caveats a)
          then [(None, RCaveatRequired)] else []
      | _ \<Rightarrow> [])"

definition bounds_of :: "limits \<Rightarrow> answer_bounds" where
  "bounds_of l = \<lparr>ab_paragraphs = nat (limit_of l ''maxAnswerParagraphs''), ab_segments = nat (limit_of l ''maxAnswerSegments''),
     ab_text_chars = nat (limit_of l ''maxAnswerTextChars'')\<rparr>"

definition verify_node :: "unicode \<Rightarrow> limits \<Rightarrow> copilot_state \<Rightarrow> copilot_state" where
  "verify_node u l s =
     (case cs_answer s of
        None \<Rightarrow> s\<lparr>cs_violations := []\<rparr>
      | Some a \<Rightarrow>
          (let vs = verify_answer u a (cs_evidence s) False (bounds_of l) @ finding_caveat_violations s
           in say (if vs \<noteq> [] \<and> limit_of l ''maxDrafts'' \<le> cs_drafts s then [Notice VerifyFailed []] else []) (s\<lparr>cs_violations := vs\<rparr>)))"

section \<open>The last look (apps/web/lib/copilot/plan-check.ts)\<close>

definition zone_in :: "copilot_state \<Rightarrow> string \<Rightarrow> directory_zone option" where
  "zone_in s i = (case cs_context s of None \<Rightarrow> None | Some c \<Rightarrow> map_of (rev (map (\<lambda>z. (dz_id z, z)) (oc_directory c))) i)"

definition refuse_plan :: "string \<Rightarrow> string \<Rightarrow> copilot_state \<Rightarrow> copilot_state" where
  "refuse_plan zone msg s = say [Notice PlanRefused [(''zone'', JString zone), (''message'', JString msg)]] (s\<lparr>cs_plan := None\<rparr>)"

text \<open>The first command about no known zone, or about a zone named before.\<close>

fun zone_problem :: "copilot_state \<Rightarrow> string list \<Rightarrow> proposed_command list \<Rightarrow> (string \<times> string) option" where
  "zone_problem s seen [] = None"
| "zone_problem s seen (c # cs) =
     (case zone_in s (pc_zone c) of
        None \<Rightarrow> Some (''the plan'', ''it names a zone that is not in the directory'')
      | Some z \<Rightarrow>
          if pc_zone c \<in> set seen then Some (dz_name z, ''the zone appears twice'') else zone_problem s (pc_zone c # seen) cs)"

datatype review = Unreachable | RefusedBy string string | Reviewed "reviewed_command list"

text \<open>Each command dry-run again, in order; a duration left open is pinned to the one the envelope resolved.\<close>

fun review_commands :: "(nat \<Rightarrow> proposed_command \<Rightarrow> verdict option) \<Rightarrow> copilot_state \<Rightarrow> nat \<Rightarrow> proposed_command list \<Rightarrow> review" where
  "review_commands probe s i [] = Reviewed []"
| "review_commands probe s i (c # cs) =
     (let name = (case zone_in s (pc_zone c) of Some z \<Rightarrow> dz_name z | None \<Rightarrow> []) in
      case probe i c of
        None \<Rightarrow> Unreachable
      | Some (Denied why msg) \<Rightarrow> RefusedBy name msg
      | Some (Allowed previous duration until) \<Rightarrow>
          (case review_commands probe s (i + 1) cs of
             Reviewed rs \<Rightarrow>
               Reviewed (\<lparr>rc_zone = pc_zone c, rc_zone_name = name, rc_setpoint = pc_setpoint c,
                 rc_duration = (case pc_duration c of Some d \<Rightarrow> d | None \<Rightarrow> duration), rc_reason = pc_reason c,
                 rc_verdict = Allowed previous duration until\<rparr> # rs)
           | x \<Rightarrow> x))"

text \<open>A reviewed command as it is kept, hashed and granted; its verdict is not part of what is sent.\<close>

definition reviewed_json :: "reviewed_command \<Rightarrow> json" where
  "reviewed_json c =
     JObject [(''zoneId'', JString (rc_zone c)), (''setpointTempC'', JNumber (rc_setpoint c)), (''reason'', JString (rc_reason c)),
       (''durationS'', JNumber (of_int (rc_duration c))), (''zoneName'', JString (rc_zone_name c))]"

fun strings_of :: "json list \<Rightarrow> string list option" where
  "strings_of js = all_some (map json_string js)"

definition scenario_input :: "json \<Rightarrow> (string \<times> rat) option" where
  "scenario_input j =
     (case (json_required json_string j ''name'', json_required json_number j ''setpoint_delta_k'') of
        (Some n, Some d) \<Rightarrow> Some (n, d) | _ \<Rightarrow> None)"

definition simulated_scenarios :: "json \<Rightarrow> (string list \<times> (string \<times> rat) list) option" where
  "simulated_scenarios j =
     (case (jfield j ''zone_ids'', jfield j ''scenarios'') of
        (Some (JArray zs), Some (JArray ss)) \<Rightarrow>
          (case (strings_of zs, all_some (map scenario_input ss)) of (Some ids, Some scs) \<Rightarrow> Some (ids, scs) | _ \<Rightarrow> None)
      | _ \<Rightarrow> None)"

definition setpoint_tolerance_k :: rat where "setpoint_tolerance_k = 1 / 20"

definition simulation_match_of :: "string \<times> string \<Rightarrow> (string \<times> rat) list \<Rightarrow> copilot_state \<Rightarrow> simulation_match option" where
  "simulation_match_of basis commands s =
     (case basis of (ev, name) \<Rightarrow>
        (case jget (cs_evidence s) ev of
           None \<Rightarrow> None
         | Some r \<Rightarrow>
             if ev_kind r \<noteq> Simulated \<or> ev_tool r \<noteq> ''simulate_scenarios'' then None
             else case simulated_scenarios (ev_data r) of
                    None \<Rightarrow> None
                  | Some (ids, scs) \<Rightarrow>
                      (case find (\<lambda>(n, d). n = name) scs of
                         None \<Rightarrow> None
                       | Some (n, delta) \<Rightarrow>
                           Some \<lparr>sm_evidence = ev, sm_scenario = name, sm_zones = list_all (\<lambda>(z, t). z \<in> set ids) commands,
                             sm_setpoints = list_all (\<lambda>(z, t). case Option.bind (zone_in s z) dz_designed of
                                None \<Rightarrow> False | Some d \<Rightarrow> \<bar>t - (d + delta)\<bar> \<le> setpoint_tolerance_k) commands\<rparr>)))"

record check_env =
  ce_unicode :: unicode
  ce_limits :: limits
  ce_digest :: digest
  ce_before :: "budget_reason option"
  ce_after :: "budget_reason option"
  ce_probe :: "nat \<Rightarrow> proposed_command \<Rightarrow> verdict option"
  ce_now :: ms
  ce_id :: string

definition reviewed_plan_of :: "check_env \<Rightarrow> proposed_plan \<Rightarrow> reviewed_command list \<Rightarrow> copilot_state \<Rightarrow> reviewed_plan" where
  "reviewed_plan_of e p rs s =
     \<lparr>rp_id = ce_id e, rp_hash = hash_commands (ce_digest e) (map reviewed_json rs), rp_checked = ce_now e,
      rp_expires = ce_now e + limit_of (ce_limits e) ''planTtlS'' * 1000, rp_summary = pp_summary p, rp_commands = rs,
      rp_simulation = (case pp_basis p of None \<Rightarrow> None
        | Some b \<Rightarrow> simulation_match_of b (map (\<lambda>c. (rc_zone c, rc_setpoint c)) rs) s)\<rparr>"

definition wording_problem :: "unicode \<Rightarrow> copilot_state \<Rightarrow> proposed_plan \<Rightarrow> (string \<times> string) option" where
  "wording_problem u s p =
     (if verify_text u (cps (pp_summary p)) False \<noteq> []
      then Some (''the plan'', ''its summary states a figure or a word the copilot may not use'')
      else case find (\<lambda>c. verify_text u (cps (pc_reason c)) False \<noteq> []) (pp_commands p) of
             Some c \<Rightarrow> Some (case zone_in s (pc_zone c) of Some z \<Rightarrow> dz_name z | None \<Rightarrow> [],
               ''its reason states a figure or a word the copilot may not use'')
           | None \<Rightarrow> None)"

definition plan_check_node :: "check_env \<Rightarrow> copilot_state \<Rightarrow> copilot_state" where
  "plan_check_node e s =
     (case ce_before e of
        Some why \<Rightarrow> say [budget_notice why (ce_limits e)] (s\<lparr>cs_plan := None\<rparr>)
      | None \<Rightarrow>
          if \<not> may_control s then say [Notice ControlNotPermitted []] (s\<lparr>cs_plan := None\<rparr>)
          else case Option.bind (cs_proposal s) parse_plan of
                 None \<Rightarrow> refuse_plan ''the plan'' ''it is not a well-formed plan'' s
               | Some p \<Rightarrow>
                   if limit_of (ce_limits e) ''maxPlanCommands'' < int (length (pp_commands p))
                   then refuse_plan ''the plan'' (''it has more than '' @ digits_of (nat (limit_of (ce_limits e) ''maxPlanCommands'')) @ '' commands'') s
                   else case zone_problem s [] (pp_commands p) of
                          Some (z, m) \<Rightarrow> refuse_plan z m s
                        | None \<Rightarrow>
                            (case wording_problem (ce_unicode e) s p of
                               Some (z, m) \<Rightarrow> refuse_plan z m s
                             | None \<Rightarrow>
                                 (case review_commands (ce_probe e) s 0 (pp_commands p) of
                                    Unreachable \<Rightarrow> say [Notice ControlUnavailable []] (s\<lparr>cs_plan := None\<rparr>)
                                  | RefusedBy z m \<Rightarrow> refuse_plan z m s
                                  | Reviewed rs \<Rightarrow>
                                      (case ce_after e of
                                         Some why \<Rightarrow> say [budget_notice why (ce_limits e)] (s\<lparr>cs_plan := None\<rparr>)
                                       | None \<Rightarrow> s\<lparr>cs_plan := Some (reviewed_plan_of e p rs s)\<rparr>))))"

section \<open>The person (apps/web/lib/copilot/confirm.ts)\<close>

record resume_value =
  rv_approved :: bool
  rv_plan :: string
  rv_hash :: string

definition resume_of :: "json \<Rightarrow> resume_value option" where
  "resume_of j =
     (if \<not> strict_object [''decision'', ''planId'', ''planHash''] j then None
      else case (jfield j ''decision'', json_required uuid_of j ''planId'', checked hash_shape (json_required json_string j ''planHash'')) of
             (Some (JString d), Some i, Some h) \<Rightarrow>
               if d = ''approved'' then Some \<lparr>rv_approved = True, rv_plan = i, rv_hash = h\<rparr>
               else if d = ''declined'' then Some \<lparr>rv_approved = False, rv_plan = i, rv_hash = h\<rparr> else None
           | _ \<Rightarrow> None)"

definition grantable_of :: "reviewed_plan \<Rightarrow> grantable" where
  "grantable_of p = \<lparr>pl_id = JString (rp_id p), pl_hash = JString (rp_hash p), pl_commands = JArray (map reviewed_json (rp_commands p))\<rparr>"

definition plan_named :: "digest \<Rightarrow> resume_value \<Rightarrow> reviewed_plan \<Rightarrow> bool" where
  "plan_named d v p =
     (rv_plan v = rp_id p \<and> rv_hash v = rp_hash p \<and> hash_commands d (map reviewed_json (rp_commands p)) = rp_hash p)"

text \<open>What follows the interrupt, with the value the person's decision resumed it with. The clock is read when the expiry is
  checked and twice by the ledger.\<close>

definition confirm_node ::
  "digest \<Rightarrow> ms \<Rightarrow> ms \<Rightarrow> ms \<Rightarrow> string \<Rightarrow> json \<Rightarrow> copilot_state \<Rightarrow> ledger \<Rightarrow> copilot_state \<times> ledger" where
  "confirm_node d now swept stamp thread resume s l =
     (case (cs_plan s, resume_of resume) of
        (Some p, Some v) \<Rightarrow>
          if \<not> plan_named d v p then (s\<lparr>cs_decision := Some StalePlan\<rparr>, l)
          else if rp_expires p \<le> now then (s\<lparr>cs_decision := Some ExpiredPlan\<rparr>, l)
          else if rv_approved v
               then (case grant_plan d swept stamp thread (grantable_of p) l of
                       (True, l1) \<Rightarrow> (s\<lparr>cs_decision := Some Approved\<rparr>, l1)
                     | (False, l1) \<Rightarrow> (s\<lparr>cs_decision := Some StalePlan\<rparr>, l1))
               else (s\<lparr>cs_decision := Some DeclinedPlan\<rparr>, l)
      | _ \<Rightarrow> (s\<lparr>cs_decision := Some StalePlan\<rparr>, l))"

section \<open>The one write to the building (apps/web/lib/copilot/apply.ts)\<close>

record issue_request =
  ir_zone :: string
  ir_setpoint :: rat
  ir_duration :: "int option"
  ir_reason :: string

definition request_of :: "granted_command \<Rightarrow> issue_request" where
  "request_of c = \<lparr>ir_zone = gc_zone c, ir_setpoint = gc_setpoint c, ir_duration = gc_duration c,
     ir_reason = ''copilot (operator-approved): '' @ gc_reason c\<rparr>"

definition stopped_result :: issue_result where
  "stopped_result = NotIssued ''stopped'' ''not issued: stopped by the operator''"

text \<open>The commands one after the other, each after asking whether the operator has stopped; what is issued is listed.\<close>

fun apply_commands ::
  "(nat \<Rightarrow> bool) \<Rightarrow> (nat \<Rightarrow> issue_request \<Rightarrow> issue_result option) \<Rightarrow> nat \<Rightarrow> bool \<Rightarrow> granted_command list
     \<Rightarrow> outcome list \<times> issue_request list \<times> bool" where
  "apply_commands stopped issue i stopping [] = ([], [], stopping)"
| "apply_commands stopped issue i stopping (c # cs) =
     (let h = stopping \<or> stopped i;
          r = (if h then stopped_result
               else case issue i (request_of c) of Some r \<Rightarrow> r | None \<Rightarrow> NotIssued ''transport'' ''control service unreachable'');
          (os, sent, h') = apply_commands stopped issue (i + 1) h cs
      in (\<lparr>ou_zone_name = gc_zone_name c, ou_setpoint = gc_setpoint c, ou_result = r\<rparr> # os, (if h then [] else [request_of c]) @ sent, h'))"

definition apply_node ::
  "ms \<Rightarrow> string \<Rightarrow> (nat \<Rightarrow> bool) \<Rightarrow> (nat \<Rightarrow> issue_request \<Rightarrow> issue_result option) \<Rightarrow> copilot_state \<Rightarrow> ledger
     \<Rightarrow> copilot_state \<times> ledger \<times> issue_request list" where
  "apply_node now thread stopped issue s l =
     (let (g, l1) = take_grant now thread l; cleared = s\<lparr>cs_plan := None, cs_decision := None\<rparr> in
      case g of
        Some x \<Rightarrow>
          if map_option rp_id (cs_plan s) = Some (gt_plan x)
          then (let (os, sent, stopping) = apply_commands stopped issue 0 False (gt_commands x)
                in (say (if stopping then [Notice StoppedNotice []] else []) (cleared\<lparr>cs_outcomes := os\<rparr>), l1, sent))
          else (say [Notice ApplyRefused []] cleared, l1, [])
      | None \<Rightarrow> (say [Notice ApplyRefused []] cleared, l1, []))"

subsection \<open>What a person is asked to approve\<close>

lemma zone_problem_None:
  "zone_problem s seen cs = None \<Longrightarrow> distinct (map pc_zone cs) \<and> pc_zone ` set cs \<inter> set seen = {} \<and> (\<forall>c \<in> set cs. zone_in s (pc_zone c) \<noteq> None)"
proof (induction cs arbitrary: seen)
  case (Cons c cs)
  then show ?case using Cons.IH[of "pc_zone c # seen"] by (auto split: option.splits if_splits)
qed simp

text \<open>How a reviewed command relates to the proposed one: the same zone, setpoint and reason, under the zone's own name, with a
  duration that is the proposed one or else the one the envelope resolved, and just allowed.\<close>

definition reviews :: "copilot_state \<Rightarrow> proposed_command \<Rightarrow> reviewed_command \<Rightarrow> bool" where
  "reviews s c r =
     (rc_zone r = pc_zone c \<and> rc_setpoint r = pc_setpoint c \<and> rc_reason r = pc_reason c \<and> \<not> denied (rc_verdict r) \<and>
      map_option dz_name (zone_in s (rc_zone r)) = Some (rc_zone_name r) \<and>
      rc_duration r = (case pc_duration c of Some d \<Rightarrow> d | None \<Rightarrow> (case rc_verdict r of Allowed _ d _ \<Rightarrow> d | Denied _ _ \<Rightarrow> 0)))"

lemma review_commands_reviews:
  "review_commands probe s i cs = Reviewed rs \<Longrightarrow> \<forall>c \<in> set cs. zone_in s (pc_zone c) \<noteq> None \<Longrightarrow> list_all2 (reviews s) cs rs"
proof (induction cs arbitrary: i rs)
  case (Cons c cs)
  obtain z where z: "zone_in s (pc_zone c) = Some z" using Cons.prems(2) by auto
  obtain a d x rs1 where v: "probe i c = Some (Allowed a d x)" "review_commands probe s (i + 1) cs = Reviewed rs1"
      "rs = \<lparr>rc_zone = pc_zone c, rc_zone_name = dz_name z, rc_setpoint = pc_setpoint c,
        rc_duration = (case pc_duration c of Some d \<Rightarrow> d | None \<Rightarrow> d), rc_reason = pc_reason c, rc_verdict = Allowed a d x\<rparr> # rs1"
    using Cons.prems(1) by (auto simp: Let_def z split: option.splits verdict.splits review.splits)
  have "reviews s c (hd rs)" by (simp add: v(3) reviews_def denied_def z split: option.split)
  moreover have "list_all2 (reviews s) cs rs1" using v(2) Cons.IH Cons.prems(2) by simp
  ultimately show ?case by (simp add: v(3))
qed simp

text \<open>And where its verdict comes from: the answer to the dry run of that very command.\<close>

lemma review_commands_probed:
  "review_commands probe s k cs = Reviewed rs \<Longrightarrow> i < length cs \<Longrightarrow> probe (k + i) (cs ! i) = Some (rc_verdict (rs ! i))"
proof (induction cs arbitrary: i k rs)
  case (Cons c cs)
  obtain a d x rs1 where v: "probe k c = Some (Allowed a d x)" "review_commands probe s (k + 1) cs = Reviewed rs1"
      "rs = \<lparr>rc_zone = pc_zone c, rc_zone_name = (case zone_in s (pc_zone c) of Some z \<Rightarrow> dz_name z | None \<Rightarrow> []), rc_setpoint = pc_setpoint c,
        rc_duration = (case pc_duration c of Some d \<Rightarrow> d | None \<Rightarrow> d), rc_reason = pc_reason c, rc_verdict = Allowed a d x\<rparr> # rs1"
    using Cons.prems(1) by (auto simp: Let_def split: option.splits verdict.splits review.splits)
  then show ?case using Cons.IH[OF v(2)] Cons.prems(2) by (cases i) simp_all
qed simp

lemma wording_problem_None:
  "wording_problem u s p = None \<Longrightarrow>
   verify_text u (cps (pp_summary p)) False = [] \<and> (\<forall>c \<in> set (pp_commands p). verify_text u (cps (pc_reason c)) False = [])"
  by (auto simp: wording_problem_def find_None_iff split: if_splits option.splits)

definition sound_plan :: "check_env \<Rightarrow> copilot_state \<Rightarrow> reviewed_plan \<Rightarrow> bool" where
  "sound_plan e s p =
     (may_control s \<and> rp_hash p = hash_commands (ce_digest e) (map reviewed_json (rp_commands p)) \<and>
      rp_expires p = rp_checked p + limit_of (ce_limits e) ''planTtlS'' * 1000 \<and>
      rp_commands p \<noteq> [] \<and> int (length (rp_commands p)) \<le> limit_of (ce_limits e) ''maxPlanCommands'' \<and>
      distinct (map rc_zone (rp_commands p)) \<and> verify_text (ce_unicode e) (cps (rp_summary p)) False = [] \<and>
      list_all (\<lambda>c. \<not> denied (rc_verdict c) \<and> verify_text (ce_unicode e) (cps (rc_reason c)) False = [] \<and>
        map_option dz_name (zone_in s (rc_zone c)) = Some (rc_zone_name c)) (rp_commands p))"

lemma parse_plan_nonempty: "parse_plan q = Some p \<Longrightarrow> pp_commands p \<noteq> []"
  by (auto simp: parse_plan_def split: option.splits if_splits)

text \<open>C10: A plan that \<open>plan_check\<close> shows was read from this request's proposal, command by command: each of its commands has the
  zone, setpoint and reason of the proposed one, the zone's own name, the duration proposed or else the envelope's, and as its verdict
  the answer this step's dry run of that command gave, which allows it. The plan belongs to a request that may control, carries its own
  hash and its expiry, has at most the allowed commands about distinct zones of the directory, worded within the verifier's rules; and
  the request was neither stopped nor past its deadline before or after the dry runs.\<close>
theorem plan_check_sound:
  assumes "cs_plan (plan_check_node e s) = Some p"
  shows "sound_plan e s p \<and> ce_before e = None \<and> ce_after e = None \<and>
    (\<exists>q. Option.bind (cs_proposal s) parse_plan = Some q \<and> length (rp_commands p) = length (pp_commands q) \<and>
      (\<forall>i < length (pp_commands q). reviews s (pp_commands q ! i) (rp_commands p ! i) \<and>
        ce_probe e i (pp_commands q ! i) = Some (rc_verdict (rp_commands p ! i))))"
proof -
  obtain q rs where q: "ce_before e = None" "may_control s" "Option.bind (cs_proposal s) parse_plan = Some q"
      "int (length (pp_commands q)) \<le> limit_of (ce_limits e) ''maxPlanCommands''" "zone_problem s [] (pp_commands q) = None"
      "wording_problem (ce_unicode e) s q = None" "review_commands (ce_probe e) s 0 (pp_commands q) = Reviewed rs" "ce_after e = None"
      "p = reviewed_plan_of e q rs s"
    using assms by (auto simp: plan_check_node_def refuse_plan_def say_def split: option.splits if_splits review.splits)
  note z = zone_problem_None[OF q(5)]
  have r: "list_all2 (reviews s) (pp_commands q) rs" using review_commands_reviews[OF q(7)] z by blast
  have zones: "map rc_zone rs = map pc_zone (pp_commands q)"
    using r by (induction rule: list_all2_induct) (auto simp: reviews_def)
  have each: "\<exists>c \<in> set (pp_commands q). reviews s c x" if "x \<in> set rs" for x
    using r that by (induction rule: list_all2_induct) auto
  have each: "\<not> denied (rc_verdict x) \<and> verify_text (ce_unicode e) (cps (rc_reason x)) False = [] \<and>
      map_option dz_name (zone_in s (rc_zone x)) = Some (rc_zone_name x)" if "x \<in> set rs" for x
    using each[OF that] wording_problem_None[OF q(6)] by (fastforce simp: reviews_def)
  have "pp_commands q \<noteq> []" using q(3) parse_plan_nonempty by (auto simp: bind_eq_Some_conv)
  then have "rs \<noteq> []" using r by auto
  then have "sound_plan e s p"
    using q(1,2,4,8) z wording_problem_None[OF q(6)] each list_all2_lengthD[OF r]
    by (simp add: sound_plan_def q(9) reviewed_plan_of_def zones list_all_iff)
  moreover have "rp_commands p = rs" by (simp add: q(9) reviewed_plan_of_def)
  ultimately show ?thesis
    using q(1,3,8) list_all2_lengthD[OF r] list_all2_nthD[OF r] review_commands_probed[OF q(7)] by fastforce
qed

subsection \<open>What an approval grants\<close>

lemma reviewed_granted:
  "granted_of (reviewed_json c) = (if 0 < rc_duration c
     then Some \<lparr>gc_zone = rc_zone c, gc_zone_name = rc_zone_name c, gc_setpoint = rc_setpoint c, gc_duration = Some (rc_duration c), gc_reason = rc_reason c\<rparr>
     else None)"
  by (simp add: granted_of_def reviewed_json_def jfield_def json_int_def checked_def)

definition granted_copy :: "reviewed_command \<Rightarrow> granted_command" where
  "granted_copy c = \<lparr>gc_zone = rc_zone c, gc_zone_name = rc_zone_name c, gc_setpoint = rc_setpoint c, gc_duration = Some (rc_duration c), gc_reason = rc_reason c\<rparr>"

lemma all_granted: "all_some (map granted_of (map reviewed_json cs)) = Some gs \<Longrightarrow> gs = map granted_copy cs"
proof (induction cs arbitrary: gs)
  case (Cons c cs)
  then show ?case by (auto simp: reviewed_granted granted_copy_def split: if_splits)
qed simp

lemma confirm_approved:
  assumes "confirm_node d now swept stamp thread resume s l = (s', l')" "cs_decision s' = Some Approved"
  obtains p v where "cs_plan s = Some p" "resume_of resume = Some v" "rv_approved v" "plan_named d v p" "now < rp_expires p"
    "jget (lg_grants l') thread = Some \<lparr>gt_plan = rp_id p, gt_hash = rp_hash p, gt_commands = map granted_copy (rp_commands p), gt_at = stamp\<rparr>"
proof -
  obtain p v where p: "cs_plan s = Some p" "resume_of resume = Some v" "plan_named d v p" "now < rp_expires p" "rv_approved v"
      "grant_plan d swept stamp thread (grantable_of p) l = (True, l')"
    using assms by (auto simp: confirm_node_def split: option.splits if_splits prod.splits bool.splits)
  obtain i h cs gs where g: "pl_id (grantable_of p) = JString i" "pl_hash (grantable_of p) = JString h" "pl_commands (grantable_of p) = JArray cs"
      "project (JArray cs) (lg_max l) = Some gs" "jget (lg_grants l') thread = Some \<lparr>gt_plan = i, gt_hash = h, gt_commands = gs, gt_at = stamp\<rparr>"
    using grant_plan_True[OF p(6)] by (metis (no_types, lifting) ledger.select_convs(1) ledger.surjective ledger.update_convs(1,2) jget_jset)
  have "gs = map granted_copy (rp_commands p)"
    using g(3,4) all_granted[of "rp_commands p" gs] by (auto simp: project_def grantable_of_def split: if_splits)
  then show thesis using that p g by (simp add: grantable_of_def)
qed

subsection \<open>What apply issues\<close>

lemma apply_commands_halted:
  "apply_commands stopped issue i True cs = (os, sent, h) \<Longrightarrow> sent = [] \<and> h \<and> length os = length cs \<and> (\<forall>x \<in> set os. ou_result x = stopped_result)"
proof (induction cs arbitrary: i os sent h)
  case (Cons c cs)
  then show ?case by (cases "apply_commands stopped issue (i + 1) True cs") (auto simp: Let_def)
qed simp

lemma apply_commands_sent:
  "apply_commands stopped issue i stopping cs = (os, sent, h) \<Longrightarrow>
   \<exists>n. sent = map request_of (take n cs) \<and> map ou_zone_name os = map gc_zone_name cs \<and>
     (\<forall>k < length cs. n \<le> k \<longrightarrow> ou_result (os ! k) = stopped_result)"
proof (induction cs arbitrary: i stopping os sent h)
  case (Cons c cs)
  obtain os1 sent1 h1 where r: "apply_commands stopped issue (i + 1) (stopping \<or> stopped i) cs = (os1, sent1, h1)"
    by (cases "apply_commands stopped issue (i + 1) (stopping \<or> stopped i) cs") auto
  obtain n where n: "sent1 = map request_of (take n cs)" "map ou_zone_name os1 = map gc_zone_name cs"
      "\<forall>k < length cs. n \<le> k \<longrightarrow> ou_result (os1 ! k) = stopped_result"
    using Cons.IH[OF r] by blast
  show ?case
  proof (cases "stopping \<or> stopped i")
    case True
    then have "sent1 = []" "\<forall>k < length cs. ou_result (os1 ! k) = stopped_result"
      using apply_commands_halted[of stopped issue "i + 1" cs os1 sent1 h1] r by auto
    then show ?thesis using Cons.prems True r n(2) by (intro exI[of _ 0]) (auto simp: Let_def nth_Cons split: nat.splits)
  next
    case False
    then show ?thesis using Cons.prems r n by (intro exI[of _ "Suc n"]) (auto simp: Let_def nth_Cons split: nat.splits)
  qed
qed auto

text \<open>C21: Once the operator's Stop is seen, no further command is issued: what was issued is a first part of the grant's commands, no
  longer than the commands before the Stop, and every command from there on is listed as stopped.\<close>
theorem stop_keeps_back:
  assumes "apply_commands stopped issue 0 False cs = (os, sent, h)" "stopped k"
  shows "\<exists>n \<le> k. sent = map request_of (take n cs) \<and> (\<forall>i < length cs. n \<le> i \<longrightarrow> ou_result (os ! i) = stopped_result)"
proof -
  have "\<exists>n \<le> j. sent = map request_of (take n cs) \<and> (\<forall>i < length cs. n \<le> i \<longrightarrow> ou_result (os ! i) = stopped_result)"
    if "apply_commands stopped issue i h0 cs = (os, sent, h)" "stopped (i + j)" for i j h0 cs os sent h
    using that
  proof (induction cs arbitrary: i j h0 os sent h)
    case (Cons c cs)
    obtain os1 sent1 h1 where r: "apply_commands stopped issue (i + 1) (h0 \<or> stopped i) cs = (os1, sent1, h1)"
      by (cases "apply_commands stopped issue (i + 1) (h0 \<or> stopped i) cs") auto
    show ?case
    proof (cases "h0 \<or> stopped i")
      case True
      then have "sent1 = []" "\<forall>k < length cs. ou_result (os1 ! k) = stopped_result"
        using apply_commands_halted[of stopped issue "i + 1" cs os1 sent1 h1] r by auto
      then show ?thesis using Cons.prems(1) True r by (intro exI[of _ 0]) (auto simp: Let_def nth_Cons split: nat.splits)
    next
      case False
      then obtain j1 where j: "j = Suc j1" using Cons.prems(2) by (cases j) auto
      then obtain n where n: "n \<le> j1" "sent1 = map request_of (take n cs)" "\<forall>i < length cs. n \<le> i \<longrightarrow> ou_result (os1 ! i) = stopped_result"
        using Cons.IH[OF r, of j1] Cons.prems(2) by auto
      then show ?thesis using Cons.prems(1) False r j by (intro exI[of _ "Suc n"]) (auto simp: Let_def nth_Cons split: nat.splits)
    qed
  qed auto
  from this[OF assms(1), of k] show ?thesis using assms(2) by simp
qed

subsection \<open>A plan on its way\<close>

definition cool_stamp :: request_stamp where
  "cool_stamp = \<lparr>rs_request = ''r1'', rs_seq = 1, rs_text = ''cool the lab'', rs_now = 0, rs_user = ''ann'', rs_may_command = True\<rparr>"

definition cool_state :: copilot_state where
  "cool_state = empty_state\<lparr>cs_request := Some cool_stamp, cs_context := Some \<lparr>oc_directory = tw_directory cool_world, oc_sim_available = False,
       oc_envelope = True\<rparr>, cs_scope := Some \<lparr>sc_control = True, sc_simulation = False, sc_source = FromPlanner\<rparr>, cs_proposal := Some cool_plan\<rparr>"

definition cool_check :: check_env where
  "cool_check = \<lparr>ce_unicode = ascii_classes, ce_limits = default_limits, ce_digest = zero_digest, ce_before = None, ce_after = None,
     ce_probe = (\<lambda>i c. Some (Allowed 24 3600 0)), ce_now = 1000, ce_id = lab\<rparr>"

definition cool_command :: reviewed_command where
  "cool_command = \<lparr>rc_zone = lab, rc_zone_name = ''Lab'', rc_setpoint = 23, rc_duration = 3600, rc_reason = ''warm'', rc_verdict = Allowed 24 3600 0\<rparr>"

definition cool_reviewed :: reviewed_plan where
  "cool_reviewed = \<lparr>rp_id = lab, rp_hash = replicate 64 CHR ''0'', rp_checked = 1000, rp_expires = 601000, rp_summary = ''cool it'',
     rp_commands = [cool_command], rp_simulation = None\<rparr>"

lemma cool_parse: "parse_plan cool_plan = Some cool_plan"
proof -
  have "uuid_shape lab" by code_simp
  moreover have "js_trim ''cool it'' = ''cool it''" "js_trim ''warm'' = ''warm''" by code_simp+
  moreover have "limit_of default_limits ''maxPlanCommands'' = 12" by code_simp
  ultimately show ?thesis by (simp add: parse_plan_def parse_command_def trimmed_text_def checked_def cool_plan_def)
qed

lemma cool_checked: "cs_plan (plan_check_node cool_check cool_state) = Some cool_reviewed"
proof -
  have l: "limit_of default_limits ''maxPlanCommands'' = 12" "limit_of default_limits ''planTtlS'' = 600" by code_simp+
  have z: "zone_in cool_state lab = Some \<lparr>dz_id = lab, dz_name = ''Lab'', dz_designed = Some 24\<rparr>"
    by (simp add: zone_in_def cool_state_def cool_world_def)
  have "zone_problem cool_state [] (pp_commands cool_plan) = None" "wording_problem ascii_classes cool_state cool_plan = None"
    by (simp_all add: cool_plan_def z wording_problem_def cool_wording)
  moreover have "review_commands (ce_probe cool_check) cool_state 0 (pp_commands cool_plan) = Reviewed [cool_command]"
    by (simp add: cool_plan_def cool_check_def cool_command_def z)
  moreover have "may_control cool_state" "cs_proposal cool_state = Some cool_plan" by (simp_all add: may_control_def cool_state_def cool_stamp_def)
  moreover have "ce_before cool_check = None" "ce_after cool_check = None" "ce_unicode cool_check = ascii_classes" "ce_limits cool_check = default_limits"
    "ce_digest cool_check = zero_digest" "ce_now cool_check = 1000" "ce_id cool_check = lab"
    by (simp_all add: cool_check_def)
  moreover have "length (pp_commands cool_plan) = 1" "pp_basis cool_plan = None" "pp_summary cool_plan = ''cool it''" by (simp_all add: cool_plan_def)
  ultimately show ?thesis
    by (simp add: plan_check_node_def cool_parse l reviewed_plan_of_def cool_reviewed_def hash_commands_def zero_digest_def)
qed

theorem plan_check_sound_witness:
  "sound_plan cool_check cool_state cool_reviewed \<and> ce_after cool_check = None \<and>
   ce_probe cool_check 0 (hd (pp_commands cool_plan)) = Some (rc_verdict cool_command)"
proof -
  have "Option.bind (cs_proposal cool_state) parse_plan = Some cool_plan" by (simp add: cool_state_def cool_parse)
  moreover have "length (pp_commands cool_plan) = 1" by (simp add: cool_plan_def)
  moreover have "rp_commands cool_reviewed = [cool_command]" by (simp add: cool_reviewed_def)
  ultimately show ?thesis using plan_check_sound[OF cool_checked] by (auto simp: hd_conv_nth simp flip: length_0_conv)
qed

theorem stop_keeps_back_witness:
  "\<exists>n \<le> 1. fst (snd (apply_commands (\<lambda>i. 1 \<le> i) (\<lambda>i r. None) 0 False (map granted_copy [cool_command, cool_command]))) =
     map request_of (take n (map granted_copy [cool_command, cool_command]))"
proof -
  obtain os sent h where r: "apply_commands (\<lambda>i. 1 \<le> i) (\<lambda>i r. None) 0 False (map granted_copy [cool_command, cool_command]) = (os, sent, h)"
    by (cases "apply_commands (\<lambda>i. 1 \<le> i) (\<lambda>i r. None) 0 False (map granted_copy [cool_command, cool_command])") auto
  have "(1 :: nat) \<le> 1" by simp
  from stop_keeps_back[OF r this] show ?thesis unfolding r by auto
qed

end
