(* ===== verification/Copilot_Specialist.thy ===== *)
theory Copilot_Specialist
  imports Copilot_Tools
begin

section \<open>A specialist (apps/web/lib/copilot/specialist.ts)\<close>

text \<open>
  The subgraph of one task: \<open>agent\<close> and \<open>tools\<close> take turns until a report or a failure, then \<open>finish\<close> writes the finding. Of
  the transcript the model keeps whether it was opened and the tool calls of its last message. What the model answers
  turn by turn, what the tools meet, and what else happens to the registry between two steps are arguments. The
  catch-all around the dispatcher is left out: the dispatcher here is total.
\<close>

record task_view =
  tv_task :: string
  tv_mode :: "control_mode option"
  tv_inputs :: "string list"

type_synonym failure = "finding_status \<times> finding_reason option"

record spec_state =
  ss_task :: "task_view option"
  ss_control :: "control_task option"
  ss_oriented :: bool
  ss_calls :: "tool_call list"
  ss_opened :: bool
  ss_turns :: int
  ss_tool_calls :: int
  ss_evidence_seq :: nat
  ss_evidence :: evidence_map
  ss_report :: "finding_report option"
  ss_failure :: "failure option"
  ss_draft :: "proposed_plan option"

subsection \<open>The task as the role sees it\<close>

definition worker_view :: "task_spec \<Rightarrow> evidence list \<Rightarrow> task_view" where
  "worker_view t inputs = \<lparr>tv_task = ts_id t, tv_mode = None, tv_inputs = map ev_id inputs\<rparr>"

text \<open>The controller reads the records of the request's simulation first, then what its task names; at most six.\<close>

definition control_inputs :: "evidence_map \<Rightarrow> control_task \<Rightarrow> string list" where
  "control_inputs evidence ct =
     (let simulated = map (ev_id \<circ> snd) (filter (\<lambda>(i, e). ev_kind e = Simulated) evidence)
      in take 6 (filter (\<lambda>i. jget evidence i \<noteq> None) (rev (remdups (rev (simulated @ ct_inputs ct))))))"

definition view_of :: "role \<Rightarrow> spec_state \<Rightarrow> task_view option" where
  "view_of r s =
     (if r \<noteq> Control then ss_task s
      else case ss_control s of
             None \<Rightarrow> None
           | Some ct \<Rightarrow>
               if ss_oriented s
               then Some \<lparr>tv_task = ''K'', tv_mode = Some (ct_mode ct), tv_inputs = map (ev_id \<circ> the \<circ> jget (ss_evidence s)) (control_inputs (ss_evidence s) ct)\<rparr>
               else None)"

definition own_evidence :: "string \<Rightarrow> evidence_map \<Rightarrow> string list" where
  "own_evidence task evidence = filter (\<lambda>i. take (length task + 1) i = task @ ''.'') (map fst evidence)"

subsection \<open>The agent\<close>

datatype agent_reply = AgentRefused budget_reason | AgentFailed | AgentDeclined | AgentCut | AgentSays "tool_call list"

definition reason_of :: "budget_reason \<Rightarrow> finding_reason" where
  "reason_of why = (case why of Budget \<Rightarrow> OverBudget | Deadline \<Rightarrow> PastDeadline | Stopped \<Rightarrow> StoppedReason)"

definition failed_with :: "finding_status \<Rightarrow> finding_reason option \<Rightarrow> spec_state \<Rightarrow> spec_state" where
  "failed_with st why s = s\<lparr>ss_failure := Some (st, why)\<rparr>"

definition agent_node :: "limits \<Rightarrow> role \<Rightarrow> agent_reply \<Rightarrow> spec_state \<Rightarrow> spec_state" where
  "agent_node l r reply s =
     (case view_of r s of
        None \<Rightarrow> failed_with FindingFailed (Some ModelError) s
      | Some v \<Rightarrow>
          (let o1 = s\<lparr>ss_opened := True, ss_calls := (if ss_opened s then ss_calls s else [])\<rparr>;
               o2 = o1\<lparr>ss_turns := ss_turns s + 1\<rparr>
           in if limit_of l ''maxSpecialistTurns'' \<le> ss_turns s then failed_with Partial (Some TurnLimit) o1
              else case reply of
                     AgentRefused why \<Rightarrow> failed_with Partial (Some (reason_of why)) o1
                   | AgentFailed \<Rightarrow> failed_with FindingFailed (Some ModelError) o1
                   | AgentDeclined \<Rightarrow> failed_with FindingRefused None o2
                   | AgentCut \<Rightarrow> failed_with Partial (Some NoReport) o2
                   | AgentSays cs \<Rightarrow> o2\<lparr>ss_calls := cs\<rparr>))"

subsection \<open>The tools\<close>

definition tools_node :: "tool_world \<Rightarrow> role \<Rightarrow> string \<Rightarrow> spec_state \<Rightarrow> registry \<Rightarrow> spec_state \<times> registry" where
  "tools_node w r thread s reg =
     (let v = the (view_of r s);
          task = \<lparr>tt_task = tv_task v, tt_inputs = tv_inputs v, tt_produced = own_evidence (tv_task v) (ss_evidence s), tt_mode = tv_mode v\<rparr>;
          (t, n, reg1) = run_tools w r task thread (ss_tool_calls s) (ss_evidence_seq s) (ss_calls s) reg
      in (s\<lparr>ss_calls := [], ss_opened := True, ss_tool_calls := ss_tool_calls s + int (tr_calls_run t), ss_evidence_seq := n,
            ss_evidence := merge_record (ss_evidence s) (Some (map (\<lambda>e. (ev_id e, e)) (tr_evidence t))),
            ss_report := (if tr_report t \<noteq> None then tr_report t else ss_report s),
            ss_draft := (if r = Control \<and> tr_proposal t \<noteq> None then tr_proposal t else ss_draft s),
            ss_failure := (if tr_report t = None \<and> (tr_ledger_full t \<or> evidence_full thread reg1)
                           then Some (Partial, Some EvidenceFull) else ss_failure s)\<rparr>,
          reg1))"

subsection \<open>The finding\<close>

definition unreported :: "failure \<Rightarrow> string" where
  "unreported f =
     (case f of
        (_, Some TurnLimit) \<Rightarrow> ''Stopped at the turn limit before reporting a finding.''
      | (_, Some ToolLimit) \<Rightarrow> ''Stopped at the tool-call limit before reporting a finding.''
      | (_, Some OverBudget) \<Rightarrow> ''Stopped: the request used its model-call budget before this task reported.''
      | (_, Some PastDeadline) \<Rightarrow> ''Stopped: the request reached its deadline before this task reported.''
      | (_, Some StoppedReason) \<Rightarrow> ''Stopped at the operator'' @ [char_of (39 :: nat)] @ ''s request before this task reported.''
      | (_, Some NoReport) \<Rightarrow> ''Ended without reporting a finding.''
      | (_, Some ModelError) \<Rightarrow> ''The model call failed; this task could not continue.''
      | (_, Some EvidenceFull) \<Rightarrow> ''Stopped: the request'' @ [char_of (39 :: nat)] @ ''s evidence ledger is full.''
      | (FindingRefused, None) \<Rightarrow> ''The model declined this task; nothing was acted on.''
      | _ \<Rightarrow> ''Ended without reporting a finding.'')"

definition make_finding :: "role \<Rightarrow> task_view \<Rightarrow> spec_state \<Rightarrow> finding" where
  "make_finding r v s =
     (let own = own_evidence (tv_task v) (ss_evidence s);
          f = (case ss_failure s of Some x \<Rightarrow> x | None \<Rightarrow> (Partial, Some NoReport));
          base = (case ss_report s of
             Some p \<Rightarrow> \<lparr>fd_task = tv_task v, fd_specialist = r, fd_status = fr_status p, fd_reason = None, fd_summary = fr_summary p,
               fd_claims = fr_claims p, fd_questions = fr_questions p, fd_caveats = fr_caveats p, fd_evidence = own\<rparr>
           | None \<Rightarrow> \<lparr>fd_task = tv_task v, fd_specialist = r, fd_status = fst f, fd_reason = snd f, fd_summary = unreported f, fd_claims = [],
               fd_questions = [],
               fd_caveats = order_caveats (concat (map (\<lambda>i. case jget (ss_evidence s) i of Some e \<Rightarrow> ev_caveats e | None \<Rightarrow> []) own)),
               fd_evidence = own\<rparr>)
      in if r = Control \<and> tv_mode v = Some Check then base\<lparr>fd_caveats := order_caveats (fd_caveats base @ [check_mode_caveat])\<rparr> else base)"

record spec_output =
  so_finding :: "finding option"
  so_control :: "control_task option"
  so_proposal :: "proposed_plan option"

text \<open>A plan survives running out of turns or budget; it does not survive a refusal, Stop or the deadline.\<close>

definition withdrawn :: "spec_state \<Rightarrow> bool" where
  "withdrawn s =
     (ss_report s = None \<and>
      (case ss_failure s of
         None \<Rightarrow> False
       | Some (st, why) \<Rightarrow> st = FindingRefused \<or> why = Some StoppedReason \<or> why = Some PastDeadline))"

definition finish_task :: "role \<Rightarrow> spec_state \<Rightarrow> spec_output" where
  "finish_task r s =
     (case view_of r s of
        None \<Rightarrow> \<lparr>so_finding = None, so_control = ss_control s, so_proposal = None\<rparr>
      | Some v \<Rightarrow>
          \<lparr>so_finding = Some (make_finding r v s),
           so_control = (if r = Control then map_option (\<lambda>ct. ct\<lparr>ct_done := True\<rparr>) (ss_control s) else ss_control s),
           so_proposal = (if r = Control \<and> tv_mode v = Some Propose \<and> \<not> withdrawn s then ss_draft s else None)\<rparr>)"

subsection \<open>The subgraph\<close>

datatype spec_node = NodeAgent | NodeTools | NodeFinish | NodeDone

record spec_env =
  se_limits :: limits
  se_role :: role
  se_thread :: string
  se_reply :: "nat \<Rightarrow> agent_reply"
  se_world :: "nat \<Rightarrow> tool_world"
  se_outside :: "nat \<Rightarrow> registry \<Rightarrow> registry"

definition after_agent :: "spec_state \<Rightarrow> spec_node" where
  "after_agent s = (if ss_failure s = None \<and> ss_calls s \<noteq> [] then NodeTools else NodeFinish)"

definition after_tools :: "spec_state \<Rightarrow> spec_node" where
  "after_tools s = (if ss_report s \<noteq> None \<or> ss_failure s \<noteq> None then NodeFinish else NodeAgent)"

type_synonym spec_config = "spec_node \<times> spec_state \<times> registry \<times> spec_output option"

text \<open>The \<open>k\<close>-th superstep.\<close>

definition spec_step :: "spec_env \<Rightarrow> nat \<Rightarrow> spec_config \<Rightarrow> spec_config" where
  "spec_step e k x =
     (case x of (node, s, reg, out) \<Rightarrow>
        (case node of
           NodeAgent \<Rightarrow> (let s1 = agent_node (se_limits e) (se_role e) (se_reply e k) s in (after_agent s1, s1, se_outside e k reg, out))
         | NodeTools \<Rightarrow>
             (let (s1, reg1) = tools_node (se_world e k) (se_role e) (se_thread e) s reg
              in (after_tools s1, s1, se_outside e k reg1, out))
         | NodeFinish \<Rightarrow> (NodeDone, s, reg, Some (finish_task (se_role e) s))
         | NodeDone \<Rightarrow> x))"

primrec spec_run :: "spec_env \<Rightarrow> nat \<Rightarrow> spec_config \<Rightarrow> spec_config" where
  "spec_run e 0 x = x"
| "spec_run e (Suc n) x = spec_step e n (spec_run e n x)"

definition new_task :: "task_view option \<Rightarrow> control_task option \<Rightarrow> bool \<Rightarrow> evidence_map \<Rightarrow> spec_state" where
  "new_task v ct oriented evidence =
     \<lparr>ss_task = v, ss_control = ct, ss_oriented = oriented, ss_calls = [], ss_opened = False, ss_turns = 0, ss_tool_calls = 0, ss_evidence_seq = 0,
      ss_evidence = evidence, ss_report = None, ss_failure = None, ss_draft = None\<rparr>"

subsection \<open>It ends\<close>

definition steps_left :: "int \<Rightarrow> spec_config \<Rightarrow> nat" where
  "steps_left most x =
     (case x of (node, s, reg, out) \<Rightarrow>
        (case node of
           NodeAgent \<Rightarrow> 2 * nat (most - ss_turns s) + 2
         | NodeTools \<Rightarrow> 2 * nat (most - ss_turns s) + 3
         | NodeFinish \<Rightarrow> 1
         | NodeDone \<Rightarrow> 0))"

lemma agent_turns:
  "ss_failure (agent_node l r reply s) = None \<Longrightarrow>
   ss_turns s < limit_of l ''maxSpecialistTurns'' \<and> ss_turns (agent_node l r reply s) = ss_turns s + 1"
  by (auto simp: agent_node_def failed_with_def Let_def split: option.splits agent_reply.splits if_splits)

lemma tools_turns: "ss_turns (fst (tools_node w r thread s reg)) = ss_turns s"
  by (simp add: tools_node_def Let_def split: prod.splits)

lemma spec_step_less: "fst x \<noteq> NodeDone \<Longrightarrow> steps_left (limit_of (se_limits e) ''maxSpecialistTurns'') (spec_step e k x) < steps_left (limit_of (se_limits e) ''maxSpecialistTurns'') x"
proof -
  obtain node s reg out where x: "x = (node, s, reg, out)" by (cases x)
  assume "fst x \<noteq> NodeDone"
  then show ?thesis
    using agent_turns[of "se_limits e" "se_role e" "se_reply e k" s] tools_turns[of "se_world e k" "se_role e" "se_thread e" s reg]
    by (cases node) (auto simp: x spec_step_def steps_left_def after_agent_def after_tools_def Let_def split: prod.splits)
qed

lemma spec_run_ends:
  assumes "steps_left (limit_of (se_limits e) ''maxSpecialistTurns'') x \<le> n"
  shows "fst (spec_run e n x) = NodeDone"
proof -
  let ?m = "steps_left (limit_of (se_limits e) ''maxSpecialistTurns'')"
  have "?m (spec_run e k x) + k \<le> ?m x \<or> fst (spec_run e k x) = NodeDone" for k
  proof (induction k)
    case (Suc k)
    show ?case
    proof (cases "fst (spec_run e k x) = NodeDone")
      case True
      then show ?thesis by (cases "spec_run e k x") (simp add: spec_step_def)
    next
      case False
      then show ?thesis using Suc.IH spec_step_less[OF False, of e k] by simp
    qed
  qed simp
  from this[of n] show ?thesis using assms by (cases "spec_run e n x") (auto simp: steps_left_def split: spec_node.splits)
qed

subsection \<open>What it hands over\<close>

definition given :: "role \<Rightarrow> spec_state \<Rightarrow> bool" where
  "given r s = (if r = Control then ss_control s \<noteq> None \<and> ss_oriented s else ss_task s \<noteq> None)"

lemma given_view: "given r s \<longleftrightarrow> view_of r s \<noteq> None"
  by (auto simp: given_def view_of_def split: option.splits)

definition mode_of :: "role \<Rightarrow> spec_state \<Rightarrow> control_mode option" where
  "mode_of r s = (if r = Control then map_option ct_mode (ss_control s) else Option.bind (ss_task s) tv_mode)"

lemma view_mode: "view_of r s = Some v \<Longrightarrow> tv_mode v = mode_of r s"
  by (auto simp: view_of_def mode_of_def split: if_splits option.splits)

text \<open>The parts of a specialist's state that its input fixes.\<close>

definition same_task :: "spec_state \<Rightarrow> spec_state \<Rightarrow> bool" where
  "same_task s s' = (ss_task s' = ss_task s \<and> ss_control s' = ss_control s \<and> ss_oriented s' = ss_oriented s)"

lemma agent_same: "same_task s (agent_node l r reply s) \<and> ss_draft (agent_node l r reply s) = ss_draft s"
  by (auto simp: same_task_def agent_node_def failed_with_def Let_def split: option.splits agent_reply.splits)

lemma tools_same: "same_task s (fst (tools_node w r thread s reg))"
  by (simp add: same_task_def tools_node_def Let_def split: prod.splits)

lemma tools_draft:
  "ss_draft (fst (tools_node w r thread s reg)) = Some p \<Longrightarrow>
   ss_draft s = Some p \<or> (r = Control \<and> tv_mode (the (view_of r s)) = Some Propose \<and> vetted w p)"
proof -
  assume d: "ss_draft (fst (tools_node w r thread s reg)) = Some p"
  let ?v = "the (view_of r s)"
  let ?task = "\<lparr>tt_task = tv_task ?v, tt_inputs = tv_inputs ?v, tt_produced = own_evidence (tv_task ?v) (ss_evidence s), tt_mode = tv_mode ?v\<rparr>"
  obtain t n reg1 where t: "run_tools w r ?task thread (ss_tool_calls s) (ss_evidence_seq s) (ss_calls s) reg = (t, n, reg1)"
    by (cases "run_tools w r ?task thread (ss_tool_calls s) (ss_evidence_seq s) (ss_calls s) reg") auto
  show ?thesis
    using d run_tools_proposal[OF t] by (auto simp: tools_node_def Let_def t split: if_splits)
qed

lemma spec_run_inv:
  assumes "spec_run e n (NodeAgent, new_task v ct oriented evidence, reg, None) = (node, s, reg', out)"
  shows "same_task (new_task v ct oriented evidence) s \<and>
    (\<forall>p. ss_draft s = Some p \<longrightarrow> (\<exists>k < n. vetted (se_world e k) p)) \<and>
    (node = NodeDone \<longleftrightarrow> out \<noteq> None) \<and> (\<forall>x. out = Some x \<longrightarrow> x = finish_task (se_role e) s)"
  using assms
proof (induction n arbitrary: node s reg' out)
  case 0
  then show ?case by (auto simp: same_task_def new_task_def)
next
  case (Suc n)
  obtain node0 s0 reg0 out0 where x: "spec_run e n (NodeAgent, new_task v ct oriented evidence, reg, None) = (node0, s0, reg0, out0)"
    by (cases "spec_run e n (NodeAgent, new_task v ct oriented evidence, reg, None)") auto
  note IH = Suc.IH[OF x]
  have step: "spec_step e n (node0, s0, reg0, out0) = (node, s, reg', out)" using Suc.prems by (simp add: x)
  have older: "\<exists>k < Suc n. vetted (se_world e k) p" if "\<exists>k < n. vetted (se_world e k) p" for p using that less_SucI by blast
  show ?case
  proof (cases node0)
    case NodeAgent
    then show ?thesis
      using step IH agent_same[of s0 "se_limits e" "se_role e" "se_reply e n"] older
      by (auto simp: spec_step_def Let_def same_task_def after_agent_def split: if_splits)
  next
    case NodeTools
    obtain s1 reg1 where t: "tools_node (se_world e n) (se_role e) (se_thread e) s0 reg0 = (s1, reg1)"
      by (cases "tools_node (se_world e n) (se_role e) (se_thread e) s0 reg0")
    have "\<exists>k < Suc n. vetted (se_world e k) p" if "ss_draft s1 = Some p" for p
      using tools_draft[of "se_world e n" "se_role e" "se_thread e" s0 reg0 p] that IH older by (auto simp: t)
    then show ?thesis
      using NodeTools step IH tools_same[of s0 "se_world e n" "se_role e" "se_thread e" reg0]
      by (auto simp: spec_step_def t same_task_def after_tools_def split: if_splits)
  qed (use step IH older in \<open>auto simp: spec_step_def\<close>)
qed

text \<open>C36: A specialist ends: within twice its turn limit and two more supersteps (14 with the default of six turns, well below
  the recursion limit of 40) it has finished, whatever the model, the tools and the registry answer, and its task has a finding.\<close>
theorem specialist_finishes:
  assumes "0 \<le> limit_of (se_limits e) ''maxSpecialistTurns''" "given (se_role e) (new_task v ct oriented evidence)"
  shows "\<exists>s reg' x f. spec_run e (2 * nat (limit_of (se_limits e) ''maxSpecialistTurns'') + 2) (NodeAgent, new_task v ct oriented evidence, reg, None) =
    (NodeDone, s, reg', Some x) \<and> so_finding x = Some f"
proof -
  let ?n = "2 * nat (limit_of (se_limits e) ''maxSpecialistTurns'') + 2"
  obtain node s reg' out where r: "spec_run e ?n (NodeAgent, new_task v ct oriented evidence, reg, None) = (node, s, reg', out)"
    by (cases "spec_run e ?n (NodeAgent, new_task v ct oriented evidence, reg, None)") auto
  have "fst (spec_run e ?n (NodeAgent, new_task v ct oriented evidence, reg, None)) = NodeDone"
    by (rule spec_run_ends) (simp add: steps_left_def new_task_def)
  then have node: "node = NodeDone" by (simp only: r fst_conv)
  note inv = spec_run_inv[OF r]
  have "out \<noteq> None" using inv node by blast
  then obtain x where x: "out = Some x" "x = finish_task (se_role e) s" using inv by blast
  have "given (se_role e) s" using inv assms(2) by (simp add: given_def same_task_def)
  then obtain w where "view_of (se_role e) s = Some w" by (auto simp: given_view)
  then have "so_finding x = Some (make_finding (se_role e) w s)" by (simp add: x(2) finish_task_def)
  then show ?thesis using r node x(1) by blast
qed

text \<open>A specialist hands over a plan only as the controller, in its proposing mode, when it was not stopped, refused or past the
  deadline before its report, and only a plan that one of its turns vetted.\<close>

theorem plan_only_from_controller:
  assumes "spec_run e n (NodeAgent, new_task v ct oriented evidence, reg, None) = (node, s, reg', Some x)" "so_proposal x = Some p"
  shows "se_role e = Control \<and> map_option ct_mode ct = Some Propose \<and> \<not> withdrawn s \<and> (\<exists>k < n. vetted (se_world e k) p)"
proof -
  note inv = spec_run_inv[OF assms(1)]
  have x: "x = finish_task (se_role e) s" using inv by blast
  then obtain w where w: "view_of (se_role e) s = Some w" "se_role e = Control" "tv_mode w = Some Propose" "\<not> withdrawn s" "ss_draft s = Some p"
    using assms(2) by (auto simp: finish_task_def split: option.splits if_splits)
  have "ss_control s = ct" using inv by (simp add: same_task_def new_task_def)
  then have "map_option ct_mode ct = Some Propose" using view_mode[OF w(1)] w(2,3) by (simp add: mode_of_def)
  then show ?thesis using w inv by blast
qed

text \<open>The finding of a controller that only checked says so.\<close>

lemma check_finding_says_so:
  assumes "finish_task Control s = x" "so_finding x = Some f" "map_option ct_mode (ss_control s) = Some Check"
  shows "check_mode_caveat \<in> set (fd_caveats f)"
proof -
  obtain v where v: "view_of Control s = Some v" "f = make_finding Control v s" using assms(1,2) by (auto simp: finish_task_def split: option.splits)
  have "tv_mode v = Some Check" using view_mode[OF v(1)] assms(3) by (simp add: mode_of_def)
  then show ?thesis by (simp add: v(2) make_finding_def Let_def)
qed

subsection \<open>A controller that proposes\<close>

definition cool_env :: spec_env where
  "cool_env = \<lparr>se_limits = default_limits, se_role = Control, se_thread = ''t'',
     se_reply = (\<lambda>k. if k = 0 then AgentSays [cool_call] else AgentCut), se_world = (\<lambda>k. cool_world), se_outside = (\<lambda>k r. r)\<rparr>"

definition cool_control :: control_task where
  "cool_control = \<lparr>ct_mode = Propose, ct_brief = ''cool the lab'', ct_inputs = [], ct_done = False\<rparr>"

definition cool_start :: spec_config where
  "cool_start = (NodeAgent, new_task None (Some cool_control) True [], new_registry default_limits, None)"

lemma cool_agent:
  "spec_step cool_env 0 cool_start =
   (NodeTools, (new_task None (Some cool_control) True [])\<lparr>ss_opened := True, ss_turns := 1, ss_calls := [cool_call]\<rparr>, new_registry default_limits, None)"
proof -
  have "limit_of default_limits ''maxSpecialistTurns'' = 6" by code_simp
  then show ?thesis
    by (simp add: spec_step_def cool_start_def agent_node_def view_of_def new_task_def cool_env_def cool_control_def after_agent_def Let_def)
qed

lemma cool_tools:
  "spec_step cool_env 1 (spec_step cool_env 0 cool_start) = (NodeFinish,
     (new_task None (Some cool_control) True [])\<lparr>ss_opened := True, ss_turns := 1, ss_tool_calls := 1, ss_draft := Some cool_plan,
       ss_failure := Some (Partial, Some EvidenceFull)\<rparr>, new_registry default_limits, None)"
proof -
  have "\<lparr>tt_task = ''K'', tt_inputs = [], tt_produced = [], tt_mode = Some Propose\<rparr> = cool_task" by (simp add: cool_task_def)
  then show ?thesis
    unfolding cool_agent
    by (simp add: spec_step_def tools_node_def view_of_def new_task_def cool_env_def cool_control_def control_inputs_def own_evidence_def cool_turn
        merge_record_def evidence_full_def new_registry_def after_tools_def)
qed

lemma cool_finish:
  "\<exists>s x. spec_run cool_env 3 cool_start = (NodeDone, s, new_registry default_limits, Some x) \<and> so_proposal x = Some cool_plan"
proof -
  have "spec_run cool_env 3 cool_start = spec_step cool_env 2 (spec_step cool_env 1 (spec_step cool_env 0 cool_start))"
    by (simp add: numeral_3_eq_3 numeral_2_eq_2)
  then show ?thesis
    unfolding cool_tools
    by (simp add: spec_step_def finish_task_def view_of_def new_task_def cool_env_def cool_control_def withdrawn_def)
qed

theorem plan_only_from_controller_witness: "vetted cool_world cool_plan"
proof -
  obtain s x where x: "spec_run cool_env 3 cool_start = (NodeDone, s, new_registry default_limits, Some x)" "so_proposal x = Some cool_plan"
    using cool_finish by blast
  show ?thesis using plan_only_from_controller[OF x(1)[unfolded cool_start_def] x(2)] by (auto simp: cool_env_def)
qed

theorem specialist_finishes_witness: "fst (spec_run cool_env 14 cool_start) = NodeDone"
proof -
  have l: "limit_of (se_limits cool_env) ''maxSpecialistTurns'' = 6" by code_simp
  have "given (se_role cool_env) (new_task None (Some cool_control) True [])" by (simp add: given_def new_task_def cool_env_def)
  from specialist_finishes[OF _ this, of "new_registry default_limits"] show ?thesis unfolding cool_start_def by (auto simp: l)
qed
end
