(* ===== verification/Copilot_Graph.thy ===== *)
theory Copilot_Graph
  imports Copilot_Plan Copilot_Specialist
begin

section \<open>The graph (apps/web/lib/copilot/graph.ts)\<close>

text \<open>
  The nodes put together. One superstep runs one node, or all the specialists a planner sent out. What the outside answers
  in a superstep (the reads, the model, the tools, the person, the control service, the clock) is one record, and what
  other parts of the process do to the registry in between is a function in it.
\<close>

record graph_env =
  en_unicode :: unicode
  en_instant :: "string \<Rightarrow> bool"
  en_digest :: digest
  en_limits :: limits
  en_line :: "caveat \<Rightarrow> utext"
  en_sim :: bool
  en_user :: string
  en_thread :: string

record outside =
  xo_now :: ms
  xo_swept :: ms
  xo_stamp :: ms
  xo_snapshot :: "orient_snapshot option"
  xo_settings :: bool
  xo_zone_known :: bool
  xo_records :: evidence_map
  xo_decisions :: "nat \<Rightarrow> planner_decision call_reply"
  xo_specialist :: "string \<Rightarrow> spec_env"
  xo_draft :: "answer_doc call_reply"
  xo_probe :: "nat \<Rightarrow> proposed_command \<Rightarrow> verdict option"
  xo_checked :: ms
  xo_plan_id :: string
  xo_resume :: json
  xo_stopped :: "nat \<Rightarrow> bool"
  xo_issue :: "nat \<Rightarrow> issue_request \<Rightarrow> issue_result option"
  xo_registry :: "registry \<Rightarrow> registry"

record graph_config =
  gf_node :: graph_node
  gf_state :: copilot_state
  gf_ledger :: ledger
  gf_registry :: registry
  gf_issued :: "issue_request list"

definition role_of_node :: "specialist_node \<Rightarrow> role" where
  "role_of_node n = (case n of SDiagnose \<Rightarrow> Diagnose | SAnalyse \<Rightarrow> Analyse | SSimulate \<Rightarrow> Simulate)"

text \<open>A specialist run to its end: its records and what it hands over.\<close>

definition run_specialist :: "spec_env \<Rightarrow> spec_state \<Rightarrow> registry \<Rightarrow> evidence_map \<times> spec_output" where
  "run_specialist e s reg =
     (case spec_run e (2 * nat (limit_of (se_limits e) ''maxSpecialistTurns'') + 2) (NodeAgent, s, reg, None) of
        (node, s1, reg1, out) \<Rightarrow> (ss_evidence s1, case out of Some x \<Rightarrow> x | None \<Rightarrow> \<lparr>so_finding = None, so_control = None, so_proposal = None\<rparr>))"

definition found :: "spec_output \<Rightarrow> (string, finding) jsmap" where
  "found x = (case so_finding x of Some f \<Rightarrow> [(fd_task f, f)] | None \<Rightarrow> [])"

definition worker_run :: "graph_env \<Rightarrow> outside \<Rightarrow> copilot_state \<Rightarrow> registry \<Rightarrow> string \<Rightarrow> evidence_map \<times> spec_output" where
  "worker_run e x s reg i =
     (case jget (cs_tasks s) i of
        None \<Rightarrow> ([], \<lparr>so_finding = None, so_control = None, so_proposal = None\<rparr>)
      | Some t \<Rightarrow>
          run_specialist ((xo_specialist x i)\<lparr>se_limits := en_limits e, se_role := role_of_node (ts_specialist t), se_thread := en_thread e\<rparr>)
            (new_task (Some (worker_view t (task_inputs s t))) None False []) reg)"

text \<open>The specialists of one wave, each from its own payload; the channels merge what they hand over.\<close>

definition specialists_node :: "graph_env \<Rightarrow> outside \<Rightarrow> string list \<Rightarrow> copilot_state \<Rightarrow> registry \<Rightarrow> copilot_state" where
  "specialists_node e x ids s reg =
     fold (\<lambda>i s1. case worker_run e x s reg i of (ev, out) \<Rightarrow>
             s1\<lparr>cs_evidence := merge_record (cs_evidence s1) (Some ev), cs_findings := merge_record (cs_findings s1) (Some (found out))\<rparr>) ids s"

definition control_node :: "graph_env \<Rightarrow> outside \<Rightarrow> copilot_state \<Rightarrow> registry \<Rightarrow> copilot_state" where
  "control_node e x s reg =
     (case run_specialist ((xo_specialist x ''K'')\<lparr>se_limits := en_limits e, se_role := Control, se_thread := en_thread e\<rparr>)
             (new_task None (cs_control s) (cs_context s \<noteq> None \<and> cs_request s \<noteq> None) (cs_evidence s)) reg of
        (ev, out) \<Rightarrow>
          s\<lparr>cs_evidence := merge_record (cs_evidence s) (Some ev), cs_findings := merge_record (cs_findings s) (Some (found out)),
            cs_control := so_control out, cs_proposal := so_proposal out\<rparr>)"

definition check_env_of :: "graph_env \<Rightarrow> outside \<Rightarrow> registry \<Rightarrow> registry \<Rightarrow> check_env" where
  "check_env_of e x reg reg1 =
     \<lparr>ce_unicode = en_unicode e, ce_limits = en_limits e, ce_digest = en_digest e, ce_before = interrupted (xo_now x) (en_thread e) reg,
      ce_after = interrupted (xo_checked x) (en_thread e) reg1, ce_probe = xo_probe x, ce_now = xo_checked x, ce_id = xo_plan_id x\<rparr>"

text \<open>One superstep. \<open>NConfirm\<close> waits for a person; the step is what follows the decision. A run with nothing to answer stays
  where it is.\<close>

definition graph_step :: "graph_env \<Rightarrow> outside \<Rightarrow> graph_config \<Rightarrow> graph_config" where
  "graph_step e x c =
     (let s = gf_state c; l = gf_ledger c; reg = gf_registry c; reg1 = xo_registry x reg;
          goto = (\<lambda>n s1. c\<lparr>gf_node := n, gf_state := s1, gf_registry := reg1\<rparr>) in
      case gf_node c of
        NIntake \<Rightarrow>
          (case intake (xo_now x) (en_thread e) (en_user e) s l reg of
             None \<Rightarrow> c
           | Some (s1, l1, r1) \<Rightarrow> c\<lparr>gf_node := NOrient, gf_state := s1, gf_ledger := l1, gf_registry := xo_registry x r1\<rparr>)
      | NOrient \<Rightarrow>
          (let s1 = orient_node (xo_snapshot x) (xo_settings x) (xo_zone_known x) (en_sim e) (xo_records x) s in goto (after_orient s1) s1)
      | NPlanner \<Rightarrow>
          (let s1 = planner_node (en_unicode e) (en_instant e) (en_limits e) (refusal (xo_now x) (en_thread e) reg) (xo_decisions x) s
           in goto (after_planner s1) s1)
      | NSpecialists ids \<Rightarrow> goto NJoin (specialists_node e x ids s reg)
      | NJoin \<Rightarrow> goto NPlanner (join_node s)
      | NCompose \<Rightarrow> goto NVerify (compose_node (en_limits e) (xo_draft x) s)
      | NVerify \<Rightarrow> (let s1 = verify_node (en_unicode e) (en_limits e) s in goto (after_verify (en_limits e) s1) s1)
      | NControl \<Rightarrow> (let s1 = control_node e x s reg in goto (after_control s1) s1)
      | NPlanCheck \<Rightarrow> (let s1 = plan_check_node (check_env_of e x reg reg1) s in goto (after_plan_check s1) s1)
      | NConfirm \<Rightarrow>
          (case confirm_node (en_digest e) (xo_now x) (xo_swept x) (xo_stamp x) (en_thread e) (xo_resume x) s l of
             (s1, l1) \<Rightarrow> (goto (after_confirm s1) s1)\<lparr>gf_ledger := l1\<rparr>)
      | NApply \<Rightarrow>
          (case apply_node (xo_now x) (en_thread e) (xo_stopped x) (xo_issue x) s l of
             (s1, l1, sent) \<Rightarrow> (goto NFinish s1)\<lparr>gf_ledger := l1, gf_issued := gf_issued c @ sent\<rparr>)
      | NDeclined \<Rightarrow> goto NFinish (declined_node s)
      | NFinish \<Rightarrow>
          (case finish_node (en_unicode e) (en_line e) (en_thread e) s reg of (s1, r1) \<Rightarrow> c\<lparr>gf_node := NEnd, gf_state := s1, gf_registry := r1\<rparr>)
      | NEnd \<Rightarrow> c)"

text \<open>The run with the outside's answers superstep by superstep.\<close>

primrec graph_run :: "graph_env \<Rightarrow> (nat \<Rightarrow> outside) \<Rightarrow> nat \<Rightarrow> graph_config \<Rightarrow> graph_config" where
  "graph_run e xs 0 c = c"
| "graph_run e xs (Suc n) c = graph_step e (xs n) (graph_run e xs n c)"

text \<open>A new message arrives.\<close>

definition asks :: "graph_config \<Rightarrow> inbox_message \<Rightarrow> bool" where
  "asks c m = (gf_node c = NIntake \<and> cs_inbox (gf_state c) = Some m)"

subsection \<open>What a node leaves alone\<close>

named_theorems frame \<open>what the nodes leave alone\<close>

lemma say_frame [simp]:
  "cs_inbox (say ns s) = cs_inbox s" "cs_request (say ns s) = cs_request s" "cs_context (say ns s) = cs_context s"
  "cs_scope (say ns s) = cs_scope s" "cs_route (say ns s) = cs_route s" "cs_waves (say ns s) = cs_waves s"
  "cs_task_seq (say ns s) = cs_task_seq s" "cs_tasks (say ns s) = cs_tasks s" "cs_findings (say ns s) = cs_findings s"
  "cs_control (say ns s) = cs_control s" "cs_drafts (say ns s) = cs_drafts s" "cs_plan (say ns s) = cs_plan s"
  "cs_decision (say ns s) = cs_decision s" "cs_proposal (say ns s) = cs_proposal s" "cs_answer (say ns s) = cs_answer s"
  "cs_violations (say ns s) = cs_violations s" "may_control (say ns s) = may_control s"
  by (simp_all add: say_def may_control_def)

text \<open>What every node between the planner and the end keeps: the request, its context, its authority, and a control task only
  where the request may control.\<close>

definition authority_kept :: "copilot_state \<Rightarrow> copilot_state \<Rightarrow> bool" where
  "authority_kept s s' =
     (cs_request s' = cs_request s \<and> cs_context s' = cs_context s \<and> (\<forall>sc. cs_scope s = Some sc \<longrightarrow> cs_scope s' = Some sc) \<and>
      ((cs_control s \<noteq> None \<longrightarrow> may_control s) \<longrightarrow> (cs_control s' \<noteq> None \<longrightarrow> may_control s')))"

lemma authority_kept_refl [simp]: "authority_kept s s"
  by (simp add: authority_kept_def)

lemma authority_same:
  "cs_request s' = cs_request s \<Longrightarrow> cs_context s' = cs_context s \<Longrightarrow> cs_scope s' = cs_scope s \<Longrightarrow> (cs_control s' \<noteq> None \<Longrightarrow> cs_control s \<noteq> None) \<Longrightarrow>
   authority_kept s s'"
  by (auto simp: authority_kept_def may_control_def)

lemma onward_not_dispatch: "onward_next s \<noteq> NextDispatch"
  by (simp add: onward_next_def)

text \<open>One execution of the planner: it keeps the drafts and the findings, it decides, and it dispatches only in a new wave.\<close>

definition planned :: "copilot_state \<Rightarrow> copilot_state \<Rightarrow> bool" where
  "planned s s' =
     (authority_kept s s' \<and> cs_drafts s' = cs_drafts s \<and> cs_findings s' = cs_findings s \<and>
      (\<exists>p. cs_route s' = Some p \<and> (pr_next p = NextDispatch \<longrightarrow> cs_waves s' = cs_waves s + 1)))"

lemma planned_move_on: "planned s (move_on ns s)"
  by (auto simp: planned_def move_on_def route_to_def onward_not_dispatch intro: authority_same)

lemma planned_refused: "planned s (say ns (route_to NextFinish [] None None s))"
  by (auto simp: planned_def route_to_def intro: authority_same)

lemma planned_fallback: "planned s (planner_fallback first s)"
proof (cases "fallback_controls first s")
  case True
  then show ?thesis
    by (auto simp: planner_fallback_def planned_def route_to_def write_scope_def authority_kept_def may_control_def fallback_controls_def
        split: option.splits)
qed (simp add: planner_fallback_def planned_move_on)

lemma planned_accept:
  assumes "cs_scope s = None \<longrightarrow> first \<noteq> None"
    and "c = (case cs_scope s of Some sc \<Rightarrow> sc_control sc | None \<Rightarrow> (case first of Some (c, m) \<Rightarrow> c | None \<Rightarrow> False))"
  shows "planned s (accept_decision u d (drops_control c d s) first s)"
proof -
  have "authority_kept s (accept_decision u d (drops_control c d s) first s)"
    using assms
    by (auto simp: authority_kept_def accept_decision_def Let_def route_to_def write_scope_def may_control_def drops_control_def
        split: option.splits prod.splits)
  moreover have "planned s (accept_decision u d (drops_control c d s) first s) \<longleftrightarrow>
      authority_kept s (accept_decision u d (drops_control c d s) first s)"
    by (auto simp: planned_def accept_decision_def Let_def route_to_def write_scope_def onward_not_dispatch split: option.splits prod.splits)
  ultimately show ?thesis by blast
qed

lemma planned_attempts: "planned s (planner_attempts u instant l replies s remaining attempt first)"
proof (induction remaining arbitrary: attempt first)
  case (Suc remaining)
  show ?case
  proof (cases "replies attempt")
    case (Parsed d)
    define first1 where "first1 = (if cs_scope s = None \<and> first = None then Some (pd_control d, pd_simulation d) else first)"
    define c where "c = (case cs_scope s of Some sc \<Rightarrow> sc_control sc | None \<Rightarrow> (case first1 of Some (c, m) \<Rightarrow> c | None \<Rightarrow> False))"
    have "planned s (accept_decision u d (drops_control c d s) first1 s)"
      by (rule planned_accept[OF _ c_def]) (simp add: first1_def)
    moreover have "planner_attempts u instant l replies s (Suc remaining) attempt first =
        (if \<not> decision_ok instant d then planner_attempts u instant l replies s remaining (attempt + 1) first
         else if validate_plan l c (case cs_scope s of Some sc \<Rightarrow> sc_simulation sc | None \<Rightarrow> (case first1 of Some (c, m) \<Rightarrow> m | None \<Rightarrow> False)) d s \<noteq> []
              then planner_attempts u instant l replies s remaining (attempt + 1) first1
              else accept_decision u d (drops_control c d s) first1 s)"
      by (simp add: Parsed first1_def[symmetric] c_def Let_def split: option.split prod.split)
    ultimately show ?thesis using Suc.IH by simp
  qed (simp_all add: planned_move_on planned_fallback planned_refused Suc.IH)
qed (simp add: planned_fallback)

lemma planned_node: "planned s (planner_node u instant l refused replies s)"
  by (auto simp: planner_node_def planned_move_on planned_attempts split: option.split)

lemma planner_wave:
  "cs_route (planner_node u instant l refused replies s) = Some p \<Longrightarrow> pr_next p = NextDispatch \<Longrightarrow> cs_waves s < limit_of l ''maxWaves''"
  by (auto simp: planner_node_def move_on_def route_to_def onward_not_dispatch split: if_splits)

subsection \<open>The specialists\<close>

lemma specialists_frame:
  "cs_request (specialists_node e x ids s reg) = cs_request s" "cs_context (specialists_node e x ids s reg) = cs_context s"
  "cs_scope (specialists_node e x ids s reg) = cs_scope s" "cs_control (specialists_node e x ids s reg) = cs_control s"
  "cs_waves (specialists_node e x ids s reg) = cs_waves s" "cs_drafts (specialists_node e x ids s reg) = cs_drafts s"
proof -
  have "let s2 = fold (\<lambda>i s1. case worker_run e x s reg i of (ev, out) \<Rightarrow>
             s1\<lparr>cs_evidence := merge_record (cs_evidence s1) (Some ev), cs_findings := merge_record (cs_findings s1) (Some (found out))\<rparr>) ids s1 in
    cs_request s2 = cs_request s1 \<and> cs_context s2 = cs_context s1 \<and> cs_scope s2 = cs_scope s1 \<and> cs_control s2 = cs_control s1 \<and>
    cs_waves s2 = cs_waves s1 \<and> cs_drafts s2 = cs_drafts s1" for s1
    by (induction ids arbitrary: s1) (auto simp: Let_def split: prod.splits)
  from this[of s] show
    "cs_request (specialists_node e x ids s reg) = cs_request s" "cs_context (specialists_node e x ids s reg) = cs_context s"
    "cs_scope (specialists_node e x ids s reg) = cs_scope s" "cs_control (specialists_node e x ids s reg) = cs_control s"
    "cs_waves (specialists_node e x ids s reg) = cs_waves s" "cs_drafts (specialists_node e x ids s reg) = cs_drafts s"
    by (simp_all add: specialists_node_def Let_def)
qed

lemma run_specialist_out:
  "\<exists>s1. run_specialist e (new_task v ct oriented evidence) reg = (ss_evidence s1, finish_task (se_role e) s1) \<and> same_task (new_task v ct oriented evidence) s1"
proof -
  let ?n = "2 * nat (limit_of (se_limits e) ''maxSpecialistTurns'') + 2"
  obtain node s1 reg1 out where r: "spec_run e ?n (NodeAgent, new_task v ct oriented evidence, reg, None) = (node, s1, reg1, out)"
    by (cases "spec_run e ?n (NodeAgent, new_task v ct oriented evidence, reg, None)") auto
  have "fst (spec_run e ?n (NodeAgent, new_task v ct oriented evidence, reg, None)) = NodeDone"
    by (rule spec_run_ends) (simp add: steps_left_def new_task_def)
  then have node: "node = NodeDone" by (simp only: r fst_conv)
  note inv = spec_run_inv[OF r]
  obtain x where x: "out = Some x" using inv node by blast
  then have "x = finish_task (se_role e) s1" using inv by blast
  then have "run_specialist e (new_task v ct oriented evidence) reg = (ss_evidence s1, finish_task (se_role e) s1)"
    unfolding run_specialist_def r prod.case x option.case by blast
  then show ?thesis using inv by blast
qed

lemma control_frame:
  "cs_request (control_node e x s reg) = cs_request s" "cs_context (control_node e x s reg) = cs_context s"
  "cs_scope (control_node e x s reg) = cs_scope s" "cs_waves (control_node e x s reg) = cs_waves s"
  "cs_drafts (control_node e x s reg) = cs_drafts s"
  by (simp_all add: control_node_def split: prod.splits)

lemma control_done:
  "cs_control (control_node e x s reg) =
   (if cs_control s \<noteq> None \<and> cs_context s \<noteq> None \<and> cs_request s \<noteq> None then map_option (\<lambda>ct. ct\<lparr>ct_done := True\<rparr>) (cs_control s) else cs_control s)"
proof -
  let ?e = "(xo_specialist x ''K'')\<lparr>se_limits := en_limits e, se_role := Control, se_thread := en_thread e\<rparr>"
  let ?t = "new_task None (cs_control s) (cs_context s \<noteq> None \<and> cs_request s \<noteq> None) (cs_evidence s)"
  obtain s1 where s1: "run_specialist ?e ?t reg = (ss_evidence s1, finish_task Control s1)" "same_task ?t s1"
    using run_specialist_out[of ?e None "cs_control s" "cs_context s \<noteq> None \<and> cs_request s \<noteq> None" "cs_evidence s" reg] by auto
  have "so_control (finish_task Control s1) =
      (if given Control s1 then map_option (\<lambda>ct. ct\<lparr>ct_done := True\<rparr>) (ss_control s1) else ss_control s1)"
    by (auto simp: finish_task_def given_view split: option.split)
  moreover have "ss_control s1 = cs_control s" "ss_oriented s1 = (cs_context s \<noteq> None \<and> cs_request s \<noteq> None)"
    using s1(2) by (simp_all add: same_task_def new_task_def)
  ultimately show ?thesis unfolding control_node_def s1(1) prod.case by (simp add: given_def)
qed

subsection \<open>A request ends, or waits for a person\<close>

definition pending_control :: "copilot_state \<Rightarrow> nat" where
  "pending_control s = (if control_pending s then 1 else 0)"

definition drafts_left :: "limits \<Rightarrow> copilot_state \<Rightarrow> nat" where
  "drafts_left l s = nat (limit_of l ''maxDrafts'' - cs_drafts s)"

definition waves_left :: "limits \<Rightarrow> copilot_state \<Rightarrow> nat" where
  "waves_left l s = nat (limit_of l ''maxWaves'' - cs_waves s)"

definition answering :: "nat \<Rightarrow> nat \<Rightarrow> nat" where
  "answering drafts control = (if drafts = 0 then 3 else 2 * drafts + 1) + 3 * control"

definition supersteps_left :: "limits \<Rightarrow> graph_node \<Rightarrow> copilot_state \<Rightarrow> nat" where
  "supersteps_left l node s =
     (let d = drafts_left l s; w = waves_left l s; c = pending_control s in
      case node of
        NEnd \<Rightarrow> 0 | NConfirm \<Rightarrow> 0 | NFinish \<Rightarrow> 1 | NApply \<Rightarrow> 2 | NDeclined \<Rightarrow> 2 | NPlanCheck \<Rightarrow> 2
      | NControl \<Rightarrow> answering d 0 + 1 | NVerify \<Rightarrow> 2 * d + 2 + 3 * c | NCompose \<Rightarrow> answering d c
      | NPlanner \<Rightarrow> 3 * w + answering d 1 + 1 | NJoin \<Rightarrow> 3 * w + answering d 1 + 2 | NSpecialists ids \<Rightarrow> 3 * w + answering d 1 + 3
      | NOrient \<Rightarrow> 3 * w + answering d 1 + 2
      | NIntake \<Rightarrow> 3 * nat (limit_of l ''maxWaves'') + answering (nat (limit_of l ''maxDrafts'')) 1 + 3)"

text \<open>Where the working nodes are reached: the building is known, and the controller's only with authority.\<close>

definition well_placed :: "graph_node \<Rightarrow> copilot_state \<Rightarrow> bool" where
  "well_placed node s =
     (case node of
        NPlanner \<Rightarrow> cs_context s \<noteq> None | NSpecialists ids \<Rightarrow> cs_context s \<noteq> None | NJoin \<Rightarrow> cs_context s \<noteq> None
      | NCompose \<Rightarrow> cs_context s \<noteq> None | NVerify \<Rightarrow> cs_context s \<noteq> None
      | NControl \<Rightarrow> cs_context s \<noteq> None \<and> may_control s \<and> control_pending s
      | _ \<Rightarrow> True)"

lemma may_control_request: "may_control s \<Longrightarrow> cs_request s \<noteq> None"
  by (cases "cs_request s") (simp_all add: may_control_def)

lemma after_planner_placed:
  "cs_context s \<noteq> None \<Longrightarrow> well_placed (after_planner s) s"
  by (auto simp: after_planner_def onward_node_def well_placed_def Let_def split: option.split next_step.split)

lemma after_planner_left:
  assumes "cs_route s = Some p" "pr_next p = NextDispatch \<longrightarrow> cs_waves s \<le> limit_of l ''maxWaves''"
  shows "supersteps_left l (after_planner s) s < 3 * waves_left l s + answering (drafts_left l s) 1 + 1 + (if pr_next p = NextDispatch then 3 else 0)"
  using assms
  by (auto simp: after_planner_def onward_node_def supersteps_left_def Let_def answering_def pending_control_def split: next_step.split option.split)

lemma planner_step_left:
  assumes "s1 = planner_node u instant l refused replies s"
  shows "supersteps_left l (after_planner s1) s1 < supersteps_left l NPlanner s"
proof -
  obtain p where p: "cs_route s1 = Some p" "pr_next p = NextDispatch \<longrightarrow> cs_waves s1 = cs_waves s + 1" "cs_drafts s1 = cs_drafts s"
    using planned_node[of s u instant l refused replies] assms by (auto simp: planned_def)
  have w: "cs_waves s < limit_of l ''maxWaves''" if "pr_next p = NextDispatch"
    using planner_wave[of u instant l refused replies s p] p(1) that assms by simp
  show ?thesis
  proof (cases "pr_next p = NextDispatch")
    case True
    then have "waves_left l s = waves_left l s1 + 1" using w[OF True] p(2) by (simp add: waves_left_def)
    then show ?thesis using after_planner_left[OF p(1), of l] w[OF True] p(2,3) True by (simp add: supersteps_left_def drafts_left_def)
  next
    case False
    then have "after_planner s1 \<in> {NCompose, NControl, NFinish}"
      using p(1) by (auto simp: after_planner_def onward_node_def split: next_step.split)
    then show ?thesis using p(3) by (auto simp: supersteps_left_def answering_def pending_control_def drafts_left_def)
  qed
qed

lemma compose_frame:
  "cs_request (compose_node l r s) = cs_request s" "cs_context (compose_node l r s) = cs_context s" "cs_scope (compose_node l r s) = cs_scope s"
  "cs_control (compose_node l r s) = cs_control s" "cs_waves (compose_node l r s) = cs_waves s"
  "cs_drafts (compose_node l r s) = (if limit_of l ''maxDrafts'' \<le> cs_drafts s then cs_drafts s else cs_drafts s + 1)"
  by (simp_all add: compose_node_def compose_unavailable_def split: call_reply.split)

lemma verify_frame:
  "cs_request (verify_node u l s) = cs_request s" "cs_context (verify_node u l s) = cs_context s" "cs_scope (verify_node u l s) = cs_scope s"
  "cs_control (verify_node u l s) = cs_control s" "cs_waves (verify_node u l s) = cs_waves s" "cs_drafts (verify_node u l s) = cs_drafts s"
  by (simp_all add: verify_node_def Let_def split: option.split)

lemma check_frame:
  "cs_request (plan_check_node e s) = cs_request s" "cs_context (plan_check_node e s) = cs_context s" "cs_scope (plan_check_node e s) = cs_scope s"
  "cs_control (plan_check_node e s) = cs_control s"
  by (simp_all add: plan_check_node_def refuse_plan_def split: option.split review.split prod.split)

lemma orient_frame:
  "cs_request (orient_node a b z m r s) = cs_request s" "cs_scope (orient_node a b z m r s) = cs_scope s" "cs_control (orient_node a b z m r s) = cs_control s"
  "cs_waves (orient_node a b z m r s) = cs_waves s" "cs_drafts (orient_node a b z m r s) = cs_drafts s"
  by (simp_all add: orient_node_def Let_def split: option.split)

lemma graph_step_left:
  assumes "well_placed (gf_node c) (gf_state c)" "gf_node c \<notin> {NEnd, NConfirm}" "gf_node c = NIntake \<longrightarrow> cs_inbox (gf_state c) \<noteq> None"
  shows "well_placed (gf_node (graph_step e x c)) (gf_state (graph_step e x c)) \<and>
    gf_node (graph_step e x c) \<noteq> NIntake \<and>
    supersteps_left (en_limits e) (gf_node (graph_step e x c)) (gf_state (graph_step e x c)) < supersteps_left (en_limits e) (gf_node c) (gf_state c)"
proof (cases "gf_node c")
  case NIntake
  then obtain s1 l1 r1 where i: "intake (xo_now x) (en_thread e) (en_user e) (gf_state c) (gf_ledger c) (gf_registry c) = Some (s1, l1, r1)"
    using assms(3) by (auto simp: intake_def Let_def)
  have "cs_waves s1 = 0" "cs_drafts s1 = 0" using i by (auto simp: intake_def empty_state_def Let_def split: option.splits)
  then show ?thesis
    by (simp add: graph_step_def NIntake i well_placed_def supersteps_left_def waves_left_def drafts_left_def Let_def)
next
  case NOrient
  then show ?thesis
    by (auto simp: graph_step_def Let_def after_orient_def well_placed_def supersteps_left_def waves_left_def drafts_left_def orient_frame)
next
  case NPlanner
  let ?s = "planner_node (en_unicode e) (en_instant e) (en_limits e) (refusal (xo_now x) (en_thread e) (gf_registry c)) (xo_decisions x) (gf_state c)"
  have "cs_context ?s \<noteq> None"
    using planned_node[of "gf_state c"] assms(1) NPlanner by (simp add: planned_def authority_kept_def well_placed_def)
  moreover have "after_planner ?s \<noteq> NIntake" by (auto simp: after_planner_def onward_node_def split: option.split next_step.split)
  ultimately show ?thesis
    using after_planner_placed planner_step_left[OF refl] by (simp add: graph_step_def NPlanner Let_def)
next
  case (NSpecialists ids)
  then show ?thesis using assms(1)
    by (simp add: graph_step_def Let_def well_placed_def specialists_frame supersteps_left_def waves_left_def drafts_left_def)
next
  case NJoin
  then show ?thesis using assms(1)
    by (simp add: graph_step_def Let_def well_placed_def supersteps_left_def waves_left_def drafts_left_def join_node_def)
next
  case NCompose
  then show ?thesis using assms(1)
    by (auto simp: graph_step_def Let_def well_placed_def compose_frame supersteps_left_def answering_def drafts_left_def pending_control_def control_pending_def)
next
  case NVerify
  then show ?thesis using assms(1)
    by (auto simp: graph_step_def Let_def well_placed_def verify_frame after_verify_def supersteps_left_def answering_def drafts_left_def
        pending_control_def control_pending_def may_control_def)
next
  case NControl
  then have c: "cs_context (gf_state c) \<noteq> None" "cs_request (gf_state c) \<noteq> None" "cs_control (gf_state c) \<noteq> None"
    using assms(1) may_control_request by (auto simp: well_placed_def control_pending_def split: option.splits)
  then have "pending_control (control_node e x (gf_state c) (gf_registry c)) = 0"
    by (auto simp: pending_control_def control_pending_def control_done)
  then show ?thesis using c NControl
    by (auto simp: graph_step_def Let_def well_placed_def after_control_def control_frame supersteps_left_def drafts_left_def answering_def)
qed (use assms in \<open>auto simp: graph_step_def Let_def well_placed_def after_plan_check_def supersteps_left_def split: prod.splits\<close>)

lemma graph_run_ends:
  assumes "asks c m"
  shows "\<exists>n \<le> supersteps_left (en_limits e) (gf_node c) (gf_state c). gf_node (graph_run e xs n c) \<in> {NEnd, NConfirm}"
proof (rule ccontr)
  let ?m = "supersteps_left (en_limits e)" and ?c = "\<lambda>n. graph_run e xs n c"
  assume "\<not> ?thesis"
  then have on: "gf_node (?c n) \<notin> {NEnd, NConfirm}" if "n \<le> ?m (gf_node c) (gf_state c)" for n using that by blast
  have "n \<le> ?m (gf_node c) (gf_state c) + 1 \<Longrightarrow> ?m (gf_node (?c n)) (gf_state (?c n)) + n \<le> ?m (gf_node c) (gf_state c) \<and>
      well_placed (gf_node (?c n)) (gf_state (?c n)) \<and> (gf_node (?c n) = NIntake \<longrightarrow> cs_inbox (gf_state (?c n)) \<noteq> None)" for n
  proof (induction n)
    case 0
    then show ?case using assms by (auto simp: asks_def well_placed_def)
  next
    case (Suc n)
    then show ?case using graph_step_left[of "?c n" e "xs n"] on[of n] by auto
  qed
  from this[of "?m (gf_node c) (gf_state c) + 1"] show False by simp
qed

text \<open>C9: A new message's request comes to its end, or to a plan that waits for a person, within three supersteps per wave, two per draft
  and seven more, whatever the models, the tools, the reads and the registry answer: 22 with the default limits, below the recursion
  limit of 40. (The deeper levels are the specialists' own.)\<close>
theorem request_ends_or_waits:
  assumes "asks c m" "0 < limit_of (en_limits e) ''maxDrafts''" "0 \<le> limit_of (en_limits e) ''maxWaves''"
  shows "\<exists>n. int n \<le> 3 * limit_of (en_limits e) ''maxWaves'' + 2 * limit_of (en_limits e) ''maxDrafts'' + 7 \<and>
    gf_node (graph_run e xs n c) \<in> {NEnd, NConfirm}"
proof -
  obtain n where n: "n \<le> supersteps_left (en_limits e) (gf_node c) (gf_state c)" "gf_node (graph_run e xs n c) \<in> {NEnd, NConfirm}"
    using graph_run_ends[OF assms(1)] by blast
  have "int (supersteps_left (en_limits e) (gf_node c) (gf_state c)) = 3 * limit_of (en_limits e) ''maxWaves'' + 2 * limit_of (en_limits e) ''maxDrafts'' + 7"
    using assms by (simp add: asks_def supersteps_left_def answering_def Let_def)
  then show ?thesis using n by (intro exI[of _ n]) simp
qed

subsection \<open>Authority comes from the message and the first decision\<close>

definition gate_nodes :: "graph_node set" where
  "gate_nodes = {NControl, NPlanCheck, NConfirm, NApply, NDeclined}"

definition kept :: "copilot_state \<Rightarrow> copilot_state \<Rightarrow> bool" where
  "kept s s' = (cs_request s' = cs_request s \<and> (\<forall>sc. cs_scope s = Some sc \<longrightarrow> cs_scope s' = Some sc))"

lemma kept_may: "kept s s' \<Longrightarrow> may_control s \<Longrightarrow> may_control s'"
  by (auto simp: kept_def may_control_def split: option.splits)

lemma kept_trans: "kept s s' \<Longrightarrow> kept s' s'' \<Longrightarrow> kept s s''"
  by (simp add: kept_def)

lemma confirm_frame: "fst (confirm_node d now swept stamp thread resume s l) = s\<lparr>cs_decision := cs_decision (fst (confirm_node d now swept stamp thread resume s l))\<rparr>"
  by (simp add: confirm_node_def split: option.split prod.split bool.split)

lemma apply_frame:
  "cs_request (fst (apply_node now thread stp issue s l)) = cs_request s" "cs_scope (fst (apply_node now thread stp issue s l)) = cs_scope s"
  by (simp_all add: apply_node_def Let_def split: option.split prod.split)

lemma graph_step_kept: "gf_node c \<noteq> NIntake \<Longrightarrow> kept (gf_state c) (gf_state (graph_step e x c))"
proof (cases "gf_node c")
  case NPlanner
  then show ?thesis using planned_node[of "gf_state c"] by (simp add: graph_step_def Let_def kept_def planned_def authority_kept_def)
next
  case NConfirm
  obtain s1 l1 where c: "confirm_node (en_digest e) (xo_now x) (xo_swept x) (xo_stamp x) (en_thread e) (xo_resume x) (gf_state c) (gf_ledger c) = (s1, l1)"
    by (cases "confirm_node (en_digest e) (xo_now x) (xo_swept x) (xo_stamp x) (en_thread e) (xo_resume x) (gf_state c) (gf_ledger c)")
  have s1: "s1 = (gf_state c)\<lparr>cs_decision := cs_decision s1\<rparr>"
    using confirm_frame[of "en_digest e" "xo_now x" "xo_swept x" "xo_stamp x" "en_thread e" "xo_resume x" "gf_state c" "gf_ledger c"] by (simp add: c)
  then have "cs_request s1 = cs_request (gf_state c)" "cs_scope s1 = cs_scope (gf_state c)" by (metis copilot_state.select_convs copilot_state.surjective copilot_state.update_convs)+
  then show ?thesis by (simp add: graph_step_def Let_def NConfirm c kept_def)
next
  case NApply
  obtain s1 l1 sent where a: "apply_node (xo_now x) (en_thread e) (xo_stopped x) (xo_issue x) (gf_state c) (gf_ledger c) = (s1, l1, sent)"
    by (cases "apply_node (xo_now x) (en_thread e) (xo_stopped x) (xo_issue x) (gf_state c) (gf_ledger c)") auto
  show ?thesis
    using apply_frame[of "xo_now x" "en_thread e" "xo_stopped x" "xo_issue x" "gf_state c" "gf_ledger c"]
    by (simp add: graph_step_def Let_def NApply a kept_def)
qed (auto simp: graph_step_def Let_def kept_def orient_frame specialists_frame join_node_def compose_frame verify_frame control_frame check_frame
      declined_node_def finish_node_def)

lemma graph_step_gate:
  assumes "gf_node c \<noteq> NIntake" "gf_node (graph_step e x c) \<in> gate_nodes"
  shows "gf_node c \<in> gate_nodes \<or> may_control (gf_state (graph_step e x c))"
proof (cases "gf_node c")
  case NPlanner
  then show ?thesis
    using assms(2)
    by (auto simp: graph_step_def Let_def gate_nodes_def after_planner_def onward_node_def split: option.splits next_step.splits if_splits)
next
  case NVerify
  then show ?thesis using assms(2) by (auto simp: graph_step_def Let_def gate_nodes_def after_verify_def split: if_splits)
qed (use assms in \<open>auto simp: graph_step_def Let_def gate_nodes_def after_orient_def finish_node_def split: if_splits\<close>)

lemma graph_step_issued: "gf_issued (graph_step e x c) \<noteq> gf_issued c \<Longrightarrow> gf_node c = NApply"
  by (cases "gf_node c") (auto simp: graph_step_def Let_def split: option.splits prod.splits)

lemma graph_step_no_intake: "gf_node c \<noteq> NIntake \<Longrightarrow> gf_node (graph_step e x c) \<noteq> NIntake"
  by (cases "gf_node c") (auto simp: graph_step_def Let_def after_orient_def after_planner_def onward_node_def after_verify_def
      after_control_def after_plan_check_def after_confirm_def split: option.splits next_step.splits prod.splits)

definition under_authority :: "graph_config \<Rightarrow> inbox_message \<Rightarrow> graph_config \<Rightarrow> bool" where
  "under_authority c0 m c =
     (if gf_node c = NIntake then c = c0
      else map_option rs_may_command (cs_request (gf_state c)) = Some (ib_may_command m) \<and>
           (gf_node c \<in> gate_nodes \<or> gf_issued c \<noteq> gf_issued c0 \<longrightarrow> may_control (gf_state c)))"

lemma graph_run_authority:
  assumes "asks c m"
  shows "under_authority c m (graph_run e xs n c)"
proof (induction n)
  case 0
  then show ?case using assms by (simp add: under_authority_def asks_def)
next
  case (Suc n)
  let ?c = "graph_run e xs n c" and ?d = "graph_step e (xs n) (graph_run e xs n c)"
  show ?case
  proof (cases "gf_node ?c = NIntake")
    case True
    then have c: "?c = c" using Suc.IH by (simp add: under_authority_def)
    have "cs_inbox (gf_state c) = Some m" "gf_node c = NIntake" using assms by (simp_all add: asks_def)
    then show ?thesis
      by (auto simp: c under_authority_def graph_step_def intake_def Let_def gate_nodes_def empty_state_def)
  next
    case False
    have kept: "kept (gf_state ?c) (gf_state ?d)" by (rule graph_step_kept[OF False])
    have IH: "map_option rs_may_command (cs_request (gf_state ?c)) = Some (ib_may_command m)"
      "gf_node ?c \<in> gate_nodes \<or> gf_issued ?c \<noteq> gf_issued c \<Longrightarrow> may_control (gf_state ?c)"
      using Suc.IH False by (simp_all add: under_authority_def)
    have "may_control (gf_state ?d)" if "gf_node ?d \<in> gate_nodes"
      using graph_step_gate[OF False that] IH(2) kept_may[OF kept] by blast
    moreover have "may_control (gf_state ?d)" if "gf_issued ?d \<noteq> gf_issued c"
    proof (cases "gf_issued ?d = gf_issued ?c")
      case True
      then show ?thesis using that IH(2) kept_may[OF kept] by metis
    next
      case False
      then have "gf_node ?c \<in> gate_nodes" using graph_step_issued[OF False] by (simp add: gate_nodes_def)
      then show ?thesis using IH(2) kept_may[OF kept] by blast
    qed
    ultimately show ?thesis using graph_step_no_intake[OF False] IH(1) kept by (simp add: under_authority_def kept_def)
  qed
qed

lemma graph_run_kept:
  assumes "asks c m" "k \<le> n" "gf_node (graph_run e xs k c) \<noteq> NIntake"
  shows "kept (gf_state (graph_run e xs k c)) (gf_state (graph_run e xs n c)) \<and> gf_node (graph_run e xs n c) \<noteq> NIntake"
  using assms(2)
proof (induction n rule: dec_induct)
  case base
  then show ?case using assms(3) by (simp add: kept_def)
next
  case (step n)
  then have node: "gf_node (graph_run e xs n c) \<noteq> NIntake" and kept: "kept (gf_state (graph_run e xs k c)) (gf_state (graph_run e xs n c))" by blast+
  have "gf_node (graph_run e xs (Suc n) c) \<noteq> NIntake"
    using graph_step_no_intake[OF node] by simp
  then show ?case using kept_trans[OF kept graph_step_kept[OF node, of e "xs n"]] by simp
qed

text \<open>C4: A request reaches the controller, the plan check, the person or \<open>apply\<close>, or issues anything, only if the person who asked may
  command and the first decision that fixed the request's scope allows control; no later decision can change either.\<close>
theorem control_needs_authority:
  assumes "asks c m" "gf_node (graph_run e xs n c) \<in> gate_nodes \<or> gf_issued (graph_run e xs n c) \<noteq> gf_issued c"
    and "k \<le> n" "gf_node (graph_run e xs k c) \<noteq> NIntake" "cs_scope (gf_state (graph_run e xs k c)) = Some sc"
  shows "ib_may_command m \<and> sc_control sc"
proof -
  let ?c = "graph_run e xs n c"
  have kept: "kept (gf_state (graph_run e xs k c)) (gf_state ?c)" "gf_node ?c \<noteq> NIntake"
    using graph_run_kept[OF assms(1,3,4)] by blast+
  have "may_control (gf_state ?c)" "map_option rs_may_command (cs_request (gf_state ?c)) = Some (ib_may_command m)"
    using graph_run_authority[OF assms(1), of e xs n] kept(2) assms(2) by (auto simp: under_authority_def)
  then show ?thesis using kept(1) assms(5) by (auto simp: may_control_def kept_def)
qed

subsection \<open>A request whose planner cannot be asked\<close>

definition cool_graph :: graph_env where
  "cool_graph = \<lparr>en_unicode = ascii_classes, en_instant = (\<lambda>s. True), en_digest = zero_digest, en_limits = default_limits, en_line = (\<lambda>c. []),
     en_sim = False, en_user = ''ann'', en_thread = ''t''\<rparr>"

definition cool_outside :: outside where
  "cool_outside = \<lparr>xo_now = 0, xo_swept = 0, xo_stamp = 0, xo_snapshot = Some \<lparr>os_building = Some ''HQ'', os_multiple = False,
       os_directory = tw_directory cool_world\<rparr>, xo_settings = True, xo_zone_known = True, xo_records = [], xo_decisions = (\<lambda>k. CallBroken),
     xo_specialist = (\<lambda>i. cool_env), xo_draft = CallBroken, xo_probe = (\<lambda>i c. Some (Allowed 24 3600 0)), xo_checked = 0, xo_plan_id = lab,
     xo_resume = JNull, xo_stopped = (\<lambda>i. False), xo_issue = (\<lambda>i r. None), xo_registry = (\<lambda>r. r)\<rparr>"

definition cool_message :: inbox_message where
  "cool_message = \<lparr>ib_request = ''r1'', ib_text = ''cool the lab'', ib_may_command = True\<rparr>"

definition cool_arrival :: graph_config where
  "cool_arrival = \<lparr>gf_node = NIntake, gf_state = empty_state\<lparr>cs_inbox := Some cool_message\<rparr>, gf_ledger = new_ledger 60 300 12,
     gf_registry = new_registry default_limits, gf_issued = []\<rparr>"

lemma cool_asks: "asks cool_arrival cool_message"
  by (simp add: asks_def cool_arrival_def empty_state_def)

lemma graph_limits:
  "limit_of default_limits ''maxDrafts'' = 3" "limit_of default_limits ''maxWaves'' = 3" "limit_of default_limits ''maxPlannerRepairs'' = 1"
  "limit_of default_limits ''dialogueKept'' = 40" "limit_of default_limits ''deadlineS'' = 300" "limit_of default_limits ''maxModelCalls'' = 40"
  by code_simp+

theorem request_ends_or_waits_witness:
  "\<exists>n. int n \<le> 22 \<and> gf_node (graph_run cool_graph (\<lambda>k. cool_outside) n cool_arrival) \<in> {NEnd, NConfirm}"
  using request_ends_or_waits[OF cool_asks, of cool_graph "\<lambda>k. cool_outside"] by (simp add: cool_graph_def graph_limits)

lemma cool_planned:
  "gf_node (graph_run cool_graph (\<lambda>k. cool_outside) 3 cool_arrival) = NControl \<and>
   cs_scope (gf_state (graph_run cool_graph (\<lambda>k. cool_outside) 3 cool_arrival)) = Some \<lparr>sc_control = True, sc_simulation = False, sc_source = FromFallback\<rparr>"
proof -
  obtain c1 where c1: "graph_step cool_graph cool_outside cool_arrival = c1" "gf_node c1 = NOrient"
      "cs_request (gf_state c1) = Some cool_stamp" "cs_scope (gf_state c1) = None" "cs_control (gf_state c1) = None" "cs_findings (gf_state c1) = []"
      "cs_waves (gf_state c1) = 0" "cs_notices (gf_state c1) = []" "jget (rr_entries (gf_registry c1)) ''t'' = Some (fresh_request default_limits 0 ''r1'')"
      "rr_limits (gf_registry c1) = default_limits"
    by (simp add: graph_step_def cool_arrival_def intake_def empty_state_def cool_message_def cool_graph_def cool_outside_def cool_stamp_def
        begin_request_def sweep_requests_def new_registry_def Let_def)
  obtain c2 where c2: "graph_step cool_graph cool_outside c1 = c2" "gf_node c2 = NPlanner" "cs_context (gf_state c2) \<noteq> None"
      "cs_request (gf_state c2) = Some cool_stamp" "cs_scope (gf_state c2) = None" "cs_control (gf_state c2) = None" "cs_findings (gf_state c2) = []"
      "cs_waves (gf_state c2) = 0" "jget (rr_entries (gf_registry c2)) ''t'' = Some (fresh_request default_limits 0 ''r1'')"
      "rr_limits (gf_registry c2) = default_limits"
    using c1 by (simp add: graph_step_def orient_node_def after_orient_def cool_outside_def cool_graph_def Let_def say_def)
  have "refusal 0 ''t'' (gf_registry c2) = None" using c2 by (simp add: refusal_def fresh_request_def graph_limits)
  moreover have "planner_node ascii_classes (\<lambda>s. True) default_limits None (\<lambda>k. CallBroken) (gf_state c2) = planner_fallback None (gf_state c2)"
    using c2(3,4,8) by (auto simp: planner_node_def graph_limits numeral_2_eq_2)
  moreover have "after_planner (planner_fallback None (gf_state c2)) = NControl"
      "cs_scope (planner_fallback None (gf_state c2)) = Some \<lparr>sc_control = True, sc_simulation = False, sc_source = FromFallback\<rparr>"
    using c2(3-8) by (simp_all add: planner_fallback_def fallback_controls_def cool_stamp_def route_to_def write_scope_def after_planner_def
        control_pending_def may_control_def)
  ultimately have "gf_node (graph_step cool_graph cool_outside c2) = NControl"
      "cs_scope (gf_state (graph_step cool_graph cool_outside c2)) = Some \<lparr>sc_control = True, sc_simulation = False, sc_source = FromFallback\<rparr>"
    by (simp_all add: graph_step_def c2(2) Let_def cool_graph_def cool_outside_def)
  moreover have "graph_run cool_graph (\<lambda>k. cool_outside) 3 cool_arrival = graph_step cool_graph cool_outside c2"
    by (simp add: numeral_3_eq_3 c1(1) c2(1))
  ultimately show ?thesis by simp
qed

theorem control_needs_authority_witness: "ib_may_command cool_message \<and> gf_node (graph_run cool_graph (\<lambda>k. cool_outside) 3 cool_arrival) = NControl"
  using control_needs_authority[OF cool_asks, of cool_graph "\<lambda>k. cool_outside" 3 3] cool_planned by (simp add: gate_nodes_def)

end
