(* ===== verification/Copilot_Gate.thy ===== *)
theory Copilot_Gate
  imports Copilot_Plan
begin

section \<open>One door to the building\<close>

text \<open>
  Every thread of one graph, with any state at any moment: whatever a model, a tool, another node or a forged checkpoint
  writes is the event \<open>GState\<close>. The two nodes that matter, \<open>confirm\<close> and \<open>apply\<close>, can be entered at any time. What a person
  approved and what left for the control service are recorded.
\<close>

record gate =
  ga_states :: "string \<Rightarrow> copilot_state"
  ga_ledger :: ledger
  ga_approved :: "(string \<times> resume_value \<times> ms) list"
  ga_issued :: "(string \<times> string option \<times> ms \<times> issue_request list) list"

datatype gate_event =
    GState string copilot_state
  | GRevoke string
  | GConfirm string ms ms ms json
  | GApply string ms "nat \<Rightarrow> bool" "nat \<Rightarrow> issue_request \<Rightarrow> issue_result option"

fun gate_step :: "digest \<Rightarrow> gate_event \<Rightarrow> gate \<Rightarrow> gate" where
  "gate_step d (GState t s) g = g\<lparr>ga_states := (ga_states g)(t := s)\<rparr>"
| "gate_step d (GRevoke t) g = g\<lparr>ga_ledger := revoke_grant t (ga_ledger g)\<rparr>"
| "gate_step d (GConfirm t now swept stamp resume) g =
     (case confirm_node d now swept stamp t resume (ga_states g t) (ga_ledger g) of
        (s, l) \<Rightarrow> g\<lparr>ga_states := (ga_states g)(t := s), ga_ledger := l,
          ga_approved := ga_approved g @
            (case resume_of resume of Some v \<Rightarrow> if rv_approved v then [(t, v, stamp)] else [] | None \<Rightarrow> [])\<rparr>)"
| "gate_step d (GApply t now stopped issue) g =
     (case apply_node now t stopped issue (ga_states g t) (ga_ledger g) of
        (s, l, sent) \<Rightarrow> g\<lparr>ga_states := (ga_states g)(t := s), ga_ledger := l,
          ga_issued := ga_issued g @ [(t, map_option rp_id (cs_plan (ga_states g t)), now, sent)]\<rparr>)"

definition gate_run :: "digest \<Rightarrow> ledger \<Rightarrow> gate_event list \<Rightarrow> gate" where
  "gate_run d l evs = fold (gate_step d) evs \<lparr>ga_states = (\<lambda>t. empty_state), ga_ledger = l, ga_approved = [], ga_issued = []\<rparr>"

subsection \<open>Grants come from approvals\<close>

definition approved_grant :: "digest \<Rightarrow> gate \<Rightarrow> string \<Rightarrow> grant \<Rightarrow> bool" where
  "approved_grant d g t x =
     (\<exists>v. (t, v, gt_at x) \<in> set (ga_approved g) \<and> rv_plan v = gt_plan x \<and> rv_hash v = hash_commands d (map command_json (gt_commands x)))"

definition issued_on :: "string \<Rightarrow> gate \<Rightarrow> nat" where
  "issued_on t g = length (filter (\<lambda>(u, plan, now, sent). u = t \<and> sent \<noteq> []) (ga_issued g))"

definition approved_on :: "string \<Rightarrow> gate \<Rightarrow> nat" where
  "approved_on t g = length (filter (\<lambda>(u, v, stamp). u = t) (ga_approved g))"

definition sent_ok :: "digest \<Rightarrow> ms \<Rightarrow> gate \<Rightarrow> string \<times> string option \<times> ms \<times> issue_request list \<Rightarrow> bool" where
  "sent_ok d ttl g x =
     (case x of (t, plan, now, sent) \<Rightarrow>
        sent \<noteq> [] \<longrightarrow>
        (\<exists>v stamp gs k. (t, v, stamp) \<in> set (ga_approved g) \<and> plan = Some (rv_plan v) \<and> rv_hash v = hash_commands d (map command_json gs) \<and>
           sent = map request_of (take k gs) \<and> stamp \<le> now \<and> now < stamp + ttl))"

definition gate_inv :: "digest \<Rightarrow> ms \<Rightarrow> gate \<Rightarrow> bool" where
  "gate_inv d ttl g =
     (jwf (lg_grants (ga_ledger g)) \<and> lg_ttl (ga_ledger g) = ttl \<and>
      (\<forall>t x. jget (lg_grants (ga_ledger g)) t = Some x \<longrightarrow> approved_grant d g t x) \<and>
      list_all (sent_ok d ttl g) (ga_issued g) \<and>
      (\<forall>t. issued_on t g + (if jget (lg_grants (ga_ledger g)) t = None then 0 else 1) \<le> approved_on t g))"

lemma swept_grants:
  "jwf (lg_grants l) \<Longrightarrow> jwf (lg_grants (sweep_ledger swept l)) \<and> lg_ttl (sweep_ledger swept l) = lg_ttl l \<and>
   (\<forall>t x. jget (lg_grants (sweep_ledger swept l)) t = Some x \<longrightarrow> jget (lg_grants l) t = Some x)"
  by (auto simp: sweep_ledger_def distinct_map_filter)

lemma grant_plan_ledger:
  assumes "grant_plan d swept stamp thread p l = (ok, l')" "jwf (lg_grants l)"
  shows "jwf (lg_grants l') \<and> lg_ttl l' = lg_ttl l \<and>
    (\<forall>t x. jget (lg_grants l') t = Some x \<longrightarrow> jget (lg_grants l) t = Some x \<or>
       ok \<and> t = thread \<and> gt_at x = stamp \<and> pl_id p = JString (gt_plan x) \<and> pl_hash p = JString (gt_hash x) \<and>
       gt_hash x = hash_commands d (map command_json (gt_commands x)))"
proof (cases ok)
  case True
  obtain i h cs gs where g: "pl_id p = JString i" "pl_hash p = JString h" "project (JArray cs) (lg_max l) = Some gs" "hash_commands d cs = h"
    "l' = (sweep_ledger swept l)\<lparr>lg_grants := jset thread \<lparr>gt_plan = i, gt_hash = h, gt_commands = gs, gt_at = stamp\<rparr> (lg_grants (sweep_ledger swept l)),
       lg_granted := jset i stamp (lg_granted (sweep_ledger swept l))\<rparr>"
    using grant_plan_True assms(1) True by metis
  have "hash_commands d (map command_json gs) = h" using project_hash[OF g(3)] g(4) by simp
  then show ?thesis using True g(1,2) swept_grants[OF assms(2), of swept] by (auto simp: g(5) simp del: map_of_eq_Some_iff split: if_splits)
next
  case False
  then have "l' = sweep_ledger swept l \<or> l' = revoke_grant thread (sweep_ledger swept l)"
    using assms(1) by (simp add: grant_plan_def Let_def split: json.splits option.splits if_splits)
  then show ?thesis using swept_grants[OF assms(2), of swept] by (auto simp: revoke_grant_def simp del: map_of_eq_Some_iff split: if_splits)
qed

lemma confirm_ledger:
  assumes "confirm_node d now swept stamp thread resume s l = (s', l')" "jwf (lg_grants l)"
  shows "jwf (lg_grants l') \<and> lg_ttl l' = lg_ttl l \<and>
    (\<forall>t x. jget (lg_grants l') t = Some x \<longrightarrow> jget (lg_grants l) t = Some x \<or>
       t = thread \<and> gt_at x = stamp \<and>
       (\<exists>v. resume_of resume = Some v \<and> rv_approved v \<and> rv_plan v = gt_plan x \<and> rv_hash v = hash_commands d (map command_json (gt_commands x))))"
proof (cases "l' = l")
  case True
  then show ?thesis using assms(2) by simp
next
  case False
  then obtain p v ok where p: "resume_of resume = Some v" "rv_approved v" "plan_named d v p" "grant_plan d swept stamp thread (grantable_of p) l = (ok, l')"
    using assms(1) by (auto simp: confirm_node_def split: option.splits if_splits prod.splits bool.splits)
  have ids: "pl_id (grantable_of p) = JString (rv_plan v)" "pl_hash (grantable_of p) = JString (rv_hash v)"
    using p(3) by (simp_all add: grantable_of_def plan_named_def)
  note l' = grant_plan_ledger[OF p(4) assms(2)]
  have "jget (lg_grants l) t = Some x \<or> t = thread \<and> gt_at x = stamp \<and> rv_plan v = gt_plan x \<and> rv_hash v = hash_commands d (map command_json (gt_commands x))"
    if "jget (lg_grants l') t = Some x" for t x
    using l' that ids by (metis json.inject(3))
  then show ?thesis using l' p(1,2) by blast
qed

lemma apply_ledger:
  assumes "apply_node now thread stp issue s l = (s', l', sent)" "jwf (lg_grants l)"
  shows "jwf (lg_grants l') \<and> lg_ttl l' = lg_ttl l \<and> (\<forall>t. jget (lg_grants l') t = (if t = thread then None else jget (lg_grants l) t)) \<and>
    (sent \<noteq> [] \<longrightarrow> (\<exists>x k. jget (lg_grants l) thread = Some x \<and> map_option rp_id (cs_plan s) = Some (gt_plan x) \<and>
       sent = map request_of (take k (gt_commands x)) \<and> gt_at x \<le> now \<and> now < gt_at x + lg_ttl l))"
proof -
  obtain g where g: "take_grant now thread l = (g, l')"
    using assms(1) by (auto simp: apply_node_def Let_def split: prod.splits option.splits if_splits)
  have l': "jwf (lg_grants l') \<and> lg_ttl l' = lg_ttl l \<and> (\<forall>t. jget (lg_grants l') t = (if t = thread then None else jget (lg_grants l) t))"
    using g assms(2) by (auto simp: take_grant_def revoke_grant_def split: option.splits)
  moreover have "\<exists>x k. jget (lg_grants l) thread = Some x \<and> map_option rp_id (cs_plan s) = Some (gt_plan x) \<and>
       sent = map request_of (take k (gt_commands x)) \<and> gt_at x \<le> now \<and> now < gt_at x + lg_ttl l" if ne: "sent \<noteq> []"
  proof -
    obtain x os h where x: "g = Some x" "map_option rp_id (cs_plan s) = Some (gt_plan x)"
        "apply_commands stp issue 0 False (gt_commands x) = (os, sent, h)"
      using assms(1) ne by (auto simp: apply_node_def Let_def g split: prod.splits option.splits if_splits)
    then show ?thesis
      using apply_commands_sent[OF x(3)] g by (auto simp: take_grant_def split: option.splits if_splits)
  qed
  ultimately show ?thesis by blast
qed

lemma records_frame [simp]:
  "sent_ok d ttl (g\<lparr>ga_states := f\<rparr>) = sent_ok d ttl g" "sent_ok d ttl (g\<lparr>ga_ledger := l\<rparr>) = sent_ok d ttl g"
  "approved_grant d (g\<lparr>ga_states := f\<rparr>) = approved_grant d g" "approved_grant d (g\<lparr>ga_ledger := l\<rparr>) = approved_grant d g"
  "issued_on t (g\<lparr>ga_states := f\<rparr>) = issued_on t g" "issued_on t (g\<lparr>ga_ledger := l\<rparr>) = issued_on t g"
  "approved_on t (g\<lparr>ga_states := f\<rparr>) = approved_on t g" "approved_on t (g\<lparr>ga_ledger := l\<rparr>) = approved_on t g"
  by (simp_all add: fun_eq_iff sent_ok_def approved_grant_def issued_on_def approved_on_def)

lemma gate_inv_revoke:
  assumes "gate_inv d ttl g"
  shows "gate_inv d ttl (g\<lparr>ga_ledger := revoke_grant t (ga_ledger g)\<rparr>)"
proof -
  have old: "issued_on u g + (if jget (lg_grants (ga_ledger g)) u = None then 0 else 1) \<le> approved_on u g" for u
    using assms by (simp add: gate_inv_def)
  have counts: "issued_on u g + (if jget (jdel t (lg_grants (ga_ledger g))) u = None then 0 else 1) \<le> approved_on u g" for u
    using old[of u] add_leD1[OF old[of u]] by (cases "u = t") simp_all
  have "approved_grant d g u x" if "jget (jdel t (lg_grants (ga_ledger g))) u = Some x" for u x
    using assms that by (auto simp: gate_inv_def split: if_splits)
  then show ?thesis using assms counts by (simp add: gate_inv_def revoke_grant_def)
qed

lemma sent_ok_more: "sent_ok d ttl g x \<Longrightarrow> set (ga_approved g) \<subseteq> set (ga_approved g') \<Longrightarrow> sent_ok d ttl g' x"
  by (cases x) (fastforce simp: sent_ok_def)

lemma gate_inv_confirm:
  assumes inv: "gate_inv d ttl g"
  shows "gate_inv d ttl (gate_step d (GConfirm t now swept stamp resume) g)"
proof -
  obtain s l where c: "confirm_node d now swept stamp t resume (ga_states g t) (ga_ledger g) = (s, l)"
    by (cases "confirm_node d now swept stamp t resume (ga_states g t) (ga_ledger g)")
  let ?new = "case resume_of resume of Some v \<Rightarrow> if rv_approved v then [(t, v, stamp)] else [] | None \<Rightarrow> []"
  let ?g = "g\<lparr>ga_states := (ga_states g)(t := s), ga_ledger := l, ga_approved := ga_approved g @ ?new\<rparr>"
  have step: "gate_step d (GConfirm t now swept stamp resume) g = ?g" by (simp add: c)
  note l = confirm_ledger[OF c]
  have wf: "jwf (lg_grants (ga_ledger g))" using inv by (simp add: gate_inv_def)
  have grants: "approved_grant d ?g u x" if x: "jget (lg_grants l) u = Some x" for u x
  proof (cases "jget (lg_grants (ga_ledger g)) u = Some x")
    case True
    then have "approved_grant d g u x" using inv by (simp add: gate_inv_def)
    then show ?thesis by (auto simp: approved_grant_def)
  next
    case False
    then obtain v where "u = t" "gt_at x = stamp" "resume_of resume = Some v" "rv_approved v" "rv_plan v = gt_plan x"
        "rv_hash v = hash_commands d (map command_json (gt_commands x))"
      using l[OF wf] x by blast
    then show ?thesis by (auto simp: approved_grant_def)
  qed
  have counts: "issued_on u ?g + (if jget (lg_grants l) u = None then 0 else 1) \<le> approved_on u ?g" for u
  proof -
    have old: "issued_on u g + (if jget (lg_grants (ga_ledger g)) u = None then 0 else 1) \<le> approved_on u g"
      using inv by (simp add: gate_inv_def)
    have same: "issued_on u ?g = issued_on u g" "approved_on u ?g = approved_on u g + (if ?new \<noteq> [] \<and> u = t then 1 else 0)"
      by (auto simp: issued_on_def approved_on_def split: option.splits)
    show ?thesis
    proof (cases "jget (lg_grants l) u = None \<or> jget (lg_grants (ga_ledger g)) u \<noteq> None")
      case True
      then show ?thesis using old same by (auto split: if_splits)
    next
      case False
      then obtain x where "jget (lg_grants l) u = Some x" "jget (lg_grants (ga_ledger g)) u \<noteq> Some x" by auto
      then obtain v where "u = t" "resume_of resume = Some v" "rv_approved v" using l[OF wf] by blast
      then show ?thesis using old same by simp
    qed
  qed
  have "list_all (sent_ok d ttl ?g) (ga_issued g)"
    using inv sent_ok_more[of d ttl g _ ?g] by (auto simp: gate_inv_def list_all_iff)
  then show ?thesis unfolding step using l[OF wf] inv grants counts by (simp add: gate_inv_def)
qed

lemma gate_inv_apply:
  assumes inv: "gate_inv d ttl g"
  shows "gate_inv d ttl (gate_step d (GApply t now stp issue) g)"
proof -
  obtain s l sent where a: "apply_node now t stp issue (ga_states g t) (ga_ledger g) = (s, l, sent)"
    by (cases "apply_node now t stp issue (ga_states g t) (ga_ledger g)") auto
  let ?x = "(t, map_option rp_id (cs_plan (ga_states g t)), now, sent)"
  let ?g = "g\<lparr>ga_states := (ga_states g)(t := s), ga_ledger := l, ga_issued := ga_issued g @ [?x]\<rparr>"
  have step: "gate_step d (GApply t now stp issue) g = ?g" by (simp add: a)
  have wf: "jwf (lg_grants (ga_ledger g))" and ttl: "lg_ttl (ga_ledger g) = ttl" using inv by (simp_all add: gate_inv_def)
  note l = apply_ledger[OF a wf]
  have grants: "approved_grant d ?g u x" if "jget (lg_grants l) u = Some x" for u x
    using that l inv by (auto simp: gate_inv_def approved_grant_def split: if_splits)
  have new: "sent_ok d ttl ?g ?x"
  proof (cases "sent = []")
    case False
    then obtain x k where x: "jget (lg_grants (ga_ledger g)) t = Some x" "map_option rp_id (cs_plan (ga_states g t)) = Some (gt_plan x)"
        "sent = map request_of (take k (gt_commands x))" "gt_at x \<le> now" "now < gt_at x + ttl"
      using l ttl by blast
    then have "approved_grant d g t x" using inv by (simp add: gate_inv_def)
    then show ?thesis using x unfolding sent_ok_def approved_grant_def by force
  qed (simp add: sent_ok_def)
  moreover have "list_all (sent_ok d ttl ?g) (ga_issued g)"
    using inv sent_ok_more[of d ttl g _ ?g] by (auto simp: gate_inv_def list_all_iff)
  moreover have "issued_on u ?g + (if jget (lg_grants l) u = None then 0 else 1) \<le> approved_on u ?g" for u
  proof -
    have "issued_on u g + (if jget (lg_grants (ga_ledger g)) u = None then 0 else 1) \<le> approved_on u g" using inv by (simp add: gate_inv_def)
    moreover have "issued_on u ?g = issued_on u g + (if u = t \<and> sent \<noteq> [] then 1 else 0)" "approved_on u ?g = approved_on u g"
      by (auto simp: issued_on_def approved_on_def)
    moreover have "jget (lg_grants (ga_ledger g)) t \<noteq> None" if "sent \<noteq> []" using l that by blast
    ultimately show ?thesis using l by (cases "u = t") auto
  qed
  ultimately show ?thesis unfolding step using l grants inv by (simp add: gate_inv_def)
qed

lemma gate_run_inv: "gate_inv d (grant_ttl_s * 1000) (gate_run d (new_ledger grant_ttl_s plan_ttl_s n) evs)"
  unfolding gate_run_def
proof (induction evs rule: rev_induct)
  case Nil
  then show ?case by (simp add: gate_inv_def new_ledger_def issued_on_def approved_on_def)
next
  case (snoc ev evs)
  then show ?case
  proof (cases ev)
    case (GState t s)
    then show ?thesis
      using snoc by (simp add: gate_inv_def)
  qed (simp_all add: gate_inv_revoke gate_inv_confirm gate_inv_apply del: gate_step.simps(3,4))
qed

text \<open>C2: Whatever the state of any thread is forged to and whenever \<open>confirm\<close> and \<open>apply\<close> are entered, what leaves for the control
  service is an initial part of the commands of one plan that a person approved on that very thread, by an id and a hash that those
  commands have, less than the grant's lifetime before.\<close>
theorem issued_was_approved:
  assumes "(thread, plan, now, sent) \<in> set (ga_issued (gate_run d (new_ledger grant_ttl_s plan_ttl_s n) evs))" "sent \<noteq> []"
  shows "\<exists>v stamp gs k. (thread, v, stamp) \<in> set (ga_approved (gate_run d (new_ledger grant_ttl_s plan_ttl_s n) evs)) \<and> plan = Some (rv_plan v) \<and>
    rv_hash v = hash_commands d (map command_json gs) \<and> sent = map request_of (take k gs) \<and> stamp \<le> now \<and> now < stamp + grant_ttl_s * 1000"
proof -
  let ?g = "gate_run d (new_ledger grant_ttl_s plan_ttl_s n) evs"
  have "list_all (sent_ok d (grant_ttl_s * 1000) ?g) (ga_issued ?g)" using gate_run_inv by (simp add: gate_inv_def)
  then have "sent_ok d (grant_ttl_s * 1000) ?g (thread, plan, now, sent)" using assms(1) unfolding list_all_iff by blast
  then show ?thesis using assms(2) unfolding sent_ok_def by simp
qed

text \<open>C19: An approval is spent at most once: on every thread, no more plans are issued than were approved.\<close>
theorem approvals_spent_once: "issued_on thread (gate_run d (new_ledger grant_ttl_s plan_ttl_s n) evs) \<le> approved_on thread (gate_run d (new_ledger grant_ttl_s plan_ttl_s n) evs)"
proof -
  let ?g = "gate_run d (new_ledger grant_ttl_s plan_ttl_s n) evs"
  have "issued_on thread ?g + (if jget (lg_grants (ga_ledger ?g)) thread = None then 0 else 1) \<le> approved_on thread ?g"
    using gate_run_inv[of d grant_ttl_s plan_ttl_s n evs] unfolding gate_inv_def by blast
  then show ?thesis by linarith
qed

subsection \<open>One approval, one plan\<close>

definition cool_yes :: json where
  "cool_yes = JObject [(''decision'', JString ''approved''), (''planId'', JString lab), (''planHash'', JString (replicate 64 CHR ''0''))]"

definition cool_value :: resume_value where
  "cool_value = \<lparr>rv_approved = True, rv_plan = lab, rv_hash = replicate 64 CHR ''0''\<rparr>"

definition cool_events :: "gate_event list" where
  "cool_events = [GState ''t'' (cool_state\<lparr>cs_plan := Some cool_reviewed\<rparr>), GConfirm ''t'' 2000 2000 2000 cool_yes,
     GApply ''t'' 3000 (\<lambda>i. False) (\<lambda>i r. None)]"

lemma cool_resume: "resume_of cool_yes = Some cool_value"
proof -
  have "uuid_shape lab" "hash_shape (replicate 64 CHR ''0'')" by code_simp+
  then show ?thesis
    by (simp add: resume_of_def cool_yes_def cool_value_def strict_object_def jfield_def json_required_def json_string_def uuid_of_def checked_def)
qed

lemma cool_gate:
  "(''t'', Some lab, 3000, [request_of (granted_copy cool_command)]) \<in> set (ga_issued (gate_run zero_digest (new_ledger 60 300 12) cool_events))"
proof -
  let ?s = "cool_state\<lparr>cs_plan := Some cool_reviewed\<rparr>"
  let ?l = "(new_ledger 60 300 12)\<lparr>lg_grants := [(''t'', \<lparr>gt_plan = lab, gt_hash = replicate 64 CHR ''0'', gt_commands = [granted_copy cool_command],
      gt_at = 2000\<rparr>)], lg_granted := [(lab, 2000)]\<rparr>"
  have "lab \<noteq> []" "hash_shape (replicate 64 CHR ''0'')" by code_simp+
  moreover have "granted_of (reviewed_json cool_command) = Some (granted_copy cool_command)"
    by (simp add: reviewed_granted granted_copy_def cool_command_def)
  ultimately have "grant_plan zero_digest 2000 2000 ''t'' (grantable_of cool_reviewed) (new_ledger 60 300 12) = (True, ?l)"
    by (simp add: grant_plan_def sweep_ledger_def new_ledger_def grantable_of_def cool_reviewed_def project_def hash_commands_def zero_digest_def)
  moreover have "plan_named zero_digest cool_value cool_reviewed"
    by (simp add: plan_named_def cool_value_def cool_reviewed_def hash_commands_def zero_digest_def)
  ultimately have c: "confirm_node zero_digest 2000 2000 2000 ''t'' cool_yes ?s (new_ledger 60 300 12) = (?s\<lparr>cs_decision := Some Approved\<rparr>, ?l)"
    by (simp add: confirm_node_def cool_resume) (simp add: cool_reviewed_def cool_value_def)
  have "snd (snd (apply_node 3000 ''t'' (\<lambda>i. False) (\<lambda>i r. None) (?s\<lparr>cs_decision := Some Approved\<rparr>) ?l)) = [request_of (granted_copy cool_command)]"
    by (simp add: apply_node_def take_grant_def new_ledger_def cool_reviewed_def Let_def)
  then obtain s1 l1 where a: "apply_node 3000 ''t'' (\<lambda>i. False) (\<lambda>i r. None) (?s\<lparr>cs_decision := Some Approved\<rparr>) ?l =
      (s1, l1, [request_of (granted_copy cool_command)])"
    by (metis prod.collapse)
  show ?thesis by (simp add: gate_run_def cool_events_def c a) (simp add: cool_reviewed_def)
qed

theorem issued_was_approved_witness:
  "\<exists>v stamp. (''t'', v, stamp) \<in> set (ga_approved (gate_run zero_digest (new_ledger 60 300 12) cool_events)) \<and> rv_plan v = lab \<and> stamp \<le> 3000"
proof -
  obtain v stamp where v: "(''t'', v, stamp) \<in> set (ga_approved (gate_run zero_digest (new_ledger 60 300 12) cool_events))" "Some lab = Some (rv_plan v)" "stamp \<le> 3000"
    using issued_was_approved[OF cool_gate] by blast
  have "rv_plan v = lab" using v(2) by simp
  then show ?thesis using v(1,3) by blast
qed

end
