(* ===== verification/Copilot_Caches.thy ===== *)
theory Copilot_Caches
  imports Prelude
begin

section \<open>What a web process keeps for the copilot (apps/web/lib/copilot/graph-cache.ts, checkpoints.ts)\<close>

text \<open>
  The compiled graphs, one per person, and the threads of a graph's checkpointer. Both let the least recently used go first and
  never one that is busy; the first refuses the newcomer when everything is busy, the second grows. What a graph is, and what
  LangGraph's \<open>MemorySaver\<close> does with a checkpoint, are outside: a graph is an argument, and of the saver the bookkeeping that the
  subclass adds is modelled (its \<open>storage\<close> and \<open>writes\<close> are the objects it prunes).
\<close>

subsection \<open>The interface\<close>

text \<open>Keys in the order of use, the least recently used first; \<open>room\<close> lets idle keys go, the least recently used ones.\<close>

locale lru_store =
  fixes ok :: "'s \<Rightarrow> bool" and keys :: "'s \<Rightarrow> string list" and touch :: "string \<Rightarrow> 's \<Rightarrow> 's"
    and idle :: "'s \<Rightarrow> string \<Rightarrow> bool" and room :: "'s \<Rightarrow> 's"
  assumes keys_distinct: "ok s \<Longrightarrow> distinct (keys s)"
    and touch_ok: "ok s \<Longrightarrow> k \<in> set (keys s) \<Longrightarrow> ok (touch k s)"
    and touch_keys: "ok s \<Longrightarrow> k \<in> set (keys s) \<Longrightarrow> keys (touch k s) = removeAll k (keys s) @ [k]"
    and room_ok: "ok s \<Longrightarrow> ok (room s)"
    and room_keys: "ok s \<Longrightarrow> \<exists>n. keys (room s) = filter (\<lambda>k. k \<notin> set (take n (filter (idle s) (keys s)))) (keys s)"
begin

lemma busy_stays: "ok s \<Longrightarrow> k \<in> set (keys s) \<Longrightarrow> \<not> idle s k \<Longrightarrow> k \<in> set (keys (room s))"
proof -
  assume a: "ok s" "k \<in> set (keys s)" "\<not> idle s k"
  obtain n where n: "keys (room s) = filter (\<lambda>k. k \<notin> set (take n (filter (idle s) (keys s)))) (keys s)" using room_keys[OF a(1)] by blast
  have "k \<notin> set (take n (filter (idle s) (keys s)))" using in_set_takeD[of k n "filter (idle s) (keys s)"] a(3) by auto
  then show ?thesis using a(2) by (simp add: n)
qed

lemma room_subset: "ok s \<Longrightarrow> set (keys (room s)) \<subseteq> set (keys s)"
  using room_keys[of s] by auto

text \<open>Of two idle keys, the one used less recently goes first.\<close>

lemma older_goes_first:
  assumes "ok s" "keys s = xs @ j # ys" "k \<in> set ys" "idle s j" "idle s k" "k \<notin> set (keys (room s))"
  shows "j \<notin> set (keys (room s))"
proof -
  obtain n where n: "keys (room s) = filter (\<lambda>k. k \<notin> set (take n (filter (idle s) (keys s)))) (keys s)" using room_keys[OF assms(1)] by blast
  let ?a = "filter (idle s) xs" and ?b = "filter (idle s) ys"
  have idles: "filter (idle s) (keys s) = ?a @ j # ?b" using assms(2,4) by simp
  have d: "distinct (?a @ j # ?b)" using keys_distinct[OF assms(1)] idles by (metis distinct_filter)
  have "k \<in> set (keys s)" using assms(2,3) by simp
  then have "k \<in> set (take n (filter (idle s) (keys s)))" using assms(6) unfolding n by simp
  then have "k \<in> set (take n (?a @ j # ?b))" unfolding idles .
  moreover have "k \<notin> set ?a" "k \<noteq> j" using d assms(3,5) by auto
  ultimately have "length ?a < n"
    by (cases "n \<le> length ?a") (auto dest: in_set_takeD)
  then have "j \<in> set (take n (?a @ j # ?b))" by (auto simp: take_Cons')
  then show ?thesis by (simp add: n idles)
qed

text \<open>What was just used goes last: everything else that is idle has gone before it.\<close>

lemma used_goes_last:
  assumes "ok s" "k \<in> set (keys s)" "idle (touch k s) k" "k \<notin> set (keys (room (touch k s)))"
    and "j \<in> set (keys s)" "idle (touch k s) j"
  shows "j \<notin> set (keys (room (touch k s)))"
proof (cases "j = k")
  case False
  note t = touch_keys[OF assms(1,2)]
  have "j \<in> set (removeAll k (keys s))" using False assms(5) by simp
  then obtain xs ys where "removeAll k (keys s) = xs @ j # ys" by (meson split_list)
  then have "keys (touch k s) = xs @ j # (ys @ [k])" by (simp add: t)
  from older_goes_first[OF touch_ok[OF assms(1,2)] this _ assms(6,3,4)] show ?thesis by simp
qed (use assms in simp)

end

subsection \<open>Graphs\<close>

type_synonym 'g graph_cache = "(string, 'g) jsmap"

definition touch_graph :: "string \<Rightarrow> 'g graph_cache \<Rightarrow> 'g graph_cache" where
  "touch_graph key m = (case jget m key of Some g \<Rightarrow> jset key g (jdel key m) | None \<Rightarrow> m)"

definition cache_get :: "string \<Rightarrow> 'g graph_cache \<Rightarrow> 'g option \<times> 'g graph_cache" where
  "cache_get key m = (jget m key, touch_graph key m)"

definition evict_graph :: "('g \<Rightarrow> bool) \<Rightarrow> 'g graph_cache \<Rightarrow> 'g graph_cache" where
  "evict_graph busy m = (case find (\<lambda>(k, g). \<not> busy g) m of Some (k, g) \<Rightarrow> jdel k m | None \<Rightarrow> m)"

definition graphs_busy_retry_after_s :: int where
  "graphs_busy_retry_after_s = 30"

datatype 'g built = Held 'g | Built 'g | GraphsBusy int

definition get_or_build :: "nat \<Rightarrow> ('g \<Rightarrow> bool) \<Rightarrow> string \<Rightarrow> 'g \<Rightarrow> 'g graph_cache \<Rightarrow> 'g built \<times> 'g graph_cache" where
  "get_or_build limit busy key new m =
     (case cache_get key m of
        (Some g, m1) \<Rightarrow> (Held g, m1)
      | (None, m1) \<Rightarrow>
          if limit \<le> length m1
          then (let m2 = evict_graph busy m1 in
                if length m2 = length m1 then (GraphsBusy graphs_busy_retry_after_s, m1) else (Built new, jset key new m2))
          else (Built new, jset key new m1))"

lemma jset_fresh: "jget m k = None \<Longrightarrow> jset k v m = m @ [(k, v)]"
  by (induction m) (auto split: if_splits)

lemma touch_graph_keys: "k \<in> fst ` set m \<Longrightarrow> map fst (touch_graph k m) = removeAll k (map fst m) @ [k]"
proof -
  assume "k \<in> fst ` set m"
  then obtain g where g: "jget m k = Some g" by (cases "jget m k") (auto simp: jget_None_iff)
  have "map fst (jdel k m) = removeAll k (map fst m)" by (induction m) auto
  then show ?thesis by (simp add: touch_graph_def g jset_fresh)
qed

lemma jwf_touch_graph [intro]: "jwf m \<Longrightarrow> jwf (touch_graph k m)"
  by (auto simp: touch_graph_def distinct_update split: option.split)

lemma touch_graph_get [simp]: "jget (touch_graph k m) j = jget m j"
  by (simp add: touch_graph_def split: option.split)

lemma touch_graph_length [simp]: "jwf m \<Longrightarrow> length (touch_graph k m) = length m"
proof (cases "jget m k")
  case (Some g)
  assume wf: "jwf m"
  have "k \<in> fst ` set m" using Some by (rule jget_Some_key)
  then have "length (map fst (touch_graph k m)) = length (removeAll k (map fst m)) + 1" by (simp only: touch_graph_keys) simp
  also have "\<dots> = length m" using wf \<open>k \<in> fst ` set m\<close> by (simp add: distinct_remove1_removeAll[symmetric] length_remove1) (metis One_nat_def Suc_pred length_map length_pos_if_in_set list.set_map)
  finally show ?thesis by simp
qed (simp add: touch_graph_def)

interpretation graphs: lru_store jwf "map fst" touch_graph "\<lambda>m k. case jget m k of Some g \<Rightarrow> \<not> busy g | None \<Rightarrow> False" "evict_graph busy"
  for busy :: "'g \<Rightarrow> bool"
proof
  fix m :: "'g graph_cache"
  assume wf: "jwf m"
  let ?idle = "\<lambda>k. case jget m k of Some g \<Rightarrow> \<not> busy g | None \<Rightarrow> False"
  show "jwf (evict_graph busy m)" using wf by (auto simp: evict_graph_def split: option.split)
  have idles: "filter ?idle (map fst m) = map fst (filter (\<lambda>(k, g). \<not> busy g) m)"
    using wf by (auto simp: filter_map comp_def intro!: arg_cong[of _ _ "map fst"] filter_cong)
  show "\<exists>n. map fst (evict_graph busy m) = filter (\<lambda>k. k \<notin> set (take n (filter ?idle (map fst m)))) (map fst m)"
  proof (cases "filter (\<lambda>(k, g). \<not> busy g) m")
    case Nil
    then have "find (\<lambda>(k, g). \<not> busy g) m = None" by (fastforce simp: find_None_iff filter_empty_conv)
    then show ?thesis by (intro exI[of _ 0]) (simp add: evict_graph_def)
  next
    case (Cons x xs)
    then have "find (\<lambda>(k, g). \<not> busy g) m = Some x" by (induction m) (auto split: if_splits)
    then have "evict_graph busy m = jdel (fst x) m" by (simp add: evict_graph_def split: prod.split)
    moreover have "map fst (jdel k m) = filter (\<lambda>j. j \<noteq> k) (map fst m)" for k by (induction m) auto
    ultimately show ?thesis using Cons by (intro exI[of _ 1]) (simp add: idles)
  qed
qed (auto simp: touch_graph_keys distinct_removeAll)

datatype 'g cache_event = CacheGet string | CacheBuild string 'g "'g \<Rightarrow> bool"

fun cache_step :: "nat \<Rightarrow> 'g cache_event \<Rightarrow> 'g graph_cache \<Rightarrow> 'g graph_cache" where
  "cache_step limit (CacheGet key) m = snd (cache_get key m)"
| "cache_step limit (CacheBuild key new busy) m = snd (get_or_build limit busy key new m)"

definition cache_run :: "nat \<Rightarrow> 'g cache_event list \<Rightarrow> 'g graph_cache" where
  "cache_run limit evs = fold (cache_step limit) evs []"

lemma evict_graph_length: "jwf m \<Longrightarrow> length (evict_graph busy m) = length m \<or> Suc (length (evict_graph busy m)) = length m"
proof -
  assume wf: "jwf m"
  have "Suc (length (jdel k m)) = length m" if "(k, g) \<in> set m" for k g
  proof -
    have "map fst (jdel k m) = removeAll k (map fst m)" by (induction m) auto
    then have "length (jdel k m) = length (remove1 k (map fst m))" using wf by (metis distinct_remove1_removeAll length_map)
    moreover have "k \<in> set (map fst m)" using that by force
    ultimately show ?thesis by (simp add: length_remove1) (metis One_nat_def Suc_pred length_map length_pos_if_in_set list.set_map)
  qed
  moreover have "x \<in> set m" if "find (\<lambda>(k, g). \<not> busy g) m = Some x" for x using that by (fastforce simp: find_Some_iff in_set_conv_nth)
  ultimately show ?thesis by (auto simp: evict_graph_def split: option.split)
qed

lemma build_bounded:
  assumes "jwf m" "length m \<le> limit"
  shows "jwf (snd (get_or_build limit busy key new m)) \<and> length (snd (get_or_build limit busy key new m)) \<le> limit"
proof (cases "jget m key")
  case None
  then have t: "touch_graph key m = m" by (simp add: touch_graph_def)
  let ?m2 = "evict_graph busy m"
  have m2: "jwf ?m2" using assms(1) by (auto simp: evict_graph_def split: option.split)
  have "Suc (length ?m2) = length m" if "length ?m2 \<noteq> length m" using evict_graph_length[OF assms(1)] that by blast
  then show ?thesis using assms m2 length_jset_le[of key new ?m2] length_jset_le[of key new m]
    by (auto simp: get_or_build_def cache_get_def None t Let_def distinct_update)
next
  case (Some g)
  then show ?thesis using assms by (auto simp: get_or_build_def cache_get_def)
qed

lemma cache_run_ok: "jwf (cache_run limit evs) \<and> length (cache_run limit evs) \<le> limit"
  unfolding cache_run_def
proof (induction evs rule: rev_induct)
  case (snoc e evs)
  then show ?case using build_bounded[of "fold (cache_step limit) evs []" limit] by (cases e) (auto simp: cache_get_def)
qed simp

lemma build_keeps_busy:
  assumes "jwf m" "jget m k = Some g" "busy g"
  shows "jget (snd (get_or_build limit busy key new m)) k = Some g"
proof -
  have "k \<in> set (map fst (evict_graph busy m))"
    using graphs.busy_stays[of m k busy] assms jget_Some_key[OF assms(2)] by simp
  then have "jget (evict_graph busy m) k = Some g"
    using assms(2) by (auto simp: evict_graph_def AList.delete_eq[of k] split: option.splits if_splits)
  then show ?thesis
    using assms(2) by (cases "jget m key") (auto simp: get_or_build_def cache_get_def Let_def touch_graph_def)
qed

text \<open>The process holds at most as many graphs as it may, and work under way is not dropped: whatever people come and go, a graph
  that is busy whenever room is made stays under its key.\<close>

theorem busy_graph_kept:
  assumes "jget (cache_run limit before) k = Some g" "list_all (\<lambda>e. case e of CacheGet j \<Rightarrow> True | CacheBuild j new busy \<Rightarrow> busy g) later"
  shows "jget (cache_run limit (before @ later)) k = Some g \<and> length (cache_run limit (before @ later)) \<le> limit"
  using assms(2)
proof (induction later rule: rev_induct)
  case Nil
  then show ?case using assms(1) cache_run_ok[of limit before] by simp
next
  case (snoc e later)
  let ?m = "cache_run limit (before @ later)"
  have m: "jget ?m k = Some g" "jwf ?m" using snoc cache_run_ok[of limit "before @ later"] by simp_all
  have "jget (cache_step limit e ?m) k = Some g"
    using m snoc.prems build_keeps_busy[OF m(2,1)] by (cases e) (simp_all add: cache_get_def)
  then show ?case using cache_run_ok[of limit "before @ later @ [e]"] by (simp add: cache_run_def)
qed

subsection \<open>Threads\<close>

record ('c, 'w) saver =
  sv_storage :: "(string, (string, (string, 'c) jsmap) jsmap) jsmap"
  sv_writes :: "(string, 'w) jsmap"
  sv_recent :: "string list"

definition touch_thread :: "string \<Rightarrow> ('c, 'w) saver \<Rightarrow> ('c, 'w) saver" where
  "touch_thread t s = s\<lparr>sv_recent := removeAll t (sv_recent s) @ [t]\<rparr>"

text \<open>Every checkpoint of one thread and namespace but \<open>keep\<close>, and their writes. The keys of the writes are JSON of a triple.\<close>

definition prune :: "(string \<Rightarrow> (string \<times> string \<times> string) option) \<Rightarrow> string \<Rightarrow> string \<Rightarrow> string list \<Rightarrow> ('c, 'w) saver \<Rightarrow> ('c, 'w) saver" where
  "prune parse t ns keep s =
     (case Option.bind (jget (sv_storage s) t) (\<lambda>m. jget m ns) of
        None \<Rightarrow> s
      | Some held \<Rightarrow>
          (let dropped = filter (\<lambda>i. i \<notin> set keep) (map fst held) in
           if dropped = [] then s
           else s\<lparr>sv_storage := jset t (jset ns (filter (\<lambda>(i, c). i \<in> set keep) held) (the (jget (sv_storage s) t))) (sv_storage s),
                  sv_writes := filter (\<lambda>(k, w). case parse k of Some (a, b, i) \<Rightarrow> \<not> (a = t \<and> b = ns \<and> i \<in> set dropped) | None \<Rightarrow> True)
                    (sv_writes s)\<rparr>))"

text \<open>\<open>deleteThread\<close>: the subclass forgets the use, \<open>super.deleteThread\<close> is the argument.\<close>

definition delete_thread :: "(string \<Rightarrow> ('c, 'w) saver \<Rightarrow> ('c, 'w) saver) \<Rightarrow> string \<Rightarrow> ('c, 'w) saver \<Rightarrow> ('c, 'w) saver" where
  "delete_thread super t s = (super t s)\<lparr>sv_recent := removeAll t (sv_recent s)\<rparr>"

fun evict_loop :: "nat \<Rightarrow> (string \<Rightarrow> bool) \<Rightarrow> (string \<Rightarrow> ('c, 'w) saver \<Rightarrow> ('c, 'w) saver) \<Rightarrow> string list \<Rightarrow> ('c, 'w) saver \<Rightarrow> ('c, 'w) saver" where
  "evict_loop limit busy super [] s = s"
| "evict_loop limit busy super (t # ts) s =
     (if length (sv_recent s) \<le> limit then s
      else if busy t then evict_loop limit busy super ts s
      else evict_loop limit busy super ts (delete_thread super t s))"

definition evict_threads :: "nat \<Rightarrow> (string \<Rightarrow> bool) \<Rightarrow> (string \<Rightarrow> ('c, 'w) saver \<Rightarrow> ('c, 'w) saver) \<Rightarrow> ('c, 'w) saver \<Rightarrow> ('c, 'w) saver" where
  "evict_threads limit busy super s = (if length (sv_recent s) \<le> limit then s else evict_loop limit busy super (sv_recent s) s)"

definition saver_get :: "string option \<Rightarrow> bool \<Rightarrow> ('c, 'w) saver \<Rightarrow> ('c, 'w) saver" where
  "saver_get thread found s = (case thread of Some t \<Rightarrow> if found then touch_thread t s else s | None \<Rightarrow> s)"

text \<open>A checkpoint stored: what \<open>super.put\<close> makes of the fields is an argument.\<close>

definition saver_put ::
  "nat \<Rightarrow> (string \<Rightarrow> bool) \<Rightarrow> (string \<Rightarrow> (string \<times> string \<times> string) option) \<Rightarrow> (string \<Rightarrow> ('c, 'w) saver \<Rightarrow> ('c, 'w) saver)
     \<Rightarrow> (('c, 'w) saver \<Rightarrow> ('c, 'w) saver) \<Rightarrow> string option \<Rightarrow> string option \<Rightarrow> string option \<Rightarrow> string \<Rightarrow> ('c, 'w) saver \<Rightarrow> ('c, 'w) saver" where
  "saver_put limit busy parse super_delete super_put thread ns parent checkpoint s =
     (let s1 = (super_put s)\<lparr>sv_recent := sv_recent s\<rparr> in
      case thread of
        None \<Rightarrow> s1
      | Some t \<Rightarrow>
          evict_threads limit busy super_delete
            (touch_thread t
              (prune parse t (case ns of Some n \<Rightarrow> n | None \<Rightarrow> []) (checkpoint # (case parent of Some p \<Rightarrow> [p] | None \<Rightarrow> [])) s1)))"

lemma prune_recent [simp]: "sv_recent (prune parse t ns keep s) = sv_recent s"
  by (simp add: prune_def Let_def split: option.split)

lemma evict_loop_keys:
  assumes "distinct (sv_recent s)" "sv_recent s = xs @ ts"
  shows "\<exists>n. sv_recent (evict_loop limit busy super ts s) = xs @ filter (\<lambda>t. t \<notin> set (take n (filter (\<lambda>t. \<not> busy t) ts))) ts"
  using assms
proof (induction ts arbitrary: xs s)
  case (Cons t ts)
  show ?case
  proof (cases "length (sv_recent s) \<le> limit")
    case True
    then show ?thesis using Cons.prems by (intro exI[of _ 0]) simp
  next
    case False
    show ?thesis
    proof (cases "busy t")
      case True
      obtain n where n: "sv_recent (evict_loop limit busy super ts s) = (xs @ [t]) @ filter (\<lambda>t. t \<notin> set (take n (filter (\<lambda>t. \<not> busy t) ts))) ts"
        using Cons.IH[of s "xs @ [t]"] Cons.prems by auto
      have "t \<notin> set (take n (filter (\<lambda>t. \<not> busy t) ts))" using in_set_takeD True by fastforce
      then show ?thesis using n True False by (intro exI[of _ n]) simp
    next
      case idle: False
      have d: "distinct (sv_recent (delete_thread super t s))" "sv_recent (delete_thread super t s) = xs @ ts"
        using Cons.prems by (simp_all add: delete_thread_def distinct_removeAll)
      obtain n where n: "sv_recent (evict_loop limit busy super ts (delete_thread super t s)) =
          xs @ filter (\<lambda>t. t \<notin> set (take n (filter (\<lambda>t. \<not> busy t) ts))) ts"
        using Cons.IH[OF d] by blast
      have "t \<notin> set ts" using Cons.prems by simp
      then have "filter (\<lambda>u. u \<noteq> t \<and> u \<notin> set (take n (filter (\<lambda>t. \<not> busy t) ts))) ts = filter (\<lambda>u. u \<notin> set (take n (filter (\<lambda>t. \<not> busy t) ts))) ts"
        by (intro filter_cong) auto
      then show ?thesis using n idle False by (intro exI[of _ "Suc n"]) simp
    qed
  qed
qed simp

lemma evict_keys:
  assumes "distinct (sv_recent s)"
  shows "\<exists>n. sv_recent (evict_threads limit busy super s) = filter (\<lambda>t. t \<notin> set (take n (filter (\<lambda>t. \<not> busy t) (sv_recent s)))) (sv_recent s)"
  using evict_loop_keys[OF assms, of "[]" "sv_recent s" limit busy super] by (auto simp: evict_threads_def intro!: exI[of _ 0])

interpretation threads: lru_store "\<lambda>s. distinct (sv_recent s)" sv_recent touch_thread "\<lambda>s t. \<not> busy t" "evict_threads limit busy super"
  for busy :: "string \<Rightarrow> bool" and limit and super :: "string \<Rightarrow> ('c, 'w) saver \<Rightarrow> ('c, 'w) saver"
proof
  fix s :: "('c, 'w) saver"
  assume d: "distinct (sv_recent s)"
  then show "\<exists>n. sv_recent (evict_threads limit busy super s) = filter (\<lambda>t. t \<notin> set (take n (filter (\<lambda>t. \<not> busy t) (sv_recent s)))) (sv_recent s)"
    by (rule evict_keys)
  then show "distinct (sv_recent (evict_threads limit busy super s))" using d by auto
qed (simp_all add: touch_thread_def distinct_removeAll)

lemma evict_loop_bound:
  assumes "distinct (sv_recent s)" "set ts \<subseteq> set (sv_recent s)" "list_all busy (filter (\<lambda>t. t \<notin> set ts) (sv_recent s))" "distinct ts"
  shows "length (sv_recent (evict_loop limit busy super ts s)) \<le> limit \<or> list_all busy (sv_recent (evict_loop limit busy super ts s))"
  using assms
proof (induction ts arbitrary: s)
  case (Cons t ts)
  show ?case
  proof (cases "busy t")
    case True
    have "list_all busy (filter (\<lambda>u. u \<notin> set ts) (sv_recent s))" using Cons.prems(3) True by (auto simp: list_all_iff)
    then show ?thesis using Cons True by simp
  next
    case False
    have r: "sv_recent (delete_thread super t s) = removeAll t (sv_recent s)" by (simp add: delete_thread_def)
    have "length (sv_recent (evict_loop limit busy super ts (delete_thread super t s))) \<le> limit \<or>
        list_all busy (sv_recent (evict_loop limit busy super ts (delete_thread super t s)))"
      by (rule Cons.IH) (use Cons.prems in \<open>auto simp: r distinct_removeAll list_all_iff\<close>)
    then show ?thesis using False by simp
  qed
qed simp

text \<open>The checkpointer keeps a conversation that has an open request, and after each checkpoint it holds at most as many threads
  as it may, unless every thread it holds has one.\<close>

theorem open_thread_kept:
  assumes "distinct (sv_recent s)" "u \<in> set (sv_recent s)" "busy u"
    and "s' = saver_put limit busy parse super_delete super_put (Some t) ns parent checkpoint s"
  shows "u \<in> set (sv_recent s') \<and> (length (sv_recent s') \<le> limit \<or> list_all busy (sv_recent s'))"
proof -
  obtain x where x: "sv_recent x = removeAll t (sv_recent s) @ [t]" "s' = evict_threads limit busy super_delete x"
    by (rule that[of "touch_thread t (prune parse t (case ns of Some n \<Rightarrow> n | None \<Rightarrow> [])
          (checkpoint # (case parent of Some p \<Rightarrow> [p] | None \<Rightarrow> [])) ((super_put s)\<lparr>sv_recent := sv_recent s\<rparr>))"])
      (simp_all add: assms(4) saver_put_def touch_thread_def)
  have d: "distinct (sv_recent x)" using assms(1) by (simp add: x(1) distinct_removeAll)
  have "u \<in> set (sv_recent x)" using assms(2) by (auto simp: x(1))
  then have "u \<in> set (sv_recent s')" using threads.busy_stays[OF d] assms(3) unfolding x(2) by blast
  moreover have "length (sv_recent s') \<le> limit \<or> list_all busy (sv_recent s')"
    using evict_loop_bound[OF d, of "sv_recent x" busy limit super_delete] d by (simp add: x(2) evict_threads_def)
  ultimately show ?thesis by blast
qed

lemma prune_keeps:
  assumes "Option.bind (jget (sv_storage s) t) (\<lambda>m. jget m ns) = Some held" "jwf held"
  shows "Option.bind (jget (sv_storage (prune parse t ns keep s)) t) (\<lambda>m. Option.bind (jget m ns) (\<lambda>h. jget h i)) = (if i \<in> set keep then jget held i else None)"
proof -
  obtain m where m: "jget (sv_storage s) t = Some m" "jget m ns = Some held" using assms(1) by (auto simp: bind_eq_Some_conv)
  show ?thesis
  proof (cases "filter (\<lambda>i. i \<notin> set keep) (map fst held) = []")
    case True
    then have "i \<in> set keep \<or> jget held i = None" by (auto simp: filter_empty_conv jget_None_iff)
    then show ?thesis using True m by (auto simp: prune_def)
  next
    case False
    then show ?thesis using m assms(2) by (auto simp: prune_def jget_filter split: option.split)
  qed
qed

subsection \<open>Examples\<close>

theorem busy_graph_kept_witness:
  "jget (cache_run 1 ([CacheBuild ''a'' (1::nat) (\<lambda>g. False)] @ [CacheBuild ''b'' 2 (\<lambda>g. g = 1)])) ''a'' = Some 1"
proof -
  have "jget (cache_run 1 [CacheBuild ''a'' (1::nat) (\<lambda>g. False)]) ''a'' = Some 1"
    by (simp add: cache_run_def get_or_build_def cache_get_def touch_graph_def)
  from busy_graph_kept[OF this, of "[CacheBuild ''b'' 2 (\<lambda>g. g = 1)]"] show ?thesis by simp
qed

theorem open_thread_kept_witness:
  "''u'' \<in> set (sv_recent (saver_put 1 (\<lambda>t. t = ''u'') (\<lambda>k. None) (\<lambda>t s. s) (\<lambda>s. s) (Some ''t'') None None ''c''
     \<lparr>sv_storage = [] :: (string, (string, (string, nat) jsmap) jsmap) jsmap, sv_writes = [] :: (string, nat) jsmap, sv_recent = [''u'']\<rparr>))"
  by (rule conjunct1[OF open_thread_kept[OF _ _ _ refl]]) simp_all

end
