(* ===== verification/Live_View.thy ===== *)
theory Live_View
  imports Alert_Store "HOL-Library.Product_Lexorder"
begin

section \<open>What the dashboard remembers and draws (apps/web/lib/live.ts, alerts.ts, ws.ts)\<close>

text \<open>
  The reducers behind the live view: the latest reading per point, the reduction of a zone's points to what may be drawn, the
  power total, and the alert list as a snapshot with events on top. The socket, React's scheduling and the retry timer are left
  out: a frame that parses is one step. A simulation's summary is an argument's type. The browser's clock is an argument.
\<close>

subsection \<open>Readings\<close>

record live_reading =
  lr_value :: jsnum
  lr_ts :: ms
  lr_quality :: quality
  lr_received :: ms

definition age_ms :: "live_reading \<Rightarrow> ms \<Rightarrow> ms \<Rightarrow> ms" where
  "age_ms r now since = reading_age_ms (lr_ts r) (lr_received r) now since"

definition is_stale :: "live_reading \<Rightarrow> int \<Rightarrow> ms \<Rightarrow> ms \<Rightarrow> bool" where
  "is_stale r interval now since = is_reading_stale (lr_ts r) (lr_received r) interval now since"

definition newer :: "live_reading option \<Rightarrow> live_reading \<Rightarrow> live_reading" where
  "newer held incoming = (case held of Some h \<Rightarrow> if lr_ts h > lr_ts incoming then h else incoming | None \<Rightarrow> incoming)"

subsection \<open>A zone\<close>

record point_input =
  pt_interval :: int
  pt_reading :: "live_reading option"

record zone_live =
  zl_value :: "jsnum option"
  zl_used :: nat
  zl_flagged :: nat
  zl_stale :: nat
  zl_waiting :: nat
  zl_silent :: nat
  zl_stale_for :: "ms option"

definition no_points :: zone_live where
  "no_points = \<lparr>zl_value = None, zl_used = 0, zl_flagged = 0, zl_stale = 0, zl_waiting = 0, zl_silent = 0, zl_stale_for = None\<rparr>"

definition reduce_point :: "ms \<Rightarrow> ms \<Rightarrow> point_input \<Rightarrow> jsnum \<times> zone_live \<Rightarrow> jsnum \<times> zone_live" where
  "reduce_point now since p acc =
     (let (total, out) = acc in
      case pt_reading p of
        None \<Rightarrow>
          if now - since > pt_interval p * stale_intervals * 1000 then (total, out\<lparr>zl_silent := zl_silent out + 1\<rparr>)
          else (total, out\<lparr>zl_waiting := zl_waiting out + 1\<rparr>)
      | Some r \<Rightarrow>
          if is_stale r (pt_interval p) now since
          then (let age = age_ms r now since in
                (total, out\<lparr>zl_stale := zl_stale out + 1,
                   zl_stale_for := Some (case zl_stale_for out of None \<Rightarrow> age | Some a \<Rightarrow> min a age)\<rparr>))
          else if lr_quality r \<noteq> Good then (total, out\<lparr>zl_flagged := zl_flagged out + 1\<rparr>)
          else (js_plus total (lr_value r), out\<lparr>zl_used := zl_used out + 1\<rparr>))"

definition reduce_zone :: "point_input list \<Rightarrow> ms \<Rightarrow> ms \<Rightarrow> zone_live" where
  "reduce_zone points now since =
     (let (total, out) = fold (reduce_point now since) points (Num 0, no_points) in
      if zl_used out > 0 then out\<lparr>zl_value := Some (js_scale (1 / of_nat (zl_used out)) total)\<rparr> else out)"

datatype draw_source = FromLive | FromBaseline | FromStale | FromFlagged | FromNone

definition zone_source :: "zone_live \<Rightarrow> bool \<Rightarrow> draw_source" where
  "zone_source live baseline =
     (if zl_used live > 0 then FromLive
      else if zl_stale live > 0 \<or> zl_silent live > 0 then FromStale
      else if zl_flagged live > 0 then FromFlagged
      else if zl_waiting live > 0 \<and> baseline then FromBaseline
      else FromNone)"

subsection \<open>The power total\<close>

record meter_input =
  mt_interval :: int
  mt_reading :: "live_reading option"
  mt_floor :: "string option"

definition meter_counts :: "string option \<Rightarrow> ms \<Rightarrow> ms \<Rightarrow> meter_input \<Rightarrow> bool" where
  "meter_counts focused now since m =
     (case mt_reading m of
        None \<Rightarrow> False
      | Some r \<Rightarrow>
          lr_quality r = Good \<and>
          \<not> is_stale r (mt_interval m) now (if focused = None \<or> mt_floor m = focused then since else now))"

definition reduce_power :: "meter_input list \<Rightarrow> string option \<Rightarrow> ms \<Rightarrow> ms \<Rightarrow> jsnum \<times> nat \<times> nat" where
  "reduce_power meters focused now since =
     (let (kw, n) = fold (\<lambda>m (kw, n). if meter_counts focused now since m then (js_plus kw (lr_value (the (mt_reading m))), n + 1) else (kw, n))
                      meters (Num 0, 0)
      in (kw, n, length meters))"

subsection \<open>Alerts\<close>

datatype event_kind = Upsert | ResolvedEvent

record alert_event =
  av_kind :: event_kind
  av_alert :: alert
  av_at :: ms

definition max_alert_events :: nat where
  "max_alert_events = 500"

definition append_alert_event :: "alert_event list \<Rightarrow> alert_event \<Rightarrow> alert_event list" where
  "append_alert_event events e =
     (let next = filter (\<lambda>x. al_id (av_alert x) \<noteq> al_id (av_alert e)) events @ [e] in
      if length next > max_alert_events then drop (length next - max_alert_events) next else next)"

fun severity_rank :: "alert_severity \<Rightarrow> int" where
  "severity_rank Critical = 0"
| "severity_rank Warning = 1"
| "severity_rank Info = 2"

definition event_ignored :: "ms option \<Rightarrow> alert_event \<Rightarrow> bool" where
  "event_ignored snapshot_at e = (case snapshot_at of Some t \<Rightarrow> av_at e < t | None \<Rightarrow> False)"

definition apply_event :: "ms option \<Rightarrow> alert_event \<Rightarrow> (string, alert) jsmap \<Rightarrow> (string, alert) jsmap" where
  "apply_event snapshot_at e m =
     (if event_ignored snapshot_at e then m
      else case av_kind e of
             ResolvedEvent \<Rightarrow> jdel (al_id (av_alert e)) m
           | Upsert \<Rightarrow> jset (al_id (av_alert e)) (av_alert e) m)"

definition snapshot_map :: "alert list \<Rightarrow> (string, alert) jsmap" where
  "snapshot_map snapshot = fold (\<lambda>a. jset (al_id a) a) snapshot []"

definition reconcile_alerts :: "alert list \<Rightarrow> ms option \<Rightarrow> alert_event list \<Rightarrow> alert list" where
  "reconcile_alerts snapshot snapshot_at events =
     sort_key (\<lambda>a. (severity_rank (al_severity a), - al_opened_at a))
       (filter (\<lambda>a. al_state a \<noteq> Resolved) (map snd (fold (apply_event snapshot_at) events (snapshot_map snapshot))))"

subsection \<open>Frames\<close>

datatype ('s) sim_run_state = SimRunning rat | SimCompleted 's | SimFailed string

datatype 's live_frame =
    FAuthenticated
  | FTelemetry "reading_tuple list"
  | FAlertRaised alert
  | FAlertAcknowledged alert
  | FAlertResolved alert
  | FSimProgress string rat
  | FSimComplete string 's
  | FSimFailed string string
  | FOther

record 's live_state =
  ls_readings :: "(string, live_reading) jsmap"
  ls_since :: "ms option"
  ls_events :: "alert_event list"
  ls_sims :: "(string, 's sim_run_state) jsmap"
  ls_connected :: bool

definition live_of_tuple :: "ms \<Rightarrow> reading_tuple \<Rightarrow> live_reading" where
  "live_of_tuple now t =
     \<lparr>lr_value = rd_value (expand_reading t), lr_ts = rd_ts (expand_reading t), lr_quality = rd_quality (expand_reading t), lr_received = now\<rparr>"

text \<open>Each tuple of a batch is compared with what was held before the batch (\<open>prev\<close>), not with what the batch has put there.\<close>

definition take_batch :: "ms \<Rightarrow> reading_tuple list \<Rightarrow> (string, live_reading) jsmap \<Rightarrow> (string, live_reading) jsmap" where
  "take_batch now ts prev = fold (\<lambda>t. jset (fst t) (newer (jget prev (fst t)) (live_of_tuple now t))) ts prev"

fun live_message :: "ms \<Rightarrow> 's live_frame \<Rightarrow> 's live_state \<Rightarrow> 's live_state" where
  "live_message now FAuthenticated s = s\<lparr>ls_connected := True, ls_since := Some now\<rparr>"
| "live_message now (FTelemetry ts) s = s\<lparr>ls_readings := take_batch now ts (ls_readings s)\<rparr>"
| "live_message now (FAlertRaised a) s = s\<lparr>ls_events := append_alert_event (ls_events s) \<lparr>av_kind = Upsert, av_alert = a, av_at = now\<rparr>\<rparr>"
| "live_message now (FAlertAcknowledged a) s = s\<lparr>ls_events := append_alert_event (ls_events s) \<lparr>av_kind = Upsert, av_alert = a, av_at = now\<rparr>\<rparr>"
| "live_message now (FAlertResolved a) s = s\<lparr>ls_events := append_alert_event (ls_events s) \<lparr>av_kind = ResolvedEvent, av_alert = a, av_at = now\<rparr>\<rparr>"
| "live_message now (FSimProgress i p) s = s\<lparr>ls_sims := jset i (SimRunning p) (ls_sims s)\<rparr>"
| "live_message now (FSimComplete i r) s = s\<lparr>ls_sims := jset i (SimCompleted r) (ls_sims s)\<rparr>"
| "live_message now (FSimFailed i e) s = s\<lparr>ls_sims := jset i (SimFailed e) (ls_sims s)\<rparr>"
| "live_message now FOther s = s"

definition live_closed :: "'s live_state \<Rightarrow> 's live_state" where
  "live_closed s = s\<lparr>ls_connected := False, ls_since := None\<rparr>"

definition frames_run :: "(ms \<times> 's live_frame) list \<Rightarrow> 's live_state \<Rightarrow> 's live_state" where
  "frames_run fs s = fold (\<lambda>(now, f). live_message now f) fs s"

subsection \<open>What a zone is drawn from\<close>

definition usable :: "ms \<Rightarrow> ms \<Rightarrow> point_input \<Rightarrow> bool" where
  "usable now since p = (case pt_reading p of None \<Rightarrow> False | Some r \<Rightarrow> lr_quality r = Good \<and> \<not> is_stale r (pt_interval p) now since)"

definition gone :: "ms \<Rightarrow> ms \<Rightarrow> point_input \<Rightarrow> bool" where
  "gone now since p =
     (case pt_reading p of None \<Rightarrow> now - since > stale_after_ms (pt_interval p) | Some r \<Rightarrow> is_stale r (pt_interval p) now since)"

definition heard_values :: "ms \<Rightarrow> ms \<Rightarrow> point_input list \<Rightarrow> jsnum list" where
  "heard_values now since ps = map (lr_value \<circ> the \<circ> pt_reading) (filter (usable now since) ps)"

lemma reduce_point_counts:
  assumes "reduce_point now since p (x, out) = (y, out')"
  shows "y = (if usable now since p then js_plus x (lr_value (the (pt_reading p))) else x)"
    and "zl_used out' = zl_used out + of_bool (usable now since p)"
    and "zl_stale out' + zl_silent out' = zl_stale out + zl_silent out + of_bool (gone now since p)"
    and "zl_used out' + zl_flagged out' + zl_stale out' + zl_waiting out' + zl_silent out' =
      zl_used out + zl_flagged out + zl_stale out + zl_waiting out + zl_silent out + 1"
    and "zl_value out' = zl_value out"
  using assms
  by (auto simp: reduce_point_def usable_def gone_def stale_after_ms_def Let_def split: option.splits if_splits)

lemma reduce_fold:
  assumes "fold (reduce_point now since) ps (x, out) = (y, out')"
  shows "y = fold (\<lambda>v s. js_plus s v) (heard_values now since ps) x \<and>
    zl_used out' = zl_used out + length (filter (usable now since) ps) \<and>
    zl_stale out' + zl_silent out' = zl_stale out + zl_silent out + length (filter (gone now since) ps) \<and>
    zl_used out' + zl_flagged out' + zl_stale out' + zl_waiting out' + zl_silent out' =
      zl_used out + zl_flagged out + zl_stale out + zl_waiting out + zl_silent out + length ps \<and> zl_value out' = zl_value out"
  using assms
proof (induction ps arbitrary: x out)
  case (Cons p ps)
  obtain x1 out1 where s: "reduce_point now since p (x, out) = (x1, out1)" by fastforce
  note step = reduce_point_counts[OF s]
  have "fold (reduce_point now since) ps (x1, out1) = (y, out')" using Cons.prems by (simp add: s)
  from Cons.IH[OF this] show ?case using step by (auto simp: heard_values_def)
qed (simp add: heard_values_def)

lemma reduce_zone_cases:
  obtains out where "zl_used out = length (filter (usable now since) ps)"
    "zl_stale out + zl_silent out = length (filter (gone now since) ps)"
    "zl_used out + zl_flagged out + zl_stale out + zl_waiting out + zl_silent out = length ps" "zl_value out = None"
    "reduce_zone ps now since = (if zl_used out > 0
       then out\<lparr>zl_value := Some (js_scale (1 / of_nat (zl_used out)) (fold (\<lambda>v s. js_plus s v) (heard_values now since ps) (Num 0)))\<rparr> else out)"
proof -
  obtain y out where f: "fold (reduce_point now since) ps (Num 0, no_points) = (y, out)" by fastforce
  have r: "reduce_zone ps now since = (if zl_used out > 0
       then out\<lparr>zl_value := Some (js_scale (1 / of_nat (zl_used out)) (fold (\<lambda>v s. js_plus s v) (heard_values now since ps) (Num 0)))\<rparr> else out)"
    using reduce_fold[OF f] by (simp add: reduce_zone_def f)
  show thesis by (rule that[OF _ _ _ _ r]) (use reduce_fold[OF f] in \<open>simp_all add: no_points_def\<close>)
qed

text \<open>Only good, fresh readings colour a zone: a zone is drawn live exactly when some point has one, its value is then the mean of
  just those, and otherwise it has no value; every point is counted once.\<close>

theorem only_fresh_good_drawn:
  shows "zone_source (reduce_zone ps now since) baseline = FromLive \<longleftrightarrow> (\<exists>p \<in> set ps. usable now since p)"
    and "zl_value (reduce_zone ps now since) =
      (let vs = heard_values now since ps in
       if vs = [] then None else Some (js_scale (1 / of_nat (length vs)) (fold (\<lambda>v s. js_plus s v) vs (Num 0))))"
    and "zl_used (reduce_zone ps now since) + zl_flagged (reduce_zone ps now since) + zl_stale (reduce_zone ps now since) +
      zl_waiting (reduce_zone ps now since) + zl_silent (reduce_zone ps now since) = length ps"
proof -
  obtain out where o: "zl_used out = length (filter (usable now since) ps)"
    "zl_stale out + zl_silent out = length (filter (gone now since) ps)"
    "zl_used out + zl_flagged out + zl_stale out + zl_waiting out + zl_silent out = length ps" "zl_value out = None"
    "reduce_zone ps now since = (if zl_used out > 0
       then out\<lparr>zl_value := Some (js_scale (1 / of_nat (zl_used out)) (fold (\<lambda>v s. js_plus s v) (heard_values now since ps) (Num 0)))\<rparr> else out)"
    by (rule reduce_zone_cases)
  have "zl_used (reduce_zone ps now since) = zl_used out" by (simp add: o(5))
  then show "zone_source (reduce_zone ps now since) baseline = FromLive \<longleftrightarrow> (\<exists>p \<in> set ps. usable now since p)"
    by (auto simp: zone_source_def o(1) filter_empty_conv)
  show "zl_value (reduce_zone ps now since) =
      (let vs = heard_values now since ps in
       if vs = [] then None else Some (js_scale (1 / of_nat (length vs)) (fold (\<lambda>v s. js_plus s v) vs (Num 0))))"
    using o(1,4) by (simp add: o(5) heard_values_def Let_def)
  show "zl_used (reduce_zone ps now since) + zl_flagged (reduce_zone ps now since) + zl_stale (reduce_zone ps now since) +
      zl_waiting (reduce_zone ps now since) + zl_silent (reduce_zone ps now since) = length ps"
    using o(3) by (simp add: o(5))
qed

text \<open>C34: Silence shows. When nothing has been heard since a moment from any point of a zone that has points, the zone is drawn as
  stale once the longest staleness threshold has passed since that moment and since the moment we began to listen (silence before
  then is not held against a point: after a reconnect the thresholds start again), whatever was heard before and whether or not
  there is a baseline.\<close>
theorem silent_zone_goes_stale:
  assumes "ps \<noteq> []"
    and "\<forall>p \<in> set ps. case pt_reading p of None \<Rightarrow> True | Some r \<Rightarrow> min (lr_ts r) (lr_received r) \<le> quiet"
    and "\<forall>p \<in> set ps. max quiet since + stale_after_ms (pt_interval p) < now"
  shows "zone_source (reduce_zone ps now since) baseline = FromStale"
proof -
  have g: "gone now since p \<and> \<not> usable now since p" if p: "p \<in> set ps" for p
  proof -
    have late: "max quiet since + stale_after_ms (pt_interval p) < now" using assms(3) p by blast
    have "min (lr_ts r) (lr_received r) \<le> quiet" if "pt_reading p = Some r" for r
      using assms(2) p that by force
    then show ?thesis using late
      by (cases "pt_reading p") (auto simp: gone_def usable_def is_stale_def is_reading_stale_def reading_age_ms_def)
  qed
  then have all: "filter (usable now since) ps = []" "filter (gone now since) ps = ps" by (auto simp: filter_empty_conv filter_id_conv)
  obtain out where o: "zl_used out = length (filter (usable now since) ps)"
    "zl_stale out + zl_silent out = length (filter (gone now since) ps)"
    "reduce_zone ps now since = (if zl_used out > 0
       then out\<lparr>zl_value := Some (js_scale (1 / of_nat (zl_used out)) (fold (\<lambda>v s. js_plus s v) (heard_values now since ps) (Num 0)))\<rparr> else out)"
    by (rule reduce_zone_cases)
  have "zl_stale out + zl_silent out > 0" unfolding o(2) all(2) using assms(1) by simp
  then have "zl_stale out > 0 \<or> zl_silent out > 0" by linarith
  then show ?thesis by (simp add: o all zone_source_def)
qed

subsection \<open>What the power total counts\<close>

lemma power_fold:
  "fold (\<lambda>m (kw, n). if f m then (js_plus kw (g m), n + 1) else (kw, n)) ms (k0, n0) =
     (fold (\<lambda>v s. js_plus s v) (map g (filter f ms)) k0, n0 + length (filter f ms))"
  by (induction ms arbitrary: k0 n0) simp_all

lemma power_total:
  "reduce_power meters focused now since =
     (fold (\<lambda>v s. js_plus s v) (map (lr_value \<circ> the \<circ> mt_reading) (filter (meter_counts focused now since) meters)) (Num 0),
      length (filter (meter_counts focused now since) meters), length meters)"
  by (simp add: reduce_power_def power_fold comp_def)

text \<open>A meter that stops leaves the total: once the staleness threshold after its last reading (and after the subscription) has
  passed, no meter on the floor in view, or of the building when no floor is, contributes, whatever the other meters do.\<close>

theorem dead_meter_leaves_total:
  assumes "m \<in> set meters" "mt_reading m = Some r" "focused = None \<or> mt_floor m = focused"
    and "max (min (lr_ts r) (lr_received r)) since + stale_after_ms (mt_interval m) < now"
  shows "fst (snd (reduce_power meters focused now since)) < length meters \<and>
    reduce_power meters focused now since =
      (case reduce_power (filter (\<lambda>x. x \<noteq> m) meters) focused now since of (kw, n, k) \<Rightarrow> (kw, n, length meters))"
proof -
  have dead: "\<not> meter_counts focused now since m"
    using assms(2-4) by (auto simp: meter_counts_def is_stale_def is_reading_stale_def reading_age_ms_def)
  then have "filter (meter_counts focused now since) (filter (\<lambda>x. x \<noteq> m) meters) = filter (meter_counts focused now since) meters"
    by (auto intro: filter_cong)
  moreover have "length (filter (meter_counts focused now since) meters) < length meters"
    using dead assms(1) by (rule length_filter_less[rotated])
  ultimately show ?thesis by (simp add: power_total)
qed

subsection \<open>The alert list is the last word on every alert\<close>

definition last_event :: "string \<Rightarrow> alert_event list \<Rightarrow> alert_event option" where
  "last_event i evs = find (\<lambda>e. al_id (av_alert e) = i) (rev evs)"

definition last_word :: "alert list \<Rightarrow> ms option \<Rightarrow> alert_event list \<Rightarrow> string \<Rightarrow> alert option" where
  "last_word snapshot snapshot_at evs i =
     (case last_event i (filter (\<lambda>e. \<not> event_ignored snapshot_at e) evs) of
        Some e \<Rightarrow> if av_kind e = Upsert then Some (av_alert e) else None
      | None \<Rightarrow> jget (snapshot_map snapshot) i)"

lemma last_event_snoc:
  "last_event i (evs @ [e]) = (if al_id (av_alert e) = i then Some e else last_event i evs)"
  by (simp add: last_event_def)

lemma last_event_other:
  "i \<noteq> j \<Longrightarrow> last_event i (filter (\<lambda>e. al_id (av_alert e) \<noteq> j) evs) = last_event i evs"
  by (induction evs rule: rev_induct) (auto simp: last_event_def)

lemma apply_event_get:
  "jget (apply_event t e m) i =
     (if event_ignored t e \<or> al_id (av_alert e) \<noteq> i then jget m i else if av_kind e = Upsert then Some (av_alert e) else None)"
  by (simp add: apply_event_def split: event_kind.split)

lemma reconcile_map: "jget (fold (apply_event t) evs (snapshot_map snapshot)) i = last_word snapshot t evs i"
proof (induction evs rule: rev_induct)
  case Nil
  then show ?case by (simp add: last_word_def last_event_def)
next
  case (snoc e evs)
  then show ?case by (simp add: apply_event_get last_word_def last_event_snoc)
qed

lemma snapshot_map_keys: "jwf (snapshot_map snapshot) \<and> (\<forall>(k, a) \<in> set (snapshot_map snapshot). k = al_id a)"
  unfolding snapshot_map_def
proof (induction snapshot rule: rev_induct)
  case (snoc a as)
  then show ?case using entries_jset_subset[of "al_id a" a "fold (\<lambda>a. jset (al_id a) a) as []"] by (fastforce simp: distinct_update)
qed simp

lemma reconcile_keys:
  "jwf (fold (apply_event t) evs (snapshot_map snapshot)) \<and>
   (\<forall>(k, a) \<in> set (fold (apply_event t) evs (snapshot_map snapshot)). k = al_id a)"
proof (induction evs rule: rev_induct)
  case Nil
  then show ?case using snapshot_map_keys by simp
next
  case (snoc e evs)
  let ?m = "fold (apply_event t) evs (snapshot_map snapshot)"
  let ?k = "al_id (av_alert e)" and ?ok = "\<lambda>m. jwf m \<and> (\<forall>(k, a) \<in> set m. k = al_id a)"
  have m: "?ok ?m" by (rule snoc)
  then have "?ok (jdel ?k ?m)" by (auto simp: AList.delete_eq distinct_map_filter)
  moreover have "?ok (jset ?k (av_alert e) ?m)"
    using m entries_jset_subset[of ?k "av_alert e" ?m] by (intro conjI) (simp add: distinct_update, blast)
  ultimately have "?ok (apply_event t e ?m)" using m by (simp add: apply_event_def split: event_kind.split)
  then show ?case by simp
qed

lemma reconcile_shown:
  "a \<in> set (reconcile_alerts snapshot t evs) \<longleftrightarrow> al_state a \<noteq> Resolved \<and> last_word snapshot t evs (al_id a) = Some a"
proof -
  let ?m = "fold (apply_event t) evs (snapshot_map snapshot)"
  have k: "jwf ?m" "\<forall>(k, a) \<in> set ?m. k = al_id a" using reconcile_keys by blast+
  have "a \<in> snd ` set ?m \<longleftrightarrow> (al_id a, a) \<in> set ?m" using k(2) by force
  also have "\<dots> \<longleftrightarrow> jget ?m (al_id a) = Some a" using k(1) by (simp add: map_of_eq_Some_iff)
  also have "\<dots> \<longleftrightarrow> last_word snapshot t evs (al_id a) = Some a" by (simp only: reconcile_map)
  finally show ?thesis by (auto simp: reconcile_alerts_def)
qed

lemma reconcile_distinct: "distinct (map al_id (reconcile_alerts snapshot t evs))"
proof -
  let ?m = "fold (apply_event t) evs (snapshot_map snapshot)"
  have k: "jwf ?m" "\<forall>(k, a) \<in> set ?m. k = al_id a" using reconcile_keys by blast+
  let ?live = "filter (\<lambda>a. al_state a \<noteq> Resolved) (map snd ?m)"
  have "map al_id (map snd ?m) = map fst ?m" using k(2) by (auto simp: case_prod_beta)
  then have "distinct (map al_id (map snd ?m))" using k(1) by (simp only:)
  then have "distinct (map al_id ?live)" by (rule distinct_map_filter)
  then have "distinct ?live \<and> inj_on al_id (set ?live)" by (simp only: distinct_map simp_thms)
  then show ?thesis by (simp only: reconcile_alerts_def distinct_map distinct_sort set_sort simp_thms)
qed

subsection \<open>Keeping only the last event of each alert loses nothing\<close>

lemma append_keeps_last:
  assumes "length (filter (\<lambda>x. al_id (av_alert x) \<noteq> al_id (av_alert e)) es) < max_alert_events"
  shows "append_alert_event es e = filter (\<lambda>x. al_id (av_alert x) \<noteq> al_id (av_alert e)) es @ [e]"
proof -
  have "\<not> length (filter (\<lambda>x. al_id (av_alert x) \<noteq> al_id (av_alert e)) es @ [e]) > max_alert_events" using assms by simp
  then show ?thesis unfolding append_alert_event_def Let_def by (rule if_not_P)
qed

lemma kept_events:
  assumes "card ((\<lambda>e. al_id (av_alert e)) ` set evs) \<le> max_alert_events"
  defines "es \<equiv> fold (\<lambda>e es. append_alert_event es e) evs []"
  shows "distinct (map (\<lambda>e. al_id (av_alert e)) es) \<and> set es \<subseteq> set evs \<and> (\<forall>i. last_event i es = last_event i evs)"
  using assms(1) unfolding es_def
proof (induction evs rule: rev_induct)
  case Nil
  then show ?case by simp
next
  case (snoc e evs)
  let ?id = "\<lambda>e. al_id (av_alert e)" and ?es = "fold (\<lambda>e es. append_alert_event es e) evs []"
  let ?kept = "filter (\<lambda>x. ?id x \<noteq> ?id e) ?es"
  have "card (?id ` set evs) \<le> card (?id ` set (evs @ [e]))" by (rule card_mono) auto
  then have IH: "distinct (map ?id ?es)" "set ?es \<subseteq> set evs" "\<forall>i. last_event i ?es = last_event i evs"
    using snoc by simp_all
  have "length ?kept = card (?id ` set ?kept)" using distinct_card[OF distinct_map_filter[OF IH(1), of "\<lambda>x. ?id x \<noteq> ?id e"]] by (simp only: length_map set_map)
  also have "\<dots> < card (?id ` set (evs @ [e]))" 
  proof (rule psubset_card_mono)
    have "?id e \<notin> ?id ` set ?kept" by auto
    moreover have "?id ` set ?kept \<subseteq> ?id ` set (evs @ [e])" using IH(2) by auto
    ultimately show "?id ` set ?kept \<subset> ?id ` set (evs @ [e])" by (auto simp: psubset_eq)
  qed simp
  finally have app: "append_alert_event ?es e = ?kept @ [e]" using snoc.prems by (intro append_keeps_last) simp
  have "last_event i ?kept = last_event i ?es" if "i \<noteq> ?id e" for i using last_event_other[OF that] by simp
  then have "\<forall>i. last_event i (?kept @ [e]) = last_event i (evs @ [e])" using IH(3) by (simp add: last_event_snoc)
  moreover have "distinct (map ?id (?kept @ [e]))" using distinct_map_filter[OF IH(1)] by auto
  ultimately show ?case using IH(2) by (auto simp: app)
qed

lemma last_event_Some: "last_event i evs = Some e \<Longrightarrow> e \<in> set evs \<and> al_id (av_alert e) = i"
  by (induction evs rule: rev_induct) (auto simp: last_event_def split: if_splits)

text \<open>An event no older than the snapshot is later than every ignored one.\<close>

lemma fresh_last:
  assumes "sorted (map av_at evs)"
  shows "last_event i (filter (\<lambda>e. \<not> event_ignored t e) evs) =
    (case last_event i evs of None \<Rightarrow> None | Some e \<Rightarrow> if event_ignored t e then None else Some e)"
  using assms
proof (induction evs rule: rev_induct)
  case (snoc e evs)
  have older: "event_ignored t e \<Longrightarrow> x \<in> set evs \<Longrightarrow> event_ignored t x" for x
    using snoc.prems by (auto simp: event_ignored_def sorted_append split: option.splits)
  show ?case
  proof (cases "event_ignored t e")
    case True
    then have none: "filter (\<lambda>e. \<not> event_ignored t e) evs = []" using older by (simp add: filter_empty_conv)
    have "event_ignored t x" if "last_event i evs = Some x" for x using last_event_Some[OF that] older[OF True] by blast
    then have "(case last_event i evs of None \<Rightarrow> None | Some x \<Rightarrow> if event_ignored t x then None else Some x) = None"
      by (cases "last_event i evs") simp_all
    then show ?thesis using True none by (simp add: last_event_snoc last_event_def[of _ "[]"])
  next
    case False
    then show ?thesis using snoc by (simp add: last_event_snoc sorted_append)
  qed
qed (simp add: last_event_def)

lemma reconcile_by_last:
  assumes "\<And>i. last_word snapshot t xs i = last_word snapshot t ys i"
  shows "mset (reconcile_alerts snapshot t xs) = mset (reconcile_alerts snapshot t ys)"
proof -
  have "set (reconcile_alerts snapshot t xs) = set (reconcile_alerts snapshot t ys)" using assms by (auto simp: reconcile_shown)
  then show ?thesis
    using reconcile_distinct[of snapshot t xs] reconcile_distinct[of snapshot t ys] by (metis distinct_map set_eq_iff_mset_eq_distinct)
qed

lemma kept_sorted:
  "sorted (map av_at evs) \<Longrightarrow> sorted (map av_at (fold (\<lambda>e es. append_alert_event es e) evs [])) \<and> set (fold (\<lambda>e es. append_alert_event es e) evs []) \<subseteq> set evs"
proof (induction evs rule: rev_induct)
  case (snoc e evs)
  let ?es = "fold (\<lambda>e es. append_alert_event es e) evs []"
  let ?next = "filter (\<lambda>x. al_id (av_alert x) \<noteq> al_id (av_alert e)) ?es @ [e]"
  have IH: "sorted (map av_at ?es)" "set ?es \<subseteq> set evs" using snoc by (simp_all add: sorted_append)
  have "sorted (map av_at (filter (\<lambda>x. al_id (av_alert x) \<noteq> al_id (av_alert e)) ?es))" using IH(1) by (rule sorted_filter)
  moreover have "\<forall>x \<in> set ?es. av_at x \<le> av_at e" using snoc.prems IH(2) by (auto simp: sorted_append)
  ultimately have n: "sorted (map av_at ?next)" "set ?next \<subseteq> set (evs @ [e])" using IH(2) by (auto simp: sorted_append)
  moreover have "sorted (map av_at (drop k ?next))" "set (drop k ?next) \<subseteq> set (evs @ [e])" for k
    using n by (simp_all only: drop_map[symmetric] sorted_wrt_drop order_trans[OF set_drop_subset])
  ultimately show ?case by (simp only: fold_append comp_apply fold_simps append_alert_event_def Let_def split: if_split) blast
qed simp

definition kept_of :: "alert_event list \<Rightarrow> alert_event list" where
  "kept_of evs = fold (\<lambda>e es. append_alert_event es e) evs []"

lemma reconcile_sorted: "sorted (map (\<lambda>a. (severity_rank (al_severity a), - al_opened_at a)) (reconcile_alerts snapshot t evs))"
  unfolding reconcile_alerts_def by (rule sorted_sort_key)

lemma sorted_same_keys: "mset xs = mset ys \<Longrightarrow> sorted (map f xs) \<Longrightarrow> sorted (map f ys) \<Longrightarrow> map f xs = map f ys"
  by (metis mset_map properties_for_sort sorted_sort_id)

text \<open>C35: Keeping the last event of each alert loses nothing: while the events heard (in the order of the browser's clock) are about
  at most 500 alerts, the list shown from the kept events has, for whatever snapshot, just the alerts that all the events would
  give, each as often, and place by place with the same severity and opening time (so the order may differ only among alerts that
  share both); and an alert is on it exactly when the last event about it since the snapshot was requested, or the snapshot where
  there is none, has it unresolved.\<close>
theorem kept_events_suffice:
  assumes "sorted (map av_at evs)" "card ((\<lambda>e. al_id (av_alert e)) ` set evs) \<le> max_alert_events"
  shows "mset (reconcile_alerts snapshot t (kept_of evs)) = mset (reconcile_alerts snapshot t evs) \<and>
    map (\<lambda>a. (severity_rank (al_severity a), - al_opened_at a)) (reconcile_alerts snapshot t (kept_of evs)) =
      map (\<lambda>a. (severity_rank (al_severity a), - al_opened_at a)) (reconcile_alerts snapshot t evs) \<and>
    (a \<in> set (reconcile_alerts snapshot t (kept_of evs)) \<longleftrightarrow> al_state a \<noteq> Resolved \<and> last_word snapshot t evs (al_id a) = Some a)"
proof -
  have word: "last_word snapshot t (kept_of evs) i = last_word snapshot t evs i" for i
  proof -
    have "last_event i (kept_of evs) = last_event i evs" using kept_events[OF assms(2)] unfolding kept_of_def by blast
    then show ?thesis
      unfolding last_word_def kept_of_def by (simp only: fresh_last[OF assms(1)] fresh_last[OF conjunct1[OF kept_sorted[OF assms(1)]]])
  qed
  have m: "mset (reconcile_alerts snapshot t (kept_of evs)) = mset (reconcile_alerts snapshot t evs)" by (rule reconcile_by_last) (rule word)
  have "a \<in> set (reconcile_alerts snapshot t (kept_of evs)) \<longleftrightarrow> al_state a \<noteq> Resolved \<and> last_word snapshot t evs (al_id a) = Some a"
    unfolding reconcile_shown word by (rule refl)
  then show ?thesis by (intro conjI m sorted_same_keys[OF m reconcile_sorted reconcile_sorted])
qed

text \<open>The alert list is the last word on every alert: an alert is shown exactly when the last event about it since the snapshot
  was requested, or the snapshot where there is none, has it unresolved; each alert is shown once, the most severe first.\<close>

theorem alert_list_exact:
  "(a \<in> set (reconcile_alerts snapshot t evs) \<longleftrightarrow> al_state a \<noteq> Resolved \<and> last_word snapshot t evs (al_id a) = Some a) \<and>
   distinct (map al_id (reconcile_alerts snapshot t evs)) \<and>
   sorted (map (\<lambda>a. (severity_rank (al_severity a), - al_opened_at a)) (reconcile_alerts snapshot t evs))"
  using reconcile_shown reconcile_distinct sorted_sort_key unfolding reconcile_alerts_def by blast

subsection \<open>The latest measurement\<close>

lemma newer_ts: "lr_ts (newer h r) = (case h of None \<Rightarrow> lr_ts r | Some x \<Rightarrow> max (lr_ts x) (lr_ts r))"
  by (simp add: newer_def max_def split: option.split)

lemma take_batch_get:
  assumes "distinct (map fst ts)"
  shows "jget (take_batch now ts prev) i =
    (case map_of ts i of None \<Rightarrow> jget prev i | Some x \<Rightarrow> Some (newer (jget prev i) (live_of_tuple now (i, x))))"
proof -
  let ?g = "\<lambda>t. newer (jget prev (fst t)) (live_of_tuple now t)"
  have b: "take_batch now ts prev = fold (\<lambda>t. jset (fst t) (?g t)) ts prev" by (rule take_batch_def)
  show ?thesis
  proof (cases "map_of ts i")
    case None
    then have "i \<notin> fst ` set ts" by (simp add: map_of_eq_None_iff)
    then have "jget (take_batch now ts prev) i = jget prev i" unfolding b by (rule jget_fold_jset_other)
    then show ?thesis by (simp only: None option.case)
  next
    case (Some x)
    have "inj_on fst (set ts)" "(i, x) \<in> set ts" using assms Some by (simp_all only: distinct_map map_of_SomeD)
    then have "jget (take_batch now ts prev) (fst (i, x)) = Some (?g (i, x))" unfolding b by (rule jget_fold_jset)
    then show ?thesis by (simp only: Some option.case fst_conv)
  qed
qed

definition one_each :: "'s live_frame \<Rightarrow> bool" where
  "one_each f = (case f of FTelemetry ts \<Rightarrow> distinct (map fst ts) | _ \<Rightarrow> True)"

lemma message_keeps_later:
  assumes "one_each f" "jget (ls_readings s) i = Some r"
  shows "\<exists>r'. jget (ls_readings (live_message now f s)) i = Some r' \<and> lr_ts r \<le> lr_ts r'"
  using assms by (cases f) (auto simp: one_each_def take_batch_get newer_ts split: option.split)

lemma run_keeps_later:
  assumes "list_all (one_each \<circ> snd) fs" "jget (ls_readings s) i = Some r"
  shows "\<exists>r'. jget (ls_readings (frames_run fs s)) i = Some r' \<and> lr_ts r \<le> lr_ts r'"
  using assms
proof (induction fs arbitrary: s r)
  case (Cons nf fs)
  obtain now f where nf: "nf = (now, f)" by (cases nf)
  obtain r1 where r1: "jget (ls_readings (live_message now f s)) i = Some r1" "lr_ts r \<le> lr_ts r1"
    using message_keeps_later[of f s i r now] Cons.prems by (auto simp: nf)
  obtain r2 where "jget (ls_readings (frames_run fs (live_message now f s))) i = Some r2" "lr_ts r1 \<le> lr_ts r2"
    using Cons.IH[OF _ r1(1)] Cons.prems(1) by auto
  then show ?case using r1(2) by (auto simp: nf frames_run_def)
qed (simp add: frames_run_def)

text \<open>The reading held for a point is the latest measurement, not the latest packet: as long as no frame brings two readings
  of one point, what is held after any frames is at least as late as every reading they brought, in whatever order they came.\<close>

theorem latest_measurement_held:
  assumes "list_all (one_each \<circ> snd) fs" "(now, FTelemetry ts) \<in> set fs" "(i, at_ms, v, q) \<in> set ts"
  shows "\<exists>r. jget (ls_readings (frames_run fs s)) i = Some r \<and> at_ms \<le> lr_ts r"
proof -
  obtain before later where fs: "fs = before @ (now, FTelemetry ts) # later" using assms(2) by (meson split_list)
  let ?s = "frames_run before s" and ?s1 = "live_message now (FTelemetry ts) (frames_run before s)"
  have d: "distinct (map fst ts)" using assms(1) by (simp add: fs one_each_def)
  have "map_of ts i = Some (at_ms, v, q)" using d assms(3) by (rule map_of_is_SomeI)
  then have "jget (ls_readings ?s1) i = Some (newer (jget (ls_readings ?s) i) (live_of_tuple now (i, at_ms, v, q)))"
    by (simp add: take_batch_get[OF d])
  moreover have "at_ms \<le> lr_ts (newer (jget (ls_readings ?s) i) (live_of_tuple now (i, at_ms, v, q)))"
    by (simp add: newer_ts live_of_tuple_def split: option.split)
  moreover have "list_all (one_each \<circ> snd) later" using assms(1) by (simp add: fs)
  ultimately obtain r where "jget (ls_readings (frames_run later ?s1)) i = Some r" "at_ms \<le> lr_ts r"
    using run_keeps_later by (meson order_trans)
  then show ?thesis by (auto simp: fs frames_run_def)
qed

text \<open>Two readings of one point in one frame: the second is compared with what was held before the frame, so an older one that comes
  second replaces a newer one.\<close>

lemma batch_rewinds:
  assumes "case jget prev i of None \<Rightarrow> True | Some h \<Rightarrow> lr_ts h \<le> old" "old < new"
  shows "\<exists>r. jget (take_batch now [(i, new, v, q), (i, old, w, p)] prev) i = Some r \<and> lr_ts r = old"
  using assms by (auto simp: take_batch_def newer_def live_of_tuple_def split: option.splits)

subsection \<open>Examples\<close>

definition sample_point :: point_input where
  "sample_point = \<lparr>pt_interval = 60, pt_reading = Some \<lparr>lr_value = Num 21, lr_ts = 1000, lr_quality = Good, lr_received = 1500\<rparr>\<rparr>"

definition sample_meter :: meter_input where
  "sample_meter = \<lparr>mt_interval = 60, mt_reading = pt_reading sample_point, mt_floor = None\<rparr>"

definition sample_alert :: alert where
  "sample_alert = \<lparr>al_id = ''a'', al_tenant = ''t'', al_rule = ''r'', al_sensor = None, al_equipment = None, al_zone = None, al_severity = Warning,
     al_state = AlertOpen, al_message = [], al_trigger = None, al_threshold = None, al_opened_at = 5, al_acknowledged = None, al_resolved_at = None\<rparr>"

definition sample_events :: "alert_event list" where
  "sample_events = [\<lparr>av_kind = Upsert, av_alert = sample_alert, av_at = 10\<rparr>, \<lparr>av_kind = ResolvedEvent, av_alert = sample_alert, av_at = 20\<rparr>]"

theorem silent_zone_goes_stale_witness:
  "zone_source (reduce_zone [sample_point] 200000 0) True = FromStale \<and> zone_source (reduce_zone [sample_point] 400000 150000) True = FromStale"
  by (intro conjI silent_zone_goes_stale[of _ 5000]) (simp_all add: sample_point_def stale_after_ms_def stale_intervals_def)

theorem dead_meter_leaves_total_witness: "fst (snd (reduce_power [sample_meter] None 200000 0)) < 1"
proof -
  have "mt_reading sample_meter = Some \<lparr>lr_value = Num 21, lr_ts = 1000, lr_quality = Good, lr_received = 1500\<rparr>"
    by (simp add: sample_meter_def sample_point_def)
  then have "fst (snd (reduce_power [sample_meter] None 200000 0)) < length [sample_meter]"
    by (intro conjunct1[OF dead_meter_leaves_total[of sample_meter, OF _ \<open>mt_reading sample_meter = _\<close>]]) (simp_all add: sample_meter_def stale_after_ms_def stale_intervals_def)
  then show ?thesis by simp
qed

theorem kept_events_suffice_witness:
  "mset (reconcile_alerts [] None (kept_of sample_events)) = mset (reconcile_alerts [] None sample_events)"
  by (rule conjunct1[OF kept_events_suffice]) (simp_all add: sample_events_def max_alert_events_def)

theorem latest_measurement_held_witness:
  "\<exists>r. jget (ls_readings (frames_run [(9, FTelemetry [(''s'', 5, Num 1, Good)]), (10, FTelemetry [(''s'', 3, Num 2, Good)])]
     \<lparr>ls_readings = [], ls_since = None, ls_events = [], ls_sims = [], ls_connected = True\<rparr>)) ''s'' = Some r \<and> 5 \<le> lr_ts r"
  by (rule latest_measurement_held[where now = 9 and ts = "[(''s'', 5, Num 1, Good)]"]) (simp_all add: one_each_def)

end
