(* ===== verification/Panel.thy ===== *)
theory Panel
  imports Copilot_State
begin

section \<open>The copilot panel's state (apps/web/lib/copilot-panel/run.ts)\<close>

text \<open>
  Pure reducers over the events of a stream and the turns that end it, and what the panel derives from them: the lit nodes, the
  chips, the activity lines, the simulation rows. A turn is the fields these functions read; the card of a streamed record and
  the texts of the chips that only name a specialist or a phase are left out. The keys of \<open>finishing\<close> are specialists, an absent key is zero.
\<close>

subsection \<open>Events and turns (\<open>protocol.ts\<close>)\<close>

datatype panel_node =
    AtIntake | AtOrient | AtPlanner | AtSpecialist role | AtJoin | AtCompose | AtVerify | AtPlanCheck | AtConfirm | AtApply | AtDeclined | AtFinish

datatype task_status = TaskPending | TaskRunning | TaskDone | TaskEnded finding_status

record panel_task =
  pk_id :: string
  pk_specialist :: role
  pk_goal :: "string option"
  pk_status :: task_status
  pk_reason :: "finding_reason option"

datatype sim_status = SimQueued | SimRunningNow | SimDone | SimBroken | SimCancelled

record sim_meta =
  sm_task :: string
  sm_run :: string
  sm_baseline :: bool
  sm_scenario :: string
  sm_status :: sim_status
  sm_progress :: rat

record plan_marker =
  pm_interrupt :: string
  pm_plan :: string
  pm_hash :: string
  pm_expires :: string

datatype said = SaidByOperator string | SaidByCopilot "string option"

record 'c panel_turn =
  pu_request :: "string option"
  pu_running :: bool
  pu_dialogue :: "said list"
  pu_cards :: "'c list"
  pu_tasks :: "panel_task list"
  pu_plan :: "plan_marker option"

datatype ('e, 'c) panel_event =
    EvAccepted "string option"
  | EvStep panel_node
  | EvTask string role "string option" task_status
  | EvActivity string string string
  | EvEvidence string 'e
  | EvSim sim_meta
  | EvPlan plan_marker
  | EvPing
  | EvTurn "'c panel_turn"
  | EvError "string option"

subsection \<open>The state\<close>

datatype activity_class = ClsRead | ClsDryRun | ClsScratch | ClsPropose | ClsReport | ClsOther

definition activity_classes :: "(string \<times> activity_class) list" where
  "activity_classes =
     map (\<lambda>t. (t, ClsRead)) [''zone_conditions'', ''zone_history'', ''zone_timeline'', ''equipment_status'', ''list_alerts'', ''control_history'',
       ''energy_by_end_use'', ''meter_consumption'', ''compare_zones'', ''list_zones'', ''control_envelope''] @
     [(''dry_run_setpoint'', ClsDryRun), (''simulate_scenarios'', ClsScratch), (''propose_plan'', ClsPropose), (''report_finding'', ClsReport)]"

definition class_of :: "string \<Rightarrow> activity_class" where
  "class_of tool = (case map_of activity_classes tool of Some c \<Rightarrow> c | None \<Rightarrow> ClsOther)"

definition finished_status :: "task_status \<Rightarrow> bool" where
  "finished_status s = (case s of TaskPending \<Rightarrow> False | TaskRunning \<Rightarrow> False | _ \<Rightarrow> True)"

definition is_specialist :: "role \<Rightarrow> bool" where
  "is_specialist r = (r \<in> {Diagnose, Analyse, Simulate, Control})"

record panel_activity =
  pa_task :: string
  pa_counts :: "(activity_class, nat) jsmap"
  pa_last :: string

datatype run_kind = ByMessage | ByDecision

datatype stream_end = EndedTurn | EndedError | EndedLost

record 'e live_run =
  lv_kind :: run_kind
  lv_asked :: "string option"
  lv_decision :: "bool option"
  lv_request :: "string option"
  lv_streaming :: bool
  lv_ended :: "stream_end option"
  lv_last :: "panel_node option"
  lv_finishing :: "(role, nat) jsmap"
  lv_tasks :: "panel_task list"
  lv_activity :: "panel_activity list"
  lv_evidence :: "(string \<times> 'e) list"
  lv_sims :: "sim_meta list"
  lv_plan :: "plan_marker option"

text \<open>The run that a new one replaced is kept one level deep, so it stands beside the live run.\<close>

record ('e, 'c) panel_state =
  pn_turn :: "'c panel_turn option"
  pn_live :: "'e live_run option"
  pn_previous :: "'e live_run option"

definition empty_panel :: "('e, 'c) panel_state" where
  "empty_panel = \<lparr>pn_turn = None, pn_live = None, pn_previous = None\<rparr>"

definition fresh_run :: "run_kind \<Rightarrow> string option \<Rightarrow> bool option \<Rightarrow> 'e live_run" where
  "fresh_run kind asked decision =
     \<lparr>lv_kind = kind, lv_asked = asked, lv_decision = decision, lv_request = None, lv_streaming = True, lv_ended = None, lv_last = None,
      lv_finishing = [], lv_tasks = [], lv_activity = [], lv_evidence = [], lv_sims = [], lv_plan = None\<rparr>"

definition begin_message :: "('e, 'c) panel_state \<Rightarrow> string \<Rightarrow> ('e, 'c) panel_state" where
  "begin_message s text = s\<lparr>pn_live := Some (fresh_run ByMessage (Some text) None), pn_previous := pn_live s\<rparr>"

definition begin_decision :: "('e, 'c) panel_state \<Rightarrow> bool \<Rightarrow> ('e, 'c) panel_state" where
  "begin_decision s approved =
     (let next = fresh_run ByDecision None (Some approved) in
      s\<lparr>pn_live := Some (case pn_live s of
            Some p \<Rightarrow> next\<lparr>lv_request := lv_request p, lv_tasks := lv_tasks p, lv_activity := lv_activity p, lv_evidence := lv_evidence p,
                         lv_sims := lv_sims p\<rparr>
          | None \<Rightarrow> next),
        pn_previous := pn_live s\<rparr>)"

fun upsert :: "('a \<Rightarrow> string) \<Rightarrow> 'a \<Rightarrow> ('a \<Rightarrow> 'a \<Rightarrow> 'a) \<Rightarrow> 'a list \<Rightarrow> 'a list" where
  "upsert key item merge [] = [item]"
| "upsert key item merge (x # xs) = (if key x = key item then merge x item # xs else x # upsert key item merge xs)"

definition merge_tasks :: "panel_task list \<Rightarrow> panel_task list \<Rightarrow> panel_task list" where
  "merge_tasks live turn = fold (\<lambda>t. upsert pk_id t (\<lambda>old inc. inc)) turn live"

definition finishing_of :: "'e live_run \<Rightarrow> role \<Rightarrow> nat" where
  "finishing_of l r = (case jget (lv_finishing l) r of Some n \<Rightarrow> n | None \<Rightarrow> 0)"

definition count_activity :: "string \<Rightarrow> string \<Rightarrow> string \<Rightarrow> panel_activity list \<Rightarrow> panel_activity list" where
  "count_activity task tool label as =
     (let c = class_of tool; counts = (case find (\<lambda>a. pa_task a = task) as of Some a \<Rightarrow> pa_counts a | None \<Rightarrow> []) in
      upsert pa_task
        \<lparr>pa_task = task, pa_counts = jset c ((case jget counts c of Some n \<Rightarrow> n | None \<Rightarrow> 0) + 1) counts, pa_last = label\<rparr> (\<lambda>old inc. inc) as)"

fun fold_live :: "('e, 'c) panel_event \<Rightarrow> 'e live_run \<Rightarrow> 'e live_run" where
  "fold_live (EvAccepted i) l = l\<lparr>lv_request := (case i of Some x \<Rightarrow> Some x | None \<Rightarrow> lv_request l)\<rparr>"
| "fold_live (EvStep n) l =
     (let l1 = (case n of AtSpecialist r \<Rightarrow> if finishing_of l r > 0 then l\<lparr>lv_finishing := jset r (finishing_of l r - 1) (lv_finishing l)\<rparr> else l
                        | _ \<Rightarrow> l)
      in l1\<lparr>lv_last := Some n\<rparr>)"
| "fold_live (EvTask i r goal st) l =
     (let held = find (\<lambda>t. pk_id t = i) (lv_tasks l);
          ended = finished_status st \<and> \<not> (case held of Some t \<Rightarrow> finished_status (pk_status t) | None \<Rightarrow> False)
      in l\<lparr>lv_tasks := upsert pk_id \<lparr>pk_id = i, pk_specialist = r, pk_goal = goal, pk_status = st, pk_reason = None\<rparr>
               (\<lambda>old inc. inc\<lparr>pk_goal := (case pk_goal inc of Some g \<Rightarrow> Some g | None \<Rightarrow> pk_goal old)\<rparr>) (lv_tasks l),
           lv_finishing := (if ended then jset r (finishing_of l r + 1) (lv_finishing l) else lv_finishing l)\<rparr>)"
| "fold_live (EvActivity task tool label) l = l\<lparr>lv_activity := count_activity task tool label (lv_activity l)\<rparr>"
| "fold_live (EvEvidence i e) l = (if i \<in> fst ` set (lv_evidence l) then l else l\<lparr>lv_evidence := lv_evidence l @ [(i, e)]\<rparr>)"
| "fold_live (EvSim m) l = l\<lparr>lv_sims := upsert sm_run m (\<lambda>old inc. inc) (lv_sims l)\<rparr>"
| "fold_live (EvPlan p) l = l\<lparr>lv_plan := Some p\<rparr>"
| "fold_live EvPing l = l"
| "fold_live (EvTurn t) l = l\<lparr>lv_tasks := merge_tasks (lv_tasks l) (pu_tasks t), lv_ended := Some EndedTurn\<rparr>"
| "fold_live (EvError i) l = l\<lparr>lv_ended := Some EndedError, lv_request := (case i of Some x \<Rightarrow> Some x | None \<Rightarrow> lv_request l)\<rparr>"

definition fold_event :: "('e, 'c) panel_event \<Rightarrow> ('e, 'c) panel_state \<Rightarrow> ('e, 'c) panel_state" where
  "fold_event e s =
     (let s1 = (case e of EvTurn t \<Rightarrow> s\<lparr>pn_turn := Some t\<rparr> | _ \<Rightarrow> s) in s1\<lparr>pn_live := map_option (fold_live e) (pn_live s)\<rparr>)"

definition apply_events :: "('e, 'c) panel_state \<Rightarrow> ('e, 'c) panel_event list \<Rightarrow> ('e, 'c) panel_state" where
  "apply_events s es = fold fold_event es s"

definition end_stream :: "('e, 'c) panel_state \<Rightarrow> stream_end \<Rightarrow> ('e, 'c) panel_state" where
  "end_stream s how =
     s\<lparr>pn_live := map_option (\<lambda>l. l\<lparr>lv_streaming := False, lv_ended := Some (case lv_ended l of Some h \<Rightarrow> h | None \<Rightarrow> how)\<rparr>) (pn_live s)\<rparr>"

definition apply_turn :: "('e, 'c) panel_state \<Rightarrow> 'c panel_turn \<Rightarrow> ('e, 'c) panel_state" where
  "apply_turn s turn =
     (case pn_live s of
        Some l \<Rightarrow>
          if \<not> lv_streaming l \<and> lv_request l \<noteq> None \<and> lv_request l = pu_request turn
          then s\<lparr>pn_turn := Some turn, pn_live := Some (l\<lparr>lv_tasks := merge_tasks (lv_tasks l) (pu_tasks turn)\<rparr>)\<rparr>
          else if lv_streaming l then s\<lparr>pn_turn := Some turn\<rparr>
          else s\<lparr>pn_turn := Some turn, pn_live := None, pn_previous := None\<rparr>
      | None \<Rightarrow> s\<lparr>pn_turn := Some turn, pn_previous := None\<rparr>)"

definition refuse :: "('e, 'c) panel_state \<Rightarrow> ('e, 'c) panel_state" where
  "refuse s = s\<lparr>pn_live := (if pn_live s = None then None else pn_previous s), pn_previous := None\<rparr>"

subsection \<open>What is current\<close>

definition current_turn :: "('e, 'c) panel_state \<Rightarrow> 'c panel_turn option" where
  "current_turn s =
     (case (pn_turn s, pn_live s) of
        (None, _) \<Rightarrow> None
      | (Some t, None) \<Rightarrow> Some t
      | (Some t, Some l) \<Rightarrow> if lv_kind l = ByDecision \<or> (lv_request l \<noteq> None \<and> lv_request l = pu_request t) then Some t else None)"

fun by_operator :: "said \<Rightarrow> string option" where
  "by_operator (SaidByOperator t) = Some t"
| "by_operator (SaidByCopilot t) = None"

text \<open>The last thing the operator said, and what came before it.\<close>

definition split_dialogue :: "('e, 'c) panel_state \<Rightarrow> said list \<times> string option" where
  "split_dialogue s =
     (let dialogue = (case pn_turn s of Some t \<Rightarrow> pu_dialogue t | None \<Rightarrow> []) in
      case pn_live s of
        Some l \<Rightarrow>
          if lv_kind l = ByMessage \<and> current_turn s = None then (dialogue, lv_asked l)
          else (case dropWhile (\<lambda>d. by_operator d = None) (rev dialogue) of
                  [] \<Rightarrow> (dialogue, None) | d # earlier \<Rightarrow> (rev earlier, by_operator d))
      | None \<Rightarrow> (case dropWhile (\<lambda>d. by_operator d = None) (rev dialogue) of
                  [] \<Rightarrow> (dialogue, None) | d # earlier \<Rightarrow> (rev earlier, by_operator d)))"

definition evidence_cards :: "(string \<times> 'e \<Rightarrow> 'c) \<Rightarrow> ('e, 'c) panel_state \<Rightarrow> 'c list" where
  "evidence_cards provisional s =
     (case current_turn s of Some t \<Rightarrow> pu_cards t
      | None \<Rightarrow> map provisional (case pn_live s of Some l \<Rightarrow> lv_evidence l | None \<Rightarrow> []))"

definition is_running :: "('e, 'c) panel_state \<Rightarrow> bool" where
  "is_running s = ((case pn_live s of Some l \<Rightarrow> lv_streaming l | None \<Rightarrow> False) \<or> (case pn_turn s of Some t \<Rightarrow> pu_running t | None \<Rightarrow> False))"

definition likely_next :: "panel_node option \<Rightarrow> bool \<Rightarrow> bool option \<Rightarrow> panel_node option" where
  "likely_next latest has_findings decision =
     (case latest of
        None \<Rightarrow> Some (if decision \<noteq> None then AtConfirm else AtIntake)
      | Some AtIntake \<Rightarrow> Some AtOrient
      | Some AtOrient \<Rightarrow> Some AtPlanner
      | Some AtPlanner \<Rightarrow> Some (if has_findings then AtCompose else AtSpecialist Control)
      | Some (AtSpecialist r) \<Rightarrow> if r \<in> {Diagnose, Analyse, Simulate} then Some AtJoin else None
      | Some AtJoin \<Rightarrow> Some AtPlanner
      | Some AtCompose \<Rightarrow> Some AtVerify
      | Some AtConfirm \<Rightarrow> (case decision of Some True \<Rightarrow> Some AtApply | Some False \<Rightarrow> Some AtDeclined | None \<Rightarrow> None)
      | Some AtApply \<Rightarrow> Some AtFinish
      | Some AtDeclined \<Rightarrow> Some AtFinish
      | _ \<Rightarrow> None)"

definition active_nodes :: "('e, 'c) panel_state \<Rightarrow> panel_node list" where
  "active_nodes s =
     (if \<not> is_running s then (case pn_turn s of Some t \<Rightarrow> if pu_plan t \<noteq> None then [AtConfirm] else [] | None \<Rightarrow> [])
      else case pn_live s of
             None \<Rightarrow> []
           | Some l \<Rightarrow>
               if \<not> lv_streaming l then []
               else if lv_plan l \<noteq> None then [AtConfirm]
               else (let running = map (AtSpecialist \<circ> pk_specialist) (filter (\<lambda>t. pk_status t = TaskRunning) (lv_tasks l)) @
                           map (AtSpecialist \<circ> fst) (filter (\<lambda>(r, n). n > 0) (lv_finishing l)) in
                     if running \<noteq> [] then remdups (if lv_last l \<in> {Some AtOrient, Some AtJoin} then AtPlanner # running else running)
                     else (case likely_next (lv_last l)
                                  (\<exists>t \<in> set (lv_tasks l). pk_specialist t \<noteq> Control \<and> finished_status (pk_status t)) (lv_decision l) of
                             Some n \<Rightarrow> [n] | None \<Rightarrow> [])))"

subsection \<open>Simulation rows\<close>

record socket_run =
  sr_progress :: rat
  sr_status :: sim_status

record sim_row =
  sw_run :: string
  sw_task :: string
  sw_label :: string
  sw_status :: sim_status
  sw_progress :: rat

definition terminal :: "sim_status \<Rightarrow> bool" where
  "terminal s = (s \<in> {SimDone, SimBroken, SimCancelled})"

definition sim_row_of :: "(string, socket_run) jsmap \<Rightarrow> sim_meta \<Rightarrow> sim_row" where
  "sim_row_of socket m =
     (let (st, pct) =
        (case jget socket (sm_run m) of
           Some w \<Rightarrow>
             if \<not> terminal (sm_status m)
             then (if terminal (sr_status w) then (sr_status w, if sr_status w = SimDone then 100 else sm_progress m)
                   else (sm_status m, max (sm_progress m) (sr_progress w)))
             else (sm_status m, sm_progress m)
         | None \<Rightarrow> (sm_status m, sm_progress m))
      in \<lparr>sw_run = sm_run m, sw_task = sm_task m, sw_label = (if sm_baseline m then ''baseline'' else sm_scenario m), sw_status = st,
          sw_progress = (if st = SimDone then 100 else pct)\<rparr>)"

definition sim_rows :: "('e, 'c) panel_state \<Rightarrow> (string, socket_run) jsmap \<Rightarrow> nat \<Rightarrow> sim_row list" where
  "sim_rows s socket limit =
     (let rows = map (sim_row_of socket) (case pn_live s of Some l \<Rightarrow> lv_sims l | None \<Rightarrow> []) in
      take limit (filter (\<lambda>r. \<not> terminal (sw_status r)) rows @ filter (\<lambda>r. terminal (sw_status r)) rows))"

definition hidden_sim_runs :: "('e, 'c) panel_state \<Rightarrow> nat \<Rightarrow> nat" where
  "hidden_sim_runs s limit = (case pn_live s of Some l \<Rightarrow> length (lv_sims l) - limit | None \<Rightarrow> 0)"

subsection \<open>One entry per id\<close>

lemma upsert_keys:
  assumes "\<And>old. key old = key item \<Longrightarrow> key (merge old item) = key item"
  shows "map key (upsert key item merge xs) = map key xs @ (if key item \<in> key ` set xs then [] else [key item])"
  by (induction xs) (auto simp: assms)

lemma upsert_distinct:
  assumes "\<And>old. key old = key item \<Longrightarrow> key (merge old item) = key item" "distinct (map key xs)"
  shows "distinct (map key (upsert key item merge xs))"
  using assms(2) by (simp add: upsert_keys[where merge = merge, OF assms(1)])

lemma upsert_find:
  assumes "\<And>old. key old = key item \<Longrightarrow> key (merge old item) = key item"
  shows "find (\<lambda>x. key x = k) (upsert key item merge xs) =
    (if k = key item then Some (case find (\<lambda>x. key x = k) xs of Some old \<Rightarrow> merge old item | None \<Rightarrow> item) else find (\<lambda>x. key x = k) xs)"
  by (induction xs) (auto simp: assms)

lemma merge_tasks_find:
  assumes "distinct (map pk_id turn)"
  shows "find (\<lambda>t. pk_id t = i) (merge_tasks live turn) =
    (case find (\<lambda>t. pk_id t = i) turn of Some t \<Rightarrow> Some t | None \<Rightarrow> find (\<lambda>t. pk_id t = i) live)"
  using assms
proof (induction turn rule: rev_induct)
  case Nil
  then show ?case by (simp add: merge_tasks_def)
next
  case (snoc t turn)
  have step: "merge_tasks live (turn @ [t]) = upsert pk_id t (\<lambda>old inc. inc) (merge_tasks live turn)" by (simp add: merge_tasks_def)
  have other: "find (\<lambda>x. pk_id x = i) (turn @ [t]) = (case find (\<lambda>x. pk_id x = i) turn of Some x \<Rightarrow> Some x | None \<Rightarrow> if pk_id t = i then Some t else None)" for i
    by (induction turn) auto
  have "find (\<lambda>x. pk_id x = pk_id t) turn = None" using snoc.prems by (fastforce simp: find_None_iff image_iff)
  then show ?case using snoc by (auto simp: step upsert_find other split: option.split)
qed

lemma merge_tasks_distinct: "distinct (map pk_id live) \<Longrightarrow> distinct (map pk_id (merge_tasks live turn))"
proof (induction turn rule: rev_induct)
  case (snoc t turn)
  then show ?case by (simp add: merge_tasks_def upsert_distinct)
qed (simp add: merge_tasks_def)

text \<open>The turn is the truth about its tasks: after the turn of a stream, or one read whole that answers the run on screen, every task
  the turn names stands as the turn has it, and every other task stands as the stream left it.\<close>

theorem turn_is_truth:
  assumes "pn_live s = Some l" "distinct (map pk_id (pu_tasks t))"
    and "s' = fold_event (EvTurn t) s \<or> s' = apply_turn s t \<and> \<not> lv_streaming l \<and> lv_request l = pu_request t \<and> lv_request l \<noteq> None"
  shows "pn_turn s' = Some t \<and> (\<exists>l'. pn_live s' = Some l' \<and> (\<forall>i. find (\<lambda>x. pk_id x = i) (lv_tasks l') =
    (case find (\<lambda>x. pk_id x = i) (pu_tasks t) of Some x \<Rightarrow> Some x | None \<Rightarrow> find (\<lambda>x. pk_id x = i) (lv_tasks l))))"
  using assms(3)
proof
  assume "s' = fold_event (EvTurn t) s"
  then show ?thesis by (simp add: fold_event_def assms(1) merge_tasks_find[OF assms(2)])
next
  assume h: "s' = apply_turn s t \<and> \<not> lv_streaming l \<and> lv_request l = pu_request t \<and> lv_request l \<noteq> None"
  then have "\<not> lv_streaming l \<and> lv_request l \<noteq> None \<and> lv_request l = pu_request t" by blast
  then have "apply_turn s t = s\<lparr>pn_turn := Some t, pn_live := Some (l\<lparr>lv_tasks := merge_tasks (lv_tasks l) (pu_tasks t)\<rparr>)\<rparr>"
    unfolding apply_turn_def assms(1) option.case by (rule if_P)
  then have "s' = s\<lparr>pn_turn := Some t, pn_live := Some (l\<lparr>lv_tasks := merge_tasks (lv_tasks l) (pu_tasks t)\<rparr>)\<rparr>" using h by simp
  then show ?thesis by (simp add: merge_tasks_find[OF assms(2)])
qed

definition ids_once :: "'e live_run \<Rightarrow> bool" where
  "ids_once l =
     (distinct (map pk_id (lv_tasks l)) \<and> distinct (map pa_task (lv_activity l)) \<and> distinct (map fst (lv_evidence l)) \<and> distinct (map sm_run (lv_sims l)))"

lemma fold_live_ids: "ids_once l \<Longrightarrow> ids_once (fold_live e l)"
  by (cases e) (auto simp: ids_once_def Let_def count_activity_def merge_tasks_distinct intro!: upsert_distinct split: panel_node.splits)

definition panel_ok :: "('e, 'c) panel_state \<Rightarrow> bool" where
  "panel_ok s = (pred_option ids_once (pn_live s) \<and> pred_option ids_once (pn_previous s))"

lemma fresh_ids [simp]: "ids_once (fresh_run k a d)"
  by (simp add: ids_once_def fresh_run_def)

text \<open>Every row of the panel is shown once: whatever messages, decisions, events, turns, ends and refusals come, no task, record,
  simulation run or line of activity is listed twice.\<close>

theorem panel_rows_once:
  assumes "panel_ok s"
  shows "panel_ok (apply_events s es)" "panel_ok (begin_message s text)" "panel_ok (begin_decision s approved)" "panel_ok (end_stream s how)"
    "panel_ok (apply_turn s t)" "panel_ok (refuse s)"
proof -
  have step: "panel_ok (fold_event e s)" if "panel_ok s" for e and s :: "('e, 'c) panel_state"
    using that fold_live_ids by (auto simp: panel_ok_def fold_event_def Let_def pred_option_def split: panel_event.splits)
  show "panel_ok (apply_events s es)"
    using assms by (induction es arbitrary: s) (simp_all add: apply_events_def step)
qed (use assms merge_tasks_distinct in \<open>auto simp: panel_ok_def begin_message_def begin_decision_def end_stream_def apply_turn_def refuse_def
       pred_option_def ids_once_def fresh_run_def Let_def split: option.splits\<close>)

subsection \<open>A refusal restores, a new message clears\<close>

definition is_turn :: "('e, 'c) panel_event \<Rightarrow> bool" where
  "is_turn e = (case e of EvTurn t \<Rightarrow> True | _ \<Rightarrow> False)"

lemma events_frame:
  "pn_previous (apply_events s es) = pn_previous s \<and> (pn_live (apply_events s es) = None \<longleftrightarrow> pn_live s = None) \<and>
   (list_all (Not \<circ> is_turn) es \<longrightarrow> pn_turn (apply_events s es) = pn_turn s)"
proof (induction es arbitrary: s)
  case (Cons e es)
  have "apply_events s (e # es) = apply_events (fold_event e s) es" by (simp add: apply_events_def)
  then show ?case using Cons.IH[of "fold_event e s"] by (cases e) (auto simp: fold_event_def is_turn_def Let_def)
qed (simp add: apply_events_def)

text \<open>A refused request leaves no trace: whatever the stream said before the refusal (it holds no turn, for nothing ran), the panel is
  what it was before the message, or the decision, was sent.\<close>

theorem refusal_restores:
  assumes "list_all (Not \<circ> is_turn) es" "started = begin_message s text \<or> started = begin_decision s approved"
  shows "refuse (apply_events started es) = s\<lparr>pn_previous := None\<rparr>"
proof -
  have "pn_previous started = pn_live s" "pn_live started \<noteq> None" "pn_turn started = pn_turn s"
    using assms(2) by (auto simp: begin_message_def begin_decision_def Let_def)
  then show ?thesis using events_frame[of started es] assms(1)
    by (intro panel_state.equality) (simp_all add: refuse_def del: not_None_eq)
qed

lemma fold_live_request:
  "lv_kind (fold_live e l) = lv_kind l \<and>
   (lv_request (fold_live e l) = lv_request l \<or> (\<exists>i. lv_request (fold_live e l) = Some i \<and> e \<in> {EvAccepted (Some i), EvError (Some i)}))"
  by (cases e) (auto simp: Let_def split: option.splits panel_node.splits)

lemma events_request:
  assumes "pn_live s = Some l"
  shows "\<exists>l'. pn_live (apply_events s es) = Some l' \<and> lv_kind l' = lv_kind l \<and>
    (lv_request l' = lv_request l \<or> (\<exists>i. lv_request l' = Some i \<and> {EvAccepted (Some i), EvError (Some i)} \<inter> set es \<noteq> {}))"
  using assms
proof (induction es arbitrary: s l)
  case (Cons e es)
  have "pn_live (fold_event e s) = Some (fold_live e l)" using Cons.prems by (cases e) (simp_all add: fold_event_def Let_def)
  from Cons.IH[OF this] obtain l' where l': "pn_live (apply_events (fold_event e s) es) = Some l'" "lv_kind l' = lv_kind (fold_live e l)"
    "lv_request l' = lv_request (fold_live e l) \<or> (\<exists>i. lv_request l' = Some i \<and> {EvAccepted (Some i), EvError (Some i)} \<inter> set es \<noteq> {})"
    by blast
  then show ?case using fold_live_request[of e l] by (auto simp: apply_events_def)
qed (simp add: apply_events_def)

text \<open>C33: An earlier answer is never shown as the answer to a new message: after a message, the current turn (and so its plan and its
  cards) is one whose request is the one this very run was accepted, or failed, under.\<close>
theorem current_turn_was_accepted:
  assumes "current_turn (apply_events (begin_message s text) es) = Some t"
  shows "\<exists>i. pu_request t = Some i \<and> {EvAccepted (Some i), EvError (Some i)} \<inter> set es \<noteq> {}"
proof -
  have live: "pn_live (begin_message s text) = Some (fresh_run ByMessage (Some text) None)" by (simp add: begin_message_def)
  obtain l where l: "pn_live (apply_events (begin_message s text) es) = Some l" "lv_kind l = ByMessage"
    "lv_request l = None \<or> (\<exists>i. lv_request l = Some i \<and> {EvAccepted (Some i), EvError (Some i)} \<inter> set es \<noteq> {})"
    using events_request[OF live, of es] by (auto simp: fresh_run_def)
  then have "lv_request l \<noteq> None \<and> lv_request l = pu_request t"
    using assms by (auto simp: current_turn_def split: option.splits if_splits)
  then show ?thesis using l(3) by auto
qed

subsection \<open>What the rows count\<close>

definition activity_count :: "string \<Rightarrow> activity_class \<Rightarrow> panel_activity list \<Rightarrow> nat" where
  "activity_count i c as =
     (case find (\<lambda>a. pa_task a = i) as of None \<Rightarrow> 0 | Some a \<Rightarrow> (case jget (pa_counts a) c of Some n \<Rightarrow> n | None \<Rightarrow> 0))"

lemma count_one: "activity_count i c (count_activity task tool label as) = activity_count i c as + of_bool (i = task \<and> c = class_of tool)"
  by (auto simp: activity_count_def count_activity_def Let_def upsert_find split: option.splits)

definition reads_of :: "string \<Rightarrow> activity_class \<Rightarrow> ('e, 'c) panel_event \<Rightarrow> bool" where
  "reads_of i c e = (case e of EvActivity task tool label \<Rightarrow> task = i \<and> class_of tool = c | _ \<Rightarrow> False)"

lemma fold_live_count: "activity_count i c (lv_activity (fold_live e l)) = activity_count i c (lv_activity l) + of_bool (reads_of i c e)"
  by (cases e) (auto simp: count_one reads_of_def Let_def split: panel_node.splits)

text \<open>The activity lines count exactly the tool calls the stream reported, per task and per class.\<close>

theorem activity_counted:
  assumes "pn_live (apply_events s es) = Some l'" "pn_live s = Some l"
  shows "activity_count i c (lv_activity l') = activity_count i c (lv_activity l) + length (filter (reads_of i c) es)"
  using assms
proof (induction es arbitrary: s l)
  case (Cons e es)
  have "pn_live (fold_event e s) = Some (fold_live e l)" using Cons.prems(2) by (cases e) (simp_all add: fold_event_def Let_def)
  from Cons.IH[OF _ this] Cons.prems(1) show ?case by (simp add: apply_events_def fold_live_count)
qed (simp add: apply_events_def)

text \<open>A row never shows less than the copilot reported, and the rows and the count of hidden ones are all the runs.\<close>

lemma sim_row_progress: "sm_progress m \<le> 100 \<Longrightarrow> sm_progress m \<le> sw_progress (sim_row_of socket m)"
  by (auto simp: sim_row_of_def Let_def split: option.splits if_splits prod.splits)

lemma sim_rows_hidden: "pn_live s = Some l \<Longrightarrow> length (sim_rows s socket limit) + hidden_sim_runs s limit = length (lv_sims l)"
proof -
  assume l: "pn_live s = Some l"
  let ?rows = "map (sim_row_of socket) (lv_sims l)"
  let ?shown = "filter (\<lambda>r. \<not> terminal (sw_status r)) ?rows @ filter (\<lambda>r. terminal (sw_status r)) ?rows"
  have "length ?shown = length ?rows"
    using sum_length_filter_compl[of "\<lambda>r. terminal (sw_status r)" ?rows] by (simp only: length_append)
  then have "length (take limit ?shown) + (length (lv_sims l) - limit) = length (lv_sims l)" by (simp only: length_take length_map)
  then show ?thesis by (simp only: sim_rows_def hidden_sim_runs_def l option.case Let_def)
qed

text \<open>What is lit while a plan waits for its person, and what is never lit.\<close>

lemma waiting_lights_confirm: "\<not> is_running s \<Longrightarrow> pn_turn s = Some t \<Longrightarrow> pu_plan t \<noteq> None \<Longrightarrow> active_nodes s = [AtConfirm]"
  by (simp add: active_nodes_def)

subsection \<open>Examples\<close>

definition sample_turn :: "nat panel_turn" where
  "sample_turn = \<lparr>pu_request = Some ''r'', pu_running = False, pu_dialogue = [SaidByOperator ''why''], pu_cards = [],
     pu_tasks = [\<lparr>pk_id = ''T1'', pk_specialist = Diagnose, pk_goal = None, pk_status = TaskEnded Answered, pk_reason = None\<rparr>], pu_plan = None\<rparr>"

definition sample_start :: "(nat, nat) panel_state" where
  "sample_start = begin_message empty_panel ''why''"

theorem turn_is_truth_witness: "pn_turn (fold_event (EvTurn sample_turn) sample_start) = Some sample_turn"
proof -
  have "pn_live sample_start = Some (fresh_run ByMessage (Some ''why'') None)" by (simp add: sample_start_def begin_message_def)
  moreover have "distinct (map pk_id (pu_tasks sample_turn))" by (simp add: sample_turn_def)
  ultimately show ?thesis using turn_is_truth[OF _ _ disjI1[OF refl]] by blast
qed

theorem refusal_restores_witness:
  "refuse (apply_events (begin_message empty_panel ''why'') [EvPing, EvStep AtIntake]) = (empty_panel :: (nat, nat) panel_state)\<lparr>pn_previous := None\<rparr>"
  by (rule refusal_restores[OF _ disjI1[OF refl]]) (simp add: is_turn_def)

theorem current_turn_was_accepted_witness:
  "\<exists>i. pu_request sample_turn = Some i \<and> {EvAccepted (Some i), EvError (Some i)} \<inter> set [EvAccepted (Some ''r''), EvTurn sample_turn :: (nat, nat) panel_event] \<noteq> {}"
proof (rule current_turn_was_accepted)
  show "current_turn (apply_events (begin_message empty_panel ''why'') [EvAccepted (Some ''r''), EvTurn sample_turn :: (nat, nat) panel_event]) = Some sample_turn"
    by (simp add: apply_events_def fold_event_def begin_message_def fresh_run_def current_turn_def empty_panel_def) (simp add: sample_turn_def)
qed

end
