(* ===== verification/Spec2Isabelle.thy ===== *)
theory Spec2Isabelle
  imports Uuid Http_Isolation Ws_Session Sql_Split Write_Path Copilot_Render Copilot_Graph Copilot_Gate Copilot_Caches Live_View Panel
begin

text \<open>
  DTwin is a digital twin of buildings: gateways post readings over HTTP, an ingest service (apps/ingest) stores them,
  raises alerts, fans them out to browsers over WebSocket and takes supervisory setpoint commands; a web application
  (apps/web) shows the building and hosts a copilot, an agent graph around a language model that may answer
  with verified figures and propose setpoint plans to a person. This development models the core of those TypeScript services.

  \<^bold>\<open>Conventions.\<close> A class is a record of its fields and each method a function on it; a JavaScript \<open>Map\<close> is an association
  list in insertion order (\<open>jsmap\<close>, Prelude), a \<open>Set\<close> a list without repetition; a thrown error or a refusal is a value
  of a sum, an option or a reply type. Times are whole milliseconds, doubles exact rationals unless a theory says
  otherwise, strings are lists of characters (lists of code points where Unicode matters). Clocks, random draws, digests, the
  database's ids, the answers of a relay, a resolver, a model or a gateway are arguments: no theorem assumes anything of
  them that it does not state. What runs between two awaits is one step, and interleavings are explicit lists of steps.

  \<^bold>\<open>Shared packages\<close> (packages/types, packages/db).

  \<^item> Prelude: jsmaps and generic lemmas. Contracts: enumerations, readings, topics, roles, staleness, rule and control
    contracts (enums.ts, telemetry.ts, tenancy.ts, ws.ts, freshness.ts, alerts.ts, control.ts).
  \<^item> Limiter: \<open>KeyedLimiter\<close> and \<open>clientAddress\<close> (limiter.ts). \<open>limiter_grant_bound\<close>: a key is granted at most its burst and
    what its rate refills in any window; the key cap bounds the memory.
  \<^item> Uuid: \<open>uuidv7\<close> (ids.ts), byte by byte; order within a tick, and where a borrowed millisecond breaks it.
  \<^item> Auth: passwords, sessions, API keys, tickets, request authentication (db/auth.ts, ingest/auth.ts, limits.ts).
    \<open>ticket_accepts_only_signed\<close>; \<open>changes_need_a_key\<close> builds on it; \<open>untracked_failures_unrationed\<close> is a hole.
  \<^item> Sql_Split: the statement splitter (sql-split.ts), its termination and its agreement with a list-based reference.

  \<^bold>\<open>Ingest service\<close> (apps/ingest/src).

  \<^item> Registry (registry.ts, quality.ts): the paged load of devices and the quality gate; \<open>registry_lookup_exact\<close>: after a
    refresh a lookup finds exactly the rows of the database.
  \<^item> Fanout (fanout.ts): subscriptions and delivery; \<open>fanout_isolation\<close>: a connection receives only topics of its tenant, and
    the index of topics agrees with the connections. Ws_Session (server.ts, socket part): the handler of a connection refines the
    abstract fan-out (\<open>ws_refines_fanout\<close>), nothing is said before a ticket, connections are capped.
  \<^item> Writer (writer.ts, the insert of queries/telemetry.ts): a reading that names the tenant of its sensor is buffered, in
    flight, shed and counted, or its row is in the table. Pipeline and Write_Path (pipeline.ts): the composition, and how one ancient reading stalls it.
  \<^item> Conditions, Alert_Store, Alert_Engine (rules/): predicates, rows, the asynchronous opens and closes; one live alert per rule
    and target, exact debounce, and the tracked state in step with the rows.
  \<^item> Destination, Notify (rules/destination.ts, notify.ts): addresses as words, the outbox under leases; a webhook is posted only to
    public addresses, stated octet by octet (but for the expanded spellings of mapped addresses); claims of a row are a lease apart, a delivered row stays delivered.
  \<^item> Envelope, Control_Store, Control_Service (control/): the eleven checks in order against a reference, the command table with
    its constraints, issue, collect and report. A gateway only gets commands that a second evaluation permits; a zone has one
    live command and one override in force; settled commands are final.
  \<^item> Simulator (simulator/): the synthetic feed and the gateway it plays; commands drive the setpoint, counters never rewind.
  \<^item> Metrics (metrics.ts): legal metrics, and the service's own are, render to a text whose lines read back to them.
  \<^item> Http_Schemas, Http_Server, Http_Isolation (server.ts): the request schemas, every route, and the theorems on the dispatch: a
    change needs a key with the scope, touches only the key's tenant, and a batch is taken whole or refused.

  \<^bold>\<open>Copilot\<close> (apps/web/lib/copilot).

  \<^item> Js_Regex: patterns by backtracking over code points. Copilot_Units (units.ts), Copilot_Evidence (evidence.ts, caveats.ts),
    Copilot_Verify (verify.ts), Copilot_Render (render.ts): what an answer is made of and what the verifier admits. Every figure
    shown agrees with a value of this request's evidence in the unit and on the basis stated, or with the stated derivation of
    such values; no quantity in a listed spelling hides in prose; the caveats owed are carried, and none is carried that no
    record calls for (but for the check-mode caveat); the text of a figure reads back to its value.
  \<^item> Copilot_Ledger (ledger.ts): one-shot grants bound to a thread and a hash. Copilot_Runs (limits.ts, registry.ts): budgets, Stop and
    deadlines of a request, with its model calls in flight.
  \<^item> Copilot_State (state.ts, notices.ts, lifecycle.ts, orient.ts and the routers), Copilot_Planner (planner.ts), Copilot_Tools
    (tools/index.ts, common.ts, control.ts, report.ts), Copilot_Specialist (specialist.ts), Copilot_Plan (compose.ts, plan-check.ts,
    confirm.ts, apply.ts), Copilot_Graph (graph.ts, fanout.ts): the nodes and one superstep of the graph. A request ends or
    waits for a person; it reaches the controller only if the person may command and the scope allows it; a shown plan is the
    proposal, each command with the answer of its own dry run, worded within the rules.
  \<^item> Copilot_Gate: confirm and apply against arbitrary states of all threads. What is issued was approved on that very thread, by
    id and hash, within the grant's lifetime, and an approval is spent at most once.
  \<^item> Copilot_Caches (graph-cache.ts, checkpoints.ts): the graphs and threads a process keeps, as one least-recently-used interface.

  \<^bold>\<open>Dashboard\<close> (apps/web/lib).

  \<^item> Live_View (live.ts, alerts.ts, ws.ts): what the browser remembers of readings and alerts and what it may draw. A silent zone goes
    stale (counted from when we began to listen), a dead meter leaves the total, the kept alert events give the same alerts.
  \<^item> Panel (copilot-panel/run.ts): the copilot panel's reducers. A refusal leaves no trace, an earlier answer is never shown as the answer
    to a new message.

  \<^bold>\<open>Interfaces.\<close> \<open>topic_guard\<close> (Fanout): what the fan-out asks of the one who says which topics a tenant may join; interpreted on the
  registry's \<open>may_subscribe\<close>, and the isolation theorem is proved in it. \<open>text_codec\<close> (Auth): an injective encoding into an
  alphabet without a dot; interpreted on base64url, and the ticket's parse is proved in it. \<open>lru_store\<close> (Copilot_Caches): keys in the order of
  use, with what making room may let go; interpreted on the graph cache and on the checkpointer.

  \<^bold>\<open>Bounds and fuel.\<close> Loops whose end is not structural are total functions with a measure, or partial functions whose totality is a
  theorem (the registry's paging, the splitter). \<open>spec_run\<close> and \<open>graph_run\<close> take the number of supersteps: a specialist ends
  within twice its turns and two (14 with the defaults), a request within three per wave, two per draft and seven (22), both below the
  recursion limit of 40, so that the engine's limit is never what ends a run.

  \<^bold>\<open>Not modelled.\<close> The text of messages, prompts and log lines; headers, request ids, timers' scheduling and the drain on shutdown; SQL that
  only reads (the statements that change state are modelled in the services that run them); the copilot's reading tools
  (their drafts are arguments), the model SDK, LangGraph's engine and checkpointer, streaming to the browser; React
  components; the Python physics worker; configuration and start-up; the tests. They are input and output, rendering, or code
  that is not in the repository. Rounding of doubles is left out except where a theory models it.
\<close>

end
